(* ===== verification/Prelude.thy ===== *)
theory Prelude
  imports Main "HOL-Library.Word" "HOL-Library.Sublist"
begin

text \<open>
  The part of Go and of its standard library that the components share.

  A Go string or byte slice is a \<open>string\<close>: a list of 8-bit characters, so that \<open>length\<close>
  counts bytes as \<open>len\<close> does. A fallible operation returns \<open>error + value\<close>, \<open>Inl\<close> for the
  error. The functions below follow the documented behaviour and the source of the packages
  \<open>strings\<close> and \<open>strconv\<close> of Go 1.12, for the uses the program makes of them:
  \<^item> \<open>Split\<close>, \<open>SplitN2\<close>, \<open>Index\<close>, \<open>LastIndex\<close>, \<open>Contains\<close> take a one-byte separator, which is
    what every call in the modelled code passes;
  \<^item> \<open>TrimSpace\<close> removes Unicode white space, given by the UTF-8 encodings of its runes;
  \<^item> \<open>ToLower\<close> lowers ASCII letters and the two other runes whose lower case is ASCII (the
    Kelvin sign and the dotted capital I). Every caller compares the result with an ASCII
    literal or puts it into an error text, so the case of other runes is never observed;
  \<^item> \<open>ParseUint\<close>, \<open>ParseInt\<close>, \<open>Atoi\<close>, \<open>Itoa\<close> are base 10, with \<open>int\<close> 64 bits wide.
\<close>

section \<open>Collections of rewrite rules\<close>

named_theorems go_string \<open>facts about the string functions\<close>
named_theorems go_num \<open>facts about decimal conversion\<close>
named_theorems go_result \<open>unfolding of the result type\<close>

lemmas char_eval = char_of_def bit_Suc_0_iff

type_synonym bytes = string
type_synonym int64 = "64 word"

abbreviation ord :: "char \<Rightarrow> nat" where
  "ord c \<equiv> of_char c"

lemma sint64_of_int:
  "- 9223372036854775808 \<le> x \<Longrightarrow> x < 9223372036854775808 \<Longrightarrow> sint (word_of_int x :: int64) = x"
  by (simp add: int_word_sint)

section \<open>Results\<close>

definition rbind :: "'e + 'a \<Rightarrow> ('a \<Rightarrow> 'e + 'b) \<Rightarrow> 'e + 'b" where
  "rbind r f = (case r of Inl e \<Rightarrow> Inl e | Inr x \<Rightarrow> f x)"

lemma rbind_simps [simp, go_result]:
  "rbind (Inl e) f = Inl e"
  "rbind (Inr x) f = f x"
  by (simp_all add: rbind_def)

lemma rbind_Inr_iff [go_result]:
  "rbind r f = Inr y \<longleftrightarrow> (\<exists>x. r = Inr x \<and> f x = Inr y)"
  by (cases r) simp_all

lemma rbind_Inl_iff [go_result]:
  "rbind r f = Inl e \<longleftrightarrow> r = Inl e \<or> (\<exists>x. r = Inr x \<and> f x = Inl e)"
  by (cases r) auto

section \<open>Package strings\<close>

fun Index :: "char \<Rightarrow> string \<Rightarrow> nat option" where
  "Index c [] = None"
| "Index c (x # xs) = (if x = c then Some 0 else map_option Suc (Index c xs))"

fun LastIndex :: "char \<Rightarrow> string \<Rightarrow> nat option" where
  "LastIndex c [] = None"
| "LastIndex c (x # xs) =
     (case LastIndex c xs of
        Some i \<Rightarrow> Some (Suc i)
      | None \<Rightarrow> (if x = c then Some 0 else None))"

fun IndexFunc :: "(char \<Rightarrow> bool) \<Rightarrow> string \<Rightarrow> nat option" where
  "IndexFunc p [] = None"
| "IndexFunc p (x # xs) = (if p x then Some 0 else map_option Suc (IndexFunc p xs))"

definition Contains :: "string \<Rightarrow> char \<Rightarrow> bool" where
  "Contains s c \<longleftrightarrow> Index c s \<noteq> None"

fun Split :: "string \<Rightarrow> char \<Rightarrow> string list" where
  "Split [] c = [[]]"
| "Split (x # xs) c =
     (if x = c then [] # Split xs c
      else (case Split xs c of [] \<Rightarrow> [[x]] | y # ys \<Rightarrow> (x # y) # ys))"

definition SplitN2 :: "string \<Rightarrow> char \<Rightarrow> string list" where
  "SplitN2 s c = (case Index c s of None \<Rightarrow> [s] | Some i \<Rightarrow> [take i s, drop (Suc i) s])"

fun Join :: "string list \<Rightarrow> string \<Rightarrow> string" where
  "Join [] sep = []"
| "Join [x] sep = x"
| "Join (x # y # zs) sep = x @ sep @ Join (y # zs) sep"

definition HasPrefix :: "string \<Rightarrow> string \<Rightarrow> bool" where
  "HasPrefix s p \<longleftrightarrow> take (length p) s = p"

definition HasSuffix :: "string \<Rightarrow> string \<Rightarrow> bool" where
  "HasSuffix s p \<longleftrightarrow> length p \<le> length s \<and> drop (length s - length p) s = p"

definition TrimPrefix :: "string \<Rightarrow> string \<Rightarrow> string" where
  "TrimPrefix s p = (if HasPrefix s p then drop (length p) s else s)"

text \<open>The runes \<open>unicode.IsSpace\<close> accepts, as UTF-8.\<close>

definition space_runes :: "string list" where
  "space_runes =
     [[CHR 0x09], [CHR 0x0A], [CHR 0x0B], [CHR 0x0C], [CHR 0x0D], [CHR 0x20],
      [CHR 0xC2, CHR 0x85], [CHR 0xC2, CHR 0xA0],
      [CHR 0xE1, CHR 0x9A, CHR 0x80],
      [CHR 0xE2, CHR 0x80, CHR 0x80], [CHR 0xE2, CHR 0x80, CHR 0x81],
      [CHR 0xE2, CHR 0x80, CHR 0x82], [CHR 0xE2, CHR 0x80, CHR 0x83],
      [CHR 0xE2, CHR 0x80, CHR 0x84], [CHR 0xE2, CHR 0x80, CHR 0x85],
      [CHR 0xE2, CHR 0x80, CHR 0x86], [CHR 0xE2, CHR 0x80, CHR 0x87],
      [CHR 0xE2, CHR 0x80, CHR 0x88], [CHR 0xE2, CHR 0x80, CHR 0x89],
      [CHR 0xE2, CHR 0x80, CHR 0x8A], [CHR 0xE2, CHR 0x80, CHR 0xA8],
      [CHR 0xE2, CHR 0x80, CHR 0xA9], [CHR 0xE2, CHR 0x80, CHR 0xAF],
      [CHR 0xE2, CHR 0x81, CHR 0x9F], [CHR 0xE3, CHR 0x80, CHR 0x80]]"

fun strip_first :: "string list \<Rightarrow> string \<Rightarrow> string option" where
  "strip_first [] s = None"
| "strip_first (r # rs) s =
     (if r \<noteq> [] \<and> HasPrefix s r then Some (drop (length r) s) else strip_first rs s)"

lemma strip_first_length: "strip_first rs s = Some t \<Longrightarrow> length t < length s"
proof (induction rs s rule: strip_first.induct)
  case (2 r rs s)
  then show ?case
    by (cases s; cases r) (auto simp: HasPrefix_def split: if_splits)
qed simp

function TrimLeftRunes :: "string list \<Rightarrow> string \<Rightarrow> string" where
  "TrimLeftRunes rs s =
     (case strip_first rs s of None \<Rightarrow> s | Some t \<Rightarrow> TrimLeftRunes rs t)"
  by pat_completeness auto
termination
  by (relation "measure (\<lambda>(rs, s). length s)") (auto dest: strip_first_length)

declare TrimLeftRunes.simps [simp del]

definition TrimRightRunes :: "string list \<Rightarrow> string \<Rightarrow> string" where
  "TrimRightRunes rs s = rev (TrimLeftRunes (map rev rs) (rev s))"

definition TrimSpace :: "string \<Rightarrow> string" where
  "TrimSpace s = TrimRightRunes space_runes (TrimLeftRunes space_runes s)"

definition lower_ascii :: "char \<Rightarrow> char" where
  "lower_ascii c = (if 65 \<le> ord c \<and> ord c \<le> 90 then char_of (ord c + 32) else c)"

function ToLower :: "string \<Rightarrow> string" where
  "ToLower s =
     (if s = [] then []
      else if HasPrefix s [CHR 0xE2, CHR 0x84, CHR 0xAA] then CHR ''k'' # ToLower (drop 3 s)
      else if HasPrefix s [CHR 0xC4, CHR 0xB0] then CHR ''i'' # ToLower (drop 2 s)
      else lower_ascii (hd s) # ToLower (tl s))"
  by pat_completeness auto
termination
  by (relation "measure length") auto

declare ToLower.simps [simp del]

subsection \<open>Laws of searching and splitting\<close>

lemma Index_None_iff [go_string]: "Index c s = None \<longleftrightarrow> c \<notin> set s"
  by (induction s) auto

lemma Index_Some_iff [go_string]:
  "Index c s = Some i \<longleftrightarrow> i < length s \<and> s ! i = c \<and> c \<notin> set (take i s)"
proof (induction s arbitrary: i)
  case (Cons x xs)
  then show ?case by (cases i) auto
qed simp

lemma Index_append_notin [simp]:
  "c \<notin> set s \<Longrightarrow> Index c (s @ c # t) = Some (length s)"
  by (induction s) auto

lemma Contains_iff [simp, go_string]: "Contains s c \<longleftrightarrow> c \<in> set s"
  by (auto simp: Contains_def Index_None_iff)

lemma IndexFunc_None_iff [go_string]: "IndexFunc p s = None \<longleftrightarrow> (\<forall>c \<in> set s. \<not> p c)"
  by (induction s) auto

lemma LastIndex_None_iff [go_string]: "LastIndex c s = None \<longleftrightarrow> c \<notin> set s"
  by (induction s) (auto split: option.splits)

lemma LastIndex_Some_bound: "LastIndex c s = Some i \<Longrightarrow> i < length s"
  by (induction s arbitrary: i) (auto split: option.splits if_splits)

lemma Split_not_Nil [simp]: "Split s c \<noteq> []"
  by (induction s) (auto split: list.splits)

lemma Split_no_sep: "p \<in> set (Split s c) \<Longrightarrow> c \<notin> set p"
proof (induction s arbitrary: p)
  case (Cons x xs)
  then show ?case
    by (cases "Split xs c") (auto split: if_splits)
qed simp

lemma Split_single [simp]: "c \<notin> set s \<Longrightarrow> Split s c = [s]"
  by (induction s) auto

lemma Split_append: "c \<notin> set s \<Longrightarrow> Split (s @ c # t) c = s # Split t c"
  by (induction s) auto

lemma Split_length_ge_2: "length (Split s c) < 2 \<longleftrightarrow> c \<notin> set s"
proof (induction s)
  case (Cons x xs)
  then show ?case
    by (cases "Split xs c"; cases "tl (Split xs c)") auto
qed simp

lemma hd_Split_append: "c \<notin> set s \<Longrightarrow> hd (Split (s @ c # t) c) = s"
  by (simp add: Split_append)

lemma Join_Cons: "ys \<noteq> [] \<Longrightarrow> Join (x # ys) sep = x @ sep @ Join ys sep"
  by (cases ys) simp_all

lemma Join_Split [go_string]: "Join (Split s c) [c] = s"
proof (induction s)
  case (Cons x xs)
  then show ?case
    by (cases "Split xs c"; cases "tl (Split xs c)") auto
qed simp

lemma Split_Join [go_string]:
  "ps \<noteq> [] \<Longrightarrow> \<forall>p \<in> set ps. c \<notin> set p \<Longrightarrow> Split (Join ps [c]) c = ps"
proof (induction ps "[c]" rule: Join.induct)
  case (3 x y zs)
  then show ?case by (simp add: Split_append)
qed simp_all

lemma SplitN2_sep: "c \<notin> set k \<Longrightarrow> SplitN2 (k @ c # v) c = [k, v]"
  by (simp add: SplitN2_def)

lemma SplitN2_length: "length (SplitN2 s c) < 2 \<longleftrightarrow> c \<notin> set s"
  using Index_None_iff [of c s] by (cases "Index c s") (simp_all add: SplitN2_def)

lemma HasPrefix_iff [go_string]: "HasPrefix s p \<longleftrightarrow> prefix p s"
  by (metis HasPrefix_def append_take_drop_id prefixI prefixE append_eq_conv_conj)

subsection \<open>Laws of trimming\<close>

lemma TrimLeftRunes_suffix: "suffix (TrimLeftRunes rs s) s"
proof (induction rs s rule: TrimLeftRunes.induct)
  case (1 rs s)
  have strip: "strip_first rs s = Some t \<Longrightarrow> suffix t s" for t
    by (induction rs s rule: strip_first.induct) (auto simp: suffix_drop split: if_splits)
  show ?case
  proof (cases "strip_first rs s")
    case None
    then show ?thesis by (simp add: TrimLeftRunes.simps)
  next
    case (Some t)
    then show ?thesis
      using "1.IH" [OF Some] strip [OF Some] suffix_order.trans
      by (simp add: TrimLeftRunes.simps [of rs s])
  qed
qed

lemma set_TrimSpace: "set (TrimSpace s) \<subseteq> set s"
proof -
  have l: "set (TrimLeftRunes rs t) \<subseteq> set t" for rs t
    using TrimLeftRunes_suffix set_mono_suffix by blast
  have "set (TrimSpace s) \<subseteq> set (TrimLeftRunes space_runes s)"
    using l [of "map rev space_runes" "rev (TrimLeftRunes space_runes s)"]
    by (simp add: TrimSpace_def TrimRightRunes_def)
  with l show ?thesis by blast
qed

lemma length_TrimSpace: "length (TrimSpace s) \<le> length s"
proof -
  have l: "length (TrimLeftRunes rs t) \<le> length t" for rs t
    using TrimLeftRunes_suffix suffix_length_le by blast
  have "length (TrimSpace s) \<le> length (TrimLeftRunes space_runes s)"
    using l [of "map rev space_runes" "rev (TrimLeftRunes space_runes s)"]
    by (simp add: TrimSpace_def TrimRightRunes_def)
  with l [of space_runes s] show ?thesis by linarith
qed

lemma strip_first_None: "(\<And>r. r \<in> set rs \<Longrightarrow> r = [] \<or> s = [] \<or> hd r \<noteq> hd s) \<Longrightarrow> strip_first rs s = None"
proof (induction rs)
  case (Cons r rs)
  have "\<not> (r \<noteq> [] \<and> HasPrefix s r)"
    using Cons.prems [of r] by (cases r; cases s) (auto simp: HasPrefix_def)
  with Cons show ?case by auto
qed simp

definition graphic :: "char \<Rightarrow> bool" where
  "graphic c \<longleftrightarrow> 33 \<le> ord c \<and> ord c < 127"

lemma TrimLeft_graphic:
  assumes "s = [] \<or> graphic (hd s)"
  shows "TrimLeftRunes space_runes s = s" "TrimLeftRunes (map rev space_runes) s = s"
proof -
  have g: "list_all (\<lambda>r. \<not> graphic (hd r)) space_runes"
      "list_all (\<lambda>r. \<not> graphic (hd r)) (map rev space_runes)"
    by (simp_all add: space_runes_def graphic_def)
  have "strip_first space_runes s = None"
    by (rule strip_first_None) (metis (no_types, lifting) assms g(1) list_all_iff)
  then show "TrimLeftRunes space_runes s = s" by (subst TrimLeftRunes.simps) simp
  have "strip_first (map rev space_runes) s = None"
    by (rule strip_first_None) (metis (no_types, lifting) assms g(2) list_all_iff)
  then show "TrimLeftRunes (map rev space_runes) s = s" by (subst TrimLeftRunes.simps) simp
qed

lemma TrimSpace_graphic:
  "s = [] \<or> graphic (hd s) \<and> graphic (last s) \<Longrightarrow> TrimSpace s = s"
  using TrimLeft_graphic [of s] TrimLeft_graphic [of "rev s"]
  by (auto simp: TrimSpace_def TrimRightRunes_def hd_rev)

lemma TrimSpace_blank: "TrimSpace (CHR '' '' # s) = TrimSpace s"
proof -
  have "strip_first space_runes (CHR '' '' # s) = Some s"
    by (simp add: space_runes_def HasPrefix_def)
  then show ?thesis by (simp add: TrimSpace_def TrimLeftRunes.simps [of _ "CHR '' '' # s"])
qed

lemma strip_first_prefix:
  "strip_first rs s = None \<Longrightarrow> prefix t s \<Longrightarrow> strip_first rs t = None"
proof (induction rs)
  case (Cons r rs)
  have "\<not> (r \<noteq> [] \<and> HasPrefix t r)"
    using Cons.prems by (auto simp: HasPrefix_iff split: if_splits)
  with Cons show ?case by (auto split: if_splits)
qed simp

lemma TrimLeftRunes_fixed: "strip_first rs (TrimLeftRunes rs s) = None"
  by (induction rs s rule: TrimLeftRunes.induct)
    (subst TrimLeftRunes.simps, auto split: option.split)

lemma TrimLeftRunes_id: "strip_first rs s = None \<Longrightarrow> TrimLeftRunes rs s = s"
  by (subst TrimLeftRunes.simps) simp

lemma TrimSpace_idem [simp]: "TrimSpace (TrimSpace s) = TrimSpace s"
proof -
  let ?l = "TrimLeftRunes space_runes s"
  let ?q = "TrimLeftRunes (map rev space_runes) (rev ?l)"
  have "prefix (rev ?q) ?l"
    using TrimLeftRunes_suffix [of "map rev space_runes" "rev ?l"] by (simp add: suffix_to_prefix)
  then have "strip_first space_runes (rev ?q) = None"
    using strip_first_prefix TrimLeftRunes_fixed by blast
  moreover have "strip_first (map rev space_runes) ?q = None" by (rule TrimLeftRunes_fixed)
  ultimately show ?thesis
    by (simp add: TrimSpace_def TrimRightRunes_def TrimLeftRunes_id)
qed

end
