(* ===== verification/Logging.thy ===== *)
theory Logging
  imports Prelude
begin

text \<open>
  The levelled logger of \<open>pkg/log/default.go\<close>.

  A \<open>Logger\<close> is the Go struct; its \<open>inner\<close> logger is given by its prefix, since the flags are
  a constant, and its \<open>closer\<close> is optional because the logger that \<open>init\<close> installs has none.
  The world holds the package variable \<open>defaultLogger\<close>, the lines handed to \<open>inner.Output\<close>
  (prefix, call depth, text) and the writers that were closed. The mutex \<open>logLock\<close> makes each
  operation one step. Formatting (\<open>fmt.Sprint\<close>, \<open>Sprintln\<close>, \<open>Sprintf\<close>) of arbitrary values is
  an argument of the operations. A \<open>Fatal\<close> call ends the process: its outcome is the exit
  status, or the panic of \<open>Close\<close> on a logger without a closer.
\<close>

section \<open>Levels and loggers\<close>

type_synonym Level = int

text \<open>The constant block starts the levels at its fourth line, so \<open>iota\<close> is 3 there.\<close>

definition FatalLevel :: Level where "FatalLevel = 3"
definition ErrorLevel :: Level where "ErrorLevel = 4"
definition WarnLevel :: Level where "WarnLevel = 5"
definition InfoLevel :: Level where "InfoLevel = 6"
definition DebugLevel :: Level where "DebugLevel = 7"

lemmas level_defs =
  FatalLevel_def ErrorLevel_def WarnLevel_def InfoLevel_def DebugLevel_def

type_synonym writer = nat

record Logger =
  outputLevel :: Level
  inner_prefix :: string
  closer :: "writer option"
  initialized :: bool

record log_world =
  defaultLogger :: Logger
  log_lines :: "(string \<times> nat \<times> string) list"
  closed_writers :: "writer list"

datatype outcome = Running log_world | Exited int log_world | Panicked log_world

record 'v fmt =
  Sprint :: "'v list \<Rightarrow> string"
  Sprintln :: "'v list \<Rightarrow> string"
  Sprintf :: "string \<Rightarrow> 'v list \<Rightarrow> string"

definition initText :: string where
  "initText = ''Logger Init wasn'' @ [CHR 0x27] @ ''t called''"

definition init_log :: log_world where
  "init_log = \<lparr>defaultLogger = \<lparr>outputLevel = DebugLevel, inner_prefix = initText,
     closer = None, initialized = False\<rparr>, log_lines = [], closed_writers = []\<rparr>"

section \<open>Construction\<close>

definition parse_level :: "string \<Rightarrow> string + Level" where
  "parse_level errorLevel =
     (let lvl = ToLower errorLevel in
      if lvl = ''fatal'' then Inr FatalLevel
      else if lvl = ''error'' then Inr ErrorLevel
      else if lvl = ''warning'' then Inr WarnLevel
      else if lvl = ''warn'' then Inr WarnLevel
      else if lvl = ''info'' then Inr InfoLevel
      else if lvl = ''debug'' then Inr DebugLevel
      else Inl (''invalid logger level '' @ lvl))"

definition Init :: "string \<Rightarrow> string \<Rightarrow> writer \<Rightarrow> log_world \<Rightarrow> (string + Logger) \<times> log_world" where
  "Init name errorLevel logFile w =
     (case (if errorLevel = [] then Inr InfoLevel else parse_level errorLevel) of
        Inl e \<Rightarrow> (Inl e, w)
      | Inr level \<Rightarrow>
          let l = \<lparr>outputLevel = level, inner_prefix = name, closer = Some logFile,
                   initialized = True\<rparr>
          in (Inr l, if initialized (defaultLogger w) then w else w\<lparr>defaultLogger := l\<rparr>))"

section \<open>Output\<close>

definition Logger_output :: "Logger \<Rightarrow> Level \<Rightarrow> nat \<Rightarrow> string \<Rightarrow> log_world \<Rightarrow> log_world" where
  "Logger_output l s depth txt w =
     (let emit = (\<lambda>tag. w\<lparr>log_lines := log_lines w @ [(inner_prefix l, 3 + depth, tag @ txt)]\<rparr>) in
      if s = FatalLevel \<and> outputLevel l \<ge> FatalLevel then emit ''FATAL: ''
      else if s = ErrorLevel \<and> outputLevel l \<ge> ErrorLevel then emit ''ERROR: ''
      else if s = WarnLevel \<and> outputLevel l \<ge> WarnLevel then emit ''WARN: ''
      else if s = InfoLevel \<and> outputLevel l \<ge> InfoLevel then emit ''INFO: ''
      else if s = DebugLevel \<and> outputLevel l \<ge> DebugLevel then emit ''DEBUG: ''
      else w)"

definition Close :: "Logger \<Rightarrow> log_world \<Rightarrow> log_world option" where
  \<comment> \<open>\<open>None\<close> is the nil dereference of a missing closer.\<close>
  "Close l w = (case closer l of
      None \<Rightarrow> None
    | Some f \<Rightarrow> Some (w\<lparr>closed_writers := closed_writers w @ [f]\<rparr>))"

definition close_and_exit :: "Logger \<Rightarrow> log_world \<Rightarrow> outcome" where
  "close_and_exit l w = (case Close l w of None \<Rightarrow> Panicked w | Some w' \<Rightarrow> Exited 1 w')"

section \<open>Methods of Logger\<close>

definition guarded :: "Level \<Rightarrow> Logger \<Rightarrow> nat \<Rightarrow> string \<Rightarrow> log_world \<Rightarrow> log_world" where
  \<comment> \<open>the early return every method below Fatal starts with\<close>
  "guarded s l depth txt w = (if outputLevel l < s then w else Logger_output l s depth txt w)"

definition Logger_Debug where "Logger_Debug F l v = guarded DebugLevel l 0 (Sprint F v)"
definition Logger_DebugDepth where "Logger_DebugDepth F l d v = guarded DebugLevel l d (Sprint F v)"
definition Logger_Debugln where "Logger_Debugln F l v = guarded DebugLevel l 0 (Sprintln F v)"
definition Logger_Debugf where "Logger_Debugf F l f v = guarded DebugLevel l 0 (Sprintf F f v)"
definition Logger_Info where "Logger_Info F l v = guarded InfoLevel l 0 (Sprint F v)"
definition Logger_InfoDepth where "Logger_InfoDepth F l d v = guarded InfoLevel l d (Sprint F v)"
definition Logger_Infoln where "Logger_Infoln F l v = guarded InfoLevel l 0 (Sprintln F v)"
definition Logger_Infof where "Logger_Infof F l f v = guarded InfoLevel l 0 (Sprintf F f v)"
definition Logger_Warning where "Logger_Warning F l v = guarded WarnLevel l 0 (Sprint F v)"
definition Logger_WarningDepth where
  "Logger_WarningDepth F l d v = guarded WarnLevel l d (Sprint F v)"
definition Logger_Warningln where "Logger_Warningln F l v = guarded WarnLevel l 0 (Sprintln F v)"
definition Logger_Warningf where "Logger_Warningf F l f v = guarded WarnLevel l 0 (Sprintf F f v)"
definition Logger_Error where "Logger_Error F l v = guarded ErrorLevel l 0 (Sprint F v)"
definition Logger_ErrorDepth where "Logger_ErrorDepth F l d v = guarded ErrorLevel l d (Sprint F v)"
definition Logger_Errorln where "Logger_Errorln F l v = guarded ErrorLevel l 0 (Sprintln F v)"
definition Logger_Errorf where "Logger_Errorf F l f v = guarded ErrorLevel l 0 (Sprintf F f v)"

definition fatal_with :: "Logger \<Rightarrow> nat \<Rightarrow> string \<Rightarrow> log_world \<Rightarrow> outcome" where
  "fatal_with l depth txt w = close_and_exit l (Logger_output l FatalLevel depth txt w)"

definition Logger_Fatal where "Logger_Fatal F l v = fatal_with l 0 (Sprint F v)"
definition Logger_FatalDepth where "Logger_FatalDepth F l d v = fatal_with l d (Sprint F v)"
definition Logger_Fatalln where "Logger_Fatalln F l v = fatal_with l 0 (Sprintln F v)"
definition Logger_Fatalf where "Logger_Fatalf F l f v = fatal_with l 0 (Sprintf F f v)"

section \<open>Functions on the default logger\<close>

definition on_default :: "Level \<Rightarrow> nat \<Rightarrow> string \<Rightarrow> log_world \<Rightarrow> log_world" where
  "on_default s depth txt w = Logger_output (defaultLogger w) s depth txt w"

definition Info where "Info F v = on_default InfoLevel 0 (Sprint F v)"
definition InfoDepth where "InfoDepth F d v = on_default InfoLevel d (Sprint F v)"
definition Infoln where "Infoln F v = on_default InfoLevel 0 (Sprintln F v)"
definition Infof where "Infof F f v = on_default InfoLevel 0 (Sprintf F f v)"
definition Warning where "Warning F v = on_default WarnLevel 0 (Sprint F v)"
definition WarningDepth where "WarningDepth F d v = on_default WarnLevel d (Sprint F v)"
definition Warningln where "Warningln F v = on_default WarnLevel 0 (Sprintln F v)"
definition Warningf where "Warningf F f v = on_default WarnLevel 0 (Sprintf F f v)"
definition Error where "Error F v = on_default ErrorLevel 0 (Sprint F v)"
definition ErrorDepth where "ErrorDepth F d v = on_default ErrorLevel d (Sprint F v)"
definition Errorln where "Errorln F v = on_default ErrorLevel 0 (Sprintln F v)"
definition Errorf where "Errorf F f v = on_default ErrorLevel 0 (Sprintf F f v)"

definition fatal_default :: "nat \<Rightarrow> string \<Rightarrow> log_world \<Rightarrow> outcome" where
  "fatal_default depth txt w =
     (let w' = Logger_output (defaultLogger w) FatalLevel depth txt w
      in close_and_exit (defaultLogger w') w')"

definition Fatal where "Fatal F v = fatal_default 0 (Sprint F v)"
definition FatalDepth where "FatalDepth F d v = fatal_default d (Sprint F v)"
definition Fatalln where "Fatalln F v = fatal_default 0 (Sprintln F v)"
definition Fatalf where "Fatalf F f v = fatal_default 0 (Sprintf F f v)"

section \<open>Gating\<close>

definition level_tag :: "Level \<Rightarrow> string" where
  "level_tag s =
     (if s = FatalLevel then ''FATAL: '' else if s = ErrorLevel then ''ERROR: ''
      else if s = WarnLevel then ''WARN: '' else if s = InfoLevel then ''INFO: ''
      else ''DEBUG: '')"

definition is_level :: "Level \<Rightarrow> bool" where
  "is_level s \<longleftrightarrow> FatalLevel \<le> s \<and> s \<le> DebugLevel"

lemma Logger_output_eq:
  assumes "is_level s"
  shows "Logger_output l s depth txt w =
    (if s \<le> outputLevel l
     then w\<lparr>log_lines := log_lines w @ [(inner_prefix l, 3 + depth, level_tag s @ txt)]\<rparr>
     else w)"
proof -
  from assms consider "s = 3" | "s = 4" | "s = 5" | "s = 6" | "s = 7"
    unfolding is_level_def level_defs by linarith
  then show ?thesis
    by cases (simp_all add: Logger_output_def level_tag_def level_defs Let_def)
qed

lemma guarded_redundant: "is_level s \<Longrightarrow> guarded s l depth txt w = Logger_output l s depth txt w"
  by (simp add: guarded_def Logger_output_eq)

lemma is_level_consts [simp]:
  "is_level FatalLevel" "is_level ErrorLevel" "is_level WarnLevel"
  "is_level InfoLevel" "is_level DebugLevel"
  by (simp_all add: is_level_def level_defs)

lemmas logger_method_defs =
  Logger_Debug_def Logger_DebugDepth_def Logger_Debugln_def Logger_Debugf_def
  Logger_Info_def Logger_InfoDepth_def Logger_Infoln_def Logger_Infof_def
  Logger_Warning_def Logger_WarningDepth_def Logger_Warningln_def Logger_Warningf_def
  Logger_Error_def Logger_ErrorDepth_def Logger_Errorln_def Logger_Errorf_def

lemmas package_function_defs =
  Info_def InfoDepth_def Infoln_def Infof_def
  Warning_def WarningDepth_def Warningln_def Warningf_def
  Error_def ErrorDepth_def Errorln_def Errorf_def

section \<open>Runs of calls\<close>

datatype log_call = LogCall (call_level: Level) (call_depth: nat) (call_text: string)

fun log_run :: "Logger \<Rightarrow> log_call list \<Rightarrow> log_world \<Rightarrow> log_world" where
  "log_run l [] w = w"
| "log_run l (LogCall s d txt # cs) w = log_run l cs (guarded s l d txt w)"

definition rendered :: "Logger \<Rightarrow> log_call \<Rightarrow> string \<times> nat \<times> string" where
  "rendered l c = (inner_prefix l, 3 + call_depth c, level_tag (call_level c) @ call_text c)"

text \<open>
  Level gating. A run of logging calls at the five levels through one logger appends
  exactly the rendered lines of the calls at or below its output level, in call order, and
  changes nothing else of the world.
\<close>
lemma log_run_gating:
  assumes "\<forall>c \<in> set cs. is_level (call_level c)"
  shows "log_run l cs w = w\<lparr>log_lines := log_lines w @
           map (rendered l) (filter (\<lambda>c. call_level c \<le> outputLevel l) cs)\<rparr>"
  using assms
proof (induction l cs w rule: log_run.induct)
  case (2 l s d t cs w)
  then show ?case
    by (simp add: guarded_redundant Logger_output_eq rendered_def)
qed simp

lemma log_run_gating_witness:
  "log_lines (log_run \<lparr>outputLevel = InfoLevel, inner_prefix = ''N'', closer = Some 2,
      initialized = True\<rparr> [LogCall DebugLevel 0 ''a'', LogCall WarnLevel 1 ''b''] init_log)
   = [(''N'', 4, ''WARN: b'')]"
  by (subst log_run_gating) (simp_all add: init_log_def rendered_def level_tag_def level_defs is_level_def)

text \<open>
  The package-level functions act as the methods of the default logger: the early
  return of the methods is made redundant by the switch in \<open>output\<close>, so leaving it out in the
  package-level functions loses nothing.
\<close>
lemma package_functions_are_default_methods:
  "Info F v w = Logger_Info F (defaultLogger w) v w \<and>
   InfoDepth F d v w = Logger_InfoDepth F (defaultLogger w) d v w \<and>
   Infoln F v w = Logger_Infoln F (defaultLogger w) v w \<and>
   Infof F f v w = Logger_Infof F (defaultLogger w) f v w \<and>
   Warning F v w = Logger_Warning F (defaultLogger w) v w \<and>
   WarningDepth F d v w = Logger_WarningDepth F (defaultLogger w) d v w \<and>
   Warningln F v w = Logger_Warningln F (defaultLogger w) v w \<and>
   Warningf F f v w = Logger_Warningf F (defaultLogger w) f v w \<and>
   Error F v w = Logger_Error F (defaultLogger w) v w \<and>
   ErrorDepth F d v w = Logger_ErrorDepth F (defaultLogger w) d v w \<and>
   Errorln F v w = Logger_Errorln F (defaultLogger w) v w \<and>
   Errorf F f v w = Logger_Errorf F (defaultLogger w) f v w \<and>
   Fatal F v w = Logger_Fatal F (defaultLogger w) v w \<and>
   FatalDepth F d v w = Logger_FatalDepth F (defaultLogger w) d v w \<and>
   Fatalln F v w = Logger_Fatalln F (defaultLogger w) v w \<and>
   Fatalf F f v w = Logger_Fatalf F (defaultLogger w) f v w"
proof -
  have d: "defaultLogger (Logger_output l s k t w) = defaultLogger w" for l s k t
    by (simp add: Logger_output_def Let_def)
  show ?thesis
    by (simp add: package_function_defs logger_method_defs on_default_def guarded_redundant
        Fatal_def FatalDepth_def Fatalln_def Fatalf_def fatal_default_def fatal_with_def
        Logger_Fatal_def Logger_FatalDepth_def Logger_Fatalln_def Logger_Fatalf_def d)
qed

text \<open>
  A rejected level is fatal in the wrong way. When \<open>Init\<close> refuses the level on the world
  that the package starts with, the default logger is still the one without a closer, and the
  \<open>log.Fatal\<close> that \<open>main\<close> then calls panics in \<open>Close\<close> instead of exiting with status 1.
\<close>
lemma fatal_after_rejected_level_panics:
  assumes "Init name lvl f init_log = (Inl e, w)"
  shows "\<exists>w'. Fatal F v w = Panicked w' \<and>
           log_lines w' = [(initText, 3, ''FATAL: '' @ Sprint F v)]"
proof -
  from assms have w: "w = init_log"
    by (auto simp: Init_def Let_def split: sum.splits if_splits)
  show ?thesis
    unfolding w
    by (simp add: Fatal_def fatal_default_def Logger_output_def Let_def close_and_exit_def
        Close_def init_log_def level_defs)
qed

lemma fatal_after_rejected_level_panics_witness:
  "Init ''NETRA'' ''loud'' 2 init_log = (Inl ''invalid logger level loud'', init_log) \<and>
   (\<exists>w'. Fatal \<lparr>Sprint = concat, Sprintln = concat, Sprintf = (\<lambda>f v. f)\<rparr> [''x''] init_log
          = Panicked w' \<and> log_lines w' = [(initText, 3, ''FATAL: x'')])"
proof -
  have rejected: "Init ''NETRA'' ''loud'' 2 init_log = (Inl ''invalid logger level loud'', init_log)"
    by code_simp
  show ?thesis
    using rejected fatal_after_rejected_level_panics [OF rejected,
        of "\<lparr>Sprint = concat, Sprintln = concat, Sprintf = (\<lambda>f v. f)\<rparr>" "[''x'']"]
    by simp
qed

text \<open>
  The default logger is installed once. After a first successful \<open>Init\<close>, no later call,
  successful or not, changes the default logger, and every later package-level call goes to
  the logger that the first one built.
\<close>
lemma Init_installs_default_once:
  assumes "Init name lvl f init_log = (Inr l, w)"
  shows "defaultLogger w = l \<and> closer l = Some f \<and>
         snd (Init name' lvl' f' w) = w \<and> on_default s d t w = Logger_output l s d t w"
  using assms
  by (auto simp: Init_def Let_def init_log_def on_default_def split: sum.splits if_splits)

lemma Init_installs_default_once_witness:
  "\<exists>l w. Init ''NETRA'' ''WARNING'' 2 init_log = (Inr l, w) \<and> outputLevel l = 5 \<and>
     snd (Init ''OTHER'' ''debug'' 3 w) = w"
proof -
  let ?l = "\<lparr>outputLevel = 5, inner_prefix = ''NETRA'', closer = Some 2, initialized = True\<rparr>"
  have ok: "Init ''NETRA'' ''WARNING'' 2 init_log = (Inr ?l, init_log\<lparr>defaultLogger := ?l\<rparr>)"
    by code_simp
  show ?thesis
    using ok Init_installs_default_once [OF ok, of "''OTHER''" "''debug''" 3] by fastforce
qed

end
