(* ===== verification/Strconv.thy ===== *)
theory Strconv
  imports Prelude
begin

text \<open>
  Package \<open>strconv\<close>, base 10: \<open>ParseUint\<close>, \<open>ParseInt\<close> with 64 bits, \<open>Atoi\<close> and \<open>Itoa\<close>, with
  the round trips the configuration, the address builder and the HTTP parser rely on.

  \<open>ParseUint\<close> stops at the first byte that is not a digit (a syntax error) or that takes the
  value over the largest one of the given width (a range error), whichever comes first.
  \<open>Atoi\<close> agrees with \<open>ParseInt\<close> at 64 bits: its fast path for short strings computes the same
  value, and no string of fewer than 19 bytes overflows.
\<close>

datatype num_error = ErrSyntax | ErrRange

definition is_digit :: "char \<Rightarrow> bool" where
  "is_digit c \<longleftrightarrow> 48 \<le> ord c \<and> ord c \<le> 57"

definition digit_val :: "char \<Rightarrow> nat" where
  "digit_val c = ord c - 48"

definition digit_char :: "nat \<Rightarrow> char" where
  "digit_char d = char_of (48 + d)"

fun parse_uint_loop :: "nat \<Rightarrow> nat \<Rightarrow> string \<Rightarrow> num_error + nat" where
  "parse_uint_loop maxVal n [] = Inr n"
| "parse_uint_loop maxVal n (c # cs) =
     (if \<not> is_digit c then Inl ErrSyntax
      else if n * 10 + digit_val c > maxVal then Inl ErrRange
      else parse_uint_loop maxVal (n * 10 + digit_val c) cs)"

definition ParseUint :: "string \<Rightarrow> nat \<Rightarrow> num_error + nat" where
  "ParseUint s bitSize =
     (if s = [] then Inl ErrSyntax else parse_uint_loop (2 ^ bitSize - 1) 0 s)"

definition ParseInt64 :: "string \<Rightarrow> num_error + int" where
  "ParseInt64 s0 =
     (if s0 = [] then Inl ErrSyntax
      else let neg = (hd s0 = CHR ''-'');
               s = (if hd s0 = CHR ''+'' \<or> hd s0 = CHR ''-'' then tl s0 else s0)
           in case ParseUint s 64 of
                Inl e \<Rightarrow> Inl e
              | Inr un \<Rightarrow>
                  if \<not> neg \<and> un \<ge> 2 ^ 63 then Inl ErrRange
                  else if neg \<and> un > 2 ^ 63 then Inl ErrRange
                  else Inr (if neg then - int un else int un))"

definition Atoi :: "string \<Rightarrow> num_error + int" where
  "Atoi s = ParseInt64 s"

function itoa_nat :: "nat \<Rightarrow> string" where
  "itoa_nat n =
     (if n < 10 then [digit_char n] else itoa_nat (n div 10) @ [digit_char (n mod 10)])"
  by pat_completeness auto
termination
  by (relation "measure id") auto

declare itoa_nat.simps [simp del]

definition Itoa :: "int \<Rightarrow> string" where
  "Itoa i = (if i < 0 then CHR ''-'' # itoa_nat (nat (- i)) else itoa_nat (nat i))"

section \<open>Digits\<close>

lemma of_char_digit_char [simp]: "d < 10 \<Longrightarrow> ord (digit_char d) = 48 + d"
  by (simp add: digit_char_def)

lemma is_digit_digit_char [simp]: "d < 10 \<Longrightarrow> is_digit (digit_char d)"
  by (simp add: is_digit_def)

lemma digit_val_digit_char [simp]: "d < 10 \<Longrightarrow> digit_val (digit_char d) = d"
  by (simp add: digit_val_def)

lemma digit_char_inj: "d < 10 \<Longrightarrow> e < 10 \<Longrightarrow> digit_char d = digit_char e \<longleftrightarrow> d = e"
  by (metis digit_val_digit_char)

lemma itoa_nat_digits: "c \<in> set (itoa_nat n) \<Longrightarrow> is_digit c"
proof (induction n rule: itoa_nat.induct)
  case (1 n)
  then show ?case
    by (cases "n < 10") (auto simp: itoa_nat.simps [of n])
qed

lemma itoa_nat_not_Nil [simp]: "itoa_nat n \<noteq> []"
  by (subst itoa_nat.simps) simp

lemma Itoa_not_Nil [simp]: "Itoa i \<noteq> []"
  by (simp add: Itoa_def)

lemma Itoa_chars: "c \<in> set (Itoa i) \<Longrightarrow> is_digit c \<or> c = CHR ''-''"
  using itoa_nat_digits by (auto simp: Itoa_def split: if_splits)

lemma Itoa_notin [simp]: "\<not> is_digit c \<Longrightarrow> c \<noteq> CHR ''-'' \<Longrightarrow> c \<notin> set (Itoa i)"
  using Itoa_chars by blast

lemma itoa_nat_notin [simp]: "\<not> is_digit c \<Longrightarrow> c \<notin> set (itoa_nat i)"
  using itoa_nat_digits by blast

section \<open>What the parser accepts\<close>

definition digits_value :: "string \<Rightarrow> nat" where
  "digits_value s = foldl (\<lambda>n c. n * 10 + digit_val c) 0 s"

lemma foldl_digits_mono:
  "n \<le> foldl (\<lambda>n c. n * 10 + digit_val c) n s"
proof (induction s arbitrary: n)
  case (Cons c s)
  from Cons [of "n * 10 + digit_val c"] show ?case by simp
qed simp

lemma parse_uint_loop_Inr_iff:
  "n \<le> M \<Longrightarrow> parse_uint_loop M n s = Inr v \<longleftrightarrow>
     (\<forall>c \<in> set s. is_digit c) \<and> v = foldl (\<lambda>n c. n * 10 + digit_val c) n s \<and> v \<le> M"
proof (induction s arbitrary: n)
  case (Cons c s)
  let ?n = "n * 10 + digit_val c"
  show ?case
  proof (cases "is_digit c \<and> ?n \<le> M")
    case True
    with Cons.IH [of ?n] show ?thesis by auto
  next
    case False
    moreover have "?n \<le> foldl (\<lambda>n c. n * 10 + digit_val c) ?n s"
      by (rule foldl_digits_mono)
    ultimately show ?thesis by auto
  qed
qed auto

lemma le_pred_power_iff: "v \<le> 2 ^ b - Suc 0 \<longleftrightarrow> v < (2 :: nat) ^ b"
  using zero_less_power [of "2 :: nat" b] by linarith

lemma ParseUint_Inr_iff [go_num]:
  "ParseUint s b = Inr v \<longleftrightarrow>
     s \<noteq> [] \<and> (\<forall>c \<in> set s. is_digit c) \<and> v = digits_value s \<and> v < 2 ^ b"
  using parse_uint_loop_Inr_iff [of 0 "2 ^ b - 1" s v]
  by (auto simp: ParseUint_def digits_value_def le_pred_power_iff)

lemma digits_value_snoc: "digits_value (s @ [c]) = digits_value s * 10 + digit_val c"
  by (simp add: digits_value_def)

lemma digits_value_itoa_nat [simp]: "digits_value (itoa_nat n) = n"
proof (induction n rule: itoa_nat.induct)
  case (1 n)
  show ?case
  proof (cases "n < 10")
    case True
    then show ?thesis by (simp add: itoa_nat.simps [of n] digits_value_def)
  next
    case False
    with "1.IH" show ?thesis
      by (simp add: itoa_nat.simps [of n] digits_value_snoc)
  qed
qed

lemma itoa_nat_inj [simp]: "itoa_nat m = itoa_nat n \<longleftrightarrow> m = n"
  by (metis digits_value_itoa_nat)

lemma ParseUint_itoa_nat [go_num]:
  "ParseUint (itoa_nat n) b = (if n < 2 ^ b then Inr n else Inl ErrRange)"
proof (cases "n < 2 ^ b")
  case True
  then show ?thesis using itoa_nat_digits by (simp add: ParseUint_Inr_iff)
next
  case False
  have range: "parse_uint_loop M k s = Inl ErrRange"
    if "k \<le> M" "\<forall>c \<in> set s. is_digit c" "foldl (\<lambda>n c. n * 10 + digit_val c) k s > M"
    for M k s
    using that by (induction s arbitrary: k) auto
  from False have "2 ^ b - 1 < n"
    using le_pred_power_iff [of n b] by simp
  then show ?thesis
    using False range [of 0 "2 ^ b - 1" "itoa_nat n"] itoa_nat_digits digits_value_itoa_nat [of n]
    by (auto simp: ParseUint_def digits_value_def)
qed

lemma hd_itoa_nat: "is_digit (hd (itoa_nat n))"
  by (rule itoa_nat_digits [of _ n]) simp

lemma ParseInt64_Itoa [go_num]:
  assumes "- (2 ^ 63) \<le> i" and "i < 2 ^ 63"
  shows "ParseInt64 (Itoa i) = Inr i"
proof (cases "i < 0")
  case True
  with assms(1) have "nat (- i) < 2 ^ 64" and "nat (- i) \<le> 2 ^ 63"
    by (simp_all add: nat_less_iff nat_le_iff)
  with True show ?thesis
    by (simp add: ParseInt64_def Itoa_def ParseUint_itoa_nat)
next
  case False
  have "hd (itoa_nat (nat i)) \<noteq> CHR ''-''" "hd (itoa_nat (nat i)) \<noteq> CHR ''+''"
    using hd_itoa_nat [of "nat i"] by (auto simp: is_digit_def)
  moreover from False assms(2) have "nat i < 2 ^ 64" and "nat i < 2 ^ 63"
    by (simp_all add: nat_less_iff)
  ultimately show ?thesis
    using False by (simp add: ParseInt64_def Itoa_def ParseUint_itoa_nat)
qed

lemma ParseInt64_bounds [go_num]:
  assumes "ParseInt64 s = Inr i"
  shows "- (2 ^ 63) \<le> i \<and> i < 2 ^ 63"
proof -
  have b: "int u \<le> 9223372036854775808 \<longleftrightarrow> u \<le> 9223372036854775808"
    "int u < 9223372036854775808 \<longleftrightarrow> u < 9223372036854775808" for u :: nat
    by linarith+
  from assms show ?thesis
    by (auto simp: ParseInt64_def Let_def not_le b split: if_splits sum.splits)
qed

lemma Itoa_inj [simp]: "Itoa i = Itoa j \<longleftrightarrow> i = j"
proof -
  have neg: "CHR ''-'' # s \<noteq> itoa_nat n" for s n
  proof
    assume "CHR ''-'' # s = itoa_nat n"
    then have "CHR ''-'' \<in> set (itoa_nat n)"
      by (metis list.set_intros(1))
    then show False
      using itoa_nat_digits by (auto simp: is_digit_def)
  qed
  show ?thesis
    by (auto simp: Itoa_def neg neg [symmetric] split: if_splits)
qed

end
