(* ===== verification/Config.thy ===== *)
theory Config
  imports Strconv
begin

text \<open>
  The configuration of \<open>internal/config/global.go\<close>: the package variables \<open>netraConfig\<close> and
  \<open>httpConfig\<close> and \<open>GlobalConfigFromENV\<close>, which overwrites them from the environment.

  The environment is a function from names to values, the empty string for an unset variable
  (\<open>os.Getenv\<close>). The function mutates the package variables before it meets an error, so the
  model returns the state together with the error: what was assigned before the failing
  variable stays. Ports are 16-bit words, durations 64-bit words, as in Go, so that the
  multiplication by a millisecond wraps. The log lines are not part of the state.
\<close>

section \<open>State\<close>

record NetraConfig =
  Port :: "16 word"
  PprofPort :: "16 word"
  PrometheusPort :: "16 word"
  ServiceName :: string
  TracingContextExpiration :: int64
  TracingContextCleanupInterval :: int64
  RoutingContextExpiration :: int64
  RoutingContextCleanupInterval :: int64
  LoggerLevel :: int
  HTTPProtoPorts :: "string set"

record HTTPConfig =
  HeadersMap :: "string \<rightharpoonup> string"
  CookiesMap :: "string \<rightharpoonup> string"
  RequestIdHeaderName :: string
  XSourceHeaderName :: string
  XSourceValue :: string
  RoutingEnabled :: bool
  RoutingHeaderName :: string
  RoutingCookieEnabled :: bool
  RoutingCookieName :: string

record config =
  netraConfig :: NetraConfig
  httpConfig :: HTTPConfig

definition Millisecond :: int64 where "Millisecond = 1000000"
definition Second :: int64 where "Second = 1000 * Millisecond"

definition initial_netraConfig :: NetraConfig where
  "initial_netraConfig = \<lparr>Port = 14956, PprofPort = 14957, PrometheusPort = 14958,
     ServiceName = [],
     TracingContextExpiration = 5 * Second, TracingContextCleanupInterval = 1 * Second,
     RoutingContextExpiration = 5 * Second, RoutingContextCleanupInterval = 1 * Second,
     LoggerLevel = 0, HTTPProtoPorts = {}\<rparr>"

definition initial_httpConfig :: HTTPConfig where
  "initial_httpConfig = \<lparr>HeadersMap = Map.empty, CookiesMap = Map.empty,
     RequestIdHeaderName = ''X-Request-Id'', XSourceHeaderName = ''X-Source'',
     XSourceValue = ''netra'', RoutingEnabled = False, RoutingHeaderName = ''X-Route'',
     RoutingCookieEnabled = False, RoutingCookieName = ''X-Route''\<rparr>"

definition initial_config :: config where
  "initial_config = \<lparr>netraConfig = initial_netraConfig, httpConfig = initial_httpConfig\<rparr>"

definition SetServiceName :: "string \<Rightarrow> config \<Rightarrow> config" where
  "SetServiceName s c = c\<lparr>netraConfig := (netraConfig c)\<lparr>ServiceName := s\<rparr>\<rparr>"

section \<open>Names of the environment variables\<close>

definition envNetraPort where "envNetraPort = ''NETRA_PORT''"
definition envNetraPprofPort where "envNetraPprofPort = ''NETRA_PPROF_PORT''"
definition envNetraPrometheusPort where "envNetraPrometheusPort = ''NETRA_PROMETHEUS_PORT''"
definition envNetraTracingContextExpiration where
  "envNetraTracingContextExpiration = ''NETRA_TRACING_CONTEXT_EXPIRATION_MILLISECONDS''"
definition envNetraTracingContextCleanupInterval where
  "envNetraTracingContextCleanupInterval = ''NETRA_TRACING_CONTEXT_CLEANUP_INTERVAL''"
definition envNetraRoutingContextExpiration where
  "envNetraRoutingContextExpiration = ''NETRA_ROUTING_CONTEXT_EXPIRATION_MILLISECONDS''"
definition envNetraRoutingContextCleanupInterval where
  "envNetraRoutingContextCleanupInterval = ''NETRA_ROUTING_CONTEXT_CLEANUP_INTERVAL''"
definition envNetraHTTPPorts where "envNetraHTTPPorts = ''NETRA_HTTP_PORTS''"
definition envHttpHeaderTagMap where "envHttpHeaderTagMap = ''HTTP_HEADER_TAG_MAP''"
definition envHttpCookieTagMap where "envHttpCookieTagMap = ''HTTP_COOKIE_TAG_MAP''"
definition envHttpRequestIdHeaderName where
  "envHttpRequestIdHeaderName = ''NETRA_HTTP_REQUEST_ID_HEADER_NAME''"
definition envHttpXSourceHeaderName where
  "envHttpXSourceHeaderName = ''NETRA_HTTP_X_SOURCE_HEADER_NAME''"
definition envHTTPXSourceValue where "envHTTPXSourceValue = ''NETRA_HTTP_X_SOURCE_VALUE''"
definition envHTTPRoutingEnabled where "envHTTPRoutingEnabled = ''NETRA_HTTP_ROUTING_ENABLED''"
definition envHTTPRoutingHeader where "envHTTPRoutingHeader = ''NETRA_HTTP_ROUTING_HEADER_NAME''"
definition envHTTPRoutingCookieEnabled where
  "envHTTPRoutingCookieEnabled = ''NETRA_HTTP_ROUTING_COOKIE_ENABLED''"
definition envHTTPRoutingCookieName where
  "envHTTPRoutingCookieName = ''NETRA_HTTP_ROUTING_COOKIE_NAME''"

lemmas env_defs =
  envNetraPort_def envNetraPprofPort_def envNetraPrometheusPort_def
  envNetraTracingContextExpiration_def envNetraTracingContextCleanupInterval_def
  envNetraRoutingContextExpiration_def envNetraRoutingContextCleanupInterval_def
  envNetraHTTPPorts_def envHttpHeaderTagMap_def envHttpCookieTagMap_def
  envHttpRequestIdHeaderName_def envHttpXSourceHeaderName_def envHTTPXSourceValue_def
  envHTTPRoutingEnabled_def envHTTPRoutingHeader_def envHTTPRoutingCookieEnabled_def
  envHTTPRoutingCookieName_def

section \<open>Reading the environment\<close>

fun load_pairs :: "string list \<Rightarrow> (string \<rightharpoonup> string) \<Rightarrow> (string \<rightharpoonup> string)" where
  "load_pairs [] m = m"
| "load_pairs (pair # pairs) m =
     (let kv = SplitN2 pair (CHR '':'') in
      if length kv < 2 then load_pairs pairs m
      else load_pairs pairs (m(kv ! 0 \<mapsto> kv ! 1)))"

fun load_ports :: "string list \<Rightarrow> string set \<Rightarrow> num_error option \<times> string set" where
  "load_ports [] ps = (None, ps)"
| "load_ports (port # ports) ps =
     (case ParseUint port 16 of
        Inl e \<Rightarrow> (Some e, ps)
      | Inr _ \<Rightarrow> load_ports ports (insert port ps))"

type_synonym env = "string \<Rightarrow> string"
type_synonym cfg_step = "config \<Rightarrow> num_error option \<times> config"

definition upd_netra :: "(NetraConfig \<Rightarrow> NetraConfig) \<Rightarrow> config \<Rightarrow> config" where
  "upd_netra f c = c\<lparr>netraConfig := f (netraConfig c)\<rparr>"

definition upd_http :: "(HTTPConfig \<Rightarrow> HTTPConfig) \<Rightarrow> config \<Rightarrow> config" where
  "upd_http f c = c\<lparr>httpConfig := f (httpConfig c)\<rparr>"

definition when_set :: "string \<Rightarrow> (string \<Rightarrow> cfg_step) \<Rightarrow> cfg_step" where
  "when_set v f c = (if v \<noteq> [] then f v c else (None, c))"

definition port_step :: "string \<Rightarrow> (16 word \<Rightarrow> NetraConfig \<Rightarrow> NetraConfig) \<Rightarrow> cfg_step" where
  "port_step v set_port = when_set v (\<lambda>v c. case ParseUint v 16 of
       Inl e \<Rightarrow> (Some e, c)
     | Inr p \<Rightarrow> (None, upd_netra (set_port (word_of_nat p)) c))"

definition millis_step :: "string \<Rightarrow> (int64 \<Rightarrow> NetraConfig \<Rightarrow> NetraConfig) \<Rightarrow> cfg_step" where
  "millis_step v set_dur = when_set v (\<lambda>v c. case Atoi v of
       Inl e \<Rightarrow> (Some e, c)
     | Inr ms \<Rightarrow> (None, upd_netra (set_dur (word_of_int ms * Millisecond)) c))"

definition string_step :: "string \<Rightarrow> (string \<Rightarrow> HTTPConfig \<Rightarrow> HTTPConfig) \<Rightarrow> cfg_step" where
  "string_step v set_s = when_set v (\<lambda>v c. (None, upd_http (set_s v) c))"

definition flag_step :: "string \<Rightarrow> (HTTPConfig \<Rightarrow> HTTPConfig) \<Rightarrow> cfg_step" where
  "flag_step v set_true = when_set v (\<lambda>v c.
       (None, if v = ''true'' then upd_http set_true c else c))"

definition ports_step :: "string \<Rightarrow> cfg_step" where
  "ports_step v = when_set v (\<lambda>v c.
       let (e, ps) = load_ports (Split v (CHR '','')) (HTTPProtoPorts (netraConfig c))
       in (e, upd_netra (HTTPProtoPorts_update (\<lambda>_. ps)) c))"

fun run_steps :: "cfg_step list \<Rightarrow> cfg_step" where
  "run_steps [] c = (None, c)"
| "run_steps (st # sts) c =
     (case st c of (Some e, c') \<Rightarrow> (Some e, c') | (None, c') \<Rightarrow> run_steps sts c')"

definition config_steps :: "env \<Rightarrow> cfg_step list" where
  "config_steps getenv =
     [when_set (getenv envHttpHeaderTagMap) (\<lambda>v c.
        (None, upd_http (HeadersMap_update (load_pairs (Split v (CHR '','')))) c)),
      when_set (getenv envHttpCookieTagMap) (\<lambda>v c.
        (None, upd_http (CookiesMap_update (load_pairs (Split v (CHR '','')))) c)),
      port_step (getenv envNetraPort) (\<lambda>p. Port_update (\<lambda>_. p)),
      port_step (getenv envNetraPprofPort) (\<lambda>p. PprofPort_update (\<lambda>_. p)),
      port_step (getenv envNetraPrometheusPort) (\<lambda>p. PrometheusPort_update (\<lambda>_. p)),
      millis_step (getenv envNetraTracingContextExpiration)
        (\<lambda>d. TracingContextExpiration_update (\<lambda>_. d)),
      millis_step (getenv envNetraTracingContextCleanupInterval)
        (\<lambda>d. TracingContextCleanupInterval_update (\<lambda>_. d)),
      millis_step (getenv envNetraRoutingContextExpiration)
        (\<lambda>d. RoutingContextExpiration_update (\<lambda>_. d)),
      millis_step (getenv envNetraRoutingContextCleanupInterval)
        (\<lambda>d. RoutingContextCleanupInterval_update (\<lambda>_. d)),
      ports_step (getenv envNetraHTTPPorts),
      string_step (getenv envHttpRequestIdHeaderName) (\<lambda>v. RequestIdHeaderName_update (\<lambda>_. v)),
      string_step (getenv envHttpXSourceHeaderName) (\<lambda>v. XSourceHeaderName_update (\<lambda>_. v)),
      string_step (getenv envHTTPXSourceValue) (\<lambda>v. XSourceValue_update (\<lambda>_. v)),
      flag_step (getenv envHTTPRoutingEnabled) (RoutingEnabled_update (\<lambda>_. True)),
      string_step (getenv envHTTPRoutingHeader) (\<lambda>v. RoutingHeaderName_update (\<lambda>_. v)),
      flag_step (getenv envHTTPRoutingCookieEnabled) (RoutingCookieEnabled_update (\<lambda>_. True)),
      string_step (getenv envHTTPRoutingCookieName) (\<lambda>v. RoutingCookieName_update (\<lambda>_. v))]"

definition GlobalConfigFromENV :: "env \<Rightarrow> config \<Rightarrow> num_error option \<times> config" where
  "GlobalConfigFromENV getenv = run_steps (config_steps getenv)"

section \<open>One step at a time\<close>

definition bad_port :: "string \<Rightarrow> bool" where
  "bad_port v \<longleftrightarrow> v \<noteq> [] \<and> (\<forall>p. ParseUint v 16 \<noteq> Inr p)"

definition bad_int :: "string \<Rightarrow> bool" where
  "bad_int v \<longleftrightarrow> v \<noteq> [] \<and> (\<forall>n. Atoi v \<noteq> Inr n)"

definition bad_port_list :: "string \<Rightarrow> bool" where
  "bad_port_list v \<longleftrightarrow> v \<noteq> [] \<and> (\<exists>p \<in> set (Split v (CHR '','')). \<forall>n. ParseUint p 16 \<noteq> Inr n)"

lemma load_ports_success:
  "fst (load_ports ports ps) = None \<Longrightarrow> snd (load_ports ports ps) = ps \<union> set ports"
  by (induction ports ps rule: load_ports.induct) (auto split: sum.splits)

lemma load_ports_valid:
  "p \<in> snd (load_ports ports ps) \<Longrightarrow> p \<in> ps \<or> (\<exists>n. ParseUint p 16 = Inr n)"
  by (induction ports ps rule: load_ports.induct) (auto split: sum.splits)

lemma step_no_error_iff:
  "fst (port_step v f c) = None \<longleftrightarrow> \<not> bad_port v"
  "fst (millis_step v g c) = None \<longleftrightarrow> \<not> bad_int v"
  "fst (string_step v h c) = None"
  "fst (flag_step v k c) = None"
  by (auto simp: port_step_def millis_step_def string_step_def flag_step_def when_set_def
      bad_port_def bad_int_def split: sum.splits)

lemma ports_step_no_error_iff: "fst (ports_step v c) = None \<longleftrightarrow> \<not> bad_port_list v"
proof -
  have "fst (load_ports ps qs) = None \<longleftrightarrow> (\<forall>p \<in> set ps. \<exists>n. ParseUint p 16 = Inr n)" for ps qs
    by (induction ps qs rule: load_ports.induct) (auto split: sum.splits)
  then show ?thesis
    by (auto simp: ports_step_def when_set_def bad_port_list_def split_beta)
qed

lemma run_steps_error_iff:
  assumes "\<And>st c. st \<in> set sts \<Longrightarrow> fst (st c) = None \<longleftrightarrow> good st"
  shows "fst (run_steps sts c) = None \<longleftrightarrow> (\<forall>st \<in> set sts. good st)"
  using assms
proof (induction sts arbitrary: c)
  case (Cons st sts)
  then have "fst (st c) = None \<longleftrightarrow> good st" by simp
  with Cons show ?case by (cases "st c"; cases "fst (st c)") auto
qed simp

lemma load_pairs_append: "load_pairs (ps @ qs) m = load_pairs qs (load_pairs ps m)"
  by (induction ps arbitrary: m) (simp_all add: Let_def)

lemma load_pairs_encoded:
  "\<forall>(k, v) \<in> set kvs. CHR '':'' \<notin> set k \<Longrightarrow>
   load_pairs (map (\<lambda>(k, v). k @ CHR '':'' # v) kvs) m = m ++ map_of (rev kvs)"
proof (induction kvs arbitrary: m)
  case (Cons kv kvs)
  then show ?case by (cases kv) (simp add: SplitN2_sep)
qed simp

definition port_or :: "string \<Rightarrow> 16 word \<Rightarrow> 16 word" where
  "port_or v d = (if v = [] then d else word_of_nat (digits_value v))"

definition millis_or :: "string \<Rightarrow> int64 \<Rightarrow> int64" where
  "millis_or v d = (if v = [] then d else word_of_int (projr (Atoi v)) * Millisecond)"

definition string_or :: "string \<Rightarrow> string \<Rightarrow> string" where
  "string_or v d = (if v = [] then d else v)"

definition tags_or :: "string \<Rightarrow> (string \<rightharpoonup> string) \<Rightarrow> (string \<rightharpoonup> string)" where
  "tags_or v m = (if v = [] then m else load_pairs (Split v (CHR '','')) m)"

definition ports_or :: "string \<Rightarrow> string set \<Rightarrow> string set" where
  "ports_or v ps = (if v = [] then ps else ps \<union> set (Split v (CHR '','')))"

definition configured :: "env \<Rightarrow> config \<Rightarrow> config" where
  "configured getenv c = (let n = netraConfig c; h = httpConfig c in
     \<lparr>netraConfig = \<lparr>Port = port_or (getenv envNetraPort) (Port n),
        PprofPort = port_or (getenv envNetraPprofPort) (PprofPort n),
        PrometheusPort = port_or (getenv envNetraPrometheusPort) (PrometheusPort n),
        ServiceName = ServiceName n,
        TracingContextExpiration =
          millis_or (getenv envNetraTracingContextExpiration) (TracingContextExpiration n),
        TracingContextCleanupInterval =
          millis_or (getenv envNetraTracingContextCleanupInterval) (TracingContextCleanupInterval n),
        RoutingContextExpiration =
          millis_or (getenv envNetraRoutingContextExpiration) (RoutingContextExpiration n),
        RoutingContextCleanupInterval =
          millis_or (getenv envNetraRoutingContextCleanupInterval) (RoutingContextCleanupInterval n),
        LoggerLevel = LoggerLevel n,
        HTTPProtoPorts = ports_or (getenv envNetraHTTPPorts) (HTTPProtoPorts n)\<rparr>,
      httpConfig = \<lparr>
        HeadersMap = tags_or (getenv envHttpHeaderTagMap) (HeadersMap h),
        CookiesMap = tags_or (getenv envHttpCookieTagMap) (CookiesMap h),
        RequestIdHeaderName = string_or (getenv envHttpRequestIdHeaderName) (RequestIdHeaderName h),
        XSourceHeaderName = string_or (getenv envHttpXSourceHeaderName) (XSourceHeaderName h),
        XSourceValue = string_or (getenv envHTTPXSourceValue) (XSourceValue h),
        RoutingEnabled = (RoutingEnabled h \<or> getenv envHTTPRoutingEnabled = ''true''),
        RoutingHeaderName = string_or (getenv envHTTPRoutingHeader) (RoutingHeaderName h),
        RoutingCookieEnabled =
          (RoutingCookieEnabled h \<or> getenv envHTTPRoutingCookieEnabled = ''true''),
        RoutingCookieName = string_or (getenv envHTTPRoutingCookieName) (RoutingCookieName h)\<rparr>\<rparr>)"

lemma config_error_iff:
  "(\<exists>e. fst (GlobalConfigFromENV getenv c) = Some e) \<longleftrightarrow>
     bad_port (getenv envNetraPort) \<or> bad_port (getenv envNetraPprofPort) \<or>
     bad_port (getenv envNetraPrometheusPort) \<or>
     bad_int (getenv envNetraTracingContextExpiration) \<or>
     bad_int (getenv envNetraTracingContextCleanupInterval) \<or>
     bad_int (getenv envNetraRoutingContextExpiration) \<or>
     bad_int (getenv envNetraRoutingContextCleanupInterval) \<or>
     bad_port_list (getenv envNetraHTTPPorts)"
proof -
  let ?sts = "config_steps getenv"
  have same: "fst (st c) = None \<longleftrightarrow> fst (st initial_config) = None" if "st \<in> set ?sts" for st c
    using that
    by (auto simp: config_steps_def step_no_error_iff ports_step_no_error_iff when_set_def)
  have "fst (run_steps ?sts c) = None \<longleftrightarrow> (\<forall>st \<in> set ?sts. fst (st initial_config) = None)"
    by (rule run_steps_error_iff) (use same in blast)
  then show ?thesis
    unfolding GlobalConfigFromENV_def not_None_eq [symmetric]
    by (simp add: config_steps_def step_no_error_iff ports_step_no_error_iff when_set_def
        del: not_None_eq)
qed

lemma port_step_ok:
  assumes "\<not> bad_port v"
  shows
    "port_step v (\<lambda>p. Port_update (\<lambda>_. p)) c = (None, upd_netra (Port_update (port_or v)) c)"
    "port_step v (\<lambda>p. PprofPort_update (\<lambda>_. p)) c =
       (None, upd_netra (PprofPort_update (port_or v)) c)"
    "port_step v (\<lambda>p. PrometheusPort_update (\<lambda>_. p)) c =
       (None, upd_netra (PrometheusPort_update (port_or v)) c)"
proof -
  have "v = [] \<or> ParseUint v 16 = Inr (digits_value v)"
    using assms by (auto simp: bad_port_def ParseUint_Inr_iff)
  then show
    "port_step v (\<lambda>p. Port_update (\<lambda>_. p)) c = (None, upd_netra (Port_update (port_or v)) c)"
    "port_step v (\<lambda>p. PprofPort_update (\<lambda>_. p)) c =
       (None, upd_netra (PprofPort_update (port_or v)) c)"
    "port_step v (\<lambda>p. PrometheusPort_update (\<lambda>_. p)) c =
       (None, upd_netra (PrometheusPort_update (port_or v)) c)"
    by (auto simp: port_step_def when_set_def port_or_def [abs_def] upd_netra_def)
qed

lemma millis_step_ok:
  assumes "\<not> bad_int v"
  shows
    "millis_step v (\<lambda>d. TracingContextExpiration_update (\<lambda>_. d)) c =
       (None, upd_netra (TracingContextExpiration_update (millis_or v)) c)"
    "millis_step v (\<lambda>d. TracingContextCleanupInterval_update (\<lambda>_. d)) c =
       (None, upd_netra (TracingContextCleanupInterval_update (millis_or v)) c)"
    "millis_step v (\<lambda>d. RoutingContextExpiration_update (\<lambda>_. d)) c =
       (None, upd_netra (RoutingContextExpiration_update (millis_or v)) c)"
    "millis_step v (\<lambda>d. RoutingContextCleanupInterval_update (\<lambda>_. d)) c =
       (None, upd_netra (RoutingContextCleanupInterval_update (millis_or v)) c)"
  using assms
  by (auto simp: bad_int_def millis_step_def when_set_def millis_or_def [abs_def] upd_netra_def)

lemma string_step_ok:
  "string_step v (\<lambda>v. RequestIdHeaderName_update (\<lambda>_. v)) c =
     (None, upd_http (RequestIdHeaderName_update (string_or v)) c)"
  "string_step v (\<lambda>v. XSourceHeaderName_update (\<lambda>_. v)) c =
     (None, upd_http (XSourceHeaderName_update (string_or v)) c)"
  "string_step v (\<lambda>v. XSourceValue_update (\<lambda>_. v)) c =
     (None, upd_http (XSourceValue_update (string_or v)) c)"
  "string_step v (\<lambda>v. RoutingHeaderName_update (\<lambda>_. v)) c =
     (None, upd_http (RoutingHeaderName_update (string_or v)) c)"
  "string_step v (\<lambda>v. RoutingCookieName_update (\<lambda>_. v)) c =
     (None, upd_http (RoutingCookieName_update (string_or v)) c)"
  by (auto simp: string_step_def when_set_def string_or_def [abs_def] upd_http_def)

lemma flag_step_ok:
  "flag_step v (RoutingEnabled_update (\<lambda>_. True)) c =
     (None, upd_http (RoutingEnabled_update (\<lambda>b. b \<or> v = ''true'')) c)"
  "flag_step v (RoutingCookieEnabled_update (\<lambda>_. True)) c =
     (None, upd_http (RoutingCookieEnabled_update (\<lambda>b. b \<or> v = ''true'')) c)"
  by (auto simp: flag_step_def when_set_def upd_http_def)

lemma ports_step_ok:
  assumes "\<not> bad_port_list v"
  shows "ports_step v c = (None, upd_netra (HTTPProtoPorts_update (ports_or v)) c)"
  using assms ports_step_no_error_iff [of v c]
    load_ports_success [of "Split v (CHR '','')" "HTTPProtoPorts (netraConfig c)"]
  by (auto simp: ports_step_def when_set_def upd_netra_def split_beta ports_or_def [abs_def])

lemma tag_step_ok:
  "when_set v (\<lambda>v c. (None, upd_http (HeadersMap_update (load_pairs (Split v (CHR '','')))) c)) c =
     (None, upd_http (HeadersMap_update (tags_or v)) c)"
  "when_set v (\<lambda>v c. (None, upd_http (CookiesMap_update (load_pairs (Split v (CHR '','')))) c)) c =
     (None, upd_http (CookiesMap_update (tags_or v)) c)"
  by (auto simp: when_set_def upd_http_def tags_or_def [abs_def])

lemmas config_step_ok =
  port_step_ok millis_step_ok string_step_ok flag_step_ok ports_step_ok tag_step_ok

lemma config_success:
  assumes "fst (GlobalConfigFromENV getenv c) = None"
  shows "snd (GlobalConfigFromENV getenv c) = configured getenv c"
proof -
  have good: "\<not> bad_port (getenv envNetraPort)" "\<not> bad_port (getenv envNetraPprofPort)"
    "\<not> bad_port (getenv envNetraPrometheusPort)"
    "\<not> bad_int (getenv envNetraTracingContextExpiration)"
    "\<not> bad_int (getenv envNetraTracingContextCleanupInterval)"
    "\<not> bad_int (getenv envNetraRoutingContextExpiration)"
    "\<not> bad_int (getenv envNetraRoutingContextCleanupInterval)"
    "\<not> bad_port_list (getenv envNetraHTTPPorts)"
    using assms config_error_iff [of getenv c] by auto
  obtain n h where c: "c = \<lparr>netraConfig = n, httpConfig = h\<rparr>"
    by (cases c)
  show ?thesis
    unfolding GlobalConfigFromENV_def config_steps_def c
    using good
    by (cases n, cases h)
      (simp add: config_step_ok, simp add: configured_def upd_netra_def upd_http_def Let_def)
qed

definition ports_valid_over :: "string set \<Rightarrow> string set \<Rightarrow> bool" where
  "ports_valid_over old ps \<longleftrightarrow> (\<forall>p \<in> ps. p \<in> old \<or> (\<exists>n. ParseUint p 16 = Inr n))"

lemma step_keeps_ports:
  "(\<And>p n. HTTPProtoPorts (f p n) = HTTPProtoPorts n) \<Longrightarrow>
     HTTPProtoPorts (netraConfig (snd (port_step v f c))) = HTTPProtoPorts (netraConfig c)"
  "(\<And>d n. HTTPProtoPorts (g d n) = HTTPProtoPorts n) \<Longrightarrow>
     HTTPProtoPorts (netraConfig (snd (millis_step v g c))) = HTTPProtoPorts (netraConfig c)"
  "netraConfig (snd (string_step v h c)) = netraConfig c"
  "netraConfig (snd (flag_step v k c)) = netraConfig c"
  "netraConfig (snd (when_set v (\<lambda>v c. (None, upd_http (u v) c)) c)) = netraConfig c"
  by (simp_all add: port_step_def millis_step_def string_step_def flag_step_def when_set_def
      upd_netra_def upd_http_def split: sum.split)

lemma config_step_ports_valid:
  assumes "st \<in> set (config_steps getenv)"
    and "ports_valid_over old (HTTPProtoPorts (netraConfig d))"
  shows "ports_valid_over old (HTTPProtoPorts (netraConfig (snd (st d))))"
proof -
  have ports: "ports_valid_over old (HTTPProtoPorts (netraConfig (snd (ports_step v d))))" for v
    using assms(2) load_ports_valid [of _ "Split v (CHR '','')" "HTTPProtoPorts (netraConfig d)"]
    by (auto simp: ports_step_def when_set_def upd_netra_def split_beta ports_valid_over_def)
  have same: "HTTPProtoPorts (netraConfig (snd (st d))) = HTTPProtoPorts (netraConfig d)"
    if "st \<noteq> ports_step (getenv envNetraHTTPPorts)"
    using assms(1) that
    by (auto simp: config_steps_def step_keeps_ports)
  show ?thesis
    using ports same assms(2) by (cases "st = ports_step (getenv envNetraHTTPPorts)") simp_all
qed

lemma run_steps_ports_valid:
  assumes "set sts \<subseteq> set (config_steps getenv)"
    and "ports_valid_over old (HTTPProtoPorts (netraConfig d))"
  shows "ports_valid_over old (HTTPProtoPorts (netraConfig (snd (run_steps sts d))))"
  using assms
proof (induction sts arbitrary: d)
  case (Cons st sts)
  obtain e d' where st: "st d = (e, d')"
    by fastforce
  with Cons.prems have "ports_valid_over old (HTTPProtoPorts (netraConfig d'))"
    using config_step_ports_valid [of st getenv old d] by simp
  with Cons.IH [of d'] Cons.prems(1) st show ?case
    by (cases e) simp_all
qed simp

section \<open>Properties\<close>

text \<open>
  (C32) Which environments are refused. \<open>GlobalConfigFromENV\<close> returns an error exactly when one
  of the three port variables is set to something that is not an unsigned 16-bit number, one
  of the four duration variables is set to something that is not a 64-bit integer, or the
  list of HTTP ports holds an element that is not an unsigned 16-bit number. The tag maps, the
  names and the switches never cause an error.
\<close>
theorem GlobalConfigFromENV_error_iff:
  "(\<exists>e. fst (GlobalConfigFromENV getenv c) = Some e) \<longleftrightarrow>
     bad_port (getenv envNetraPort) \<or> bad_port (getenv envNetraPprofPort) \<or>
     bad_port (getenv envNetraPrometheusPort) \<or>
     bad_int (getenv envNetraTracingContextExpiration) \<or>
     bad_int (getenv envNetraTracingContextCleanupInterval) \<or>
     bad_int (getenv envNetraRoutingContextExpiration) \<or>
     bad_int (getenv envNetraRoutingContextCleanupInterval) \<or>
     bad_port_list (getenv envNetraHTTPPorts)"
  by (rule config_error_iff)

text \<open>
  What a successful run configures: every field of both structures, with the default kept
  where the variable is unset. The two switches can only be turned on, and only by the exact
  word \<open>true\<close>; the service name and the logger level are not touched.
\<close>
lemma GlobalConfigFromENV_configures:
  assumes "fst (GlobalConfigFromENV getenv c) = None"
  shows "snd (GlobalConfigFromENV getenv c) = configured getenv c"
  using assms by (rule config_success)

definition demo_env :: env where
  "demo_env k = (if k = ''NETRA_PORT'' then ''8080''
     else if k = ''NETRA_HTTP_PORTS'' then ''80,8000''
     else if k = ''NETRA_HTTP_ROUTING_ENABLED'' then ''true'' else [])"

lemma demo_env_values:
  "demo_env envNetraPort = ''8080''" "demo_env envNetraPprofPort = []"
  "demo_env envNetraPrometheusPort = []" "demo_env envNetraTracingContextExpiration = []"
  "demo_env envNetraTracingContextCleanupInterval = []"
  "demo_env envNetraRoutingContextExpiration = []"
  "demo_env envNetraRoutingContextCleanupInterval = []"
  "demo_env envNetraHTTPPorts = ''80,8000''" "demo_env envHTTPRoutingEnabled = ''true''"
  "demo_env envHttpRequestIdHeaderName = []"
  by (simp_all add: demo_env_def env_defs)

lemma demo_env_accepted: "fst (GlobalConfigFromENV demo_env c) = None"
proof -
  have p: "ParseUint ''8080'' 16 = Inr 8080" "ParseUint ''80'' 16 = Inr 80"
    "ParseUint ''8000'' 16 = Inr 8000"
    by (simp_all add: ParseUint_def is_digit_def digit_val_def)
  have "\<not> bad_port ''8080''" "\<not> bad_port []" "\<not> bad_int []" "\<not> bad_port_list ''80,8000''"
    by (simp_all add: bad_port_def bad_int_def bad_port_list_def p)
  then have "\<not> (\<exists>e. fst (GlobalConfigFromENV demo_env c) = Some e)"
    unfolding config_error_iff demo_env_values by simp
  then show ?thesis by simp
qed

lemma GlobalConfigFromENV_configures_witness:
  "Port (netraConfig (snd (GlobalConfigFromENV demo_env initial_config))) = 8080 \<and>
   HTTPProtoPorts (netraConfig (snd (GlobalConfigFromENV demo_env initial_config)))
     = {''80'', ''8000''} \<and>
   RoutingEnabled (httpConfig (snd (GlobalConfigFromENV demo_env initial_config))) \<and>
   RequestIdHeaderName (httpConfig (snd (GlobalConfigFromENV demo_env initial_config)))
     = ''X-Request-Id''"
  unfolding GlobalConfigFromENV_configures [OF demo_env_accepted]
  by (simp add: configured_def demo_env_values Let_def port_or_def ports_or_def string_or_def
      digits_value_def digit_val_def initial_config_def initial_netraConfig_def
      initial_httpConfig_def)

text \<open>
  The HTTP port table only ever holds numbers of 16 bits. Whether the run succeeds or
  stops at an error, every key of \<open>HTTPProtoPorts\<close> that was not there before is the text of an
  unsigned 16-bit number: ports accepted before a bad list element stay, the bad one never
  enters.
\<close>
lemma HTTPProtoPorts_valid:
  assumes "p \<in> HTTPProtoPorts (netraConfig (snd (GlobalConfigFromENV getenv c)))"
    and "p \<notin> HTTPProtoPorts (netraConfig c)"
  shows "\<exists>n. ParseUint p 16 = Inr n"
proof -
  have "ports_valid_over (HTTPProtoPorts (netraConfig c))
          (HTTPProtoPorts (netraConfig (snd (run_steps (config_steps getenv) c))))"
    by (rule run_steps_ports_valid) (auto simp: ports_valid_over_def)
  with assms show ?thesis
    by (auto simp: GlobalConfigFromENV_def ports_valid_over_def)
qed

lemma HTTPProtoPorts_valid_witness:
  "\<exists>n. ParseUint ''8000'' 16 = Inr n"
proof (rule HTTPProtoPorts_valid [of "''8000''" demo_env initial_config])
  show "''8000'' \<in> HTTPProtoPorts (netraConfig (snd (GlobalConfigFromENV demo_env initial_config)))"
    unfolding config_success [OF demo_env_accepted]
    by (simp add: configured_def demo_env_values Let_def ports_or_def)
qed (simp add: initial_config_def initial_netraConfig_def)

text \<open>
  The tag maps read back what they were written from. A variable holding the pairs
  \<open>name:tag\<close>, joined by commas, configures exactly these pairs over the old map, the last one
  winning where a name repeats; names may not hold a colon or a comma and tags no comma.
\<close>
lemma header_tag_map_roundtrip:
  assumes "fst (GlobalConfigFromENV getenv c) = None"
    and "getenv envHttpHeaderTagMap = Join (map (\<lambda>(k, v). k @ CHR '':'' # v) kvs) '',''"
    and "kvs \<noteq> []"
    and "\<forall>(k, v) \<in> set kvs. CHR '':'' \<notin> set k \<and> CHR '','' \<notin> set k \<and> CHR '','' \<notin> set v"
  shows "HeadersMap (httpConfig (snd (GlobalConfigFromENV getenv c))) =
           HeadersMap (httpConfig c) ++ map_of (rev kvs)"
proof -
  let ?enc = "map (\<lambda>(k, v). k @ CHR '':'' # v) kvs"
  have "Split (Join ?enc '','') (CHR '','') = ?enc"
    using assms(3,4) by (intro Split_Join) auto
  moreover have "Join ?enc '','' \<noteq> []"
    using assms(3) by (cases kvs; cases "tl kvs") (auto simp: Join_Cons)
  moreover have "load_pairs ?enc m = m ++ map_of (rev kvs)" for m
    using assms(4) by (intro load_pairs_encoded) auto
  ultimately show ?thesis
    unfolding config_success [OF assms(1)]
    by (simp add: configured_def Let_def tags_or_def assms(2))
qed

text \<open>
  Durations. A millisecond count of at most 9223372036854 in absolute value becomes that
  many milliseconds in nanoseconds; beyond it the 64-bit product wraps, and 9223372036855
  milliseconds, which the integer parser accepts, configure a negative duration.
\<close>
lemma millis_or_exact_until_wrap:
  "(Atoi v = Inr ms \<longrightarrow> v \<noteq> [] \<longrightarrow> \<bar>ms\<bar> \<le> 9223372036854 \<longrightarrow>
      sint (millis_or v d) = ms * 1000000) \<and>
   sint (millis_or ''9223372036855'' d) < 0"
proof (intro conjI impI)
  assume "Atoi v = Inr ms" "v \<noteq> []" and ms: "\<bar>ms\<bar> \<le> 9223372036854"
  then have "millis_or v d = word_of_int (ms * 1000000)"
    by (simp add: millis_or_def Millisecond_def)
  moreover have "- 9223372036854775808 \<le> ms * 1000000" "ms * 1000000 < 9223372036854775808"
    using ms by linarith+
  ultimately show "sint (millis_or v d) = ms * 1000000"
    using sint64_of_int [of "ms * 1000000"] by metis
next
  have "Atoi ''9223372036855'' = Inr 9223372036855"
    by (simp add: Atoi_def ParseInt64_def ParseUint_def is_digit_def digit_val_def)
  then show "sint (millis_or ''9223372036855'' d) < 0"
    by (simp add: millis_or_def Millisecond_def)
qed

lemma millis_or_exact_until_wrap_witness:
  "sint (millis_or ''5000'' 0) = 5000000000 \<and> sint (millis_or ''9223372036855'' 0) < 0"
  using millis_or_exact_until_wrap [of "''5000''" 5000 0]
  by (simp add: Atoi_def ParseInt64_def ParseUint_def is_digit_def digit_val_def)

lemma header_tag_map_roundtrip_witness:
  "let getenv = (\<lambda>k. if k = ''HTTP_HEADER_TAG_MAP'' then ''x-session:http.session'' else [])
   in HeadersMap (httpConfig (snd (GlobalConfigFromENV getenv initial_config))) ''x-session''
        = Some ''http.session''"
proof -
  let ?env = "\<lambda>k. if k = ''HTTP_HEADER_TAG_MAP'' then ''x-session:http.session'' else []"
  have v: "?env envNetraPort = []" "?env envNetraPprofPort = []" "?env envNetraPrometheusPort = []"
    "?env envNetraTracingContextExpiration = []" "?env envNetraTracingContextCleanupInterval = []"
    "?env envNetraRoutingContextExpiration = []" "?env envNetraRoutingContextCleanupInterval = []"
    "?env envNetraHTTPPorts = []" "?env envHttpHeaderTagMap = ''x-session:http.session''"
    by (simp_all add: env_defs)
  have "\<not> (\<exists>e. fst (GlobalConfigFromENV ?env initial_config) = Some e)"
    unfolding config_error_iff v by (simp add: bad_port_def bad_int_def bad_port_list_def)
  then have ok: "fst (GlobalConfigFromENV ?env initial_config) = None" by simp
  have "HeadersMap (httpConfig (snd (GlobalConfigFromENV ?env initial_config))) =
     HeadersMap (httpConfig initial_config) ++ map_of (rev [(''x-session'', ''http.session'')])"
    by (rule header_tag_map_roundtrip [OF ok]) (simp_all add: v(9))
  then show ?thesis by (simp add: Let_def)
qed

end
