(* ===== verification/Interfaces.thy ===== *)
theory Interfaces
  imports Prelude
begin

text \<open>
  The two interfaces that several components provide, as locales with the lemmas their clients
  use proved once: a store addressed by keys (the table of established connections, the
  header of a message, the expiring caches read at one instant) and a first-in first-out queue
  (the queues of requests, responses and spans of a connection). Each is interpreted on the
  model's own operations in the theory of the component that provides it.
\<close>

section \<open>Stores\<close>

datatype ('k, 'v) store_op = Put (op_key: 'k) 'v | Del (op_key: 'k)

primrec store_step ::
  "('k \<Rightarrow> 'v \<Rightarrow> 's \<Rightarrow> 's) \<Rightarrow> ('k \<Rightarrow> 's \<Rightarrow> 's) \<Rightarrow> ('k, 'v) store_op \<Rightarrow> 's \<Rightarrow> 's" where
  "store_step put del (Put k v) s = put k v s"
| "store_step put del (Del k) s = del k s"

primrec op_result :: "('k, 'v) store_op \<Rightarrow> 'v option" where
  "op_result (Put k v) = Some v"
| "op_result (Del k) = None"

locale keyed_store =
  fixes put :: "'k \<Rightarrow> 'v \<Rightarrow> 's \<Rightarrow> 's"
    and del :: "'k \<Rightarrow> 's \<Rightarrow> 's"
    and look :: "'s \<Rightarrow> 'k \<Rightarrow> 'v option"
    and same :: "'k \<Rightarrow> 'k \<Rightarrow> bool"
  assumes look_put: "look (put k v s) k' = (if same k k' then Some v else look s k')"
    and look_del: "look (del k s) k' = (if same k k' then None else look s k')"
begin

lemma look_step:
  "look (store_step put del x s) k = (if same (op_key x) k then op_result x else look s k)"
  by (cases x) (simp_all add: look_put look_del)

lemma look_run:
  "look (fold (store_step put del) ops s) k =
     (case find (\<lambda>x. same (op_key x) k) (rev ops) of
        None \<Rightarrow> look s k
      | Some x \<Rightarrow> op_result x)"
  by (induction ops rule: rev_induct) (simp_all add: look_step)

lemma put_put_look: "look (put k v' (put k v s)) = look (put k v' s)"
  by (rule ext) (simp add: look_put)

end

section \<open>Queues\<close>

datatype 'a queue_op = QPush 'a | QPop

primrec queue_step ::
  "('a \<Rightarrow> 'q \<Rightarrow> 'q) \<Rightarrow> ('q \<Rightarrow> 'a option \<times> 'q) \<Rightarrow> 'a queue_op \<Rightarrow> 'q \<times> 'a list \<Rightarrow> 'q \<times> 'a list" where
  "queue_step push pop (QPush x) s = (push x (fst s), snd s)"
| "queue_step push pop QPop s =
     (case pop (fst s) of (None, q) \<Rightarrow> (q, snd s) | (Some x, q) \<Rightarrow> (q, snd s @ [x]))"

fun pushed :: "'a queue_op list \<Rightarrow> 'a list" where
  "pushed [] = []"
| "pushed (QPush x # ops) = x # pushed ops"
| "pushed (QPop # ops) = pushed ops"

lemma pushed_append [simp]: "pushed (xs @ ys) = pushed xs @ pushed ys"
  by (induction xs rule: pushed.induct) auto

locale fifo =
  fixes new :: 'q
    and push :: "'a \<Rightarrow> 'q \<Rightarrow> 'q"
    and pop :: "'q \<Rightarrow> 'a option \<times> 'q"
    and peek :: "'q \<Rightarrow> 'a option"
    and content :: "'q \<Rightarrow> 'a list"
  assumes content_new: "content new = []"
    and content_push: "content (push x q) = content q @ [x]"
    and pop_result: "fst (pop q) = (case content q of [] \<Rightarrow> None | x # _ \<Rightarrow> Some x)"
    and content_pop: "content (snd (pop q)) = tl (content q)"
    and peek_result: "peek q = (case content q of [] \<Rightarrow> None | x # _ \<Rightarrow> Some x)"
begin

lemma peek_is_pop: "peek q = fst (pop q)"
  by (simp add: peek_result pop_result)

lemma fifo_run:
  "fold (queue_step push pop) ops (q, out) = (q', out') \<Longrightarrow>
   out' @ content q' = out @ content q @ pushed ops"
proof (induction ops arbitrary: q out rule: pushed.induct)
  case (2 x ops)
  then show ?case using content_push by fastforce
next
  case (3 ops)
  obtain r q1 where p: "pop q = (r, q1)" by fastforce
  show ?case
  proof (cases "content q")
    case Nil
    with p pop_result [of q] content_pop [of q] have "r = None" "content q1 = []" by auto
    with p "3.prems" "3.IH" Nil show ?thesis by fastforce
  next
    case (Cons x xs)
    with p pop_result [of q] content_pop [of q] have "r = Some x" "content q1 = xs" by auto
    with p "3.prems" "3.IH" Cons show ?thesis by fastforce
  qed
qed simp

lemma fifo_from_new:
  "fold (queue_step push pop) ops (new, []) = (q', out') \<Longrightarrow> out' @ content q' = pushed ops"
  using fifo_run [of ops new "[]"] content_new by simp

end

end
