(* ===== verification/EstabCache.thy ===== *)
theory EstabCache
  imports Interfaces
begin

text \<open>
  The table of established connections of \<open>pkg/estabcache/estabcache.go\<close>: a map from addresses
  to the time they were added, under a read-write mutex that makes each operation one step.
  The text of \<open>time.Now()\<close> is an argument of \<open>Add\<close>. \<open>PrintConnections\<close> only reads the map.
\<close>

record EstablishedCache =
  ec_m :: "string \<rightharpoonup> string"

definition NewEstablishedCache :: EstablishedCache where
  "NewEstablishedCache = \<lparr>ec_m = Map.empty\<rparr>"

definition Add :: "string \<Rightarrow> string \<Rightarrow> EstablishedCache \<Rightarrow> EstablishedCache" where
  "Add addr now e = e\<lparr>ec_m := (ec_m e)(addr \<mapsto> now)\<rparr>"

definition Remove :: "string \<Rightarrow> EstablishedCache \<Rightarrow> EstablishedCache" where
  "Remove addr e = e\<lparr>ec_m := (ec_m e)(addr := None)\<rparr>"

definition PrintConnections :: "EstablishedCache \<Rightarrow> string \<rightharpoonup> string" where
  "PrintConnections e = ec_m e"

interpretation estab: keyed_store Add Remove PrintConnections "(=)"
  by unfold_locales (auto simp: Add_def Remove_def PrintConnections_def)

text \<open>
  After any sequence of additions and removals on a new table, an address is listed
  exactly when the last operation on it was an addition, with the time of that addition.
\<close>
lemma established_after_operations:
  "PrintConnections (fold (store_step Add Remove) ops NewEstablishedCache) addr =
     (case find (\<lambda>x. op_key x = addr) (rev ops) of None \<Rightarrow> None | Some x \<Rightarrow> op_result x)"
proof -
  have "PrintConnections NewEstablishedCache addr = None"
    by (simp add: PrintConnections_def NewEstablishedCache_def)
  then show ?thesis
    using estab.look_run [of ops NewEstablishedCache addr] by (simp split: option.split)
qed

end
