(* ===== verification/GoCache.thy ===== *)
theory GoCache
  imports Interfaces
begin

text \<open>
  The expiring cache of \<open>vendor/github.com/patrickmn/go-cache/cache.go\<close>, which keeps the
  tracing contexts and the routing decisions by request id: \<open>New\<close>, \<open>SetDefault\<close>, \<open>Get\<close>,
  \<open>Delete\<close> and the janitor's \<open>DeleteExpired\<close>. An item's expiration is a signed 64-bit number of nanoseconds,
  0 for an item that never expires, and the clock \<open>time.Now().UnixNano()\<close> is an argument.
  Eviction callbacks are not used by the program and are left out.
\<close>

record 'v item =
  Object :: 'v
  Expiration :: int64

record 'v cache =
  defaultExpiration :: int64
  cache_items :: "string \<rightharpoonup> 'v item"

definition NoExpiration :: int64 where "NoExpiration = - 1"

definition cache_New :: "int64 \<Rightarrow> 'v cache" where
  "cache_New de = \<lparr>defaultExpiration = (if de = 0 then NoExpiration else de),
                  cache_items = Map.empty\<rparr>"

definition cache_Set :: "int64 \<Rightarrow> string \<Rightarrow> 'v \<Rightarrow> int64 \<Rightarrow> 'v cache \<Rightarrow> 'v cache" where
  "cache_Set now k x d c =
     (let d' = (if d = 0 then defaultExpiration c else d);
          e = (if 0 <s d' then now + d' else 0)
      in c\<lparr>cache_items := (cache_items c)(k \<mapsto> \<lparr>Object = x, Expiration = e\<rparr>)\<rparr>)"

definition SetDefault :: "int64 \<Rightarrow> string \<Rightarrow> 'v \<Rightarrow> 'v cache \<Rightarrow> 'v cache" where
  "SetDefault now k x c = cache_Set now k x 0 c"

definition cache_Get :: "int64 \<Rightarrow> 'v cache \<Rightarrow> string \<Rightarrow> 'v option" where
  "cache_Get now c k =
     (case cache_items c k of
        None \<Rightarrow> None
      | Some it \<Rightarrow> if 0 <s Expiration it \<and> Expiration it <s now then None else Some (Object it))"

definition cache_Delete :: "string \<Rightarrow> 'v cache \<Rightarrow> 'v cache" where
  "cache_Delete k c = c\<lparr>cache_items := (cache_items c)(k := None)\<rparr>"

definition DeleteExpired :: "int64 \<Rightarrow> 'v cache \<Rightarrow> 'v cache" where
  "DeleteExpired now c = c\<lparr>cache_items := (\<lambda>k. case cache_items c k of
        None \<Rightarrow> None
      | Some it \<Rightarrow> if 0 <s Expiration it \<and> Expiration it <s now then None else Some it)\<rparr>"

lemma cache_Get_SetDefault_other:
  "k' \<noteq> k \<Longrightarrow> cache_Get t (SetDefault now k x c) k' = cache_Get t c k'"
  by (simp add: cache_Get_def SetDefault_def cache_Set_def Let_def)

lemma cache_Get_SetDefault_same:
  "cache_Get t (SetDefault now k x c) k =
     (let d = defaultExpiration c in
      if 0 <s d \<and> 0 <s now + d \<and> now + d <s t then None else Some x)"
  by (auto simp: cache_Get_def SetDefault_def cache_Set_def Let_def word_sless_alt)

lemma sint64_add:
  assumes "- 9223372036854775808 \<le> sint (a :: int64) + sint b"
    and "sint a + sint b < 9223372036854775808"
  shows "sint (a + b) = sint a + sint b"
  using sint64_of_int [OF assms] by simp

lemma DeleteExpired_transparent:
  "sint j \<le> sint t \<Longrightarrow> cache_Get t (DeleteExpired j c) k = cache_Get t c k"
  by (auto simp: cache_Get_def DeleteExpired_def word_sless_alt split: option.splits)

lemma no_instant_expiry:
  "\<not> (0 <s (d :: int64) \<and> 0 <s now + d \<and> now + d <s now)"
proof
  assume a: "0 <s d \<and> 0 <s now + d \<and> now + d <s now"
  then have pos: "0 < sint d" "0 < sint (now + d)" "sint (now + d) < sint now"
    by (simp_all add: word_sless_alt)
  have r: "- 9223372036854775808 \<le> sint x" "sint x < 9223372036854775808" for x :: int64
    using sint_ge [of x] sint_lt [of x] by simp_all
  show False
  proof (cases "sint now + sint d < 9223372036854775808")
    case True
    with pos r [of now] have "sint (now + d) = sint now + sint d"
      by (intro sint64_add) linarith+
    with pos show False by linarith
  next
    case False
    let ?s = "sint now + sint d - 18446744073709551616"
    have "now + d = word_of_int ?s"
      by (simp add: wi_hom_syms)
    moreover have "sint (word_of_int ?s :: int64) = ?s"
      using False r [of now] r [of d] by (intro sint64_of_int) linarith+
    ultimately have "sint (now + d) = ?s" by metis
    with pos r [of now] r [of d] show False by linarith
  qed
qed

text \<open>
  Read and written at one instant, whatever the instant and the expiration, the cache is a
  keyed store: nothing expires at the moment it is stored, even where the clock wraps.
\<close>

interpretation instant: keyed_store "SetDefault now" cache_Delete "cache_Get now" "(=)" for now
proof unfold_locales
  fix k k' :: string and v :: 'a and s :: "'a cache"
  show "cache_Get now (SetDefault now k v s) k' = (if k = k' then Some v else cache_Get now s k')"
    using no_instant_expiry [of "defaultExpiration s" now]
    by (auto simp: cache_Get_SetDefault_same cache_Get_SetDefault_other Let_def)
  show "cache_Get now (cache_Delete k s) k' = (if k = k' then None else cache_Get now s k')"
    by (simp add: cache_Get_def cache_Delete_def)
qed

text \<open>
  Lifetime of an entry. With a positive default expiration that does not take the clock
  past its range, an entry stored by \<open>SetDefault\<close> is returned up to and including the instant
  that lies the expiration after it was stored and at no later instant; other keys are not
  affected; and the janitor may remove expired entries at any earlier time without changing
  what any \<open>Get\<close> returns.
\<close>
lemma SetDefault_lifetime:
  assumes "0 < sint (defaultExpiration c)" and "0 \<le> sint now"
    and "sint now + sint (defaultExpiration c) < 9223372036854775808"
    and "sint j \<le> sint t"
  shows "cache_Get t (DeleteExpired j (SetDefault now k x c)) k' =
           (if k' = k
            then if sint t \<le> sint now + sint (defaultExpiration c) then Some x else None
            else cache_Get t c k')"
proof -
  let ?d = "defaultExpiration c"
  have sum: "sint (now + ?d) = sint now + sint ?d"
    using assms(1-3) by (intro sint64_add) linarith+
  show ?thesis
    using assms(1,2) sum
    by (simp add: DeleteExpired_transparent [OF assms(4)] cache_Get_SetDefault_same
        cache_Get_SetDefault_other word_sless_alt Let_def)
qed

lemma SetDefault_lifetime_witness:
  "cache_Get 5000000000 (DeleteExpired 3 (SetDefault 0 ''r'' True (cache_New 5000000000))) ''r''
     = Some True \<and>
   cache_Get 5000000001 (DeleteExpired 3 (SetDefault 0 ''r'' True (cache_New 5000000000))) ''r''
     = None"
  using SetDefault_lifetime [of "cache_New 5000000000" 0 3 5000000000 "''r''" True "''r''"]
    SetDefault_lifetime [of "cache_New 5000000000" 0 3 5000000001 "''r''" True "''r''"]
  by (simp add: cache_New_def)

end
