(* ===== verification/Queue.thy ===== *)
theory Queue
  imports Interfaces
begin

text \<open>
  The queue of \<open>pkg/protocol/http.go\<close>, a doubly linked list under a mutex. Each operation holds
  the mutex for its whole body, so it is one step on the list of elements. \<open>Pop\<close> and \<open>Peek\<close>
  return nil on an empty queue; the elements pushed by the program are never nil.
\<close>

record 'a Queue =
  elements :: "'a list"

definition NewQueue :: "'a Queue" where
  "NewQueue = \<lparr>elements = []\<rparr>"

definition Push :: "'a \<Rightarrow> 'a Queue \<Rightarrow> 'a Queue" where
  "Push value q = q\<lparr>elements := elements q @ [value]\<rparr>"

definition Pop :: "'a Queue \<Rightarrow> 'a option \<times> 'a Queue" where
  "Pop q = (case elements q of
      [] \<Rightarrow> (None, q)
    | el # rest \<Rightarrow> (Some el, q\<lparr>elements := rest\<rparr>))"

definition Peek :: "'a Queue \<Rightarrow> 'a option" where
  "Peek q = (case elements q of [] \<Rightarrow> None | el # _ \<Rightarrow> Some el)"

text \<open>
  The loop of \<open>Clear\<close> has no post statement: it pops once, before the loop, and then tests the
  same element again and again. \<open>None\<close> is a loop that does not end.
\<close>

partial_function (option) clear_loop :: "'a option \<Rightarrow> 'a Queue \<Rightarrow> 'a Queue option" where
  "clear_loop el q = (if el = None then Some q else clear_loop el q)"

definition Clear :: "'a Queue \<Rightarrow> 'a Queue option" where
  "Clear q = (case Pop q of (el, q') \<Rightarrow> clear_loop el q')"

interpretation http_queue: fifo NewQueue Push Pop Peek elements
  by unfold_locales
    (auto simp: NewQueue_def Push_def Pop_def Peek_def split: list.split)

lemma Pop_Push_empty [simp]: "elements q = [] \<Longrightarrow> fst (Pop (Push x q)) = Some x"
  by (simp add: Pop_def Push_def)

text \<open>
  First in, first out. In any interleaving of pushes and pops on a new queue, what was
  popped, in order, followed by what is still queued is exactly what was pushed, in order;
  \<open>Peek\<close> shows what the next \<open>Pop\<close> returns.
\<close>
lemma Queue_first_in_first_out:
  assumes "fold (queue_step Push Pop) ops (NewQueue, []) = (q, out)"
  shows "out @ elements q = pushed ops \<and> Peek q = fst (Pop q)"
  using http_queue.fifo_from_new [OF assms] http_queue.peek_is_pop by blast

lemma Queue_first_in_first_out_witness:
  "fold (queue_step Push Pop) [QPush (1::nat), QPush 2, QPop, QPush 3, QPop] (NewQueue, [])
     = (\<lparr>elements = [3]\<rparr>, [1, 2]) \<and>
   [1::nat, 2] @ elements \<lparr>elements = [3]\<rparr> = [1, 2, 3]"
proof -
  have run: "fold (queue_step Push Pop) [QPush (1::nat), QPush 2, QPop, QPush 3, QPop]
      (NewQueue, []) = (\<lparr>elements = [3]\<rparr>, [1, 2])"
    by code_simp
  show ?thesis using run Queue_first_in_first_out [OF run] by simp
qed

text \<open>
  (C38) \<open>Clear\<close> ends only on an empty queue. On a queue with an element its loop never ends, so
  it clears nothing; on an empty queue it returns the queue unchanged.
\<close>
theorem Clear_returns_iff_empty:
  "(\<exists>q'. Clear q = Some q') \<longleftrightarrow> elements q = []"
proof -
  have no_return: "clear_loop el q = Some r \<Longrightarrow> el = None \<and> r = q"
    for el :: "'a option" and q r
  proof (induction rule: clear_loop.raw_induct [rotated 1, consumes 1])
    case (1 f el q r)
    then show ?case by (auto split: if_splits)
  qed
  have "clear_loop (Some x) r = None" for x :: 'a and r
    using no_return by (cases "clear_loop (Some x) r") blast+
  then show ?thesis
    using clear_loop.simps [of "None :: 'a option"]
    by (cases "elements q") (simp_all add: Clear_def Pop_def)
qed

end
