(* ===== verification/MutexQueue.thy ===== *)
theory MutexQueue
  imports Interfaces
begin

text \<open>
  The first-in first-out lock of \<open>pkg/transport/handler.go\<close>. A \<open>MutexQueue\<close> keeps a list of
  mutexes, one for each caller of \<open>Lock\<close> that has not been unlocked yet; a caller that finds
  the list non-empty blocks on the mutex at its tail, which its predecessor's \<open>Unlock\<close> opens.

  The state holds the list, which mutexes are locked, and for each goroutine where it is. The
  mutex \<open>mu\<close> is held from the start of \<open>Lock\<close> until the list is updated and for all of \<open>Unlock\<close>,
  so these are single steps; \<open>tailMutex.Lock(); tailMutex.Unlock()\<close> after it are two more. A
  mutex is named by a number, and a new one by a number not used before.
\<close>

section \<open>State and steps\<close>

type_synonym thread = nat
type_synonym mutex = nat

datatype location =
    Outside                 \<comment> \<open>not between \<open>Lock\<close> and \<open>Unlock\<close>\<close>
  | Blocked mutex mutex     \<comment> \<open>before \<open>tailMutex.Lock()\<close>: the tail, and its own mutex\<close>
  | Passing mutex mutex     \<comment> \<open>between \<open>tailMutex.Lock()\<close> and \<open>tailMutex.Unlock()\<close>\<close>
  | Inside mutex            \<comment> \<open>\<open>Lock\<close> has returned\<close>

record mq_state =
  muList :: "mutex list"
  locked :: "mutex set"
  next_mutex :: mutex
  loc :: "thread \<Rightarrow> location"

definition NewMutexQueue :: mq_state where
  "NewMutexQueue = \<lparr>muList = [], locked = {}, next_mutex = 0, loc = (\<lambda>_. Outside)\<rparr>"

definition enqueue_own :: "mq_state \<Rightarrow> thread \<Rightarrow> location \<Rightarrow> mq_state" where
  "enqueue_own s t l = s\<lparr>muList := muList s @ [next_mutex s],
     locked := insert (next_mutex s) (locked s),
     next_mutex := Suc (next_mutex s), loc := (loc s)(t := l)\<rparr>"

inductive mq_step :: "mq_state \<Rightarrow> mq_state \<Rightarrow> bool" where
  lock_free: "loc s t = Outside \<Longrightarrow> muList s = [] \<Longrightarrow>
     mq_step s (enqueue_own s t (Inside (next_mutex s)))"
| lock_queue: "loc s t = Outside \<Longrightarrow> muList s \<noteq> [] \<Longrightarrow>
     mq_step s (enqueue_own s t (Blocked (last (muList s)) (next_mutex s)))"
| tail_lock: "loc s t = Blocked m own \<Longrightarrow> m \<notin> locked s \<Longrightarrow>
     mq_step s (s\<lparr>locked := insert m (locked s), loc := (loc s)(t := Passing m own)\<rparr>)"
| tail_unlock: "loc s t = Passing m own \<Longrightarrow>
     mq_step s (s\<lparr>locked := locked s - {m}, loc := (loc s)(t := Inside own)\<rparr>)"
| unlock: "loc s t = Inside own \<Longrightarrow> muList s = front # rest \<Longrightarrow> front \<in> locked s \<Longrightarrow>
     mq_step s (s\<lparr>muList := rest, locked := locked s - {front}, loc := (loc s)(t := Outside)\<rparr>)"

text \<open>
  \<open>Unlock\<close> panics when the list is empty (the element to remove is nil) and when the mutex at
  the front is not locked.
\<close>

definition unlock_panics :: "mq_state \<Rightarrow> thread \<Rightarrow> bool" where
  "unlock_panics s t \<longleftrightarrow> (\<exists>own. loc s t = Inside own) \<and>
     (case muList s of [] \<Rightarrow> True | front # _ \<Rightarrow> front \<notin> locked s)"

inductive mq_reachable :: "mq_state \<Rightarrow> bool" where
  start: "mq_reachable NewMutexQueue"
| step: "mq_reachable s \<Longrightarrow> mq_step s s' \<Longrightarrow> mq_reachable s'"

section \<open>The invariant\<close>

text \<open>
  The callers between \<open>Lock\<close> and \<open>Unlock\<close> form a queue: each with its own mutex, in the order
  of the list, and each but the first blocked on the mutex of the one before it. The first one
  is inside, or it waits on a mutex that has left the list and that only itself can hold.
\<close>

fun chain :: "(thread \<Rightarrow> location) \<Rightarrow> mutex \<Rightarrow> (mutex \<times> thread) list \<Rightarrow> bool" where
  "chain L p [] = True"
| "chain L p ((m, t) # q) = (L t = Blocked p m \<and> chain L m q)"

definition front_ok :: "mq_state \<Rightarrow> mutex \<Rightarrow> thread \<Rightarrow> bool" where
  "front_ok s m t \<longleftrightarrow> loc s t = Inside m \<or>
     (\<exists>p. p < m \<and> (loc s t = Blocked p m \<and> p \<notin> locked s \<or> loc s t = Passing p m))"

definition mq_inv :: "(mutex \<times> thread) list \<Rightarrow> mq_state \<Rightarrow> bool" where
  "mq_inv q s \<longleftrightarrow>
     muList s = map fst q \<and> sorted_wrt (<) (muList s) \<and> distinct (map snd q) \<and>
     (\<forall>m \<in> set (muList s). m \<in> locked s \<and> m < next_mutex s) \<and>
     (\<forall>t. t \<notin> snd ` set q \<longrightarrow> loc s t = Outside) \<and>
     (case q of [] \<Rightarrow> True | (m, t) # r \<Rightarrow> chain (loc s) m r \<and> front_ok s m t)"

lemma chain_append:
  "chain L p (q @ [(m, t)]) \<longleftrightarrow> chain L p q \<and> L t = Blocked (last (p # map fst q)) m"
  by (induction L p q rule: chain.induct) auto

lemma chain_cong:
  "(\<And>t. t \<in> snd ` set q \<Longrightarrow> L t = L' t) \<Longrightarrow> chain L p q = chain L' p q"
  by (induction L p q rule: chain.induct) auto

lemma chain_upd: "t \<notin> snd ` set q \<Longrightarrow> chain (L(t := l)) p q = chain L p q"
  by (rule chain_cong) auto

lemma chain_member:
  "chain L p q \<Longrightarrow> (m, t) \<in> set q \<Longrightarrow> \<exists>p' \<in> insert p (fst ` set q). L t = Blocked p' m"
  by (induction L p q rule: chain.induct) auto

lemma sorted_wrt_less_distinct: "sorted_wrt (<) (xs :: nat list) \<Longrightarrow> distinct xs"
  by (induction xs) auto

lemma mq_inv_front:
  \<comment> \<open>a caller that is not blocked on a locked mutex is the first of the queue\<close>
  assumes "mq_inv q s" and "loc s t \<noteq> Outside"
    and "\<forall>p m. loc s t = Blocked p m \<longrightarrow> p \<notin> locked s"
  shows "\<exists>m r. q = (m, t) # r \<and> front_ok s m t \<and> chain (loc s) m r"
proof (cases q)
  case Nil
  with assms show ?thesis by (auto simp: mq_inv_def)
next
  case (Cons mt r)
  obtain m u where mt: "mt = (m, u)" by fastforce
  from assms(1) Cons mt have ch: "chain (loc s) m r" "front_ok s m u"
    and lk: "\<forall>m' \<in> set (muList s). m' \<in> locked s" and ml: "muList s = m # map fst r"
    and out: "\<forall>t. t \<notin> insert u (snd ` set r) \<longrightarrow> loc s t = Outside"
    by (auto simp: mq_inv_def)
  have "t \<notin> snd ` set r"
  proof
    assume "t \<in> snd ` set r"
    then obtain own where "(own, t) \<in> set r" by auto
    from chain_member [OF ch(1) this] obtain p where
      p: "p \<in> insert m (fst ` set r)" "loc s t = Blocked p own" by blast
    with lk ml have "p \<in> locked s" by auto
    with p(2) assms(3) show False by blast
  qed
  with out assms(2) have "t = u" by blast
  with Cons mt ch show ?thesis by blast
qed

section \<open>Every step keeps the invariant\<close>

lemma mq_inv_lock_free:
  assumes "mq_inv q s" and "loc s t = Outside" and "muList s = []"
  shows "mq_inv [(next_mutex s, t)] (enqueue_own s t (Inside (next_mutex s)))"
  using assms by (auto simp: mq_inv_def enqueue_own_def front_ok_def)

lemma mq_inv_lock_queue:
  assumes inv: "mq_inv q s" and t: "loc s t = Outside" and ne: "muList s \<noteq> []"
  shows "mq_inv (q @ [(next_mutex s, t)])
           (enqueue_own s t (Blocked (last (muList s)) (next_mutex s)))"
proof -
  from inv ne obtain m u r where q: "q = (m, u) # r" by (cases q) (auto simp: mq_inv_def)
  with inv have f: "front_ok s m u" "chain (loc s) m r" and ml: "muList s = m # map fst r"
    and m: "m < next_mutex s"
    by (auto simp: mq_inv_def)
  have nt: "t \<notin> insert u (snd ` set r)"
  proof
    assume "t \<in> insert u (snd ` set r)"
    then consider "t = u" | own where "(own, t) \<in> set r" by auto
    then show False
    proof cases
      case 1
      with f(1) t show False by (auto simp: front_ok_def)
    next
      case 2
      from chain_member [OF f(2) this] t show False by auto
    qed
  qed
  from f m nt have "front_ok (enqueue_own s t (Blocked (last (muList s)) (next_mutex s))) m u"
    by (auto simp: front_ok_def enqueue_own_def)
  with inv q nt f ml show ?thesis
    by (auto simp: mq_inv_def enqueue_own_def chain_append chain_upd sorted_wrt_append)
qed

lemma mq_inv_tail_lock:
  assumes "mq_inv q s" and "loc s t = Blocked p own" and "p \<notin> locked s"
  shows "mq_inv q (s\<lparr>locked := insert p (locked s), loc := (loc s)(t := Passing p own)\<rparr>)"
proof -
  from mq_inv_front [OF assms(1), of t] assms(2,3) obtain m r where
    q: "q = (m, t) # r" "front_ok s m t" "chain (loc s) m r" by auto
  with assms show ?thesis
    by (auto simp: mq_inv_def front_ok_def chain_upd) force+
qed

lemma mq_inv_tail_unlock:
  assumes "mq_inv q s" and "loc s t = Passing p own"
  shows "mq_inv q (s\<lparr>locked := locked s - {p}, loc := (loc s)(t := Inside own)\<rparr>)"
proof -
  from mq_inv_front [OF assms(1), of t] assms(2) obtain m r where
    q: "q = (m, t) # r" "front_ok s m t" "chain (loc s) m r" by auto
  with assms show ?thesis
    by (auto simp: mq_inv_def front_ok_def chain_upd) force+
qed

lemma mq_inv_unlock:
  assumes "mq_inv q s" and "loc s t = Inside own" and "muList s = front # rest"
  shows "mq_inv (tl q) (s\<lparr>muList := rest, locked := locked s - {front},
           loc := (loc s)(t := Outside)\<rparr>)"
proof -
  from mq_inv_front [OF assms(1), of t] assms(2) obtain m r where
    q: "q = (m, t) # r" "chain (loc s) m r" by auto
  with assms have r: "front = m" "rest = map fst r" "t \<notin> snd ` set r" "\<forall>x \<in> set rest. m < x"
    by (auto simp: mq_inv_def) force
  show ?thesis
    using assms q r
    by (cases r) (auto simp: mq_inv_def front_ok_def chain_upd)
qed

lemma mq_step_inv:
  assumes "mq_step s s'" and "mq_inv q s"
  shows "\<exists>q'. mq_inv q' s'"
  using assms(1)
proof cases
  case (lock_free t)
  then show ?thesis using mq_inv_lock_free [OF assms(2)] by blast
next
  case (lock_queue t)
  then show ?thesis using mq_inv_lock_queue [OF assms(2)] by blast
next
  case (tail_lock t m own)
  then show ?thesis using mq_inv_tail_lock [OF assms(2)] by blast
next
  case (tail_unlock t m own)
  then show ?thesis using mq_inv_tail_unlock [OF assms(2)] by blast
next
  case (unlock t own front rest)
  then show ?thesis using mq_inv_unlock [OF assms(2)] by blast
qed

lemma mq_reachable_inv: "mq_reachable s \<Longrightarrow> \<exists>q. mq_inv q s"
proof (induction rule: mq_reachable.induct)
  case start
  have "mq_inv [] NewMutexQueue" by (simp add: mq_inv_def NewMutexQueue_def)
  then show ?case by blast
next
  case (step s s')
  then show ?case using mq_step_inv by blast
qed

section \<open>Properties\<close>

text \<open>
  (C33) Mutual exclusion: in no reachable state are two goroutines between a returned \<open>Lock\<close>
  and their \<open>Unlock\<close>.
\<close>
theorem MutexQueue_mutual_exclusion:
  assumes "mq_reachable s" and "loc s t = Inside m" and "loc s u = Inside n"
  shows "t = u"
proof -
  from assms(1) obtain q where "mq_inv q s" using mq_reachable_inv by blast
  from mq_inv_front [OF this, of t] mq_inv_front [OF this, of u] assms(2,3)
  show ?thesis by auto
qed

text \<open>
  First come, first served. Mutexes are numbered in the order in which their callers
  entered \<open>Lock\<close>. A goroutine that is inside entered before every other goroutine that is
  still waiting.
\<close>
lemma MutexQueue_fifo:
  assumes "mq_reachable s" and "loc s t = Inside m"
    and "loc s u = Blocked p n \<or> loc s u = Passing p n"
  shows "m < n"
proof -
  from assms(1) obtain q where inv: "mq_inv q s" using mq_reachable_inv by blast
  from mq_inv_front [OF inv, of t] assms(2) obtain r where
    q: "q = (m, t) # r" "chain (loc s) m r" by (auto simp: front_ok_def)
  from q inv have "u \<notin> insert t (snd ` set r) \<longrightarrow> loc s u = Outside"
    by (auto simp: mq_inv_def)
  moreover from assms(2,3) have "u \<noteq> t" "loc s u \<noteq> Outside" by auto
  ultimately have "u \<in> snd ` set r" by blast
  then obtain n' where n': "(n', u) \<in> set r" by auto
  from chain_member [OF q(2) this] assms(3) have "n' = n" by auto
  with n' inv q show ?thesis by (auto simp: mq_inv_def) force
qed

text \<open>
  \<open>Unlock\<close> called by a goroutine that holds the lock never panics: the list is not empty
  and the mutex at its front, which is the caller's own, is locked.
\<close>
lemma MutexQueue_unlock_never_panics:
  assumes "mq_reachable s"
  shows "\<not> unlock_panics s t"
proof
  assume p: "unlock_panics s t"
  from assms obtain q where inv: "mq_inv q s" using mq_reachable_inv by blast
  from p obtain own where "loc s t = Inside own" by (auto simp: unlock_panics_def)
  with mq_inv_front [OF inv, of t] obtain m r where "q = (m, t) # r" by auto
  with inv p show False by (auto simp: mq_inv_def unlock_panics_def)
qed

text \<open>
  No deadlock. Whenever some goroutine is between the call of \<open>Lock\<close> and the return of
  \<open>Unlock\<close>, one of these goroutines can take a step.
\<close>
lemma MutexQueue_progress:
  assumes "mq_reachable s" and "loc s t \<noteq> Outside"
  shows "\<exists>s' u. mq_step s s' \<and> loc s u \<noteq> Outside \<and> loc s' u \<noteq> loc s u"
proof -
  from assms(1) obtain q where inv: "mq_inv q s" using mq_reachable_inv by blast
  with assms(2) obtain m u r where q: "q = (m, u) # r" by (cases q) (auto simp: mq_inv_def)
  with inv have f: "front_ok s m u" and ml: "muList s = m # map fst r" "m \<in> locked s"
    by (auto simp: mq_inv_def)
  from f consider "loc s u = Inside m"
    | p where "loc s u = Blocked p m" "p \<notin> locked s" | p where "loc s u = Passing p m"
    by (auto simp: front_ok_def)
  then show ?thesis
  proof cases
    case 1
    from mq_step.unlock [OF 1 ml] 1 show ?thesis by fastforce
  next
    case 2
    from mq_step.tail_lock [OF 2] 2 show ?thesis by fastforce
  next
    case 3
    from mq_step.tail_unlock [OF 3] 3 show ?thesis by fastforce
  qed
qed

section \<open>A run with two callers\<close>

definition two_callers :: mq_state where
  "two_callers = \<lparr>muList = [0, 1], locked = {0, 1}, next_mutex = 2,
     loc = (\<lambda>_. Outside)(7 := Inside 0, 8 := Blocked 0 1)\<rparr>"

lemma two_callers_reachable: "mq_reachable two_callers"
proof -
  let ?s1 = "enqueue_own NewMutexQueue 7 (Inside 0)"
  have "mq_step NewMutexQueue ?s1"
    using mq_step.lock_free [of NewMutexQueue 7] by (simp add: NewMutexQueue_def)
  with mq_reachable.start have r1: "mq_reachable ?s1" by (rule mq_reachable.step)
  have "mq_step ?s1 (enqueue_own ?s1 8 (Blocked 0 1))"
    using mq_step.lock_queue [of ?s1 8] by (simp add: enqueue_own_def NewMutexQueue_def)
  with r1 have "mq_reachable (enqueue_own ?s1 8 (Blocked 0 1))" by (rule mq_reachable.step)
  moreover have "enqueue_own ?s1 8 (Blocked 0 1) = two_callers"
    by (auto simp: enqueue_own_def NewMutexQueue_def two_callers_def)
  ultimately show ?thesis by simp
qed

lemma two_callers_loc:
  "loc two_callers 7 = Inside 0" "loc two_callers 8 = Blocked 0 1"
  by (simp_all add: two_callers_def)

theorem MutexQueue_mutual_exclusion_witness:
  "mq_reachable two_callers \<and> loc two_callers 7 = Inside 0 \<and> (7 :: nat) = 7"
  using MutexQueue_mutual_exclusion [OF two_callers_reachable two_callers_loc(1) two_callers_loc(1)]
    two_callers_reachable two_callers_loc by simp

lemma MutexQueue_fifo_witness:
  "loc two_callers 7 = Inside 0 \<and> loc two_callers 8 = Blocked 0 1 \<and> (0 :: nat) < 1"
  using MutexQueue_fifo [OF two_callers_reachable two_callers_loc(1), of 8 0 1]
    two_callers_loc by simp

lemma MutexQueue_unlock_never_panics_witness:
  "mq_reachable two_callers \<and> \<not> unlock_panics two_callers 7"
  using MutexQueue_unlock_never_panics [OF two_callers_reachable] two_callers_reachable by simp

lemma MutexQueue_progress_witness:
  "\<exists>s' u. mq_step two_callers s' \<and> loc two_callers u \<noteq> Outside \<and> loc s' u \<noteq> loc two_callers u"
  using MutexQueue_progress [OF two_callers_reachable, of 7] two_callers_loc by simp

end
