(* ===== verification/HttpGuts.thy ===== *)
theory HttpGuts
  imports Prelude
begin

text \<open>
  Lexical checks of HTTP fields: \<open>httpguts/httplex.go\<close> and \<open>guts.go\<close> of the patched
  \<open>golang.org/x/net\<close>.

  The Go code iterates over the runes of a string in \<open>ValidHeaderFieldName\<close> and \<open>tokenEqual\<close>;
  a byte of 128 or more belongs to a rune of 128 or more (or to the replacement rune), which
  neither function accepts, so iterating over bytes gives the same answer.
\<close>

section \<open>Tokens\<close>

definition isTokenTable :: string where
  "isTokenTable = ''!#$%&'' @ [CHR 0x27] @ ''*+-.0123456789'' @
     ''ABCDEFGHIJKLMNOPQRSTUWVXYZ^_'' @ [CHR 0x60] @ ''abcdefghijklmnopqrstuvwxyz|~''"

definition IsTokenRune :: "char \<Rightarrow> bool" where
  "IsTokenRune c \<longleftrightarrow> c \<in> set isTokenTable"

definition isNotToken :: "char \<Rightarrow> bool" where
  "isNotToken c \<longleftrightarrow> \<not> IsTokenRune c"

definition isOWS :: "char \<Rightarrow> bool" where
  "isOWS b \<longleftrightarrow> b = CHR '' '' \<or> b = CHR 0x09"

definition trimOWS :: "string \<Rightarrow> string" where
  "trimOWS x = rev (dropWhile isOWS (rev (dropWhile isOWS x)))"

definition lowerASCII :: "char \<Rightarrow> char" where
  "lowerASCII b = (if 65 \<le> ord b \<and> ord b \<le> 90 then char_of (ord b + 32) else b)"

fun token_loop :: "string \<Rightarrow> string \<Rightarrow> bool" where
  "token_loop (b # t1) (c # t2) =
     (if ord b \<ge> 128 then False
      else if lowerASCII b \<noteq> lowerASCII c then False
      else token_loop t1 t2)"
| "token_loop _ _ = True"

definition tokenEqual :: "string \<Rightarrow> string \<Rightarrow> bool" where
  "tokenEqual t1 t2 = (if length t1 \<noteq> length t2 then False else token_loop t1 t2)"

lemma length_trimOWS: "length (trimOWS x) \<le> length x"
  unfolding trimOWS_def
  by (metis length_dropWhile_le length_rev order_trans)

function headerValueContainsToken :: "string \<Rightarrow> string \<Rightarrow> bool" where
  "headerValueContainsToken v0 token =
     (let v = trimOWS v0 in
      case Index (CHR '','') v of
        Some comma \<Rightarrow>
          tokenEqual (trimOWS (take comma v)) token \<or>
          headerValueContainsToken (drop (Suc comma) v) token
      | None \<Rightarrow> tokenEqual v token)"
  by pat_completeness auto
termination
proof (relation "measure (\<lambda>(v, t). length v)", goal_cases)
  case (2 v0 token v comma)
  then have "comma < length v" by (simp add: Index_Some_iff)
  with 2 length_trimOWS [of v0] show ?case by simp
qed simp

declare headerValueContainsToken.simps [simp del]

fun HeaderValuesContainsToken :: "string list \<Rightarrow> string \<Rightarrow> bool" where
  "HeaderValuesContainsToken [] token = False"
| "HeaderValuesContainsToken (v # vs) token =
     (if headerValueContainsToken v token then True else HeaderValuesContainsToken vs token)"

section \<open>Field names, values and hosts\<close>

definition isLWS :: "char \<Rightarrow> bool" where
  "isLWS b \<longleftrightarrow> b = CHR '' '' \<or> b = CHR 0x09"

definition isCTL :: "char \<Rightarrow> bool" where
  "isCTL b \<longleftrightarrow> ord b < 32 \<or> ord b = 127"

definition ValidHeaderFieldName :: "string \<Rightarrow> bool" where
  "ValidHeaderFieldName v = (if v = [] then False else list_all IsTokenRune v)"

definition validHostByte :: string where
  "validHostByte = ''0123456789abcdefghijklmnopqrstuvwxyzABCDEFGHIJKLMNOPQRSTUVWXYZ'' @
     ''!$%&()*+,-.:;=['' @ [CHR 0x27] @ '']_~''"

definition ValidHostHeader :: "string \<Rightarrow> bool" where
  "ValidHostHeader h = list_all (\<lambda>b. b \<in> set validHostByte) h"

definition ValidHeaderFieldValue :: "string \<Rightarrow> bool" where
  "ValidHeaderFieldValue v = list_all (\<lambda>b. \<not> (isCTL b \<and> \<not> isLWS b)) v"

section \<open>A list of elements\<close>

lemma comma_not_OWS [simp]: "\<not> isOWS (CHR '','')"
  by (simp add: isOWS_def)

lemma trimOWS_Cons [simp]: "isOWS c \<Longrightarrow> trimOWS (c # x) = trimOWS x"
  by (simp add: trimOWS_def)

lemma dropWhile_snoc_drop:
  "P c \<Longrightarrow> rev (dropWhile P (rev (dropWhile P (x @ [c])))) = rev (dropWhile P (rev (dropWhile P x)))"
proof (cases "\<forall>y \<in> set x. P y")
  case True
  moreover assume "P c"
  ultimately have "dropWhile P (x @ [c]) = []" "dropWhile P x = []" by simp_all
  then show ?thesis by (simp only: dropWhile.simps rev.simps)
next
  case False
  then obtain y where y: "y \<in> set x" "\<not> P y" by blast
  assume "P c"
  with dropWhile_append1 [of y x P "[c]", OF y] show ?thesis by simp
qed

lemma trimOWS_snoc [simp]: "isOWS c \<Longrightarrow> trimOWS (x @ [c]) = trimOWS x"
  unfolding trimOWS_def by (rule dropWhile_snoc_drop)

lemma trimOWS_idem [simp]: "trimOWS (trimOWS x) = trimOWS x"
proof -
  have fix_left: "dropWhile isOWS (rev (dropWhile isOWS (rev y))) = rev (dropWhile isOWS (rev y))"
    if "dropWhile isOWS y = y" for y
  proof (cases "rev (dropWhile isOWS (rev y))")
    case Nil
    then show ?thesis by (simp only: dropWhile.simps)
  next
    case (Cons a as)
    have "prefix (rev (dropWhile isOWS (rev y))) y"
      by (metis rev_rev_ident suffix_dropWhile suffix_to_prefix)
    with Cons have "y \<noteq> []" "hd y = a" by (auto simp: prefix_def)
    with that have "\<not> isOWS a" by (metis hd_dropWhile)
    with Cons show ?thesis by simp
  qed
  show ?thesis
    unfolding trimOWS_def
    using fix_left [of "dropWhile isOWS x"] by simp
qed

lemma Split_snoc:
  "c \<noteq> sep \<Longrightarrow> Split (x @ [c]) sep = butlast (Split x sep) @ [last (Split x sep) @ [c]]"
proof (induction x)
  case (Cons a x)
  then show ?case
    by (cases "Split x sep") (auto split: list.splits)
qed simp

lemma map_trim_Split_Cons:
  "isOWS c \<Longrightarrow> map trimOWS (Split (c # x) (CHR '','')) = map trimOWS (Split x (CHR '',''))"
  by (cases "Split x (CHR '','')"; cases "c = CHR '',''") auto

lemma map_trim_Split_snoc:
  assumes "isOWS c"
  shows "map trimOWS (Split (x @ [c]) (CHR '','')) = map trimOWS (Split x (CHR '',''))"
proof -
  from assms have c: "c \<noteq> CHR '',''" by auto
  obtain b l where "Split x (CHR '','') = b @ [l]"
    by (metis Split_not_Nil append_butlast_last_id)
  then show ?thesis
    using assms Split_snoc [OF c, of x] by simp
qed

lemma map_trim_Split_trim:
  "map trimOWS (Split (trimOWS x) (CHR '','')) = map trimOWS (Split x (CHR '',''))"
proof -
  have left: "map trimOWS (Split (dropWhile isOWS x) (CHR '','')) = map trimOWS (Split x (CHR '',''))"
    for x
  proof (induction x)
    case (Cons c x)
    then show ?case using map_trim_Split_Cons [of c x] by (simp del: Split.simps)
  qed simp
  have right: "map trimOWS (Split (rev (dropWhile isOWS y)) (CHR '','')) =
      map trimOWS (Split (rev y) (CHR '',''))" for y
  proof (induction y)
    case (Cons c y)
    then show ?case using map_trim_Split_snoc [of c "rev y"] by simp
  qed simp
  have "map trimOWS (Split (rev (dropWhile isOWS (rev (dropWhile isOWS x)))) (CHR '','')) =
      map trimOWS (Split x (CHR '',''))"
    by (simp only: right rev_rev_ident left)
  moreover have "trimOWS x = rev (dropWhile isOWS (rev (dropWhile isOWS x)))"
    by (simp add: trimOWS_def)
  ultimately show ?thesis by (simp only:)
qed

lemma headerValueContainsToken_iff:
  "headerValueContainsToken v token \<longleftrightarrow>
     (\<exists>e \<in> set (Split v (CHR '','')). tokenEqual (trimOWS e) token)"
proof (induction v token rule: headerValueContainsToken.induct)
  case (1 v0 token)
  define v where "v = trimOWS v0"
  have elems: "(\<exists>e \<in> set (Split v0 (CHR '','')). tokenEqual (trimOWS e) token) \<longleftrightarrow>
      (\<exists>e \<in> set (map trimOWS (Split v (CHR '',''))). tokenEqual e token)"
    by (simp add: v_def map_trim_Split_trim)
  show ?case
  proof (cases "Index (CHR '','') v")
    case None
    then have "Split v (CHR '','') = [v]" by (simp add: Index_None_iff)
    with None elems show ?thesis
      by (simp add: headerValueContainsToken.simps [of v0] v_def)
  next
    case (Some i)
    then have i: "i < length v" "v ! i = CHR '',''" "CHR '','' \<notin> set (take i v)"
      by (simp_all add: Index_Some_iff)
    then have "v = take i v @ CHR '','' # drop (Suc i) v"
      by (metis id_take_nth_drop)
    then have "Split v (CHR '','') = take i v # Split (drop (Suc i) v) (CHR '','')"
      using Split_append [OF i(3)] by metis
    with Some elems "1.IH" [OF v_def Some] show ?thesis
      by (simp add: headerValueContainsToken.simps [of v0] v_def Let_def)
  qed
qed

lemma token_loop_iff:
  "length s = length t \<Longrightarrow> token_loop s t \<longleftrightarrow>
     (\<forall>b \<in> set s. ord b < 128) \<and> map lowerASCII s = map lowerASCII t"
  by (induction s t rule: token_loop.induct) auto

lemma tokenEqual_iff:
  "tokenEqual s token \<longleftrightarrow>
     list_all (\<lambda>b. ord b < 128) s \<and> map lowerASCII s = map lowerASCII token"
  by (auto simp: tokenEqual_def token_loop_iff list_all_iff dest: map_eq_imp_length_eq)

text \<open>
  A header field with list syntax. The recursive scan of \<open>HeaderValuesContainsToken\<close>
  finds a token exactly when one of the comma-separated elements of one of the values, with
  white space at its ends removed, is ASCII and equal to the token up to the case of ASCII
  letters.
\<close>
lemma HeaderValuesContainsToken_iff_element:
  "HeaderValuesContainsToken values token \<longleftrightarrow>
     (\<exists>v \<in> set values. \<exists>e \<in> set (Split v (CHR '','')).
        list_all (\<lambda>b. ord b < 128) (trimOWS e) \<and>
        map lowerASCII (trimOWS e) = map lowerASCII token)"
  by (induction "values") (auto simp: headerValueContainsToken_iff tokenEqual_iff)

end
