(* ===== verification/GoIO.thy ===== *)
theory GoIO
  imports HttpGuts
begin

text \<open>
  Readers and writers as the HTTP code uses them.

  A writer accepts bytes until its room is used up and then reports an error, as a connection does
  when its peer goes away; \<open>None\<close> is unlimited room. Behind a \<open>bufio.Writer\<close> the error is reported
  later than at the byte where the peer stopped, so there \<open>room\<close> is what the buffering writer
  accepts before it reports the error, and what the peer gets is a prefix of \<open>out\<close>. A reader is the bytes still to come: the parts of
  \<open>bufio\<close> and \<open>net/textproto\<close> below consume a prefix and return the rest, so that what they
  return does not depend on how the bytes arrive. \<open>read_mime_header\<close> follows
  \<open>textproto.Reader.ReadMIMEHeader\<close> of Go 1.12 (from its tenth patch release on, which keeps a
  space before the colon in the key).
\<close>

section \<open>Writers\<close>

datatype io_error =
    EOF | ErrUnexpectedEOF | ErrShortWrite | ErrWrite | ErrBufferFull | ErrLineTooLong
  | ProtocolError string | badStringError string string | OtherError string

record writer =
  out :: bytes
  room :: "nat option"

definition WriteString :: "string \<Rightarrow> writer \<Rightarrow> io_error option \<times> writer" where
  "WriteString s w =
     (case room w of
        None \<Rightarrow> (None, w\<lparr>out := out w @ s\<rparr>)
      | Some n \<Rightarrow>
          if length s \<le> n then (None, w\<lparr>out := out w @ s, room := Some (n - length s)\<rparr>)
          else (Some ErrWrite, w\<lparr>out := out w @ take n s, room := Some 0\<rparr>))"

text \<open>A sequence of writes, each followed by the return of its error.\<close>

fun write_all :: "string list \<Rightarrow> writer \<Rightarrow> io_error option \<times> writer" where
  "write_all [] w = (None, w)"
| "write_all (s # ss) w =
     (case WriteString s w of (Some e, w') \<Rightarrow> (Some e, w') | (None, w') \<Rightarrow> write_all ss w')"

definition buffer :: writer where
  "buffer = \<lparr>out = [], room = None\<rparr>"

lemma write_all_unlimited:
  "room w = None \<Longrightarrow> write_all ss w = (None, w\<lparr>out := out w @ concat ss\<rparr>)"
  by (induction ss arbitrary: w) (simp_all add: WriteString_def)

lemma write_all_append:
  "write_all (ss @ ts) w =
     (case write_all ss w of (Some e, w') \<Rightarrow> (Some e, w') | (None, w') \<Rightarrow> write_all ts w')"
  by (induction ss arbitrary: w) (auto split: prod.splits option.splits)

lemma write_all_prefix:
  "write_all ss w = (e, w') \<Longrightarrow>
   \<exists>p. out w' = out w @ p \<and> prefix p (concat ss) \<and> (e = None \<longrightarrow> p = concat ss)"
proof (induction ss arbitrary: w)
  case (Cons s ss)
  show ?case
  proof (cases "WriteString s w")
    case (Pair e1 w1)
    show ?thesis
    proof (cases e1)
      case None
      with Pair have "out w1 = out w @ s"
        by (auto simp: WriteString_def split: option.splits if_splits)
      moreover from Cons.IH [of w1] Cons.prems Pair None obtain p where
        "out w' = out w1 @ p" "prefix p (concat ss)" "e = None \<longrightarrow> p = concat ss"
        by auto
      ultimately show ?thesis by (intro exI [of _ "s @ p"]) auto
    next
      case (Some x)
      with Pair Cons.prems have "e = Some x" "w' = w1"
        by auto
      moreover from Some Pair obtain n where "out w1 = out w @ take n s"
        by (auto simp: WriteString_def split: option.splits if_splits)
      ultimately show ?thesis
        by (intro exI [of _ "take n s"]) (auto simp: take_is_prefix prefix_append)
    qed
  qed
qed simp

section \<open>Lines\<close>

definition LF :: char where "LF = CHR 0x0A"
definition CR :: char where "CR = CHR 0x0D"
definition CRLF :: string where "CRLF = [CR, LF]"

lemma CR_LF_distinct [simp]: "CR \<noteq> LF" "LF \<noteq> CR"
  by (simp_all add: CR_def LF_def)

definition drop_cr :: "string \<Rightarrow> string" where
  "drop_cr l = (if l \<noteq> [] \<and> last l = CR then butlast l else l)"

text \<open>\<open>textproto.Reader.ReadLine\<close>: \<open>None\<close> is \<open>io.EOF\<close>.\<close>

definition ReadLine :: "bytes \<Rightarrow> (string \<times> bytes) option" where
  "ReadLine s =
     (if s = [] then None
      else case Index LF s of
        None \<Rightarrow> Some (s, [])
      | Some i \<Rightarrow> Some (drop_cr (take i s), drop (Suc i) s))"

lemma ReadLine_shorter: "ReadLine s = Some (l, r) \<Longrightarrow> length r < length s"
  by (auto simp: ReadLine_def Index_Some_iff split: if_splits option.splits)

lemma ReadLine_CRLF:
  "LF \<notin> set l \<Longrightarrow> ReadLine (l @ CRLF @ rest) = Some (l, rest)"
proof -
  assume "LF \<notin> set l"
  then have "Index LF ((l @ [CR]) @ LF # rest) = Some (length (l @ [CR]))"
    by (intro Index_append_notin) simp
  then show ?thesis
    by (simp add: ReadLine_def CRLF_def drop_cr_def)
qed

definition is_blank :: "char \<Rightarrow> bool" where
  "is_blank c \<longleftrightarrow> c = CHR '' '' \<or> c = CHR 0x09"

definition trim_blank :: "string \<Rightarrow> string" where
  "trim_blank s = rev (dropWhile is_blank (rev (dropWhile is_blank s)))"

text \<open>Continuation lines: each starts with white space and is joined by one space.\<close>

function read_continuations :: "string \<Rightarrow> bytes \<Rightarrow> string \<times> bytes" where
  "read_continuations acc s =
     (if s = [] \<or> \<not> is_blank (hd s) then (acc, s)
      else case ReadLine (dropWhile is_blank s) of
        None \<Rightarrow> (acc, [])
      | Some (l, r) \<Rightarrow> read_continuations (acc @ '' '' @ trim_blank l) r)"
  by pat_completeness auto
termination
proof (relation "measure (\<lambda>(acc, s). length s)", goal_cases)
  case (2 acc s p l r)
  then have "length r < length (dropWhile is_blank s)" by (auto intro: ReadLine_shorter)
  also have "\<dots> \<le> length s" by (rule length_dropWhile_le)
  finally show ?case by simp
qed simp

declare read_continuations.simps [simp del]

definition readContinuedLine :: "bytes \<Rightarrow> (string \<times> bytes) option" where
  "readContinuedLine s =
     (case ReadLine s of
        None \<Rightarrow> None
      | Some (l, r) \<Rightarrow> if l = [] then Some ([], r) else Some (read_continuations (trim_blank l) r))"

lemma read_continuations_shorter: "length (snd (read_continuations acc s)) \<le> length s"
proof (induction acc s rule: read_continuations.induct)
  case (1 acc s)
  show ?case
  proof (cases "s = [] \<or> \<not> is_blank (hd s)")
    case True
    then show ?thesis by (simp add: read_continuations.simps)
  next
    case False
    show ?thesis
    proof (cases "ReadLine (dropWhile is_blank s)")
      case None
      with False show ?thesis by (simp add: read_continuations.simps)
    next
      case (Some lr)
      obtain l r where lr: "lr = (l, r)" by fastforce
      with Some have "length r < length (dropWhile is_blank s)" by (simp add: ReadLine_shorter)
      then have "length r \<le> length s"
        by (meson length_dropWhile_le less_imp_le_nat order_trans)
      with "1.IH" [OF False Some [unfolded lr] refl] False Some lr show ?thesis
        by (simp add: read_continuations.simps [of acc s])
    qed
  qed
qed

lemma readContinuedLine_shorter: "readContinuedLine s = Some (l, r) \<Longrightarrow> length r < length s"
proof -
  assume rc: "readContinuedLine s = Some (l, r)"
  then obtain l1 r1 where rl: "ReadLine s = Some (l1, r1)"
    by (auto simp: readContinuedLine_def split: option.splits)
  with rc have "length r \<le> length r1"
    using read_continuations_shorter [of "trim_blank l1" r1]
    by (auto simp: readContinuedLine_def split: if_splits)
  with ReadLine_shorter [OF rl] show ?thesis by linarith
qed

lemma readContinuedLine_plain:
  assumes "LF \<notin> set l" and "l \<noteq> []" and "rest \<noteq> []" and "\<not> is_blank (hd rest)"
  shows "readContinuedLine (l @ CRLF @ rest) = Some (trim_blank l, rest)"
  using assms
  by (simp add: readContinuedLine_def ReadLine_CRLF read_continuations.simps)

lemma readContinuedLine_end: "readContinuedLine (CRLF @ rest) = Some ([], rest)"
  using ReadLine_CRLF [of "[]" rest] by (simp add: readContinuedLine_def)

end
