(* ===== verification/TempBuffer.thy ===== *)
theory TempBuffer
  imports GoIO
begin

text \<open>
  The temporary buffer of \<open>pkg/protocol/tempbuffer.go\<close>. A handler tees everything it reads from
  a connection into a \<open>TempWriter\<close> while it tries to parse a message, so that the bytes can be
  sent on unchanged when they turn out not to be one. The \<open>bytes.Buffer\<close> is its unread
  contents. Buffers come from a pool and go back to it emptied.
\<close>

record TempWriter =
  stopped :: bool
  tw_buf :: bytes

definition NewTempWriter :: "bytes \<Rightarrow> TempWriter" where
  \<comment> \<open>the argument is the contents of the buffer taken from the pool\<close>
  "NewTempWriter pooled = \<lparr>stopped = False, tw_buf = pooled\<rparr>"

definition TempWriter_Write :: "bytes \<Rightarrow> TempWriter \<Rightarrow> nat \<times> TempWriter" where
  "TempWriter_Write b tw =
     (if \<not> stopped tw then (length b, tw\<lparr>tw_buf := tw_buf tw @ b\<rparr>) else (length b, tw))"

text \<open>
  \<open>bytes.Buffer.Read\<close> into a slice of \<open>n\<close> bytes: an empty buffer gives \<open>EOF\<close>, unless the slice
  is empty too; otherwise as many bytes as fit are removed from the front.
\<close>

definition TempWriter_Read :: "nat \<Rightarrow> TempWriter \<Rightarrow> (bytes \<times> io_error option) \<times> TempWriter" where
  "TempWriter_Read n tw =
     (if tw_buf tw = [] then (([], if n = 0 then None else Some EOF), tw)
      else ((take n (tw_buf tw), None), tw\<lparr>tw_buf := drop n (tw_buf tw)\<rparr>))"

definition Stop :: "TempWriter \<Rightarrow> TempWriter" where
  "Stop tw = tw\<lparr>stopped := True, tw_buf := []\<rparr>"

definition Start :: "TempWriter \<Rightarrow> TempWriter" where
  "Start tw = tw\<lparr>stopped := False\<rparr>"

definition TempWriter_Close :: "TempWriter \<Rightarrow> bytes" where
  \<comment> \<open>the contents of the buffer that goes back to the pool\<close>
  "TempWriter_Close tw = tw_buf (tw\<lparr>tw_buf := []\<rparr>)"

section \<open>Draining\<close>

text \<open>
  \<open>io.CopyBuffer(w, tw, buf)\<close> reads with a buffer of \<open>n > 0\<close> bytes until \<open>EOF\<close> and writes what it
  read.
\<close>

function copy_temp :: "nat \<Rightarrow> TempWriter \<Rightarrow> bytes \<times> TempWriter" where
  "copy_temp n tw =
     (case TempWriter_Read n tw of
        ((b, Some e), tw') \<Rightarrow> (b, tw')
      | ((b, None), tw') \<Rightarrow>
          (if n = 0 then (b, tw')
           else let (bs, tw'') = copy_temp n tw' in (b @ bs, tw'')))"
  by pat_completeness auto
termination
  by (relation "measure (\<lambda>(n, tw). length (tw_buf tw))")
    (auto simp: TempWriter_Read_def split: if_splits)

declare copy_temp.simps [simp del]

lemma copy_temp_all: "0 < n \<Longrightarrow> copy_temp n tw = (tw_buf tw, tw\<lparr>tw_buf := []\<rparr>)"
proof (induction n tw rule: copy_temp.induct)
  case (1 n tw)
  show ?case
  proof (cases "tw_buf tw = []")
    case True
    with "1.prems" show ?thesis
      by (subst copy_temp.simps) (simp add: TempWriter_Read_def)
  next
    case False
    with "1.prems" have read: "TempWriter_Read n tw =
        ((take n (tw_buf tw), None), tw\<lparr>tw_buf := drop n (tw_buf tw)\<rparr>)"
      by (simp add: TempWriter_Read_def)
    from "1.IH" [OF read [symmetric] refl refl] "1.prems" read show ?thesis
      by (subst copy_temp.simps) simp
  qed
qed

section \<open>Recording\<close>

definition tee :: "bytes list \<Rightarrow> TempWriter \<Rightarrow> TempWriter" where
  \<comment> \<open>the writes an \<open>io.TeeReader\<close> makes for the reads it passes on\<close>
  "tee bs tw = fold (\<lambda>b tw. snd (TempWriter_Write b tw)) bs tw"

lemma tee_stopped: "stopped tw \<Longrightarrow> tee bs tw = tw"
  by (induction bs arbitrary: tw) (simp_all add: tee_def TempWriter_Write_def)

lemma tee_recording: "\<not> stopped tw \<Longrightarrow> tee bs tw = tw\<lparr>tw_buf := tw_buf tw @ concat bs\<rparr>"
  by (induction bs arbitrary: tw) (simp_all add: tee_def TempWriter_Write_def)

lemma tee_append: "tee (bs @ cs) tw = tee cs (tee bs tw)"
  by (simp add: tee_def)

text \<open>
  What is recorded comes back once. After \<open>Start\<close>, draining the writer with a buffer of any
  positive size yields everything it held and everything teed into it since, in order, and
  leaves it empty; between \<open>Stop\<close> and \<open>Start\<close> nothing is kept, although every write reports
  its full length; and the buffer handed back to the pool is empty, so a new writer starts
  empty.
\<close>
lemma TempWriter_recovers_recorded_bytes:
  assumes "0 < n"
  shows "copy_temp n (tee bs (Start tw)) =
           (tw_buf tw @ concat bs, (Start tw)\<lparr>tw_buf := []\<rparr>) \<and>
         copy_temp n (tee bs (Start (tee cs (Stop tw)))) = (concat bs, Start (Stop tw)) \<and>
         fst (TempWriter_Write b (tee cs (Stop tw))) = length b \<and>
         tw_buf (NewTempWriter (TempWriter_Close tw)) = []"
proof -
  have stop: "tee cs (Stop tw) = Stop tw"
    by (rule tee_stopped) (simp add: Stop_def)
  have rec: "tee bs (Start x) = (Start x)\<lparr>tw_buf := tw_buf x @ concat bs\<rparr>" for x
    by (subst tee_recording) (simp_all add: Start_def)
  show ?thesis
    unfolding stop rec copy_temp_all [OF assms]
    by (simp add: Start_def Stop_def TempWriter_Write_def NewTempWriter_def TempWriter_Close_def)
qed

lemma TempWriter_recovers_recorded_bytes_witness:
  "copy_temp 2 (tee [''ab'', ''c''] (Start (NewTempWriter []))) = (''abc'', NewTempWriter [])"
  using TempWriter_recovers_recorded_bytes [of 2 "[''ab'', ''c'']" "NewTempWriter []" "[]" "[]"]
  by (simp add: NewTempWriter_def Start_def)

end
