(* ===== verification/Routing.thy ===== *)
theory Routing
  imports Strconv Config
begin

text \<open>
  Choosing the protocol and the destination of a connection.
  \<^item> \<open>Determine\<close> of \<open>pkg/protocol/determiner.go\<close> looks the port of an address up in the
    configured HTTP ports. It indexes the parts of a split, which panics on an address without
    a colon: \<open>None\<close>.
  \<^item> \<open>getRoutingDestination\<close> of \<open>pkg/protocol/http.go\<close> reads a routing value
    \<open>host1=host2,host3=host4\<close> and returns where a request for a host goes.
  \<^item> the address builder of \<open>HandleConnection\<close> in \<open>pkg/transport/handler.go\<close> turns the bytes of
    \<open>SO_ORIGINAL_DST\<close> into an address, and decides whether the connection is inbound.
\<close>

section \<open>Protocols\<close>

datatype Proto = HTTPProto | TCPProto

definition Determine :: "string set \<Rightarrow> string \<Rightarrow> Proto option" where
  "Determine httpPorts addr =
     (let parts = Split addr (CHR '':'') in
      if length parts < 2 then None
      else Some (if parts ! 1 \<in> httpPorts then HTTPProto else TCPProto))"

section \<open>Routing values\<close>

datatype route_error = MalformedRoutingHeader string

fun route_pairs :: "string \<Rightarrow> string \<Rightarrow> string \<Rightarrow> string list \<Rightarrow> route_error + string" where
  "route_pairs routingValue host originalDst [] = Inr originalDst"
| "route_pairs routingValue host originalDst (p # pairs) =
     (let keyval = Split p (CHR ''='') in
      if length keyval < 2 then Inl (MalformedRoutingHeader routingValue)
      else if keyval ! 0 = keyval ! 1 then route_pairs routingValue host originalDst pairs
      else if host = keyval ! 0
        then Inr (if \<not> Contains (keyval ! 1) (CHR '':'') then keyval ! 1 @ '':80'' else keyval ! 1)
      else route_pairs routingValue host originalDst pairs)"

definition getRoutingDestination :: "string \<Rightarrow> string \<Rightarrow> string \<Rightarrow> route_error + string" where
  "getRoutingDestination routingValue host originalDst =
     route_pairs routingValue host originalDst (Split routingValue (CHR '',''))"

section \<open>Addresses from the socket option\<close>

record multiaddr =
  Multiaddr :: "8 word list"

definition ipv4_of :: "multiaddr \<Rightarrow> string" where
  "ipv4_of a = (let b = (\<lambda>i. Itoa (uint (Multiaddr a ! i))) in
     b 4 @ ''.'' @ b 5 @ ''.'' @ b 6 @ ''.'' @ b 7)"

definition port_of :: "multiaddr \<Rightarrow> 16 word" where
  "port_of a = push_bit 8 (ucast (Multiaddr a ! 2)) + ucast (Multiaddr a ! 3)"

definition originalDstAddr :: "multiaddr \<Rightarrow> string" where
  "originalDstAddr a = ipv4_of a @ '':'' @ Itoa (uint (port_of a))"

definition isInBoundConn :: "multiaddr \<Rightarrow> string \<Rightarrow> bool" where
  "isInBoundConn a localAddr \<longleftrightarrow> ipv4_of a = hd (Split localAddr (CHR '':''))"

section \<open>Lemmas\<close>

lemma not_digit_consts [simp]:
  "\<not> is_digit (CHR '':'')" "\<not> is_digit (CHR ''.'')" "\<not> is_digit (CHR '','')" "\<not> is_digit (CHR ''='')"
  by (simp_all add: is_digit_def)

lemma ipv4_of_no_colon: "CHR '':'' \<notin> set (ipv4_of a)"
  by (simp add: ipv4_of_def Let_def)

lemma uint_port_of: "uint (port_of a) = 256 * uint (Multiaddr a ! 2) + uint (Multiaddr a ! 3)"
proof -
  let ?h = "uint (Multiaddr a ! 2)" and ?l = "uint (Multiaddr a ! 3)"
  have b: "0 \<le> ?h" "?h < 256" "0 \<le> ?l" "?l < 256"
    using uint_bounded [of "Multiaddr a ! 2"] uint_bounded [of "Multiaddr a ! 3"] by simp_all
  have "port_of a = word_of_int (256 * ?h + ?l)"
    by (simp add: port_of_def push_bit_eq_mult mult.commute)
  moreover have "uint (word_of_int (256 * ?h + ?l) :: 16 word) = 256 * ?h + ?l"
    unfolding uint_word_of_int using b by simp
  ultimately show ?thesis by metis
qed

lemma ipv4_of_inj:
  "ipv4_of a = ipv4_of b \<longleftrightarrow>
     Multiaddr a ! 4 = Multiaddr b ! 4 \<and> Multiaddr a ! 5 = Multiaddr b ! 5 \<and>
     Multiaddr a ! 6 = Multiaddr b ! 6 \<and> Multiaddr a ! 7 = Multiaddr b ! 7"
proof -
  have "Split (ipv4_of x) (CHR ''.'') = map (\<lambda>i. Itoa (uint (Multiaddr x ! i))) [4, 5, 6, 7]" for x
    by (simp add: ipv4_of_def Let_def Split_append)
  then have "ipv4_of a = ipv4_of b \<Longrightarrow>
      map (\<lambda>i. Itoa (uint (Multiaddr a ! i))) [4, 5, 6, 7] =
      map (\<lambda>i. Itoa (uint (Multiaddr b ! i))) [4, 5, 6, 7]"
    by metis
  then show ?thesis by (auto simp: ipv4_of_def simp flip: word_uint_eq_iff)
qed

definition with_port :: "string \<Rightarrow> string" where
  "with_port dst = (if CHR '':'' \<in> set dst then dst else dst @ '':80'')"

definition decides :: "string \<Rightarrow> string \<Rightarrow> bool" where
  \<comment> \<open>a part of a routing value at which the search for a host ends\<close>
  "decides host p \<longleftrightarrow> CHR ''='' \<notin> set p \<or>
     Split p (CHR ''='') ! 0 = host \<and> Split p (CHR ''='') ! 1 \<noteq> host"

lemma route_pairs_eq:
  "route_pairs rv host dst ps =
     (case find (decides host) ps of
        None \<Rightarrow> Inr dst
      | Some p \<Rightarrow> if CHR ''='' \<notin> set p then Inl (MalformedRoutingHeader rv)
                  else Inr (with_port (Split p (CHR ''='') ! 1)))"
proof (induction rv host dst ps rule: route_pairs.induct)
  case (2 rv host dst p ps)
  then show ?case
    by (auto simp: Let_def Split_length_ge_2 decides_def with_port_def)
qed simp

definition encode_route :: "(string \<times> string) list \<Rightarrow> string" where
  "encode_route kvs = Join (map (\<lambda>(k, v). k @ CHR ''='' # v) kvs) '',''"

definition route_safe :: "(string \<times> string) list \<Rightarrow> bool" where
  "route_safe kvs \<longleftrightarrow> kvs \<noteq> [] \<and> (\<forall>(k, v) \<in> set kvs.
     CHR ''='' \<notin> set k \<and> CHR '','' \<notin> set k \<and> CHR ''='' \<notin> set v \<and> CHR '','' \<notin> set v)"

lemma Split_encode_route:
  "route_safe kvs \<Longrightarrow>
   Split (encode_route kvs) (CHR '','') = map (\<lambda>(k, v). k @ CHR ''='' # v) kvs"
  unfolding encode_route_def route_safe_def
  by (rule Split_Join) auto

lemma find_decides_encoded:
  "\<forall>(k, v) \<in> set kvs. CHR ''='' \<notin> set k \<and> CHR ''='' \<notin> set v \<Longrightarrow>
   find (decides host) (map (\<lambda>(k, v). k @ CHR ''='' # v) kvs) =
     map_option (\<lambda>(k, v). k @ CHR ''='' # v) (find (\<lambda>(k, v). k = host \<and> v \<noteq> host) kvs)"
  by (induction kvs) (auto simp: decides_def Split_append)

section \<open>Properties\<close>

text \<open>
  (C28) What a routing value decides, for every value. The parts between commas are searched
  in order for the first one that has no equals sign or that maps the host to another name. No
  such part: the original destination stays. A part without an equals sign: the value is
  malformed. A mapping: the request goes there, to port 80 if the mapping names no port. A part
  that maps a host to itself is skipped, and parts behind the deciding one are not looked at.
\<close>
theorem getRoutingDestination_decides:
  "getRoutingDestination rv host dst =
     (case find (decides host) (Split rv (CHR '','')) of
        None \<Rightarrow> Inr dst
      | Some p \<Rightarrow> if CHR ''='' \<notin> set p then Inl (MalformedRoutingHeader rv)
                  else Inr (with_port (Split p (CHR ''='') ! 1)))"
  unfolding getRoutingDestination_def by (rule route_pairs_eq)

text \<open>
  A routing value written from a list of host pairs is read back as that list: the first
  pair for the host that does not map it to itself gives the destination, and the value is
  never malformed.
\<close>
lemma getRoutingDestination_roundtrip:
  assumes "route_safe kvs"
  shows "getRoutingDestination (encode_route kvs) host dst =
           Inr (case find (\<lambda>(k, v). k = host \<and> v \<noteq> host) kvs of
                  None \<Rightarrow> dst | Some (k, v) \<Rightarrow> with_port v)"
proof -
  have safe: "\<forall>(k, v) \<in> set kvs. CHR ''='' \<notin> set k \<and> CHR ''='' \<notin> set v"
    using assms by (auto simp: route_safe_def)
  show ?thesis
  proof (cases "find (\<lambda>(k, v). k = host \<and> v \<noteq> host) kvs")
    case None
    with assms safe show ?thesis
      by (simp add: getRoutingDestination_def route_pairs_eq Split_encode_route find_decides_encoded)
  next
    case (Some kv)
    obtain k v where kv: "kv = (k, v)" by fastforce
    from Some kv have "(k, v) \<in> set kvs"
      by (metis find_Some_iff nth_mem)
    with safe have "Split (k @ CHR ''='' # v) (CHR ''='') = [k, v]"
      by (auto simp: Split_append)
    with Some kv assms safe show ?thesis
      by (simp add: getRoutingDestination_def route_pairs_eq Split_encode_route find_decides_encoded)
  qed
qed

lemma getRoutingDestination_roundtrip_witness:
  "getRoutingDestination (encode_route [(''a'', ''a''), (''b'', ''c''), (''d'', ''e:81'')]) ''d'' ''1.2.3.4:5''
     = Inr ''e:81'' \<and>
   getRoutingDestination (encode_route [(''a'', ''a''), (''b'', ''c''), (''d'', ''e:81'')]) ''b'' ''1.2.3.4:5''
     = Inr ''c:80''"
proof -
  have safe: "route_safe [(''a'', ''a''), (''b'', ''c''), (''d'', ''e:81'')]"
    by (simp add: route_safe_def)
  show ?thesis
    using getRoutingDestination_roundtrip [OF safe, of "''d''" "''1.2.3.4:5''"]
      getRoutingDestination_roundtrip [OF safe, of "''b''" "''1.2.3.4:5''"]
    by (simp add: with_port_def)
qed

lemma Determine_originalDst:
  "Determine ports (originalDstAddr a) =
     Some (if Itoa (256 * uint (Multiaddr a ! 2) + uint (Multiaddr a ! 3)) \<in> ports
           then HTTPProto else TCPProto)"
proof -
  have "Split (originalDstAddr a) (CHR '':'') = [ipv4_of a, Itoa (uint (port_of a))]"
    by (simp add: originalDstAddr_def Split_append ipv4_of_no_colon)
  then show ?thesis
    by (simp add: Determine_def Let_def uint_port_of)
qed

text \<open>
  The protocol of a connection. For the address built from the socket option the choice
  never panics, and it is HTTP exactly when the decimal text of the big-endian port in bytes 2
  and 3 is one of the configured ports.
\<close>
lemma Determine_original_destination:
  "Determine ports (originalDstAddr a) =
     Some (if Itoa (256 * uint (Multiaddr a ! 2) + uint (Multiaddr a ! 3)) \<in> ports
           then HTTPProto else TCPProto)"
  by (rule Determine_originalDst)

text \<open>
  Inbound connections. The local address of the accepted connection is written as an
  IPv4 address and a port; the connection counts as inbound exactly when the four address bytes
  of the original destination are those of the local address, whatever the ports are.
\<close>
lemma isInBoundConn_same_host:
  "isInBoundConn a (originalDstAddr b) \<longleftrightarrow>
     Multiaddr a ! 4 = Multiaddr b ! 4 \<and> Multiaddr a ! 5 = Multiaddr b ! 5 \<and>
     Multiaddr a ! 6 = Multiaddr b ! 6 \<and> Multiaddr a ! 7 = Multiaddr b ! 7"
  by (simp add: isInBoundConn_def originalDstAddr_def hd_Split_append ipv4_of_no_colon
      ipv4_of_inj)

end
