(* ===== verification/Bufio.thy ===== *)
theory Bufio
  imports GoIO
begin

text \<open>
  \<open>bufio.Reader\<close> over a connection, as the handlers and the chunked reader use it.

  \<open>incoming\<close> is what the connection will deliver, one element per segment: one read of the
  connection returns at most one segment and at least one byte of it. \<open>at_end\<close> is the error every
  read returns once all segments are used up (\<open>io.EOF\<close>, or the error of a broken or closed
  connection). \<open>buffered\<close> is what the reader has fetched and not handed out, at most \<open>cap\<close> bytes.
  \<open>flat\<close> forgets where the segments and the buffer end; the lemmas below say which results depend
  on it alone.
\<close>

record bufr =
  buffered :: bytes
  incoming :: "bytes list"
  at_end :: io_error
  cap :: nat

definition flat :: "bufr \<Rightarrow> bytes" where
  "flat r = buffered r @ concat (incoming r)"

definition wf_bufr :: "bufr \<Rightarrow> bool" where
  "wf_bufr r \<longleftrightarrow>
     16 \<le> cap r \<and> length (buffered r) \<le> cap r \<and> at_end r \<noteq> ErrBufferFull"

definition NewReaderSize :: "nat \<Rightarrow> bytes list \<Rightarrow> io_error \<Rightarrow> bufr" where
  "NewReaderSize sz segments e =
     \<lparr>buffered = [], incoming = segments, at_end = e, cap = max sz 16\<rparr>"

definition Buffered :: "bufr \<Rightarrow> nat" where
  "Buffered r = length (buffered r)"

text \<open>One read of the connection into \<open>k > 0\<close> bytes.\<close>

definition conn_read :: "nat \<Rightarrow> bytes list \<Rightarrow> (bytes \<times> bytes list) option" where
  "conn_read k segs =
     (case dropWhile (\<lambda>a. a = []) segs of
        [] \<Rightarrow> None
      | a # rest \<Rightarrow> Some (take k a, if length a \<le> k then rest else drop k a # rest))"

lemma concat_dropWhile_Nil [simp]: "concat (dropWhile (\<lambda>a. a = []) segs) = concat segs"
  by (induction segs) auto

lemma conn_read_None_iff: "conn_read k segs = None \<longleftrightarrow> concat segs = []"
proof (cases "dropWhile (\<lambda>a. a = []) segs")
  case Nil
  then have "concat segs = []" using concat_dropWhile_Nil [of segs] by (simp only: concat.simps)
  with Nil show ?thesis by (simp only: conn_read_def list.case simp_thms)
next
  case (Cons a as)
  moreover from Cons have "a \<noteq> []" using hd_dropWhile [of "\<lambda>a. a = []" segs] by simp
  moreover have "concat segs = a @ concat as" using Cons concat_dropWhile_Nil [of segs] by simp
  ultimately show ?thesis by (simp add: conn_read_def)
qed

lemma conn_read_SomeD:
  assumes "conn_read k segs = Some (b, rest)"
  shows "concat segs = b @ concat rest \<and> (0 < k \<longrightarrow> b \<noteq> []) \<and> length b \<le> k"
proof (cases "dropWhile (\<lambda>a. a = []) segs")
  case Nil
  with assms show ?thesis by (simp add: conn_read_def)
next
  case (Cons a as)
  moreover from Cons have "a \<noteq> []" using hd_dropWhile [of "\<lambda>a. a = []" segs] by simp
  moreover have "concat segs = a @ concat as" using Cons concat_dropWhile_Nil [of segs] by simp
  ultimately show ?thesis using assms by (auto simp: conn_read_def split: if_splits)
qed

definition Read :: "nat \<Rightarrow> bufr \<Rightarrow> (bytes \<times> io_error option) \<times> bufr" where
  "Read k r =
     (if k = 0 then (([], None), r)
      else if buffered r = [] then
        (if k \<ge> cap r then
           (case conn_read k (incoming r) of
              None \<Rightarrow> (([], Some (at_end r)), r\<lparr>incoming := []\<rparr>)
            | Some (b, rest) \<Rightarrow> ((b, None), r\<lparr>incoming := rest\<rparr>))
         else
           (case conn_read (cap r) (incoming r) of
              None \<Rightarrow> (([], Some (at_end r)), r\<lparr>incoming := []\<rparr>)
            | Some (b, rest) \<Rightarrow>
                ((take k b, None), r\<lparr>buffered := drop k b, incoming := rest\<rparr>)))
      else ((take k (buffered r), None), r\<lparr>buffered := drop k (buffered r)\<rparr>))"

text \<open>
  \<open>ReadSlice\<close>: the error is \<open>None\<close> when the delimiter was found; a full buffer without it is
  \<open>bufio.ErrBufferFull\<close>.
\<close>

function ReadSlice :: "char \<Rightarrow> bufr \<Rightarrow> (bytes \<times> io_error option) \<times> bufr" where
  "ReadSlice delim r =
     (case Index delim (buffered r) of
        Some i \<Rightarrow> ((take (Suc i) (buffered r), None), r\<lparr>buffered := drop (Suc i) (buffered r)\<rparr>)
      | None \<Rightarrow>
          if length (buffered r) \<ge> cap r then
            ((buffered r, Some ErrBufferFull), r\<lparr>buffered := []\<rparr>)
          else case conn_read (cap r - length (buffered r)) (incoming r) of
            None \<Rightarrow> ((buffered r, Some (at_end r)), r\<lparr>buffered := [], incoming := []\<rparr>)
          | Some (b, rest) \<Rightarrow>
              ReadSlice delim (r\<lparr>buffered := buffered r @ b, incoming := rest\<rparr>))"
  by pat_completeness auto
termination
proof (relation "measure (\<lambda>(d, r). length (concat (incoming r)))", goal_cases)
  case (2 d r p b rest)
  then show ?case using conn_read_SomeD [of _ "incoming r" b rest] by fastforce
qed simp

declare ReadSlice.simps [simp del]

text \<open>\<open>io.ReadFull\<close> into \<open>k\<close> bytes.\<close>

function ReadFull_from :: "bytes \<Rightarrow> nat \<Rightarrow> bufr \<Rightarrow> (bytes \<times> io_error option) \<times> bufr" where
  "ReadFull_from acc k r =
     (if k = 0 then ((acc, None), r)
      else case Read k r of
        ((b, Some e), r') \<Rightarrow>
          ((acc @ b, Some (if e = EOF \<and> acc @ b \<noteq> [] then ErrUnexpectedEOF else e)), r')
      | ((b, None), r') \<Rightarrow>
          if b = [] then ((acc, Some (OtherError ''no progress'')), r')
          else ReadFull_from (acc @ b) (k - length b) r')"
  by pat_completeness auto
termination
  by (relation "measure (\<lambda>(acc, k, r). k)") auto

declare ReadFull_from.simps [simp del]

definition ReadFull :: "nat \<Rightarrow> bufr \<Rightarrow> (bytes \<times> io_error option) \<times> bufr" where
  "ReadFull k r = ReadFull_from [] k r"

section \<open>What depends only on the bytes\<close>

lemma Read_cases:
  assumes "0 < k" "wf_bufr r" "Read k r = ((b, e), r')"
  obtains (eof) "flat r = []" "b = []" "e = Some (at_end r)" "flat r' = []" "wf_bufr r'"
      "at_end r' = at_end r" "cap r' = cap r"
  | (data) "b \<noteq> []" "length b \<le> k" "e = None" "flat r = b @ flat r'" "wf_bufr r'"
      "at_end r' = at_end r" "cap r' = cap r"
proof (cases "buffered r = []")
  case True
  show ?thesis
  proof (cases "conn_read (if k \<ge> cap r then k else cap r) (incoming r)")
    case None
    then have "flat r = []" using True conn_read_None_iff by (auto simp: flat_def split: if_splits)
    then show ?thesis using True assms None eof
      by (auto simp: Read_def flat_def wf_bufr_def split: if_splits)
  next
    case (Some p)
    obtain d rest where p: "p = (d, rest)" by fastforce
    from conn_read_SomeD [OF Some [unfolded p]] assms(1,2)
    have d: "concat (incoming r) = d @ concat rest" "d \<noteq> []" "length d \<le> (if k \<ge> cap r then k else cap r)"
      by (auto simp: wf_bufr_def split: if_splits)
    show ?thesis
      by (rule data) (use True assms Some p d in \<open>auto simp: Read_def flat_def wf_bufr_def split: if_splits\<close>)
  qed
next
  case False
  show ?thesis
    by (rule data) (use False assms in \<open>auto simp: Read_def flat_def wf_bufr_def split: if_splits\<close>)
qed

lemma Read_flat:
  "Read k r = ((b, e), r') \<Longrightarrow> flat r = b @ flat r' \<and> (0 < k \<and> e = None \<longrightarrow> b \<noteq> [])"
  by (auto simp: Read_def flat_def conn_read_None_iff dest: conn_read_SomeD
      split: if_splits option.splits)

lemma ReadSlice_consumes:
  "ReadSlice d r = ((b, e), r') \<Longrightarrow> flat r = b @ flat r' \<and> (e = None \<longrightarrow> b \<noteq> [])"
proof (induction d r rule: ReadSlice.induct)
  case (1 d r)
  note read = "1.prems" [unfolded ReadSlice.simps [of d r]]
  show ?case
  proof (cases "Index d (buffered r)")
    case (Some i)
    with read show ?thesis by (auto simp: flat_def Index_Some_iff)
  next
    case None
    show ?thesis
    proof (cases "length (buffered r) \<ge> cap r")
      case True
      with None read show ?thesis by (auto simp: flat_def)
    next
      case False
      show ?thesis
      proof (cases "conn_read (cap r - length (buffered r)) (incoming r)")
        case C: None
        then have "concat (incoming r) = []" by (simp only: conn_read_None_iff)
        with None False C read show ?thesis by (auto simp: flat_def)
      next
        case C: (Some p)
        obtain c rest where p: "p = (c, rest)" by fastforce
        with C conn_read_SomeD have "concat (incoming r) = c @ concat rest" by blast
        with "1.IH" [OF None False C [unfolded p] refl] None False C p read show ?thesis
          by (auto simp: flat_def)
      qed
    qed
  qed
qed

lemma ReadFull_consumes: "ReadFull_from acc k r = ((b, e), r') \<Longrightarrow> length (flat r') \<le> length (flat r)"
proof (induction acc k r rule: ReadFull_from.induct)
  case (1 acc k r)
  obtain b1 e1 r1 where rd: "Read k r = ((b1, e1), r1)" by (metis surj_pair)
  from Read_flat [OF rd] have len: "length (flat r1) \<le> length (flat r)" by simp
  show ?case
  proof (cases "k = 0 \<or> e1 \<noteq> None \<or> b1 = []")
    case True
    with "1.prems" rd len show ?thesis
      by (subst (asm) ReadFull_from.simps) (auto split: if_splits option.splits)
  next
    case False
    have "ReadFull_from acc k r = ReadFull_from (acc @ b1) (k - length b1) r1"
      by (subst ReadFull_from.simps) (use False rd in simp)
    with "1.IH" [of "(b1, e1)" r1 b1 e1] "1.prems" False rd len show ?thesis by fastforce
  qed
qed

text \<open>A line is found by the bytes alone: whether the first \<open>cap\<close> bytes hold the delimiter.\<close>

lemma Index_take: "Index c (take n s) = Some i \<Longrightarrow> Index c s = Some i"
  by (auto simp: Index_Some_iff)

lemma ReadSlice_flat:
  assumes "wf_bufr r"
  shows "case ReadSlice d r of ((b, e), r') \<Rightarrow>
     wf_bufr r' \<and> at_end r' = at_end r \<and> cap r' = cap r \<and> flat r = b @ flat r' \<and>
     (case Index d (take (cap r) (flat r)) of
        Some i \<Rightarrow> e = None \<and> b = take (Suc i) (flat r)
      | None \<Rightarrow>
          if length (flat r) \<ge> cap r then e = Some ErrBufferFull \<and> length b = cap r
          else e = Some (at_end r) \<and> flat r' = [])"
  using assms
proof (induction d r rule: ReadSlice.induct)
  case (1 d r)
  have len: "length (buffered r) \<le> cap r" using "1.prems" by (simp add: wf_bufr_def)
  show ?case
  proof (cases "Index d (buffered r)")
    case (Some i)
    then have i: "i < length (buffered r)" by (simp add: Index_Some_iff)
    have "Index d (take (cap r) (flat r)) = Some i"
      using Some len by (auto simp: flat_def Index_Some_iff nth_append)
    with Some i len "1.prems" show ?thesis
      by (subst ReadSlice.simps) (auto simp: flat_def wf_bufr_def)
  next
    case None
    show ?thesis
    proof (cases "length (buffered r) \<ge> cap r")
      case True
      with len have "take (cap r) (flat r) = buffered r" by (simp add: flat_def)
      with None True "1.prems" show ?thesis
        by (subst ReadSlice.simps) (auto simp: flat_def wf_bufr_def)
    next
      case False
      show ?thesis
      proof (cases "conn_read (cap r - length (buffered r)) (incoming r)")
        case C: None
        then have "concat (incoming r) = []" by (simp only: conn_read_None_iff)
        then have "flat r = buffered r" by (simp add: flat_def)
        moreover have "flat (r\<lparr>buffered := [], incoming := []\<rparr>) = []" by (simp add: flat_def)
        ultimately show ?thesis using None C False "1.prems"
          by (subst ReadSlice.simps) (simp add: wf_bufr_def)
      next
        case C: (Some p)
        obtain b rest where p: "p = (b, rest)" by fastforce
        let ?r = "r\<lparr>buffered := buffered r @ b, incoming := rest\<rparr>"
        from conn_read_SomeD [OF C [unfolded p]] False
        have b: "concat (incoming r) = b @ concat rest" "length (buffered r @ b) \<le> cap r" by auto
        then have eqs: "flat ?r = flat r" "at_end ?r = at_end r" "cap ?r = cap r" and wf: "wf_bufr ?r"
          using "1.prems" by (auto simp: flat_def wf_bufr_def)
        have "ReadSlice d r = ReadSlice d ?r"
          by (subst ReadSlice.simps) (use None False C p in simp)
        then show ?thesis using "1.IH" [OF None False C [unfolded p] refl wf] by (simp only: eqs)
      qed
    qed
  qed
qed

lemma ReadFull_from_flat:
  assumes "wf_bufr r"
  shows "case ReadFull_from acc k r of ((b, e), r') \<Rightarrow>
     wf_bufr r' \<and> at_end r' = at_end r \<and> cap r' = cap r \<and>
     b = acc @ take k (flat r) \<and> flat r' = drop k (flat r) \<and>
     e = (if k \<le> length (flat r) then None
          else Some (if at_end r = EOF \<and> b \<noteq> [] then ErrUnexpectedEOF else at_end r))"
  using assms
proof (induction acc k r rule: ReadFull_from.induct)
  case (1 acc k r)
  show ?case
  proof (cases "k = 0")
    case True
    with "1.prems" show ?thesis by (subst ReadFull_from.simps) simp
  next
    case False
    obtain b e r' where rd: "Read k r = ((b, e), r')" by (metis surj_pair)
    from False have "0 < k" by simp
    from this "1.prems" rd show ?thesis
    proof (cases rule: Read_cases)
      case eof
      with False rd show ?thesis by (subst ReadFull_from.simps) auto
    next
      case data
      have "ReadFull_from acc k r = ReadFull_from (acc @ b) (k - length b) r'"
        by (subst ReadFull_from.simps) (use False rd data in simp)
      with "1.IH" [OF False rd [symmetric] refl data(3)] data show ?thesis
        by (auto split: prod.splits)
    qed
  qed
qed

end
