(* ===== verification/Chunked.thy ===== *)
theory Chunked
  imports Bufio Strconv
begin

text \<open>
  The chunked transfer coding of \<open>pkg/http/internal/chunked.go\<close>, reader and writer.

  The reader keeps Go's state: the \<open>bufio.Reader\<close>, the 64-bit count of unread bytes of the
  current chunk, the sticky error and the flag for the pending chunk footer. \<open>Read\<close> is the
  source's loop, with its early returns that depend on how much is buffered. \<open>chunked_decode\<close> is
  the specification: what a stream of bytes means, whatever the segments and read sizes.
\<close>

section \<open>Chunk lines\<close>

definition maxLineLength :: nat where "maxLineLength = 4096"

definition isASCIISpace :: "char \<Rightarrow> bool" where
  "isASCIISpace b \<longleftrightarrow> b = CHR '' '' \<or> b = CHR 0x09 \<or> b = LF \<or> b = CR"

definition trimTrailingWhitespace :: "bytes \<Rightarrow> bytes" where
  "trimTrailingWhitespace b = rev (dropWhile isASCIISpace (rev b))"

definition removeChunkExtension :: "bytes \<Rightarrow> bytes" where
  "removeChunkExtension p = (case Index (CHR '';'') p of None \<Rightarrow> p | Some semi \<Rightarrow> take semi p)"

definition hex_value :: "char \<Rightarrow> nat option" where
  "hex_value b =
     (if 48 \<le> ord b \<and> ord b \<le> 57 then Some (ord b - 48)
      else if 97 \<le> ord b \<and> ord b \<le> 102 then Some (ord b - 97 + 10)
      else if 65 \<le> ord b \<and> ord b \<le> 70 then Some (ord b - 65 + 10)
      else None)"

definition invalid_length :: io_error where
  "invalid_length = OtherError ''invalid byte in chunk length''"
definition length_too_large :: io_error where
  "length_too_large = OtherError ''http chunk length too large''"
definition malformed_chunk :: io_error where
  "malformed_chunk = OtherError ''malformed chunked encoding''"

unbundle bit_operations_syntax

fun parse_hex_from :: "nat \<Rightarrow> 64 word \<Rightarrow> bytes \<Rightarrow> io_error + 64 word" where
  "parse_hex_from i n [] = Inr n"
| "parse_hex_from i n (b # v) =
     (case hex_value b of
        None \<Rightarrow> Inl invalid_length
      | Some d \<Rightarrow>
          if i = 16 then Inl length_too_large
          else parse_hex_from (Suc i) (push_bit 4 n OR of_nat d) v)"

definition parseHexUint :: "bytes \<Rightarrow> io_error + 64 word" where
  "parseHexUint v = parse_hex_from 0 0 v"

definition readChunkLine :: "bufr \<Rightarrow> (io_error + bytes) \<times> bufr" where
  "readChunkLine b =
     (case ReadSlice LF b of
        ((p, Some e), b') \<Rightarrow> 
          (Inl (if e = EOF then ErrUnexpectedEOF
                else if e = ErrBufferFull then ErrLineTooLong else e), b')
      | ((p, None), b') \<Rightarrow>
          if length p \<ge> maxLineLength then (Inl ErrLineTooLong, b')
          else (Inr (removeChunkExtension (trimTrailingWhitespace p)), b'))"

section \<open>The reader\<close>

record chunkedReader =
  cr_r :: bufr
  cr_n :: "64 word"
  cr_err :: "io_error option"
  checkEnd :: bool

definition NewChunkedReader :: "bufr \<Rightarrow> chunkedReader" where
  "NewChunkedReader r = \<lparr>cr_r = r, cr_n = 0, cr_err = None, checkEnd = False\<rparr>"

definition beginChunk :: "chunkedReader \<Rightarrow> chunkedReader" where
  "beginChunk cr =
     (case readChunkLine (cr_r cr) of
        (Inl e, r) \<Rightarrow> cr\<lparr>cr_r := r, cr_err := Some e\<rparr>
      | (Inr line, r) \<Rightarrow>
          (case parseHexUint line of
             Inl e \<Rightarrow> cr\<lparr>cr_r := r, cr_n := 0, cr_err := Some e\<rparr>
           | Inr n \<Rightarrow> cr\<lparr>cr_r := r, cr_n := n, cr_err := (if n = 0 then Some EOF else None)\<rparr>))"

definition chunkHeaderAvailable :: "chunkedReader \<Rightarrow> bool" where
  "chunkHeaderAvailable cr \<longleftrightarrow> Buffered (cr_r cr) > 0 \<and> LF \<in> set (buffered (cr_r cr))"

text \<open>The check of the footer at the head of the loop; \<open>True\<close> is \<open>break\<close>.\<close>

definition check_footer :: "bytes \<Rightarrow> chunkedReader \<Rightarrow> bool \<times> chunkedReader" where
  "check_footer acc cr =
     (if checkEnd cr then
        if acc \<noteq> [] \<and> Buffered (cr_r cr) < 2 then (True, cr)
        else case ReadFull 2 (cr_r cr) of
          ((buf, None), r) \<Rightarrow>
            if buf \<noteq> CRLF then (True, cr\<lparr>cr_r := r, cr_err := Some malformed_chunk\<rparr>)
            else (False, cr\<lparr>cr_r := r, checkEnd := False\<rparr>)
        | ((buf, Some e), r) \<Rightarrow> (False, cr\<lparr>cr_r := r, cr_err := Some e, checkEnd := False\<rparr>)
      else (False, cr))"

text \<open>
  One pass through the loop with \<open>k\<close> bytes left in the destination and \<open>acc\<close> already in it; the
  first component says whether the loop goes on.
\<close>

definition read_pass ::
  "nat \<Rightarrow> bytes \<Rightarrow> chunkedReader \<Rightarrow> bool \<times> nat \<times> bytes \<times> chunkedReader" where
  "read_pass k acc cr0 =
     (case check_footer acc cr0 of
        (True, cr) \<Rightarrow> (False, k, acc, cr)
      | (False, cr) \<Rightarrow>
          if cr_n cr = 0 then
            (if acc \<noteq> [] \<and> \<not> chunkHeaderAvailable cr then (False, k, acc, cr)
             else (True, k, acc, beginChunk cr))
          else if k = 0 then (False, k, acc, cr)
          else
            (case Read (if k > unat (cr_n cr) then unat (cr_n cr) else k) (cr_r cr) of
               ((b, e), r) \<Rightarrow>
                 let n' = cr_n cr - of_nat (length b) in
                 (True, k - length b, acc @ b,
                  cr\<lparr>cr_r := r, cr_n := n', cr_err := e,
                     checkEnd := (if n' = 0 \<and> e = None then True else checkEnd cr)\<rparr>)))"

lemma check_footer_length:
  "check_footer acc cr = (stop, cr') \<Longrightarrow> length (flat (cr_r cr')) \<le> length (flat (cr_r cr))"
  by (auto simp: check_footer_def ReadFull_def split: if_splits prod.splits option.splits
      dest: ReadFull_consumes)

lemma beginChunk_length:
  "cr_err (beginChunk cr) = None \<Longrightarrow> length (flat (cr_r (beginChunk cr))) < length (flat (cr_r cr))"
  by (auto simp: beginChunk_def readChunkLine_def split: prod.splits sum.splits option.splits if_splits
      dest!: ReadSlice_consumes)

lemma read_pass_length:
  assumes "read_pass k acc cr = (True, k', acc', cr')" "cr_err cr' = None"
  shows "length (flat (cr_r cr')) < length (flat (cr_r cr))"
proof -
  obtain stop cr1 where f: "check_footer acc cr = (stop, cr1)" by fastforce
  then have le: "length (flat (cr_r cr1)) \<le> length (flat (cr_r cr))" by (rule check_footer_length)
  let ?k = "if k > unat (cr_n cr1) then unat (cr_n cr1) else k"
  obtain b e r where rd: "Read ?k (cr_r cr1) = ((b, e), r)" by (metis surj_pair)
  from assms f have "\<not> stop" by (auto simp: read_pass_def)
  show ?thesis
  proof (cases "cr_n cr1 = 0")
    case True
    then have "cr' = beginChunk cr1"
      using assms f \<open>\<not> stop\<close> by (auto simp: read_pass_def split: if_splits)
    with beginChunk_length [of cr1] assms le show ?thesis by simp
  next
    case False
    then have "0 < unat (cr_n cr1)" by (simp add: unat_gt_0)
    then have "length (flat r) < length (flat (cr_r cr1))" if "k \<noteq> 0" "e = None"
      using that Read_flat [OF rd] by (cases b) (auto split: if_splits)
    moreover have "k \<noteq> 0" "cr_r cr' = r" "cr_err cr' = e"
      using assms f \<open>\<not> stop\<close> False rd by (auto simp: read_pass_def Let_def split: if_splits)
    ultimately show ?thesis using assms le by simp
  qed
qed

function read_loop :: "nat \<Rightarrow> bytes \<Rightarrow> chunkedReader \<Rightarrow> bytes \<times> chunkedReader" where
  "read_loop k acc cr =
     (if cr_err cr \<noteq> None then (acc, cr)
      else case read_pass k acc cr of
        (False, k', acc', cr') \<Rightarrow> (acc', cr')
      | (True, k', acc', cr') \<Rightarrow> read_loop k' acc' cr')"
  by pat_completeness auto
termination
  by (relation "measure (\<lambda>(k, acc, cr).
        if cr_err cr = None then Suc (length (flat (cr_r cr))) else 0)")
    (auto dest: read_pass_length [OF sym])

declare read_loop.simps [simp del]

definition cr_Read :: "nat \<Rightarrow> chunkedReader \<Rightarrow> (bytes \<times> io_error option) \<times> chunkedReader" where
  "cr_Read k cr = (case read_loop k [] cr of (b, cr') \<Rightarrow> ((b, cr_err cr'), cr'))"

section \<open>The writer\<close>

definition hex_digit :: "nat \<Rightarrow> char" where
  "hex_digit d = char_of (if d < 10 then d + 48 else d + 87)"

fun hex_of_nat :: "nat \<Rightarrow> string" where
  "hex_of_nat n = (if n < 16 then [hex_digit n] else hex_of_nat (n div 16) @ [hex_digit (n mod 16)])"

declare hex_of_nat.simps [simp del]

definition cw_Write :: "bytes \<Rightarrow> writer \<Rightarrow> (nat \<times> io_error option) \<times> writer" where
  "cw_Write data w =
     (if data = [] then ((0, None), w)
      else case WriteString (hex_of_nat (length data) @ CRLF) w of
        (Some e, w1) \<Rightarrow> ((0, Some e), w1)
      | (None, w1) \<Rightarrow>
          (case WriteString data w1 of
             (Some e, w2) \<Rightarrow> ((length (out w2) - length (out w1), Some e), w2)
           | (None, w2) \<Rightarrow>
               (case WriteString CRLF w2 of
                  (Some e, w3) \<Rightarrow> ((length data, Some e), w3)
                | (None, w3) \<Rightarrow> ((length data, None), w3))))"

definition cw_Close :: "writer \<Rightarrow> io_error option \<times> writer" where
  "cw_Close w = WriteString (''0'' @ CRLF) w"

section \<open>What a stream means\<close>

text \<open>A chunk line within the first \<open>c\<close> bytes; an error leaves the rest given with it.\<close>

definition chunk_line :: "nat \<Rightarrow> io_error \<Rightarrow> bytes \<Rightarrow> io_error \<times> bytes + bytes \<times> bytes" where
  "chunk_line c e s =
     (case Index LF (take c s) of
        Some i \<Rightarrow>
          if Suc i \<ge> maxLineLength then Inl (ErrLineTooLong, drop (Suc i) s)
          else Inr (removeChunkExtension (trimTrailingWhitespace (take (Suc i) s)), drop (Suc i) s)
      | None \<Rightarrow>
          if length s \<ge> c then Inl (ErrLineTooLong, drop c s)
          else Inl (if e = EOF then ErrUnexpectedEOF else e, []))"

lemma chunk_line_length: "chunk_line c e s = Inr (l, r) \<Longrightarrow> length r < length s"
  by (auto simp: chunk_line_def Index_Some_iff split: option.splits if_splits)

function chunked_decode :: "nat \<Rightarrow> io_error \<Rightarrow> bytes \<Rightarrow> bytes \<times> io_error \<times> bytes" where
  "chunked_decode c e s =
     (case chunk_line c e s of
        Inl (err, rest) \<Rightarrow> ([], err, rest)
      | Inr (line, s1) \<Rightarrow>
          (case parseHexUint line of
             Inl err \<Rightarrow> ([], err, s1)
           | Inr w \<Rightarrow>
               let n = unat w; s2 = drop n s1 in
               if n = 0 then ([], EOF, s1)
               else if length s1 < n then (s1, e, [])
               else if length s2 < 2 then (take n s1, if e = EOF then ErrUnexpectedEOF else e, [])
               else if take 2 s2 \<noteq> CRLF then (take n s1, malformed_chunk, drop 2 s2)
               else case chunked_decode c e (drop 2 s2) of
                 (d, err, rest) \<Rightarrow> (take n s1 @ d, err, rest)))"
  by pat_completeness auto
termination
  by (relation "measure (\<lambda>(c, e, s). length s)") (auto dest!: chunk_line_length)

declare chunked_decode.simps [simp del]

section \<open>The reader implements the specification\<close>

definition line_end :: "io_error \<Rightarrow> io_error" where
  "line_end e = (if e = EOF then ErrUnexpectedEOF else e)"

definition decode_end :: "nat \<Rightarrow> io_error \<Rightarrow> bytes \<Rightarrow> bytes \<times> io_error \<times> bytes" where
  "decode_end c e s =
     (if length s < 2 then ([], line_end e, [])
      else if take 2 s \<noteq> CRLF then ([], malformed_chunk, drop 2 s)
      else chunked_decode c e (drop 2 s))"

definition prepend :: "bytes \<Rightarrow> bytes \<times> io_error \<times> bytes \<Rightarrow> bytes \<times> io_error \<times> bytes" where
  "prepend b p = (b @ fst p, snd p)"

lemma prepend_simps [simp]:
  "prepend b (d, q) = (b @ d, q)" "prepend [] p = p" "prepend a (prepend b p) = prepend (a @ b) p"
  by (simp_all add: prepend_def)

definition decode_data :: "nat \<Rightarrow> io_error \<Rightarrow> nat \<Rightarrow> bytes \<Rightarrow> bytes \<times> io_error \<times> bytes" where
  "decode_data c e n s =
     (if length s < n then (s, e, []) else prepend (take n s) (decode_end c e (drop n s)))"

lemma chunked_decode_unfold:
  "chunked_decode c e s =
     (case chunk_line c e s of
        Inl (err, rest) \<Rightarrow> ([], err, rest)
      | Inr (line, s1) \<Rightarrow>
          (case parseHexUint line of
             Inl err \<Rightarrow> ([], err, s1)
           | Inr w \<Rightarrow> if w = 0 then ([], EOF, s1) else decode_data c e (unat w) s1))"
  by (subst chunked_decode.simps)
    (auto simp: decode_data_def decode_end_def prepend_def line_end_def Let_def unat_eq_zero
      split: sum.split prod.split)

lemma readChunkLine_flat:
  assumes "wf_bufr r" "readChunkLine r = (res, r')"
  shows "wf_bufr r' \<and> cap r' = cap r \<and> at_end r' = at_end r \<and>
     chunk_line (cap r) (at_end r) (flat r) =
       (case res of Inl err \<Rightarrow> Inl (err, flat r') | Inr line \<Rightarrow> Inr (line, flat r'))"
proof -
  have ne: "at_end r \<noteq> ErrBufferFull" using assms(1) by (simp add: wf_bufr_def)
  obtain b e r1 where rs: "ReadSlice LF r = ((b, e), r1)" by (metis surj_pair)
  from assms(2) rs have "r' = r1" by (auto simp: readChunkLine_def split: option.splits if_splits)
  note f = ReadSlice_flat [OF assms(1), of LF, unfolded rs prod.case]
  have wf: "wf_bufr r1" "at_end r1 = at_end r" "cap r1 = cap r" and fl: "flat r = b @ flat r1"
    using f by blast+
  show ?thesis
  proof (cases "Index LF (take (cap r) (flat r))")
    case (Some i)
    with f have b: "e = None" "b = take (Suc i) (flat r)" unfolding Some option.case by blast+
    have "flat r1 = drop (Suc i) (flat r)"
      by (metis b(2) fl append_take_drop_id same_append_eq)
    note e = b(1,2) this
    from Some have "Suc i \<le> length (flat r)" by (auto simp: Index_Some_iff)
    with Some wf e rs assms(2) \<open>r' = r1\<close> show ?thesis
      by (auto simp: readChunkLine_def chunk_line_def split: if_splits)
  next
    case None
    have g: "if length (flat r) \<ge> cap r then e = Some ErrBufferFull \<and> length b = cap r
        else e = Some (at_end r) \<and> flat r1 = []"
      using f unfolding None option.case by blast
    have dr: "length b = cap r \<Longrightarrow> drop (cap r) (flat r) = flat r1" by (simp add: fl)
    show ?thesis
    proof (cases "length (flat r) \<ge> cap r")
      case True
      with g dr None wf rs assms(2) \<open>r' = r1\<close> show ?thesis
        by (auto simp: readChunkLine_def chunk_line_def)
    next
      case False
      with g ne None wf rs assms(2) \<open>r' = r1\<close> show ?thesis
        by (auto simp: readChunkLine_def chunk_line_def)
    qed
  qed
qed

definition pending :: "chunkedReader \<Rightarrow> bytes \<times> io_error \<times> bytes" where
  "pending cr =
     (let c = cap (cr_r cr); e = at_end (cr_r cr); s = flat (cr_r cr) in
      case cr_err cr of
        Some err \<Rightarrow> ([], err, s)
      | None \<Rightarrow>
          if checkEnd cr then decode_end c e s
          else if cr_n cr = 0 then chunked_decode c e s
          else decode_data c e (unat (cr_n cr)) s)"

definition cr_inv :: "chunkedReader \<Rightarrow> bool" where
  "cr_inv cr \<longleftrightarrow> wf_bufr (cr_r cr) \<and> (checkEnd cr \<longrightarrow> cr_n cr = 0)"

lemma beginChunk_pending:
  assumes "cr_inv cr" "cr_n cr = 0" "\<not> checkEnd cr"
  shows "cr_inv (beginChunk cr) \<and> pending (beginChunk cr) = pending (cr\<lparr>cr_err := None\<rparr>)"
proof -
  obtain res r where rl: "readChunkLine (cr_r cr) = (res, r)" by fastforce
  from assms have "wf_bufr (cr_r cr)" by (simp add: cr_inv_def)
  from readChunkLine_flat [OF this rl] rl assms show ?thesis
    by (auto simp: beginChunk_def pending_def cr_inv_def Let_def
        chunked_decode_unfold [of "cap (cr_r cr)" "at_end (cr_r cr)" "flat (cr_r cr)"] split: sum.splits)
qed

lemma check_footer_pending:
  assumes "cr_inv cr" "cr_err cr = None" "check_footer acc cr = (stop, cr')"
  shows "cr_inv cr' \<and>
    (if stop then pending cr' = pending cr \<and> (cr_err cr' = None \<longrightarrow> acc \<noteq> [])
     else \<not> checkEnd cr' \<and> pending (cr'\<lparr>cr_err := None\<rparr>) = pending cr \<and>
       (cr_err cr' \<noteq> None \<longrightarrow> acc = [] \<and> cr_n cr' = 0))"
proof (cases "checkEnd cr \<and> \<not> (acc \<noteq> [] \<and> Buffered (cr_r cr) < 2)")
  case False
  with assms show ?thesis by (auto simp: check_footer_def pending_def Let_def split: if_splits)
next
  case True
  let ?r = "cr_r cr"
  from True assms have n0: "cr_n cr = 0" and wf: "wf_bufr ?r" by (simp_all add: cr_inv_def)
  obtain b e r1 where rf: "ReadFull 2 ?r = ((b, e), r1)" by (metis surj_pair)
  note f = ReadFull_from_flat [OF wf, of "[]" 2, folded ReadFull_def, unfolded rf, simplified]
  have pend: "pending cr = decode_end (cap ?r) (at_end ?r) (flat ?r)"
    using True assms by (simp add: pending_def Let_def)
  show ?thesis
  proof (cases "2 \<le> length (flat ?r)")
    case len: True
    with f have e: "e = None" by simp
    have "b = take 2 (flat ?r)" "flat r1 = drop 2 (flat ?r)" "cap r1 = cap ?r" "at_end r1 = at_end ?r" "wf_bufr r1"
      using f by auto
    with True rf e assms n0 len pend show ?thesis
      by (auto simp: check_footer_def pending_def decode_end_def cr_inv_def Let_def split: if_splits)
  next
    case len: False
    with f have e: "e \<noteq> None" "flat r1 = []" by auto
    have acc: "acc = []" using True len by (auto simp: Buffered_def flat_def)
    have "\<not> cap ?r \<le> 0" using wf by (simp add: wf_bufr_def)
    then have "chunked_decode (cap ?r) (at_end ?r) [] = ([], line_end (at_end ?r), [])"
      by (subst chunked_decode_unfold) (simp add: chunk_line_def line_end_def)
    with True rf e f assms n0 len pend acc show ?thesis
      by (auto simp: check_footer_def pending_def decode_end_def cr_inv_def Let_def split: if_splits)
  qed
qed

lemma decode_data_append:
  assumes "length b \<le> n"
  shows "decode_data c e n (b @ s) =
     prepend b (if n = length b then decode_end c e s else decode_data c e (n - length b) s)"
  using assms by (auto simp: decode_data_def)

lemma read_pass_pending:
  assumes "cr_inv cr" "cr_err cr = None" "read_pass k acc cr = (go, k', acc', cr')"
  shows "\<exists>b. acc' = acc @ b \<and> k = k' + length b \<and> cr_inv cr' \<and> pending cr = prepend b (pending cr') \<and>
     (\<not> go \<and> cr_err cr' = None \<longrightarrow> acc' \<noteq> [] \<or> k' = 0)"
proof -
  obtain stop cr1 where cf: "check_footer acc cr = (stop, cr1)" by fastforce
  note f = check_footer_pending [OF assms(1,2) cf]
  show ?thesis
  proof (cases "stop \<or> cr_n cr1 = 0 \<or> k = 0")
    case True
    then consider "stop" | "\<not> stop" "cr_n cr1 = 0" "acc \<noteq> [] \<and> \<not> chunkHeaderAvailable cr1"
      | "\<not> stop" "cr_n cr1 = 0" "\<not> (acc \<noteq> [] \<and> \<not> chunkHeaderAvailable cr1)"
      | "\<not> stop" "cr_n cr1 \<noteq> 0" "k = 0" by blast
    then show ?thesis
    proof cases
      case 1
      with f cf assms(3) show ?thesis by (auto simp: read_pass_def)
    next
      case 2
      with f cf assms(3) show ?thesis by (auto simp: read_pass_def pending_def Let_def)
    next
      case 3
      with beginChunk_pending [of cr1] f cf assms(3) show ?thesis by (auto simp: read_pass_def)
    next
      case 4
      with f cf assms(3) show ?thesis by (auto simp: read_pass_def pending_def Let_def)
    qed
  next
    case False
    let ?n = "unat (cr_n cr1)"
    let ?k = "if k > ?n then ?n else k"
    from False have pos: "0 < ?k" by (simp add: unat_gt_0)
    have err: "cr_err cr1 = None" and wf: "wf_bufr (cr_r cr1)" and ce: "\<not> checkEnd cr1"
      using f False by (auto simp: cr_inv_def)
    have pend: "pending cr = decode_data (cap (cr_r cr1)) (at_end (cr_r cr1)) ?n (flat (cr_r cr1))"
      using f False ce by (auto simp: pending_def Let_def)
    obtain b e r where rd: "Read ?k (cr_r cr1) = ((b, e), r)" by (metis surj_pair)
    define n' where "n' = cr_n cr1 - of_nat (length b)"
    have res: "go" "k' = k - length b" "acc' = acc @ b"
      "cr' = cr1\<lparr>cr_r := r, cr_n := n', cr_err := e, checkEnd := (if n' = 0 \<and> e = None then True else checkEnd cr1)\<rparr>"
      using assms(3) cf False rd by (auto simp: read_pass_def Let_def n'_def)
    from pos wf rd show ?thesis
    proof (cases rule: Read_cases)
      case eof
      have "?n \<noteq> 0" using False by (simp add: unat_eq_zero)
      then have "pending cr = ([], at_end (cr_r cr1), [])"
        unfolding pend eof(1) by (simp add: decode_data_def)
      moreover have "pending cr' = ([], at_end (cr_r cr1), [])" "cr_inv cr'"
        using res eof ce by (simp_all add: pending_def cr_inv_def)
      ultimately show ?thesis using res eof by simp
    next
      case data
      then have le: "length b \<le> ?n" "length b \<le> k" by (auto split: if_splits)
      have un: "unat n' = ?n - length b"
      proof -
        have "length b < 2 ^ 64" using le(1) unsigned_less [of "cr_n cr1", where ?'a = nat] by simp
        then have "unat (of_nat (length b) :: 64 word) = length b"
          by (simp add: unsigned_of_nat take_bit_nat_eq_self)
        with le(1) show ?thesis by (simp add: n'_def unat_sub_if')
      qed
      then have z: "n' = 0 \<longleftrightarrow> ?n = length b" using le by (auto simp: unat_eq_zero [symmetric])
      have "pending cr = prepend b (pending cr')"
        unfolding pend data(4) decode_data_append [OF le(1)] using res data ce z un
        by (auto simp: pending_def Let_def)
      with res data ce z le show ?thesis by (auto simp: cr_inv_def)
    qed
  qed
qed

lemma read_loop_pending:
  assumes "cr_inv cr" "0 < k + length acc" "read_loop k acc cr = (acc', cr')"
  shows "\<exists>b. acc' = acc @ b \<and> length b \<le> k \<and> cr_inv cr' \<and> pending cr = prepend b (pending cr') \<and>
     (cr_err cr' = None \<longrightarrow> acc' \<noteq> [])"
  using assms
proof (induction k acc cr rule: read_loop.induct)
  case (1 k acc cr)
  show ?case
  proof (cases "cr_err cr = None")
    case False
    with "1.prems" show ?thesis by (auto simp: read_loop.simps)
  next
    case True
    obtain go k1 acc1 cr1 where rp: "read_pass k acc cr = (go, k1, acc1, cr1)" by (metis surj_pair)
    from read_pass_pending [OF "1.prems"(1) True rp] obtain b1 where
      b1: "acc1 = acc @ b1" "k = k1 + length b1" "cr_inv cr1" "pending cr = prepend b1 (pending cr1)"
        "\<not> go \<and> cr_err cr1 = None \<longrightarrow> acc1 \<noteq> [] \<or> k1 = 0" by blast
    show ?thesis
    proof (cases go)
      case False
      then have "acc' = acc1" "cr' = cr1"
        using "1.prems"(3) True rp by (auto simp: read_loop.simps [of k acc cr])
      with b1 False "1.prems"(2) show ?thesis by (intro exI [of _ b1]) auto
    next
      case go: True
      then have "read_loop k1 acc1 cr1 = (acc', cr')"
        using "1.prems"(3) True rp by (auto simp: read_loop.simps [of k acc cr])
      with "1.IH" [of True "(k1, acc1, cr1)" k1 "(acc1, cr1)" acc1 cr1] True rp go b1 "1.prems"(2)
      obtain b2 where
        "acc' = acc1 @ b2" "length b2 \<le> k1" "cr_inv cr'" "pending cr1 = prepend b2 (pending cr')"
        "cr_err cr' = None \<longrightarrow> acc' \<noteq> []" by fastforce
      with b1 show ?thesis by (intro exI [of _ "b1 @ b2"]) auto
    qed
  qed
qed

lemma cr_Read_pending:
  assumes "cr_inv cr" "0 < k" "cr_Read k cr = ((b, e), cr')"
  shows "length b \<le> k \<and> cr_inv cr' \<and> pending cr = prepend b (pending cr') \<and> e = cr_err cr' \<and>
     (e = None \<longrightarrow> b \<noteq> [])"
proof -
  obtain b' cr1 where rl: "read_loop k [] cr = (b', cr1)" by fastforce
  with assms(3) have "b' = b" "cr1 = cr'" "e = cr_err cr'" by (auto simp: cr_Read_def)
  with read_loop_pending [OF assms(1) _ rl] assms(2) show ?thesis by auto
qed

text \<open>A client reads with any sizes it likes and keeps what it gets.\<close>

fun run_reads :: "nat list \<Rightarrow> chunkedReader \<Rightarrow> bytes \<times> chunkedReader" where
  "run_reads [] cr = ([], cr)"
| "run_reads (k # ks) cr =
     (case cr_Read k cr of ((b, e), cr1) \<Rightarrow>
        case run_reads ks cr1 of (bs, cr2) \<Rightarrow> (b @ bs, cr2))"

lemma run_reads_pending:
  assumes "cr_inv cr" "list_all (\<lambda>k. 0 < k) ks" "run_reads ks cr = (bs, cr')"
  shows "cr_inv cr' \<and> pending cr = prepend bs (pending cr') \<and>
     (cr_err cr' = None \<longrightarrow> length ks \<le> length bs)"
  using assms
proof (induction ks arbitrary: cr bs)
  case (Cons k ks)
  obtain b e cr1 where rd: "cr_Read k cr = ((b, e), cr1)" by (metis surj_pair)
  obtain bs2 cr2 where rr: "run_reads ks cr1 = (bs2, cr2)" by fastforce
  from Cons.prems have k: "0 < k" by simp
  note r = cr_Read_pending [OF Cons.prems(1) k rd]
  have eq: "bs = b @ bs2" "cr' = cr2" using Cons.prems(3) rd rr by auto
  have stop: "cr_err cr1 \<noteq> None \<Longrightarrow> cr' = cr1"
  proof -
    assume a: "cr_err cr1 \<noteq> None"
    then have "run_reads ks cr1 = ([], cr1)"
      by (induction ks) (auto simp: cr_Read_def read_loop.simps)
    with rr eq show ?thesis by simp
  qed
  from Cons.IH [of cr1 bs2] r rr eq Cons.prems have
    "cr_inv cr'" "pending cr1 = prepend bs2 (pending cr')" "cr_err cr' = None \<longrightarrow> length ks \<le> length bs2"
    by auto
  moreover have "cr_err cr' = None \<longrightarrow> b \<noteq> []" using r stop by auto
  ultimately show ?case using r eq by (cases b) auto
qed simp

lemma chunked_decode_length: "length (fst (chunked_decode c e s)) \<le> length s"
proof (induction c e s rule: chunked_decode.induct)
  case (1 c e s)
  show ?case
  proof (cases "chunk_line c e s")
    case (Inl p)
    then show ?thesis by (subst chunked_decode.simps) (simp split: prod.split)
  next
    case (Inr p)
    obtain line s1 where p: "p = (line, s1)" by fastforce
    with Inr have len: "length s1 < length s" using chunk_line_length by blast
    show ?thesis
    proof (cases "parseHexUint line")
      case (Inl err)
      with Inr p show ?thesis by (subst chunked_decode.simps) simp
    next
      case w: (Inr w)
      note IH = "1.IH" [OF Inr [unfolded p] refl w refl refl]
      then show ?thesis using Inr p w len
        by (subst chunked_decode.simps) (auto simp: Let_def split: prod.split)
    qed
  qed
qed

lemma chunked_reads_decode:
  assumes "wf_bufr r" and "list_all (\<lambda>k. 0 < k) ks" and "length (flat r) < length ks"
  shows "case run_reads ks (NewChunkedReader r) of
     (bs, cr) \<Rightarrow> \<exists>err. cr_err cr = Some err \<and>
       chunked_decode (cap r) (at_end r) (flat r) = (bs, err, flat (cr_r cr))"
proof -
  let ?cr = "NewChunkedReader r"
  obtain bs cr where rr: "run_reads ks ?cr = (bs, cr)" by fastforce
  have inv: "cr_inv ?cr" using assms(1) by (simp add: cr_inv_def NewChunkedReader_def)
  have pend: "pending ?cr = chunked_decode (cap r) (at_end r) (flat r)"
    by (simp add: pending_def NewChunkedReader_def)
  from run_reads_pending [OF inv assms(2) rr] have
    p: "pending ?cr = prepend bs (pending cr)" and l: "cr_err cr = None \<longrightarrow> length ks \<le> length bs"
    by auto
  have "length bs \<le> length (flat r)"
    using chunked_decode_length [of "cap r" "at_end r" "flat r"] p pend by (simp add: prepend_def)
  with l assms(3) obtain err where "cr_err cr = Some err" by (cases "cr_err cr") auto
  then show ?thesis using rr p pend by (simp add: pending_def)
qed

text \<open>
  (C16) The chunked reader implements \<open>chunked_decode\<close>: however the connection cuts the bytes into
  segments and whatever positive sizes the client reads with, once it has read more often than
  there are bytes it has exactly the decoded data, the decoded error is set, and the reader
  stands exactly after the message. No read returns nothing without an error, so the client
  never spins.
\<close>
theorem chunked_reader_implements_decode:
  assumes "wf_bufr r" and "list_all (\<lambda>k. 0 < k) ks" and "length (flat r) < length ks"
  shows "case run_reads ks (NewChunkedReader r) of
     (bs, cr) \<Rightarrow> \<exists>err. cr_err cr = Some err \<and>
       chunked_decode (cap r) (at_end r) (flat r) = (bs, err, flat (cr_r cr))"
  using assms by (rule chunked_reads_decode)

theorem chunked_reader_implements_decode_witness:
  "case run_reads (replicate 20 1) (NewChunkedReader (NewReaderSize 4095 [''5'' @ CRLF, ''he''] EOF)) of
     (bs, cr) \<Rightarrow> \<exists>err. cr_err cr = Some err \<and>
       chunked_decode 4095 EOF (''5'' @ CRLF @ ''he'') = (bs, err, flat (cr_r cr))"
  using chunked_reader_implements_decode
    [of "NewReaderSize 4095 [''5'' @ CRLF, ''he''] EOF" "replicate 20 1"]
  by (simp add: NewReaderSize_def wf_bufr_def flat_def list_all_iff CRLF_def)

section \<open>Chunk sizes\<close>

lemma hex_value_digit: "d < 16 \<Longrightarrow> hex_value (hex_digit d) = Some d"
  by (auto simp: hex_value_def hex_digit_def)

lemma shift_in_digit: "d < 16 \<Longrightarrow> push_bit 4 n OR of_nat d = (n :: 64 word) * 16 + of_nat d"
proof -
  assume "d < 16"
  then have "take_bit 4 d = d" by (simp add: take_bit_nat_eq_self)
  then have "take_bit 4 (of_nat d :: 64 word) = of_nat d" by (metis take_bit_of_nat)
  then have "push_bit 4 n AND (of_nat d :: 64 word) = 0"
    by (metis (no_types, opaque_lifting) and.commute bit_and_iff bit_eq_iff bit_push_bit_iff bit_take_bit_iff bit_0_eq bot_apply bot_bool_def not_less)
  then have "push_bit 4 n + of_nat d = push_bit 4 n OR (of_nat d :: 64 word)"
    by (rule disjunctive_add_eq_or)
  then show ?thesis by (simp add: push_bit_eq_mult)
qed

lemma parse_hex_append:
  "i + length (hex_of_nat n) \<le> 16 \<Longrightarrow>
   parse_hex_from i m (hex_of_nat n @ v) =
     parse_hex_from (i + length (hex_of_nat n)) (m * 16 ^ length (hex_of_nat n) + of_nat n) v"
proof (induction n arbitrary: v rule: hex_of_nat.induct)
  case (1 n)
  show ?case
  proof (cases "n < 16")
    case True
    with "1.prems" show ?thesis
      by (simp add: hex_of_nat.simps [of n] hex_value_digit shift_in_digit)
  next
    case False
    let ?h = "hex_of_nat (n div 16)"
    have h: "hex_of_nat n = ?h @ [hex_digit (n mod 16)]" using False by (simp add: hex_of_nat.simps [of n])
    have "(of_nat n :: 64 word) = of_nat (n div 16 * 16 + n mod 16)" by simp
    then have n: "(of_nat n :: 64 word) = of_nat (n div 16) * 16 + of_nat (n mod 16)"
      by (simp only: of_nat_add of_nat_mult of_nat_numeral)
    have "parse_hex_from i m (hex_of_nat n @ v) =
        parse_hex_from (i + length ?h) (m * 16 ^ length ?h + of_nat (n div 16)) (hex_digit (n mod 16) # v)"
      using "1.IH" [OF False, of "hex_digit (n mod 16) # v"] "1.prems" h by simp
    also have "\<dots> = parse_hex_from (Suc (i + length ?h))
        ((m * 16 ^ length ?h + of_nat (n div 16)) * 16 + of_nat (n mod 16)) v"
      using "1.prems" h by (simp add: hex_value_digit shift_in_digit)
    finally show ?thesis using h n by (simp add: algebra_simps)
  qed
qed

lemma hex_of_nat_length: "0 < k \<Longrightarrow> n < 16 ^ k \<Longrightarrow> length (hex_of_nat n) \<le> k"
proof (induction n arbitrary: k rule: hex_of_nat.induct)
  case (1 n)
  show ?case
  proof (cases "n < 16")
    case True
    with "1.prems" show ?thesis by (simp add: hex_of_nat.simps [of n])
  next
    case False
    with "1.prems" obtain k' where k: "k = Suc k'" "0 < k'" by (cases k; cases "k - 1") auto
    with "1.prems" have "n div 16 < 16 ^ k'" by (simp add: less_mult_imp_div_less mult.commute)
    with "1.IH" [OF False, of k'] k False show ?thesis by (simp add: hex_of_nat.simps [of n])
  qed
qed

lemma parseHexUint_hex:
  assumes "n < 2 ^ 64"
  shows "parseHexUint (hex_of_nat n) = Inr (of_nat n)"
proof -
  have "length (hex_of_nat n) \<le> 16" using hex_of_nat_length [of 16 n] assms by simp
  with parse_hex_append [of 0 n 0 "[]"] show ?thesis by (simp add: parseHexUint_def)
qed

lemma ord_hex_digit: "d < 16 \<Longrightarrow> 48 \<le> ord (hex_digit d) \<and> ord (hex_digit d) \<le> 57 \<or>
    97 \<le> ord (hex_digit d) \<and> ord (hex_digit d) \<le> 102"
  by (simp add: hex_digit_def)

lemma set_hex_of_nat:
  "c \<in> set (hex_of_nat n) \<Longrightarrow> 48 \<le> ord c \<and> ord c \<le> 57 \<or> 97 \<le> ord c \<and> ord c \<le> 102"
proof (induction n rule: hex_of_nat.induct)
  case (1 n)
  then show ?case
    using ord_hex_digit [of n] ord_hex_digit [of "n mod 16"]
    by (auto simp: hex_of_nat.simps [of n] split: if_splits)
qed

lemma hex_not_special:
  assumes "c \<in> set (hex_of_nat n)"
  shows "c \<noteq> LF" "c \<noteq> CHR '';''" "\<not> isASCIISpace c"
  using set_hex_of_nat [OF assms] by (auto simp: LF_def CR_def isASCIISpace_def)

lemma hex_not_Nil [simp]: "hex_of_nat n \<noteq> []"
  by (subst hex_of_nat.simps) simp

lemma chunk_line_hex:
  assumes "length h \<le> 16" "h \<noteq> []" "18 \<le> c"
    and "\<And>x. x \<in> set h \<Longrightarrow> x \<noteq> LF \<and> x \<noteq> CHR '';'' \<and> \<not> isASCIISpace x"
  shows "chunk_line c e (h @ CRLF @ s) = Inr (h, s)"
proof -
  have "LF \<notin> set (h @ [CR])" using assms(4) by auto
  then have "Index LF ((h @ [CR]) @ LF # take (c - length h - 2) s) = Some (length (h @ [CR]))"
    by (rule Index_append_notin)
  moreover have "take c (h @ CRLF @ s) = (h @ [CR]) @ LF # take (c - length h - 2) s"
    using assms(1,3) by (simp add: CRLF_def take_Cons')
  ultimately have ix: "Index LF (take c (h @ CRLF @ s)) = Some (Suc (length h))" by simp
  have "\<not> isASCIISpace (last h)" using assms(2,4) by simp
  then have "dropWhile isASCIISpace (rev h) = rev h"
    using assms(2) by (metis dropWhile.simps(2) hd_Cons_tl hd_rev rev_is_Nil_conv)
  then have "trimTrailingWhitespace (h @ CRLF) = h"
    by (simp add: trimTrailingWhitespace_def CRLF_def isASCIISpace_def)
  moreover have "removeChunkExtension h = h"
    using assms(4) by (auto simp: removeChunkExtension_def Index_None_iff split: option.split)
      (metis Index_Some_iff nth_mem)
  ultimately show ?thesis using ix assms(1) by (simp add: chunk_line_def maxLineLength_def CRLF_def)
qed

text \<open>The writer's bytes.\<close>

definition chunk_wire :: "bytes \<Rightarrow> bytes" where
  "chunk_wire d = (if d = [] then [] else hex_of_nat (length d) @ CRLF @ d @ CRLF)"

fun write_chunks :: "bytes list \<Rightarrow> writer \<Rightarrow> io_error option \<times> writer" where
  "write_chunks [] w = cw_Close w"
| "write_chunks (d # ds) w =
     (case cw_Write d w of ((n, Some e), w') \<Rightarrow> (Some e, w') | ((n, None), w') \<Rightarrow> write_chunks ds w')"

lemma write_chunks_unlimited:
  "room w = None \<Longrightarrow>
   write_chunks ds w = (None, w\<lparr>out := out w @ concat (map chunk_wire ds) @ ''0'' @ CRLF\<rparr>)"
proof (induction ds arbitrary: w)
  case Nil
  then show ?case by (simp add: cw_Close_def WriteString_def)
next
  case (Cons d ds)
  then show ?case by (simp add: cw_Write_def WriteString_def chunk_wire_def)
qed

lemma chunked_decode_encode:
  assumes "18 \<le> c" "list_all (\<lambda>d. length d < 2 ^ 64) ds"
  shows "chunked_decode c e (concat (map chunk_wire ds) @ ''0'' @ CRLF @ rest) = (concat ds, EOF, rest)"
  using assms(2)
proof (induction ds)
  case Nil
  have "chunk_line c e (''0'' @ CRLF @ rest) = Inr (''0'', rest)"
    by (rule chunk_line_hex) (use assms(1) in \<open>auto simp: LF_def CR_def isASCIISpace_def\<close>)
  moreover have "parseHexUint ''0'' = Inr 0" by (simp add: parseHexUint_def hex_value_def)
  ultimately show ?case by (subst chunked_decode_unfold) simp
next
  case (Cons d ds)
  show ?case
  proof (cases "d = []")
    case True
    with Cons show ?thesis by (simp add: chunk_wire_def)
  next
    case False
    let ?h = "hex_of_nat (length d)" and ?s = "concat (map chunk_wire ds) @ ''0'' @ CRLF @ rest"
    from Cons.prems have len: "length d < 2 ^ 64" by simp
    then have "length ?h \<le> 16" using hex_of_nat_length [of 16 "length d"] by simp
    then have "chunk_line c e (?h @ CRLF @ d @ CRLF @ ?s) = Inr (?h, d @ CRLF @ ?s)"
      by (rule chunk_line_hex) (use assms(1) hex_not_special in auto)
    moreover have un: "unat (of_nat (length d) :: 64 word) = length d"
      using len by (simp add: unsigned_of_nat take_bit_nat_eq_self)
    moreover have "(of_nat (length d) :: 64 word) \<noteq> 0" using un False by (metis length_0_conv unat_0)
    ultimately have "chunked_decode c e (?h @ CRLF @ d @ CRLF @ ?s) =
        decode_data c e (length d) (d @ CRLF @ ?s)"
      by (subst chunked_decode_unfold) (simp add: parseHexUint_hex [OF len])
    also have "\<dots> = prepend d (decode_end c e (CRLF @ ?s))"
      using decode_data_append [of d "length d" c e "CRLF @ ?s"] by simp
    also have "\<dots> = prepend d (chunked_decode c e ?s)" by (simp add: decode_end_def CRLF_def)
    finally show ?thesis using Cons False by (simp add: chunk_wire_def [of d])
  qed
qed

lemma write_chunks_out:
  "out (snd (write_chunks ds buffer)) = concat (map chunk_wire ds) @ ''0'' @ CRLF"
  by (simp add: write_chunks_unlimited buffer_def)

text \<open>
  What the chunked writer writes, the chunked reader gives back: for every list of writes,
  every way the connection delivers the bytes and every sequence of enough positive read sizes,
  the client gets the written data in order, then \<open>io.EOF\<close>, and the reader stops exactly at the
  first byte after the last chunk.
\<close>
lemma chunked_roundtrip:
  assumes "list_all (\<lambda>d. length d < 2 ^ 64) ds"
    and "concat segs = out (snd (write_chunks ds buffer)) @ rest"
    and "list_all (\<lambda>k. 0 < k) ks" and "length (concat segs) < length ks" and "18 \<le> sz"
    and "e \<noteq> ErrBufferFull"
  shows "case run_reads ks (NewChunkedReader (NewReaderSize sz segs e)) of
     (bs, cr) \<Rightarrow> bs = concat ds \<and> cr_err cr = Some EOF \<and> flat (cr_r cr) = rest"
proof -
  let ?r = "NewReaderSize sz segs e"
  have r: "wf_bufr ?r" "flat ?r = concat segs" "cap ?r = sz" "at_end ?r = e"
    using assms(5,6) by (simp_all add: NewReaderSize_def wf_bufr_def flat_def)
  obtain bs cr where rr: "run_reads ks (NewChunkedReader ?r) = (bs, cr)" by fastforce
  have "length (flat ?r) < length ks" using assms(4) r by simp
  from chunked_reads_decode [OF r(1) assms(3) this] rr r obtain err where
    "cr_err cr = Some err" "chunked_decode sz e (concat segs) = (bs, err, flat (cr_r cr))" by auto
  moreover have "chunked_decode sz e (concat segs) = (concat ds, EOF, rest)"
    using chunked_decode_encode [OF assms(5,1), of e rest] assms(2) by (simp add: write_chunks_out)
  ultimately show ?thesis using rr by simp
qed

lemma chunked_roundtrip_witness:
  "case run_reads (replicate 30 2) (NewChunkedReader (NewReaderSize 4095
        [''5'', CRLF @ ''he'', ''llo'' @ CRLF @ ''0'' @ CRLF @ ''X''] EOF)) of
     (bs, cr) \<Rightarrow> bs = ''hello'' \<and> cr_err cr = Some EOF \<and> flat (cr_r cr) = ''X''"
proof -
  have "out (snd (write_chunks [''hello'', []] buffer)) = ''5'' @ CRLF @ ''hello'' @ CRLF @ ''0'' @ CRLF"
    unfolding write_chunks_out by (simp add: chunk_wire_def hex_of_nat.simps hex_digit_def char_eval)
  then have "concat [''5'', CRLF @ ''he'', ''llo'' @ CRLF @ ''0'' @ CRLF @ ''X''] =
      out (snd (write_chunks [''hello'', []] buffer)) @ ''X''" by simp
  from chunked_roundtrip [OF _ this, of "replicate 30 2" 4095 EOF] show ?thesis
    by (simp add: CRLF_def list_all_iff)
qed

lemma truncated_decode:
  assumes "length d < n" and "n < 2 ^ 64" and "18 \<le> c"
  shows "chunked_decode c EOF (hex_of_nat n @ CRLF @ d) = (d, EOF, [])"
proof -
  have "length (hex_of_nat n) \<le> 16" using hex_of_nat_length [of 16 n] assms(2) by simp
  then have "chunk_line c EOF (hex_of_nat n @ CRLF @ d) = Inr (hex_of_nat n, d)"
    by (rule chunk_line_hex) (use assms(3) hex_not_special in auto)
  moreover have un: "unat (of_nat n :: 64 word) = n"
    using assms(2) by (simp add: unsigned_of_nat take_bit_nat_eq_self)
  moreover have "(of_nat n :: 64 word) \<noteq> 0" using un assms(1) by (metis not_less0 unat_0)
  ultimately show ?thesis
    using assms by (subst chunked_decode_unfold) (simp add: parseHexUint_hex decode_data_def)
qed

text \<open>
  A stream that ends inside the data of a chunk is reported by the chunked reader with
  \<open>io.EOF\<close>, the error that otherwise marks the final chunk: the reader alone does not tell a
  truncated body from a complete one.
\<close>
lemma truncated_chunk_reads_as_EOF:
  assumes "length d < n" and "n < 2 ^ 64" and "18 \<le> c"
  shows "chunked_decode c EOF (hex_of_nat n @ CRLF @ d) = (d, EOF, [])"
  using assms by (rule truncated_decode)

lemma truncated_chunk_reads_as_EOF_witness:
  "chunked_decode 4095 EOF (''5'' @ CRLF @ ''he'') = (''he'', EOF, [])"
  using truncated_chunk_reads_as_EOF [of "''he''" 5 4095]
  by (simp add: hex_of_nat.simps hex_digit_def char_eval)

section \<open>Exactness of chunk sizes\<close>

fun hex_digits_value :: "nat \<Rightarrow> string \<Rightarrow> nat option" where
  "hex_digits_value m [] = Some m"
| "hex_digits_value m (b # v) =
     (case hex_value b of None \<Rightarrow> None | Some d \<Rightarrow> hex_digits_value (m * 16 + d) v)"

lemma hex_value_less: "hex_value b = Some d \<Longrightarrow> d < 16"
  by (auto simp: hex_value_def split: if_splits)

lemma parse_hex_from_exact:
  "i \<le> 16 \<Longrightarrow> m < 16 ^ i \<Longrightarrow>
   parse_hex_from i (of_nat m) v =
     (case hex_digits_value m (take (17 - i) v) of
        None \<Rightarrow> Inl invalid_length
      | Some x \<Rightarrow> if i + length v \<le> 16 then Inr (of_nat x) else Inl length_too_large)"
proof (induction v arbitrary: i m)
  case (Cons b v)
  show ?case
  proof (cases "hex_value b")
    case None
    with Cons.prems show ?thesis by (simp add: take_Cons')
  next
    case (Some d)
    then have d: "d < 16" by (rule hex_value_less)
    show ?thesis
    proof (cases "i = 16")
      case True
      with Some show ?thesis by simp
    next
      case False
      have le: "Suc i \<le> 16" using False Cons.prems by simp
      have "m * 16 + d < 16 ^ Suc i" using d Cons.prems(2) by simp
      from Cons.IH [OF le this] Some d False le show ?thesis
        by (simp add: shift_in_digit take_Cons' Suc_diff_le split: option.split)
    qed
  qed
qed simp

lemma hex_digits_value_less: "hex_digits_value m v = Some x \<Longrightarrow> x < (m + 1) * 16 ^ length v"
proof (induction v arbitrary: m)
  case (Cons b v)
  then obtain d where d: "hex_value b = Some d" "hex_digits_value (m * 16 + d) v = Some x"
    by (auto split: option.splits)
  from Cons.IH [OF d(2)] have "x < (m * 16 + d + 1) * 16 ^ length v" .
  also have "\<dots> \<le> ((m + 1) * 16) * 16 ^ length v"
    using hex_value_less [OF d(1)] by (intro mult_right_mono) auto
  finally show ?case by (simp add: algebra_simps)
qed simp

text \<open>
  A chunk size is read exactly or refused: \<open>parseHexUint\<close> accepts precisely the strings of at
  most sixteen hexadecimal digits, and the 64-bit number it returns is their value, with no
  bits lost to the shifts.
\<close>
lemma parseHexUint_exact:
  "parseHexUint v = Inr n \<longleftrightarrow> length v \<le> 16 \<and> hex_digits_value 0 v = Some (unat n)"
proof -
  have eq: "parseHexUint v = (case hex_digits_value 0 (take 17 v) of
        None \<Rightarrow> Inl invalid_length
      | Some x \<Rightarrow> if length v \<le> 16 then Inr (of_nat x) else Inl length_too_large)"
    using parse_hex_from_exact [of 0 0 v]
    by (simp add: parseHexUint_def split: option.split)
  show ?thesis
  proof (cases "length v \<le> 16")
    case False
    then show ?thesis by (simp add: eq split: option.split)
  next
    case True
    then have t: "take 17 v = v" by simp
    have "x < 2 ^ 64" if "hex_digits_value 0 v = Some x" for x
    proof -
      have "x < 16 ^ length v" using hex_digits_value_less [OF that] by simp
      also have "\<dots> \<le> 16 ^ 16" using True by (intro power_increasing) auto
      finally show ?thesis by simp
    qed
    then have "unat (of_nat x :: 64 word) = x" if "hex_digits_value 0 v = Some x" for x
      using that by (simp add: unsigned_of_nat take_bit_nat_eq_self)
    then show ?thesis using True t
      by (auto simp: eq split: option.splits)
  qed
qed

section \<open>Consumption\<close>

lemma beginChunk_bound: "length (flat (cr_r (beginChunk cr))) \<le> length (flat (cr_r cr))"
proof -
  obtain b e r1 where rs: "ReadSlice LF (cr_r cr) = ((b, e), r1)" by (metis surj_pair)
  then have "length (flat r1) \<le> length (flat (cr_r cr))" using ReadSlice_consumes [OF rs] by simp
  then show ?thesis using rs
    by (auto simp: beginChunk_def readChunkLine_def split: option.splits sum.splits)
qed

lemma read_pass_consumes:
  assumes "read_pass k acc cr = (go, k', acc', cr')"
  shows "length acc \<le> length acc' \<and>
    length (flat (cr_r cr')) + length acc' \<le> length (flat (cr_r cr)) + length acc"
proof -
  obtain stop cr1 where f: "check_footer acc cr = (stop, cr1)" by fastforce
  then have le: "length (flat (cr_r cr1)) \<le> length (flat (cr_r cr))" by (rule check_footer_length)
  let ?k = "if k > unat (cr_n cr1) then unat (cr_n cr1) else k"
  obtain b e r where rd: "Read ?k (cr_r cr1) = ((b, e), r)" by (metis surj_pair)
  from Read_flat [OF rd] have c: "length (flat (cr_r cr1)) = length b + length (flat r)" by simp
  show ?thesis
    using assms f le c rd beginChunk_bound [of cr1]
    by (cases stop; cases "cr_n cr1 = 0"; cases "k = 0")
      (auto simp: read_pass_def Let_def split: if_splits)
qed

lemma read_loop_consumes:
  "read_loop k acc cr = (acc', cr') \<Longrightarrow> length acc \<le> length acc' \<and>
    length (flat (cr_r cr')) + length acc' \<le> length (flat (cr_r cr)) + length acc"
proof (induction k acc cr rule: read_loop.induct)
  case (1 k acc cr)
  obtain go k1 acc1 cr1 where rp: "read_pass k acc cr = (go, k1, acc1, cr1)" by (metis surj_pair)
  note c = read_pass_consumes [OF rp]
  show ?case
  proof (cases "cr_err cr = None \<and> go")
    case True
    with "1.IH" [of True "(k1, acc1, cr1)" k1 "(acc1, cr1)" acc1 cr1] rp "1.prems" c show ?thesis
      by (simp add: read_loop.simps [of k acc cr])
  next
    case False
    with rp "1.prems" c show ?thesis by (auto simp: read_loop.simps [of k acc cr] split: if_splits)
  qed
qed

lemma cr_Read_consumes:
  "cr_Read k cr = ((b, e), cr') \<Longrightarrow> length (flat (cr_r cr')) + length b \<le> length (flat (cr_r cr))"
  using read_loop_consumes [of k "[]" cr] by (auto simp: cr_Read_def split: prod.splits)

end
