(* ===== verification/Headers.thy ===== *)
theory Headers
  imports GoIO Interfaces "HOL-Library.AList" "HOL-Library.Char_ord" "HOL-Library.List_Lexorder"
begin

text \<open>
  Message headers: \<open>pkg/http/header.go\<close> with the parts of \<open>net/textproto\<close> it calls.

  A header is Go's map from keys to lists of values, kept as an association list with distinct
  keys (\<open>wf_header\<close>), so that \<open>sortedKeyValues\<close> can enumerate it; the order of the list is the
  unspecified order of the iteration over a Go map and no operation's result depends on it.
\<close>

section \<open>Canonical keys\<close>

definition upper_ascii :: "char \<Rightarrow> char" where
  "upper_ascii c = (if 97 \<le> ord c \<and> ord c \<le> 122 then char_of (ord c - 32) else c)"

fun canonical_from :: "bool \<Rightarrow> string \<Rightarrow> string" where
  "canonical_from up [] = []"
| "canonical_from up (c # s) =
     (if up then upper_ascii c else lower_ascii c) # canonical_from (c = CHR ''-'') s"

definition CanonicalHeaderKey :: "string \<Rightarrow> string" where
  "CanonicalHeaderKey s = (if list_all IsTokenRune s then canonical_from True s else s)"

section \<open>The header map\<close>

type_synonym Header = "(string \<times> string list) list"

definition wf_header :: "Header \<Rightarrow> bool" where
  "wf_header h \<longleftrightarrow> distinct (map fst h)"

definition field_values :: "Header \<Rightarrow> string \<Rightarrow> string list" where
  "field_values h k = (case map_of h k of None \<Rightarrow> [] | Some vv \<Rightarrow> vv)"

definition Add :: "string \<Rightarrow> string \<Rightarrow> Header \<Rightarrow> Header" where
  "Add key value h =
     (let k = CanonicalHeaderKey key in AList.update k (field_values h k @ [value]) h)"

definition Set :: "string \<Rightarrow> string \<Rightarrow> Header \<Rightarrow> Header" where
  "Set key value h = AList.update (CanonicalHeaderKey key) [value] h"

definition get :: "Header \<Rightarrow> string \<Rightarrow> string" where
  "get h key = (case field_values h key of [] \<Rightarrow> '''' | v # vs \<Rightarrow> v)"

definition Get :: "Header \<Rightarrow> string \<Rightarrow> string" where
  "Get h key = get h (CanonicalHeaderKey key)"

definition Del :: "string \<Rightarrow> Header \<Rightarrow> Header" where
  "Del key h = AList.delete (CanonicalHeaderKey key) h"

definition cloneHeader :: "Header \<Rightarrow> Header" where
  "cloneHeader h = fold (\<lambda>(k, vv) h2. AList.update k vv h2) h []"

section \<open>Writing\<close>

definition headerNewlineToSpace :: "string \<Rightarrow> string" where
  "headerNewlineToSpace = map (\<lambda>c. if c = LF \<or> c = CR then CHR '' '' else c)"

definition isASCIISpace :: "char \<Rightarrow> bool" where
  "isASCIISpace c \<longleftrightarrow> is_blank c \<or> c = LF \<or> c = CR"

definition TrimString :: "string \<Rightarrow> string" where
  "TrimString s = rev (dropWhile isASCIISpace (rev (dropWhile isASCIISpace s)))"

definition sortedKeyValues :: "(string \<Rightarrow> bool) \<Rightarrow> Header \<Rightarrow> Header" where
  "sortedKeyValues exclude h = sort_key fst (filter (\<lambda>kv. \<not> exclude (fst kv)) h)"

definition wire_value :: "string \<Rightarrow> string" where
  "wire_value v = TrimString (headerNewlineToSpace v)"

definition field_writes :: "string \<times> string list \<Rightarrow> string list" where
  "field_writes kv = concat (map (\<lambda>v. [fst kv, '': '', wire_value v, CRLF]) (snd kv))"

definition writeSubset ::
  "(string \<Rightarrow> bool) \<Rightarrow> Header \<Rightarrow> writer \<Rightarrow> io_error option \<times> writer" where
  "writeSubset exclude h w =
     write_all (concat (map field_writes (sortedKeyValues exclude h))) w"

definition Write :: "Header \<Rightarrow> writer \<Rightarrow> io_error option \<times> writer" where
  "Write h w = writeSubset (\<lambda>_. False) h w"

section \<open>Tokens in a value\<close>

definition isTokenBoundary :: "char \<Rightarrow> bool" where
  "isTokenBoundary b \<longleftrightarrow> b = CHR '' '' \<or> b = CHR '','' \<or> b = CHR 0x09"

text \<open>
  \<open>strings.EqualFold\<close> on two strings of the same number of bytes, the second of them ASCII: a
  letter whose simple folding is ASCII (the Kelvin sign, the long s) takes more than one byte,
  so no such string has as many runes as the ASCII one.
\<close>

definition EqualFold_ascii :: "string \<Rightarrow> string \<Rightarrow> bool" where
  "EqualFold_ascii s t \<longleftrightarrow> map lower_ascii s = map lower_ascii t"

definition or_0x20 :: "char \<Rightarrow> char" where
  "or_0x20 b = (if ord b div 32 mod 2 = 0 then char_of (ord b + 32) else b)"

fun hasToken_from :: "string \<Rightarrow> string \<Rightarrow> nat \<Rightarrow> nat \<Rightarrow> bool" where
  "hasToken_from v token sp 0 = False"
| "hasToken_from v token sp (Suc n) =
     (let b = v ! sp; endPos = sp + length token in
      if b \<noteq> hd token \<and> or_0x20 b \<noteq> hd token then hasToken_from v token (Suc sp) n
      else if sp > 0 \<and> \<not> isTokenBoundary (v ! (sp - 1)) then hasToken_from v token (Suc sp) n
      else if endPos \<noteq> length v \<and> \<not> isTokenBoundary (v ! endPos)
        then hasToken_from v token (Suc sp) n
      else if EqualFold_ascii (take (length token) (drop sp v)) token then True
      else hasToken_from v token (Suc sp) n)"

definition hasToken :: "string \<Rightarrow> string \<Rightarrow> bool" where
  "hasToken v token =
     (if length token > length v \<or> token = [] then False
      else if v = token then True
      else hasToken_from v token 0 (Suc (length v - length token)))"

section \<open>Reading\<close>

function read_fields :: "Header \<Rightarrow> bytes \<Rightarrow> io_error option \<times> Header \<times> bytes" where
  "read_fields m s =
     (case readContinuedLine s of
        None \<Rightarrow> (Some EOF, m, [])
      | Some (kv, r) \<Rightarrow>
          if kv = [] then (None, m, r)
          else case Index (CHR '':'') kv of
            None \<Rightarrow> (Some (ProtocolError (''malformed MIME header line: '' @ kv)), m, r)
          | Some i \<Rightarrow>
              let key = CanonicalHeaderKey (take i kv) in
              if key = [] then read_fields m r
              else read_fields
                     (AList.update key (field_values m key @ [dropWhile is_blank (drop (Suc i) kv)]) m) r)"
  by pat_completeness auto
termination
  by (relation "measure (\<lambda>(m, s). length s)") (auto dest: readContinuedLine_shorter)

declare read_fields.simps [simp del]

definition ReadMIMEHeader :: "bytes \<Rightarrow> io_error option \<times> Header \<times> bytes" where
  "ReadMIMEHeader s =
     (if s \<noteq> [] \<and> is_blank (hd s) then
        (case ReadLine s of
           None \<Rightarrow> (Some EOF, [], [])
         | Some (l, r) \<Rightarrow>
             (Some (ProtocolError (''malformed MIME header initial line: '' @ l)), [], r))
      else read_fields [] s)"

section \<open>Canonical keys, case and tokens\<close>

lemma map_ord_isTokenTable:
  "map ord isTokenTable =
     [33] @ [35..<40] @ [42, 43, 45, 46] @ [48..<58] @ ([65..<86] @ [87, 86] @ [88..<91]) @
     [94..<123] @ [124, 126]"
  by (simp add: isTokenTable_def upt_rec_numeral)

lemma IsTokenRune_ord:
  "IsTokenRune c \<longleftrightarrow> ord c \<in>
    {33} \<union> ({35..<40} \<union> ({42, 43, 45, 46} \<union> ({48..<58} \<union> ({65..<91} \<union> ({94..<123} \<union> {124, 126})))))"
proof -
  have "{65..<86} \<union> ({87, 86} \<union> {88..<91}) = {65..<91::nat}" by auto
  moreover have "IsTokenRune c \<longleftrightarrow> ord c \<in> set (map ord isTokenTable)"
    by (auto simp: IsTokenRune_def)
  ultimately show ?thesis
    unfolding map_ord_isTokenTable by (simp only: set_append set_upt list.set)
qed

lemma ord_eq_iff: "c = d \<longleftrightarrow> ord c = ord d"
  by simp

lemma IsTokenRune_lower: "IsTokenRune (lower_ascii c) = IsTokenRune c"
  by (auto simp: IsTokenRune_ord lower_ascii_def)

lemma upper_lower: "upper_ascii (lower_ascii c) = upper_ascii c"
  by (auto simp: upper_ascii_def lower_ascii_def)

lemma lower_upper: "lower_ascii (upper_ascii c) = lower_ascii c"
  by (auto simp: upper_ascii_def lower_ascii_def)

lemma lower_dash: "(lower_ascii c = CHR ''-'') = (c = CHR ''-'')"
  by (auto simp: upper_ascii_def lower_ascii_def ord_eq_iff simp del: of_char_eq_iff)

lemma IsTokenRune_not: "IsTokenRune c \<Longrightarrow> \<not> isASCIISpace c \<and> c \<noteq> CHR '':''"
  by (auto simp: IsTokenRune_def isTokenTable_def isASCIISpace_def is_blank_def LF_def CR_def)

lemma IsTokenRune_fold: "map lower_ascii s = map lower_ascii t \<Longrightarrow> list_all IsTokenRune s \<longleftrightarrow> list_all IsTokenRune t"
proof -
  have "list_all IsTokenRune s \<longleftrightarrow> list_all IsTokenRune (map lower_ascii s)" for s
    by (simp add: list.pred_map comp_def IsTokenRune_lower)
  then show "map lower_ascii s = map lower_ascii t \<Longrightarrow> ?thesis" by metis
qed

lemma canonical_from_fold:
  "map lower_ascii s = map lower_ascii t \<Longrightarrow> canonical_from up s = canonical_from up t"
proof (induction s arbitrary: t up)
  case (Cons c s)
  then obtain d t' where t: "t = d # t'" "lower_ascii c = lower_ascii d" "map lower_ascii s = map lower_ascii t'"
    by (cases t) auto
  then have "upper_ascii c = upper_ascii d" "(c = CHR ''-'') = (d = CHR ''-'')"
    by (metis upper_lower, metis lower_dash)
  with Cons.IH [OF t(3)] t show ?case by simp
qed simp

lemma lower_lower [simp]: "lower_ascii (lower_ascii c) = lower_ascii c"
  by (auto simp: lower_ascii_def)

lemma lower_canonical_from: "map lower_ascii (canonical_from up s) = map lower_ascii s"
  by (induction up s rule: canonical_from.induct) (simp_all add: lower_upper)

lemma CanonicalHeaderKey_lower: "map lower_ascii (CanonicalHeaderKey s) = map lower_ascii s"
  by (simp add: CanonicalHeaderKey_def lower_canonical_from)

lemma CanonicalHeaderKey_eq_iff:
  assumes "list_all IsTokenRune s"
  shows "CanonicalHeaderKey s = CanonicalHeaderKey t \<longleftrightarrow> map lower_ascii s = map lower_ascii t"
proof
  assume "CanonicalHeaderKey s = CanonicalHeaderKey t"
  then show "map lower_ascii s = map lower_ascii t" by (metis CanonicalHeaderKey_lower)
next
  assume eq: "map lower_ascii s = map lower_ascii t"
  with assms IsTokenRune_fold have "list_all IsTokenRune t" by blast
  with assms canonical_from_fold [OF eq] show "CanonicalHeaderKey s = CanonicalHeaderKey t"
    by (simp add: CanonicalHeaderKey_def)
qed

lemma CanonicalHeaderKey_idem [simp]: "CanonicalHeaderKey (CanonicalHeaderKey s) = CanonicalHeaderKey s"
proof (cases "list_all IsTokenRune s")
  case True
  then show ?thesis using CanonicalHeaderKey_eq_iff [OF True, of "CanonicalHeaderKey s"] CanonicalHeaderKey_lower [of s]
    by simp
qed (auto simp: CanonicalHeaderKey_def)

definition first_value :: "Header \<Rightarrow> string \<Rightarrow> string option" where
  "first_value h key = (case field_values h (CanonicalHeaderKey key) of [] \<Rightarrow> None | v # vs \<Rightarrow> Some v)"

lemma field_values_update: "field_values (AList.update k vv h) k' = (if k = k' then vv else field_values h k')"
  by (simp add: field_values_def update_conv')

lemma field_values_delete: "field_values (AList.delete k h) k' = (if k = k' then [] else field_values h k')"
  by (simp add: field_values_def delete_conv')

interpretation header: keyed_store Set Del first_value
  "\<lambda>k k'. CanonicalHeaderKey k = CanonicalHeaderKey k'"
  by unfold_locales (auto simp: Set_def Del_def first_value_def field_values_update field_values_delete)

lemma Get_first_value: "Get h k = (case first_value h k of None \<Rightarrow> '''' | Some v \<Rightarrow> v)"
  by (simp add: Get_def get_def first_value_def split: list.split)

lemma wf_Add: "wf_header h \<Longrightarrow> wf_header (Add k v h)"
  by (simp add: wf_header_def Add_def Let_def distinct_update)

lemma wf_Set: "wf_header h \<Longrightarrow> wf_header (Set k v h)"
  by (simp add: wf_header_def Set_def distinct_update)

lemma wf_Del: "wf_header h \<Longrightarrow> wf_header (Del k h)"
  by (simp add: wf_header_def Del_def distinct_delete)

lemma field_values_Add:
  "field_values (Add k v h) (CanonicalHeaderKey k') =
     (if CanonicalHeaderKey k = CanonicalHeaderKey k' then field_values h (CanonicalHeaderKey k') @ [v] else field_values h (CanonicalHeaderKey k'))"
  by (simp add: Add_def Let_def field_values_update)

lemma cloneHeader_values: "wf_header h \<Longrightarrow> map_of (cloneHeader h) = map_of h"
proof -
  have "map_of (fold (\<lambda>(k, vv). AList.update k vv) h h2) k = 
     (case map_of h k of None \<Rightarrow> map_of h2 k | Some v \<Rightarrow> Some v)" if "distinct (map fst h)" for h h2 :: Header and k
    using that by (induction h arbitrary: h2) (auto simp: update_conv' split: option.split intro: rev_image_eqI dest!: map_of_SomeD)
  then show "wf_header h \<Longrightarrow> ?thesis"
    by (intro ext) (simp add: cloneHeader_def wf_header_def split: option.split)
qed

lemma dropWhile_id: "s = [] \<or> \<not> P (hd s) \<Longrightarrow> dropWhile P s = s"
  by (cases s) auto

lemma dropWhile_rev_ends:
  "s \<noteq> [] \<Longrightarrow> \<not> P (last s) \<Longrightarrow> rev (dropWhile P (rev s)) = s"
  by (metis dropWhile_eq_self_iff hd_rev rev_is_Nil_conv rev_rev_ident)

lemma trim_blank_id: "s = [] \<or> \<not> is_blank (hd s) \<and> \<not> is_blank (last s) \<Longrightarrow> trim_blank s = s"
  by (cases "s = []") (simp_all add: trim_blank_def dropWhile_id dropWhile_rev_ends)

lemma wire_value_clean: "LF \<notin> set (wire_value v)" "CR \<notin> set (wire_value v)"
proof -
  have "set (wire_value v) \<subseteq> set (headerNewlineToSpace v)"
    unfolding wire_value_def TrimString_def by (metis set_dropWhileD set_rev subsetI)
  moreover have "LF \<notin> set (headerNewlineToSpace v)" "CR \<notin> set (headerNewlineToSpace v)"
    by (auto simp: headerNewlineToSpace_def LF_def CR_def)
  ultimately show "LF \<notin> set (wire_value v)" "CR \<notin> set (wire_value v)" by auto
qed

lemma TrimString_ends:
  assumes "TrimString s \<noteq> []"
  shows "\<not> isASCIISpace (hd (TrimString s)) \<and> \<not> isASCIISpace (last (TrimString s))"
proof -
  let ?a = "dropWhile isASCIISpace s" and ?b = "dropWhile isASCIISpace (rev (dropWhile isASCIISpace s))"
  from assms have b: "?b \<noteq> []" by (simp add: TrimString_def)
  then have a: "?a \<noteq> []" by (metis dropWhile.simps(1) rev.simps(1))
  from b have "\<not> isASCIISpace (hd ?b)" by (rule hd_dropWhile)
  moreover obtain p where "rev ?a = p @ ?b" by (metis takeWhile_dropWhile_id)
  then have "?a = rev ?b @ rev p" by (metis rev_append rev_rev_ident)
  with b have "hd (rev ?b) = hd ?a" by (metis hd_append2 rev_is_Nil_conv)
  with hd_dropWhile [OF a] have "\<not> isASCIISpace (hd (rev ?b))" by simp
  ultimately show ?thesis using b by (simp add: TrimString_def last_rev)
qed

definition field_line :: "string \<Rightarrow> string \<Rightarrow> string" where
  "field_line k v = k @ '': '' @ wire_value v @ CRLF"

lemma concat_field_writes: "concat (field_writes (k, vv)) = concat (map (field_line k) vv)"
  by (induction vv) (simp_all add: field_writes_def field_line_def)

lemma trim_blank_field:
  assumes "k \<noteq> []" "\<not> is_blank (hd k)"
  shows "trim_blank (k @ '': '' @ wire_value v) = k @ '':'' @ (if wire_value v = [] then [] else '' '' @ wire_value v)"
proof (cases "wire_value v = []")
  case True
  have "rev (dropWhile is_blank (rev (k @ '': ''))) = k @ '':''"
    by (simp add: is_blank_def)
  moreover from assms have "dropWhile is_blank (k @ '': '') = k @ '': ''"
    by (simp add: dropWhile_id)
  ultimately show ?thesis using True by (simp add: trim_blank_def)
next
  case False
  then have "\<not> is_blank (last (wire_value v))"
    using TrimString_ends by (auto simp: wire_value_def isASCIISpace_def)
  with False assms show ?thesis by (subst trim_blank_id) auto
qed

lemma dropWhile_wire_value: "dropWhile is_blank (wire_value v) = wire_value v"
  using TrimString_ends [of "headerNewlineToSpace v"]
  by (cases "wire_value v = []") (auto simp: wire_value_def isASCIISpace_def dropWhile_eq_self_iff)

lemma read_fields_line:
  assumes key: "list_all IsTokenRune k" "k \<noteq> []"
    and rest: "rest \<noteq> []" "\<not> is_blank (hd rest)"
  shows "read_fields m (field_line k v @ rest) =
     read_fields (AList.update (CanonicalHeaderKey k)
       (field_values m (CanonicalHeaderKey k) @ [wire_value v]) m) rest"
proof -
  let ?kv = "k @ '':'' @ (if wire_value v = [] then [] else '' '' @ wire_value v)"
  have tok: "\<not> isASCIISpace c \<and> c \<noteq> CHR '':''" if "c \<in> set k" for c
    using key that IsTokenRune_not by (auto simp: list_all_iff)
  then have "LF \<notin> set (k @ '': '' @ wire_value v)" "\<not> is_blank (hd k)"
    using wire_value_clean [of v] key by (auto simp: isASCIISpace_def LF_def)
  then have rc: "readContinuedLine (field_line k v @ rest) = Some (?kv, rest)"
    using readContinuedLine_plain [of "k @ '': '' @ wire_value v" rest] rest key trim_blank_field [of k v]
    by (simp add: field_line_def)
  have "CHR '':'' \<notin> set k" using tok by blast
  then have ix: "Index (CHR '':'') ?kv = Some (length k)" by simp
  have dv: "dropWhile is_blank (drop (Suc (length k)) ?kv) = wire_value v"
    using dropWhile_wire_value [of v] by (auto simp: is_blank_def)
  have kn: "CanonicalHeaderKey k \<noteq> []"
    using key by (metis CanonicalHeaderKey_lower Nil_is_map_conv)
  show ?thesis
    by (subst read_fields.simps) (use rc ix dv kn in \<open>simp add: Let_def\<close>)
qed

lemma Set_hd_field: "list_all IsTokenRune k \<Longrightarrow> k \<noteq> [] \<Longrightarrow> \<not> is_blank (hd (field_line k v @ rest)) \<and> field_line k v @ rest \<noteq> []"
  using IsTokenRune_not by (cases k) (auto simp: field_line_def isASCIISpace_def)

definition good_field :: "string \<times> string list \<Rightarrow> bool" where
  "good_field kv \<longleftrightarrow> fst kv \<noteq> [] \<and> list_all IsTokenRune (fst kv) \<and>
     CanonicalHeaderKey (fst kv) = fst kv \<and> snd kv \<noteq> []"

lemma fields_hd:
  assumes "list_all good_field kvs"
  shows "concat (concat (map field_writes kvs)) @ CRLF @ rest \<noteq> [] \<and>
    \<not> is_blank (hd (concat (concat (map field_writes kvs)) @ CRLF @ rest))"
proof (cases kvs)
  case Nil
  then show ?thesis by (simp add: CRLF_def CR_def is_blank_def)
next
  case (Cons kv kvs')
  moreover obtain k v vv where "kv = (k, v # vv)"
    using assms Cons by (cases kv; cases "snd kv") (auto simp: good_field_def)
  ultimately show ?thesis
    using assms Set_hd_field [of k v] by (simp add: good_field_def concat_field_writes)
qed

lemma read_fields_values:
  assumes "list_all IsTokenRune k" "k \<noteq> []" "CanonicalHeaderKey k = k"
    and "rest \<noteq> []" "\<not> is_blank (hd rest)" "vv \<noteq> []"
  shows "\<exists>m'. read_fields m (concat (map (field_line k) vv) @ rest) = read_fields m' rest \<and>
     map_of m' = (map_of m)(k \<mapsto> field_values m k @ map wire_value vv)"
  using assms(6)
proof (induction vv arbitrary: m)
  case (Cons v vv)
  let ?m = "AList.update k (field_values m k @ [wire_value v]) m"
  have hd: "concat (map (field_line k) vv) @ rest \<noteq> [] \<and> \<not> is_blank (hd (concat (map (field_line k) vv) @ rest))"
    using assms Set_hd_field by (cases vv) simp_all
  have one: "read_fields m (concat (map (field_line k) (v # vv)) @ rest) =
      read_fields ?m (concat (map (field_line k) vv) @ rest)"
    using read_fields_line [of k "concat (map (field_line k) vv) @ rest" m v] assms hd by simp
  show ?case
  proof (cases "vv = []")
    case True
    with one show ?thesis by (intro exI [of _ ?m]) (simp add: update_conv')
  next
    case False
    from Cons.IH [OF this, of ?m] one obtain m' where
      "read_fields m (concat (map (field_line k) (v # vv)) @ rest) = read_fields m' rest"
      "map_of m' = (map_of ?m)(k \<mapsto> field_values ?m k @ map wire_value vv)" by metis
    then show ?thesis
      by (intro exI [of _ m'] conjI) (auto simp: update_conv' field_values_update fun_eq_iff)
  qed
qed simp

lemma read_fields_written:
  assumes "list_all good_field kvs" "distinct (map fst kvs)" "fst ` set kvs \<inter> dom (map_of m) = {}"
  shows "\<exists>m'. read_fields m (concat (concat (map field_writes kvs)) @ CRLF @ rest) = (None, m', rest) \<and>
     map_of m' = map_of m ++ map_of (map (\<lambda>(k, vv). (k, map wire_value vv)) kvs)"
  using assms
proof (induction kvs arbitrary: m)
  case Nil
  show ?case
    by (subst read_fields.simps) (simp add: readContinuedLine_end)
next
  case (Cons kv kvs)
  obtain k vv where kv: "kv = (k, vv)" by fastforce
  let ?r = "concat (concat (map field_writes kvs)) @ CRLF @ rest"
  have k: "list_all IsTokenRune k" "k \<noteq> []" "CanonicalHeaderKey k = k" "vv \<noteq> []"
    using Cons.prems kv by (auto simp: good_field_def)
  have "?r \<noteq> []" "\<not> is_blank (hd ?r)"
    using fields_hd [of kvs rest] Cons.prems by auto
  from read_fields_values [OF k(1-3) this k(4), of m] obtain m1 where
    m1: "read_fields m (concat (map (field_line k) vv) @ ?r) = read_fields m1 ?r"
      "map_of m1 = (map_of m)(k \<mapsto> field_values m k @ map wire_value vv)" by blast
  have "map_of m k = None" using Cons.prems kv by auto
  with m1 have mm: "map_of m1 = (map_of m)(k \<mapsto> map wire_value vv)" by (simp add: field_values_def)
  have "fst ` set kvs \<inter> dom (map_of m1) = {}"
    using Cons.prems kv mm by (auto simp: image_iff)
  with Cons.IH [of m1] Cons.prems obtain m' where
    "read_fields m1 ?r = (None, m', rest)"
    "map_of m' = map_of m1 ++ map_of (map (\<lambda>(k, vv). (k, map wire_value vv)) kvs)" by auto
  moreover have "k \<notin> dom (map_of (map (\<lambda>(k, vv). (k, map wire_value vv)) kvs))"
    using Cons.prems kv by (auto simp: dom_map_of_conv_image_fst image_image split_beta)
  ultimately show ?case
    using m1(1) by (intro exI [of _ m'], unfold kv)
      (auto simp: concat_field_writes mm map_add_def fun_eq_iff split: option.split)
qed

lemma out_writeSubset:
  "out (snd (writeSubset exclude h buffer)) =
     concat (concat (map field_writes (sortedKeyValues exclude h)))"
  by (simp add: writeSubset_def write_all_unlimited buffer_def)

lemma header_roundtrip:
  assumes "wf_header h" and "list_all good_field h"
  shows "\<exists>m. ReadMIMEHeader (out (snd (writeSubset exclude h buffer)) @ CRLF @ rest) =
             (None, m, rest) \<and>
           (\<forall>k. map_of m k =
             (if exclude k then None else map_option (map wire_value) (map_of h k)))"
proof -
  let ?kvs = "sortedKeyValues exclude h"
  have set_kvs: "set ?kvs = {kv \<in> set h. \<not> exclude (fst kv)}"
    by (auto simp: sortedKeyValues_def)
  have good: "list_all good_field ?kvs"
    using assms set_kvs by (auto simp: list_all_iff)
  have dist: "distinct (map fst ?kvs)"
    using assms by (auto simp: wf_header_def sortedKeyValues_def distinct_map inj_on_def)
  have "out (snd (writeSubset exclude h buffer)) = concat (concat (map field_writes ?kvs))"
    by (rule out_writeSubset)
  moreover from read_fields_written [OF good dist, of "[]" rest] obtain m where
    m: "read_fields [] (concat (concat (map field_writes ?kvs)) @ CRLF @ rest) = (None, m, rest)"
      "map_of m = map_of (map (\<lambda>(k, vv). (k, map wire_value vv)) ?kvs)" by auto
  moreover have "map_of m k = (if exclude k then None else map_option (map wire_value) (map_of h k))" for k
  proof -
    have "map_of ?kvs k = Some vv \<longleftrightarrow> \<not> exclude k \<and> map_of h k = Some vv" for vv
      using assms dist set_kvs by (auto simp: wf_header_def)
    then have "map_of ?kvs k = (if exclude k then None else map_of h k)"
      by (metis option.exhaust)
    then show ?thesis using m(2) by (simp add: map_of_map)
  qed
  ultimately show ?thesis using fields_hd [OF good, of rest] by (auto simp: ReadMIMEHeader_def)
qed

text \<open>What \<open>hasToken\<close> documents: the token stands in the value between boundaries.\<close>

definition token_at :: "string \<Rightarrow> string \<Rightarrow> nat \<Rightarrow> bool" where
  "token_at v token sp \<longleftrightarrow> sp + length token \<le> length v \<and>
     map lower_ascii (take (length token) (drop sp v)) = token \<and>
     (sp = 0 \<or> isTokenBoundary (v ! (sp - 1))) \<and>
     (sp + length token = length v \<or> isTokenBoundary (v ! (sp + length token)))"

lemma first_byte_filter: "lower_ascii b = t \<Longrightarrow> b = t \<or> or_0x20 b = t"
proof -
  have "65 \<le> ord b \<and> ord b \<le> 90 \<Longrightarrow> ord b div 32 = 2"
    by (simp add: div_nat_eqI)
  then show "lower_ascii b = t \<Longrightarrow> ?thesis"
    by (auto simp: lower_ascii_def or_0x20_def)
qed

lemma hasToken_from_iff:
  assumes "map lower_ascii token = token" "token \<noteq> []" "sp + n + length token = Suc (length v)"
  shows "hasToken_from v token sp n \<longleftrightarrow> (\<exists>i. sp \<le> i \<and> i < sp + n \<and> token_at v token i)"
  using assms(3)
proof (induction n arbitrary: sp)
  case (Suc n)
  have bnd: "sp + length token \<le> length v" using Suc.prems by linarith
  have hd: "hd token = lower_ascii (v ! sp)" if "map lower_ascii (take (length token) (drop sp v)) = token"
    using that assms(2) bnd by (metis Suc_leI add_leD1 drop_eq_Nil hd_drop_conv_nth hd_map hd_take length_greater_0_conv less_add_same_cancel1 linorder_not_less map_is_Nil_conv order_less_le_trans)
  have here: "token_at v token sp \<longleftrightarrow>
    \<not> (v ! sp \<noteq> hd token \<and> or_0x20 (v ! sp) \<noteq> hd token) \<and>
    \<not> (sp > 0 \<and> \<not> isTokenBoundary (v ! (sp - 1))) \<and>
    \<not> (sp + length token \<noteq> length v \<and> \<not> isTokenBoundary (v ! (sp + length token))) \<and>
    EqualFold_ascii (take (length token) (drop sp v)) token"
    using bnd assms(1) hd first_byte_filter [of "v ! sp"] by (auto simp: token_at_def EqualFold_ascii_def)
  have "hasToken_from v token sp (Suc n) \<longleftrightarrow> token_at v token sp \<or> hasToken_from v token (Suc sp) n"
    unfolding here hasToken_from.simps Let_def by (simp only: if_splits) blast
  also have "\<dots> \<longleftrightarrow> (\<exists>i. sp \<le> i \<and> i < sp + Suc n \<and> token_at v token i)"
  proof -
    have "(\<exists>i. sp \<le> i \<and> i < sp + Suc n \<and> token_at v token i) \<longleftrightarrow>
        token_at v token sp \<or> (\<exists>i. Suc sp \<le> i \<and> i < Suc sp + n \<and> token_at v token i)"
      by (metis Suc_leD Suc_leI add_Suc_right add_Suc_shift le_add1 le_imp_less_Suc le_neq_implies_less order_refl)
    then show ?thesis using Suc.IH [of "Suc sp"] Suc.prems by simp
  qed
  finally show ?case .
qed simp

text \<open>
  For a lower-case token \<open>hasToken\<close> holds exactly when some part of the value between
  token boundaries equals the token up to ASCII case: its test of the first byte (\<open>b|0x20\<close>) and
  its shortcuts never change the answer.
\<close>
lemma hasToken_iff_token_at:
  assumes "map lower_ascii token = token" and "token \<noteq> []"
  shows "hasToken v token \<longleftrightarrow> (\<exists>i. token_at v token i)"
proof (cases "length token \<le> length v")
  case True
  have "hasToken_from v token 0 (Suc (length v - length token)) \<longleftrightarrow> (\<exists>i. token_at v token i)"
  proof -
    have "token_at v token i \<Longrightarrow> i < Suc (length v - length token)" for i
      by (auto simp: token_at_def)
    with hasToken_from_iff [OF assms, of 0 "Suc (length v - length token)" v] True show ?thesis
      by auto
  qed
  moreover have "token_at token token 0" using assms by (simp add: token_at_def)
  ultimately show ?thesis using True assms by (auto simp: hasToken_def)
qed (auto simp: hasToken_def token_at_def)

lemma hasToken_iff_token_at_witness:
  "hasToken ''Keep-Alive, Upgrade'' ''upgrade'' \<and> \<not> hasToken ''closed'' ''close''"
proof -
  have "token_at ''Keep-Alive, Upgrade'' ''upgrade'' 12"
    by (simp add: token_at_def lower_ascii_def isTokenBoundary_def char_eval)
  then have "hasToken ''Keep-Alive, Upgrade'' ''upgrade''"
    by (subst hasToken_iff_token_at) (auto simp: lower_ascii_def)
  moreover have "\<not> token_at ''closed'' ''close'' i" for i
    by (cases i; cases "i - 1") (auto simp: token_at_def lower_ascii_def isTokenBoundary_def)
  then have "\<not> hasToken ''closed'' ''close''"
    by (subst hasToken_iff_token_at) (auto simp: lower_ascii_def)
  ultimately show ?thesis ..
qed

text \<open>
  Header keys that are tokens are looked up without regard to case, and setting one key
  never changes another: \<open>Get\<close> after \<open>Set\<close> gives the value for every spelling of the key, and
  what it gave before for every other key.
\<close>
lemma Get_Set_case_insensitive:
  assumes "ValidHeaderFieldName key"
  shows "Get (Set key v h) key' =
           (if map lower_ascii key = map lower_ascii key' then v else Get h key')"
proof -
  from assms have "list_all IsTokenRune key"
    by (simp add: ValidHeaderFieldName_def split: if_splits)
  from CanonicalHeaderKey_eq_iff [OF this, of key'] show ?thesis
    by (simp add: Get_first_value header.look_put)
qed

lemma Get_Set_case_insensitive_witness:
  "Get (Set ''X-Request-Id'' ''7'' [(''Host'', [''h''])]) ''x-request-ID'' = ''7'' \<and>
   Get (Set ''X-Request-Id'' ''7'' [(''Host'', [''h''])]) ''host'' = ''h''"
proof -
  have "ValidHeaderFieldName ''X-Request-Id''"
    by (simp add: ValidHeaderFieldName_def IsTokenRune_ord)
  note set = Get_Set_case_insensitive [OF this, of "''7''" "[(''Host'', [''h''])]"]
  have "Get [(''Host'', [''h''])] ''host'' = ''h''"
    by (simp add: upper_ascii_def lower_ascii_def char_eval Get_def get_def field_values_def
        CanonicalHeaderKey_def IsTokenRune_ord)
  with set [of "''x-request-ID''"] set [of "''host''"] show ?thesis
    by (simp add: lower_ascii_def char_eval)
qed

end
