(* ===== verification/Textproto.thy ===== *)
theory Textproto
  imports Bufio Headers
begin

text \<open>
  The reader of \<open>net/textproto\<close> on a \<open>bufio.Reader\<close>: \<open>readLineSlice\<close>, \<open>readContinuedLineSlice\<close>
  and \<open>ReadMIMEHeader\<close>, with the buffer state they leave behind. \<open>Headers\<close> has the same functions
  on the bare bytes; the lemmas here say that the two agree on the part of the stream that a
  complete header occupies, whatever the segments. What is still buffered afterwards does depend
  on the segments, and the handlers' fallback depends on it.
\<close>

section \<open>Looking ahead\<close>

text \<open>\<open>Peek(n)\<close>: fill until \<open>n\<close> bytes are buffered, the buffer is full or the input ends.\<close>

function peek_fill :: "nat \<Rightarrow> bufr \<Rightarrow> bufr" where
  "peek_fill n r =
     (if n \<le> length (buffered r) \<or> cap r \<le> length (buffered r) then r
      else case conn_read (cap r - length (buffered r)) (incoming r) of
        None \<Rightarrow> r\<lparr>incoming := []\<rparr>
      | Some (b, rest) \<Rightarrow> peek_fill n (r\<lparr>buffered := buffered r @ b, incoming := rest\<rparr>))"
  by pat_completeness auto
termination
proof (relation "measure (\<lambda>(n, r). length (concat (incoming r)))", goal_cases)
  case (2 n r p b rest)
  then show ?case using conn_read_SomeD [of _ "incoming r" b rest] by fastforce
qed simp

declare peek_fill.simps [simp del]

definition Peek :: "nat \<Rightarrow> bufr \<Rightarrow> bytes \<times> bufr" where
  \<comment> \<open>an answer shorter than \<open>n\<close> came with an error\<close>
  "Peek n r = (let r' = peek_fill n r in (take n (buffered r'), r'))"

definition Discard :: "nat \<Rightarrow> bufr \<Rightarrow> bufr" where
  \<comment> \<open>of bytes that have been peeked\<close>
  "Discard n r = r\<lparr>buffered := drop n (buffered r)\<rparr>"

section \<open>Lines\<close>

definition strip_eol :: "bytes \<Rightarrow> bytes" where
  \<comment> \<open>the end of a slice that ends in a line feed\<close>
  "strip_eol b = drop_cr (butlast b)"

function readLineSlice_from :: "bytes \<Rightarrow> bufr \<Rightarrow> (io_error + string) \<times> bufr" where
  "readLineSlice_from acc r =
     (case ReadSlice LF r of
        ((b, None), r') \<Rightarrow> (Inr (acc @ strip_eol b), r')
      | ((b, Some e), r') \<Rightarrow>
          if e = ErrBufferFull \<and> 1 < length b then
            (if last b = CR
             then readLineSlice_from (acc @ butlast b) (r'\<lparr>buffered := CR # buffered r'\<rparr>)
             else readLineSlice_from (acc @ b) r')
          else if b = [] then (Inl e, r')
          else (Inr (acc @ b), r'))"
  by pat_completeness auto
termination
proof (relation "measure (\<lambda>(acc, r). length (flat r))", goal_cases)
  case (2 acc r p r' b e)
  then have "flat r = b @ flat r'" using ReadSlice_consumes by metis
  then have "length (flat r) = length b + length (flat r')" by simp
  moreover have "flat (r'\<lparr>buffered := CR # buffered r'\<rparr>) = CR # flat r'" by (simp add: flat_def)
  ultimately show ?case using 2 by simp
next
  case (3 acc r p r' b e)
  then have "flat r = b @ flat r'" using ReadSlice_consumes by metis
  then have "length (flat r) = length b + length (flat r')" by simp
  with 3 show ?case by auto
qed simp

declare readLineSlice_from.simps [simp del]

definition readLineSlice :: "bufr \<Rightarrow> (io_error + string) \<times> bufr" where
  "readLineSlice r = readLineSlice_from [] r"

text \<open>\<open>skipSpace\<close>: the number of blanks skipped; it looks one byte ahead.\<close>

function skipSpace :: "bufr \<Rightarrow> nat \<times> bufr" where
  "skipSpace r =
     (case buffered r of
        c # cs \<Rightarrow>
          if is_blank c then (case skipSpace (r\<lparr>buffered := cs\<rparr>) of (n, r') \<Rightarrow> (Suc n, r'))
          else (0, r)
      | [] \<Rightarrow>
          if cap r = 0 then (0, r)
          else case conn_read (cap r) (incoming r) of
            None \<Rightarrow> (0, r\<lparr>incoming := []\<rparr>)
          | Some (b, rest) \<Rightarrow> skipSpace (r\<lparr>buffered := b, incoming := rest\<rparr>))"
  by pat_completeness auto
termination
proof (relation "measures [\<lambda>r. length (concat (incoming r)), \<lambda>r. length (buffered r)]", goal_cases)
  case (2 r p b rest)
  then have "concat (incoming r) = b @ concat rest" "b \<noteq> []"
    using conn_read_SomeD [of "cap r" "incoming r" b rest] by auto
  then show ?case by simp
qed simp_all

declare skipSpace.simps [simp del]

lemma skipSpace_Cons:
  "buffered r = c # cs \<Longrightarrow>
   skipSpace r = (if is_blank c then case skipSpace (r\<lparr>buffered := cs\<rparr>) of (n, r') \<Rightarrow> (Suc n, r')
                  else (0, r))"
  by (simp add: skipSpace.simps [of r])

lemma skipSpace_Nil:
  "buffered r = [] \<Longrightarrow>
   skipSpace r = (if cap r = 0 then (0, r) else case conn_read (cap r) (incoming r) of
       None \<Rightarrow> (0, r\<lparr>incoming := []\<rparr>)
     | Some (b, rest) \<Rightarrow> skipSpace (r\<lparr>buffered := b, incoming := rest\<rparr>))"
  by (simp add: skipSpace.simps [of r])

lemma skipSpace_flat:
  "case skipSpace r of (n, r') \<Rightarrow> length (flat r') + n \<le> length (flat r) \<and>
     (wf_bufr r \<longrightarrow> wf_bufr r' \<and> at_end r' = at_end r \<and> cap r' = cap r \<and>
        n = length (takeWhile is_blank (flat r)) \<and> flat r' = dropWhile is_blank (flat r))"
proof (induction r rule: skipSpace.induct)
  case (1 r)
  show ?case
  proof (cases "buffered r")
    case (Cons c cs)
    then have "flat r = c # flat (r\<lparr>buffered := cs\<rparr>)" by (simp add: flat_def)
    moreover have "wf_bufr r \<Longrightarrow> wf_bufr (r\<lparr>buffered := cs\<rparr>)" using Cons by (simp add: wf_bufr_def)
    ultimately show ?thesis using "1.IH"(2) [OF Cons]
      by (auto simp: skipSpace_Cons [OF Cons] split: prod.splits)
  next
    case Nil
    show ?thesis
    proof (cases "conn_read (cap r) (incoming r)")
      case None
      then have "concat (incoming r) = []" by (simp only: conn_read_None_iff)
      with Nil have "flat r = []" "flat (r\<lparr>incoming := []\<rparr>) = []" by (simp_all add: flat_def)
      with Nil None show ?thesis by (simp add: skipSpace_Nil wf_bufr_def)
    next
      case (Some p)
      obtain b rest where p: "p = (b, rest)" by fastforce
      let ?r = "r\<lparr>buffered := b, incoming := rest\<rparr>"
      from Some p have b: "concat (incoming r) = b @ concat rest" "length b \<le> cap r"
        using conn_read_SomeD by blast+
      then have eqs: "flat ?r = flat r" "wf_bufr r \<Longrightarrow> wf_bufr ?r"
        using Nil by (simp_all add: flat_def wf_bufr_def)
      show ?thesis
      proof (cases "cap r = 0")
        case True
        with Nil show ?thesis by (simp add: skipSpace_Nil wf_bufr_def)
      next
        case False
        with "1.IH"(1) [OF Nil False Some [unfolded p] refl] Nil Some p eqs show ?thesis
          by (auto simp: skipSpace_Nil split: prod.splits)
      qed
    qed
  qed
qed

definition isASCIILetter :: "char \<Rightarrow> bool" where
  "isASCIILetter b \<longleftrightarrow> (97 \<le> ord (lower_ascii b) \<and> ord (lower_ascii b) \<le> 122)"

lemma readLineSlice_from_length:
  "readLineSlice_from acc r = (Inr l, r') \<Longrightarrow> length (flat r') < length (flat r)"
proof (induction acc r rule: readLineSlice_from.induct)
  case (1 acc r)
  obtain b e r1 where rs: "ReadSlice LF r = ((b, e), r1)" by (metis surj_pair)
  from ReadSlice_consumes [OF this] have c: "flat r = b @ flat r1" "e = None \<longrightarrow> b \<noteq> []" by auto
  have push: "flat (r1\<lparr>buffered := CR # buffered r1\<rparr>) = CR # flat r1" by (simp add: flat_def)
  note step = readLineSlice_from.simps [of acc r, unfolded rs prod.case]
  show ?case
  proof (cases e)
    case None
    with c "1.prems" step show ?thesis by (cases b) auto
  next
    case (Some e')
    show ?thesis
    proof (cases "e' = ErrBufferFull \<and> 1 < length b")
      case False
      with Some c "1.prems" step show ?thesis by (cases b) (auto split: if_splits)
    next
      case True
      with "1.IH" [of "(b, e)" r1 b e e'] rs Some "1.prems" step c push show ?thesis
        by (auto split: if_splits)
    qed
  qed
qed

lemma readLineSlice_from_bound:
  "readLineSlice_from acc r = (res, r') \<Longrightarrow> length (flat r') \<le> length (flat r)"
proof (induction acc r rule: readLineSlice_from.induct)
  case (1 acc r)
  obtain b e r1 where rs: "ReadSlice LF r = ((b, e), r1)" by (metis surj_pair)
  from ReadSlice_consumes [OF this] have c: "flat r = b @ flat r1" by auto
  have push: "flat (r1\<lparr>buffered := CR # buffered r1\<rparr>) = CR # flat r1" by (simp add: flat_def)
  note step = readLineSlice_from.simps [of acc r, unfolded rs prod.case]
  show ?case
  proof (cases e)
    case None
    with c "1.prems" step show ?thesis by auto
  next
    case (Some e')
    show ?thesis
    proof (cases "e' = ErrBufferFull \<and> 1 < length b")
      case False
      with Some c "1.prems" step show ?thesis by (auto split: if_splits)
    next
      case True
      with "1.IH" [of "(b, e)" r1 b e e'] rs Some "1.prems" step c push show ?thesis
        by (auto split: if_splits)
    qed
  qed
qed

text \<open>
  \<open>readContinuedLineSlice\<close>. Its shortcut for a next line that starts with a letter gives the
  answer of the general case.
\<close>

function read_more :: "string \<Rightarrow> bufr \<Rightarrow> string \<times> bufr" where
  "read_more acc r =
     (case skipSpace r of (n, r1) \<Rightarrow>
        if n = 0 then (acc, r1)
        else case readLineSlice r1 of
          (Inl e, r2) \<Rightarrow> (acc, r2)
        | (Inr l, r2) \<Rightarrow> read_more (acc @ '' '' @ trim_blank l) r2)"
  by pat_completeness auto
termination
proof (relation "measure (\<lambda>(acc, r). length (flat r))", goal_cases)
  case (2 acc r n r1 res r2 l)
  then have "length (flat r2) < length (flat r1)"
    by (metis readLineSlice_def readLineSlice_from_length)
  moreover have "length (flat r1) \<le> length (flat r)" using 2 skipSpace_flat [of r] by auto
  ultimately show ?case by simp
qed simp

declare read_more.simps [simp del]

definition readContinuedLineSlice :: "bufr \<Rightarrow> (io_error + string) \<times> bufr" where
  "readContinuedLineSlice r =
     (case readLineSlice r of
        (Inl e, r1) \<Rightarrow> (Inl e, r1)
      | (Inr l, r1) \<Rightarrow>
          if l = [] then (Inr [], r1)
          else if Buffered r1 > 1 \<and> isASCIILetter (hd (buffered r1)) then (Inr (trim_blank l), r1)
          else (case read_more (trim_blank l) r1 of (kv, r2) \<Rightarrow> (Inr kv, r2)))"

lemma read_more_length: "length (flat (snd (read_more acc r))) \<le> length (flat r)"
proof (induction acc r rule: read_more.induct)
  case (1 acc r)
  obtain n r1 where sk: "skipSpace r = (n, r1)" by fastforce
  then have le: "length (flat r1) \<le> length (flat r)" using skipSpace_flat [of r] by auto
  obtain res r2 where rl: "readLineSlice r1 = (res, r2)" by fastforce
  note step = read_more.simps [of acc r, unfolded sk prod.case rl]
  show ?case
  proof (cases "n = 0")
    case True
    with step le show ?thesis by simp
  next
    case False
    have err: "length (flat r2) \<le> length (flat r1)"
      using rl readLineSlice_from_bound by (auto simp: readLineSlice_def)
    show ?thesis
    proof (cases res)
      case (Inl e)
      with step False le err show ?thesis by simp
    next
      case (Inr l)
      with "1.IH" [OF sk [symmetric] False rl [symmetric] Inr] step False le err show ?thesis by simp
    qed
  qed
qed

lemma readContinuedLineSlice_length:
  "readContinuedLineSlice r = (Inr kv, r') \<Longrightarrow> length (flat r') < length (flat r)"
proof -
  assume rc: "readContinuedLineSlice r = (Inr kv, r')"
  obtain res r1 where rl: "readLineSlice r = (res, r1)" by fastforce
  with rc obtain l where "res = Inr l" by (cases res) (auto simp: readContinuedLineSlice_def)
  with rl have "length (flat r1) < length (flat r)"
    by (metis readLineSlice_def readLineSlice_from_length)
  moreover have "length (flat r') \<le> length (flat r1)"
    using rc rl \<open>res = Inr l\<close> read_more_length [of "trim_blank l" r1]
    by (auto simp: readContinuedLineSlice_def split: if_splits prod.splits)
  ultimately show ?thesis by simp
qed

function read_header :: "Header \<Rightarrow> bufr \<Rightarrow> io_error option \<times> Header \<times> bufr" where
  "read_header m r =
     (case readContinuedLineSlice r of
        (Inl e, r1) \<Rightarrow> (Some e, m, r1)
      | (Inr kv, r1) \<Rightarrow>
          if kv = [] then (None, m, r1)
          else case Index (CHR '':'') kv of
            None \<Rightarrow> (Some (ProtocolError (''malformed MIME header line: '' @ kv)), m, r1)
          | Some i \<Rightarrow>
              let key = CanonicalHeaderKey (take i kv) in
              if key = [] then read_header m r1
              else read_header
                     (AList.update key (field_values m key @ [dropWhile is_blank (drop (Suc i) kv)]) m) r1)"
  by pat_completeness auto
termination
  by (relation "measure (\<lambda>(m, r). length (flat r))")
    (auto dest: readContinuedLineSlice_length [OF sym])

declare read_header.simps [simp del]

definition ReadMIMEHeader_b :: "bufr \<Rightarrow> io_error option \<times> Header \<times> bufr" where
  "ReadMIMEHeader_b r =
     (case Peek 1 r of
        ([c], r1) \<Rightarrow>
          if is_blank c then
            (case readLineSlice r1 of
               (Inl e, r2) \<Rightarrow> (Some e, [], r2)
             | (Inr l, r2) \<Rightarrow>
                 (Some (ProtocolError (''malformed MIME header initial line: '' @ l)), [], r2))
          else read_header [] r1
      | (_, r1) \<Rightarrow> read_header [] r1)"

section \<open>Agreement with the bytes\<close>

lemma ReadSlice_full:
  "ReadSlice d r = ((b, Some e), r') \<Longrightarrow> buffered r' = []"
proof (induction d r rule: ReadSlice.induct)
  case (1 d r)
  show ?case
  proof (cases "Index d (buffered r) = None \<and> \<not> cap r \<le> length (buffered r) \<and>
      conn_read (cap r - length (buffered r)) (incoming r) \<noteq> None")
    case True
    then obtain c rest where c: "conn_read (cap r - length (buffered r)) (incoming r) = Some (c, rest)"
      by auto
    with True "1.IH" [of "(c, rest)" c rest] "1.prems" show ?thesis
      by (simp add: ReadSlice.simps [of d r])
  next
    case False
    with "1.prems" show ?thesis
      by (auto simp: ReadSlice.simps [of d r] split: option.splits if_splits)
  qed
qed

lemma drop_cr_append: "x \<noteq> [] \<or> p = [] \<or> last p \<noteq> CR \<Longrightarrow> drop_cr (p @ x) = p @ drop_cr x"
  by (auto simp: drop_cr_def butlast_append)

lemma ReadLine_LF:
  "LF \<notin> set x \<Longrightarrow> ReadLine (x @ LF # s) = Some (drop_cr x, s)"
  by (simp add: ReadLine_def)

lemma split_LF: "LF \<in> set s \<Longrightarrow> \<exists>x y. s = x @ LF # y \<and> LF \<notin> set x"
  by (rule split_list_first)

lemma readLineSlice_agrees:
  assumes "wf_bufr r" "LF \<in> set (flat r)"
  shows "case readLineSlice_from acc r of (res, r') \<Rightarrow>
     \<exists>l. ReadLine (flat r) = Some (l, flat r') \<and> res = Inr (acc @ l) \<and> wf_bufr r' \<and>
       at_end r' = at_end r \<and> cap r' = cap r"
  using assms
proof (induction acc r rule: readLineSlice_from.induct)
  case (1 acc r)
  obtain b e r1 where rs: "ReadSlice LF r = ((b, e), r1)" by (metis surj_pair)
  note f = ReadSlice_flat [OF "1.prems"(1), of LF, unfolded rs prod.case]
  have wf: "wf_bufr r1" "at_end r1 = at_end r" "cap r1 = cap r" and fl: "flat r = b @ flat r1"
    using f by blast+
  note step = readLineSlice_from.simps [of acc r, unfolded rs prod.case]
  show ?case
  proof (cases "Index LF (take (cap r) (flat r))")
    case (Some i)
    with f have b: "e = None" "b = take (Suc i) (flat r)" unfolding Some option.case by blast+
    from Some have i: "Index LF (flat r) = Some i" by (rule Index_take)
    then have i_lt: "i < length (flat r)" by (simp add: Index_Some_iff)
    have "ReadLine (flat r) = Some (drop_cr (take i (flat r)), drop (Suc i) (flat r))"
      using i i_lt by (auto simp: ReadLine_def)
    moreover have "flat r1 = drop (Suc i) (flat r)"
      by (metis b(2) fl append_take_drop_id same_append_eq)
    moreover have "strip_eol b = drop_cr (take i (flat r))"
      using i_lt b(2) by (simp add: strip_eol_def take_Suc_conv_app_nth)
    ultimately show ?thesis using step b wf by simp
  next
    case None
    then have nLF: "LF \<notin> set (take (cap r) (flat r))" by (simp add: Index_None_iff)
    then have le: "cap r \<le> length (flat r)" using "1.prems"(2) by (metis nat_le_linear take_all)
    have e: "e = Some ErrBufferFull" and lb: "length b = cap r"
      using f unfolding None option.case if_P [OF le] by blast+
    have b: "b = take (cap r) (flat r)" using lb fl by simp
    have b1: "1 < length b" using lb "1.prems"(1) by (simp add: wf_bufr_def)
    have nb: "LF \<notin> set b" using nLF unfolding b .
    then have LF1: "LF \<in> set (flat r1)" using "1.prems"(2) unfolding fl by simp
    have b0: "buffered r1 = []" using ReadSlice_full rs e by blast
    from LF1 obtain x y where xy: "flat r1 = x @ LF # y" "LF \<notin> set x" using split_LF by blast
    show ?thesis
    proof (cases "last b = CR")
      case True
      let ?r = "r1\<lparr>buffered := CR # buffered r1\<rparr>"
      have "flat ?r = CR # flat r1" "wf_bufr ?r"
        using wf b0 by (simp_all add: flat_def wf_bufr_def)
      moreover have bb: "b = butlast b @ [CR]" using True b1 by (metis append_butlast_last_id list.size(3) not_one_less_zero)
      have "ReadLine (flat r) = Some (butlast b @ drop_cr (CR # x), y)"
      proof -
        have "flat r = (butlast b @ CR # x) @ LF # y" using fl xy bb by (metis append.assoc append_Cons append_Nil)
        moreover have "LF \<notin> set (butlast b @ CR # x)" using nb xy(2) by (auto dest: in_set_butlastD)
        ultimately show ?thesis
          using drop_cr_append [of "CR # x" "butlast b"] ReadLine_LF [of "butlast b @ CR # x" y] by simp
      qed
      moreover have "ReadLine (CR # flat r1) = Some (drop_cr (CR # x), y)"
        using ReadLine_LF [of "CR # x" y] xy by simp
      ultimately show ?thesis
        using "1.IH"(1) [of "(b, e)" r1 b e ErrBufferFull] rs e b1 True LF1 step wf by auto
    next
      case False
      have "ReadLine (flat r) = Some (b @ drop_cr x, y)"
        using ReadLine_LF [of "b @ x" y] drop_cr_append [of x b] False nb xy fl by simp
      moreover have "ReadLine (flat r1) = Some (drop_cr x, y)"
        using ReadLine_LF [of x y] xy by simp
      ultimately show ?thesis
        using "1.IH"(2) [of "(b, e)" r1 b e ErrBufferFull] rs e b1 False LF1 step wf by auto
    qed
  qed
qed

lemma ReadLine_suffix: "ReadLine s = Some (l, r) \<Longrightarrow> suffix r s"
  by (auto simp: ReadLine_def suffix_drop split: if_splits option.splits)

lemma read_continuations_suffix: "suffix (snd (read_continuations acc s)) s"
proof (induction acc s rule: read_continuations.induct)
  case (1 acc s)
  show ?case
  proof (cases "s = [] \<or> \<not> is_blank (hd s)")
    case True
    then show ?thesis by (simp add: read_continuations.simps)
  next
    case False
    show ?thesis
    proof (cases "ReadLine (dropWhile is_blank s)")
      case None
      with False show ?thesis by (simp add: read_continuations.simps)
    next
      case (Some lr)
      obtain l r where lr: "lr = (l, r)" by fastforce
      with Some have "suffix r s"
        by (metis ReadLine_suffix suffix_dropWhile suffix_order.trans)
      with "1.IH" [OF False Some [unfolded lr] refl] False Some lr show ?thesis
        by (auto simp: read_continuations.simps [of acc s])
    qed
  qed
qed

lemma readContinuedLine_suffix: "readContinuedLine s = Some (l, r) \<Longrightarrow> suffix r s"
proof -
  assume rc: "readContinuedLine s = Some (l, r)"
  then obtain l1 r1 where rl: "ReadLine s = Some (l1, r1)"
    by (auto simp: readContinuedLine_def split: option.splits)
  with rc have "suffix r r1"
    using read_continuations_suffix [of "trim_blank l1" r1]
    by (auto simp: readContinuedLine_def split: if_splits)
  with ReadLine_suffix [OF rl] show ?thesis by (metis suffix_order.trans)
qed

lemma read_fields_suffix:
  "read_fields m s = (res, m', rest) \<Longrightarrow> suffix rest s \<and> (res \<noteq> Some EOF \<longrightarrow> length rest < length s)"
proof (induction m s rule: read_fields.induct)
  case (1 m s)
  show ?case
  proof (cases "readContinuedLine s")
    case None
    with "1.prems" show ?thesis by (auto simp: read_fields.simps [of m s])
  next
    case (Some p)
    obtain kv r where p: "p = (kv, r)" by fastforce
    with Some have sr: "suffix r s" "length r < length s"
      using readContinuedLine_suffix readContinuedLine_shorter by blast+
    show ?thesis
    proof (cases "kv = [] \<or> Index (CHR '':'') kv = None")
      case True
      with "1.prems" Some p sr show ?thesis by (auto simp: read_fields.simps [of m s] split: if_splits)
    next
      case False
      then obtain i where i: "kv \<noteq> []" "Index (CHR '':'') kv = Some i" by auto
      show ?thesis
      proof (cases "CanonicalHeaderKey (take i kv) = []")
        case True
        with "1.IH"(1) [OF Some [unfolded p] refl i refl True] "1.prems" Some p i sr show ?thesis
          by (simp add: read_fields.simps [of m s]) (meson suffix_order.trans less_trans)
      next
        case nk: False
        with "1.IH"(2) [OF Some [unfolded p] refl i refl nk] "1.prems" Some p i sr show ?thesis
          by (simp add: read_fields.simps [of m s] Let_def) (meson suffix_order.trans less_trans)
      qed
    qed
  qed
qed

lemma suffix_longer:
  "suffix s (p @ c # rest) \<Longrightarrow> suffix rest s \<Longrightarrow> length rest < length s \<Longrightarrow> \<exists>p'. s = p' @ c # rest"
proof -
  assume s: "suffix s (p @ c # rest)" and r: "suffix rest s" "length rest < length s"
  then obtain q where q: "s = q @ rest" by (auto simp: suffix_def)
  with r have "q \<noteq> []" by auto
  moreover from s q obtain z where "p @ [c] = z @ q" by (auto simp: suffix_def)
  ultimately have "last q = c" by (metis last_appendR last_snoc)
  with \<open>q \<noteq> []\<close> have "q = butlast q @ [c]" by (metis append_butlast_last_id)
  with q show ?thesis by (metis append.assoc append_Cons append_Nil)
qed

lemma suffix_cases:
  assumes "suffix rest s" "suffix s (p @ c # q)" "suffix q rest"
  shows "s = rest \<or> (\<exists>p q. s = p @ c # q \<and> suffix q rest)"
proof (cases "length rest < length s")
  case True
  moreover have "length q \<le> length rest" using assms(3) by (rule suffix_length_le)
  moreover have "suffix q s" using assms(1,3) by (metis suffix_order.trans)
  ultimately show ?thesis using suffix_longer [OF assms(2)] assms(3) by (meson le_less_trans)
next
  case False
  then show ?thesis using assms(1) by (auto simp: suffix_def)
qed

lemma read_more_agrees:
  assumes "wf_bufr r" "read_continuations acc (flat r) = (kv, rest)"
    and "flat r = rest \<or> (\<exists>p q. flat r = p @ LF # q \<and> suffix q rest)"
  shows "case read_more acc r of (kv', r') \<Rightarrow>
     kv' = kv \<and> flat r' = rest \<and> wf_bufr r' \<and> at_end r' = at_end r \<and> cap r' = cap r"
  using assms
proof (induction acc r rule: read_more.induct)
  case (1 acc r)
  obtain n r1 where sk: "skipSpace r = (n, r1)" by fastforce
  have r1: "wf_bufr r1" "at_end r1 = at_end r" "cap r1 = cap r"
      "n = length (takeWhile is_blank (flat r))" "flat r1 = dropWhile is_blank (flat r)"
    using skipSpace_flat [of r] sk "1.prems"(1) by auto
  note step = read_more.simps [of acc r, unfolded sk prod.case]
  show ?case
  proof (cases "n = 0")
    case True
    then have tw: "flat r = [] \<or> \<not> is_blank (hd (flat r))"
      using r1(4) by (cases "flat r") (auto split: if_splits)
    then have "flat r1 = flat r" "kv = acc" "rest = flat r"
      using r1(5) "1.prems"(2) dropWhile_id [of "flat r" is_blank]
      by (auto simp: read_continuations.simps [of acc])
    with step True r1 show ?thesis by simp
  next
    case False
    then have bl: "flat r \<noteq> []" "is_blank (hd (flat r))"
      using r1(4) by (cases "flat r"; auto split: if_splits)+
    have "suffix rest (flat r)"
      using read_continuations_suffix [of acc "flat r"] "1.prems"(2) by simp
    have short: "length rest < length (flat r)"
    proof (cases "ReadLine (flat r1)")
      case None
      with "1.prems"(2) bl r1(5) show ?thesis by (auto simp: read_continuations.simps [of acc "flat r"])
    next
      case (Some lr)
      obtain l r2 where lr: "lr = (l, r2)" by fastforce
      with Some have "length r2 < length (flat r1)" by (simp add: ReadLine_shorter)
      moreover have "length (flat r1) \<le> length (flat r)" unfolding r1(5) by (rule length_dropWhile_le)
      moreover have "length rest \<le> length r2"
        using "1.prems"(2) bl r1(5) Some lr read_continuations_shorter [of "acc @ '' '' @ trim_blank l" r2]
        by (auto simp: read_continuations.simps [of acc "flat r"])
      ultimately show ?thesis by simp
    qed
    then obtain p q where p: "flat r = p @ LF # q" "suffix q rest" using "1.prems"(3) by auto
    have "LF \<in> set (flat r1)"
    proof -
      have "LF \<in> set (flat r)" using p by simp
      moreover have "LF \<notin> set (takeWhile is_blank (flat r))"
        by (auto dest: set_takeWhileD simp: is_blank_def LF_def)
      ultimately show ?thesis unfolding r1(5)
        by (metis Un_iff set_append takeWhile_dropWhile_id)
    qed
    from readLineSlice_agrees [OF r1(1) this, of "[]"] obtain l r2 where
      rl: "readLineSlice r1 = (Inr l, r2)" "ReadLine (flat r1) = Some (l, flat r2)" "wf_bufr r2"
        "at_end r2 = at_end r1" "cap r2 = cap r1"
      by (auto simp: readLineSlice_def split: prod.splits)
    have cont: "read_continuations (acc @ '' '' @ trim_blank l) (flat r2) = (kv, rest)"
      using "1.prems"(2) bl rl(2) r1(5) by (simp add: read_continuations.simps [of acc "flat r"])
    then have "suffix rest (flat r2)"
      using read_continuations_suffix [of "acc @ '' '' @ trim_blank l" "flat r2"] by simp
    moreover have "suffix (flat r2) (p @ LF # q)"
      using ReadLine_suffix [OF rl(2)] r1(5) p(1) by (metis suffix_dropWhile suffix_order.trans)
    ultimately have "flat r2 = rest \<or> (\<exists>p q. flat r2 = p @ LF # q \<and> suffix q rest)"
      using p(2) by (rule suffix_cases)
    with "1.IH" [OF sk [symmetric] False rl(1) [symmetric] refl rl(3) cont] step False rl r1 show ?thesis
      by (auto split: prod.splits)
  qed
qed

lemma readContinuedLine_agrees:
  assumes "wf_bufr r" "readContinuedLine (flat r) = Some (kv, rest)" "flat r = p @ LF # q" "suffix q rest"
  shows "\<exists>r'. readContinuedLineSlice r = (Inr kv, r') \<and> flat r' = rest \<and> wf_bufr r' \<and>
     at_end r' = at_end r \<and> cap r' = cap r"
proof -
  have "LF \<in> set (flat r)" using assms(3) by simp
  from readLineSlice_agrees [OF assms(1) this, of "[]"] obtain l r1 where
    rl: "readLineSlice r = (Inr l, r1)" "ReadLine (flat r) = Some (l, flat r1)" "wf_bufr r1"
      "at_end r1 = at_end r" "cap r1 = cap r"
    by (auto simp: readLineSlice_def split: prod.splits)
  show ?thesis
  proof (cases "l = []")
    case True
    with rl assms(2) show ?thesis by (simp add: readContinuedLineSlice_def readContinuedLine_def)
  next
    case False
    then have cont: "read_continuations (trim_blank l) (flat r1) = (kv, rest)"
      using assms(2) rl(2) by (simp add: readContinuedLine_def)
    show ?thesis
    proof (cases "Buffered r1 > 1 \<and> isASCIILetter (hd (buffered r1))")
      case True
      then have "buffered r1 \<noteq> []" by (auto simp: Buffered_def)
      moreover have "\<not> is_blank c" if "isASCIILetter c" for c
        using that by (auto simp: isASCIILetter_def is_blank_def lower_ascii_def)
      ultimately have "\<not> is_blank (hd (flat r1))" using True by (simp add: flat_def)
      then have "kv = trim_blank l" "rest = flat r1" using cont by (auto simp: read_continuations.simps)
      with rl False True show ?thesis by (simp add: readContinuedLineSlice_def)
    next
      case general: False
      have "suffix rest (flat r1)"
        using read_continuations_suffix [of "trim_blank l" "flat r1"] cont by simp
      moreover have "suffix (flat r1) (p @ LF # q)" using ReadLine_suffix [OF rl(2)] assms(3) by simp
      ultimately have "flat r1 = rest \<or> (\<exists>p q. flat r1 = p @ LF # q \<and> suffix q rest)"
        using assms(4) by (rule suffix_cases)
      from read_more_agrees [OF rl(3) cont this] rl False general show ?thesis
        by (auto simp: readContinuedLineSlice_def split: prod.splits)
    qed
  qed
qed

lemma read_header_agrees:
  assumes "wf_bufr r" "read_fields m (flat r) = (res, m', rest)" "flat r = p @ LF # rest" "res \<noteq> Some EOF"
  shows "\<exists>r'. read_header m r = (res, m', r') \<and> flat r' = rest \<and> wf_bufr r' \<and>
     at_end r' = at_end r \<and> cap r' = cap r"
  using assms
proof (induction m r arbitrary: p rule: read_header.induct)
  case (1 m r)
  show ?case
  proof (cases "readContinuedLine (flat r)")
    case None
    with "1.prems"(2,4) show ?thesis by (auto simp: read_fields.simps [of m "flat r"])
  next
    case (Some x)
    obtain kv s1 where x: "x = (kv, s1)" by fastforce
    note rc = Some [unfolded x]
    note fields = "1.prems"(2) [unfolded read_fields.simps [of m "flat r"] rc, simplified]
    have suf: "suffix rest s1"
      using fields by (auto simp: Let_def split: if_splits option.splits dest: read_fields_suffix)
    from readContinuedLine_agrees [OF "1.prems"(1) rc "1.prems"(3) suf] obtain r1 where
      r1: "readContinuedLineSlice r = (Inr kv, r1)" "flat r1 = s1" "wf_bufr r1" "at_end r1 = at_end r" "cap r1 = cap r"
      by blast
    have longer: "\<exists>p1. flat r1 = p1 @ LF # rest" if "read_fields m2 s1 = (res, m', rest)" for m2
    proof -
      have "length rest < length s1" using read_fields_suffix [OF that] "1.prems"(4) by blast
      moreover have "suffix s1 (p @ LF # rest)" using readContinuedLine_suffix [OF rc] "1.prems"(3) by simp
      ultimately show ?thesis using suffix_longer suf r1(2) by metis
    qed
    show ?thesis
    proof (cases "kv = [] \<or> Index (CHR '':'') kv = None")
      case True
      with fields r1 show ?thesis by (auto simp: read_header.simps [of m r] split: if_splits)
    next
      case False
      then obtain i where i: "kv \<noteq> []" "Index (CHR '':'') kv = Some i" by auto
      show ?thesis
      proof (cases "CanonicalHeaderKey (take i kv) = []")
        case True
        then have f: "read_fields m (flat r1) = (res, m', rest)" using fields i r1 by simp
        with longer r1 obtain p1 where p1: "flat r1 = p1 @ LF # rest" by metis
        from "1.IH"(1) [OF r1(1) [symmetric] refl i refl True r1(3) f p1 "1.prems"(4)] r1 i True show ?thesis
          by (simp add: read_header.simps [of m r])
      next
        case nk: False
        let ?k = "CanonicalHeaderKey (take i kv)"
        let ?m = "AList.update ?k (field_values m ?k @ [dropWhile is_blank (drop (Suc i) kv)]) m"
        have f: "read_fields ?m (flat r1) = (res, m', rest)" using fields i r1 nk by (simp add: Let_def)
        with longer r1 obtain p1 where p1: "flat r1 = p1 @ LF # rest" by metis
        from "1.IH"(2) [OF r1(1) [symmetric] refl i refl nk r1(3) f p1 "1.prems"(4)] r1 i nk show ?thesis
          by (simp add: read_header.simps [of m r] Let_def)
      qed
    qed
  qed
qed

lemma peek_fill_flat:
  "wf_bufr r \<Longrightarrow> flat (peek_fill n r) = flat r \<and> wf_bufr (peek_fill n r) \<and>
     at_end (peek_fill n r) = at_end r \<and> cap (peek_fill n r) = cap r \<and>
     take (min n (cap r)) (flat r) = take (min n (cap r)) (buffered (peek_fill n r))"
proof (induction n r rule: peek_fill.induct)
  case (1 n r)
  show ?case
  proof (cases "n \<le> length (buffered r) \<or> cap r \<le> length (buffered r)")
    case True
    then show ?thesis using "1.prems" by (auto simp: peek_fill.simps flat_def)
  next
    case False
    show ?thesis
    proof (cases "conn_read (cap r - length (buffered r)) (incoming r)")
      case None
      then have "concat (incoming r) = []" by (simp only: conn_read_None_iff)
      then have "flat r = buffered r" by (simp add: flat_def)
      moreover have "flat (r\<lparr>incoming := []\<rparr>) = buffered r" by (simp add: flat_def)
      ultimately show ?thesis using False None "1.prems" by (simp add: peek_fill.simps wf_bufr_def)
    next
      case (Some x)
      obtain b rest where x: "x = (b, rest)" by fastforce
      let ?r = "r\<lparr>buffered := buffered r @ b, incoming := rest\<rparr>"
      from conn_read_SomeD [OF Some [unfolded x]] have b: "concat (incoming r) = b @ concat rest"
        "length b \<le> cap r - length (buffered r)" by auto
      then have eqs: "flat ?r = flat r" "wf_bufr ?r" using "1.prems" False by (auto simp: flat_def wf_bufr_def)
      have "peek_fill n r = peek_fill n ?r" using False Some x by (simp add: peek_fill.simps [of n r])
      with "1.IH" [OF False Some [unfolded x] refl eqs(2)] eqs show ?thesis by simp
    qed
  qed
qed

lemma ReadMIMEHeader_agrees:
  assumes "wf_bufr r" "ReadMIMEHeader (flat r) = (res, m, rest)" "flat r = p @ LF # rest" "res \<noteq> Some EOF"
  shows "\<exists>r'. ReadMIMEHeader_b r = (res, m, r') \<and> flat r' = rest \<and> wf_bufr r' \<and>
     at_end r' = at_end r \<and> cap r' = cap r"
proof -
  let ?r = "peek_fill 1 r"
  have r: "flat ?r = flat r" "wf_bufr ?r" "at_end ?r = at_end r" "cap ?r = cap r"
    and "take (min 1 (cap r)) (flat r) = take (min 1 (cap r)) (buffered ?r)"
    using peek_fill_flat [OF assms(1), of 1] by blast+
  moreover have "min 1 (cap r) = 1" using assms(1) by (simp add: wf_bufr_def)
  ultimately have one: "take 1 (buffered ?r) = take 1 (flat r)" by simp
  obtain c s where cs: "flat r = c # s" using assms(3) by (cases p) auto
  with one have pk: "Peek 1 r = ([c], ?r)" by (simp add: Peek_def Let_def)
  show ?thesis
  proof (cases "is_blank c")
    case False
    then have "read_fields [] (flat ?r) = (res, m, rest)"
      using assms(2) cs r by (simp add: ReadMIMEHeader_def)
    from read_header_agrees [OF r(2) this _ assms(4), of p] assms(3) r False pk show ?thesis
      by (simp add: ReadMIMEHeader_b_def)
  next
    case True
    have "LF \<in> set (flat ?r)" using assms(3) r by simp
    from readLineSlice_agrees [OF r(2) this, of "[]"] obtain l r2 where
      "readLineSlice ?r = (Inr l, r2)" "ReadLine (flat ?r) = Some (l, flat r2)" "wf_bufr r2"
      "at_end r2 = at_end ?r" "cap r2 = cap ?r"
      by (auto simp: readLineSlice_def split: prod.splits)
    with assms(2) cs True pk r show ?thesis
      by (auto simp: ReadMIMEHeader_b_def ReadMIMEHeader_def)
  qed
qed

text \<open>
  Writing a header and reading it back with \<open>ReadMIMEHeader\<close> gives the same fields, with
  each value as it was except for line breaks (written as spaces) and surrounding white space,
  and leaves the reader exactly after the blank line, however the bytes arrive. In particular no
  value, whatever bytes it holds, can add a field, end the header early, or be continued by what
  follows.
\<close>
lemma header_write_read_roundtrip:
  assumes "wf_header h" and "list_all good_field h" and "wf_bufr r"
    and "flat r = out (snd (writeSubset exclude h buffer)) @ CRLF @ rest"
  shows "\<exists>m r'. ReadMIMEHeader_b r = (None, m, r') \<and> flat r' = rest \<and>
           (\<forall>k. map_of m k =
             (if exclude k then None else map_option (map wire_value) (map_of h k)))"
proof -
  from header_roundtrip [OF assms(1,2), of exclude rest] obtain m where
    m: "ReadMIMEHeader (flat r) = (None, m, rest)"
      "\<forall>k. map_of m k = (if exclude k then None else map_option (map wire_value) (map_of h k))"
    unfolding assms(4) by blast
  have "flat r = (out (snd (writeSubset exclude h buffer)) @ [CR]) @ LF # rest"
    unfolding assms(4) by (simp add: CRLF_def)
  from ReadMIMEHeader_agrees [OF assms(3) m(1) this] m(2) show ?thesis by auto
qed

lemma header_write_read_roundtrip_witness:
  "\<exists>m r'. ReadMIMEHeader_b (NewReaderSize 4095
        [''X-A: 1'', CRLF @ ''X-A: b  Host: evil'' @ CRLF @ CRLF @ ''bo'', ''dy''] EOF) = (None, m, r') \<and>
      flat r' = ''body'' \<and>
      map_of m ''X-A'' = Some [''1'', ''b  Host: evil''] \<and> map_of m ''Host'' = None"
proof -
  let ?h = "[(''X-A'', [''1'', '' b'' @ CRLF @ ''Host: evil'']), (''Host'', [''h''])]"
  let ?ex = "\<lambda>k. k = ''Host''"
  let ?r = "NewReaderSize 4095
        [''X-A: 1'', CRLF @ ''X-A: b  Host: evil'' @ CRLF @ CRLF @ ''bo'', ''dy''] EOF"
  have h: "wf_header ?h" by (simp add: wf_header_def)
  have g: "list_all good_field ?h"
    by (simp add: good_field_def CanonicalHeaderKey_def IsTokenRune_ord upper_ascii_def lower_ascii_def)
  have v: "wire_value '' b  Host: evil'' = ''b  Host: evil''" "wire_value ''1'' = ''1''"
      "wire_value (CHR '' '' # CHR ''b'' # CRLF @ ''Host: evil'') = ''b  Host: evil''"
    by (simp_all add: wire_value_def headerNewlineToSpace_def CRLF_def CR_def LF_def TrimString_def
        isASCIISpace_def is_blank_def)
  have w: "wf_bufr ?r" by (simp add: NewReaderSize_def wf_bufr_def)
  have "flat ?r = out (snd (writeSubset ?ex ?h buffer)) @ CRLF @ ''body''"
    unfolding out_writeSubset
    by (simp add: NewReaderSize_def flat_def sortedKeyValues_def field_writes_def v)
  from header_write_read_roundtrip [OF h g w this] v show ?thesis by auto
qed

end
