(* ===== verification/Body.thy ===== *)
theory Body
  imports Chunked Textproto
begin

text \<open>
  Message bodies: the type \<open>body\<close> of \<open>pkg/http/transfer.go\<close> with the three sources it reads from
  (chunked, limited by a content length, or the bare connection), its \<open>Read\<close> and \<open>Close\<close> and the
  copy loops that drain it. The sources share the message's \<open>bufio.Reader\<close>; here each source holds
  it, and \<open>src_reader\<close> is where it stands.
\<close>

datatype src = SrcChunked chunkedReader | SrcLimited int bufr | SrcReader bufr

fun src_reader :: "src \<Rightarrow> bufr" where
  "src_reader (SrcChunked cr) = cr_r cr"
| "src_reader (SrcLimited n r) = r"
| "src_reader (SrcReader r) = r"

fun set_reader :: "bufr \<Rightarrow> src \<Rightarrow> src" where
  "set_reader r (SrcChunked cr) = SrcChunked (cr\<lparr>cr_r := r\<rparr>)"
| "set_reader r (SrcLimited n _) = SrcLimited n r"
| "set_reader r (SrcReader _) = SrcReader r"

fun src_Read :: "nat \<Rightarrow> src \<Rightarrow> (bytes \<times> io_error option) \<times> src" where
  "src_Read k (SrcChunked cr) = (case cr_Read k cr of (p, cr') \<Rightarrow> (p, SrcChunked cr'))"
| "src_Read k (SrcLimited n r) =
     (if n \<le> 0 then (([], Some EOF), SrcLimited n r)
      else case Read (if int k > n then nat n else k) r of
        ((b, e), r') \<Rightarrow> ((b, e), SrcLimited (n - int (length b)) r'))"
| "src_Read k (SrcReader r) = (case Read k r of (p, r') \<Rightarrow> (p, SrcReader r'))"

record body =
  b_src :: src
  b_hdr :: bool            \<comment> \<open>non-nil: a trailer has to be read\<close>
  b_trailer :: "Header option"   \<comment> \<open>the field \<open>Trailer\<close> of the message\<close>
  closing :: bool
  sawEOF :: bool
  closed :: bool

definition ErrBodyReadAfterClose :: io_error where
  "ErrBodyReadAfterClose = OtherError ''http: invalid Read on closed Body''"

definition errTrailerEOF :: io_error where
  "errTrailerEOF = OtherError ''http: unexpected EOF reading trailer''"

definition errLongTrailer :: io_error where
  "errLongTrailer = OtherError ''http: suspiciously long trailer after chunked body''"

definition mergeSetHeader :: "Header option \<Rightarrow> Header \<Rightarrow> Header" where
  "mergeSetHeader dst src =
     (case dst of None \<Rightarrow> src | Some d \<Rightarrow> fold (\<lambda>(k, vv) h. AList.update k vv h) src d)"

text \<open>
  \<open>seeUpcomingDoubleCRLF\<close> peeks 4, 5, ... bytes until they end in a blank line or no more can be
  peeked; \<open>n\<close> counts the sizes still to try, which the buffer bounds.
\<close>

fun see_double :: "nat \<Rightarrow> nat \<Rightarrow> bufr \<Rightarrow> bool \<times> bufr" where
  "see_double 0 peekSize r = (False, r)"
| "see_double (Suc n) peekSize r =
     (case Peek peekSize r of (buf, r') \<Rightarrow>
        if HasSuffix buf (CRLF @ CRLF) then (True, r')
        else if length buf < peekSize then (False, r')
        else see_double n (Suc peekSize) r')"

definition seeUpcomingDoubleCRLF :: "bufr \<Rightarrow> bool \<times> bufr" where
  "seeUpcomingDoubleCRLF r = see_double (cap r) 4 r"

definition readTrailer :: "bufr \<Rightarrow> Header option \<Rightarrow> io_error option \<times> Header option \<times> bufr" where
  "readTrailer r tr =
     (case Peek 2 r of (buf, r1) \<Rightarrow>
        if buf = CRLF then (None, tr, Discard 2 r1)
        else if length buf < 2 then (Some errTrailerEOF, tr, r1)
        else case seeUpcomingDoubleCRLF r1 of
          (False, r2) \<Rightarrow> (Some errLongTrailer, tr, r2)
        | (True, r2) \<Rightarrow>
            (case ReadMIMEHeader_b r2 of
               (Some e, _, r3) \<Rightarrow> (Some (if e = EOF then errTrailerEOF else e), tr, r3)
             | (None, hdr, r3) \<Rightarrow> (None, Some (mergeSetHeader tr hdr), r3)))"

definition limit_left :: "src \<Rightarrow> int option" where
  "limit_left s = (case s of SrcLimited n r \<Rightarrow> Some n | _ \<Rightarrow> None)"

definition readLocked :: "nat \<Rightarrow> body \<Rightarrow> (bytes \<times> io_error option) \<times> body" where
  "readLocked k b =
     (if sawEOF b then (([], Some EOF), b)
      else case src_Read k (b_src b) of
        ((p, err), s) \<Rightarrow>
          if err = Some EOF then
            (if b_hdr b then
               (case readTrailer (src_reader s) (b_trailer b) of
                  (None, tr, r) \<Rightarrow>
                    ((p, Some EOF),
                     b\<lparr>b_src := set_reader r s, b_hdr := False, b_trailer := tr, sawEOF := True\<rparr>)
                | (Some e, tr, r) \<Rightarrow>
                    ((p, Some e),
                     b\<lparr>b_src := set_reader r s, b_hdr := False, b_trailer := tr, closed := True\<rparr>))
             else if (case limit_left s of Some n \<Rightarrow> n > 0 | None \<Rightarrow> False) then
               ((p, Some ErrUnexpectedEOF), b\<lparr>b_src := s, sawEOF := True\<rparr>)
             else ((p, Some EOF), b\<lparr>b_src := s, sawEOF := True\<rparr>))
          else if err = None \<and> p \<noteq> [] \<and> limit_left s = Some 0 then
            ((p, Some EOF), b\<lparr>b_src := s, sawEOF := True\<rparr>)
          else ((p, err), b\<lparr>b_src := s\<rparr>))"

definition body_Read :: "nat \<Rightarrow> body \<Rightarrow> (bytes \<times> io_error option) \<times> body" where
  "body_Read k b =
     (if closed b then (([], Some ErrBodyReadAfterClose), b) else readLocked k b)"

definition unreadDataSizeLocked :: "body \<Rightarrow> int" where
  "unreadDataSizeLocked b = (case limit_left (b_src b) of Some n \<Rightarrow> n | None \<Rightarrow> - 1)"

definition bodyRemains :: "body \<Rightarrow> bool" where
  "bodyRemains b \<longleftrightarrow> \<not> sawEOF b"

section \<open>Copying\<close>

definition body_flat :: "body \<Rightarrow> bytes" where
  "body_flat b = flat (src_reader (b_src b))"

lemma src_Read_consumes:
  "src_Read k s = ((p, e), s') \<Longrightarrow>
   length (flat (src_reader s')) + length p \<le> length (flat (src_reader s))"
proof (cases s)
  case (SrcChunked cr)
  then show "src_Read k s = ((p, e), s') \<Longrightarrow> ?thesis"
    by (auto split: prod.splits dest: cr_Read_consumes)
next
  case (SrcLimited n r)
  then show "src_Read k s = ((p, e), s') \<Longrightarrow> ?thesis"
    by (auto split: prod.splits if_splits dest!: Read_flat)
next
  case (SrcReader r)
  then show "src_Read k s = ((p, e), s') \<Longrightarrow> ?thesis"
    by (auto split: prod.splits dest!: Read_flat)
qed

lemma src_reader_set [simp]: "src_reader (set_reader r s) = r"
  by (cases s) simp_all

lemma readLocked_consumes:
  assumes "readLocked k b = ((p, None), b')"
  shows "length (body_flat b') + length p \<le> length (body_flat b)"
proof -
  obtain p1 e1 s1 where rd: "src_Read k (b_src b) = ((p1, e1), s1)" by (metis surj_pair)
  from src_Read_consumes [OF this] assms rd show ?thesis
    by (auto simp: readLocked_def body_flat_def split: if_splits prod.splits option.splits)
qed

text \<open>
  \<open>io.CopyBuffer\<close> from a body with a buffer of \<open>k\<close> bytes into a writer given by its \<open>Write\<close>;
  \<open>lim\<close> is the bound of an \<open>io.LimitReader\<close> around the body, when there is one. The result is the
  number of bytes read and the error; with no error the bytes read are the bytes written. A read that returns nothing and no error does not occur
  (\<open>readLocked_progress\<close>).
\<close>

fun limited_Read :: "nat \<Rightarrow> int option \<Rightarrow> body \<Rightarrow> (bytes \<times> io_error option) \<times> int option \<times> body" where
  "limited_Read k None b = (case body_Read k b of (p, b') \<Rightarrow> (p, None, b'))"
| "limited_Read k (Some n) b =
     (if n \<le> 0 then (([], Some EOF), Some n, b)
      else case body_Read (if int k > n then nat n else k) b of
        ((p, e), b') \<Rightarrow> ((p, e), Some (n - int (length p)), b'))"

lemma limited_Read_consumes:
  "limited_Read k lim b = ((p, None), lim', b') \<Longrightarrow> length (body_flat b') + length p \<le> length (body_flat b)"
  by (cases lim) (auto simp: body_Read_def split: if_splits prod.splits dest: readLocked_consumes)

function copy_body ::
  "(bytes \<Rightarrow> 'w \<Rightarrow> io_error option \<times> 'w) \<Rightarrow> nat \<Rightarrow> int option \<Rightarrow> body \<Rightarrow> 'w \<Rightarrow>
     (nat \<times> io_error option) \<times> body \<times> 'w" where
  "copy_body wr k lim b w =
     (case limited_Read k lim b of
        ((p, er), lim', b') \<Rightarrow>
          (case (if p = [] then (None, w) else wr p w) of
             (Some ew, w') \<Rightarrow> ((length p, Some ew), b', w')
           | (None, w') \<Rightarrow>
               (case er of
                  Some e \<Rightarrow> ((length p, if e = EOF then None else Some e), b', w')
                | None \<Rightarrow>
                    if p = [] then ((0, Some (OtherError ''no progress'')), b', w')
                    else case copy_body wr k lim' b' w' of
                      ((n, err), b'', w'') \<Rightarrow> ((length p + n, err), b'', w''))))"
  by pat_completeness auto
termination
  by (relation "measure (\<lambda>(wr, k, lim, b, w). length (body_flat b))")
    (auto dest!: limited_Read_consumes [OF sym] simp: neq_Nil_conv)

declare copy_body.simps [simp del]

definition discard :: "bytes \<Rightarrow> unit \<Rightarrow> io_error option \<times> unit" where
  "discard p u = (None, ())"

definition body_Close :: "body \<Rightarrow> io_error option \<times> body" where
  "body_Close b =
     (if closed b then (None, b)
      else if sawEOF b then (None, b\<lparr>closed := True\<rparr>)
      else if \<not> b_hdr b \<and> closing b then (None, b\<lparr>closed := True\<rparr>)
      else case copy_body discard 8192 None b () of
        ((n, err), b', _) \<Rightarrow> (err, b'\<lparr>closed := True\<rparr>))"

section \<open>What a body delivers\<close>

lemma Peek_flat:
  assumes "wf_bufr r" "n \<le> cap r"
  obtains r' where "Peek n r = (take n (flat r), r')" "flat r' = flat r" "wf_bufr r'"
    "at_end r' = at_end r" "cap r' = cap r" "take n (buffered r') = take n (flat r)"
  using peek_fill_flat [OF assms(1), of n] assms(2)
  by (auto simp: Peek_def Let_def min_absorb1)

lemma Discard_flat:
  "take n (buffered r) = take n (flat r) \<Longrightarrow> n \<le> length (flat r) \<Longrightarrow> flat (Discard n r) = drop n (flat r)"
proof -
  assume t: "take n (buffered r) = take n (flat r)" and n: "n \<le> length (flat r)"
  then have "n \<le> length (buffered r)" by (metis length_take min.absorb_iff2 min.commute)
  then show ?thesis by (simp add: Discard_def flat_def)
qed

definition after_chunks :: "bytes \<times> io_error \<times> bytes \<Rightarrow> bytes \<times> io_error \<times> bytes" where
  "after_chunks m =
     (case m of (d, e, rest) \<Rightarrow>
        if e \<noteq> EOF then (d, e, rest)
        else if length rest < 2 then (d, errTrailerEOF, rest)
        else (d, EOF, drop 2 rest))"

definition meaning :: "body \<Rightarrow> bytes \<times> io_error \<times> bytes" where
  "meaning b =
     (if sawEOF b then ([], EOF, body_flat b)
      else case b_src b of
        SrcLimited n r \<Rightarrow>
          if int (length (flat r)) < n
          then (flat r, if at_end r = EOF then ErrUnexpectedEOF else at_end r, [])
          else (take (nat n) (flat r), EOF, drop (nat n) (flat r))
      | SrcReader r \<Rightarrow> (flat r, at_end r, [])
      | SrcChunked cr \<Rightarrow> after_chunks (pending cr))"

text \<open>The body has no trailer fields: the last chunk is followed by a blank line or cut short.\<close>

definition no_trailer :: "bytes \<times> io_error \<times> bytes \<Rightarrow> bool" where
  "no_trailer m =
     (case m of (d, e, rest) \<Rightarrow> e = EOF \<longrightarrow> length rest < 2 \<or> take 2 rest = CRLF)"

definition wf_body :: "body \<Rightarrow> bool" where
  "wf_body b \<longleftrightarrow> wf_bufr (src_reader (b_src b)) \<and> \<not> sawEOF b \<and> \<not> closed b \<and>
     (case b_src b of
        SrcChunked cr \<Rightarrow> b_hdr b \<and> cr_inv cr \<and> no_trailer (pending cr)
      | _ \<Rightarrow> \<not> b_hdr b)"

lemma no_trailer_prepend [simp]: "no_trailer (prepend b m) = no_trailer m"
  by (cases m) (simp add: no_trailer_def)

lemma after_chunks_prepend: "after_chunks (prepend b m) = prepend b (after_chunks m)"
  by (cases m) (simp add: after_chunks_def)

lemma readTrailer_plain:
  assumes "wf_bufr r" "length (flat r) < 2 \<or> take 2 (flat r) = CRLF"
  shows "case readTrailer r tr of (e, tr', r') \<Rightarrow>
     if length (flat r) < 2 then e = Some errTrailerEOF \<and> flat r' = flat r
     else e = None \<and> tr' = tr \<and> flat r' = drop 2 (flat r) \<and> wf_bufr r'"
proof -
  have "2 \<le> cap r" using assms(1) by (simp add: wf_bufr_def)
  with Peek_flat [OF assms(1)] obtain r' where
    r': "Peek 2 r = (take 2 (flat r), r')" "flat r' = flat r" "wf_bufr r'" "take 2 (buffered r') = take 2 (flat r)"
    by metis
  show ?thesis
  proof (cases "length (flat r) < 2")
    case True
    then have "take 2 (flat r) \<noteq> CRLF" by (auto simp: CRLF_def dest: arg_cong [of _ _ length])
    with True r' show ?thesis by (simp add: readTrailer_def)
  next
    case False
    moreover have "flat (Discard 2 r') = drop 2 (flat r)" using Discard_flat [of 2 r'] r' False by simp
    moreover have "wf_bufr (Discard 2 r')" using r'(3) by (auto simp: wf_bufr_def Discard_def)
    ultimately show ?thesis using r' assms(2) by (simp add: readTrailer_def)
  qed
qed

lemma readLocked_chunked:
  assumes "wf_body b" "0 < k" "b_src b = SrcChunked cr" "readLocked k b = ((p, er), b')"
  shows "case er of
      None \<Rightarrow> p \<noteq> [] \<and> meaning b = prepend p (meaning b') \<and> wf_body b'
    | Some e \<Rightarrow> meaning b = (p, e, body_flat b')"
proof -
  obtain p1 e1 cr1 where rd: "cr_Read k cr = ((p1, e1), cr1)" by (metis surj_pair)
  have inv: "cr_inv cr" and wf: "no_trailer (pending cr)" "b_hdr b" "\<not> sawEOF b" "\<not> closed b"
    using assms(1,3) by (auto simp: wf_body_def)
  from cr_Read_pending [OF inv assms(2) rd] have
    c: "cr_inv cr1" "pending cr = prepend p1 (pending cr1)" "e1 = cr_err cr1" "e1 = None \<longrightarrow> p1 \<noteq> []" by auto
  have mb: "meaning b = prepend p1 (after_chunks (pending cr1))"
    using wf assms(3) c(2) by (simp add: meaning_def after_chunks_prepend)
  have wr: "wf_bufr (cr_r cr1)" using c(1) by (simp add: cr_inv_def)
  show ?thesis
  proof (cases e1)
    case None
    then have "p = p1" "er = None" "b' = b\<lparr>b_src := SrcChunked cr1\<rparr>"
      using assms(3,4) rd wf by (auto simp: readLocked_def limit_left_def)
    with None c mb wf wr show ?thesis by (auto simp: meaning_def wf_body_def)
  next
    case (Some e)
    then have pend: "pending cr1 = ([], e, flat (cr_r cr1))" using c(3) by (simp add: pending_def)
    show ?thesis
    proof (cases "e = EOF")
      case False
      then have "p = p1" "er = Some e" "b' = b\<lparr>b_src := SrcChunked cr1\<rparr>"
        using assms(3,4) rd wf Some by (auto simp: readLocked_def limit_left_def)
      with mb pend False show ?thesis by (simp add: after_chunks_def body_flat_def)
    next
      case True
      have "length (flat (cr_r cr1)) < 2 \<or> take 2 (flat (cr_r cr1)) = CRLF"
        using wf(1) c(2) pend True by (simp add: no_trailer_def)
      note tr = readTrailer_plain [OF wr this, of "b_trailer b"]
      obtain et tr' r' where rt: "readTrailer (cr_r cr1) (b_trailer b) = (et, tr', r')" by (metis surj_pair)
      show ?thesis
        using assms(3,4) rd wf Some True rt tr mb pend
        by (auto simp: readLocked_def after_chunks_def body_flat_def split: if_splits option.splits)
    qed
  qed
qed

lemma readLocked_meaning:
  assumes "wf_body b" "0 < k" "readLocked k b = ((p, er), b')"
  shows "case er of
      None \<Rightarrow> p \<noteq> [] \<and> meaning b = prepend p (meaning b') \<and> wf_body b'
    | Some e \<Rightarrow> meaning b = (p, e, body_flat b')"
proof (cases "b_src b")
  case (SrcChunked cr)
  with assms readLocked_chunked show ?thesis by blast
next
  case (SrcReader r)
  obtain p1 e1 r1 where rd: "Read k r = ((p1, e1), r1)" by (metis surj_pair)
  have wf: "wf_bufr r" "\<not> b_hdr b" "\<not> sawEOF b" "\<not> closed b" using assms(1) SrcReader by (auto simp: wf_body_def)
  from assms(2) wf(1) rd show ?thesis
  proof (cases rule: Read_cases)
    case eof
    with wf SrcReader rd assms(3) show ?thesis
      by (auto simp: readLocked_def limit_left_def meaning_def body_flat_def split: if_splits)
  next
    case data
    then have "p = p1" "er = None" "b' = b\<lparr>b_src := SrcReader r1\<rparr>"
      using assms(3) rd wf SrcReader by (auto simp: readLocked_def limit_left_def)
    with data wf SrcReader show ?thesis by (simp add: meaning_def wf_body_def)
  qed
next
  case (SrcLimited n r)
  have wf: "wf_bufr r" "\<not> b_hdr b" "\<not> sawEOF b" "\<not> closed b" using assms(1) SrcLimited by (auto simp: wf_body_def)
  show ?thesis
  proof (cases "n \<le> 0")
    case True
    with wf SrcLimited assms(3) show ?thesis
      by (auto simp: readLocked_def limit_left_def meaning_def body_flat_def)
  next
    case False
    let ?k = "if int k > n then nat n else k"
    obtain p1 e1 r1 where rd: "Read ?k r = ((p1, e1), r1)" by (metis surj_pair)
    have "0 < ?k" using False assms(2) by auto
    from this wf(1) rd show ?thesis
    proof (cases rule: Read_cases)
      case eof
      with False wf SrcLimited rd assms(3) show ?thesis
        by (auto simp: readLocked_def limit_left_def meaning_def body_flat_def split: if_splits)
    next
      case data
      then have le: "int (length p1) \<le> n" using False by (auto split: if_splits)
      show ?thesis
      proof (cases "n = int (length p1)")
        case True
        then have "p = p1" "er = Some EOF" "b' = b\<lparr>b_src := SrcLimited 0 r1, sawEOF := True\<rparr>"
          using assms(3) rd wf SrcLimited False data by (auto simp: readLocked_def limit_left_def)
        with data wf SrcLimited True show ?thesis by (simp add: meaning_def body_flat_def)
      next
        case more: False
        then have "p = p1" "er = None" "b' = b\<lparr>b_src := SrcLimited (n - int (length p1)) r1\<rparr>"
          using assms(3) rd wf SrcLimited False data by (auto simp: readLocked_def limit_left_def)
        with data wf SrcLimited more le show ?thesis
          by (auto simp: meaning_def wf_body_def nat_diff_distrib)
      qed
    qed
  qed
qed

text \<open>A copy of the whole body into a writer that does not fail.\<close>

lemma copy_body_meaning:
  assumes "I w" "\<And>p w. I w \<Longrightarrow> p \<noteq> [] \<Longrightarrow> fst (wr p w) = None \<and> I (snd (wr p w))" "wf_body b" "0 < k"
    "meaning b = (d, e, rest)"
  shows "case copy_body wr k None b w of ((n, err), b', w') \<Rightarrow>
     n = length d \<and> err = (if e = EOF then None else Some e) \<and> body_flat b' = rest \<and>
     (\<exists>ps. concat ps = d \<and> list_all (\<lambda>p. p \<noteq> [] ) ps \<and> w' = fold (\<lambda>p w. snd (wr p w)) ps w)"
  using assms
proof (induction wr k "None :: int option" b w arbitrary: d rule: copy_body.induct)
  case (1 wr k b w)
  obtain p er b1 where rl: "readLocked k b = ((p, er), b1)" by (metis surj_pair)
  note m = readLocked_meaning [OF "1.prems"(3,4) rl]
  have lr: "limited_Read k None b = ((p, er), None, b1)"
    using rl "1.prems"(3) by (simp add: body_Read_def wf_body_def)
  obtain w1 where w1: "(if p = [] then (None, w) else wr p w) = (None, w1)"
    "w1 = fold (\<lambda>p w. snd (wr p w)) (if p = [] then [] else [p]) w" "I w1"
    using "1.prems"(1) "1.prems"(2) [of w p] by (cases "wr p w") auto
  note step = copy_body.simps [of wr k None b w, unfolded lr prod.case w1(1) option.case]
  show ?case
  proof (cases er)
    case (Some e')
    with m "1.prems"(5) have "d = p" "e = e'" "rest = body_flat b1" by auto
    with step Some w1(2) show ?thesis
      by (auto intro!: exI [of _ "if p = [] then [] else [p]"])
  next
    case None
    with m have p: "p \<noteq> []" "meaning b = prepend p (meaning b1)" "wf_body b1" by auto
    obtain d1 e1 rest1 where "meaning b1 = (d1, e1, rest1)" by (metis surj_pair)
    with p "1.prems"(5) have d: "d = p @ d1" "meaning b1 = (d1, e, rest)" by auto
    obtain n err b2 w2 where rec: "copy_body wr k None b1 w1 = ((n, err), b2, w2)" by (metis surj_pair)
    from "1.hyps" [OF lr [symmetric] refl refl w1(1) [symmetric] refl None p(1) w1(3) "1.prems"(2) p(3) "1.prems"(4) d(2)] rec
    obtain ps where "n = length d1" "err = (if e = EOF then None else Some e)" "body_flat b2 = rest"
      "concat ps = d1" "list_all (\<lambda>p. p \<noteq> []) ps" "w2 = fold (\<lambda>p w. snd (wr p w)) ps w1" by auto
    with step None p d rec w1(2) show ?thesis by (auto intro!: exI [of _ "p # ps"])
  qed
qed

lemma readTrailer_not_EOF: "readTrailer r tr = (Some e, tr', r') \<Longrightarrow> e \<noteq> EOF"
  by (auto simp: readTrailer_def errTrailerEOF_def errLongTrailer_def split: if_splits prod.splits option.splits bool.splits)

lemma readLocked_sawEOF: "readLocked k b = ((p, Some EOF), b') \<Longrightarrow> sawEOF b' \<and> closed b' = closed b"
  by (auto simp: readLocked_def split: if_splits prod.splits option.splits dest: readTrailer_not_EOF)

lemma readLocked_open: "readLocked k b = ((p, None), b') \<Longrightarrow> closed b' = closed b"
  by (auto simp: readLocked_def split: if_splits prod.splits option.splits)

lemma copy_body_sawEOF:
  "copy_body wr k None b w = ((n, None), b', w') \<Longrightarrow> \<not> closed b \<Longrightarrow> sawEOF b' \<and> \<not> closed b'"
proof (induction wr k "None :: int option" b w arbitrary: n rule: copy_body.induct)
  case (1 wr k b w)
  obtain p er b1 where rl: "readLocked k b = ((p, er), b1)" by (metis surj_pair)
  have lr: "limited_Read k None b = ((p, er), None, b1)"
    using rl "1.prems"(2) by (simp add: body_Read_def)
  obtain ew w1 where w1: "(if p = [] then (None, w) else wr p w) = (ew, w1)" by fastforce
  note step = copy_body.simps [of wr k None b w, unfolded lr prod.case w1]
  have ew: "ew = None" using step "1.prems"(1) by (cases ew) auto
  show ?case
  proof (cases er)
    case (Some e')
    with step "1.prems"(1) ew have "e' = EOF" "b' = b1" by (auto split: if_splits)
    with rl Some readLocked_sawEOF "1.prems"(2) show ?thesis by blast
  next
    case None
    with step "1.prems"(1) ew have p: "p \<noteq> []" by auto
    obtain n1 err b2 w2 where rec: "copy_body wr k None b1 w1 = ((n1, err), b2, w2)" by (metis surj_pair)
    with step "1.prems"(1) ew None p have "err = None" "b2 = b'" "w2 = w'" by auto
    moreover have "\<not> closed b1" using readLocked_open rl None "1.prems"(2) by blast
    ultimately show ?thesis
      using "1.hyps" [OF lr [symmetric] refl refl w1 [symmetric] ew None p] rec by simp
  qed
qed

lemma Read_length: "Read k r = ((b, e), r') \<Longrightarrow> length b \<le> k"
  by (auto simp: Read_def dest: conn_read_SomeD split: if_splits option.splits)

text \<open>A limit that equals the length a body is limited to changes nothing.\<close>

lemma limited_Read_same:
  assumes "b_src b = SrcLimited m r" "0 < m" "\<not> sawEOF b" "\<not> closed b"
  shows "body_Read (if int k > m then nat m else k) b = body_Read k b"
  using assms by (simp add: body_Read_def readLocked_def)

lemma copy_body_limited_same:
  "b_src b = SrcLimited m r \<Longrightarrow> 0 < m \<Longrightarrow> \<not> sawEOF b \<Longrightarrow> \<not> closed b \<Longrightarrow> \<not> b_hdr b \<Longrightarrow>
   copy_body wr k (Some m) b w = copy_body wr k None b w"
proof (induction wr k "None :: int option" b w arbitrary: m r rule: copy_body.induct)
  case (1 wr k b w)
  obtain p er b1 where rl: "body_Read k b = ((p, er), b1)" by (metis surj_pair)
  then have lr: "limited_Read k None b = ((p, er), None, b1)"
    and lr': "limited_Read k (Some m) b = ((p, er), Some (m - int (length p)), b1)"
    using limited_Read_same [OF "1.prems"(1-4), of k] "1.prems"(2) by simp_all
  obtain ew w1 where w1: "(if p = [] then (None, w) else wr p w) = (ew, w1)" by fastforce
  note step = copy_body.simps [of wr k None b w, unfolded lr prod.case w1]
  note step' = copy_body.simps [of wr k "Some m" b w, unfolded lr' prod.case w1]
  show ?case
  proof (cases "ew = None \<and> er = None \<and> p \<noteq> []")
    case False
    then show ?thesis unfolding step step' by (auto split: option.split)
  next
    case True
    obtain p1 e1 r1 where rd: "Read (if int k > m then nat m else k) r = ((p1, e1), r1)" by (metis surj_pair)
    from Read_length [OF rd] have "length p1 \<le> (if int k > m then nat m else k)" .
    then have "p = p1" "b1 = b\<lparr>b_src := SrcLimited (m - int (length p)) r1\<rparr>" "0 < m - int (length p)"
      using rl rd "1.prems" True by (auto simp: body_Read_def readLocked_def limit_left_def split: if_splits)
    with "1.hyps" [OF lr [symmetric] refl refl w1 [symmetric], of "m - int (length p)" r1] "1.prems" True
    show ?thesis unfolding step step' by simp
  qed
qed

lemma WriteString_unlimited: "room w = None \<Longrightarrow> WriteString p w = (None, w\<lparr>out := out w @ p\<rparr>)"
  by (simp add: WriteString_def)

definition new_body :: "src \<Rightarrow> bool \<Rightarrow> bool \<Rightarrow> body" where
  "new_body s hdr cl = \<lparr>b_src = s, b_hdr = hdr, b_trailer = None, closing = cl, sawEOF = False, closed = False\<rparr>"

definition append_out :: "bytes \<Rightarrow> bytes \<Rightarrow> io_error option \<times> bytes" where
  "append_out p w = (None, w @ p)"

lemma fold_append_out: "fold (\<lambda>p w. w @ p) ps w = w @ concat ps"
  by (induction ps arbitrary: w) simp_all

lemma copy_append_out:
  assumes "wf_body b" and "0 < k" and "meaning b = (d, e, rest)"
  shows "case copy_body append_out k None b [] of ((n, err), b', w') \<Rightarrow>
     w' = d \<and> n = length d \<and> err = (if e = EOF then None else Some e) \<and> body_flat b' = rest"
  using copy_body_meaning [of "\<lambda>_. True" "[]" append_out, OF _ _ assms]
  by (auto simp: append_out_def [of _ _] fold_append_out split: prod.splits)

text \<open>
  (C18) Copying a body delivers exactly what its framing says, whatever the segments of the
  connection and the size of the copy buffer: the first \<open>n\<close> bytes for a content length \<open>n\<close> (an
  error if there are fewer), the decoded chunks, or everything up to the end of the connection;
  and it leaves the connection at the first byte after the message.
\<close>
theorem body_copy_exact:
  assumes "wf_body b" and "0 < k" and "meaning b = (d, e, rest)"
  shows "case copy_body append_out k None b [] of ((n, err), b', w') \<Rightarrow>
     w' = d \<and> n = length d \<and> err = (if e = EOF then None else Some e) \<and> body_flat b' = rest"
  using assms by (rule copy_append_out)

theorem body_copy_exact_witness:
  "case copy_body append_out 3 None
      (new_body (SrcLimited 5 (NewReaderSize 4095 [''he'', ''lloGET /''] EOF)) False False) [] of
     ((n, err), b', w') \<Rightarrow> w' = ''hello'' \<and> n = 5 \<and> err = None \<and> body_flat b' = ''GET /''"
proof -
  let ?b = "new_body (SrcLimited 5 (NewReaderSize 4095 [''he'', ''lloGET /''] EOF)) False False"
  have "wf_body ?b" by (simp add: new_body_def wf_body_def NewReaderSize_def wf_bufr_def)
  moreover have "meaning ?b = (''hello'', EOF, ''GET /'')"
    by (simp add: new_body_def meaning_def NewReaderSize_def flat_def)
  ultimately show ?thesis using body_copy_exact [of ?b 3] by (auto split: prod.splits)
qed

section \<open>A chunked body that is cut\<close>

lemma strict_prefix_append_cases:
  assumes "strict_prefix s (x @ y)"
  obtains "strict_prefix s x" | s' where "s = x @ s'" "strict_prefix s' y"
proof -
  from assms have "prefix s (x @ y)" "s \<noteq> x @ y" by (simp_all add: strict_prefix_def)
  then consider "prefix s x" | us where "s = x @ us" "prefix us y" by (auto simp: prefix_append)
  then show thesis
  proof cases
    case 1
    show thesis
    proof (cases "s = x")
      case True
      with \<open>s \<noteq> x @ y\<close> that(2) [of "[]"] show thesis by (simp add: strict_prefix_def)
    next
      case False
      with 1 that(1) show thesis by (simp add: strict_prefix_def)
    qed
  next
    case 2
    with \<open>s \<noteq> x @ y\<close> that(2) [of us] show thesis by (auto simp: strict_prefix_def)
  qed
qed

lemma strict_prefix_CRLF: "strict_prefix s CRLF \<Longrightarrow> length s < 2"
  by (auto simp: CRLF_def dest: prefix_length_less)

lemma chunk_line_cut:
  assumes "strict_prefix s (h @ CRLF)" "length h \<le> 16" "18 \<le> c" "LF \<notin> set h"
  shows "chunk_line c EOF s = Inl (ErrUnexpectedEOF, [])"
proof -
  have "length s < c" using prefix_length_less [OF assms(1)] assms(2,3) by (simp add: CRLF_def)
  moreover have "strict_prefix s ((h @ [CR]) @ [LF])" using assms(1) by (simp add: CRLF_def)
  then have "prefix s (h @ [CR])" unfolding strict_prefix_def prefix_snoc by blast
  then have "LF \<notin> set s" using assms(4) by (auto dest!: set_mono_prefix)
  then have "Index LF s = None" by (simp add: Index_None_iff)
  ultimately show ?thesis by (simp add: chunk_line_def)
qed

definition cut_short :: "bytes \<Rightarrow> bytes \<times> io_error \<times> bytes \<Rightarrow> bool" where
  \<comment> \<open>part of the data, then an error, or the end of the chunks without a blank line\<close>
  "cut_short d m = (case m of (d', e, rest) \<Rightarrow> prefix d' d \<and> (e = ErrUnexpectedEOF \<or> e = EOF \<and> length rest < 2))"

lemma cut_short_prepend: "cut_short d m \<Longrightarrow> cut_short (b @ d) (prepend b m)"
  by (cases m) (simp add: cut_short_def)

lemma cut_chunk:
  assumes "d \<noteq> []" "length d < 2 ^ 64" "18 \<le> c" "strict_prefix s (hex_of_nat (length d) @ CRLF @ d @ CRLF @ y)"
    and "\<And>s'. strict_prefix s' y \<Longrightarrow> cut_short z (chunked_decode c EOF s')"
  shows "cut_short (d @ z) (chunked_decode c EOF s)"
proof -
  let ?h = "hex_of_nat (length d)"
  have h: "length ?h \<le> 16" using hex_of_nat_length [of 16 "length d"] assms(2) by simp
  have dec: "chunked_decode c EOF (?h @ CRLF @ t) = decode_data c EOF (length d) t" for t
  proof -
    have "chunk_line c EOF (?h @ CRLF @ t) = Inr (?h, t)"
      by (rule chunk_line_hex [OF h]) (use assms(3) hex_not_special in auto)
    moreover have un: "unat (of_nat (length d) :: 64 word) = length d"
      using assms(2) by (simp add: unsigned_of_nat take_bit_nat_eq_self)
    moreover have "(of_nat (length d) :: 64 word) \<noteq> 0" using un assms(1) by (metis length_0_conv unat_0)
    ultimately show ?thesis by (subst chunked_decode_unfold) (simp add: parseHexUint_hex [OF assms(2)])
  qed
  have "strict_prefix s ((?h @ CRLF) @ d @ CRLF @ y)" using assms(4) by simp
  then show ?thesis
  proof (cases rule: strict_prefix_append_cases)
    case 1
    then have "chunk_line c EOF s = Inl (ErrUnexpectedEOF, [])"
      using chunk_line_cut h assms(3) hex_not_special(1) by blast
    then show ?thesis by (subst chunked_decode_unfold) (simp add: cut_short_def)
  next
    case (2 s1)
    from 2(2) show ?thesis
    proof (cases rule: strict_prefix_append_cases)
      case 1
      then have "length s1 < length d" "prefix s1 (d @ z)"
        by (auto simp: prefix_length_less strict_prefix_def prefix_append)
      with dec [of s1] 2(1) show ?thesis by (simp add: decode_data_def cut_short_def)
    next
      case (2 s2)
      note s1 = this(1)
      have e: "chunked_decode c EOF s = prepend d (decode_end c EOF s2)"
        using dec [of s1] \<open>s = (?h @ CRLF) @ s1\<close> s1 by (simp add: decode_data_def)
      from 2(2) show ?thesis
      proof (cases rule: strict_prefix_append_cases)
        case 1
        then have "length s2 < 2" by (rule strict_prefix_CRLF)
        with e show ?thesis by (simp add: decode_end_def line_end_def cut_short_def)
      next
        case (2 s3)
        then have "decode_end c EOF s2 = chunked_decode c EOF s3" by (simp add: decode_end_def CRLF_def)
        with e assms(5) [OF 2(2)] show ?thesis by (simp add: cut_short_prepend)
      qed
    qed
  qed
qed

lemma cut_chunks:
  assumes "18 \<le> c" "list_all (\<lambda>d. length d < 2 ^ 64) ds" "strict_prefix s (concat (map chunk_wire ds) @ ''0'' @ CRLF @ CRLF)"
  shows "cut_short (concat ds) (chunked_decode c EOF s)"
  using assms(2,3)
proof (induction ds arbitrary: s)
  case Nil
  then have "strict_prefix s ((''0'' @ CRLF) @ CRLF)" by simp
  then show ?case
  proof (cases rule: strict_prefix_append_cases)
    case 1
    then have "chunk_line c EOF s = Inl (ErrUnexpectedEOF, [])"
      by (rule chunk_line_cut) (use assms(1) in \<open>simp_all add: LF_def\<close>)
    then show ?thesis by (subst chunked_decode_unfold) (simp add: cut_short_def)
  next
    case (2 s')
    have "chunked_decode c EOF (''0'' @ CRLF @ s') = ([], EOF, s')"
      using chunked_decode_encode [OF assms(1), of "[]" EOF s'] by simp
    with 2 strict_prefix_CRLF show ?thesis by (simp add: cut_short_def)
  qed
next
  case (Cons d ds)
  show ?case
  proof (cases "d = []")
    case True
    with Cons show ?thesis by (simp add: chunk_wire_def)
  next
    case False
    with Cons.prems have s: "strict_prefix s (hex_of_nat (length d) @ CRLF @ d @ CRLF @ concat (map chunk_wire ds) @ ''0'' @ CRLF @ CRLF)"
      by (simp add: chunk_wire_def [of d])
    from cut_chunk [OF False _ assms(1) s, of "concat ds"] Cons show ?thesis by simp
  qed
qed

text \<open>
  (C34) A chunked body that is cut never looks complete. Wherever the text of a chunked body, as the
  chunked writer and the blank line after it make it, is cut off (in a size line, inside a chunk,
  between two chunks, before the last one or before the blank line), and however the bytes arrive,
  copying the body delivers a prefix of its data and reports an error, never a quiet end.
\<close>
theorem truncated_chunked_body_is_an_error:
  assumes "list_all (\<lambda>d. length d < 2 ^ 64) ds" and "strict_prefix (flat r) (out (snd (write_chunks ds buffer)) @ CRLF)"
    and "wf_bufr r" and "18 \<le> cap r" and "at_end r = EOF" and "0 < k"
  shows "case copy_body append_out k None (new_body (SrcChunked (NewChunkedReader r)) True cl) [] of
     ((m, err), b', w') \<Rightarrow> prefix w' (concat ds) \<and> (err = Some ErrUnexpectedEOF \<or> err = Some errTrailerEOF)"
proof -
  let ?b = "new_body (SrcChunked (NewChunkedReader r)) True cl"
  obtain d e rest where p: "pending (NewChunkedReader r) = (d, e, rest)" by (metis surj_pair)
  have "cut_short (concat ds) (d, e, rest)"
    using cut_chunks [OF assms(4,1), of "flat r"] assms(2,5) p by (simp add: pending_def NewChunkedReader_def write_chunks_out)
  then have c: "prefix d (concat ds)" "e = ErrUnexpectedEOF \<or> e = EOF \<and> length rest < 2" by (simp_all add: cut_short_def)
  then have "wf_body ?b"
    using assms(3) p by (auto simp: new_body_def wf_body_def no_trailer_def cr_inv_def NewChunkedReader_def)
  moreover obtain e' where "meaning ?b = (d, e', rest)" "e' = ErrUnexpectedEOF \<or> e' = errTrailerEOF"
    using p c(2) by (auto simp: meaning_def new_body_def after_chunks_def)
  ultimately show ?thesis
    using copy_append_out [of ?b k d e' rest] assms(6) c(1) by (auto simp: errTrailerEOF_def split: prod.splits)
qed

theorem truncated_chunked_body_is_an_error_witness:
  "case copy_body append_out 16 None
      (new_body (SrcChunked (NewChunkedReader (NewReaderSize 4095 [''2'' @ CRLF @ ''hi'', CRLF @ ''3'' @ CRLF @ ''t''] EOF))) True False) [] of
     ((m, err), b', w') \<Rightarrow> prefix w' ''hithe'' \<and> (err = Some ErrUnexpectedEOF \<or> err = Some errTrailerEOF)"
proof -
  let ?r = "NewReaderSize 4095 [''2'' @ CRLF @ ''hi'', CRLF @ ''3'' @ CRLF @ ''t''] EOF"
  have "out (snd (write_chunks [''hi'', ''the''] buffer)) @ CRLF =
      flat ?r @ ''he'' @ CRLF @ ''0'' @ CRLF @ CRLF"
    unfolding write_chunks_out by (simp add: chunk_wire_def hex_of_nat.simps hex_digit_def char_eval NewReaderSize_def flat_def)
  then have p: "strict_prefix (flat ?r) (out (snd (write_chunks [''hi'', ''the''] buffer)) @ CRLF)"
    by (auto simp: strict_prefix_def)
  from truncated_chunked_body_is_an_error [OF _ p, of 16 False] show ?thesis
    by (simp add: NewReaderSize_def wf_bufr_def)
qed
end
