(* ===== verification/Framing.thy ===== *)
theory Framing
  imports Body Strconv
begin

text \<open>
  How a message is framed: the transfer reader and the transfer writer of
  \<open>pkg/http/transfer.go\<close>. The reader decides from the header of a message which body follows
  (\<open>readTransfer\<close>); the writer decides which framing header a forwarded message carries and
  copies the body (\<open>newTransferWriter\<close>, \<open>writeHeader\<close>, \<open>writeBody\<close>). Lengths are Go's \<open>int64\<close>
  values as integers: they come from \<open>ParseInt\<close>, which bounds them, and \<open>-1\<close>. Formatted error
  texts are kept without their arguments. A trace is never set by the program.
\<close>

section \<open>Encodings and lengths\<close>

definition chunked :: "string list \<Rightarrow> bool" where
  "chunked te \<longleftrightarrow> te \<noteq> [] \<and> hd te = ''chunked''"

definition isIdentity :: "string list \<Rightarrow> bool" where
  "isIdentity te \<longleftrightarrow> te = [''identity'']"

definition noResponseBodyExpected :: "string \<Rightarrow> bool" where
  "noResponseBodyExpected requestMethod \<longleftrightarrow> requestMethod = ''HEAD''"

definition bodyAllowedForStatus :: "int \<Rightarrow> bool" where
  "bodyAllowedForStatus status =
     (if status \<ge> 100 \<and> status \<le> 199 then False
      else if status = 204 then False
      else if status = 304 then False
      else True)"

definition suppressedHeaders304 :: "string list" where
  "suppressedHeaders304 = [''Content-Type'', ''Content-Length'', ''Transfer-Encoding'']"

definition suppressedHeadersNoBody :: "string list" where
  "suppressedHeadersNoBody = [''Content-Length'', ''Transfer-Encoding'']"

definition suppressedHeaders :: "int \<Rightarrow> string list" where
  "suppressedHeaders status =
     (if status = 304 then suppressedHeaders304
      else if \<not> bodyAllowedForStatus status then suppressedHeadersNoBody
      else [])"

definition protoAtLeast :: "int \<Rightarrow> int \<Rightarrow> int \<Rightarrow> int \<Rightarrow> bool" where
  "protoAtLeast major minor m n \<longleftrightarrow> major > m \<or> (major = m \<and> minor \<ge> n)"

definition parseContentLength :: "string \<Rightarrow> io_error + int" where
  "parseContentLength cl0 =
     (let cl = TrimSpace cl0 in
      if cl = '''' then Inr (- 1)
      else case ParseInt64 cl of
        Inl e \<Rightarrow> Inl (badStringError ''bad Content-Length'' cl)
      | Inr n \<Rightarrow> if n < 0 then Inl (badStringError ''bad Content-Length'' cl) else Inr n)"

fun encodings :: "string list \<Rightarrow> string list \<Rightarrow> io_error + string list" where
  "encodings te [] = Inr te"
| "encodings te (x # xs) =
     (let encoding = ToLower (TrimSpace x) in
      if encoding = ''identity'' then Inr te
      else if encoding \<noteq> ''chunked'' then Inl (badStringError ''unsupported transfer encoding'' encoding)
      else encodings (te @ [encoding]) xs)"

text \<open>The new header and the encodings. A key that is present has at least one value.\<close>

definition fixTransferEncoding :: "int \<Rightarrow> int \<Rightarrow> Header \<Rightarrow> io_error + (Header \<times> string list)" where
  "fixTransferEncoding major minor h0 =
     (case map_of h0 ''Transfer-Encoding'' of
        None \<Rightarrow> Inr (h0, [])
      | Some raw \<Rightarrow>
          let h = AList.delete ''Transfer-Encoding'' h0 in
          if \<not> protoAtLeast major minor 1 1 then Inr (h, [])
          else rbind (encodings [] (Split (hd raw) (CHR '',''))) (\<lambda>te.
            if length te > 1 then Inl (badStringError ''too many transfer encodings'' (Join te '',''))
            else if length te > 0 then Inr (AList.delete ''Content-Length'' h, te)
            else Inr (h, [])))"

definition errManyLengths :: io_error where
  "errManyLengths = OtherError ''http: message cannot contain multiple Content-Length headers''"
definition errMethodLength :: io_error where
  "errMethodLength = OtherError ''http: method cannot contain a Content-Length''"

definition dedup_length :: "Header \<Rightarrow> io_error + Header" where
  "dedup_length h =
     (case field_values h ''Content-Length'' of
        c # d # cs \<Rightarrow>
          if list_all (\<lambda>ct. TrimSpace c = TrimSpace ct) (d # cs)
          then Inr (Add ''Content-Length'' (TrimSpace c) (Del ''Content-Length'' h))
          else Inl errManyLengths
      | _ \<Rightarrow> Inr h)"

definition fixLength ::
  "bool \<Rightarrow> int \<Rightarrow> string \<Rightarrow> Header \<Rightarrow> string list \<Rightarrow> io_error + (int \<times> Header)" where
  "fixLength isResponse status requestMethod header0 te =
     rbind (dedup_length header0) (\<lambda>header.
       let contentLens = field_values header ''Content-Length'' in
       if noResponseBodyExpected requestMethod then
         (if \<not> isResponse \<and> contentLens \<noteq> [] \<and> contentLens \<noteq> [''0''] then Inl errMethodLength
          else Inr (0, header))
       else if status div 100 = 1 then Inr (0, header)
       else if status = 204 \<or> status = 304 then Inr (0, header)
       else if chunked te then Inr (- 1, header)
       else
         let cl = (if length contentLens = 1 then TrimSpace (hd contentLens) else '''') in
         if cl \<noteq> '''' then rbind (parseContentLength cl) (\<lambda>n. Inr (n, header))
         else if \<not> isResponse then Inr (0, Del ''Content-Length'' header)
         else Inr (- 1, Del ''Content-Length'' header))"

definition shouldClose :: "int \<Rightarrow> int \<Rightarrow> Header \<Rightarrow> bool \<Rightarrow> bool \<times> Header" where
  "shouldClose major minor header removeCloseHeader =
     (if major < 1 then (True, header)
      else
        let conv = field_values header ''Connection'';
            hasClose = HeaderValuesContainsToken conv ''close'' in
        if major = 1 \<and> minor = 0 then
          (hasClose \<or> \<not> HeaderValuesContainsToken conv ''keep-alive'', header)
        else
          (hasClose, if hasClose \<and> removeCloseHeader then Del ''Connection'' header else header))"

definition foreachHeaderElement :: "string \<Rightarrow> string list" where
  "foreachHeaderElement v0 =
     (let v = TrimString v0 in
      if v = '''' then []
      else if \<not> Contains v (CHR '','') then [v]
      else filter (\<lambda>f. f \<noteq> '''') (map TrimString (Split v (CHR '',''))))"

definition forbidden_trailer :: "string \<Rightarrow> bool" where
  "forbidden_trailer key \<longleftrightarrow> key \<in> set [''Transfer-Encoding'', ''Trailer'', ''Content-Length'']"

definition ErrUnexpectedTrailer :: io_error where
  "ErrUnexpectedTrailer = ProtocolError ''trailer header without chunked transfer encoding''"

definition fixTrailer :: "Header \<Rightarrow> string list \<Rightarrow> io_error + (Header option \<times> Header)" where
  "fixTrailer header te =
     (case map_of header ''Trailer'' of
        None \<Rightarrow> Inr (None, header)
      | Some vv \<Rightarrow>
          let h = Del ''Trailer'' header;
              keys = map CanonicalHeaderKey (concat (map foreachHeaderElement vv)) in
          case find forbidden_trailer keys of
            Some key \<Rightarrow> Inl (badStringError ''bad trailer key'' key)
          | None \<Rightarrow>
              let trailer = fold (\<lambda>k t. AList.update k [] t) keys [] in
              if trailer = [] then Inr (None, h)
              else if \<not> chunked te then Inl ErrUnexpectedTrailer
              else Inr (Some trailer, h))"

section \<open>The transfer reader\<close>

text \<open>
  \<open>Prefixed\<close> is a body of which some bytes have been read ahead and are delivered first
  (\<open>io.MultiReader\<close>).
\<close>

datatype Body = NoBody bufr | TheBody body | Prefixed bytes body

fun body_reader :: "Body \<Rightarrow> bufr" where
  "body_reader (NoBody r) = r"
| "body_reader (TheBody b) = src_reader (b_src b)"
| "body_reader (Prefixed p b) = src_reader (b_src b)"

record transferReader =
  t_Header :: Header
  t_Body :: Body
  t_ContentLength :: int
  t_TransferEncoding :: "string list"
  t_Close :: bool
  t_Trailer :: "Header option"

definition choose_body ::
  "string \<Rightarrow> int \<Rightarrow> string list \<Rightarrow> int \<Rightarrow> bool \<Rightarrow> Header option \<Rightarrow> bufr \<Rightarrow> Body" where
  "choose_body requestMethod status te realLength close trailer r =
     (let mk = (\<lambda>s hdr. TheBody \<lparr>b_src = s, b_hdr = hdr, b_trailer = trailer, closing = close,
                               sawEOF = False, closed = False\<rparr>) in
      if chunked te then
        (if noResponseBodyExpected requestMethod \<or> \<not> bodyAllowedForStatus status then NoBody r
         else mk (SrcChunked (NewChunkedReader r)) True)
      else if realLength = 0 then NoBody r
      else if realLength > 0 then mk (SrcLimited realLength r) False
      else if close then mk (SrcReader r) False
      else NoBody r)"

definition readTransfer ::
  "bool \<Rightarrow> int \<Rightarrow> string \<Rightarrow> int \<Rightarrow> int \<Rightarrow> bool \<Rightarrow> Header \<Rightarrow> bufr \<Rightarrow> io_error + transferReader" where
  \<comment> \<open>for a request the status is 200 and \<open>close0\<close> is its field \<open>Close\<close>\<close>
  "readTransfer isResponse status requestMethod major0 minor0 close0 header0 r =
     (let (close1, header1) =
            (if isResponse then shouldClose major0 minor0 header0 True else (close0, header0));
          (major, minor) = (if major0 = 0 \<and> minor0 = 0 then (1, 1) else (major0, minor0)) in
      rbind (fixTransferEncoding major minor header1) (\<lambda>(header2, te).
      rbind (fixLength isResponse status requestMethod header2 te) (\<lambda>(realLength, header3).
      rbind (if isResponse \<and> requestMethod = ''HEAD''
             then parseContentLength (get header3 ''Content-Length'') else Inr realLength)
        (\<lambda>contentLength.
      rbind (fixTrailer header3 te) (\<lambda>(trailer, header4).
        let close = (close1 \<or> isResponse \<and> realLength = - 1 \<and> \<not> chunked te \<and> bodyAllowedForStatus status) in
        Inr \<lparr>t_Header = header4,
             t_Body = choose_body requestMethod status te realLength close trailer r,
             t_ContentLength = contentLength, t_TransferEncoding = te, t_Close = close,
             t_Trailer = trailer\<rparr>)))))"

section \<open>The transfer writer\<close>

definition copy_buffer_size :: nat where "copy_buffer_size = 0xffff"

definition valueOrDefault :: "string \<Rightarrow> string \<Rightarrow> string" where
  "valueOrDefault v d = (if v \<noteq> '''' then v else d)"

definition requestMethodUsuallyLacksBody :: "string \<Rightarrow> bool" where
  "requestMethodUsuallyLacksBody method \<longleftrightarrow>
     method \<in> set [''GET'', ''HEAD'', ''DELETE'', ''OPTIONS'', ''PROPFIND'', ''SEARCH'']"

definition outgoingLength :: "Body option \<Rightarrow> int \<Rightarrow> int" where
  "outgoingLength body contentLength =
     (case body of
        None \<Rightarrow> 0
      | Some (NoBody r) \<Rightarrow> 0
      | _ \<Rightarrow> if contentLength \<noteq> 0 then contentLength else - 1)"

record transferWriter =
  Method :: string
  tw_Body :: "Body option"
  BodyCloser :: "Body option"
  ResponseToHEAD :: bool
  ContentLength :: int
  Close :: bool
  TransferEncoding :: "string list"
  tw_Header :: Header
  Trailer :: "Header option"
  IsResponse :: bool
  FlushHeaders :: bool

text \<open>
  \<open>probeRequestBody\<close> reads one byte of the body in a goroutine and gives up after 200 ms, so its
  outcome (the adjusted body and length) depends on time; it is the argument \<open>probe\<close>.
\<close>

definition shouldSendChunkedRequestBody ::
  "(Body \<Rightarrow> Body option \<times> int) \<Rightarrow> transferWriter \<Rightarrow> bool \<times> transferWriter" where
  "shouldSendChunkedRequestBody probe t =
     (case tw_Body t of
        None \<Rightarrow> (False, t)
      | Some b \<Rightarrow>
          if ContentLength t \<ge> 0 then (False, t)
          else if requestMethodUsuallyLacksBody (Method t) then
            (let (b', n) = probe b; t' = t\<lparr>tw_Body := b', ContentLength := n\<rparr> in (b' \<noteq> None, t'))
          else (True, t))"

definition sanitize :: "bool \<Rightarrow> transferWriter \<Rightarrow> transferWriter" where
  "sanitize atLeastHTTP11 t0 =
     (let t1 =
        (if ResponseToHEAD t0 then
           (let t = t0\<lparr>tw_Body := None\<rparr> in
            if chunked (TransferEncoding t) then t\<lparr>ContentLength := - 1\<rparr> else t)
         else
           (let t = (if \<not> atLeastHTTP11 \<or> tw_Body t0 = None then t0\<lparr>TransferEncoding := []\<rparr> else t0) in
            if chunked (TransferEncoding t) then t\<lparr>ContentLength := - 1\<rparr>
            else if tw_Body t = None then t\<lparr>ContentLength := 0\<rparr>
            else t)) in
      if \<not> chunked (TransferEncoding t1) then t1\<lparr>Trailer := None\<rparr> else t1)"

definition newTransferWriter_request ::
  "(Body \<Rightarrow> Body option \<times> int) \<Rightarrow> string \<Rightarrow> Body option \<Rightarrow> int \<Rightarrow> bool \<Rightarrow> string list \<Rightarrow>
     Header \<Rightarrow> Header option \<Rightarrow> io_error + transferWriter" where
  "newTransferWriter_request probe method body contentLength close te header trailer =
     (if contentLength \<noteq> 0 \<and> body = None
      then Inl (OtherError ''http: Request.ContentLength with nil Body'')
      else
        let t0 = \<lparr>Method = valueOrDefault method ''GET'', tw_Body = body, BodyCloser = body,
                  ResponseToHEAD = False, ContentLength = outgoingLength body contentLength,
                  Close = close, TransferEncoding = te, tw_Header = header, Trailer = trailer,
                  IsResponse = False, FlushHeaders = False\<rparr>;
            t1 = (if ContentLength t0 < 0 \<and> te = [] then
                    (case shouldSendChunkedRequestBody probe t0 of
                       (True, t) \<Rightarrow> t\<lparr>TransferEncoding := [''chunked'']\<rparr>
                     | (False, t) \<Rightarrow> t)
                  else t0);
            t2 = (if ContentLength t1 \<noteq> 0 then t1\<lparr>FlushHeaders := True\<rparr> else t1)
        in Inr (sanitize True t2))"

definition newTransferWriter_response ::
  "string \<Rightarrow> Body option \<Rightarrow> int \<Rightarrow> bool \<Rightarrow> string list \<Rightarrow> Header \<Rightarrow> Header option \<Rightarrow>
     int \<Rightarrow> int \<Rightarrow> transferWriter" where
  \<comment> \<open>\<open>method\<close> is the method of the request the response belongs to, empty if unknown\<close>
  "newTransferWriter_response method body contentLength close te header trailer major minor =
     sanitize (protoAtLeast major minor 1 1)
       \<lparr>Method = method, tw_Body = body, BodyCloser = body,
        ResponseToHEAD = noResponseBodyExpected method, ContentLength = contentLength,
        Close = close, TransferEncoding = te, tw_Header = header, Trailer = trailer,
        IsResponse = True, FlushHeaders = False\<rparr>"

definition shouldSendContentLength :: "transferWriter \<Rightarrow> bool" where
  "shouldSendContentLength t =
     (if chunked (TransferEncoding t) then False
      else if ContentLength t > 0 then True
      else if ContentLength t < 0 then False
      else if Method t = ''POST'' \<or> Method t = ''PUT'' then True
      else if ContentLength t = 0 \<and> isIdentity (TransferEncoding t) then
        (if Method t = ''GET'' \<or> Method t = ''HEAD'' then False else True)
      else False)"

definition framing_writes :: "transferWriter \<Rightarrow> string list" where
  "framing_writes t =
     (if Close t \<and> \<not> hasToken (get (tw_Header t) ''Connection'') ''close''
      then [''Connection: close'' @ CRLF] else []) @
     (if shouldSendContentLength t then [''Content-Length: '', Itoa (ContentLength t) @ CRLF]
      else if chunked (TransferEncoding t) then [''Transfer-Encoding: chunked'' @ CRLF]
      else [])"

definition writeHeader :: "transferWriter \<Rightarrow> writer \<Rightarrow> io_error option \<times> writer" where
  "writeHeader t w =
     (case write_all (framing_writes t) w of
        (Some e, w1) \<Rightarrow> (Some e, w1)
      | (None, w1) \<Rightarrow>
          (case Trailer t of
             None \<Rightarrow> (None, w1)
           | Some tr \<Rightarrow>
               let keys = map (CanonicalHeaderKey \<circ> fst) tr in
               (case find forbidden_trailer keys of
                  Some k \<Rightarrow> (Some (badStringError ''invalid Trailer key'' k), w1)
                | None \<Rightarrow>
                    if keys = [] then (None, w1)
                    else WriteString (''Trailer: '' @ Join (sort keys) '','' @ CRLF) w1)))"

section \<open>Writing a body\<close>

fun copy_Body ::
  "(bytes \<Rightarrow> 'w \<Rightarrow> io_error option \<times> 'w) \<Rightarrow> int option \<Rightarrow> Body \<Rightarrow> 'w \<Rightarrow>
     (nat \<times> io_error option) \<times> Body \<times> 'w" where
  "copy_Body wr lim (NoBody r) w = ((0, None), NoBody r, w)"
| "copy_Body wr lim (TheBody b) w =
     (case copy_body wr copy_buffer_size lim b w of (p, b', w') \<Rightarrow> (p, TheBody b', w'))"
| "copy_Body wr lim (Prefixed p b) w =
     (let q = (case lim of None \<Rightarrow> p | Some n \<Rightarrow> take (nat n) p) in
      case (if q = [] then (None, w) else wr q w) of
        (Some e, w1) \<Rightarrow> ((length q, Some e), TheBody b, w1)
      | (None, w1) \<Rightarrow>
          (case copy_body wr copy_buffer_size (map_option (\<lambda>n. n - int (length q)) lim) b w1 of
             ((n, e), b', w2) \<Rightarrow> ((length q + n, e), TheBody b', w2)))"

fun Body_Close :: "Body \<Rightarrow> io_error option \<times> Body" where
  "Body_Close (NoBody r) = (None, NoBody r)"
| "Body_Close (TheBody b) = (case body_Close b of (e, b') \<Rightarrow> (e, TheBody b'))"
| "Body_Close (Prefixed p b) = (case body_Close b of (e, b') \<Rightarrow> (e, TheBody b'))"

definition chunk_out :: "bytes \<Rightarrow> writer \<Rightarrow> io_error option \<times> writer" where
  "chunk_out p w = (case cw_Write p w of ((n, e), w') \<Rightarrow> (e, w'))"

text \<open>
  The copy of the body: error, number of bytes, body and writer afterwards. The transfer writer's
  trailer is the message's map, so fields read after the body show up in it when the message
  had declared a trailer.
\<close>

definition write_payload ::
  "transferWriter \<Rightarrow> Body \<Rightarrow> writer \<Rightarrow> (nat \<times> io_error option) \<times> Body \<times> writer" where
  "write_payload t b w =
     (if chunked (TransferEncoding t) then
        (case copy_Body chunk_out None b w of
           ((n, Some e), b', w') \<Rightarrow> ((0, Some e), b', w')
         | ((n, None), b', w') \<Rightarrow> (case cw_Close w' of (e, w'') \<Rightarrow> ((0, e), b', w'')))
      else if ContentLength t = - 1 then copy_Body WriteString None b w
      else
        (case copy_Body WriteString (Some (ContentLength t)) b w of
           ((n, Some e), b', w') \<Rightarrow> ((n, Some e), b', w')
         | ((n, None), b', w') \<Rightarrow>
             (case copy_Body discard None b' () of
                ((m, e), b'', _) \<Rightarrow> ((n + m, e), b'', w'))))"

definition body_trailer :: "Body option \<Rightarrow> Header option" where
  "body_trailer B = (case B of
     Some (TheBody b) \<Rightarrow> b_trailer b
   | Some (Prefixed p b) \<Rightarrow> b_trailer b
   | _ \<Rightarrow> None)"

definition errLengthMismatch :: io_error where
  "errLengthMismatch = OtherError ''http: ContentLength with Body length''"

definition writeBody :: "transferWriter \<Rightarrow> writer \<Rightarrow> (io_error option \<times> Body option) \<times> writer" where
  \<comment> \<open>with the body left behind, whose reader is where the next message starts\<close>
  "writeBody t w0 =
     (let ((ncopy, err), body1, w1) =
            (case tw_Body t of
               None \<Rightarrow> ((0, None), BodyCloser t, w0)
             | Some b \<Rightarrow>
                 (case write_payload t b w0 of (p, b', w') \<Rightarrow> (p, Some b', w'))) in
      if err \<noteq> None then ((err, body1), w1)
      else
        let (cerr, body2) =
              (case body1 of
                 None \<Rightarrow> (None, None)
               | Some b \<Rightarrow> (case Body_Close b of (e, b') \<Rightarrow> (e, Some b'))) in
        if cerr \<noteq> None then ((cerr, body2), w1)
        else if \<not> ResponseToHEAD t \<and> ContentLength t \<noteq> - 1 \<and> ContentLength t \<noteq> int ncopy
          then ((Some errLengthMismatch, body2), w1)
        else if chunked (TransferEncoding t) then
          (let (terr, w2) =
                 (case Trailer t of
                    None \<Rightarrow> (None, w1)
                  | Some _ \<Rightarrow>
                      (case body_trailer body2 of None \<Rightarrow> (None, w1) | Some tr \<Rightarrow> Headers.Write tr w1)) in
           if terr \<noteq> None then ((terr, body2), w2)
           else case WriteString CRLF w2 of (e, w3) \<Rightarrow> ((e, body2), w3))
        else ((None, body2), w1))"

section \<open>One framing per message\<close>

lemma canonical_ids:
  "CanonicalHeaderKey ''Content-Length'' = ''Content-Length''"
  "CanonicalHeaderKey ''Trailer'' = ''Trailer''"
  "CanonicalHeaderKey ''Connection'' = ''Connection''"
  by (simp_all add: CanonicalHeaderKey_def IsTokenRune_ord upper_ascii_def lower_ascii_def)

lemma encodings_chunked:
  "encodings te xs = Inr te' \<Longrightarrow> list_all (\<lambda>e. e = ''chunked'') te \<Longrightarrow> list_all (\<lambda>e. e = ''chunked'') te'"
  by (induction te xs rule: encodings.induct) (auto simp: Let_def split: if_splits)

lemma fixTransferEncoding_result:
  assumes "fixTransferEncoding mj mn h = Inr (h', te)"
  shows "map_of h' ''Transfer-Encoding'' = None \<and>
     (te = [] \<or> te = [''chunked''] \<and> map_of h' ''Content-Length'' = None)"
proof (cases "map_of h ''Transfer-Encoding''")
  case None
  with assms show ?thesis by (simp add: fixTransferEncoding_def)
next
  case (Some raw)
  show ?thesis
  proof (cases "protoAtLeast mj mn 1 1")
    case False
    with Some assms show ?thesis by (auto simp: fixTransferEncoding_def Let_def delete_conv')
  next
    case True
    then obtain te1 where te1: "encodings [] (Split (hd raw) (CHR '','')) = Inr te1" "\<not> length te1 > 1"
      "(h', te) = (if length te1 > 0
         then (AList.delete ''Content-Length'' (AList.delete ''Transfer-Encoding'' h), te1)
         else (AList.delete ''Transfer-Encoding'' h, []))"
      using Some assms by (auto simp: fixTransferEncoding_def Let_def rbind_Inr_iff split: if_splits)
    have "list_all (\<lambda>e. e = ''chunked'') te1" using encodings_chunked [OF te1(1)] by simp
    with te1(2) have "te1 = [] \<or> te1 = [''chunked'']" by (cases te1; cases "tl te1") auto
    with te1(3) show ?thesis by (auto simp: delete_conv')
  qed
qed

lemma field_values_Del: "field_values (Del k h) k' = (if CanonicalHeaderKey k = k' then [] else field_values h k')"
  by (simp add: Del_def field_values_delete)

lemma map_of_Del: "map_of (Del k h) k' = (if CanonicalHeaderKey k = k' then None else map_of h k')"
  by (simp add: Del_def delete_conv')

lemma map_of_Add: "map_of (Add k v h) k' =
    (if CanonicalHeaderKey k = k' then Some (field_values h k' @ [v]) else map_of h k')"
  by (simp add: Add_def Let_def update_conv')

lemma dedup_length_result:
  assumes "dedup_length h = Inr h'"
  shows "length (field_values h' ''Content-Length'') \<le> 1 \<and>
     (map_of h ''Content-Length'' = None \<longrightarrow> h' = h) \<and>
     (\<forall>k. k \<noteq> ''Content-Length'' \<longrightarrow> map_of h' k = map_of h k)"
proof (cases "\<exists>c d cs. field_values h ''Content-Length'' = c # d # cs")
  case True
  then obtain c d cs where v: "field_values h ''Content-Length'' = c # d # cs" by blast
  then have h': "h' = Add ''Content-Length'' (TrimSpace c) (Del ''Content-Length'' h)"
    using assms by (auto simp: dedup_length_def split: if_splits)
  from v have "map_of h ''Content-Length'' \<noteq> None"
    by (auto simp: field_values_def split: option.splits)
  then show ?thesis unfolding h'
    by (auto simp: field_values_Add [of "''Content-Length''" _ _ "''Content-Length''", unfolded canonical_ids]
        field_values_Del canonical_ids map_of_Add map_of_Del)
next
  case False
  then have "h' = h" "length (field_values h ''Content-Length'') \<le> 1"
    using assms by (auto simp: dedup_length_def split: list.splits)
  then show ?thesis by simp
qed

lemma fixLength_header:
  assumes "fixLength isR st m h te = Inr (n, h')"
  shows "length (field_values h' ''Content-Length'') \<le> 1 \<and>
     (map_of h ''Content-Length'' = None \<longrightarrow> map_of h' ''Content-Length'' = None) \<and>
     (\<forall>k. k \<noteq> ''Content-Length'' \<longrightarrow> map_of h' k = map_of h k)"
proof -
  from assms obtain h1 where d: "dedup_length h = Inr h1" by (auto simp: fixLength_def rbind_Inr_iff)
  with assms have "h' = h1 \<or> h' = Del ''Content-Length'' h1"
    by (auto simp: fixLength_def rbind_Inr_iff Let_def split: if_splits)
  with dedup_length_result [OF d] show ?thesis
    by (auto simp: field_values_Del map_of_Del canonical_ids)
qed

lemma fixTrailer_header:
  assumes "fixTrailer h te = Inr (tr, h')"
  shows "map_of h' ''Trailer'' = None \<and> (\<forall>k. k \<noteq> ''Trailer'' \<longrightarrow> map_of h' k = map_of h k)"
  using assms
  by (auto simp: fixTrailer_def Let_def map_of_Del canonical_ids split: option.splits if_splits)

definition announces_chunked :: "int \<Rightarrow> int \<Rightarrow> Header \<Rightarrow> bool" where
  \<comment> \<open>the first coding of the message is \<open>chunked\<close>, in a version that knows codings\<close>
  "announces_chunked major minor h \<longleftrightarrow>
     (1 < major \<or> major = 1 \<and> 1 \<le> minor \<or> major = 0 \<and> minor = 0) \<and>
     (case map_of h ''Transfer-Encoding'' of
        None \<Rightarrow> False
      | Some raw \<Rightarrow> ToLower (TrimSpace (hd (Split (hd raw) (CHR '','')))) = ''chunked'')"

definition body_source :: "bool \<Rightarrow> int \<Rightarrow> string \<Rightarrow> transferReader \<Rightarrow> bufr \<Rightarrow> src option" where
  "body_source isResponse status meth t r =
     (if meth = ''HEAD'' \<or> status div 100 = 1 \<or> status = 204 \<or> status = 304 then None
      else if t_TransferEncoding t \<noteq> [] then Some (SrcChunked (NewChunkedReader r))
      else if field_values (t_Header t) ''Content-Length'' = [] then (if isResponse then Some (SrcReader r) else None)
      else if t_ContentLength t = 0 then None else Some (SrcLimited (t_ContentLength t) r))"

lemma encodings_grows: "encodings te xs = Inr te' \<Longrightarrow> prefix te te'"
  by (induction te xs rule: encodings.induct) (auto simp: Let_def prefix_def split: if_splits)

lemma encodings_first:
  assumes "encodings [] xs = Inr te" "xs \<noteq> []"
  shows "te = [] \<longleftrightarrow> ToLower (TrimSpace (hd xs)) \<noteq> ''chunked''"
proof (cases xs)
  case (Cons y ys)
  with assms(1) show ?thesis
    by (auto simp: Let_def split: if_splits dest: encodings_grows)
qed (use assms(2) in simp)

lemma Split_nonempty: "Split s c \<noteq> []"
  by (induction s) (auto split: list.split)

lemma fixTransferEncoding_honours:
  assumes "fixTransferEncoding mj mn h = Inr (h', te)"
    and "(mj, mn) = (if major = 0 \<and> minor = 0 then (1, 1) else (major, minor))"
  shows "te = (if announces_chunked major minor h then [''chunked''] else [])"
proof -
  have p: "protoAtLeast mj mn 1 1 \<longleftrightarrow> 1 < major \<or> major = 1 \<and> 1 \<le> minor \<or> major = 0 \<and> minor = 0"
    using assms(2) by (auto simp: protoAtLeast_def split: if_splits)
  have "te = [] \<longleftrightarrow> \<not> announces_chunked major minor h"
  proof (cases "map_of h ''Transfer-Encoding''")
    case None
    with assms(1) show ?thesis by (simp add: fixTransferEncoding_def announces_chunked_def)
  next
    case (Some raw)
    with assms(1) p encodings_first [OF _ Split_nonempty] show ?thesis
      by (auto simp: fixTransferEncoding_def announces_chunked_def Let_def rbind_Inr_iff split: if_splits)
  qed
  with fixTransferEncoding_result [OF assms(1)] show ?thesis by auto
qed

lemma fixTransferEncoding_others:
  assumes "fixTransferEncoding mj mn h = Inr (h', te)" "k \<noteq> ''Transfer-Encoding''" "k \<noteq> ''Content-Length'' \<or> te = []"
  shows "map_of h' k = map_of h k"
  using assms by (auto simp: fixTransferEncoding_def Let_def rbind_Inr_iff delete_conv' split: option.splits if_splits)

lemma shouldClose_others: "shouldClose mj mn h rm = (c, h') \<Longrightarrow> k \<noteq> ''Connection'' \<Longrightarrow> map_of h' k = map_of h k"
  by (auto simp: shouldClose_def Let_def map_of_Del canonical_ids split: if_splits)

lemma dedup_length_value:
  assumes "dedup_length h = Inr h'" "v \<in> set (field_values h ''Content-Length'')"
  shows "\<exists>c. field_values h' ''Content-Length'' = [c] \<and> TrimSpace c = TrimSpace v"
proof (cases "\<exists>c d cs. field_values h ''Content-Length'' = c # d # cs")
  case True
  then obtain c d cs where fv: "field_values h ''Content-Length'' = c # d # cs" by blast
  with assms(1) have eq: "list_all (\<lambda>ct. TrimSpace c = TrimSpace ct) (d # cs)"
    "h' = Add ''Content-Length'' (TrimSpace c) (Del ''Content-Length'' h)"
    by (auto simp: dedup_length_def split: if_splits)
  have "field_values h' ''Content-Length'' = [TrimSpace c]" unfolding eq(2)
    using field_values_Add [of "''Content-Length''" "TrimSpace c" "Del ''Content-Length'' h" "''Content-Length''"]
    by (simp add: canonical_ids field_values_Del)
  moreover have "TrimSpace v = TrimSpace c" using assms(2) fv eq(1) by (auto simp: list_all_iff)
  ultimately show ?thesis by simp
next
  case False
  then have "h' = h" using assms(1) by (auto simp: dedup_length_def split: list.splits)
  moreover from False assms(2) obtain c where "field_values h ''Content-Length'' = [c]"
    by (cases "field_values h ''Content-Length''"; cases "tl (field_values h ''Content-Length'')") auto
  ultimately show ?thesis using assms(2) by auto
qed

lemma dedup_length_none: "dedup_length h = Inr h' \<Longrightarrow> field_values h ''Content-Length'' = [] \<Longrightarrow> h' = h"
  by (simp add: dedup_length_def)

lemma fixLength_values:
  assumes "fixLength isR st m h te = Inr (n, h')"
  shows "field_values h ''Content-Length'' = [] \<Longrightarrow> field_values h' ''Content-Length'' = []"
    "v \<in> set (field_values h ''Content-Length'') \<Longrightarrow> TrimSpace v \<noteq> [] \<Longrightarrow>
       map TrimSpace (field_values h' ''Content-Length'') = [TrimSpace v]"
proof -
  from assms obtain h1 where d: "dedup_length h = Inr h1" by (auto simp: fixLength_def rbind_Inr_iff)
  with assms have h': "h' = h1 \<or> h' = Del ''Content-Length'' h1"
    by (auto simp: fixLength_def rbind_Inr_iff Let_def split: if_splits)
  then show "field_values h' ''Content-Length'' = []" if "field_values h ''Content-Length'' = []"
    using dedup_length_none [OF d that] that by (auto simp: field_values_Del canonical_ids)
  assume v: "v \<in> set (field_values h ''Content-Length'')" "TrimSpace v \<noteq> []"
  from dedup_length_value [OF d v(1)] obtain c where c: "field_values h1 ''Content-Length'' = [c]" "TrimSpace c = TrimSpace v" by blast
  with assms d v(2) have "h' = h1" by (auto simp: fixLength_def rbind_Inr_iff Let_def split: if_splits)
  with c show "map TrimSpace (field_values h' ''Content-Length'') = [TrimSpace v]" by simp
qed

lemma fixLength_length:
  assumes "fixLength isR st m h te = Inr (n, h')"
  shows "n = (if m = ''HEAD'' \<or> st div 100 = 1 \<or> st = 204 \<or> st = 304 then 0
    else if chunked te then - 1
    else if field_values h' ''Content-Length'' = [] then (if isR then - 1 else 0) else n)"
    "\<not> (m = ''HEAD'' \<or> st div 100 = 1 \<or> st = 204 \<or> st = 304) \<Longrightarrow> \<not> chunked te \<Longrightarrow>
      field_values h' ''Content-Length'' = [v] \<Longrightarrow> parseContentLength v = Inr n \<and> 0 \<le> n"
proof -
  from assms obtain h1 where d: "dedup_length h = Inr h1" by (auto simp: fixLength_def rbind_Inr_iff)
  have one: "length (field_values h1 ''Content-Length'') \<le> 1" using dedup_length_result [OF d] by blast
  show "n = (if m = ''HEAD'' \<or> st div 100 = 1 \<or> st = 204 \<or> st = 304 then 0
    else if chunked te then - 1
    else if field_values h' ''Content-Length'' = [] then (if isR then - 1 else 0) else n)"
    using assms d one
    by (auto simp: fixLength_def rbind_Inr_iff Let_def noResponseBodyExpected_def split: if_splits)
  assume "\<not> (m = ''HEAD'' \<or> st div 100 = 1 \<or> st = 204 \<or> st = 304)" "\<not> chunked te" "field_values h' ''Content-Length'' = [v]"
  with assms d show "parseContentLength v = Inr n \<and> 0 \<le> n"
    by (auto simp: fixLength_def rbind_Inr_iff Let_def noResponseBodyExpected_def field_values_Del canonical_ids
        parseContentLength_def split: if_splits sum.splits)
qed

lemma bodyAllowed_iff: "bodyAllowedForStatus status \<longleftrightarrow> \<not> (status div 100 = 1 \<or> status = 204 \<or> status = 304)"
  by (auto simp: bodyAllowedForStatus_def)

lemma choose_body_source:
  assumes "fixLength isResponse status meth h te = Inr (n, h')" "te = [] \<or> te = [''chunked'']"
    and "field_values (t_Header t) ''Content-Length'' = field_values h' ''Content-Length''" "t_TransferEncoding t = te"
    and "\<not> (isResponse \<and> meth = ''HEAD'') \<Longrightarrow> t_ContentLength t = n"
    and "t_Close t = (c \<or> isResponse \<and> n = - 1 \<and> \<not> chunked te \<and> bodyAllowedForStatus status)"
  shows "choose_body meth status te n (t_Close t) (t_Trailer t) r = (case body_source isResponse status meth t r of
       None \<Rightarrow> NoBody r
     | Some s \<Rightarrow> TheBody \<lparr>b_src = s, b_hdr = te \<noteq> [], b_trailer = t_Trailer t, closing = t_Close t, sawEOF = False, closed = False\<rparr>)"
proof (cases "te = [] \<and> \<not> (meth = ''HEAD'' \<or> status div 100 = 1 \<or> status = 204 \<or> status = 304)")
  case True
  then have te: "te = []" "\<not> chunked te" and nb: "\<not> (meth = ''HEAD'' \<or> status div 100 = 1 \<or> status = 204 \<or> status = 304)"
    by (simp_all add: chunked_def)
  then have cl: "t_ContentLength t = n" using assms(5) by blast
  have one: "length (field_values h' ''Content-Length'') \<le> 1" using fixLength_header [OF assms(1)] by blast
  show ?thesis
  proof (cases "field_values h' ''Content-Length''")
    case Nil
    with fixLength_length(1) [OF assms(1)] nb te have "n = (if isResponse then - 1 else 0)" by simp
    with Nil nb assms(3,4,6) te bodyAllowed_iff show ?thesis by (simp add: choose_body_def body_source_def)
  next
    case (Cons v vs)
    with one have "field_values h' ''Content-Length'' = [v]" by simp
    from fixLength_length(2) [OF assms(1) nb te(2) this] Cons nb assms(3,4) te cl show ?thesis
      by (auto simp: choose_body_def body_source_def)
  qed
next
  case False
  show ?thesis
  proof (cases "te = []")
    case True
    with False have nb: "meth = ''HEAD'' \<or> status div 100 = 1 \<or> status = 204 \<or> status = 304" by blast
    with fixLength_length(1) [OF assms(1)] have "n = 0" by (simp only: if_True)
    with True nb show ?thesis by (simp add: choose_body_def body_source_def chunked_def)
  next
    case False
    with assms(2,4) show ?thesis
      by (simp add: choose_body_def body_source_def chunked_def noResponseBodyExpected_def bodyAllowed_iff)
  qed
qed

text \<open>
  (C19) A message that is accepted has one framing, the one it announces. Its transfer coding is
  \<open>chunked\<close> exactly when it announces it (in a version that has codings, as its first coding); the
  field is then gone from the header and so is every content length, and the body is what the
  chunked reader finds. Otherwise at most one content length is left, every one that was sent says
  the same, and the body is that many bytes; without one, a request has no body and a response
  goes on to the end of the connection. An answer to \<open>HEAD\<close> and one with status 1xx, 204 or 304 has
  no body.
\<close>
theorem readTransfer_single_framing:
  assumes "readTransfer isResponse status meth major minor close header r = Inr t"
  shows "t_TransferEncoding t = (if announces_chunked major minor header then [''chunked''] else []) \<and>
     map_of (t_Header t) ''Transfer-Encoding'' = None \<and>
     (if announces_chunked major minor header then map_of (t_Header t) ''Content-Length'' = None
      else length (field_values (t_Header t) ''Content-Length'') \<le> 1 \<and>
        (\<forall>v \<in> set (field_values header ''Content-Length''). TrimSpace v \<noteq> [] \<longrightarrow>
           map TrimSpace (field_values (t_Header t) ''Content-Length'') = [TrimSpace v]) \<and>
        (\<forall>v. meth \<noteq> ''HEAD'' \<and> bodyAllowedForStatus status \<and> field_values (t_Header t) ''Content-Length'' = [v] \<longrightarrow>
           parseContentLength v = Inr (t_ContentLength t) \<and> 0 \<le> t_ContentLength t)) \<and>
     t_Body t = (case body_source isResponse status meth t r of
         None \<Rightarrow> NoBody r
       | Some s \<Rightarrow> TheBody \<lparr>b_src = s, b_hdr = announces_chunked major minor header, b_trailer = t_Trailer t,
                              closing = t_Close t, sawEOF = False, closed = False\<rparr>)"
proof -
  obtain c1 h1 where s: "(if isResponse then shouldClose major minor header True else (close, header)) = (c1, h1)"
    by fastforce
  have h1: "map_of h1 k = map_of header k" if "k \<noteq> ''Connection''" for k
    using s shouldClose_others [OF _ that] by (auto split: if_splits)
  then have ann: "announces_chunked major minor h1 = announces_chunked major minor header"
    by (simp add: announces_chunked_def)
  obtain mj mn where v: "(mj, mn) = (if major = 0 \<and> minor = 0 then (1, 1) else (major, minor))" by fastforce
  from assms s v obtain h2 te n h3 where
    f: "fixTransferEncoding mj mn h1 = Inr (h2, te)" "fixLength isResponse status meth h2 te = Inr (n, h3)"
      "fixTrailer h3 te = Inr (t_Trailer t, t_Header t)" "t_TransferEncoding t = te"
      "t_Body t = choose_body meth status te n (t_Close t) (t_Trailer t) r"
      "\<not> (isResponse \<and> meth = ''HEAD'') \<Longrightarrow> t_ContentLength t = n"
      "t_Close t = (c1 \<or> isResponse \<and> n = - 1 \<and> \<not> chunked te \<and> bodyAllowedForStatus status)"
    by (auto simp: readTransfer_def rbind_Inr_iff Let_def split: if_splits)
  have te: "te = (if announces_chunked major minor header then [''chunked''] else [])"
    using fixTransferEncoding_honours [OF f(1) v] ann by simp
  have t3: "map_of (t_Header t) k = map_of h3 k" if "k \<noteq> ''Trailer''" for k
    using fixTrailer_header [OF f(3)] that by blast
  then have fv3: "field_values (t_Header t) ''Content-Length'' = field_values h3 ''Content-Length''"
    by (simp add: field_values_def)
  note r2 = fixTransferEncoding_result [OF f(1)] and r3 = fixLength_header [OF f(2)]
  have none: "map_of (t_Header t) ''Transfer-Encoding'' = None" using r2 r3 t3 by simp
  have body: "t_Body t = (case body_source isResponse status meth t r of None \<Rightarrow> NoBody r
      | Some s \<Rightarrow> TheBody \<lparr>b_src = s, b_hdr = announces_chunked major minor header, b_trailer = t_Trailer t,
            closing = t_Close t, sawEOF = False, closed = False\<rparr>)"
    using choose_body_source [OF f(2) _ fv3 f(4,6,7)] f(5) te by (auto split: option.splits)
  show ?thesis
  proof (cases "announces_chunked major minor header")
    case True
    with te r2 r3 t3 have "map_of (t_Header t) ''Content-Length'' = None" by simp
    with True none f(4) te body show ?thesis by (simp only: if_True simp_thms)
  next
    case False
    with te have te0: "te = []" "\<not> chunked te" by (simp_all add: chunked_def)
    have fv2: "field_values h2 ''Content-Length'' = field_values header ''Content-Length''"
      using fixTransferEncoding_others [OF f(1)] te0(1) h1 by (simp add: field_values_def)
    have "parseContentLength v = Inr (t_ContentLength t) \<and> 0 \<le> t_ContentLength t"
      if "meth \<noteq> ''HEAD''" "bodyAllowedForStatus status" "field_values (t_Header t) ''Content-Length'' = [v]" for v
      using fixLength_length(2) [OF f(2) _ te0(2), of v] that f(6) fv3 bodyAllowed_iff by simp
    moreover have "map TrimSpace (field_values (t_Header t) ''Content-Length'') = [TrimSpace v]"
      if "v \<in> set (field_values header ''Content-Length'')" "TrimSpace v \<noteq> []" for v
      using fixLength_values(2) [OF f(2), of v] that fv2 fv3 by simp
    ultimately show ?thesis using False body none f(4) te0 r3 fv3 by (intro conjI) simp_all
  qed
qed

theorem readTransfer_single_framing_witness:
  "\<exists>t. readTransfer False 200 ''POST'' 1 1 False
        [(''Content-Length'', [''5'']), (''Transfer-Encoding'', [''Chunked''])]
        (NewReaderSize 4095 [] EOF) = Inr t \<and>
      t_TransferEncoding t = [''chunked''] \<and> map_of (t_Header t) ''Content-Length'' = None \<and>
      t_Body t = TheBody (new_body (SrcChunked (NewChunkedReader (NewReaderSize 4095 [] EOF))) True False)"
proof -
  let ?h = "[(''Content-Length'', [''5'']), (''Transfer-Encoding'', [''Chunked''])]"
  let ?r = "NewReaderSize 4095 [] EOF"
  have "TrimSpace ''Chunked'' = ''Chunked''" by (rule TrimSpace_graphic) (simp add: graphic_def)
  then have low: "ToLower (TrimSpace ''Chunked'') = ''chunked''"
    by (simp add: ToLower.simps HasPrefix_def lower_ascii_def char_eval)
  have "\<exists>t. readTransfer False 200 ''POST'' 1 1 False ?h ?r = Inr t \<and> t_Trailer t = None \<and> \<not> t_Close t"
    by (simp add: readTransfer_def fixTransferEncoding_def protoAtLeast_def low fixLength_def
        dedup_length_def field_values_def noResponseBodyExpected_def chunked_def fixTrailer_def Let_def)
  then obtain t where t: "readTransfer False 200 ''POST'' 1 1 False ?h ?r = Inr t" "t_Trailer t = None" "\<not> t_Close t" by blast
  have "announces_chunked 1 1 ?h" using low by (simp add: announces_chunked_def)
  with readTransfer_single_framing [OF t(1)] t show ?thesis
    by (simp add: body_source_def new_body_def)
qed

lemma field_values_map_of: "map_of h k = map_of h' k \<Longrightarrow> field_values h k = field_values h' k"
  by (simp add: field_values_def)

lemma parseContentLength_trim: "parseContentLength (TrimSpace v) = parseContentLength v"
  by (simp add: parseContentLength_def)

lemma parseContentLength_nonneg:
  "TrimSpace v \<noteq> '''' \<Longrightarrow> parseContentLength v = Inr n \<Longrightarrow> 0 \<le> n"
  by (auto simp: parseContentLength_def Let_def split: sum.splits if_splits)

lemma fixLength_agrees:
  assumes "fixLength isR 200 m h [] = Inr (n, h')" "m \<noteq> ''HEAD''" "v \<in> set (field_values h ''Content-Length'')"
  shows "TrimSpace v = '''' \<and> (\<not> isR \<longrightarrow> n = 0) \<or> TrimSpace v \<noteq> '''' \<and> parseContentLength v = Inr n"
proof -
  obtain h1 where d: "dedup_length h = Inr h1" using assms(1) by (auto simp: fixLength_def rbind_Inr_iff)
  from dedup_length_value [OF d assms(3)] obtain c where
    c: "field_values h1 ''Content-Length'' = [c]" "TrimSpace c = TrimSpace v" by blast
  show ?thesis
  proof (cases "TrimSpace v = ''''")
    case True
    with assms d c show ?thesis
      by (auto simp: fixLength_def noResponseBodyExpected_def chunked_def Let_def split: if_splits)
  next
    case False
    with assms d c have "parseContentLength (TrimSpace v) = Inr n"
      by (auto simp: fixLength_def noResponseBodyExpected_def chunked_def Let_def rbind_Inr_iff split: if_splits)
    with False show ?thesis by (simp add: parseContentLength_trim)
  qed
qed

text \<open>
  Every \<open>Content-Length\<close> field of an accepted request (other than a chunked one or a HEAD)
  says the length the body is read with: however often the field is repeated, no two copies
  disagree, and none is negative, overlong or malformed.
\<close>
lemma request_content_lengths_agree:
  assumes "readTransfer False 200 meth major minor close header r = Inr t"
    and "t_TransferEncoding t = []" and "meth \<noteq> ''HEAD''"
    and "v \<in> set (field_values header ''Content-Length'')"
  shows "TrimSpace v = '''' \<and> t_ContentLength t = 0 \<or>
     parseContentLength v = Inr (t_ContentLength t) \<and> 0 \<le> t_ContentLength t"
proof -
  obtain mj mn where v: "(if major = 0 \<and> minor = 0 then (1, 1) else (major, minor)) = (mj, mn)" by fastforce
  from assms(1,2) v obtain h2 n h3 tr where
    f: "fixTransferEncoding mj mn header = Inr (h2, [])" "fixLength False 200 meth h2 [] = Inr (n, h3)"
      "t_ContentLength t = n"
    by (auto simp: readTransfer_def rbind_Inr_iff Let_def)
  have "map_of h2 ''Content-Length'' = map_of header ''Content-Length''"
    using f(1) by (auto simp: fixTransferEncoding_def Let_def rbind_Inr_iff delete_conv' split: option.splits if_splits)
  then have "v \<in> set (field_values h2 ''Content-Length'')"
    using assms(4) field_values_map_of by metis
  from fixLength_agrees [OF f(2) assms(3) this] f(3) parseContentLength_nonneg show ?thesis by blast
qed

lemma request_content_lengths_agree_witness:
  "\<exists>t. readTransfer False 200 ''POST'' 1 1 False [(''Content-Length'', [''5'', ''5''])]
        (NewReaderSize 4095 [] EOF) = Inr t \<and>
      t_ContentLength t = 5 \<and> 0 \<le> t_ContentLength t"
proof -
  let ?h = "[(''Content-Length'', [''5'', ''5''])]"
  let ?r = "NewReaderSize 4095 [] EOF"
  have tr: "TrimSpace ''5'' = ''5''" by (rule TrimSpace_graphic) (simp add: graphic_def)
  have pc: "parseContentLength ''5'' = Inr 5"
    by (simp add: parseContentLength_def tr ParseInt64_def ParseUint_def is_digit_def digit_val_def)
  have "\<exists>t. readTransfer False 200 ''POST'' 1 1 False ?h ?r = Inr t \<and> t_TransferEncoding t = []"
    by (simp add: readTransfer_def fixTransferEncoding_def fixLength_def dedup_length_def tr pc
        field_values_def noResponseBodyExpected_def chunked_def fixTrailer_def Add_def Del_def canonical_ids Let_def)
  then obtain t where t: "readTransfer False 200 ''POST'' 1 1 False ?h ?r = Inr t" "t_TransferEncoding t = []"
    by blast
  have "''5'' \<in> set (field_values ?h ''Content-Length'')" by (simp add: field_values_def)
  from request_content_lengths_agree [OF t _ this] t(1) pc tr show ?thesis by auto
qed

text \<open>
  A HEAD request with a chunked body is accepted, but its body is not read: the transfer
  reader hands out \<open>NoBody\<close> with the connection still before the first chunk, so the chunks are
  taken for the next request on the connection.
\<close>
lemma HEAD_chunked_body_left_unread:
  assumes "encodings [] (Split (hd raw) (CHR '','')) = Inr [''chunked'']"
    and "map_of header ''Transfer-Encoding'' = Some raw" and "map_of header ''Trailer'' = None"
  shows "\<exists>t. readTransfer False 200 ''HEAD'' 1 1 close header r = Inr t \<and>
     t_TransferEncoding t = [''chunked''] \<and> t_Body t = NoBody r"
proof -
  let ?h = "AList.delete ''Content-Length'' (AList.delete ''Transfer-Encoding'' header)"
  have "fixTransferEncoding 1 1 header = Inr (?h, [''chunked''])"
    using assms(1,2) by (simp add: fixTransferEncoding_def protoAtLeast_def)
  moreover have "field_values ?h ''Content-Length'' = []"
    by (simp add: field_values_def delete_conv')
  then have "dedup_length ?h = Inr ?h" "fixLength False 200 ''HEAD'' ?h [''chunked''] = Inr (0, ?h)"
    by (simp_all add: fixLength_def dedup_length_def noResponseBodyExpected_def)
  moreover have "fixTrailer ?h [''chunked''] = Inr (None, ?h)"
    using assms(3) by (simp add: fixTrailer_def delete_conv')
  ultimately show ?thesis
    by (simp add: readTransfer_def choose_body_def chunked_def noResponseBodyExpected_def)
qed

lemma HEAD_chunked_body_left_unread_witness:
  "\<exists>t. readTransfer False 200 ''HEAD'' 1 1 False [(''Transfer-Encoding'', [''chunked''])]
        (NewReaderSize 4095 [] EOF) = Inr t \<and>
     t_TransferEncoding t = [''chunked''] \<and> t_Body t = NoBody (NewReaderSize 4095 [] EOF)"
proof -
  have "TrimSpace ''chunked'' = ''chunked''" by (rule TrimSpace_graphic) (simp add: graphic_def)
  then have "encodings [] (Split (hd [''chunked'']) (CHR '','')) = Inr [''chunked'']"
    by (simp add: ToLower.simps HasPrefix_def lower_ascii_def)
  from HEAD_chunked_body_left_unread [OF this] show ?thesis by simp
qed

end
