(* ===== verification/Url.thy ===== *)
theory Url
  imports Chunked
begin

text \<open>
  Request targets: the part of \<open>net/url\<close> of Go 1.12 that reading and writing a request uses,
  \<open>ParseRequestURI\<close>, \<open>RequestURI\<close>, \<open>EscapedPath\<close> and \<open>String\<close>. The error a failed parse returns is
  kept as its kind.
\<close>

datatype encoding = encodePath | encodeHost | encodeZone | encodeUserPassword

datatype url_error =
    InvalidControlCharacter | EmptyUrl | MissingScheme | InvalidRequestURI
  | MissingBracket | InvalidPort string | InvalidUserinfo
  | EscapeError string | InvalidHostError string

record URL =
  Scheme :: string
  Opaque :: string
  User :: "(string \<times> string option) option"
  URL_Host :: string
  Path :: string
  RawPath :: string
  ForceQuery :: bool
  RawQuery :: string

definition empty_URL :: URL where
  "empty_URL = \<lparr>Scheme = '''', Opaque = '''', User = None, URL_Host = '''', Path = '''',
     RawPath = '''', ForceQuery = False, RawQuery = ''''\<rparr>"

section \<open>Escaping\<close>

definition is_letter :: "char \<Rightarrow> bool" where
  "is_letter c \<longleftrightarrow> 65 \<le> ord c \<and> ord c \<le> 90 \<or> 97 \<le> ord c \<and> ord c \<le> 122"

definition is_alnum :: "char \<Rightarrow> bool" where
  "is_alnum c \<longleftrightarrow> is_letter c \<or> is_digit c"

definition shouldEscape :: "char \<Rightarrow> encoding \<Rightarrow> bool" where
  "shouldEscape c mode =
     (if is_alnum c then False
      else if (mode = encodeHost \<or> mode = encodeZone) \<and>
              c \<in> set (''!$&()*+,;=:[]<>'' @ [CHR 0x27, CHR 0x22]) then False
      else if c \<in> set ''-_.~'' then False
      else if c \<in> set ''$&+,/:;=?@'' then
        (case mode of
           encodePath \<Rightarrow> c = CHR ''?''
         | encodeUserPassword \<Rightarrow> c \<in> set ''@/?:''
         | _ \<Rightarrow> True)
      else True)"

fun unescape :: "encoding \<Rightarrow> string \<Rightarrow> url_error + string" where
  "unescape mode [] = Inr []"
| "unescape mode (c # s) =
     (if c = CHR ''%'' then
        (case s of
           a # b # s' \<Rightarrow>
             (case (hex_value a, hex_value b) of
                (Some x, Some y) \<Rightarrow>
                  if mode = encodeHost \<and> x < 8 \<and> [a, b] \<noteq> ''25'' then Inl (EscapeError [c, a, b])
                  else if mode = encodeZone \<and> [a, b] \<noteq> ''25'' \<and> x * 16 + y \<noteq> 32 \<and>
                          shouldEscape (char_of (x * 16 + y)) encodeHost
                    then Inl (EscapeError [c, a, b])
                  else rbind (unescape mode s') (\<lambda>t. Inr (char_of (x * 16 + y) # t))
              | _ \<Rightarrow> Inl (EscapeError [c, a, b]))
         | _ \<Rightarrow> Inl (EscapeError (c # s)))
      else if (mode = encodeHost \<or> mode = encodeZone) \<and> ord c < 128 \<and> shouldEscape c mode
        then Inl (InvalidHostError [c])
      else rbind (unescape mode s) (\<lambda>t. Inr (c # t)))"

definition upper_hex :: "nat \<Rightarrow> char" where
  "upper_hex d = char_of (if d < 10 then d + 48 else d + 55)"

definition escape :: "encoding \<Rightarrow> string \<Rightarrow> string" where
  "escape mode s =
     concat (map (\<lambda>c. if shouldEscape c mode
                       then [CHR ''%'', upper_hex (ord c div 16), upper_hex (ord c mod 16)]
                       else [c]) s)"

definition validEncodedPath :: "string \<Rightarrow> bool" where
  "validEncodedPath s \<longleftrightarrow>
     list_all (\<lambda>c. c \<in> set (''!$&()*+,;=:@[]%'' @ [CHR 0x27]) \<or> \<not> shouldEscape c encodePath) s"

section \<open>Parsing\<close>

fun getscheme_from :: "string \<Rightarrow> string \<Rightarrow> string \<Rightarrow> url_error + (string \<times> string)" where
  "getscheme_from raw seen [] = Inr ('''', raw)"
| "getscheme_from raw seen (c # s) =
     (if is_letter c then getscheme_from raw (seen @ [c]) s
      else if is_digit c \<or> c \<in> set ''+-.'' then
        (if seen = [] then Inr ('''', raw) else getscheme_from raw (seen @ [c]) s)
      else if c = CHR '':'' then (if seen = [] then Inl MissingScheme else Inr (seen, s))
      else Inr ('''', raw))"

definition getscheme :: "string \<Rightarrow> url_error + (string \<times> string)" where
  "getscheme raw = getscheme_from raw [] raw"

definition cut :: "char \<Rightarrow> bool \<Rightarrow> string \<Rightarrow> string \<times> string" where
  "cut c cutc s =
     (case Index c s of
        None \<Rightarrow> (s, '''')
      | Some i \<Rightarrow> (take i s, if cutc then drop (Suc i) s else drop i s))"

definition validOptionalPort :: "string \<Rightarrow> bool" where
  "validOptionalPort port =
     (if port = [] then True
      else if hd port \<noteq> CHR '':'' then False
      else list_all is_digit (tl port))"

fun index_25 :: "string \<Rightarrow> nat option" where
  "index_25 [] = None"
| "index_25 (c # s) =
     (if take 3 (c # s) = ''%25'' then Some 0 else map_option Suc (index_25 s))"

definition parseHost :: "string \<Rightarrow> url_error + string" where
  "parseHost host =
     (if HasPrefix host ''['' then
        (case LastIndex (CHR '']'') host of
           None \<Rightarrow> Inl MissingBracket
         | Some i \<Rightarrow>
             let colonPort = drop (Suc i) host in
             if \<not> validOptionalPort colonPort then Inl (InvalidPort colonPort)
             else case index_25 (take i host) of
               Some zone \<Rightarrow>
                 rbind (unescape encodeHost (take zone host)) (\<lambda>host1.
                 rbind (unescape encodeZone (drop zone (take i host))) (\<lambda>host2.
                 rbind (unescape encodeHost (drop i host)) (\<lambda>host3. Inr (host1 @ host2 @ host3))))
             | None \<Rightarrow> unescape encodeHost host)
      else case LastIndex (CHR '':'') host of
        Some i \<Rightarrow>
          if \<not> validOptionalPort (drop i host) then Inl (InvalidPort (drop i host))
          else unescape encodeHost host
      | None \<Rightarrow> unescape encodeHost host)"

definition validUserinfo :: "string \<Rightarrow> bool" where
  "validUserinfo s \<longleftrightarrow>
     list_all (\<lambda>c. is_alnum c \<or> c \<in> set (''-._:~!$&()*+,;=%@'' @ [CHR 0x27])) s"

definition parseAuthority ::
  "string \<Rightarrow> url_error + ((string \<times> string option) option \<times> string)" where
  "parseAuthority authority =
     (case LastIndex (CHR ''@'') authority of
        None \<Rightarrow> rbind (parseHost authority) (\<lambda>host. Inr (None, host))
      | Some i \<Rightarrow>
          rbind (parseHost (drop (Suc i) authority)) (\<lambda>host.
          let userinfo = take i authority in
          if \<not> validUserinfo userinfo then Inl InvalidUserinfo
          else if \<not> Contains userinfo (CHR '':'') then
            rbind (unescape encodeUserPassword userinfo) (\<lambda>u. Inr (Some (u, None), host))
          else let (username, password) = cut (CHR '':'') True userinfo in
            rbind (unescape encodeUserPassword username) (\<lambda>u.
            rbind (unescape encodeUserPassword password) (\<lambda>p. Inr (Some (u, Some p), host)))))"

definition setPath :: "string \<Rightarrow> URL \<Rightarrow> url_error + URL" where
  "setPath p u =
     rbind (unescape encodePath p) (\<lambda>path.
       Inr (u\<lparr>Path := path, RawPath := (if p = escape encodePath path then '''' else p)\<rparr>))"

definition split_query :: "string \<Rightarrow> bool \<times> string \<times> string" where
  "split_query rest =
     (if HasSuffix rest ''?'' \<and> count_list rest (CHR ''?'') = 1 then (True, butlast rest, '''')
      else (False, cut (CHR ''?'') True rest))"

definition ParseRequestURI :: "string \<Rightarrow> url_error + URL" where
  "ParseRequestURI rawurl =
     (if list_ex (\<lambda>b. ord b < 32 \<or> ord b = 127) rawurl then Inl InvalidControlCharacter
      else if rawurl = '''' then Inl EmptyUrl
      else if rawurl = ''*'' then Inr (empty_URL\<lparr>Path := ''*''\<rparr>)
      else rbind (getscheme rawurl) (\<lambda>(scheme, rest0).
        let (force, rest, query) = split_query rest0;
            u = empty_URL\<lparr>Scheme := ToLower scheme, ForceQuery := force, RawQuery := query\<rparr>
        in
        if \<not> HasPrefix rest ''/'' then
          (if Scheme u \<noteq> '''' then Inr (u\<lparr>Opaque := rest\<rparr>) else Inl InvalidRequestURI)
        else if Scheme u \<noteq> '''' \<and> HasPrefix rest ''//'' then
          (let (authority, rest') = cut (CHR ''/'') False (drop 2 rest) in
           rbind (parseAuthority authority) (\<lambda>(user, host).
             setPath rest' (u\<lparr>User := user, URL_Host := host\<rparr>)))
        else setPath rest u))"

section \<open>Printing\<close>

definition EscapedPath :: "URL \<Rightarrow> string" where
  "EscapedPath u =
     (if RawPath u \<noteq> '''' \<and> validEncodedPath (RawPath u) \<and>
         unescape encodePath (RawPath u) = Inr (Path u) then RawPath u
      else if Path u = ''*'' then ''*''
      else escape encodePath (Path u))"

definition query_part :: "URL \<Rightarrow> string" where
  "query_part u = (if ForceQuery u \<or> RawQuery u \<noteq> '''' then CHR ''?'' # RawQuery u else '''')"

definition RequestURI :: "URL \<Rightarrow> string" where
  "RequestURI u =
     (if Opaque u = '''' then
        (let p = EscapedPath u in if p = '''' then ''/'' else p)
      else if HasPrefix (Opaque u) ''//'' then Scheme u @ '':'' @ Opaque u
      else Opaque u) @ query_part u"

definition userinfo_String :: "string \<times> string option \<Rightarrow> string" where
  "userinfo_String ui =
     escape encodeUserPassword (fst ui) @
     (case snd ui of None \<Rightarrow> '''' | Some p \<Rightarrow> CHR '':'' # escape encodeUserPassword p)"

definition URL_String :: "URL \<Rightarrow> string" where
  "URL_String u =
     (let scheme = (if Scheme u \<noteq> '''' then Scheme u @ '':'' else '''') in
      (if Opaque u \<noteq> '''' then scheme @ Opaque u
       else
         (let auth =
                (if Scheme u \<noteq> '''' \<or> URL_Host u \<noteq> '''' \<or> User u \<noteq> None then
                   (if URL_Host u \<noteq> '''' \<or> Path u \<noteq> '''' \<or> User u \<noteq> None then ''//'' else '''') @
                   (case User u of None \<Rightarrow> '''' | Some ui \<Rightarrow> userinfo_String ui @ ''@'') @
                   escape encodeHost (URL_Host u)
                 else '''');
              path = EscapedPath u;
              pre = scheme @ auth @
                (if path \<noteq> '''' \<and> hd path \<noteq> CHR ''/'' \<and> URL_Host u \<noteq> '''' then ''/'' else '''');
              dot = (if pre = '''' then
                       (case Index (CHR '':'') path of
                          Some i \<Rightarrow> if CHR ''/'' \<notin> set (take i path) then ''./'' else ''''
                        | None \<Rightarrow> '''')
                     else '''')
          in pre @ dot @ path)) @ query_part u)"

section \<open>Request targets are forwarded unchanged\<close>

lemma cut_True: "cut c True s = (p, q) \<Longrightarrow> (c \<notin> set s \<and> p = s \<and> q = '''') \<or> (c \<notin> set p \<and> s = p @ c # q)"
  by (auto simp: cut_def Index_None_iff Index_Some_iff id_take_nth_drop [symmetric] split: option.splits)

lemma unescape_slash: "unescape mode (CHR ''/'' # s) = Inr t \<Longrightarrow> \<exists>t'. t = CHR ''/'' # t'"
  by (auto simp: rbind_Inr_iff split: if_splits)

lemma getscheme_slash: "getscheme (CHR ''/'' # s) = Inr ('''', CHR ''/'' # s)"
  by (simp add: getscheme_def is_letter_def is_digit_def)

definition target_path :: "string \<Rightarrow> string" where
  "target_path s = takeWhile (\<lambda>c. c \<noteq> CHR ''?'') s"

lemma target_path_append: "CHR ''?'' \<notin> set p \<Longrightarrow> target_path (p @ CHR ''?'' # q) = p"
  by (induction p) (auto simp: target_path_def)

lemma target_path_all: "CHR ''?'' \<notin> set p \<Longrightarrow> target_path p = p"
  by (induction p) (auto simp: target_path_def)

lemma EscapedPath_setPath:
  assumes "setPath p u = Inr u'" "validEncodedPath p" "HasPrefix p ''/''"
  shows "EscapedPath u' = p \<and> Scheme u' = Scheme u \<and> Opaque u' = Opaque u \<and>
     ForceQuery u' = ForceQuery u \<and> RawQuery u' = RawQuery u \<and> URL_Host u' = URL_Host u"
proof -
  obtain s where p: "p = CHR ''/'' # s" using assms(3) by (cases p) (auto simp: HasPrefix_def)
  from assms(1) obtain path where un: "unescape encodePath p = Inr path"
    and u': "u' = u\<lparr>Path := path, RawPath := (if p = escape encodePath path then '''' else p)\<rparr>"
    by (auto simp: setPath_def rbind_Inr_iff)
  from un p unescape_slash obtain t where "path = CHR ''/'' # t" by blast
  then have "path \<noteq> ''*''" by simp
  with un u' assms(2) p show ?thesis by (auto simp: EscapedPath_def)
qed

lemma HasSuffix_one: "HasSuffix s [c] \<longleftrightarrow> s \<noteq> [] \<and> last s = c"
  by (cases s rule: rev_cases) (auto simp: HasSuffix_def)

lemma split_query_cases:
  assumes "split_query s = (force, p, q)"
  shows "p = target_path s" "s = p @ (if force \<or> q \<noteq> '''' then CHR ''?'' # q else '''')"
proof -
  have "p = target_path s \<and> s = p @ (if force \<or> q \<noteq> '''' then CHR ''?'' # q else '''')"
  proof (cases "HasSuffix s ''?'' \<and> count_list s (CHR ''?'') = 1")
    case True
    then obtain x where x: "s = x @ ''?''" by (metis HasSuffix_one append_butlast_last_id)
    then have "CHR ''?'' \<notin> set x" using True by (simp add: count_list_0_iff)
    with x True assms show ?thesis by (auto simp: split_query_def target_path_append)
  next
    case False
    then have "cut (CHR ''?'') True s = (p, q)" "\<not> force" using assms by (auto simp: split_query_def)
    from cut_True [OF this(1)] show ?thesis
    proof
      assume a: "CHR ''?'' \<notin> set p \<and> s = p @ CHR ''?'' # q"
      with False have "q \<noteq> ''''" by (auto simp: HasSuffix_one count_list_0_iff)
      with a show ?thesis using target_path_append [of p q] by simp
    next
      assume "CHR ''?'' \<notin> set s \<and> p = s \<and> q = ''''"
      with \<open>\<not> force\<close> show ?thesis using target_path_all [of s] by simp
    qed
  qed
  then show "p = target_path s" "s = p @ (if force \<or> q \<noteq> '''' then CHR ''?'' # q else '''')"
    by blast+
qed

lemma RequestURI_origin_form:
  assumes "ParseRequestURI s = Inr u" and "HasPrefix s ''/''" and "validEncodedPath (target_path s)"
  shows "RequestURI u = s \<and> URL_Host u = '''' \<and> Scheme u = ''''"
proof -
  obtain s' where s: "s = CHR ''/'' # s'" using assms(2) by (cases s) (auto simp: HasPrefix_def)
  obtain force p q where pq: "split_query s = (force, p, q)" by (metis surj_pair)
  note qc = split_query_cases [OF pq]
  have hp: "HasPrefix p ''/''" using qc(1) s by (simp add: target_path_def HasPrefix_def)
  let ?u = "empty_URL\<lparr>Scheme := ToLower '''', ForceQuery := force, RawQuery := q\<rparr>"
  have tl: "ToLower '''' = ''''" by (simp add: ToLower.simps)
  have "setPath p ?u = Inr u"
    using assms(1) hp tl pq s getscheme_slash [of s']
    by (simp add: ParseRequestURI_def Let_def empty_URL_def split: if_splits)
  from EscapedPath_setPath [OF this _ hp] assms(3) qc(1) have
    u: "EscapedPath u = p" "Opaque u = ''''" "ForceQuery u = force" "RawQuery u = q" "URL_Host u = ''''" "Scheme u = ''''"
    by (auto simp: empty_URL_def tl)
  have "p \<noteq> ''''" using hp by (auto simp: HasPrefix_def)
  with u qc(2) show ?thesis by (simp add: RequestURI_def query_part_def)
qed

end
