(* ===== verification/Cookies.thy ===== *)
theory Cookies
  imports Headers
begin

text \<open>
  Request cookies: \<open>pkg/http/cookie.go\<close> and the cookie methods of \<open>pkg/http/request.go\<close>, which
  the routing by cookie and the span tags use. A cookie of a request has only a name and a
  value; the attributes of \<open>Set-Cookie\<close> are not modelled.
\<close>

record Cookie =
  Name :: string
  Value :: string

section \<open>Names and values\<close>

definition isCookieNameValid :: "string \<Rightarrow> bool" where
  "isCookieNameValid raw = (if raw = [] then False else IndexFunc isNotToken raw = None)"

definition validCookieValueByte :: "char \<Rightarrow> bool" where
  "validCookieValueByte b \<longleftrightarrow>
     0x20 \<le> ord b \<and> ord b < 0x7f \<and> b \<noteq> CHR 0x22 \<and> b \<noteq> CHR '';'' \<and> b \<noteq> CHR 0x5C"

definition validCookiePathByte :: "char \<Rightarrow> bool" where
  "validCookiePathByte b \<longleftrightarrow> 0x20 \<le> ord b \<and> ord b < 0x7f \<and> b \<noteq> CHR '';''"

definition unquote :: "bool \<Rightarrow> string \<Rightarrow> string" where
  "unquote allowDoubleQuote raw =
     (if allowDoubleQuote \<and> length raw > 1 \<and> hd raw = CHR 0x22 \<and> last raw = CHR 0x22
      then butlast (tl raw) else raw)"

definition parseCookieValue :: "string \<Rightarrow> bool \<Rightarrow> string option" where
  "parseCookieValue raw allowDoubleQuote =
     (let v = unquote allowDoubleQuote raw in
      if list_all validCookieValueByte v then Some v else None)"

definition sanitizeCookieName :: "string \<Rightarrow> string" where
  "sanitizeCookieName n = map (\<lambda>c. if c = LF \<or> c = CR then CHR ''-'' else c) n"

definition sanitizeOrWarn :: "(char \<Rightarrow> bool) \<Rightarrow> string \<Rightarrow> string" where
  "sanitizeOrWarn valid v = (if list_all valid v then v else filter valid v)"

definition sanitizeCookieValue :: "string \<Rightarrow> string" where
  "sanitizeCookieValue v0 =
     (let v = sanitizeOrWarn validCookieValueByte v0 in
      if v = [] then v
      else if Contains v (CHR '' '') \<or> Contains v (CHR '','') then CHR 0x22 # v @ [CHR 0x22]
      else v)"

definition sanitizeCookiePath :: "string \<Rightarrow> string" where
  "sanitizeCookiePath v = sanitizeOrWarn validCookiePathByte v"

section \<open>Reading and adding\<close>

definition cut_eq :: "string \<Rightarrow> string \<times> string" where
  "cut_eq part =
     (case Index (CHR ''='') part of
        None \<Rightarrow> (part, '''')
      | Some j \<Rightarrow> (take j part, drop (Suc j) part))"

definition read_part :: "string \<Rightarrow> string \<Rightarrow> Cookie list" where
  "read_part nfilter part0 =
     (let part = TrimSpace part0 in
      if part = [] then []
      else let (name, val) = cut_eq part in
        if \<not> isCookieNameValid name then []
        else if nfilter \<noteq> '''' \<and> nfilter \<noteq> name then []
        else case parseCookieValue val True of
          None \<Rightarrow> []
        | Some v \<Rightarrow> [\<lparr>Name = name, Value = v\<rparr>])"

definition read_line :: "string \<Rightarrow> string \<Rightarrow> Cookie list" where
  "read_line nfilter line =
     (let parts = Split (TrimSpace line) (CHR '';'') in
      if parts = [''''] then [] else concat (map (read_part nfilter) parts))"

definition readCookies :: "Header \<Rightarrow> string \<Rightarrow> Cookie list" where
  "readCookies h nfilter =
     (case map_of h ''Cookie'' of
        None \<Rightarrow> []
      | Some lines \<Rightarrow> concat (map (read_line nfilter) lines))"

definition Cookies :: "Header \<Rightarrow> Cookie list" where
  "Cookies h = readCookies h ''''"

definition Cookie_named :: "Header \<Rightarrow> string \<Rightarrow> Cookie option" where
  \<comment> \<open>\<open>None\<close> is \<open>ErrNoCookie\<close>\<close>
  "Cookie_named h name = (case readCookies h name of [] \<Rightarrow> None | c # cs \<Rightarrow> Some c)"

definition cookie_pair :: "Cookie \<Rightarrow> string" where
  "cookie_pair c = sanitizeCookieName (Name c) @ ''='' @ sanitizeCookieValue (Value c)"

definition AddCookie :: "Cookie \<Rightarrow> Header \<Rightarrow> Header" where
  "AddCookie c h =
     (let s = cookie_pair c; old = Get h ''Cookie'' in
      if old \<noteq> '''' then Set ''Cookie'' (old @ ''; '' @ s) h else Set ''Cookie'' s h)"

section \<open>Lookup by name\<close>

lemma read_part_filter:
  "n \<noteq> '''' \<Longrightarrow> read_part n p = filter (\<lambda>c. Name c = n) (read_part '''' p)"
  by (auto simp: read_part_def Let_def split: prod.splits option.splits)

lemma read_line_filter: "n \<noteq> '''' \<Longrightarrow> read_line n l = filter (\<lambda>c. Name c = n) (read_line '''' l)"
proof -
  assume n: "n \<noteq> ''''"
  have "concat (map (read_part n) ps) = filter (\<lambda>c. Name c = n) (concat (map (read_part '''') ps))" for ps
    by (induction ps) (simp_all add: read_part_filter [OF n])
  then show ?thesis by (simp add: read_line_def Let_def)
qed

lemma readCookies_filter:
  "n \<noteq> '''' \<Longrightarrow> readCookies h n = filter (\<lambda>c. Name c = n) (Cookies h)"
proof -
  assume n: "n \<noteq> ''''"
  have "concat (map (read_line n) ls) = filter (\<lambda>c. Name c = n) (concat (map (read_line '''') ls))" for ls
    by (induction ls) (simp_all add: read_line_filter [OF n])
  then show ?thesis by (simp add: readCookies_def Cookies_def split: option.split)
qed

lemma filter_first: "(case filter P xs of [] \<Rightarrow> None | c # cs \<Rightarrow> Some c) = find P xs"
  by (induction xs) auto

text \<open>
  Looking a cookie up by a non-empty name finds the first cookie of that name among all
  cookies of the request, and an empty name finds the first cookie of any name.
\<close>
lemma Cookie_named_finds_first:
  "Cookie_named h name =
     (if name = '''' then find (\<lambda>c. True) (Cookies h) else find (\<lambda>c. Name c = name) (Cookies h))"
proof (cases "name = ''''")
  case True
  then show ?thesis by (cases "Cookies h") (simp_all add: Cookie_named_def Cookies_def)
next
  case False
  then show ?thesis by (simp add: Cookie_named_def readCookies_filter filter_first)
qed

section \<open>Adding and reading back\<close>

definition good_cookie :: "Cookie \<Rightarrow> bool" where
  "good_cookie c \<longleftrightarrow> isCookieNameValid (Name c) \<and> list_all validCookieValueByte (Value c)"

lemma token_graphic: "IsTokenRune c \<Longrightarrow> graphic c \<and> c \<noteq> CHR '';'' \<and> c \<noteq> CHR ''=''"
  by (auto simp: IsTokenRune_ord graphic_def)

lemma good_name:
  assumes "good_cookie c"
  shows "Name c \<noteq> []" "list_all IsTokenRune (Name c)" "sanitizeCookieName (Name c) = Name c"
proof -
  show "Name c \<noteq> []" using assms by (auto simp: good_cookie_def isCookieNameValid_def)
  then show t: "list_all IsTokenRune (Name c)"
    using assms by (auto simp: good_cookie_def isCookieNameValid_def IndexFunc_None_iff isNotToken_def list_all_iff)
  then have "x \<in> set (Name c) \<Longrightarrow> x \<noteq> LF \<and> x \<noteq> CR" for x
    using token_graphic [of x] by (auto simp: list_all_iff graphic_def LF_def CR_def)
  then show "sanitizeCookieName (Name c) = Name c"
    by (simp add: sanitizeCookieName_def map_idI)
qed

lemma good_value:
  assumes "list_all validCookieValueByte v"
  shows "parseCookieValue (sanitizeCookieValue v) True = Some v"
    and "sanitizeCookieValue v = [] \<or> graphic (last (sanitizeCookieValue v))"
    and "CHR '';'' \<notin> set (sanitizeCookieValue v)"
proof -
  have q: "CHR 0x22 \<notin> set v" and semi: "CHR '';'' \<notin> set v" and gr: "x \<in> set v \<Longrightarrow> x \<noteq> CHR '' '' \<Longrightarrow> graphic x" for x
  proof -
    show "CHR 0x22 \<notin> set v" "CHR '';'' \<notin> set v"
      using assms by (auto simp: list_all_iff validCookieValueByte_def)
    assume x: "x \<in> set v" "x \<noteq> CHR '' ''"
    then have "ord x \<noteq> 32" using ord_eq_iff [of x "CHR '' ''"] by simp
    with x assms show "graphic x" by (fastforce simp: list_all_iff validCookieValueByte_def graphic_def)
  qed
  have s: "sanitizeOrWarn validCookieValueByte v = v" using assms by (simp add: sanitizeOrWarn_def)
  have "hd v \<noteq> CHR 0x22" if "v \<noteq> []" using q that by (metis hd_in_set)
  then have "unquote True v = v" by (cases v) (auto simp: unquote_def)
  moreover have "unquote True (CHR 0x22 # v @ [CHR 0x22]) = v" by (simp add: unquote_def)
  ultimately show "parseCookieValue (sanitizeCookieValue v) True = Some v"
    using assms s by (auto simp: parseCookieValue_def sanitizeCookieValue_def Let_def)
  show "sanitizeCookieValue v = [] \<or> graphic (last (sanitizeCookieValue v))"
  proof (cases "v = [] \<or> CHR '' '' \<in> set v")
    case True
    with s show ?thesis by (auto simp: sanitizeCookieValue_def graphic_def)
  next
    case False
    then have "last v \<noteq> CHR '' ''" by (metis last_in_set)
    with False have "graphic (last v)" using gr [of "last v"] by simp
    with s show ?thesis by (auto simp: sanitizeCookieValue_def graphic_def)
  qed
  show "CHR '';'' \<notin> set (sanitizeCookieValue v)"
    using semi s by (auto simp: sanitizeCookieValue_def Let_def)
qed

lemma cookie_pair_good:
  assumes "good_cookie c"
  shows "cookie_pair c \<noteq> []" "graphic (hd (cookie_pair c))" "graphic (last (cookie_pair c))"
    "CHR '';'' \<notin> set (cookie_pair c)" "read_part '''' (cookie_pair c) = [c]"
proof -
  note n = good_name [OF assms]
  have v: "list_all validCookieValueByte (Value c)" using assms by (simp add: good_cookie_def)
  have cp: "cookie_pair c = Name c @ ''='' @ sanitizeCookieValue (Value c)" using n by (simp add: cookie_pair_def)
  show ne: "cookie_pair c \<noteq> []" by (simp add: cp)
  have tok: "x \<in> set (Name c) \<Longrightarrow> graphic x \<and> x \<noteq> CHR '';'' \<and> x \<noteq> CHR ''=''" for x
    using n(2) token_graphic by (auto simp: list_all_iff)
  show hd: "graphic (hd (cookie_pair c))" using tok n(1) by (simp add: cp)
  show la: "graphic (last (cookie_pair c))"
    using good_value(2) [OF v] by (auto simp: cp graphic_def)
  show "CHR '';'' \<notin> set (cookie_pair c)" using good_value(3) [OF v] tok by (auto simp: cp)
  have "TrimSpace (cookie_pair c) = cookie_pair c" using hd la by (simp add: TrimSpace_graphic)
  moreover have "CHR ''='' \<notin> set (Name c)" using tok by blast
  then have "cut_eq (cookie_pair c) = (Name c, sanitizeCookieValue (Value c))"
    by (simp add: cut_eq_def cp)
  ultimately show "read_part '''' (cookie_pair c) = [c]"
    using ne good_value(1) [OF v] assms by (simp add: read_part_def good_cookie_def)
qed

lemma canonical_Cookie: "CanonicalHeaderKey ''Cookie'' = ''Cookie''"
  by (simp add: CanonicalHeaderKey_def IsTokenRune_ord upper_ascii_def lower_ascii_def)

definition cookie_parts :: "Cookie list \<Rightarrow> string list" where
  "cookie_parts cs = cookie_pair (hd cs) # map (\<lambda>c. CHR '' '' # cookie_pair c) (tl cs)"

lemma cookie_parts_snoc: "cs \<noteq> [] \<Longrightarrow> cookie_parts (cs @ [c]) = cookie_parts cs @ [CHR '' '' # cookie_pair c]"
  by (cases cs) (simp_all add: cookie_parts_def)

lemma Join_snoc: "xs \<noteq> [] \<Longrightarrow> Join (xs @ [x]) sep = Join xs sep @ sep @ x"
  by (induction xs rule: induct_list012) (simp_all add: Join_Cons)

lemma AddCookie_fold:
  assumes "list_all good_cookie cs" "cs \<noteq> []"
  shows "fold AddCookie cs [] = [(''Cookie'', [Join (cookie_parts cs) '';''])] \<and>
     graphic (hd (Join (cookie_parts cs) '';'')) \<and> graphic (last (Join (cookie_parts cs) '';'')) \<and>
     Join (cookie_parts cs) '';'' \<noteq> []"
  using assms(2,1)
proof (induction cs rule: rev_nonempty_induct)
  case (single c)
  then show ?case using cookie_pair_good [of c]
    by (simp add: cookie_parts_def AddCookie_def Get_def get_def field_values_def Set_def Let_def canonical_Cookie)
next
  case (snoc c cs)
  let ?l = "Join (cookie_parts cs) '';''"
  have IH: "fold AddCookie cs [] = [(''Cookie'', [?l])]" "graphic (hd ?l)" "?l \<noteq> []"
    using snoc by auto
  have "Join (cookie_parts (cs @ [c])) '';'' = ?l @ ''; '' @ cookie_pair c"
    using snoc.hyps Join_snoc [of "cookie_parts cs"] by (simp add: cookie_parts_snoc) (simp add: cookie_parts_def)
  moreover have "AddCookie c [(''Cookie'', [?l])] = [(''Cookie'', [?l @ ''; '' @ cookie_pair c])]"
    using IH by (simp add: AddCookie_def Get_def get_def field_values_def Set_def Let_def canonical_Cookie)
  ultimately show ?case using IH cookie_pair_good [of c] snoc.prems by simp
qed

lemma read_line_cookies:
  assumes "list_all good_cookie cs" "cs \<noteq> []"
  shows "read_line '''' (Join (cookie_parts cs) '';'') = cs"
proof -
  let ?l = "Join (cookie_parts cs) '';''"
  have t: "TrimSpace ?l = ?l" using AddCookie_fold [OF assms] by (simp add: TrimSpace_graphic)
  have "CHR '';'' \<notin> set p" if "p \<in> set (cookie_parts cs)" for p
    using that assms cookie_pair_good(4) by (cases cs) (auto simp: cookie_parts_def list_all_iff)
  then have sp: "Split ?l (CHR '';'') = cookie_parts cs"
    by (intro Split_Join) (auto simp: cookie_parts_def)
  have part: "read_part '''' (cookie_pair c) = [c]" "read_part '''' (CHR '' '' # cookie_pair c) = [c]"
    if "c \<in> set cs" for c
    using that assms cookie_pair_good(5) [of c] by (auto simp: list_all_iff read_part_def TrimSpace_blank)
  obtain c cs' where cs: "cs = c # cs'" using assms by (cases cs) auto
  have "concat (map (read_part '''') (map (\<lambda>c. CHR '' '' # cookie_pair c) xs)) = xs"
    if "set xs \<subseteq> set cs" for xs
    using that part by (induction xs) auto
  then have "concat (map (read_part '''') (cookie_parts cs)) = cs"
    using part cs by (auto simp: cookie_parts_def)
  moreover have "cookie_parts cs \<noteq> ['''']"
    using cookie_pair_good(1) [of c] assms cs by (simp add: cookie_parts_def)
  ultimately show ?thesis using t sp by (simp add: read_line_def)
qed

text \<open>
  Cookies added to a request with \<open>AddCookie\<close> are read back by \<open>Cookies\<close> as they were, in
  order, when their names are tokens and their values hold valid bytes; values with spaces or
  commas survive because they are quoted.
\<close>
lemma cookies_roundtrip:
  assumes "list_all good_cookie cs"
  shows "Cookies (fold AddCookie cs []) = cs"
proof (cases "cs = []")
  case False
  then show ?thesis using AddCookie_fold [OF assms False] read_line_cookies [OF assms False]
    by (simp add: Cookies_def readCookies_def)
qed (simp add: Cookies_def readCookies_def)

lemma cookies_roundtrip_witness:
  "Cookies (fold AddCookie [\<lparr>Name = ''a'', Value = ''1, 2''\<rparr>, \<lparr>Name = ''b'', Value = ''''\<rparr>] []) =
     [\<lparr>Name = ''a'', Value = ''1, 2''\<rparr>, \<lparr>Name = ''b'', Value = ''''\<rparr>]"
  by (rule cookies_roundtrip)
    (simp add: good_cookie_def isCookieNameValid_def validCookieValueByte_def isNotToken_def IsTokenRune_ord)

end
