(* ===== verification/Messages.thy ===== *)
theory Messages
  imports Framing Url Cookies Status
begin

text \<open>
  Requests and responses: \<open>readRequest\<close> and \<open>Request.write\<close> of \<open>pkg/http/request.go\<close>,
  \<open>ReadResponse\<close> and \<open>Response.Write\<close> of \<open>pkg/http/response.go\<close>, and what they call there and
  in \<open>pkg/http/http.go\<close>.

  A message record has the fields of Go's struct that reading sets and writing consults. The
  Punycode conversion of \<open>golang.org/x/net/idna\<close> is the argument \<open>toASCII\<close>. The writer is the
  stream of bytes that were accepted for the peer; \<open>bufio.Writer\<close> only delays them.
\<close>

section \<open>Lines and versions\<close>

definition parseRequestLine :: "string \<Rightarrow> (string \<times> string \<times> string) option" where
  "parseRequestLine line =
     (case Index (CHR '' '') line of
        None \<Rightarrow> None
      | Some s1 \<Rightarrow>
          (case Index (CHR '' '') (drop (Suc s1) line) of
             None \<Rightarrow> None
           | Some s2 \<Rightarrow>
               Some (take s1 line, take s2 (drop (Suc s1) line), drop (Suc s2) (drop (Suc s1) line))))"

definition Big :: int where "Big = 1000000"

definition ParseHTTPVersion :: "string \<Rightarrow> (int \<times> int) option" where
  "ParseHTTPVersion vers =
     (if vers = ''HTTP/1.1'' then Some (1, 1)
      else if vers = ''HTTP/1.0'' then Some (1, 0)
      else if \<not> HasPrefix vers ''HTTP/'' then None
      else case Index (CHR ''.'') vers of
        None \<Rightarrow> None
      | Some dot \<Rightarrow>
          (case Atoi (drop 5 (take dot vers)) of
             Inl e \<Rightarrow> None
           | Inr major \<Rightarrow>
               if major < 0 \<or> major > Big then None
               else case Atoi (drop (Suc dot) vers) of
                 Inl e \<Rightarrow> None
               | Inr minor \<Rightarrow> if minor < 0 \<or> minor > Big then None else Some (major, minor)))"

definition validMethod :: "string \<Rightarrow> bool" where
  "validMethod method \<longleftrightarrow> length method > 0 \<and> IndexFunc isNotToken method = None"

section \<open>Hosts\<close>

definition isASCII :: "string \<Rightarrow> bool" where
  "isASCII s \<longleftrightarrow> list_all (\<lambda>c. ord c < 128) s"

definition SplitHostPort :: "string \<Rightarrow> (string \<times> string) option" where
  "SplitHostPort hostport =
     (case LastIndex (CHR '':'') hostport of
        None \<Rightarrow> None
      | Some i \<Rightarrow>
          let finish = (\<lambda>host j k.
                if CHR ''['' \<in> set (drop j hostport) then None
                else if CHR '']'' \<in> set (drop k hostport) then None
                else Some (host, drop (Suc i) hostport)) in
          if hd hostport = CHR ''['' then
            (case Index (CHR '']'') hostport of
               None \<Rightarrow> None
             | Some e \<Rightarrow>
                 if Suc e = length hostport then None
                 else if Suc e \<noteq> i then None
                 else finish (drop 1 (take e hostport)) 1 (Suc e))
          else if CHR '':'' \<in> set (take i hostport) then None
          else finish (take i hostport) 0 0)"

definition JoinHostPort :: "string \<Rightarrow> string \<Rightarrow> string" where
  "JoinHostPort host port =
     (if Contains host (CHR '':'') then ''['' @ host @ '']:'' @ port else host @ '':'' @ port)"

definition idnaASCII :: "(string \<Rightarrow> string option) \<Rightarrow> string \<Rightarrow> string option" where
  "idnaASCII toASCII v = (if isASCII v then Some v else toASCII v)"

definition cleanHost :: "(string \<Rightarrow> string option) \<Rightarrow> string \<Rightarrow> string" where
  "cleanHost toASCII in0 =
     (let inp = takeWhile (\<lambda>c. c \<noteq> CHR '' '' \<and> c \<noteq> CHR ''/'') in0 in
      case SplitHostPort inp of
        None \<Rightarrow> (case idnaASCII toASCII inp of None \<Rightarrow> inp | Some a \<Rightarrow> a)
      | Some (host, port) \<Rightarrow>
          (case idnaASCII toASCII host of None \<Rightarrow> inp | Some a \<Rightarrow> JoinHostPort a port))"

definition removeZone :: "string \<Rightarrow> string" where
  "removeZone host =
     (if \<not> HasPrefix host ''['' then host
      else case LastIndex (CHR '']'') host of
        None \<Rightarrow> host
      | Some i \<Rightarrow>
          (case LastIndex (CHR ''%'') (take i host) of
             None \<Rightarrow> host
           | Some j \<Rightarrow> take j host @ drop i host))"

section \<open>Requests\<close>

record Request =
  r_Method :: string
  r_URL :: URL
  r_Proto :: string
  r_ProtoMajor :: int
  r_ProtoMinor :: int
  r_Header :: Header
  r_Body :: "Body option"
  r_ContentLength :: int
  r_TransferEncoding :: "string list"
  r_Close :: bool
  r_Host :: string
  r_Trailer :: "Header option"
  r_RequestURI :: string

definition fixPragmaCacheControl :: "Header \<Rightarrow> Header" where
  "fixPragmaCacheControl header =
     (case map_of header ''Pragma'' of
        Some (v # vs) \<Rightarrow>
          if v = ''no-cache'' \<and> map_of header ''Cache-Control'' = None
          then AList.update ''Cache-Control'' [''no-cache''] header else header
      | _ \<Rightarrow> header)"

definition parse_target :: "string \<Rightarrow> string \<Rightarrow> io_error + URL" where
  "parse_target method uri =
     (let justAuthority = (method = ''CONNECT'' \<and> \<not> HasPrefix uri ''/'');
          rawurl = (if justAuthority then ''http://'' @ uri else uri) in
      case ParseRequestURI rawurl of
        Inl e \<Rightarrow> Inl (OtherError ''parse'')
      | Inr u \<Rightarrow> Inr (if justAuthority then u\<lparr>Scheme := ''''\<rparr> else u))"

definition isH2Upgrade :: "Request \<Rightarrow> bool" where
  "isH2Upgrade r \<longleftrightarrow> r_Method r = ''PRI'' \<and> r_Header r = [] \<and> Path (r_URL r) = ''*'' \<and> r_Proto r = ''HTTP/2.0''"

definition unexpected :: "io_error \<Rightarrow> io_error" where
  "unexpected e = (if e = EOF then ErrUnexpectedEOF else e)"

definition parse_first_line :: "string \<Rightarrow> io_error + (string \<times> string \<times> string \<times> int \<times> int \<times> URL)" where
  "parse_first_line s =
     (case parseRequestLine s of
        None \<Rightarrow> Inl (badStringError ''malformed HTTP request'' s)
      | Some (method, uri, proto) \<Rightarrow>
          if \<not> validMethod method then Inl (badStringError ''invalid method'' method)
          else case ParseHTTPVersion proto of
            None \<Rightarrow> Inl (badStringError ''malformed HTTP version'' proto)
          | Some (major, minor) \<Rightarrow>
              rbind (parse_target method uri) (\<lambda>u. Inr (method, uri, proto, major, minor, u)))"

definition finish_request ::
  "bool \<Rightarrow> string \<times> string \<times> string \<times> int \<times> int \<times> URL \<Rightarrow> Header \<Rightarrow> bufr \<Rightarrow> io_error + Request" where
  "finish_request deleteHostHeader l header0 b =
     (case l of (method, uri, proto, major, minor, u) \<Rightarrow>
        let host = (if URL_Host u = '''' then get header0 ''Host'' else URL_Host u);
            header1 = (if deleteHostHeader then AList.delete ''Host'' header0 else header0);
            header2 = fixPragmaCacheControl header1;
            (close, header3) = shouldClose major minor header2 False in
        rbind (readTransfer False 200 method major minor close header3 b) (\<lambda>t.
          let req = \<lparr>r_Method = method, r_URL = u, r_Proto = proto, r_ProtoMajor = major,
                r_ProtoMinor = minor, r_Header = t_Header t, r_Body = Some (t_Body t),
                r_ContentLength = t_ContentLength t, r_TransferEncoding = t_TransferEncoding t,
                r_Close = t_Close t, r_Host = host, r_Trailer = t_Trailer t, r_RequestURI = uri\<rparr> in
          Inr (if isH2Upgrade req then req\<lparr>r_ContentLength := - 1, r_Close := True\<rparr> else req)))"

definition readRequest :: "bool \<Rightarrow> bufr \<Rightarrow> (io_error + Request) \<times> bufr" where
  \<comment> \<open>with the reader as it is left; the body of a request holds the same reader\<close>
  "readRequest deleteHostHeader b =
     (case readLineSlice b of
        (Inl e, b1) \<Rightarrow> (Inl e, b1)
      | (Inr s, b1) \<Rightarrow>
          (case parse_first_line s of
             Inl e \<Rightarrow> (Inl (unexpected e), b1)
           | Inr l \<Rightarrow>
               (case ReadMIMEHeader_b b1 of
                  (Some e, _, b2) \<Rightarrow> (Inl (unexpected e), b2)
                | (None, header, b2) \<Rightarrow>
                    (case finish_request deleteHostHeader l header b2 of
                       Inl e \<Rightarrow> (Inl (unexpected e), b2)
                     | Inr req \<Rightarrow> (Inr req, b2)))))"

definition ReadRequest :: "bufr \<Rightarrow> (io_error + Request) \<times> bufr" where
  "ReadRequest b = readRequest True b"

subsection \<open>Writing\<close>

definition reqWriteExcludeHeader :: "string \<Rightarrow> bool" where
  "reqWriteExcludeHeader k \<longleftrightarrow>
     k \<in> set [''Host'', ''User-Agent'', ''Content-Length'', ''Transfer-Encoding'', ''Trailer'']"

definition defaultUserAgent :: string where
  "defaultUserAgent = ''Go-http-client/1.1''"

definition write_host :: "(string \<Rightarrow> string option) \<Rightarrow> Request \<Rightarrow> string" where
  "write_host toASCII r =
     (let host = cleanHost toASCII (r_Host r) in
      removeZone (if host = '''' then cleanHost toASCII (URL_Host (r_URL r)) else host))"

definition write_uri :: "string \<Rightarrow> Request \<Rightarrow> string" where
  "write_uri host r =
     (if r_Method r = ''CONNECT'' \<and> Path (r_URL r) = '''' then host else RequestURI (r_URL r))"

definition user_agent :: "Header \<Rightarrow> string" where
  "user_agent h =
     (if map_of h ''User-Agent'' \<noteq> None then Get h ''User-Agent'' else defaultUserAgent)"

definition start_writes :: "(string \<Rightarrow> string option) \<Rightarrow> Request \<Rightarrow> string list" where
  "start_writes toASCII r =
     (let host = write_host toASCII r; ua = user_agent (r_Header r) in
      [valueOrDefault (r_Method r) ''GET'' @ '' '' @ write_uri host r @ '' HTTP/1.1'' @ CRLF,
       ''Host: '' @ host @ CRLF] @
      (if ua \<noteq> '''' then [''User-Agent: '' @ ua @ CRLF] else []))"

definition request_writer :: "(Body \<Rightarrow> Body option \<times> int) \<Rightarrow> Request \<Rightarrow> io_error + transferWriter" where
  "request_writer probe r =
     newTransferWriter_request probe (r_Method r) (r_Body r) (r_ContentLength r) (r_Close r)
       (r_TransferEncoding r) (r_Header r) (r_Trailer r)"

definition Request_write ::
  "(Body \<Rightarrow> Body option \<times> int) \<Rightarrow> (string \<Rightarrow> string option) \<Rightarrow> Request \<Rightarrow> writer \<Rightarrow>
     (io_error option \<times> Body option) \<times> writer" where
  \<comment> \<open>with the body as it is left\<close>
  "Request_write probe toASCII r w0 =
     (case write_all (start_writes toASCII r) w0 of
        (Some e, w1) \<Rightarrow> ((Some e, r_Body r), w1)
      | (None, w1) \<Rightarrow>
          (case request_writer probe r of
             Inl e \<Rightarrow> ((Some e, r_Body r), w1)
           | Inr tw \<Rightarrow>
               (case writeHeader tw w1 of
                  (Some e, w2) \<Rightarrow> ((Some e, r_Body r), w2)
                | (None, w2) \<Rightarrow>
                    (case writeSubset reqWriteExcludeHeader (r_Header r) w2 of
                       (Some e, w3) \<Rightarrow> ((Some e, r_Body r), w3)
                     | (None, w3) \<Rightarrow>
                         (case WriteString CRLF w3 of
                            (Some e, w4) \<Rightarrow> ((Some e, r_Body r), w4)
                          | (None, w4) \<Rightarrow> writeBody tw w4)))))"

section \<open>Responses\<close>

record Response =
  p_Status :: string
  p_StatusCode :: int
  p_Proto :: string
  p_ProtoMajor :: int
  p_ProtoMinor :: int
  p_Header :: Header
  p_Body :: "Body option"
  p_ContentLength :: int
  p_TransferEncoding :: "string list"
  p_Close :: bool
  p_Trailer :: "Header option"

definition parse_status_line :: "string \<Rightarrow> io_error + (string \<times> string \<times> int \<times> int \<times> int)" where
  "parse_status_line line =
     (case Index (CHR '' '') line of
        None \<Rightarrow> Inl (badStringError ''malformed HTTP response'' line)
      | Some i \<Rightarrow>
          let proto = take i line;
              status = dropWhile (\<lambda>c. c = CHR '' '') (drop (Suc i) line);
              statusCode = (case Index (CHR '' '') status of None \<Rightarrow> status | Some j \<Rightarrow> take j status) in
          if length statusCode \<noteq> 3
          then Inl (badStringError ''malformed HTTP status code'' statusCode)
          else case Atoi statusCode of
            Inl e \<Rightarrow> Inl (badStringError ''malformed HTTP status code'' statusCode)
          | Inr code \<Rightarrow>
              if code < 0 then Inl (badStringError ''malformed HTTP status code'' statusCode)
              else case ParseHTTPVersion proto of
                None \<Rightarrow> Inl (badStringError ''malformed HTTP version'' proto)
              | Some (major, minor) \<Rightarrow> Inr (proto, status, code, major, minor))"

definition finish_response ::
  "string \<Rightarrow> string \<times> string \<times> int \<times> int \<times> int \<Rightarrow> Header \<Rightarrow> bufr \<Rightarrow> io_error + Response" where
  "finish_response requestMethod l header0 b =
     (case l of (proto, status, code, major, minor) \<Rightarrow>
        rbind (readTransfer True code requestMethod major minor False (fixPragmaCacheControl header0) b)
          (\<lambda>t. Inr \<lparr>p_Status = status, p_StatusCode = code, p_Proto = proto, p_ProtoMajor = major,
                p_ProtoMinor = minor, p_Header = t_Header t, p_Body = Some (t_Body t),
                p_ContentLength = t_ContentLength t, p_TransferEncoding = t_TransferEncoding t,
                p_Close = t_Close t, p_Trailer = t_Trailer t\<rparr>))"

definition ReadResponse :: "bufr \<Rightarrow> (io_error + Response) \<times> bufr" where
  \<comment> \<open>with no request given, so that a GET is assumed\<close>
  "ReadResponse r =
     (case readLineSlice r of
        (Inl e, r1) \<Rightarrow> (Inl (unexpected e), r1)
      | (Inr line, r1) \<Rightarrow>
          (case parse_status_line line of
             Inl e \<Rightarrow> (Inl e, r1)
           | Inr l \<Rightarrow>
               (case ReadMIMEHeader_b r1 of
                  (Some e, _, r2) \<Rightarrow> (Inl (unexpected e), r2)
                | (None, header, r2) \<Rightarrow>
                    (case finish_response ''GET'' l header r2 of
                       Inl e \<Rightarrow> (Inl e, r2)
                     | Inr resp \<Rightarrow> (Inr resp, r2)))))"

definition respExcludeHeader :: "string \<Rightarrow> bool" where
  "respExcludeHeader k \<longleftrightarrow> k \<in> set [''Content-Length'', ''Transfer-Encoding'', ''Trailer'']"

definition format_03d :: "int \<Rightarrow> string" where
  "format_03d n = (let s = Itoa n in replicate (3 - length s) (CHR ''0'') @ s)"

definition status_line :: "Response \<Rightarrow> string" where
  "status_line r =
     (let code = p_StatusCode r;
          txt = (if p_Status r = '''' then
                   (case map_of statusText code of
                      Some s \<Rightarrow> s
                    | None \<Rightarrow> ''status code '' @ Itoa code)
                 else TrimPrefix (p_Status r) (Itoa code @ '' '')) in
      ''HTTP/'' @ Itoa (p_ProtoMajor r) @ ''.'' @ Itoa (p_ProtoMinor r) @ '' '' @ format_03d code @ '' '' @
        txt @ CRLF)"

text \<open>The probe of a body of unknown length: the read error, if any, and the response afterwards.\<close>

definition probe_response :: "Response \<Rightarrow> io_error option \<times> Response" where
  "probe_response r =
     (if p_ContentLength r \<noteq> 0 then (None, r)
      else case p_Body r of
        None \<Rightarrow> (None, r)
      | Some (NoBody b) \<Rightarrow> (None, r)
      | Some (Prefixed (c # p) b) \<Rightarrow> (None, r\<lparr>p_ContentLength := - 1\<rparr>)
      | Some (Prefixed [] b) \<Rightarrow> (None, r)
      | Some (TheBody b) \<Rightarrow>
          (case body_Read 1 b of
             ((p, e), b') \<Rightarrow>
               if e \<noteq> None \<and> e \<noteq> Some EOF then (e, r\<lparr>p_Body := Some (TheBody b')\<rparr>)
               else if p = [] then (None, r\<lparr>p_Body := Some (NoBody (src_reader (b_src b')))\<rparr>)
               else (None, r\<lparr>p_ContentLength := - 1, p_Body := Some (Prefixed p b')\<rparr>)))"

definition Response_Write ::
  "Response \<Rightarrow> writer \<Rightarrow> (io_error option \<times> Body option) \<times> writer" where
  "Response_Write r w0 =
     (case WriteString (status_line r) w0 of
        (Some e, w1) \<Rightarrow> ((Some e, p_Body r), w1)
      | (None, w1) \<Rightarrow>
          (case probe_response r of
             (Some e, r1) \<Rightarrow> ((Some e, p_Body r1), w1)
           | (None, r1) \<Rightarrow>
               let close = (p_Close r1 \<or> p_ContentLength r1 = - 1 \<and>
                     protoAtLeast (p_ProtoMajor r1) (p_ProtoMinor r1) 1 1 \<and>
                     \<not> chunked (p_TransferEncoding r1));
                   tw = newTransferWriter_response '''' (p_Body r1) (p_ContentLength r1) close
                     (p_TransferEncoding r1) (p_Header r1) (p_Trailer r1)
                     (p_ProtoMajor r1) (p_ProtoMinor r1);
                   zero = (if p_ContentLength r1 = 0 \<and> \<not> chunked (p_TransferEncoding r1) \<and>
                              \<not> shouldSendContentLength tw \<and> bodyAllowedForStatus (p_StatusCode r)
                           then [''Content-Length: 0'' @ CRLF] else []) in
               (case writeHeader tw w1 of
                  (Some e, w2) \<Rightarrow> ((Some e, p_Body r1), w2)
                | (None, w2) \<Rightarrow>
                    (case writeSubset respExcludeHeader (p_Header r) w2 of
                       (Some e, w3) \<Rightarrow> ((Some e, p_Body r1), w3)
                     | (None, w3) \<Rightarrow>
                         (case write_all (zero @ [CRLF]) w3 of
                            (Some e, w4) \<Rightarrow> ((Some e, p_Body r1), w4)
                          | (None, w4) \<Rightarrow> writeBody tw w4)))))"

section \<open>Header keys that were read are canonical\<close>

definition canonical_keys :: "Header \<Rightarrow> bool" where
  \<comment> \<open>what Go's map type gives, at most one entry per key, and every key in canonical form\<close>
  "canonical_keys h \<longleftrightarrow> distinct (map fst h) \<and> list_all (\<lambda>kv. CanonicalHeaderKey (fst kv) = fst kv) h"

lemma canonical_update:
  "canonical_keys h \<Longrightarrow> CanonicalHeaderKey k = k \<Longrightarrow> canonical_keys (AList.update k v h)"
proof -
  have "list_all (\<lambda>kv. CanonicalHeaderKey (fst kv) = fst kv) h \<Longrightarrow> CanonicalHeaderKey k = k \<Longrightarrow>
      list_all (\<lambda>kv. CanonicalHeaderKey (fst kv) = fst kv) (AList.update k v h)" by (induction h) auto
  then show "canonical_keys h \<Longrightarrow> CanonicalHeaderKey k = k \<Longrightarrow> ?thesis"
    by (simp add: canonical_keys_def distinct_update)
qed

lemma canonical_delete: "canonical_keys h \<Longrightarrow> canonical_keys (AList.delete k h)"
proof -
  have "list_all (\<lambda>kv. CanonicalHeaderKey (fst kv) = fst kv) h \<Longrightarrow>
      list_all (\<lambda>kv. CanonicalHeaderKey (fst kv) = fst kv) (AList.delete k h)" by (induction h) auto
  then show "canonical_keys h \<Longrightarrow> ?thesis" by (simp add: canonical_keys_def distinct_delete)
qed

lemma canonical_Del: "canonical_keys h \<Longrightarrow> canonical_keys (Del k h)"
  by (simp add: Del_def canonical_delete)

lemma canonical_Add: "canonical_keys h \<Longrightarrow> canonical_keys (Add k v h)"
  by (simp add: Add_def Let_def canonical_update)

lemma canonical_read_header:
  "read_header m r = (res, m', r') \<Longrightarrow> canonical_keys m \<Longrightarrow> canonical_keys m'"
proof (induction m r arbitrary: m' rule: read_header.induct)
  case (1 m r)
  note step = "1.prems"(1) [unfolded read_header.simps [of m r]]
  show ?case
  proof (cases "readContinuedLineSlice r")
    case (Pair res1 r1)
    show ?thesis
    proof (cases res1)
      case (Inl e)
      with Pair step "1.prems"(2) show ?thesis by simp
    next
      case (Inr kv)
      show ?thesis
      proof (cases "kv = [] \<or> Index (CHR '':'') kv = None")
        case True
        with Pair Inr step "1.prems"(2) show ?thesis by (auto split: if_splits)
      next
        case False
        then obtain i where i: "kv \<noteq> []" "Index (CHR '':'') kv = Some i" by auto
        show ?thesis
        proof (cases "CanonicalHeaderKey (take i kv) = []")
          case True
          with "1.IH"(1) [OF Pair [symmetric] Inr i refl True] step Pair Inr i "1.prems"(2) show ?thesis
            by simp
        next
          case nk: False
          with "1.IH"(2) [OF Pair [symmetric] Inr i refl nk] step Pair Inr i "1.prems"(2) show ?thesis
            by (simp add: Let_def canonical_update)
        qed
      qed
    qed
  qed
qed

lemma canonical_ReadMIMEHeader: "ReadMIMEHeader_b r = (res, m, r') \<Longrightarrow> canonical_keys m"
proof -
  assume rm: "ReadMIMEHeader_b r = (res, m, r')"
  have nil: "canonical_keys []" by (simp add: canonical_keys_def)
  show ?thesis
  proof (cases "\<exists>c r1. Peek 1 r = ([c], r1) \<and> is_blank c")
    case True
    then obtain c r1 where "Peek 1 r = ([c], r1)" "is_blank c" by blast
    with rm have "m = []" by (auto simp: ReadMIMEHeader_b_def split: prod.splits sum.splits)
    with nil show ?thesis by simp
  next
    case False
    obtain p r1 where pk: "Peek 1 r = (p, r1)" by fastforce
    with False rm have "read_header [] r1 = (res, m, r')"
      by (auto simp: ReadMIMEHeader_b_def split: list.splits if_splits)
    with nil show ?thesis by (rule canonical_read_header [rotated])
  qed
qed

lemma canonical_dedup: "dedup_length h = Inr h' \<Longrightarrow> canonical_keys h \<Longrightarrow> canonical_keys h'"
  by (auto simp: dedup_length_def canonical_Add canonical_Del split: list.splits if_splits)

lemma canonical_fixLength: "fixLength a b c h te = Inr (n, h') \<Longrightarrow> canonical_keys h \<Longrightarrow> canonical_keys h'"
  by (auto simp: fixLength_def rbind_Inr_iff Let_def canonical_Del dest!: canonical_dedup split: if_splits)

lemma canonical_fixTE: "fixTransferEncoding a b h = Inr (h', te) \<Longrightarrow> canonical_keys h \<Longrightarrow> canonical_keys h'"
  by (auto simp: fixTransferEncoding_def rbind_Inr_iff Let_def canonical_delete split: option.splits if_splits)

lemma canonical_fixTrailer: "fixTrailer h te = Inr (tr, h') \<Longrightarrow> canonical_keys h \<Longrightarrow> canonical_keys h'"
  by (auto simp: fixTrailer_def Let_def canonical_Del split: option.splits if_splits)

lemma canonical_shouldClose: "shouldClose a b h c = (x, h') \<Longrightarrow> canonical_keys h \<Longrightarrow> canonical_keys h'"
  by (auto simp: shouldClose_def Let_def canonical_Del split: if_splits)

lemma readTransfer_cases:
  assumes "readTransfer isResponse status meth major minor close header r = Inr t"
  obtains c1 h1 mj mn h2 te n h3 where
    "(if isResponse then shouldClose major minor header True else (close, header)) = (c1, h1)"
    "(if major = 0 \<and> minor = 0 then (1, 1) else (major, minor)) = (mj, mn)"
    "fixTransferEncoding mj mn h1 = Inr (h2, te)" "fixLength isResponse status meth h2 te = Inr (n, h3)"
    "fixTrailer h3 te = Inr (t_Trailer t, t_Header t)" "t_TransferEncoding t = te"
    "t_Body t = choose_body meth status te n (t_Close t) (t_Trailer t) r"
    "\<not> (isResponse \<and> meth = ''HEAD'') \<longrightarrow> t_ContentLength t = n"
proof -
  obtain c1 h1 where s: "(if isResponse then shouldClose major minor header True else (close, header)) = (c1, h1)"
    by fastforce
  obtain mj mn where v: "(if major = 0 \<and> minor = 0 then (1, 1) else (major, minor)) = (mj, mn)" by fastforce
  from assms s v show thesis
    by (auto simp: readTransfer_def rbind_Inr_iff Let_def intro: that split: if_splits)
qed

lemma canonical_readTransfer:
  assumes "readTransfer isResponse status meth major minor close header r = Inr t" "canonical_keys header"
  shows "canonical_keys (t_Header t)"
  using assms(1)
proof (cases rule: readTransfer_cases)
  case (1 c1 h1 mj mn h2 te n h3)
  have "canonical_keys h1" using 1(1) assms(2) canonical_shouldClose by (auto split: if_splits)
  then show ?thesis using 1 canonical_fixTE canonical_fixLength canonical_fixTrailer by metis
qed

lemma canonical_finish_request:
  assumes "finish_request d l h b = Inr req" "canonical_keys h"
  shows "canonical_keys (r_Header req)"
proof -
  obtain meth uri proto major minor u where l: "l = (meth, uri, proto, major, minor, u)"
    by (metis surj_pair)
  let ?h = "fixPragmaCacheControl (if d then AList.delete ''Host'' h else h)"
  have cc: "CanonicalHeaderKey ''Cache-Control'' = ''Cache-Control''"
    by (simp add: CanonicalHeaderKey_def IsTokenRune_ord upper_ascii_def lower_ascii_def)
  have "canonical_keys ?h"
    using assms(2) by (auto simp: fixPragmaCacheControl_def canonical_delete canonical_update cc split: option.splits list.splits)
  moreover obtain c h3 where sc: "shouldClose major minor ?h False = (c, h3)" by fastforce
  ultimately have "canonical_keys h3" by (rule canonical_shouldClose [rotated])
  from assms(1) l sc obtain t where t: "readTransfer False 200 meth major minor c h3 b = Inr t"
    "r_Header req = t_Header t"
    by (auto simp: finish_request_def rbind_Inr_iff Let_def split: if_splits)
  with canonical_readTransfer [OF t(1) \<open>canonical_keys h3\<close>] show ?thesis by simp
qed

lemma ReadRequest_cases:
  assumes "ReadRequest b = (Inr req, b')"
  obtains s b1 l header where "readLineSlice b = (Inr s, b1)" "parse_first_line s = Inr l"
    "ReadMIMEHeader_b b1 = (None, header, b')" "finish_request True l header b' = Inr req"
  using assms
  by (auto simp: ReadRequest_def readRequest_def split: prod.splits sum.splits option.splits)

lemma canonical_ReadRequest: "ReadRequest b = (Inr req, b') \<Longrightarrow> canonical_keys (r_Header req)"
  by (erule ReadRequest_cases) (blast intro: canonical_finish_request canonical_ReadMIMEHeader)

section \<open>The head of a forwarded request\<close>

definition field_text :: "string \<times> string \<Rightarrow> string" where
  "field_text f = fst f @ '': '' @ snd f @ CRLF"

definition framing_fields :: "transferWriter \<Rightarrow> (string \<times> string) list" where
  "framing_fields t =
     (if Close t \<and> \<not> hasToken (get (tw_Header t) ''Connection'') ''close''
      then [(''Connection'', ''close'')] else []) @
     (if shouldSendContentLength t then [(''Content-Length'', Itoa (ContentLength t))]
      else if chunked (TransferEncoding t) then [(''Transfer-Encoding'', ''chunked'')]
      else []) @
     (case Trailer t of
        None \<Rightarrow> []
      | Some tr \<Rightarrow> if tr = [] then []
          else [(''Trailer'', Join (sort (map (CanonicalHeaderKey \<circ> fst) tr)) '','')])"

definition subset_fields :: "(string \<Rightarrow> bool) \<Rightarrow> Header \<Rightarrow> (string \<times> string) list" where
  "subset_fields exclude h =
     concat (map (\<lambda>kv. map (\<lambda>v. (fst kv, wire_value v)) (snd kv)) (sortedKeyValues exclude h))"

definition head_fields :: "(string \<Rightarrow> string option) \<Rightarrow> Request \<Rightarrow> transferWriter \<Rightarrow> (string \<times> string) list" where
  "head_fields toASCII r tw =
     [(''Host'', write_host toASCII r)] @
     (if user_agent (r_Header r) \<noteq> '''' then [(''User-Agent'', user_agent (r_Header r))] else []) @
     framing_fields tw @ subset_fields reqWriteExcludeHeader (r_Header r)"

definition framing_name :: "string \<Rightarrow> bool" where
  "framing_name k \<longleftrightarrow>
     map lower_ascii k = ''content-length'' \<or> map lower_ascii k = ''transfer-encoding''"

lemma subset_fields_text:
  "concat (concat (map field_writes (sortedKeyValues exclude h))) =
     concat (map field_text (subset_fields exclude h))"
proof -
  have "concat (field_writes (k, vv)) = concat (map field_text (map (\<lambda>v. (k, wire_value v)) vv))" for k vv
    by (induction vv) (simp_all add: field_writes_def field_text_def)
  then have "concat (field_writes kv) = concat (map field_text (map (\<lambda>v. (fst kv, wire_value v)) (snd kv)))" for kv
    by (metis prod.collapse)
  then have "concat (concat (map field_writes kvs)) =
      concat (map field_text (concat (map (\<lambda>kv. map (\<lambda>v. (fst kv, wire_value v)) (snd kv)) kvs)))" for kvs
    by (induction kvs) simp_all
  then show ?thesis by (simp add: subset_fields_def)
qed

lemma writeHeader_unlimited:
  assumes "room w = None" "\<And>tr. Trailer t = Some tr \<Longrightarrow> find forbidden_trailer (map (CanonicalHeaderKey \<circ> fst) tr) = None"
  shows "writeHeader t w = (None, w\<lparr>out := out w @ concat (map field_text (framing_fields t))\<rparr>)"
proof -
  let ?a = "(if Close t \<and> \<not> hasToken (get (tw_Header t) ''Connection'') ''close'' then [(''Connection'', ''close'')] else []) @
     (if shouldSendContentLength t then [(''Content-Length'', Itoa (ContentLength t))]
      else if chunked (TransferEncoding t) then [(''Transfer-Encoding'', ''chunked'')] else [])"
  have "concat (framing_writes t) = concat (map field_text ?a)"
    by (simp add: framing_writes_def field_text_def)
  then have w: "write_all (framing_writes t) w = (None, w\<lparr>out := out w @ concat (map field_text ?a)\<rparr>)"
    using write_all_unlimited [OF assms(1)] by simp
  show ?thesis
  proof (cases "Trailer t")
    case None
    with w show ?thesis by (simp add: writeHeader_def framing_fields_def)
  next
    case (Some tr)
    with w assms show ?thesis
      by (cases "tr = []") (simp_all add: writeHeader_def framing_fields_def Let_def WriteString_unlimited field_text_def)
  qed
qed

lemma framing_name_canonical:
  assumes "framing_name k" "CanonicalHeaderKey k = k"
  shows "k = ''Content-Length'' \<or> k = ''Transfer-Encoding''"
proof -
  have tok: "list_all IsTokenRune ''content-length''" "list_all IsTokenRune ''transfer-encoding''"
    by (simp_all add: IsTokenRune_ord)
  have canon: "CanonicalHeaderKey ''content-length'' = ''Content-Length''"
    "CanonicalHeaderKey ''transfer-encoding'' = ''Transfer-Encoding''"
    by (simp_all add: CanonicalHeaderKey_def IsTokenRune_ord upper_ascii_def lower_ascii_def char_eval)
  have low: "map lower_ascii ''content-length'' = ''content-length''"
    "map lower_ascii ''transfer-encoding'' = ''transfer-encoding''"
    by (simp_all add: lower_ascii_def)
  show ?thesis
    using assms(1) unfolding framing_name_def
  proof
    assume "map lower_ascii k = ''content-length''"
    then have "CanonicalHeaderKey ''content-length'' = CanonicalHeaderKey k"
      using CanonicalHeaderKey_eq_iff [OF tok(1), of k] low(1) by simp
    with canon(1) assms(2) show ?thesis by simp
  next
    assume "map lower_ascii k = ''transfer-encoding''"
    then have "CanonicalHeaderKey ''transfer-encoding'' = CanonicalHeaderKey k"
      using CanonicalHeaderKey_eq_iff [OF tok(2), of k] low(2) by simp
    with canon(2) assms(2) show ?thesis by simp
  qed
qed

lemma subset_fields_no_framing:
  assumes "canonical_keys h" "f \<in> set (subset_fields reqWriteExcludeHeader h)"
  shows "\<not> framing_name (fst f)"
proof -
  from assms(2) obtain kv where kv: "kv \<in> set h" "\<not> reqWriteExcludeHeader (fst kv)" "fst f = fst kv"
    by (auto simp: subset_fields_def sortedKeyValues_def)
  moreover have "CanonicalHeaderKey (fst kv) = fst kv"
    using assms(1) kv(1) by (auto simp: canonical_keys_def list_all_iff)
  ultimately show ?thesis
    using framing_name_canonical [of "fst kv"] by (auto simp: reqWriteExcludeHeader_def)
qed

lemma framing_fields_one:
  "length (filter (\<lambda>f. framing_name (fst f)) (framing_fields t)) \<le> 1"
proof -
  have "\<not> framing_name ''Connection''" "\<not> framing_name ''Trailer''"
    by (simp_all add: framing_name_def)
  then show ?thesis by (simp add: framing_fields_def split: option.split)
qed

lemma head_fields_one_framing:
  assumes "canonical_keys (r_Header r)"
  shows "length (filter (\<lambda>f. framing_name (fst f)) (head_fields toASCII r tw)) \<le> 1"
proof -
  have "\<not> framing_name ''Host''" "\<not> framing_name ''User-Agent''" by (simp_all add: framing_name_def)
  moreover have "filter (\<lambda>f. framing_name (fst f)) (subset_fields reqWriteExcludeHeader (r_Header r)) = []"
    using subset_fields_no_framing [OF assms] by (simp add: filter_empty_conv)
  ultimately show ?thesis using framing_fields_one [of tw] by (simp add: head_fields_def)
qed

lemma fold_update_keys:
  "fst ` set (fold (\<lambda>k t. AList.update k [] t) ks t) \<subseteq> set ks \<union> fst ` set t"
proof (induction ks arbitrary: t)
  case (Cons k ks)
  have "fst ` set (AList.update k [] t) = insert k (fst ` set t)" by (simp add: dom_update)
  with Cons [of "AList.update k [] t"] show ?case by auto
qed simp

lemma fixTrailer_allowed:
  assumes "fixTrailer h te = Inr (Some tr, h')"
  shows "find forbidden_trailer (map (CanonicalHeaderKey \<circ> fst) tr) = None"
proof -
  from assms obtain vv where "map_of h ''Trailer'' = Some vv"
    and f: "find forbidden_trailer (map CanonicalHeaderKey (concat (map foreachHeaderElement vv))) = None"
    and tr: "tr = fold (\<lambda>k t. AList.update k [] t) (map CanonicalHeaderKey (concat (map foreachHeaderElement vv))) []"
    by (auto simp: fixTrailer_def Let_def split: option.splits if_splits)
  let ?ks = "map CanonicalHeaderKey (concat (map foreachHeaderElement vv))"
  have sub: "fst ` set tr \<subseteq> set ?ks" using fold_update_keys [of ?ks "[]"] tr by simp
  have "\<not> forbidden_trailer (CanonicalHeaderKey k)" if "k \<in> fst ` set tr" for k
  proof -
    from that sub have "k \<in> set ?ks" by blast
    moreover from this have "CanonicalHeaderKey k = k" by auto
    ultimately show ?thesis using f by (auto simp: find_None_iff)
  qed
  then show ?thesis by (auto simp: find_None_iff)
qed

lemma fixLength_nonneg:
  assumes "fixLength False st m h te = Inr (n, h')" "\<not> chunked te"
  shows "0 \<le> n"
proof -
  obtain h1 where d: "dedup_length h = Inr h1" using assms(1) by (auto simp: fixLength_def rbind_Inr_iff)
  show ?thesis
    using assms d parseContentLength_nonneg [of "TrimSpace (hd (field_values h1 ''Content-Length''))"]
    by (auto simp: fixLength_def rbind_Inr_iff Let_def split: if_splits)
qed

lemma fixLength_pos_keeps:
  assumes "fixLength isR st m h te = Inr (n, h')" "0 < n"
  shows "map_of h' ''Content-Length'' \<noteq> None"
proof -
  obtain h1 where d: "dedup_length h = Inr h1" using assms(1) by (auto simp: fixLength_def rbind_Inr_iff)
  with assms have "h' = h1 \<and> length (field_values h1 ''Content-Length'') = 1"
    by (auto simp: fixLength_def rbind_Inr_iff Let_def split: if_splits)
  then show ?thesis by (auto simp: field_values_def split: option.splits)
qed

lemma finish_request_fields:
  assumes "finish_request d l h b = Inr req"
  shows "(\<exists>B. r_Body req = Some B) \<and>
    (r_TransferEncoding req = [] \<longrightarrow> 0 \<le> outgoingLength (r_Body req) (r_ContentLength req)) \<and>
    (\<forall>tr. r_Trailer req = Some tr \<longrightarrow> find forbidden_trailer (map (CanonicalHeaderKey \<circ> fst) tr) = None)"
proof -
  obtain meth uri proto major minor u where l: "l = (meth, uri, proto, major, minor, u)"
    by (metis surj_pair)
  obtain c h3 where sc: "shouldClose major minor
      (fixPragmaCacheControl (if d then AList.delete ''Host'' h else h)) False = (c, h3)" by fastforce
  from assms l sc obtain t where t: "readTransfer False 200 meth major minor c h3 b = Inr t"
    and r: "r_Body req = Some (t_Body t)" "r_TransferEncoding req = t_TransferEncoding t"
      "r_Trailer req = t_Trailer t" "r_ContentLength req = t_ContentLength t \<or> isH2Upgrade
        (req\<lparr>r_ContentLength := t_ContentLength t, r_Close := t_Close t\<rparr>) \<and> meth = ''PRI'' \<and> t_Header t = []"
    by (auto simp: finish_request_def rbind_Inr_iff Let_def isH2Upgrade_def split: if_splits)
  from t show ?thesis
  proof (cases rule: readTransfer_cases)
    case (1 c1 h1 mj mn h2 te n h3')
    have tr: "\<forall>tr. t_Trailer t = Some tr \<longrightarrow> find forbidden_trailer (map (CanonicalHeaderKey \<circ> fst) tr) = None"
      using 1(5) fixTrailer_allowed by fastforce
    have "0 \<le> outgoingLength (r_Body req) (r_ContentLength req)" if "te = []"
    proof -
      have nc: "\<not> chunked te" using that by (simp add: chunked_def)
      then have n: "0 \<le> n" using fixLength_nonneg 1(4) by blast
      show ?thesis
      proof (cases "n = 0")
        case True
        with 1(7) nc r(1) show ?thesis by (simp add: choose_body_def outgoingLength_def)
      next
        case False
        with n have "map_of (t_Header t) ''Content-Length'' \<noteq> None"
          using fixLength_pos_keeps [OF 1(4)] fixTrailer_header [OF 1(5)] by simp
        then have "t_Header t \<noteq> []" by auto
        with r(4) 1(8) have "r_ContentLength req = n" by simp
        with n False show ?thesis by (auto simp: outgoingLength_def split: option.split Body.split)
      qed
    qed
    with r tr 1 show ?thesis by auto
  qed
qed

subsection \<open>Writing only appends\<close>

definition extends :: "writer \<Rightarrow> writer \<Rightarrow> bool" where
  "extends w w' \<longleftrightarrow> prefix (out w) (out w')"

lemma extends_refl [simp]: "extends w w" by (simp add: extends_def)

lemma extends_trans: "extends a b \<Longrightarrow> extends b c \<Longrightarrow> extends a c"
  by (auto simp: extends_def)

lemma WriteString_extends: "extends w (snd (WriteString s w))"
  by (auto simp: WriteString_def extends_def split: option.split)

lemma WriteString_extends': "WriteString s w = (e, w') \<Longrightarrow> extends w w'"
  using WriteString_extends [of w s] by simp

lemma write_all_extends: "write_all ss w = (e, w') \<Longrightarrow> extends w w'"
  using write_all_prefix [of ss w e w'] by (auto simp: extends_def)

lemma chunk_out_extends: "extends w (snd (chunk_out p w))"
proof -
  have "cw_Write p w = ((n, e), w') \<Longrightarrow> extends w w'" for n e w'
    by (auto simp: cw_Write_def split: if_splits prod.splits option.splits
        intro: extends_trans dest!: WriteString_extends')
  then show ?thesis by (auto simp: chunk_out_def split: prod.split)
qed

lemma copy_body_extends:
  assumes "\<And>p w. extends w (snd (wr p w))"
  shows "extends w (snd (snd (copy_body wr k lim b w)))"
  using assms
proof (induction wr k lim b w rule: copy_body.induct)
  case (1 wr k lim b w)
  obtain p er lim1 b1 where lr: "limited_Read k lim b = ((p, er), lim1, b1)" by (metis surj_pair)
  obtain ew w1 where ww: "(if p = [] then (None, w) else wr p w) = (ew, w1)" by fastforce
  have e1: "extends w w1" using "1.prems" [of w p] ww by (auto split: if_splits)
  show ?case
  proof (cases "ew = None \<and> er = None \<and> p \<noteq> []")
    case True
    have "extends w1 (snd (snd (copy_body wr k lim1 b1 w1)))"
      using "1.IH" [OF lr [symmetric] refl refl ww [symmetric] _ _ _ "1.prems"] True by auto
    moreover have "snd (snd (copy_body wr k lim b w)) = snd (snd (copy_body wr k lim1 b1 w1))"
      using True lr ww by (simp add: copy_body.simps [of wr k lim b w] split: prod.split)
    ultimately show ?thesis using e1 extends_trans by metis
  next
    case False
    then have "snd (snd (copy_body wr k lim b w)) = w1"
      unfolding copy_body.simps [of wr k lim b w] lr prod.case ww
      by (cases ew; cases er) auto
    with e1 show ?thesis by simp
  qed
qed

lemma copy_Body_extends:
  assumes "\<And>p w. extends w (snd (wr p w))"
  shows "extends w (snd (snd (copy_Body wr lim B w)))"
proof (cases B)
  case (TheBody b)
  obtain q b' w' where c: "copy_body wr copy_buffer_size lim b w = (q, b', w')" by (metis surj_pair)
  have "extends w w'" using copy_body_extends [of wr w copy_buffer_size lim b] assms c by simp
  with TheBody c show ?thesis by simp
next
  case (Prefixed p b)
  let ?q = "case lim of None \<Rightarrow> p | Some n \<Rightarrow> take (nat n) p"
  obtain ew w1 where ww: "(if ?q = [] then (None, w) else wr ?q w) = (ew, w1)" by fastforce
  have e1: "extends w w1" using assms [of w ?q] ww by (auto split: if_splits)
  let ?l = "map_option (\<lambda>n. n - int (length ?q)) lim"
  obtain n e b' w2 where c: "copy_body wr copy_buffer_size ?l b w1 = ((n, e), b', w2)" by (metis surj_pair)
  have "extends w1 w2" using copy_body_extends [of wr w1 copy_buffer_size ?l b] assms c by simp
  with e1 have "extends w w2" by (rule extends_trans)
  with Prefixed ww e1 c show ?thesis by (cases ew) (simp_all add: Let_def)
qed simp

lemma write_payload_extends: "extends w (snd (snd (write_payload t b w)))"
proof -
  obtain n e b' w' where c: "copy_Body chunk_out None b w = ((n, e), b', w')" by (metis surj_pair)
  have c1: "extends w w'" using copy_Body_extends [of chunk_out w None b] chunk_out_extends c by simp
  obtain e2 w2 where cl: "cw_Close w' = (e2, w2)" by fastforce
  have c2: "extends w w2"
    using c1 WriteString_extends' [of "''0'' @ CRLF" w' e2 w2] cl by (auto simp: cw_Close_def intro: extends_trans)
  have d1: "extends w (snd (snd (copy_Body WriteString lim b w)))" for lim
    using copy_Body_extends [of WriteString w lim b] WriteString_extends by simp
  obtain n3 e3 b3 w3 where d: "copy_Body WriteString (Some (ContentLength t)) b w = ((n3, e3), b3, w3)"
    by (metis surj_pair)
  have d2: "extends w w3" using d1 [of "Some (ContentLength t)"] d by simp
  show ?thesis
  proof (cases "chunked (TransferEncoding t)")
    case True
    with c c1 cl c2 show ?thesis by (cases e) (simp_all add: write_payload_def)
  next
    case False
    show ?thesis
    proof (cases "ContentLength t = - 1")
      case True
      with False d1 show ?thesis by (simp add: write_payload_def)
    next
      case nl: False
      with False d d2 show ?thesis
        by (cases e3) (simp_all add: write_payload_def split: prod.split)
    qed
  qed
qed

lemma writeBody_extends: "extends w (snd (writeBody t w))"
proof -
  obtain ncopy err body1 w1 where p: "(case tw_Body t of
               None \<Rightarrow> ((0, None), BodyCloser t, w)
             | Some b \<Rightarrow> (case write_payload t b w of (p, b', w') \<Rightarrow> (p, Some b', w'))) = ((ncopy, err), body1, w1)"
    by (metis surj_pair)
  have e1: "extends w w1"
    using p write_payload_extends [of w t] by (auto split: option.splits prod.splits) (metis snd_conv)
  obtain cerr body2 where cl: "(case body1 of None \<Rightarrow> (None, None)
      | Some b \<Rightarrow> (case Body_Close b of (e, b') \<Rightarrow> (e, Some b'))) = (cerr, body2)" by fastforce
  obtain terr w2 where tr: "(case Trailer t of None \<Rightarrow> (None, w1)
      | Some _ \<Rightarrow> (case body_trailer body2 of None \<Rightarrow> (None, w1) | Some tr \<Rightarrow> Headers.Write tr w1)) = (terr, w2)"
    by fastforce
  have e2: "extends w1 w2"
    using tr by (auto simp: Headers.Write_def writeSubset_def split: option.splits dest: write_all_extends)
  obtain e3 w3 where fin: "WriteString CRLF w2 = (e3, w3)" by fastforce
  have e3: "extends w2 w3" using fin by (rule WriteString_extends')
  have "snd (writeBody t w) \<in> {w1, w2, w3}"
    unfolding writeBody_def p Let_def prod.case cl tr fin by simp
  then show ?thesis using e1 e2 e3 extends_trans by blast
qed

definition request_line :: "(string \<Rightarrow> string option) \<Rightarrow> Request \<Rightarrow> string" where
  "request_line toASCII r =
     valueOrDefault (r_Method r) ''GET'' @ '' '' @ write_uri (write_host toASCII r) r @ '' HTTP/1.1'' @ CRLF"

lemma start_writes_text:
  "concat (start_writes toASCII r) = request_line toASCII r @ concat (map field_text
     ([(''Host'', write_host toASCII r)] @
      (if user_agent (r_Header r) \<noteq> '''' then [(''User-Agent'', user_agent (r_Header r))] else [])))"
  by (simp add: start_writes_def request_line_def field_text_def Let_def)

lemma Request_write_head:
  assumes "request_writer probe r = Inr tw" "room w = None"
    and "\<And>tr. Trailer tw = Some tr \<Longrightarrow> find forbidden_trailer (map (CanonicalHeaderKey \<circ> fst) tr) = None"
  shows "Request_write probe toASCII r w = writeBody tw
     (w\<lparr>out := out w @ request_line toASCII r @ concat (map field_text (head_fields toASCII r tw)) @ CRLF\<rparr>)"
proof -
  have r: "room (w\<lparr>out := x\<rparr>) = None" for x using assms(2) by simp
  have w1: "write_all (start_writes toASCII r) w = (None, w\<lparr>out := out w @ concat (start_writes toASCII r)\<rparr>)"
    by (rule write_all_unlimited [OF assms(2)])
  have w2: "writeHeader tw (w\<lparr>out := x\<rparr>) =
      (None, w\<lparr>out := x @ concat (map field_text (framing_fields tw))\<rparr>)" for x
    using writeHeader_unlimited [OF r assms(3)] by simp
  have w3: "writeSubset reqWriteExcludeHeader (r_Header r) (w\<lparr>out := x\<rparr>) =
      (None, w\<lparr>out := x @ concat (map field_text (subset_fields reqWriteExcludeHeader (r_Header r)))\<rparr>)" for x
    using write_all_unlimited [OF r] by (simp add: writeSubset_def subset_fields_text)
  have w4: "WriteString CRLF (w\<lparr>out := x\<rparr>) = (None, w\<lparr>out := x @ CRLF\<rparr>)" for x
    using assms(2) by (simp add: WriteString_def)
  have "Request_write probe toASCII r w = writeBody tw (w\<lparr>out :=
      (((out w @ concat (start_writes toASCII r)) @ concat (map field_text (framing_fields tw))) @
       concat (map field_text (subset_fields reqWriteExcludeHeader (r_Header r)))) @ CRLF\<rparr>)"
    by (simp only: Request_write_def w1 w2 w3 w4 assms(1) prod.case option.case sum.case)
  then show ?thesis by (simp add: start_writes_text head_fields_def)
qed

lemma sanitize_trailer: "Trailer (sanitize b t) = Some tr \<Longrightarrow> Trailer t = Some tr"
  by (auto simp: sanitize_def Let_def split: if_splits)

lemma request_writer_read:
  assumes "ReadRequest b = (Inr req, b')"
  obtains tw where "request_writer probe req = Inr tw"
    "\<And>tr. Trailer tw = Some tr \<Longrightarrow> find forbidden_trailer (map (CanonicalHeaderKey \<circ> fst) tr) = None"
    "\<And>probe'. request_writer probe' req = Inr tw"
proof -
  from assms obtain l header where "finish_request True l header b' = Inr req" by (rule ReadRequest_cases)
  note f = finish_request_fields [OF this]
  from f obtain B where B: "r_Body req = Some B" by blast
  have np: "(outgoingLength (r_Body req) (r_ContentLength req) < 0 \<and> r_TransferEncoding req = []) = False"
    using f by auto
  have nb: "(r_ContentLength req \<noteq> 0 \<and> r_Body req = None) = False" using B by simp
  let ?t = "\<lparr>Method = valueOrDefault (r_Method req) ''GET'', tw_Body = r_Body req, BodyCloser = r_Body req,
      ResponseToHEAD = False, ContentLength = outgoingLength (r_Body req) (r_ContentLength req),
      Close = r_Close req, TransferEncoding = r_TransferEncoding req, tw_Header = r_Header req,
      Trailer = r_Trailer req, IsResponse = False, FlushHeaders = False\<rparr>"
  let ?t2 = "if ContentLength ?t \<noteq> 0 then ?t\<lparr>FlushHeaders := True\<rparr> else ?t"
  have rw: "request_writer p req = Inr (sanitize True ?t2)" for p
    unfolding request_writer_def newTransferWriter_request_def Let_def nb if_False
      transferWriter.simps np by (rule refl)
  have "Trailer (sanitize True ?t2) = Some tr \<Longrightarrow> r_Trailer req = Some tr" for tr
    by (drule sanitize_trailer) (simp split: if_splits)
  with f rw that show ?thesis by blast
qed

text \<open>
  (C6) A request that was read is written with exactly one head: the request line, the fields
  \<open>head_fields\<close> and a blank line, followed by the body; and among the fields there is at most one
  that frames the body, in whatever case a header of the request spelled it. So no request,
  however it was framed on arrival, leaves the proxy with both a \<open>Content-Length\<close> and a
  \<open>Transfer-Encoding\<close> or with two of either.
\<close>
theorem forwarded_request_has_one_framing:
  assumes "ReadRequest b = (Inr req, b')"
  shows "\<exists>tw payload. request_writer probe req = Inr tw \<and>
     out (snd (Request_write probe toASCII req buffer)) =
       request_line toASCII req @ concat (map field_text (head_fields toASCII req tw)) @ CRLF @ payload \<and>
     length (filter (\<lambda>f. framing_name (fst f)) (head_fields toASCII req tw)) \<le> 1"
proof -
  from assms obtain tw where tw: "request_writer probe req = Inr tw"
    "\<And>tr. Trailer tw = Some tr \<Longrightarrow> find forbidden_trailer (map (CanonicalHeaderKey \<circ> fst) tr) = None"
    using request_writer_read [of b req b' probe] by blast
  let ?w = "buffer\<lparr>out := request_line toASCII req @ concat (map field_text (head_fields toASCII req tw)) @ CRLF\<rparr>"
  from writeBody_extends [of ?w tw] obtain payload where
    "out (snd (writeBody tw ?w)) = out ?w @ payload" by (auto simp: extends_def prefix_def)
  moreover have "Request_write probe toASCII req buffer = writeBody tw ?w"
    using Request_write_head [OF tw(1) _ tw(2), of buffer] by (simp add: buffer_def)
  ultimately show ?thesis using tw(1) head_fields_one_framing [OF canonical_ReadRequest [OF assms]]
    by auto
qed


section \<open>The forwarded body\<close>

lemma fold_chunk_out:
  "room w = None \<Longrightarrow> fold (\<lambda>p w. snd (chunk_out p w)) ps w = w\<lparr>out := out w @ concat (map chunk_wire ps)\<rparr>"
proof (induction ps arbitrary: w)
  case (Cons p ps)
  then show ?case by (simp add: chunk_out_def cw_Write_def WriteString_def chunk_wire_def)
qed simp

lemma fold_WriteString:
  "room w = None \<Longrightarrow> fold (\<lambda>p w. snd (WriteString p w)) ps w = w\<lparr>out := out w @ concat ps\<rparr>"
  by (induction ps arbitrary: w) (simp_all add: WriteString_def)

lemma chunk_out_unlimited: "room w = None \<Longrightarrow> p \<noteq> [] \<Longrightarrow> fst (chunk_out p w) = None \<and> room (snd (chunk_out p w)) = None"
  by (simp add: chunk_out_def cw_Write_def WriteString_def)

lemma body_Close_done: "sawEOF b \<Longrightarrow> \<exists>b'. body_Close b = (None, b') \<and> body_flat b' = body_flat b \<and> b_trailer b' = b_trailer b"
  by (simp add: body_Close_def body_flat_def)

lemma copy_buffer_pos: "0 < copy_buffer_size" by (simp add: copy_buffer_size_def)

lemma writeBody_chunked:
  assumes "tw_Body t = Some (TheBody b)" "chunked (TransferEncoding t)" "ContentLength t = - 1" "Trailer t = None"
    and "wf_body b" "meaning b = (d, EOF, rest)" "room w = None"
  obtains ps b' where "concat ps = d" "body_flat b' = rest"
    "writeBody t w = ((None, Some (TheBody b')),
       w\<lparr>out := out w @ concat (map chunk_wire ps) @ ''0'' @ CRLF @ CRLF\<rparr>)"
proof -
  obtain n err b1 w1 where c: "copy_body chunk_out copy_buffer_size None b w = ((n, err), b1, w1)" by (metis surj_pair)
  from copy_body_meaning [of "\<lambda>w. room w = None" w chunk_out, OF assms(7) chunk_out_unlimited assms(5) copy_buffer_pos assms(6)] c
  obtain ps where ps: "err = None" "body_flat b1 = rest" "concat ps = d"
    "w1 = w\<lparr>out := out w @ concat (map chunk_wire ps)\<rparr>" using fold_chunk_out [OF assms(7)] by auto
  have "\<not> closed b" using assms(5) by (simp add: wf_body_def)
  then have "sawEOF b1" using copy_body_sawEOF [OF c [unfolded ps(1)]] by blast
  then obtain b2 where b2: "body_Close b1 = (None, b2)" "body_flat b2 = body_flat b1" using body_Close_done by blast
  have cl: "cw_Close w1 = (None, w\<lparr>out := out w @ concat (map chunk_wire ps) @ ''0'' @ CRLF\<rparr>)"
    using ps(4) assms(7) by (simp add: cw_Close_def WriteString_def)
  have wp: "write_payload t (TheBody b) w =
      ((0, None), TheBody b1, w\<lparr>out := out w @ concat (map chunk_wire ps) @ ''0'' @ CRLF\<rparr>)"
    using assms(2) c ps(1) cl by (simp add: write_payload_def)
  have "writeBody t w = ((None, Some (TheBody b2)),
       w\<lparr>out := out w @ concat (map chunk_wire ps) @ ''0'' @ CRLF @ CRLF\<rparr>)"
    using assms b2 by (simp add: writeBody_def wp WriteString_def)
  with ps b2 that show ?thesis by simp
qed

lemma writeBody_length:
  assumes "tw_Body t = Some (TheBody b)" "\<not> chunked (TransferEncoding t)" "b_src b = SrcLimited (ContentLength t) r"
    and "0 < ContentLength t" "wf_body b" "meaning b = (d, EOF, rest)" "room w = None"
  obtains b' where "body_flat b' = rest"
    "writeBody t w = ((None, Some (TheBody b')), w\<lparr>out := out w @ d\<rparr>)"
proof -
  have wf: "\<not> sawEOF b" "\<not> closed b" "\<not> b_hdr b" using assms(3,5) by (auto simp: wf_body_def)
  have len: "int (length d) = ContentLength t"
    using assms(3,4,6) wf(1) by (auto simp: meaning_def split: if_splits)
  obtain n err b1 w1 where c: "copy_body WriteString copy_buffer_size None b w = ((n, err), b1, w1)" by (metis surj_pair)
  have inv: "fst (WriteString p w) = None \<and> room (snd (WriteString p w)) = None" if "room w = None" for p w
    using that by (simp add: WriteString_def)
  from copy_body_meaning [of "\<lambda>w. room w = None" w WriteString, OF assms(7) inv assms(5) copy_buffer_pos assms(6)] c
  have ps: "err = None" "body_flat b1 = rest" "n = length d" "w1 = w\<lparr>out := out w @ d\<rparr>"
    using fold_WriteString [OF assms(7)] by auto
  have eof: "sawEOF b1" "\<not> closed b1" using copy_body_sawEOF [OF c [unfolded ps(1)] wf(2)] by auto
  from eof(1) obtain b2 where b2: "body_Close b1 = (None, b2)" "body_flat b2 = body_flat b1" using body_Close_done by blast
  have c': "copy_Body WriteString (Some (ContentLength t)) (TheBody b) w = ((n, None), TheBody b1, w1)"
    using copy_body_limited_same [OF assms(3,4) wf, of WriteString] c ps(1) by simp
  have dis: "copy_Body discard None (TheBody b1) () = ((0, None), TheBody b1, ())"
    using eof by (simp add: copy_body.simps body_Read_def readLocked_def)
  have wp: "write_payload t (TheBody b) w = ((length d, None), TheBody b1, w\<lparr>out := out w @ d\<rparr>)"
    using assms(2,4) c' ps(3,4) dis by (simp add: write_payload_def)
  have "writeBody t w = ((None, Some (TheBody b2)), w\<lparr>out := out w @ d\<rparr>)"
    using assms(1,2) b2 len by (simp add: writeBody_def wp)
  with ps b2 that show ?thesis by simp
qed

lemma finish_request_body:
  assumes "finish_request d l h b = Inr req" "r_Body req = Some (TheBody bd)"
  shows "r_TransferEncoding req = [] \<and> b_src bd = SrcLimited (r_ContentLength req) b \<and> 0 < r_ContentLength req \<or>
     r_TransferEncoding req = [''chunked'']"
proof -
  obtain meth uri proto major minor u where l: "l = (meth, uri, proto, major, minor, u)"
    by (metis surj_pair)
  obtain c h3 where sc: "shouldClose major minor
      (fixPragmaCacheControl (if d then AList.delete ''Host'' h else h)) False = (c, h3)" by fastforce
  from assms(1) l sc obtain t where t: "readTransfer False 200 meth major minor c h3 b = Inr t"
    and r: "r_Body req = Some (t_Body t)" "r_TransferEncoding req = t_TransferEncoding t"
      "r_ContentLength req = t_ContentLength t \<or> t_Header t = []"
    by (auto simp: finish_request_def rbind_Inr_iff Let_def isH2Upgrade_def split: if_splits)
  from t show ?thesis
  proof (cases rule: readTransfer_cases)
    case (1 c1 h1 mj mn h2 te n h3')
    show ?thesis
    proof (cases "te = []")
      case True
      then have nc: "\<not> chunked te" by (simp add: chunked_def)
      have n0: "n \<noteq> 0"
        using 1(7) nc r(1) assms(2) by (auto simp: choose_body_def)
      with fixLength_nonneg [OF 1(4) nc] have n: "0 < n" by simp
      then have "map_of (t_Header t) ''Content-Length'' \<noteq> None"
        using fixLength_pos_keeps [OF 1(4)] fixTrailer_header [OF 1(5)] by simp
      then have "t_Header t \<noteq> []" by auto
      with r(3) 1(8) have "r_ContentLength req = n" by simp
      with n nc True 1(6,7) r(1,2) assms(2) show ?thesis by (auto simp: choose_body_def Let_def)
    next
      case False
      with fixTransferEncoding_result [OF 1(3)] r(2) 1(6) show ?thesis by auto
    qed
  qed
qed

lemma finish_request_TE:
  assumes "finish_request d l h b = Inr req"
  shows "(r_TransferEncoding req = [] \<or> r_TransferEncoding req = [''chunked'']) \<and>
     (\<exists>B. r_Body req = Some B \<and> (case B of Prefixed p bd \<Rightarrow> False | _ \<Rightarrow> True))"
proof -
  obtain meth uri proto major minor u where l: "l = (meth, uri, proto, major, minor, u)"
    by (metis surj_pair)
  obtain c h3 where sc: "shouldClose major minor
      (fixPragmaCacheControl (if d then AList.delete ''Host'' h else h)) False = (c, h3)" by fastforce
  from assms l sc obtain t where t: "readTransfer False 200 meth major minor c h3 b = Inr t"
    and r: "r_Body req = Some (t_Body t)" "r_TransferEncoding req = t_TransferEncoding t"
    by (auto simp: finish_request_def rbind_Inr_iff Let_def split: if_splits)
  from t show ?thesis
  proof (cases rule: readTransfer_cases)
    case (1 c1 h1 mj mn h2 te n h3')
    with fixTransferEncoding_result [OF 1(3)] r show ?thesis
      by (auto simp: choose_body_def Let_def)
  qed
qed

text \<open>What a body delivers, and how it is framed.\<close>

fun Body_meaning :: "Body \<Rightarrow> bytes \<times> io_error \<times> bytes" where
  "Body_meaning (NoBody r) = ([], EOF, flat r)"
| "Body_meaning (TheBody b) = meaning b"
| "Body_meaning (Prefixed p b) = prepend p (meaning b)"

fun wf_Body :: "Body \<Rightarrow> bool" where
  "wf_Body (NoBody r) = True"
| "wf_Body (TheBody b) = wf_body b"
| "wf_Body (Prefixed p b) = False"

fun Body_flat :: "Body \<Rightarrow> bytes" where
  "Body_flat (NoBody r) = flat r"
| "Body_flat (TheBody b) = body_flat b"
| "Body_flat (Prefixed p b) = body_flat b"

definition framed :: "Request \<Rightarrow> Body \<Rightarrow> bool" where
  "framed r B \<longleftrightarrow> r_TransferEncoding r = [''chunked''] \<or>
     r_TransferEncoding r = [] \<and>
     (case B of TheBody bd \<Rightarrow> 0 < r_ContentLength r \<and> (\<exists>b. b_src bd = SrcLimited (r_ContentLength r) b)
      | NoBody b \<Rightarrow> True | Prefixed p bd \<Rightarrow> False)"

lemma request_writer_shape:
  assumes "r_Body r = Some B" "framed r B"
  obtains tw where "request_writer probe r = Inr tw" "tw_Body tw = Some B" "BodyCloser tw = Some B"
     "TransferEncoding tw = r_TransferEncoding r"
     "r_TransferEncoding r = [] \<longrightarrow> ContentLength tw = (case B of NoBody b \<Rightarrow> 0 | _ \<Rightarrow> r_ContentLength r)"
     "r_TransferEncoding r = [''chunked''] \<longrightarrow> ContentLength tw = - 1"
     "Trailer tw = None \<or> Trailer tw = r_Trailer r" "\<not> ResponseToHEAD tw"
proof -
  have np: "(outgoingLength (Some B) (r_ContentLength r) < 0 \<and> r_TransferEncoding r = []) = False"
    using assms(2) by (auto simp: framed_def outgoingLength_def split: Body.splits)
  have nb: "(r_ContentLength r \<noteq> 0 \<and> Some B = None) = False" by simp
  let ?t = "\<lparr>Method = valueOrDefault (r_Method r) ''GET'', tw_Body = Some B, BodyCloser = Some B,
      ResponseToHEAD = False, ContentLength = outgoingLength (Some B) (r_ContentLength r),
      Close = r_Close r, TransferEncoding = r_TransferEncoding r, tw_Header = r_Header r,
      Trailer = r_Trailer r, IsResponse = False, FlushHeaders = False\<rparr>"
  let ?t2 = "if ContentLength ?t \<noteq> 0 then ?t\<lparr>FlushHeaders := True\<rparr> else ?t"
  have rw: "request_writer p r = Inr (sanitize True ?t2)" for p
    unfolding request_writer_def newTransferWriter_request_def Let_def assms(1) nb if_False
      transferWriter.simps np by (rule refl)
  show ?thesis
    by (rule that [OF rw])
      (use assms(2) in \<open>auto simp: sanitize_def outgoingLength_def chunked_def Let_def framed_def split: if_splits Body.splits\<close>)
qed

lemma length_concat_member: "p \<in> set ps \<Longrightarrow> length p \<le> length (concat ps)"
  by (induction ps) auto

definition request_head :: "(string \<Rightarrow> string option) \<Rightarrow> Request \<Rightarrow> transferWriter \<Rightarrow> string" where
  "request_head toASCII req tw =
     request_line toASCII req @ concat (map field_text (head_fields toASCII req tw)) @ CRLF"

definition delivers :: "string list \<Rightarrow> bytes \<Rightarrow> bytes \<Rightarrow> bool" where
  \<comment> \<open>bytes that carry the data under the framing of a message, for any reader\<close>
  "delivers te payload d \<longleftrightarrow>
     (if te = [] then payload = d
      else \<forall>c e more. 18 \<le> c \<longrightarrow> chunked_decode c e (payload @ more) = (d, EOF, CRLF @ more))"

lemma delivers_chunks:
  assumes "te \<noteq> []" "length (concat ps) < 2 ^ 64"
  shows "delivers te (concat (map chunk_wire ps) @ ''0'' @ CRLF @ CRLF) (concat ps)"
proof -
  have "list_all (\<lambda>p. length p < 2 ^ 64) ps"
    unfolding list_all_iff using assms(2) length_concat_member by (meson le_less_trans)
  from chunked_decode_encode [OF _ this] assms(1) show ?thesis by (simp add: delivers_def)
qed

lemma writeBody_exact:
  assumes "tw_Body tw = Some B" "BodyCloser tw = Some B" "\<not> ResponseToHEAD tw" "Trailer tw = None" "room w = None"
    and "wf_Body B" "Body_meaning B = (d, EOF, rest)" "length d < 2 ^ 64"
    and "TransferEncoding tw = [''chunked''] \<and> ContentLength tw = - 1 \<or>
      TransferEncoding tw = [] \<and> (case B of NoBody b \<Rightarrow> ContentLength tw = 0
        | TheBody bd \<Rightarrow> 0 < ContentLength tw \<and> (\<exists>b. b_src bd = SrcLimited (ContentLength tw) b)
        | _ \<Rightarrow> False)"
  obtains payload B' where "writeBody tw w = ((None, Some B'), w\<lparr>out := out w @ payload\<rparr>)"
    "Body_flat B' = rest" "delivers (TransferEncoding tw) payload d"
proof (cases B)
  case (NoBody r)
  then have d: "d = []" "rest = flat r" using assms(7) by auto
  show ?thesis
  proof (cases "TransferEncoding tw = []")
    case True
    with NoBody assms have "writeBody tw w = ((None, Some (NoBody r)), w)"
      by (simp add: writeBody_def write_payload_def chunked_def)
    with that [of "NoBody r" "[]"] d True show ?thesis by (simp add: delivers_def)
  next
    case False
    with assms(9) have te: "TransferEncoding tw = [''chunked'']" by auto
    with NoBody assms(1-5,9) have "writeBody tw w = ((None, Some (NoBody r)), w\<lparr>out := out w @ ''0'' @ CRLF @ CRLF\<rparr>)"
      by (simp add: writeBody_def write_payload_def chunked_def cw_Close_def WriteString_def)
    with that [of "NoBody r" "''0'' @ CRLF @ CRLF"] d delivers_chunks [of "TransferEncoding tw" "[]"] te show ?thesis
      by simp
  qed
next
  case (TheBody bd)
  show ?thesis
  proof (cases "TransferEncoding tw = []")
    case True
    then have "\<not> chunked (TransferEncoding tw)" by (simp add: chunked_def)
    moreover from True TheBody assms(9) obtain r where "0 < ContentLength tw" "b_src bd = SrcLimited (ContentLength tw) r"
      by auto
    ultimately obtain b' where "body_flat b' = rest"
      "writeBody tw w = ((None, Some (TheBody b')), w\<lparr>out := out w @ d\<rparr>)"
      using writeBody_length [of tw bd r d rest w] TheBody assms by auto
    with that [of "TheBody b'" d] True show ?thesis by (simp add: delivers_def)
  next
    case False
    with assms(9) have "chunked (TransferEncoding tw)" "ContentLength tw = - 1" by (auto simp: chunked_def)
    then obtain ps b' where ps: "concat ps = d" "body_flat b' = rest"
      "writeBody tw w = ((None, Some (TheBody b')), w\<lparr>out := out w @ concat (map chunk_wire ps) @ ''0'' @ CRLF @ CRLF\<rparr>)"
      using writeBody_chunked [of tw bd d rest w] TheBody assms by auto
    with that [of "TheBody b'"] delivers_chunks [OF False, of ps] assms(8) show ?thesis by simp
  qed
qed (use assms(6) in simp)

lemma Request_write_exact:
  assumes "r_Body r = Some B" "framed r B" "wf_Body B" "Body_meaning B = (d, EOF, rest)" "length d < 2 ^ 64"
    and "r_Trailer r = None" "room w = None"
  obtains tw payload B' where "request_writer probe r = Inr tw"
    "Request_write probe toASCII r w = ((None, Some B'), w\<lparr>out := out w @ request_head toASCII r tw @ payload\<rparr>)"
    "Body_flat B' = rest" "delivers (r_TransferEncoding r) payload d"
proof -
  from assms(1,2) obtain tw where tw: "request_writer probe r = Inr tw" "tw_Body tw = Some B"
     "BodyCloser tw = Some B" "TransferEncoding tw = r_TransferEncoding r"
     "r_TransferEncoding r = [] \<longrightarrow> ContentLength tw = (case B of NoBody b \<Rightarrow> 0 | _ \<Rightarrow> r_ContentLength r)"
     "r_TransferEncoding r = [''chunked''] \<longrightarrow> ContentLength tw = - 1"
     "Trailer tw = None \<or> Trailer tw = r_Trailer r" "\<not> ResponseToHEAD tw"
    by (rule request_writer_shape [of r B probe])
  have nt: "Trailer tw = None" using tw(7) assms(6) by auto
  let ?w = "w\<lparr>out := out w @ request_head toASCII r tw\<rparr>"
  have rw: "Request_write probe toASCII r w = writeBody tw ?w"
    using Request_write_head [OF tw(1) assms(7), of toASCII] nt by (simp add: request_head_def)
  have "TransferEncoding tw = [''chunked''] \<and> ContentLength tw = - 1 \<or>
      TransferEncoding tw = [] \<and> (case B of NoBody b \<Rightarrow> ContentLength tw = 0
        | TheBody bd \<Rightarrow> 0 < ContentLength tw \<and> (\<exists>b. b_src bd = SrcLimited (ContentLength tw) b)
        | _ \<Rightarrow> False)"
    using assms(2) tw(4,5,6) by (auto simp: framed_def split: Body.splits)
  note sh = this
  have rm: "room ?w = None" using assms(7) by simp
  obtain payload B' where
    "writeBody tw ?w = ((None, Some B'), ?w\<lparr>out := out ?w @ payload\<rparr>)" "Body_flat B' = rest"
    "delivers (TransferEncoding tw) payload d" by (rule writeBody_exact [OF tw(2,3,8) nt rm assms(3-5) sh])
  with that [OF tw(1)] rw tw(4) show ?thesis by simp
qed

lemma ReadRequest_framed:
  assumes "ReadRequest b = (Inr req, b')" "r_Body req = Some B"
  shows "framed req B"
proof -
  from assms(1) obtain l header where f: "finish_request True l header b' = Inr req" by (rule ReadRequest_cases)
  show ?thesis
  proof (cases B)
    case (TheBody bd)
    with finish_request_body [OF f] assms(2) show ?thesis by (auto simp: framed_def)
  qed (use finish_request_TE [OF f] assms(2) in \<open>auto simp: framed_def\<close>)
qed

text \<open>
  (C4) The body of a request that was read is forwarded exactly: after the head come the body's
  bytes themselves when the request had a content length, and chunks that decode to them when it
  was chunked, for any reader with room for a chunk line; the write reports no error and leaves
  the client's connection at the first byte after the request.
\<close>
theorem forwarded_request_body_exact:
  assumes "ReadRequest b = (Inr req, b')" and "r_Body req = Some B" and "wf_Body B"
    and "Body_meaning B = (d, EOF, rest)" and "length d < 2 ^ 64" and "r_Trailer req = None"
  shows "\<exists>tw payload B'. request_writer probe req = Inr tw \<and>
     Request_write probe toASCII req buffer =
       ((None, Some B'), buffer\<lparr>out := request_head toASCII req tw @ payload\<rparr>) \<and>
     Body_flat B' = rest \<and> delivers (r_TransferEncoding req) payload d"
proof -
  have "room buffer = None" by (simp add: buffer_def)
  with assms(2) ReadRequest_framed [OF assms(1,2)] assms(3-6) obtain tw payload B' where
    "request_writer probe req = Inr tw" "Request_write probe toASCII req buffer =
       ((None, Some B'), buffer\<lparr>out := out buffer @ request_head toASCII req tw @ payload\<rparr>)"
    "Body_flat B' = rest" "delivers (r_TransferEncoding req) payload d"
    by (rule Request_write_exact [of req B d rest buffer probe toASCII])
  then show ?thesis by (auto simp: buffer_def)
qed

subsection \<open>A request read on concrete input\<close>

lemmas reader_eval = readLineSlice_def readLineSlice_from.simps ReadSlice.simps
  strip_eol_def drop_cr_def LF_def CR_def CRLF_def

lemmas url_eval = ParseRequestURI_def getscheme_def is_letter_def is_digit_def HasSuffix_def HasPrefix_def
  cut_def split_query_def Let_def setPath_def hex_value_def empty_URL_def ToLower.simps

abbreviation example_reader :: "string \<Rightarrow> bufr" where
  "example_reader s \<equiv> \<lparr>buffered = s, incoming = [], at_end = EOF, cap = 4095\<rparr>"

lemma post_line:
  "parse_first_line ''POST / HTTP/1.1'' = Inr (''POST'', ''/'', ''HTTP/1.1'', 1, 1, empty_URL\<lparr>Path := ''/''\<rparr>)"
  by (simp add: parse_first_line_def parseRequestLine_def validMethod_def isNotToken_def ParseHTTPVersion_def
      parse_target_def IsTokenRune_ord url_eval escape_def shouldEscape_def is_alnum_def rbind_def)

lemma post_header:
  "ReadMIMEHeader_b (example_reader (''Content-Length: 2'' @ CRLF @ CRLF @ ''hiX'')) =
     (None, [(''Content-Length'', [''2''])], example_reader ''hiX'')"
proof -
  have l1: "readContinuedLineSlice (example_reader (''Content-Length: 2'' @ CRLF @ CRLF @ ''hiX'')) =
     (Inr ''Content-Length: 2'', example_reader (CRLF @ ''hiX''))"
    by (simp add: readContinuedLineSlice_def reader_eval is_blank_def trim_blank_def Buffered_def isASCIILetter_def
       lower_ascii_def read_more.simps skipSpace.simps)
  have l2: "readContinuedLineSlice (example_reader (CRLF @ ''hiX'')) = (Inr [], example_reader ''hiX'')"
    by (simp add: readContinuedLineSlice_def reader_eval)
  have r2: "read_header m (example_reader (CRLF @ ''hiX'')) = (None, m, example_reader ''hiX'')" for m
    by (subst read_header.simps, simp only: l2 prod.case sum.case) simp
  have r1: "read_header [] (example_reader (''Content-Length: 2'' @ CRLF @ CRLF @ ''hiX'')) =
      (None, [(''Content-Length'', [''2''])], example_reader ''hiX'')"
    by (subst read_header.simps, simp only: l1 prod.case sum.case)
      (simp add: r2 Let_def canonical_ids field_values_def is_blank_def)
  have "Peek 1 (example_reader (''Content-Length: 2'' @ CRLF @ CRLF @ ''hiX'')) =
     (''C'', example_reader (''Content-Length: 2'' @ CRLF @ CRLF @ ''hiX''))"
    by (simp add: Peek_def peek_fill.simps)
  then show ?thesis unfolding ReadMIMEHeader_b_def by (simp add: is_blank_def r1 [simplified])
qed

definition example_post :: Request where
  "example_post = \<lparr>r_Method = ''POST'', r_URL = empty_URL\<lparr>Path := ''/''\<rparr>, r_Proto = ''HTTP/1.1'', r_ProtoMajor = 1,
     r_ProtoMinor = 1, r_Header = [(''Content-Length'', [''2''])],
     r_Body = Some (TheBody (new_body (SrcLimited 2 (example_reader ''hiX'')) False False)),
     r_ContentLength = 2, r_TransferEncoding = [], r_Close = False, r_Host = '''', r_Trailer = None, r_RequestURI = ''/''\<rparr>"

lemma read_example_post:
  "ReadRequest (example_reader (''POST / HTTP/1.1'' @ CRLF @ ''Content-Length: 2'' @ CRLF @ CRLF @ ''hiX'')) =
     (Inr example_post, example_reader ''hiX'')"
proof -
  have line: "readLineSlice (example_reader (''POST / HTTP/1.1'' @ CRLF @ ''Content-Length: 2'' @ CRLF @ CRLF @ ''hiX'')) =
      (Inr ''POST / HTTP/1.1'', example_reader (''Content-Length: 2'' @ CRLF @ CRLF @ ''hiX''))"
    by (simp add: reader_eval)
  have tr: "TrimSpace ''2'' = ''2''" by (rule TrimSpace_graphic) (simp add: graphic_def)
  have pc: "parseContentLength ''2'' = Inr 2"
    by (simp add: parseContentLength_def tr ParseInt64_def ParseUint_def is_digit_def digit_val_def)
  have fin: "finish_request True (''POST'', ''/'', ''HTTP/1.1'', 1, 1, empty_URL\<lparr>Path := ''/''\<rparr>)
      [(''Content-Length'', [''2''])] (example_reader ''hiX'') = Inr example_post"
    by (simp add: finish_request_def fixPragmaCacheControl_def shouldClose_def readTransfer_def rbind_def
        fixTransferEncoding_def fixLength_def dedup_length_def field_values_def noResponseBodyExpected_def
        chunked_def fixTrailer_def Add_def Del_def canonical_ids Let_def tr pc choose_body_def example_post_def
        new_body_def isH2Upgrade_def get_def hasToken_def empty_URL_def)
  show ?thesis
    unfolding ReadRequest_def readRequest_def line post_line post_header prod.case sum.case option.case fin ..
qed

theorem forwarded_request_has_one_framing_witness:
  "\<exists>tw payload. request_writer (\<lambda>b. (None, 0)) example_post = Inr tw \<and>
     out (snd (Request_write (\<lambda>b. (None, 0)) Some example_post buffer)) =
       request_line Some example_post @ concat (map field_text (head_fields Some example_post tw)) @ CRLF @ payload \<and>
     length (filter (\<lambda>f. framing_name (fst f)) (head_fields Some example_post tw)) \<le> 1"
  using read_example_post by (rule forwarded_request_has_one_framing)

theorem forwarded_request_body_exact_witness:
  "\<exists>tw B'. Request_write (\<lambda>b. (None, 0)) Some example_post buffer =
       ((None, Some B'), buffer\<lparr>out := request_head Some example_post tw @ ''hi''\<rparr>) \<and> Body_flat B' = ''X''"
proof -
  let ?bd = "new_body (SrcLimited 2 (example_reader ''hiX'')) False False"
  have body: "r_Body example_post = Some (TheBody ?bd)" "r_Trailer example_post = None"
      "r_TransferEncoding example_post = []" by (simp_all add: example_post_def)
  have "wf_Body (TheBody ?bd)" "Body_meaning (TheBody ?bd) = (''hi'', EOF, ''X'')"
    by (simp_all add: wf_body_def new_body_def wf_bufr_def meaning_def flat_def)
  from forwarded_request_body_exact [OF read_example_post body(1) this _ body(2), of "\<lambda>b. (None, 0)" Some] body(3)
  show ?thesis by (auto simp: delivers_def)
qed

section \<open>Requests that were read are well formed\<close>

lemma readTransfer_coding:
  assumes "readTransfer isResponse status meth major minor close header r = Inr t"
  shows "t_TransferEncoding t = [] \<or> t_TransferEncoding t = [''chunked'']"
  using assms by (cases rule: readTransfer_cases) (auto dest: fixTransferEncoding_result)

text \<open>
  (C31) Every request that was read is well formed: its header has at most one entry per key and only
  canonical keys, which the operations on headers rely on; its method is a non-empty token; it has a
  body, which may be empty; and its transfer coding is none or \<open>chunked\<close>.
\<close>
theorem ReadRequest_well_formed:
  assumes "ReadRequest b = (Inr req, b')"
  shows "distinct (map fst (r_Header req)) \<and> list_all (\<lambda>kv. CanonicalHeaderKey (fst kv) = fst kv) (r_Header req) \<and>
    r_Method req \<noteq> [] \<and> list_all IsTokenRune (r_Method req) \<and> r_Body req \<noteq> None \<and>
    (r_TransferEncoding req = [] \<or> r_TransferEncoding req = [''chunked''])"
proof -
  have can: "canonical_keys (r_Header req)" using assms by (rule canonical_ReadRequest)
  from assms obtain s b1 l header where l: "parse_first_line s = Inr l" and f: "finish_request True l header b' = Inr req"
    by (rule ReadRequest_cases)
  obtain meth uri proto major minor u where lp: "l = (meth, uri, proto, major, minor, u)" by (metis surj_pair)
  have "validMethod meth" using l by (auto simp: parse_first_line_def lp rbind_Inr_iff split: option.splits if_splits)
  then have m: "meth \<noteq> []" "list_all IsTokenRune meth"
    by (auto simp: validMethod_def IndexFunc_None_iff isNotToken_def list_all_iff)
  from f obtain c h t where "readTransfer False 200 meth major minor c h b' = Inr t" "r_TransferEncoding req = t_TransferEncoding t"
    "r_Method req = meth" "r_Body req \<noteq> None"
    by (auto simp: finish_request_def lp rbind_Inr_iff Let_def split: prod.splits if_splits)
  with readTransfer_coding m can show ?thesis by (auto simp: canonical_keys_def)
qed

theorem ReadRequest_well_formed_witness:
  "distinct (map fst (r_Header example_post)) \<and> list_all IsTokenRune (r_Method example_post)"
  using ReadRequest_well_formed [OF read_example_post] by simp

section \<open>The forwarded target\<close>

lemma unescape_nonempty: "unescape mode (CHR ''/'' # s) = Inr t \<Longrightarrow> t \<noteq> ''''"
  using unescape_slash by blast

lemma write_uri_origin_form:
  assumes "parse_target method s = Inr u" and "HasPrefix s ''/''" and "validEncodedPath (target_path s)"
    and "r_URL r = u" and "r_Method r = method"
  shows "write_uri host r = s \<and> URL_Host u = ''''"
proof -
  from assms(1,2) have u: "ParseRequestURI s = Inr u"
    by (auto simp: parse_target_def Let_def split: sum.splits)
  note o = RequestURI_origin_form [OF u assms(2,3)]
  have "Path u \<noteq> ''''"
  proof -
    obtain s' where s: "s = CHR ''/'' # s'" using assms(2) by (cases s) (auto simp: HasPrefix_def)
    obtain force p q where pq: "split_query s = (force, p, q)" by (metis surj_pair)
    have "HasPrefix p ''/''" using split_query_cases(1) [OF pq] s by (simp add: target_path_def HasPrefix_def)
    then obtain p' where p: "p = CHR ''/'' # p'" by (cases p) (auto simp: HasPrefix_def)
    have "\<exists>u0. setPath p u0 = Inr u"
      using u pq s getscheme_slash [of s'] p
      by (auto simp: ParseRequestURI_def Let_def empty_URL_def HasPrefix_def ToLower.simps split: if_splits)
    then show ?thesis using p unescape_nonempty by (auto simp: setPath_def rbind_Inr_iff)
  qed
  with o assms(4) show ?thesis by (simp add: write_uri_def)
qed

text \<open>
  The target of a request in origin form is forwarded byte for byte: whatever method came
  with it, a target that starts with a slash and whose path is validly escaped is written exactly
  as it was read, with its escapes, its query and a trailing question mark, and it never sets a
  host of its own.
\<close>
lemma forwarded_target_unchanged:
  assumes "parse_target method s = Inr u" and "HasPrefix s ''/''" and "validEncodedPath (target_path s)"
    and "r_URL r = u" and "r_Method r = method"
  shows "write_uri host r = s \<and> URL_Host u = ''''"
  using assms by (rule write_uri_origin_form)

lemma forwarded_target_unchanged_witness:
  "\<exists>u. parse_target ''PUT'' ''/a%2Fb/?x=1?'' = Inr u \<and>
     write_uri ''h'' (example_post\<lparr>r_URL := u, r_Method := ''PUT''\<rparr>) = ''/a%2Fb/?x=1?''"
proof -
  let ?s = "''/a%2Fb/?x=1?''"
  have "\<exists>u. parse_target ''PUT'' ?s = Inr u"
    by (simp add: parse_target_def url_eval)
  then obtain u where u: "parse_target ''PUT'' ?s = Inr u" by blast
  moreover have "write_uri ''h'' (example_post\<lparr>r_URL := u, r_Method := ''PUT''\<rparr>) = ?s"
    using forwarded_target_unchanged [OF u, of "example_post\<lparr>r_URL := u, r_Method := ''PUT''\<rparr>" "''h''"]
    by (simp add: HasPrefix_def validEncodedPath_def target_path_def shouldEscape_def is_alnum_def is_letter_def is_digit_def)
  ultimately show ?thesis by blast
qed

end
