(* ===== verification/Progress.thy ===== *)
theory Progress
  imports Messages
begin

text \<open>
  Reading only moves forward: after every operation of the readers, what is left of the stream is
  a suffix of what was left before, and so is what the connection has yet to deliver; the size of
  the buffer and the end of the connection stay. The loops of the handlers end because of the
  first, and what the temporary buffer recorded is determined by the second.
\<close>

definition advances :: "bufr \<Rightarrow> bufr \<Rightarrow> bool" where
  "advances r r' \<longleftrightarrow> suffix (flat r') (flat r) \<and> suffix (concat (incoming r')) (concat (incoming r)) \<and>
     at_end r' = at_end r \<and> cap r' = cap r \<and>
     (length (buffered r) \<le> cap r \<longrightarrow> length (buffered r') \<le> cap r)"

lemma advances_refl [simp, intro]: "advances r r" by (simp add: advances_def)

lemma advances_trans [trans]: "advances a b \<Longrightarrow> advances b c \<Longrightarrow> advances a c"
  unfolding advances_def using suffix_order.trans by (metis (no_types, lifting))

lemma advances_length: "advances r r' \<Longrightarrow> length (flat r') \<le> length (flat r)"
  by (simp add: advances_def suffix_length_le)

lemma advances_wf: "advances r r' \<Longrightarrow> wf_bufr r \<Longrightarrow> wf_bufr r'"
  by (simp add: advances_def wf_bufr_def)

lemma advances_end [simp]: "concat (incoming r) = [] \<Longrightarrow> advances r (r\<lparr>incoming := []\<rparr>)"
  by (simp add: advances_def flat_def del: concat_eq_Nil_conv)

lemma advances_end_empty [simp]: "concat (incoming r) = [] \<Longrightarrow> advances r (r\<lparr>buffered := [], incoming := []\<rparr>)"
  by (simp add: advances_def flat_def del: concat_eq_Nil_conv)

lemma advances_take [simp]: "advances r (r\<lparr>buffered := drop n (buffered r)\<rparr>)"
  by (auto simp: advances_def flat_def suffix_append suffix_drop)

lemma advances_fetch:
  "concat (incoming r) = b @ concat rest \<Longrightarrow> length b \<le> cap r - length (buffered r) \<Longrightarrow>
   advances r (r\<lparr>buffered := buffered r @ b, incoming := rest\<rparr>)"
  by (auto simp: advances_def flat_def suffix_def)

lemma advances_fetch_Nil:
  "buffered r = [] \<Longrightarrow> concat (incoming r) = b @ concat rest \<Longrightarrow> length b \<le> cap r \<Longrightarrow>
   advances r (r\<lparr>buffered := drop n b, incoming := rest\<rparr>)"
  by (auto simp: advances_def flat_def suffix_def intro: exI [of _ "take n b"])

section \<open>Lines\<close>

lemma advances_Read: "Read k r = (p, r') \<Longrightarrow> advances r r'"
proof -
  assume rd: "Read k r = (p, r')"
  show ?thesis
  proof (cases "k = 0 \<or> buffered r \<noteq> []")
    case True
    with rd show ?thesis by (auto simp: Read_def split: if_splits)
  next
    case False
    show ?thesis
    proof (cases "conn_read (if k \<ge> cap r then k else cap r) (incoming r)")
      case None
      then have "concat (incoming r) = []" by (simp only: conn_read_None_iff)
      then have "advances r (r\<lparr>incoming := []\<rparr>)" by (rule advances_end)
      with False None rd show ?thesis by (auto simp: Read_def split: if_splits)
    next
      case (Some q)
      obtain b rest where q: "q = (b, rest)" by fastforce
      from conn_read_SomeD [OF Some [unfolded q]] have c: "concat (incoming r) = b @ concat rest"
        "length b \<le> (if k \<ge> cap r then k else cap r)" by blast+
      have "advances r (r\<lparr>incoming := rest\<rparr>)"
        using c False by (simp add: advances_def flat_def suffix_def)
      moreover have "advances r (r\<lparr>buffered := drop k b, incoming := rest\<rparr>)" if "\<not> k \<ge> cap r"
        using c False that by (intro advances_fetch_Nil) auto
      ultimately show ?thesis using False Some q rd by (auto simp: Read_def split: if_splits)
    qed
  qed
qed

lemma advances_ReadSlice: "ReadSlice d r = (p, r') \<Longrightarrow> advances r r'"
proof (induction d r rule: ReadSlice.induct)
  case (1 d r)
  note step = "1.prems" [unfolded ReadSlice.simps [of d r]]
  show ?case
  proof (cases "Index d (buffered r) = None \<and> \<not> cap r \<le> length (buffered r)")
    case False
    then show ?thesis using step advances_take [of r "length (buffered r)"]
      by (auto split: option.splits if_splits)
  next
    case True
    show ?thesis
    proof (cases "conn_read (cap r - length (buffered r)) (incoming r)")
      case None
      then have "concat (incoming r) = []" by (simp only: conn_read_None_iff)
      from advances_end_empty [OF this] True None step show ?thesis by auto
    next
      case (Some q)
      obtain b rest where q: "q = (b, rest)" by fastforce
      from conn_read_SomeD [OF Some [unfolded q]] have "concat (incoming r) = b @ concat rest"
        "length b \<le> cap r - length (buffered r)" by blast+
      note fetch = advances_fetch [OF this]
      have "advances (r\<lparr>buffered := buffered r @ b, incoming := rest\<rparr>) r'"
        using "1.IH" [OF _ _ Some q [symmetric]] True Some q step by auto
      with fetch show ?thesis by (rule advances_trans)
    qed
  qed
qed

lemma advances_ReadFull: "ReadFull k r = (p, r') \<Longrightarrow> advances r r'"
proof -
  have "ReadFull_from acc k r = (p, r') \<Longrightarrow> advances r r'" for acc
  proof (induction acc k r rule: ReadFull_from.induct)
    case (1 acc k r)
    obtain b e r1 where rd: "Read k r = ((b, e), r1)" by (metis surj_pair)
    note adv = advances_Read [OF rd]
    note step = "1.prems" [unfolded ReadFull_from.simps [of acc k r] rd prod.case]
    show ?case
    proof (cases "k = 0 \<or> e \<noteq> None \<or> b = []")
      case True
      with step adv show ?thesis by (auto split: if_splits option.splits)
    next
      case False
      then have "advances r1 r'" using "1.IH" [of "(b, e)" r1 b] rd step by auto
      with adv show ?thesis by (rule advances_trans)
    qed
  qed
  then show "ReadFull k r = (p, r') \<Longrightarrow> advances r r'" by (simp add: ReadFull_def)
qed

lemma advances_peek_fill: "advances r (peek_fill n r)"
proof (induction n r rule: peek_fill.induct)
  case (1 n r)
  show ?case
  proof (cases "n \<le> length (buffered r) \<or> cap r \<le> length (buffered r)")
    case True
    then show ?thesis by (simp add: peek_fill.simps [of n r])
  next
    case False
    show ?thesis
    proof (cases "conn_read (cap r - length (buffered r)) (incoming r)")
      case None
      then have "concat (incoming r) = []" by (simp only: conn_read_None_iff)
      from advances_end [OF this] False None show ?thesis by (simp add: peek_fill.simps [of n r])
    next
      case (Some q)
      obtain b rest where q: "q = (b, rest)" by fastforce
      from conn_read_SomeD [OF Some [unfolded q]] have "concat (incoming r) = b @ concat rest"
        "length b \<le> cap r - length (buffered r)" by blast+
      from advances_fetch [OF this] "1.IH" [OF False Some q [symmetric]] False Some q show ?thesis
        by (simp add: peek_fill.simps [of n r]) (rule advances_trans)
    qed
  qed
qed

lemma advances_Peek: "Textproto.Peek n r = (p, r') \<Longrightarrow> advances r r'"
  using advances_peek_fill [of r n] by (auto simp: Textproto.Peek_def Let_def)

lemma advances_Discard: "advances r (Discard n r)"
  by (simp add: Discard_def)

lemma advances_skipSpace: "skipSpace r = (n, r') \<Longrightarrow> advances r r'"
proof (induction r arbitrary: n r' rule: skipSpace.induct)
  case (1 r)
  show ?case
  proof (cases "buffered r")
    case (Cons c cs)
    obtain m r1 where sk: "skipSpace (r\<lparr>buffered := cs\<rparr>) = (m, r1)" by fastforce
    have a: "advances r (r\<lparr>buffered := cs\<rparr>)" using advances_take [of r 1] Cons by simp
    show ?thesis
    proof (cases "is_blank c")
      case True
      with "1.IH"(2) [OF Cons True sk] "1.prems" sk a Cons show ?thesis
        by (auto simp: skipSpace_Cons intro: advances_trans)
    next
      case False
      with "1.prems" Cons show ?thesis by (auto simp: skipSpace_Cons)
    qed
  next
    case Nil
    show ?thesis
    proof (cases "conn_read (cap r) (incoming r)")
      case None
      then have "concat (incoming r) = []" by (simp only: conn_read_None_iff)
      from advances_end [OF this] "1.prems" Nil None show ?thesis by (auto simp: skipSpace_Nil split: if_splits)
    next
      case (Some q)
      obtain b rest where q: "q = (b, rest)" by fastforce
      from conn_read_SomeD [OF Some [unfolded q]] have "concat (incoming r) = b @ concat rest"
        "length b \<le> cap r" by blast+
      with advances_fetch [of r b rest] Nil have a: "advances r (r\<lparr>buffered := b, incoming := rest\<rparr>)" by simp
      show ?thesis
      proof (cases "cap r = 0")
        case True
        with "1.prems" Nil show ?thesis by (simp add: skipSpace_Nil)
      next
        case False
        with "1.prems" Nil Some q have "skipSpace (r\<lparr>buffered := b, incoming := rest\<rparr>) = (n, r')"
          by (simp add: skipSpace_Nil)
        from "1.IH"(1) [OF Nil False Some [unfolded q] refl this] a show ?thesis using advances_trans by blast
      qed
    qed
  qed
qed

lemma ReadSlice_bound: "ReadSlice d r = ((b, e), r') \<Longrightarrow> length (buffered r) \<le> cap r \<Longrightarrow> length b \<le> cap r"
proof (induction d r rule: ReadSlice.induct)
  case (1 d r)
  note step = "1.prems"(1) [unfolded ReadSlice.simps [of d r]]
  show ?case
  proof (cases "Index d (buffered r) = None \<and> \<not> cap r \<le> length (buffered r)")
    case False
    then show ?thesis using step "1.prems"(2) by (auto split: option.splits if_splits)
  next
    case True
    show ?thesis
    proof (cases "conn_read (cap r - length (buffered r)) (incoming r)")
      case None
      with True step "1.prems"(2) show ?thesis by auto
    next
      case (Some q)
      obtain c rest where q: "q = (c, rest)" by fastforce
      from conn_read_SomeD [OF Some [unfolded q]] have "length c \<le> cap r - length (buffered r)" by blast
      with "1.IH" [OF _ _ Some q [symmetric]] True Some q step "1.prems"(2) show ?thesis by auto
    qed
  qed
qed

lemma advances_push_CR:
  assumes "ReadSlice LF r = ((b, Some ErrBufferFull), r1)" "b \<noteq> []" "last b = CR"
  shows "advances r (r1\<lparr>buffered := CR # buffered r1\<rparr>)"
proof -
  note adv = advances_ReadSlice [OF assms(1)]
  moreover from ReadSlice_consumes [OF assms(1)] have "flat r = butlast b @ CR # flat r1"
    using assms(2,3) by (metis append_butlast_last_id append_Cons append_Nil append_assoc)
  then have "suffix (flat (r1\<lparr>buffered := CR # buffered r1\<rparr>)) (flat r)" by (simp add: flat_def suffix_def)
  moreover have "buffered r1 = []" using ReadSlice_full assms(1) by blast
  moreover have "Suc 0 \<le> cap r" if "length (buffered r) \<le> cap r"
    using ReadSlice_bound [OF assms(1) that] assms(2) by (cases b) auto
  ultimately show ?thesis by (auto simp: advances_def)
qed

lemma advances_readLineSlice_from: "readLineSlice_from acc r = (p, r') \<Longrightarrow> advances r r'"
proof (induction acc r rule: readLineSlice_from.induct)
  case (1 acc r)
  obtain b e r1 where rs: "ReadSlice LF r = ((b, e), r1)" by (metis surj_pair)
  note adv = advances_ReadSlice [OF rs]
  note step = "1.prems" [unfolded readLineSlice_from.simps [of acc r] rs prod.case]
  show ?case
  proof (cases "e = Some ErrBufferFull \<and> 1 < length b")
    case False
    with step adv show ?thesis by (auto split: option.splits if_splits)
  next
    case True
    then have b: "b \<noteq> []" by auto
    show ?thesis
    proof (cases "last b = CR")
      case True
      with \<open>e = Some ErrBufferFull \<and> 1 < length b\<close> "1.IH"(1) [of "(b, e)" r1 b e] rs step
      have "advances (r1\<lparr>buffered := CR # buffered r1\<rparr>) r'" by simp
      moreover have "advances r (r1\<lparr>buffered := CR # buffered r1\<rparr>)"
        using advances_push_CR [of r b r1] rs b True \<open>e = Some ErrBufferFull \<and> 1 < length b\<close> by simp
      ultimately show ?thesis using advances_trans by blast
    next
      case False
      with \<open>e = Some ErrBufferFull \<and> 1 < length b\<close> "1.IH"(2) [of "(b, e)" r1 b e] rs step
      have "advances r1 r'" by simp
      with adv show ?thesis by (rule advances_trans)
    qed
  qed
qed

lemma advances_readLineSlice: "readLineSlice r = (p, r') \<Longrightarrow> advances r r'"
  by (simp add: readLineSlice_def advances_readLineSlice_from)

lemma advances_read_more: "read_more acc r = (p, r') \<Longrightarrow> advances r r'"
proof (induction acc r rule: read_more.induct)
  case (1 acc r)
  obtain n r1 where sk: "skipSpace r = (n, r1)" by fastforce
  obtain res r2 where rl: "readLineSlice r1 = (res, r2)" by fastforce
  note step = "1.prems" [unfolded read_more.simps [of acc r] sk prod.case rl]
  have a: "advances r r1" "advances r r2"
    using advances_skipSpace [OF sk] advances_readLineSlice [OF rl] advances_trans by blast+
  show ?case
  proof (cases "n = 0 \<or> (\<exists>e. res = Inl e)")
    case True
    with step a show ?thesis by (auto split: if_splits)
  next
    case False
    then obtain l where l: "res = Inr l" by (cases res) auto
    with "1.IH" [OF sk [symmetric] _ rl [symmetric] l] False step a(2) show ?thesis
      by (auto intro: advances_trans)
  qed
qed

lemma advances_readContinuedLineSlice: "readContinuedLineSlice r = (p, r') \<Longrightarrow> advances r r'"
  by (auto simp: readContinuedLineSlice_def split: prod.splits sum.splits if_splits
      dest!: advances_readLineSlice advances_read_more intro: advances_trans)

lemma advances_read_header: "read_header m r = (p, h, r') \<Longrightarrow> advances r r'"
proof (induction m r rule: read_header.induct)
  case (1 m r)
  obtain res r1 where rc: "readContinuedLineSlice r = (res, r1)" by fastforce
  note adv = advances_readContinuedLineSlice [OF rc]
  note step = "1.prems" [unfolded read_header.simps [of m r] rc prod.case]
  show ?case
  proof (cases "\<exists>kv i. res = Inr kv \<and> kv \<noteq> [] \<and> Index (CHR '':'') kv = Some i")
    case False
    with step adv show ?thesis by (auto split: sum.splits if_splits option.splits)
  next
    case True
    then obtain kv i where k: "res = Inr kv" "kv \<noteq> []" "Index (CHR '':'') kv = Some i" by blast
    let ?key = "CanonicalHeaderKey (take i kv)"
    from "1.IH"(1) [OF rc [symmetric] k(1,2,3) refl] "1.IH"(2) [OF rc [symmetric] k(1,2,3) refl] step k
    have "advances r1 r'" by (auto simp: Let_def split: if_splits)
    with adv show ?thesis by (rule advances_trans)
  qed
qed

lemma advances_ReadMIMEHeader: "ReadMIMEHeader_b r = (p, h, r') \<Longrightarrow> advances r r'"
proof -
  assume h: "ReadMIMEHeader_b r = (p, h, r')"
  obtain q r1 where pk: "Textproto.Peek 1 r = (q, r1)" by fastforce
  note a = advances_Peek [OF pk]
  have "advances r1 r'"
    using h pk by (auto simp: ReadMIMEHeader_b_def split: list.splits if_splits sum.splits prod.splits
      dest: advances_readLineSlice advances_read_header)
  with a show ?thesis by (rule advances_trans)
qed

section \<open>Bodies\<close>

lemma advances_readChunkLine: "readChunkLine r = (p, r') \<Longrightarrow> advances r r'"
  by (auto simp: readChunkLine_def split: prod.splits option.splits if_splits dest: advances_ReadSlice)

lemma advances_beginChunk: "advances (cr_r cr) (cr_r (beginChunk cr))"
  by (auto simp: beginChunk_def split: prod.splits sum.splits dest: advances_readChunkLine)

lemma advances_check_footer: "check_footer acc cr = (s, cr') \<Longrightarrow> advances (cr_r cr) (cr_r cr')"
  by (auto simp: check_footer_def split: prod.splits option.splits if_splits dest: advances_ReadFull)

lemma advances_read_pass: "read_pass k acc cr = (s, k', acc', cr') \<Longrightarrow> advances (cr_r cr) (cr_r cr')"
proof -
  assume rp: "read_pass k acc cr = (s, k', acc', cr')"
  obtain stop cr1 where f: "check_footer acc cr = (stop, cr1)" by fastforce
  note a = advances_check_footer [OF f]
  have "advances (cr_r cr1) (cr_r cr')"
    using rp f by (auto simp: read_pass_def Let_def advances_beginChunk split: bool.splits if_splits prod.splits
      dest: advances_Read)
  with a show ?thesis by (rule advances_trans)
qed

lemma advances_read_loop: "read_loop k acc cr = (b, cr') \<Longrightarrow> advances (cr_r cr) (cr_r cr')"
proof (induction k acc cr rule: read_loop.induct)
  case (1 k acc cr)
  obtain s k1 acc1 cr1 where rp: "read_pass k acc cr = (s, k1, acc1, cr1)" by (metis surj_pair)
  note a = advances_read_pass [OF rp]
  note step = "1.prems" [unfolded read_loop.simps [of k acc cr] rp prod.case]
  show ?case
  proof (cases "cr_err cr \<noteq> None \<or> \<not> s")
    case True
    with step a show ?thesis by (auto split: if_splits bool.splits)
  next
    case False
    with step "1.IH" [of s "(k1, acc1, cr1)" k1 "(acc1, cr1)" acc1 cr1] rp have "advances (cr_r cr1) (cr_r cr')"
      by (auto split: if_splits)
    with a show ?thesis by (rule advances_trans)
  qed
qed

lemma advances_src_Read: "src_Read k s = (p, s') \<Longrightarrow> advances (src_reader s) (src_reader s')"
  by (cases s) (auto simp: cr_Read_def split: prod.splits if_splits dest: advances_read_loop advances_Read)

lemma advances_see_double: "see_double n k r = (b, r') \<Longrightarrow> advances r r'"
proof (induction n k r rule: see_double.induct)
  case (2 n k r)
  obtain q r1 where pk: "Textproto.Peek k r = (q, r1)" by fastforce
  note a = advances_Peek [OF pk]
  show ?case
    using 2 pk a by (auto split: if_splits intro: advances_trans)
qed simp

lemma advances_readTrailer: "readTrailer r tr = (e, tr', r') \<Longrightarrow> advances r r'"
proof -
  assume rt: "readTrailer r tr = (e, tr', r')"
  obtain q r1 where pk: "Textproto.Peek 2 r = (q, r1)" by fastforce
  obtain s r2 where sd: "seeUpcomingDoubleCRLF r1 = (s, r2)" by fastforce
  have a: "advances r r1" "advances r1 r2"
    using advances_Peek [OF pk] sd advances_see_double by (auto simp: seeUpcomingDoubleCRLF_def)
  have "advances r1 r'"
    using rt pk sd a(2) advances_Discard
    by (auto simp: readTrailer_def split: if_splits bool.splits prod.splits option.splits
        dest!: advances_ReadMIMEHeader intro: advances_trans)
  with a(1) show ?thesis by (rule advances_trans)
qed

definition body_bufr :: "body \<Rightarrow> bufr" where
  "body_bufr b = src_reader (b_src b)"

lemma advances_readLocked: "readLocked k b = (p, b') \<Longrightarrow> advances (body_bufr b) (body_bufr b')"
proof -
  assume rl: "readLocked k b = (p, b')"
  obtain q e s where rd: "src_Read k (b_src b) = ((q, e), s)" by (metis surj_pair)
  note a = advances_src_Read [OF rd]
  obtain e2 tr r where rt: "readTrailer (src_reader s) (b_trailer b) = (e2, tr, r)" by (metis surj_pair)
  note a2 = advances_trans [OF a advances_readTrailer [OF rt]]
  show ?thesis
    using rl rd rt a a2 by (auto simp: readLocked_def body_bufr_def split: if_splits option.splits)
qed

lemma advances_body_Read: "body_Read k b = (p, b') \<Longrightarrow> advances (body_bufr b) (body_bufr b')"
  by (auto simp: body_Read_def split: if_splits dest: advances_readLocked)

lemma advances_limited_Read: "limited_Read k lim b = (p, lim', b') \<Longrightarrow> advances (body_bufr b) (body_bufr b')"
  by (cases lim) (auto split: if_splits prod.splits dest: advances_body_Read)

lemma advances_copy_body: "copy_body wr k lim b w = (p, b', w') \<Longrightarrow> advances (body_bufr b) (body_bufr b')"
proof (induction wr k lim b w arbitrary: p rule: copy_body.induct)
  case (1 wr k lim b w)
  obtain q er lim1 b1 where lr: "limited_Read k lim b = ((q, er), lim1, b1)" by (metis surj_pair)
  note a = advances_limited_Read [OF lr]
  obtain ew w1 where w1: "(if q = [] then (None, w) else wr q w) = (ew, w1)" by fastforce
  note step = "1.prems" [unfolded copy_body.simps [of wr k lim b w] lr prod.case w1]
  show ?case
  proof (cases "ew = None \<and> er = None \<and> q \<noteq> []")
    case False
    with step a show ?thesis by (auto split: option.splits if_splits)
  next
    case True
    obtain p2 b2 w2 where rec: "copy_body wr k lim1 b1 w1 = (p2, b2, w2)" by (metis surj_pair)
    with True step have "b2 = b'" "w2 = w'" by (auto split: prod.splits)
    with "1.IH" [OF lr [symmetric] refl refl w1 [symmetric], of p2] True rec have "advances (body_bufr b1) (body_bufr b')"
      by auto
    with a show ?thesis by (rule advances_trans)
  qed
qed

lemma advances_body_Close: "body_Close b = (e, b') \<Longrightarrow> advances (body_bufr b) (body_bufr b')"
  by (auto simp: body_Close_def body_bufr_def split: if_splits prod.splits
      dest!: advances_copy_body [unfolded body_bufr_def])

fun Body_bufr :: "Body \<Rightarrow> bufr" where
  "Body_bufr (NoBody r) = r"
| "Body_bufr (TheBody b) = body_bufr b"
| "Body_bufr (Prefixed p b) = body_bufr b"

lemma advances_copy_Body: "copy_Body wr lim B w = (p, B', w') \<Longrightarrow> advances (Body_bufr B) (Body_bufr B')"
  by (cases B) (auto simp: Let_def split: prod.splits option.splits if_splits dest: advances_copy_body)

lemma advances_Body_Close: "Body_Close B = (e, B') \<Longrightarrow> advances (Body_bufr B) (Body_bufr B')"
  by (cases B) (auto split: prod.splits dest: advances_body_Close)

lemma advances_write_payload: "write_payload t B w = (p, B', w') \<Longrightarrow> advances (Body_bufr B) (Body_bufr B')"
proof -
  assume wp: "write_payload t B w = (p, B', w')"
  obtain n e b1 w1 where c: "copy_Body chunk_out None B w = ((n, e), b1, w1)" by (metis surj_pair)
  obtain q b2 w2 where c2: "copy_Body WriteString None B w = (q, b2, w2)" by (metis surj_pair)
  obtain n3 e3 b3 w3 where c3: "copy_Body WriteString (Some (ContentLength t)) B w = ((n3, e3), b3, w3)"
    by (metis surj_pair)
  obtain q4 b4 w4 where c4: "copy_Body discard None b3 () = (q4, b4, w4)" by (metis surj_pair)
  obtain e5 w5 where c5: "cw_Close w1 = (e5, w5)" by fastforce
  obtain n4 e4 where q4: "q4 = (n4, e4)" by fastforce
  have "B' \<in> {b1, b2, b3, b4}"
    using wp c c2 c3 c4 c5 q4
    by (cases "chunked (TransferEncoding t)"; cases "ContentLength t = - 1"; cases e; cases e3)
      (simp_all add: write_payload_def)
  moreover have "advances (Body_bufr B) (Body_bufr b1)" "advances (Body_bufr B) (Body_bufr b2)"
    "advances (Body_bufr B) (Body_bufr b3)" "advances (Body_bufr b3) (Body_bufr b4)"
    using advances_copy_Body [OF c] advances_copy_Body [OF c2] advances_copy_Body [OF c3] advances_copy_Body [OF c4]
    by simp_all
  ultimately show ?thesis using advances_trans by blast
qed

definition body_after :: "bufr \<Rightarrow> Body option \<Rightarrow> bufr" where
  "body_after r B = (case B of None \<Rightarrow> r | Some b \<Rightarrow> Body_bufr b)"


lemma advances_writeBody:
  assumes "writeBody t w = ((e, B), w')" "tw_Body t = None \<or> tw_Body t = BodyCloser t" "BodyCloser t = Some B0"
  shows "advances (Body_bufr B0) (body_after r B) \<and> B \<noteq> None"
proof -
  obtain ncopy err body1 w1 where p: "(case tw_Body t of
               None \<Rightarrow> ((0, None), BodyCloser t, w)
             | Some b \<Rightarrow> (case write_payload t b w of (p, b', w') \<Rightarrow> (p, Some b', w'))) = ((ncopy, err), body1, w1)"
    by (metis surj_pair)
  have "\<exists>b1. body1 = Some b1 \<and> advances (Body_bufr B0) (Body_bufr b1)"
    using p assms(2) by (auto simp: assms(3) split: option.splits prod.splits dest: advances_write_payload)
  then obtain b1 where b1: "body1 = Some b1" "advances (Body_bufr B0) (Body_bufr b1)" by blast
  obtain cerr b2 where cl: "Body_Close b1 = (cerr, b2)" by fastforce
  have a2: "advances (Body_bufr B0) (Body_bufr b2)"
    using b1(2) advances_Body_Close [OF cl] by (rule advances_trans)
  obtain terr w2 where tr: "(case Trailer t of None \<Rightarrow> (None, w1)
      | Some _ \<Rightarrow> (case body_trailer (Some b2) of None \<Rightarrow> (None, w1) | Some tr \<Rightarrow> Headers.Write tr w1)) = (terr, w2)"
    by fastforce
  obtain e3 w3 where fin: "WriteString CRLF w2 = (e3, w3)" by fastforce
  have "B \<in> {Some b1, Some b2}"
    using assms(1) unfolding writeBody_def p Let_def prod.case b1(1) option.case cl tr fin
    by (auto split: if_splits)
  with b1(2) a2 show ?thesis by (auto simp: body_after_def)
qed

lemma sanitize_body: "(tw_Body (sanitize x t) = None \<or> tw_Body (sanitize x t) = tw_Body t) \<and> BodyCloser (sanitize x t) = BodyCloser t"
  by (simp add: sanitize_def Let_def)

lemma sanitize_not_head: "\<not> ResponseToHEAD t \<Longrightarrow> tw_Body (sanitize x t) = tw_Body t"
  by (simp add: sanitize_def Let_def)


section \<open>Messages\<close>

lemma ReadRequest_progress:
  assumes "ReadRequest b = (Inr req, b')"
  shows "advances b b' \<and> length (flat b') < length (flat b)"
proof -
  from assms obtain s b1 l header where r: "readLineSlice b = (Inr s, b1)" "ReadMIMEHeader_b b1 = (None, header, b')"
    by (rule ReadRequest_cases)
  have "length (flat b1) < length (flat b)" using r(1) readLineSlice_from_length by (simp add: readLineSlice_def)
  with advances_readLineSlice [OF r(1)] advances_ReadMIMEHeader [OF r(2)] show ?thesis
    using advances_length advances_trans le_less_trans by blast
qed

lemma advances_ReadRequest: "ReadRequest b = (res, b') \<Longrightarrow> advances b b'"
  by (auto simp: ReadRequest_def readRequest_def split: prod.splits sum.splits option.splits
      dest!: advances_readLineSlice advances_ReadMIMEHeader intro: advances_trans)

lemma ReadResponse_progress:
  assumes "ReadResponse b = (Inr resp, b')"
  shows "advances b b' \<and> length (flat b') < length (flat b)"
proof -
  from assms obtain s b1 header where r: "readLineSlice b = (Inr s, b1)" "ReadMIMEHeader_b b1 = (None, header, b')"
    by (auto simp: ReadResponse_def split: prod.splits sum.splits option.splits)
  have "length (flat b1) < length (flat b)" using r(1) readLineSlice_from_length by (simp add: readLineSlice_def)
  with advances_readLineSlice [OF r(1)] advances_ReadMIMEHeader [OF r(2)] show ?thesis
    using advances_length advances_trans le_less_trans by blast
qed

lemma advances_ReadResponse: "ReadResponse b = (res, b') \<Longrightarrow> advances b b'"
  by (auto simp: ReadResponse_def split: prod.splits sum.splits option.splits
      dest!: advances_readLineSlice advances_ReadMIMEHeader intro: advances_trans)

lemma choose_body_reader: "Body_bufr (choose_body m st te n c tr r) = r"
  by (simp add: choose_body_def Let_def body_bufr_def NewChunkedReader_def)

lemma readTransfer_reader: "readTransfer isR st m mj mn c h r = Inr t \<Longrightarrow> Body_bufr (t_Body t) = r"
  by (erule readTransfer_cases) (simp add: choose_body_reader)

lemma ReadRequest_reader:
  assumes "ReadRequest b = (Inr req, b')"
  obtains B where "r_Body req = Some B" "Body_bufr B = b'"
proof -
  from assms obtain l header where f: "finish_request True l header b' = Inr req" by (rule ReadRequest_cases)
  then obtain t m mj mn c h where "readTransfer False 200 m mj mn c h b' = Inr t" "r_Body req = Some (t_Body t)"
    by (auto simp: finish_request_def Let_def rbind_Inr_iff split: prod.splits if_splits)
  with readTransfer_reader that show ?thesis by blast
qed

lemma ReadResponse_reader:
  assumes "ReadResponse b = (Inr resp, b')"
  obtains B where "p_Body resp = Some B" "Body_bufr B = b'"
proof -
  from assms obtain l header where "finish_response ''GET'' l header b' = Inr resp"
    by (auto simp: ReadResponse_def split: prod.splits sum.splits option.splits)
  then obtain t st mj mn h where "readTransfer True st ''GET'' mj mn False h b' = Inr t" "p_Body resp = Some (t_Body t)"
    by (auto simp: finish_response_def rbind_Inr_iff split: prod.splits)
  with readTransfer_reader that show ?thesis by blast
qed

lemma request_writer_bodies:
  assumes "r_Body r = Some B" "request_writer (\<lambda>b. (Some b, n b)) r = Inr tw"
  shows "tw_Body tw = BodyCloser tw \<and> BodyCloser tw = Some B"
proof -
  have "\<exists>t. tw = sanitize True t \<and> tw_Body t = Some B \<and> BodyCloser t = Some B \<and> \<not> ResponseToHEAD t"
    using assms
    by (auto simp: request_writer_def newTransferWriter_request_def shouldSendChunkedRequestBody_def Let_def
        split: if_splits prod.splits bool.splits)
  with sanitize_body sanitize_not_head show ?thesis by metis
qed
end
