(* ===== verification/Tracing.thy ===== *)
theory Tracing
  imports Messages Queue GoCache Config
begin

text \<open>
  The tracing of a connection: \<open>NetHTTPRequest\<close> of \<open>pkg/protocol/http.go\<close>. It queues the requests
  and responses that pass, starts a span for a request and finishes it when a response was
  written.

  The tracer (\<open>opentracing\<close>, \<open>jaeger\<close>) is an argument: \<open>Extract\<close> reads a span context from a
  header, \<open>StartSpan\<close> makes a new context from the tracer's state, \<open>Inject\<close> writes one into a
  header. A span is the calls made on it: its tags, a later value of a tag replacing an earlier
  one, and whether it was finished. Requests are shared by pointer between the queue and the
  handler, and \<open>StartRequest\<close> changes the header of the request it looks at, so requests live in
  a store and the queue holds their addresses.

  The contexts \<open>'c\<close> are jaeger's: \<open>StartRequest\<close> asserts their type, and would panic on those of another
  tracer. \<open>StartRequest_checked\<close>, at the end of this theory, has the assertion.
\<close>

datatype tag = TagString string | TagInt int | TagBool bool

record 'c span =
  operation :: string
  parent :: "'c option"
  span_context :: 'c
  tags :: "string \<rightharpoonup> tag"

definition SetTag :: "string \<Rightarrow> tag \<Rightarrow> 'c span \<Rightarrow> 'c span" where
  "SetTag k v sp = sp\<lparr>tags := (tags sp)(k \<mapsto> v)\<rparr>"

record ('s, 'c) tracer =
  Extract :: "Header \<Rightarrow> 'c option"
  StartSpan :: "string \<Rightarrow> 'c option \<Rightarrow> 's \<Rightarrow> 'c \<times> 's"
  Inject :: "'c \<Rightarrow> Header \<Rightarrow> Header"
  context_String :: "'c \<Rightarrow> string"

record ('s, 'c) NetHTTPRequest =
  httpRequests :: "nat Queue"
  httpResponses :: "Response Queue"
  spans :: "'c span Queue"
  isInbound :: bool
  remoteAddr :: string
  tracingContextMapping :: "'c cache"
  store :: "Request list"          \<comment> \<open>the requests that were pushed, by address\<close>
  tracer_state :: 's
  reported :: "'c span list"       \<comment> \<open>the spans that were finished, in order\<close>

definition NewNetHTTPRequest :: "bool \<Rightarrow> 'c cache \<Rightarrow> 's \<Rightarrow> ('s, 'c) NetHTTPRequest" where
  "NewNetHTTPRequest inbound mapping ts =
     \<lparr>httpRequests = NewQueue, httpResponses = NewQueue, spans = NewQueue, isInbound = inbound,
      remoteAddr = '''', tracingContextMapping = mapping, store = [], tracer_state = ts, reported = []\<rparr>"

definition SetHTTPRequest :: "nat \<Rightarrow> ('s, 'c) NetHTTPRequest \<Rightarrow> ('s, 'c) NetHTTPRequest" where
  "SetHTTPRequest r nr = nr\<lparr>httpRequests := Push r (httpRequests nr)\<rparr>"

definition SetHTTPResponse :: "Response \<Rightarrow> ('s, 'c) NetHTTPRequest \<Rightarrow> ('s, 'c) NetHTTPRequest" where
  "SetHTTPResponse r nr = nr\<lparr>httpResponses := Push r (httpResponses nr)\<rparr>"

definition CleanUp :: "('s, 'c) NetHTTPRequest \<Rightarrow> ('s, 'c) NetHTTPRequest" where
  "CleanUp nr = nr"

section \<open>Starting a span\<close>

text \<open>
  The configured headers are a Go map, whose keys come in no fixed order: \<open>order\<close> lists them as
  one iteration does.
\<close>

definition header_tags :: "HTTPConfig \<Rightarrow> string list \<Rightarrow> Header \<Rightarrow> 'c span \<Rightarrow> 'c span" where
  "header_tags hc order h sp =
     fold (\<lambda>name sp. case HeadersMap hc name of
             None \<Rightarrow> sp
           | Some tagName \<Rightarrow> if Get h name \<noteq> '''' then SetTag tagName (TagString (Get h name)) sp else sp)
       order sp"

definition cookie_tags :: "HTTPConfig \<Rightarrow> Header \<Rightarrow> 'c span \<Rightarrow> 'c span" where
  "cookie_tags hc h sp =
     fold (\<lambda>c sp. case CookiesMap hc (Cookie.Name c) of
             None \<Rightarrow> sp
           | Some tagName \<Rightarrow> SetTag tagName (TagString (Cookie.Value c)) sp) (Cookies h) sp"

definition span_operation :: "bool \<Rightarrow> Request \<Rightarrow> string" where
  "span_operation inbound r = (if inbound then Path (r_URL r) else r_Host r @ Path (r_URL r))"

definition StartRequest ::
  "('s, 'c) tracer \<Rightarrow> HTTPConfig \<Rightarrow> string list \<Rightarrow> int64 \<Rightarrow> ('s, 'c) NetHTTPRequest \<Rightarrow> ('s, 'c) NetHTTPRequest" where
  "StartRequest tr hc order now nr =
     (case Queue.Peek (httpRequests nr) of
        None \<Rightarrow> nr
      | Some i \<Rightarrow>
          let httpRequest = store nr ! i; h = r_Header httpRequest;
              wire = Extract tr h;
              oper = span_operation (isInbound nr) httpRequest;
              (ctx, ts) = StartSpan tr oper wire (tracer_state nr);
              span = \<lparr>operation = oper, parent = wire, span_context = ctx, tags = Map.empty\<rparr>;
              nr1 = nr\<lparr>tracer_state := ts\<rparr>;
              remember = (\<lambda>n. n\<lparr>tracingContextMapping :=
                 SetDefault now (Get h (RequestIdHeaderName hc)) ctx (tracingContextMapping n)\<rparr>) in
          (case wire of
             None \<Rightarrow>
               if isInbound nr then
                 (let nr2 = remember nr1 in
                  nr2\<lparr>spans := Push (cookie_tags hc h (header_tags hc order h span)) (spans nr2)\<rparr>)
               else
                 nr1\<lparr>store := (store nr1)[i := httpRequest\<lparr>r_Header := Inject tr ctx h\<rparr>],
                     spans := Push span (spans nr1)\<rparr>
           | Some _ \<Rightarrow>
               (let nr2 = (if isInbound nr then remember nr1 else nr1) in
                nr2\<lparr>spans := Push span (spans nr2)\<rparr>)))"

section \<open>Finishing a span\<close>

definition fillSpan ::
  "HTTPConfig \<Rightarrow> ('s, 'c) NetHTTPRequest \<Rightarrow> Request option \<Rightarrow> Response option \<Rightarrow> 'c span \<Rightarrow> 'c span" where
  "fillSpan hc nr req resp sp0 =
     (let sp1 = SetTag ''span.kind'' (TagString (if isInbound nr then ''server'' else ''client'')) sp0;
          sp2 = SetTag ''remote_addr'' (TagString (remoteAddr nr)) sp1;
          sp3 = (case req of
             None \<Rightarrow> sp2
           | Some r \<Rightarrow>
               let ua = Get (r_Header r) ''User-Agent''; rid = Get (r_Header r) (RequestIdHeaderName hc);
                   s1 = SetTag ''http.host'' (TagString (r_Host r)) sp2;
                   s2 = SetTag ''http.path'' (TagString (URL_String (r_URL r))) s1;
                   s3 = SetTag ''http.request_size'' (TagInt (r_ContentLength r)) s2;
                   s4 = SetTag ''http.method'' (TagString (r_Method r)) s3;
                   s5 = (if ua \<noteq> '''' then SetTag ''http.user_agent'' (TagString ua) s4 else s4) in
               if rid \<noteq> '''' then SetTag ''http.request_id'' (TagString rid) s5 else s5) in
      case resp of
        None \<Rightarrow> sp3
      | Some p \<Rightarrow>
          let t1 = SetTag ''http.response_size'' (TagInt (p_ContentLength p)) sp3;
              t2 = SetTag ''http.status_code'' (TagInt (p_StatusCode p)) t1 in
          if p_StatusCode p \<ge> 500 then SetTag ''error'' (TagString ''true'') t2 else t2)"

definition Finish :: "'c span \<Rightarrow> ('s, 'c) NetHTTPRequest \<Rightarrow> ('s, 'c) NetHTTPRequest" where
  "Finish sp nr = nr\<lparr>reported := reported nr @ [sp]\<rparr>"

definition StopRequest :: "HTTPConfig \<Rightarrow> ('s, 'c) NetHTTPRequest \<Rightarrow> ('s, 'c) NetHTTPRequest" where
  "StopRequest hc nr =
     (let (request, q1) = Pop (httpRequests nr);
          (response, q2) = Pop (httpResponses nr);
          nr1 = nr\<lparr>httpRequests := q1, httpResponses := q2\<rparr> in
      case request of
        None \<Rightarrow> nr1
      | Some i \<Rightarrow>
          let (span, q3) = Pop (spans nr1); nr2 = nr1\<lparr>spans := q3\<rparr> in
          (case span of
             None \<Rightarrow> nr2
           | Some sp \<Rightarrow>
               (case response of
                  Some p \<Rightarrow> Finish (fillSpan hc nr2 (Some (store nr2 ! i)) (Some p) sp) nr2
                | None \<Rightarrow>
                    Finish (SetTag ''timeout'' (TagBool True) (SetTag ''error'' (TagBool True)
                      (fillSpan hc nr2 (Some (store nr2 ! i)) None sp))) nr2)))"


section \<open>Requests and spans stay paired\<close>

text \<open>
  An exchange step is what one side does for one message, without the other side in between: the two
  calls of the request side, or the two of the response side. The calls one by one, in any
  interleaving, are the relation \<open>trace_step\<close> below.
\<close>

datatype exchange = Requested Request | Responded Response

primrec exchange_step ::
  "('s, 'c) tracer \<Rightarrow> HTTPConfig \<Rightarrow> string list \<Rightarrow> int64 \<Rightarrow> exchange \<Rightarrow>
     ('s, 'c) NetHTTPRequest \<Rightarrow> ('s, 'c) NetHTTPRequest" where
  "exchange_step tr hc order now (Requested r) nr =
     StartRequest tr hc order now (SetHTTPRequest (length (store nr)) (nr\<lparr>store := store nr @ [r]\<rparr>))"
| "exchange_step tr hc order now (Responded p) nr = StopRequest hc (SetHTTPResponse p nr)"

definition open_spans :: "('s, 'c) NetHTTPRequest \<Rightarrow> (nat \<times> 'c span) list" where
  "open_spans nr = zip (elements (httpRequests nr)) (elements (spans nr))"

definition paired :: "('s, 'c) NetHTTPRequest \<Rightarrow> bool" where
  "paired nr \<longleftrightarrow> length (elements (httpRequests nr)) = length (elements (spans nr)) \<and>
     elements (httpResponses nr) = [] \<and> list_all (\<lambda>i. i < length (store nr)) (elements (httpRequests nr))"

lemma Finish_simps [simp]:
  "httpRequests (Finish sp nr) = httpRequests nr" "httpResponses (Finish sp nr) = httpResponses nr"
  "spans (Finish sp nr) = spans nr" "store (Finish sp nr) = store nr"
  "reported (Finish sp nr) = reported nr @ [sp]" "isInbound (Finish sp nr) = isInbound nr"
  by (simp_all add: Finish_def)

lemma fold_keeps: "(\<And>x s. P (f x s) = P s) \<Longrightarrow> P (fold f xs s) = P s"
  by (induction xs arbitrary: s) simp_all

definition span_identity :: "'c span \<Rightarrow> string \<times> 'c option \<times> 'c" where
  "span_identity sp = (operation sp, parent sp, span_context sp)"

lemma span_identity_tags [simp]:
  "span_identity (SetTag k v sp) = span_identity sp"
  "span_identity (header_tags hc order h sp) = span_identity sp"
  "span_identity (cookie_tags hc h sp) = span_identity sp"
proof -
  show set: "span_identity (SetTag k v sp) = span_identity sp" for k v and sp :: "'c span"
    by (simp add: SetTag_def span_identity_def)
  show "span_identity (header_tags hc order h sp) = span_identity sp"
    unfolding header_tags_def by (rule fold_keeps) (simp add: set split: option.split)
  show "span_identity (cookie_tags hc h sp) = span_identity sp"
    unfolding cookie_tags_def by (rule fold_keeps) (simp add: set split: option.split)
qed

lemma StartRequest_queues:
  assumes "Queue.Peek (httpRequests nr) = Some i"
  obtains sp where "spans (StartRequest tr hc order now nr) = Push sp (spans nr)"
    "operation sp = span_operation (isInbound nr) (store nr ! i)"
    "parent sp = Extract tr (r_Header (store nr ! i))"
    "span_context sp = fst (StartSpan tr (operation sp) (parent sp) (tracer_state nr))"
    "httpRequests (StartRequest tr hc order now nr) = httpRequests nr"
    "httpResponses (StartRequest tr hc order now nr) = httpResponses nr"
    "reported (StartRequest tr hc order now nr) = reported nr"
    "isInbound (StartRequest tr hc order now nr) = isInbound nr"
    "store (StartRequest tr hc order now nr) =
       (if parent sp = None \<and> \<not> isInbound nr
        then (store nr)[i := (store nr ! i)\<lparr>r_Header := Inject tr (span_context sp) (r_Header (store nr ! i))\<rparr>]
        else store nr)"
proof -
  obtain ctx ts where s: "StartSpan tr (span_operation (isInbound nr) (store nr ! i))
      (Extract tr (r_Header (store nr ! i))) (tracer_state nr) = (ctx, ts)" by fastforce
  let ?sp = "\<lparr>operation = span_operation (isInbound nr) (store nr ! i),
     parent = Extract tr (r_Header (store nr ! i)), span_context = ctx, tags = Map.empty\<rparr>"
  let ?sp' = "if parent ?sp = None \<and> isInbound nr
     then cookie_tags hc (r_Header (store nr ! i)) (header_tags hc order (r_Header (store nr ! i)) ?sp) else ?sp"
  have "span_identity ?sp' = span_identity ?sp" by simp
  then have id: "operation ?sp' = operation ?sp" "parent ?sp' = parent ?sp" "span_context ?sp' = span_context ?sp"
    unfolding span_identity_def by blast+
  show ?thesis
  proof (rule that [of ?sp'], unfold id)
  qed (simp_all add: StartRequest_def assms s Let_def split: option.split)
qed

lemma paired_step: "paired nr \<Longrightarrow> paired (exchange_step tr hc order now x nr)"
proof (cases x)
  case (Requested r)
  assume p: "paired nr"
  let ?nr = "SetHTTPRequest (length (store nr)) (nr\<lparr>store := store nr @ [r]\<rparr>)"
  have "elements (httpRequests ?nr) = elements (httpRequests nr) @ [length (store nr)]"
    by (simp add: SetHTTPRequest_def Push_def)
  then obtain i where i: "Queue.Peek (httpRequests ?nr) = Some i"
    by (cases "elements (httpRequests nr)") (simp_all add: Queue.Peek_def)
  from StartRequest_queues [OF this, of tr hc order now] obtain sp where
    q: "spans (StartRequest tr hc order now ?nr) = Push sp (spans ?nr)"
    "httpRequests (StartRequest tr hc order now ?nr) = httpRequests ?nr"
    "httpResponses (StartRequest tr hc order now ?nr) = httpResponses ?nr"
    "length (store (StartRequest tr hc order now ?nr)) = length (store ?nr)" by (metis length_list_update)
  have "list_all (\<lambda>i. i < length (store ?nr)) (elements (httpRequests ?nr))"
    using p by (auto simp: paired_def SetHTTPRequest_def Push_def list_all_iff less_Suc_eq)
  with p q Requested show ?thesis by (simp add: paired_def SetHTTPRequest_def Push_def)
next
  case (Responded resp)
  assume "paired nr"
  then show ?thesis
    using Responded
    by (cases "elements (httpRequests nr)"; cases "elements (spans nr)")
      (simp_all add: paired_def StopRequest_def SetHTTPResponse_def Pop_def Push_def Let_def)
qed

lemma paired_new: "paired (NewNetHTTPRequest inbound c ts)"
  by (simp add: paired_def NewNetHTTPRequest_def NewQueue_def)

lemma paired_run: "paired nr \<Longrightarrow> paired (fold (exchange_step tr hc order now) xs nr)"
  by (induction xs arbitrary: nr) (simp_all add: paired_step)

lemma Responded_oldest:
  assumes "paired nr"
  shows "case open_spans nr of
      [] \<Rightarrow> reported (exchange_step tr hc order now (Responded p) nr) = reported nr \<and>
            open_spans (exchange_step tr hc order now (Responded p) nr) = []
    | (i, sp) # rest \<Rightarrow>
        reported (exchange_step tr hc order now (Responded p) nr) =
          reported nr @ [fillSpan hc nr (Some (store nr ! i)) (Some p) sp] \<and>
        open_spans (exchange_step tr hc order now (Responded p) nr) = rest"
proof (cases "elements (httpRequests nr)")
  case Nil
  with assms show ?thesis
    by (simp add: paired_def open_spans_def StopRequest_def SetHTTPResponse_def Pop_def Push_def)
next
  case (Cons i rest)
  with assms obtain sp sps where "elements (spans nr) = sp # sps"
    by (cases "elements (spans nr)") (auto simp: paired_def)
  with Cons assms show ?thesis
    by (simp add: paired_def open_spans_def StopRequest_def SetHTTPResponse_def Pop_def Push_def fillSpan_def Let_def)
qed

text \<open>
  (C14) Spans are finished in the order of their requests. From a new connection on, after any
  sequence of forwarded requests and responses, there is exactly one open span per outstanding
  request and no response is left over; the next response finishes the oldest open span, filled
  from the oldest outstanding request and this response, and a response that meets no request
  reports nothing.
\<close>
theorem responses_finish_oldest_span:
  assumes "nr = fold (exchange_step tr hc order now) xs (NewNetHTTPRequest inbound c ts)"
  shows "length (elements (spans nr)) = length (elements (httpRequests nr)) \<and>
    elements (httpResponses nr) = [] \<and>
    (case open_spans nr of
      [] \<Rightarrow> reported (exchange_step tr hc order now (Responded p) nr) = reported nr
    | (i, sp) # rest \<Rightarrow>
        reported (exchange_step tr hc order now (Responded p) nr) =
          reported nr @ [fillSpan hc nr (Some (store nr ! i)) (Some p) sp] \<and>
        open_spans (exchange_step tr hc order now (Responded p) nr) = rest)"
proof -
  have "paired nr" unfolding assms by (intro paired_run paired_new)
  with Responded_oldest [OF this] show ?thesis by (auto simp: paired_def split: list.splits)
qed

definition plain_tracer :: "(nat, nat) tracer" where
  "plain_tracer = \<lparr>Extract = (\<lambda>h. None), StartSpan = (\<lambda>oper p n. (n, Suc n)),
     Inject = (\<lambda>c h. Add ''uber-trace-id'' (Itoa (int c)) h), context_String = (\<lambda>c. Itoa (int c))\<rparr>"

definition example_config :: HTTPConfig where
  "example_config = \<lparr>HeadersMap = Map.empty, CookiesMap = Map.empty, RequestIdHeaderName = ''X-Request-Id'',
     XSourceHeaderName = ''X-Source'', XSourceValue = ''netra'', RoutingEnabled = False,
     RoutingHeaderName = ''X-Route'', RoutingCookieEnabled = False, RoutingCookieName = ''X-Route''\<rparr>"

definition example_response :: "int \<Rightarrow> Response" where
  "example_response code = \<lparr>p_Status = Itoa code, p_StatusCode = code, p_Proto = ''HTTP/1.1'', p_ProtoMajor = 1,
     p_ProtoMinor = 1, p_Header = [], p_Body = None, p_ContentLength = 0, p_TransferEncoding = [],
     p_Close = False, p_Trailer = None\<rparr>"

theorem responses_finish_oldest_span_witness:
  "let run = (\<lambda>xs. fold (exchange_step plain_tracer example_config [] 0) xs (NewNetHTTPRequest False (cache_New 0) 7)) in
   length (elements (spans (run [Requested example_post, Requested example_post, Responded (example_response 200)]))) = 1"
proof -
  let ?run = "\<lambda>xs. fold (exchange_step plain_tracer example_config [] 0) xs (NewNetHTTPRequest False (cache_New 0) 7)"
  have "length (elements (httpRequests (?run [Requested example_post, Requested example_post, Responded (example_response 200)]))) = 1"
    by (simp add: StartRequest_def StopRequest_def SetHTTPRequest_def SetHTTPResponse_def NewNetHTTPRequest_def
        NewQueue_def Push_def Pop_def Queue.Peek_def plain_tracer_def Let_def)
  moreover have "length (elements (spans (?run xs))) = length (elements (httpRequests (?run xs)))" for xs
    by (rule responses_finish_oldest_span [OF refl, THEN conjunct1])
  ultimately show ?thesis unfolding Let_def by presburger
qed

text \<open>
  (C37) A pipelined request is traced as the one before it. When a request is forwarded while
  another is outstanding, \<open>StartRequest\<close> looks at the oldest request of the queue: the new span
  carries that request's operation and parent, an outbound trace context goes into the header of
  that request, which was already sent, and the new request is sent without one.
\<close>
theorem pipelined_request_traced_as_oldest:
  assumes "elements (httpRequests nr) = i # rest" and "i < length (store nr)"
    and "nr' = exchange_step tr hc order now (Requested r) nr"
  shows "(\<exists>sp. elements (spans nr') = elements (spans nr) @ [sp] \<and>
       operation sp = span_operation (isInbound nr) (store nr ! i) \<and>
       parent sp = Extract tr (r_Header (store nr ! i))) \<and>
     store nr' ! length (store nr) = r"
proof -
  let ?nr = "SetHTTPRequest (length (store nr)) (nr\<lparr>store := store nr @ [r]\<rparr>)"
  have "Queue.Peek (httpRequests ?nr) = Some i"
    using assms(1) by (simp add: SetHTTPRequest_def Push_def Queue.Peek_def)
  from StartRequest_queues [OF this, of tr hc order now] obtain sp where
    q: "spans (StartRequest tr hc order now ?nr) = Push sp (spans ?nr)"
    "operation sp = span_operation (isInbound ?nr) (store ?nr ! i)"
    "parent sp = Extract tr (r_Header (store ?nr ! i))"
    "\<exists>x. store (StartRequest tr hc order now ?nr) = (store ?nr)[i := x]" by (metis list_update_id)
  have st: "store ?nr = store nr @ [r]" "spans ?nr = spans nr" "isInbound ?nr = isInbound nr"
    by (simp_all add: SetHTTPRequest_def)
  have "store nr' ! length (store nr) = r"
    using q(4) assms(2,3) by (auto simp: st nth_list_update)
  moreover have "elements (spans nr') = elements (spans nr) @ [sp]"
    using q(1) assms(3) st(2) by (simp add: Push_def)
  ultimately show ?thesis using q(2,3) assms(2) by (auto simp: st nth_append)
qed

theorem pipelined_request_traced_as_oldest_witness:
  "let nr = exchange_step plain_tracer example_config [] 0 (Requested (example_post\<lparr>r_Host := ''a''\<rparr>))
               (NewNetHTTPRequest False (cache_New 0) 7);
       nr' = exchange_step plain_tracer example_config [] 0 (Requested (example_post\<lparr>r_Host := ''b''\<rparr>)) nr in
   \<exists>sp. elements (spans nr') = elements (spans nr) @ [sp] \<and> operation sp = ''a/'' \<and>
     store nr' ! 1 = example_post\<lparr>r_Host := ''b''\<rparr>"
proof -
  let ?nr = "exchange_step plain_tracer example_config [] 0 (Requested (example_post\<lparr>r_Host := ''a''\<rparr>))
               (NewNetHTTPRequest False (cache_New 0) 7 :: (nat, nat) NetHTTPRequest)"
  have "elements (httpRequests ?nr) = [0]" "length (store ?nr) = 1" "isInbound ?nr = False"
    "r_Host (store ?nr ! 0) = ''a''" "Path (r_URL (store ?nr ! 0)) = ''/''"
    by (simp_all add: StartRequest_def SetHTTPRequest_def NewNetHTTPRequest_def NewQueue_def Push_def
        Queue.Peek_def plain_tracer_def Let_def example_post_def empty_URL_def)
  then show ?thesis
    using pipelined_request_traced_as_oldest [of ?nr 0 "[]" _ plain_tracer example_config "[]" 0
        "example_post\<lparr>r_Host := ''b''\<rparr>", OF _ _ refl]
    by (auto simp: Let_def span_operation_def simp del: exchange_step.simps)
qed

text \<open>
  An interim response ends the span. The first response to a lone request finishes its span,
  whatever its status, so after a \<open>100 Continue\<close> the span is reported with status 100 and the
  final response, whatever it says, is reported nowhere.
\<close>
lemma interim_response_ends_span:
  assumes "paired nr" and "open_spans nr = [(i, sp)]"
  shows "reported (exchange_step tr hc order now (Responded final)
            (exchange_step tr hc order now (Responded interim) nr)) =
     reported nr @ [fillSpan hc nr (Some (store nr ! i)) (Some interim) sp] \<and>
   tags (fillSpan hc nr (Some (store nr ! i)) (Some interim) sp) ''http.status_code'' =
     Some (TagInt (p_StatusCode interim))"
proof -
  let ?nr = "exchange_step tr hc order now (Responded interim) nr"
  from Responded_oldest [OF assms(1), of tr hc order now interim] assms(2) have
    "reported ?nr = reported nr @ [fillSpan hc nr (Some (store nr ! i)) (Some interim) sp]" "open_spans ?nr = []"
    by simp_all
  moreover have "reported (exchange_step tr hc order now (Responded final) ?nr) = reported ?nr"
    using Responded_oldest [OF paired_step [OF assms(1)], of tr hc order now final tr hc order now "Responded interim"]
      calculation(2) by simp
  moreover have "tags (fillSpan hc nr (Some (store nr ! i)) (Some interim) sp) ''http.status_code'' =
     Some (TagInt (p_StatusCode interim))"
    by (simp add: fillSpan_def SetTag_def Let_def)
  ultimately show ?thesis by simp
qed

lemma interim_response_ends_span_witness:
  "let nr = exchange_step plain_tracer example_config [] 0 (Requested example_post)
               (NewNetHTTPRequest False (cache_New 0) 7) in
   map (\<lambda>s. tags s ''http.status_code'') (reported
     (exchange_step plain_tracer example_config [] 0 (Responded (example_response 500))
       (exchange_step plain_tracer example_config [] 0 (Responded (example_response 100)) nr))) = [Some (TagInt 100)]"
proof -
  let ?nr = "exchange_step plain_tracer example_config [] 0 (Requested example_post)
               (NewNetHTTPRequest False (cache_New 0) 7 :: (nat, nat) NetHTTPRequest)"
  have p: "paired ?nr" by (intro paired_step paired_new)
  have "\<exists>i sp. open_spans ?nr = [(i, sp)]" and r: "reported ?nr = []"
    by (simp_all add: open_spans_def StartRequest_def SetHTTPRequest_def NewNetHTTPRequest_def NewQueue_def Push_def
        Queue.Peek_def plain_tracer_def Let_def)
  then obtain i sp where "open_spans ?nr = [(i, sp)]" by blast
  from interim_response_ends_span [OF p this, of plain_tracer example_config "[]" 0 "example_response 500" "example_response 100"] r
  show ?thesis by (simp add: Let_def example_response_def del: exchange_step.simps)
qed

section \<open>The type of the tracer's contexts\<close>

text \<open>
  An inbound request's context is stored as a \<open>jaeger.SpanContext\<close>, by a type assertion that panics
  on any other one. \<open>StartRequest\<close> is what happens when it holds, which it does for jaeger's own
  tracer; \<open>StartRequest_checked\<close> has the assertion, for a tracer of either kind. A panic in a handler
  ends the process.
\<close>

datatype 'c SpanContext = JaegerContext 'c | OtherContext

definition StartRequest_checked ::
  "('s, 'c SpanContext) tracer \<Rightarrow> HTTPConfig \<Rightarrow> string list \<Rightarrow> int64 \<Rightarrow> ('s, 'c SpanContext) NetHTTPRequest \<Rightarrow>
     ('s, 'c SpanContext) NetHTTPRequest option" where
  "StartRequest_checked tr hc order now nr =
     (case Queue.Peek (httpRequests nr) of
        None \<Rightarrow> Some nr
      | Some i \<Rightarrow>
          let httpRequest = store nr ! i;
              (ctx, ts) = StartSpan tr (span_operation (isInbound nr) httpRequest) (Extract tr (r_Header httpRequest)) (tracer_state nr) in
          if isInbound nr \<and> ctx = OtherContext then None else Some (StartRequest tr hc order now nr))"

definition NoopTracer :: "('s, 'c SpanContext) tracer" where
  "NoopTracer = \<lparr>Extract = (\<lambda>h. None), StartSpan = (\<lambda>oper p s. (OtherContext, s)), Inject = (\<lambda>c h. h), context_String = (\<lambda>c. '''')\<rparr>"

lemma StartRequest_checked_jaeger:
  assumes "\<And>oper p s. fst (StartSpan tr oper p s) \<noteq> OtherContext"
  shows "StartRequest_checked tr hc order now nr = Some (StartRequest tr hc order now nr)"
proof -
  have "StartRequest tr hc order now nr = nr" if "Queue.Peek (httpRequests nr) = None"
    using that by (simp add: StartRequest_def)
  moreover have "ctx \<noteq> OtherContext" if "StartSpan tr oper p s = (ctx, ts)" for oper p s ctx ts
    using assms [of oper p s] that by simp
  ultimately show ?thesis
    by (auto simp: StartRequest_checked_def Let_def split: option.split prod.split)
qed

text \<open>
  With tracing disabled (\<open>JAEGER_DISABLED\<close>) the global tracer is the no-op tracer, whose contexts are
  not jaeger's: the first request of an inbound connection panics.
\<close>
lemma disabled_tracing_panics:
  assumes "isInbound nr"
  shows "StartRequest_checked NoopTracer hc order now (SetHTTPRequest (length (store nr)) (nr\<lparr>store := store nr @ [r]\<rparr>)) = None"
proof -
  let ?nr = "SetHTTPRequest (length (store nr)) (nr\<lparr>store := store nr @ [r]\<rparr>)"
  obtain i where "Queue.Peek (httpRequests ?nr) = Some i"
    by (cases "elements (httpRequests nr)") (auto simp: SetHTTPRequest_def Push_def Queue.Peek_def)
  moreover have "isInbound ?nr" using assms by (simp add: SetHTTPRequest_def)
  ultimately show ?thesis by (simp add: StartRequest_checked_def NoopTracer_def)
qed

section \<open>Requests and responses interleaved\<close>









end
