(* ===== verification/HttpHandler.thy ===== *)
theory HttpHandler
  imports Progress Tracing TempBuffer Routing
begin

text \<open>
  The HTTP handler of \<open>pkg/protocol/http.go\<close>: the loops of \<open>HandleRequest\<close> and \<open>HandleResponse\<close>.

  A handler reads its connection through an \<open>io.TeeReader\<close> into a \<open>TempWriter\<close>, so whatever a read
  of the connection delivers while the writer records is appended to it; \<open>fetched\<close> are these
  bytes. The connections that requests are written to are numbered in the order in which they
  were opened, and \<open>writers\<close> is what each was sent. In routing mode every request asks the
  connection loop for a connection: the answer of that exchange over \<open>addrCh\<close> and \<open>connCh\<close> is the
  argument \<open>dial\<close>, \<open>None\<close> for nil. The clock, the uuid generator and the tracer are arguments as
  well. Logging and the buffer pools are left out.
\<close>

fun ContainsString :: "string \<Rightarrow> string \<Rightarrow> bool" where
  "ContainsString [] sub = (sub = [])"
| "ContainsString (c # s) sub = (HasPrefix (c # s) sub \<or> ContainsString s sub)"

text \<open>
  The text of an error. A quoted argument is kept as it is, since quoting does not touch the
  letters and blanks that are searched for below.
\<close>

fun error_text :: "io_error \<Rightarrow> string" where
  "error_text EOF = ''EOF''"
| "error_text ErrUnexpectedEOF = ''unexpected EOF''"
| "error_text ErrShortWrite = ''short write''"
| "error_text ErrWrite = ''write: broken pipe''"
| "error_text ErrBufferFull = ''bufio: buffer full''"
| "error_text ErrLineTooLong = ''header line too long''"
| "error_text (ProtocolError s) = s"
| "error_text (badStringError what s) = what @ '' '' @ [CHR 34] @ s @ [CHR 34]"
| "error_text (OtherError s) = s"

definition use_of_closed :: string where
  "use_of_closed = ''use of closed network connection''"

definition is_closed_error :: "io_error \<Rightarrow> bool" where
  "is_closed_error e \<longleftrightarrow> ContainsString (error_text e) use_of_closed"

definition fetched :: "bufr \<Rightarrow> bufr \<Rightarrow> bytes" where
  "fetched r r' = take (length (concat (incoming r)) - length (concat (incoming r'))) (concat (incoming r))"

definition tee_reads :: "bufr \<Rightarrow> bufr \<Rightarrow> TempWriter \<Rightarrow> TempWriter" where
  "tee_reads r r' tmp = snd (TempWriter_Write (fetched r r') tmp)"

definition copy_rest :: "bufr \<Rightarrow> writer \<Rightarrow> io_error option \<times> writer" where
  \<comment> \<open>\<open>io.CopyBuffer\<close> from the buffered reader: what is buffered, then the connection\<close>
  "copy_rest r w = write_all (buffered r # incoming r) w"

definition fall_back :: "TempWriter \<Rightarrow> bufr \<Rightarrow> writer \<Rightarrow> TempWriter \<times> writer" where
  \<comment> \<open>send on what was recorded and then everything else\<close>
  "fall_back tmp r w =
     (case copy_temp 65535 tmp of (bs, tmp1) \<Rightarrow>
        case WriteString bs w of (_, w1) \<Rightarrow>
          case copy_rest r w1 of (_, w2) \<Rightarrow> (Stop tmp1, w2))"

section \<open>Routing\<close>

definition ensure_request_id :: "HTTPConfig \<Rightarrow> string \<Rightarrow> Request \<Rightarrow> Request" where
  "ensure_request_id hc uuid req =
     (if Get (r_Header req) (RequestIdHeaderName hc) = ''''
      then req\<lparr>r_Header := Set (RequestIdHeaderName hc) uuid (r_Header req)\<rparr> else req)"

definition routing_value :: "HTTPConfig \<Rightarrow> int64 \<Rightarrow> string cache \<Rightarrow> Request \<Rightarrow> string \<times> Request" where
  "routing_value hc now mapping req =
     (let v1 = (if RoutingCookieEnabled hc then
                  (case Cookie_named (r_Header req) (RoutingCookieName hc) of
                     Some c \<Rightarrow> Cookie.Value c | None \<Rightarrow> '''')
                else '''');
          v2 = (if v1 = '''' then Get (r_Header req) (RoutingHeaderName hc) else v1) in
      if v2 = '''' then
        (case cache_Get now mapping (Get (r_Header req) (RequestIdHeaderName hc)) of
           Some v \<Rightarrow> (v, req\<lparr>r_Header := Add (RoutingHeaderName hc) v (r_Header req)\<rparr>)
         | None \<Rightarrow> ('''', req))
      else (v2, req))"

definition route_request ::
  "HTTPConfig \<Rightarrow> int64 \<Rightarrow> bool \<Rightarrow> string \<Rightarrow> string cache \<Rightarrow> Request \<Rightarrow> string \<times> string cache \<times> Request" where
  "route_request hc now isInboundConn originalDst mapping req0 =
     (let (v, req) = routing_value hc now mapping req0 in
      if v \<noteq> '''' then
        (case getRoutingDestination v (r_Host req) originalDst of
           Inl e \<Rightarrow> (originalDst, mapping, req)
         | Inr addr \<Rightarrow>
             if isInboundConn then
               (let rID = Get (r_Header req) (RequestIdHeaderName hc) in
                (originalDst, if rID \<noteq> '''' then SetDefault now rID v mapping else mapping, req))
             else (addr, mapping, req))
      else (originalDst, mapping, req))"

section \<open>Requests\<close>

definition TraceContextHeaderName :: string where
  "TraceContextHeaderName = ''uber-trace-id''"

definition outbound_header ::
  "('s, 'c) tracer \<Rightarrow> HTTPConfig \<Rightarrow> int64 \<Rightarrow> 'c cache \<Rightarrow> Header \<Rightarrow> Header" where
  "outbound_header tr hc now mapping h =
     (let h1 = (case cache_Get now mapping (Get h (RequestIdHeaderName hc)) of
                  Some ctx \<Rightarrow> AList.update TraceContextHeaderName [context_String tr ctx] h
                | None \<Rightarrow> h) in
      if Get h1 (XSourceHeaderName hc) = '''' then Set (XSourceHeaderName hc) (XSourceValue hc) h1 else h1)"

record ('s, 'c) env =
  the_tracer :: "('s, 'c) tracer"
  http_config :: HTTPConfig
  header_order :: "string list"
  uuid :: "nat \<Rightarrow> string"          \<comment> \<open>the uuid made in the n-th turn\<close>
  clock :: "nat \<Rightarrow> int64"          \<comment> \<open>the time in the n-th turn\<close>
  toASCII :: "string \<Rightarrow> string option"
  clientAddr :: string               \<comment> \<open>\<open>r.RemoteAddr()\<close>\<close>
  targetAddr :: "nat \<Rightarrow> string"    \<comment> \<open>\<open>RemoteAddr()\<close> of the n-th connection\<close>
  dial :: "nat \<Rightarrow> string \<Rightarrow> writer option"

record ('s, 'c) handler =
  reader :: bufr
  tmpWriter :: TempWriter
  the_w :: "nat option"
  writers :: "writer list"
  netRequest :: "('s, 'c) NetHTTPRequest"
  routingInfo :: "string cache"
  addrs :: "string list"             \<comment> \<open>what was sent on \<open>addrCh\<close>\<close>
  turn :: nat

datatype 'st outcome = Again 'st | Done 'st

definition unused_probe :: "Body \<Rightarrow> Body option \<times> int" where
  \<comment> \<open>requests that were read have a known length and are never probed\<close>
  "unused_probe b = (Some b, - 1)"

definition set_remote :: "('s, 'c) env \<Rightarrow> bool \<Rightarrow> nat \<Rightarrow> ('s, 'c) handler \<Rightarrow> ('s, 'c) handler" where
  "set_remote env isInboundConn w st =
     st\<lparr>netRequest := (netRequest st)\<lparr>remoteAddr :=
          (if isInboundConn then clientAddr env else targetAddr env w)\<rparr>\<rparr>"

definition send_all_on :: "nat \<Rightarrow> ('s, 'c) handler \<Rightarrow> ('s, 'c) handler" where
  "send_all_on w st =
     (case fall_back (tmpWriter st) (reader st) (writers st ! w) of
        (tmp, w') \<Rightarrow> st\<lparr>tmpWriter := tmp, reader := (reader st)\<lparr>buffered := [], incoming := []\<rparr>,
                        writers := (writers st)[w := w']\<rparr>)"

definition forward_request ::
  "('s, 'c) env \<Rightarrow> bool \<Rightarrow> nat \<Rightarrow> Request \<Rightarrow> ('s, 'c) handler \<Rightarrow> ('s, 'c) handler" where
  "forward_request env isInboundConn w req st =
     (let hc = http_config env; now = clock env (turn st); nr0 = netRequest st;
          req1 = (if isInboundConn then req
                  else req\<lparr>r_Header := outbound_header (the_tracer env) hc now (tracingContextMapping nr0) (r_Header req)\<rparr>);
          i = length (store nr0);
          nr1 = StartRequest (the_tracer env) hc (header_order env) now
                  (SetHTTPRequest i (nr0\<lparr>store := store nr0 @ [req1]\<rparr>)) in
      case Request_write unused_probe (toASCII env) (store nr1 ! i) (writers st ! w) of
        ((err, B), w') \<Rightarrow>
          st\<lparr>tmpWriter := Stop (tmpWriter st), netRequest := nr1, writers := (writers st)[w := w'],
             reader := body_after (reader st) B, turn := Suc (turn st)\<rparr>)"

definition choose_connection ::
  "('s, 'c) env \<Rightarrow> bool \<Rightarrow> string \<Rightarrow> Request \<Rightarrow> ('s, 'c) handler \<Rightarrow> ('s, 'c) handler \<times> Request" where
  "choose_connection env isInboundConn originalDst req1 st1 =
     (if RoutingEnabled (http_config env) then
        (case route_request (http_config env) (clock env (turn st1)) isInboundConn originalDst (routingInfo st1) req1 of
           (addr, mapping, req) \<Rightarrow>
             let st = st1\<lparr>routingInfo := mapping, addrs := addrs st1 @ [addr]\<rparr> in
             (case dial env (length (addrs st1)) addr of
                None \<Rightarrow> (st\<lparr>the_w := None\<rparr>, req)
              | Some target \<Rightarrow>
                  (st\<lparr>the_w := Some (length (writers st)), writers := writers st @ [target]\<rparr>, req)))
      else (st1, req1))"

definition request_turn ::
  "('s, 'c) env \<Rightarrow> bool \<Rightarrow> string \<Rightarrow> ('s, 'c) handler \<Rightarrow> ('s, 'c) handler outcome" where
  "request_turn env isInboundConn originalDst st0 =
     (let (res, b) = ReadRequest (reader st0);
          st1 = st0\<lparr>reader := b, tmpWriter := tee_reads (reader st0) b (Start (tmpWriter st0))\<rparr> in
      case res of
        Inl e \<Rightarrow>
          if e = EOF \<or> is_closed_error e then Done st1
          else (case the_w st1 of
                  None \<Rightarrow> Done st1
                | Some w \<Rightarrow> Done (send_all_on w (set_remote env isInboundConn w st1)))
      | Inr req0 \<Rightarrow>
          let req1 = ensure_request_id (http_config env) (uuid env (turn st0)) req0;
              (st2, req2) = choose_connection env isInboundConn originalDst req1 st1 in
          (case the_w st2 of
             None \<Rightarrow> Done st2
           | Some w \<Rightarrow>
               let st3 = set_remote env isInboundConn w st2 in
               if ToLower (Get (r_Header req2) ''Connection'') = ''upgrade'' then Done (send_all_on w st3)
               else Again (forward_request env isInboundConn w req2 st3)))"

subsection \<open>The loop\<close>

lemma StartRequest_store:
  fixes nr :: "('s, 'c) NetHTTPRequest"
  assumes "i < length (store nr)"
  shows "\<exists>h. store (StartRequest tr hc order now nr) ! i = (store nr ! i)\<lparr>r_Header := h\<rparr>"
proof (cases "Queue.Peek (httpRequests nr)")
  case None
  then show ?thesis
    by (intro exI [of _ "r_Header (store nr ! i)"]) (simp add: StartRequest_def)
next
  case (Some j)
  obtain sp :: "'c span" where s: "store (StartRequest tr hc order now nr) =
       (if parent sp = None \<and> \<not> isInbound nr
        then (store nr)[j := (store nr ! j)\<lparr>r_Header := Inject tr (span_context sp) (r_Header (store nr ! j))\<rparr>]
        else store nr)"
    by (rule StartRequest_queues [OF Some, of tr hc order now]) (rule that, assumption)
  have id: "store nr ! i = (store nr ! i)\<lparr>r_Header := r_Header (store nr ! i)\<rparr>" by simp
  show ?thesis
  proof (cases "parent sp = None \<and> \<not> isInbound nr \<and> i = j")
    case True
    with s assms show ?thesis by auto
  next
    case False
    then have "store (StartRequest tr hc order now nr) ! i = store nr ! i" using s by auto
    with id show ?thesis by metis
  qed
qed

lemma Request_write_progress:
  assumes "Request_write unused_probe toA r w = ((e, B'), w')" "r_Body r = Some B"
  shows "advances (Body_bufr B) (body_after b B')"
proof -
  have "B' = r_Body r \<or> (\<exists>tw w4. request_writer unused_probe r = Inr tw \<and> writeBody tw w4 = ((e, B'), w'))"
    using assms(1) by (auto simp: Request_write_def split: prod.splits option.splits sum.splits)
  then show ?thesis
  proof
    assume "\<exists>tw w4. request_writer unused_probe r = Inr tw \<and> writeBody tw w4 = ((e, B'), w')"
    then obtain tw w4 where tw: "request_writer unused_probe r = Inr tw" "writeBody tw w4 = ((e, B'), w')" by blast
    have pr: "unused_probe = (\<lambda>b. (Some b, - 1))" by (rule ext) (simp add: unused_probe_def)
    have "tw_Body tw = BodyCloser tw \<and> BodyCloser tw = Some B"
      by (rule request_writer_bodies [OF assms(2), of "\<lambda>_. - 1"]) (use tw(1) pr in simp)
    with advances_writeBody [OF tw(2)] show ?thesis by simp
  qed (simp add: body_after_def assms(2))
qed

lemma forward_request_progress:
  assumes "r_Body req = Some B"
  shows "advances (Body_bufr B) (reader (forward_request env inb w req st))"
proof -
  let ?nr = "netRequest st" and ?now = "clock env (turn st)" and ?hc = "http_config env"
  let ?req = "if inb then req else req\<lparr>r_Header := outbound_header (the_tracer env) ?hc ?now
      (tracingContextMapping ?nr) (r_Header req)\<rparr>"
  let ?nr1 = "StartRequest (the_tracer env) ?hc (header_order env) ?now
      (SetHTTPRequest (length (store ?nr)) (?nr\<lparr>store := store ?nr @ [?req]\<rparr>))"
  obtain e B' w' where rw: "Request_write unused_probe (toASCII env) (store ?nr1 ! length (store ?nr)) (writers st ! w) =
      ((e, B'), w')" by (metis surj_pair)
  have "r_Body (store ?nr1 ! length (store ?nr)) = Some B"
    using StartRequest_store [of "length (store ?nr)" "SetHTTPRequest (length (store ?nr)) (?nr\<lparr>store := store ?nr @ [?req]\<rparr>)"
        "the_tracer env" ?hc "header_order env" ?now] assms
    by (auto simp: SetHTTPRequest_def)
  from Request_write_progress [OF rw this] rw show ?thesis
    by (simp add: forward_request_def Let_def)
qed

lemma set_remote_simps [simp]:
  "reader (set_remote env inb w st) = reader st" "writers (set_remote env inb w st) = writers st"
  "tmpWriter (set_remote env inb w st) = tmpWriter st" "the_w (set_remote env inb w st) = the_w st"
  "turn (set_remote env inb w st) = turn st" "addrs (set_remote env inb w st) = addrs st"
  "routingInfo (set_remote env inb w st) = routingInfo st"
  by (simp_all add: set_remote_def)

lemma route_request_body: "route_request hc now inb dst m req = (a, m', req') \<Longrightarrow> r_Body req' = r_Body req"
  by (auto simp: route_request_def routing_value_def Let_def split: if_splits sum.splits prod.splits option.splits)

lemma ensure_request_id_body: "r_Body (ensure_request_id hc u req) = r_Body req"
  by (simp add: ensure_request_id_def)

lemma choose_connection_keeps:
  assumes "choose_connection env inb dst req st = (st', req')"
  shows "r_Body req' = r_Body req \<and> reader st' = reader st \<and> tmpWriter st' = tmpWriter st \<and> turn st' = turn st \<and>
     netRequest st' = netRequest st"
  using assms
  by (auto simp: choose_connection_def Let_def split: if_splits prod.splits option.splits dest: route_request_body)

lemma request_turn_Again:
  assumes "request_turn env inb dst st = Again st'"
  obtains req0 b req2 st3 w where "ReadRequest (reader st) = (Inr req0, b)" "reader st3 = b"
    "r_Body req2 = r_Body req0" "st' = forward_request env inb w req2 st3"
proof -
  obtain res b where rr: "ReadRequest (reader st) = (res, b)" by fastforce
  from assms rr obtain req0 where res: "res = Inr req0"
    by (cases res) (auto simp: request_turn_def Let_def split: if_splits option.splits)
  let ?st1 = "st\<lparr>reader := b, tmpWriter := tee_reads (reader st) b (Start (tmpWriter st))\<rparr>"
  let ?req1 = "ensure_request_id (http_config env) (uuid env (turn st)) req0"
  obtain st2 req2 where cc: "choose_connection env inb dst ?req1 ?st1 = (st2, req2)" by fastforce
  from assms rr res cc obtain w where "st' = forward_request env inb w req2 (set_remote env inb w st2)"
    by (auto simp: request_turn_def Let_def split: if_splits option.splits)
  with that [OF rr [unfolded res], of "set_remote env inb w st2" req2 w] choose_connection_keeps [OF cc]
  show ?thesis by (simp add: ensure_request_id_body)
qed

lemma request_turn_progress:
  assumes "request_turn env inb dst st = Again st'"
  shows "length (flat (reader st')) < length (flat (reader st))"
proof -
  from assms obtain req0 b req2 st3 w where t: "ReadRequest (reader st) = (Inr req0, b)"
    "r_Body req2 = r_Body req0" "st' = forward_request env inb w req2 st3" by (rule request_turn_Again)
  from t(1) obtain B where B: "r_Body req0 = Some B" "Body_bufr B = b" by (rule ReadRequest_reader)
  from forward_request_progress [of req2 B env inb w st3] t B have "advances b (reader st')" by simp
  with ReadRequest_progress [OF t(1)] show ?thesis using advances_length le_less_trans by blast
qed

text \<open>
  The loop. The responses are handled by another goroutine, which works on the same queues of
  requests and spans: \<open>other n\<close> is what it did to them before the n-th turn.
\<close>

function HandleRequest ::
  "('s, 'c) env \<Rightarrow> (nat \<Rightarrow> ('s, 'c) NetHTTPRequest \<Rightarrow> ('s, 'c) NetHTTPRequest) \<Rightarrow> bool \<Rightarrow> string \<Rightarrow>
     ('s, 'c) handler \<Rightarrow> ('s, 'c) handler" where
  "HandleRequest env other isInboundConn originalDst st =
     (case request_turn env isInboundConn originalDst (st\<lparr>netRequest := other (turn st) (netRequest st)\<rparr>) of
        Done st' \<Rightarrow> st'
      | Again st' \<Rightarrow> HandleRequest env other isInboundConn originalDst st')"
  by pat_completeness auto
termination
  by (relation "measure (\<lambda>(env, other, inb, dst, st). length (flat (reader st)))")
    (auto dest!: request_turn_progress)

declare HandleRequest.simps [simp del]


section \<open>Falling back\<close>

lemma fetched_split: "advances r r' \<Longrightarrow> concat (incoming r) = fetched r r' @ concat (incoming r')"
  by (auto simp: advances_def fetched_def suffix_def)

lemma fall_back_out:
  assumes "room w = None"
  shows "snd (fall_back tmp r w) = w\<lparr>out := out w @ tw_buf tmp @ flat r\<rparr>"
proof -
  have "WriteString (tw_buf tmp) w = (None, w\<lparr>out := out w @ tw_buf tmp\<rparr>)"
    using assms by (simp add: WriteString_def)
  moreover have "copy_rest r (w\<lparr>out := x\<rparr>) = (None, w\<lparr>out := x @ flat r\<rparr>)" for x
    using write_all_unlimited [of "w\<lparr>out := x\<rparr>"] assms by (simp add: copy_rest_def flat_def)
  ultimately show ?thesis by (simp add: fall_back_def copy_temp_all)
qed

lemma send_all_on_out:
  assumes "room (writers st ! w) = None" "w < length (writers st)"
  shows "out (writers (send_all_on w st) ! w) = out (writers st ! w) @ tw_buf (tmpWriter st) @ flat (reader st)"
  using fall_back_out [OF assms(1), of "tmpWriter st" "reader st"] assms(2)
  by (auto simp: send_all_on_def split: prod.split)

lemma tee_reads_buf: "tw_buf (tee_reads r r' (Start tmp)) = tw_buf tmp @ fetched r r'"
  by (simp add: tee_reads_def TempWriter_Write_def Start_def)

text \<open>
  (C29) What the fallback sends. When a request cannot be parsed, the handler sends the bytes it
  fetched during this turn and then everything from the reader on. This is the client's stream
  exactly when the fetched bytes followed by what is still buffered equal what was buffered
  before followed by the fetched bytes: on a fresh connection, only when the failed parse used up
  all that it fetched. Otherwise the bytes read ahead are sent twice, and bytes that were already
  buffered before the turn are missing.
\<close>
theorem unparsed_stream_fallback:
  assumes "ReadRequest (reader st) = (Inl e, b)" and "e \<noteq> EOF" and "\<not> is_closed_error e"
    and "the_w st = Some w" and "w < length (writers st)" and "room (writers st ! w) = None"
    and "tw_buf (tmpWriter st) = []"
  shows "\<exists>st'. request_turn env inb dst st = Done st' \<and>
     out (writers st' ! w) = out (writers st ! w) @ fetched (reader st) b @ flat b \<and>
     (out (writers st' ! w) = out (writers st ! w) @ flat (reader st) \<longleftrightarrow>
        fetched (reader st) b @ buffered b = buffered (reader st) @ fetched (reader st) b)"
proof -
  let ?st1 = "st\<lparr>reader := b, tmpWriter := tee_reads (reader st) b (Start (tmpWriter st))\<rparr>"
  let ?st = "send_all_on w (set_remote env inb w ?st1)"
  have rt: "request_turn env inb dst st = Done ?st"
    using assms(1-4) by (simp add: request_turn_def)
  have o: "out (writers ?st ! w) = out (writers st ! w) @ fetched (reader st) b @ flat b"
    using send_all_on_out [of "set_remote env inb w ?st1" w] assms(5-7) by (simp add: tee_reads_buf)
  have "flat (reader st) = buffered (reader st) @ fetched (reader st) b @ concat (incoming b)"
    using fetched_split [OF advances_ReadRequest [OF assms(1)]] by (simp add: flat_def)
  then have "fetched (reader st) b @ flat b = flat (reader st) \<longleftrightarrow>
      fetched (reader st) b @ buffered b = buffered (reader st) @ fetched (reader st) b"
    by (metis append_assoc append_same_eq flat_def)
  with rt o show ?thesis by simp
qed

definition example_env :: "(nat, nat) env" where
  "example_env = \<lparr>the_tracer = plain_tracer, http_config = example_config, header_order = [],
     uuid = (\<lambda>n. ''id''), clock = (\<lambda>n. 0), toASCII = Some, clientAddr = ''10.0.0.1:1'',
     targetAddr = (\<lambda>n. ''10.0.0.2:80''), dial = (\<lambda>n a. Some buffer)\<rparr>"

definition example_handler :: "bytes list \<Rightarrow> (nat, nat) handler" where
  "example_handler segs = \<lparr>reader = NewReaderSize 4095 segs EOF, tmpWriter = NewTempWriter [], the_w = Some 0,
     writers = [buffer], netRequest = NewNetHTTPRequest True (cache_New 0) 0, routingInfo = cache_New 0,
     addrs = [], turn = 0\<rparr>"

theorem unparsed_stream_fallback_witness:
  "\<exists>st'. request_turn example_env True ''10.0.0.2:80'' (example_handler [''SSH-2.0'' @ CRLF @ ''key'']) = Done st' \<and>
     out (writers st' ! 0) = ''SSH-2.0'' @ CRLF @ ''key'' @ ''key''"
proof -
  let ?st = "example_handler [''SSH-2.0'' @ CRLF @ ''key'']"
  let ?b = "\<lparr>buffered = ''key'', incoming = [], at_end = EOF, cap = 4095\<rparr>"
  have line: "readLineSlice (reader ?st) = (Inr ''SSH-2.0'', ?b)"
    by (simp add: example_handler_def NewReaderSize_def conn_read_def reader_eval)
  then have r: "ReadRequest (reader ?st) = (Inl (badStringError ''malformed HTTP request'' ''SSH-2.0''), ?b)"
    by (simp add: ReadRequest_def readRequest_def parse_first_line_def parseRequestLine_def unexpected_def)
  have c: "\<not> is_closed_error (badStringError ''malformed HTTP request'' ''SSH-2.0'')"
    by (simp add: is_closed_error_def use_of_closed_def HasPrefix_def)
  have f: "fetched (reader ?st) ?b = ''SSH-2.0'' @ CRLF @ ''key''"
    by (simp add: fetched_def example_handler_def NewReaderSize_def CRLF_def)
  from unparsed_stream_fallback [OF r _ c, of 0 example_env True "''10.0.0.2:80''"] f
  show ?thesis by (auto simp: example_handler_def buffer_def NewTempWriter_def flat_def)
qed

text \<open>
  In routing mode a connection is opened only for a request that could be read. A client
  whose first bytes are not a request is dropped: nothing is sent anywhere and no address is
  asked for, although without routing the same bytes are passed on.
\<close>
lemma routing_drops_unparsed:
  assumes "ReadRequest (reader st) = (Inl e, b)" and "the_w st = None"
  shows "writers (HandleRequest env other inb dst st) = writers st \<and>
     addrs (HandleRequest env other inb dst st) = addrs st \<and> the_w (HandleRequest env other inb dst st) = None"
proof -
  have "HandleRequest env other inb dst st = st\<lparr>netRequest := other (turn st) (netRequest st), reader := b,
      tmpWriter := tee_reads (reader st) b (Start (tmpWriter st))\<rparr>"
    by (subst HandleRequest.simps) (simp add: request_turn_def Let_def assms)
  with assms(2) show ?thesis by simp
qed

lemma routing_drops_unparsed_witness:
  "writers (HandleRequest example_env (\<lambda>n nr. nr) True ''d:1'' ((example_handler [])\<lparr>the_w := None\<rparr>)) = [buffer]"
proof -
  have "ReadRequest (reader ((example_handler [])\<lparr>the_w := None\<rparr>)) = (Inl EOF, NewReaderSize 4095 [] EOF)"
    by (simp add: example_handler_def ReadRequest_def readRequest_def reader_eval NewReaderSize_def conn_read_def)
  from routing_drops_unparsed [OF this, of example_env "\<lambda>n nr. nr" True "''d:1''"] show ?thesis
    by (simp add: example_handler_def)
qed


section \<open>Forwarding\<close>

lemma tags_keep_context: "span_context (cookie_tags hc h (header_tags hc order h sp)) = span_context sp"
  using span_identity_tags(2,3) by (metis span_identity_def prod.inject)

lemma StartRequest_inbound_store:
  "isInbound nr \<Longrightarrow> store (StartRequest tr hc order now nr) = store nr"
  by (auto simp: StartRequest_def Let_def split: option.split prod.split)

lemma framed_header: "framed (r\<lparr>r_Header := h\<rparr>) B = framed r B"
  by (cases B) (simp_all add: framed_def)

lemma body_after_flat: "Body_flat B = flat (Body_bufr B)"
  by (cases B) (simp_all add: body_flat_def body_bufr_def)

definition outbound_fields :: "HTTPConfig \<Rightarrow> string option \<Rightarrow> Header \<Rightarrow> Header \<Rightarrow> bool" where
  \<comment> \<open>\<open>h'\<close> has the fields of \<open>h\<close>, with the trace context, where one is known, and a source\<close>
  "outbound_fields hc trace h h' \<longleftrightarrow> (wf_header h \<longrightarrow> wf_header h') \<and>
     (\<forall>k. map_of h' k =
        (if k = CanonicalHeaderKey (XSourceHeaderName hc) \<and> Get h (XSourceHeaderName hc) = '''' then Some [XSourceValue hc]
         else if k = TraceContextHeaderName \<and> trace \<noteq> None then Some [the trace] else map_of h k))"

lemma TraceContextHeaderName_not_canonical: "CanonicalHeaderKey k \<noteq> TraceContextHeaderName"
proof
  assume "CanonicalHeaderKey k = TraceContextHeaderName"
  then have "CanonicalHeaderKey TraceContextHeaderName = TraceContextHeaderName" by (metis CanonicalHeaderKey_idem)
  moreover have "CanonicalHeaderKey TraceContextHeaderName \<noteq> TraceContextHeaderName" by code_simp
  ultimately show False by simp
qed

lemma outbound_header_fields:
  "outbound_fields hc (map_option (context_String tr) (cache_Get now m (Get h (RequestIdHeaderName hc)))) h
     (outbound_header tr hc now m h)"
proof -
  define h1 where "h1 = (case cache_Get now m (Get h (RequestIdHeaderName hc)) of
      Some ctx \<Rightarrow> AList.update TraceContextHeaderName [context_String tr ctx] h | None \<Rightarrow> h)"
  have h1: "map_of h1 k = (if k = TraceContextHeaderName \<and> cache_Get now m (Get h (RequestIdHeaderName hc)) \<noteq> None
      then Some [the (map_option (context_String tr) (cache_Get now m (Get h (RequestIdHeaderName hc))))] else map_of h k)" for k
    by (simp add: h1_def update_conv' split: option.split)
  have "Get h1 (XSourceHeaderName hc) = Get h (XSourceHeaderName hc)"
    using TraceContextHeaderName_not_canonical by (simp add: Get_def get_def field_values_def h1)
  moreover have "outbound_header tr hc now m h =
      (if Get h1 (XSourceHeaderName hc) = '''' then Set (XSourceHeaderName hc) (XSourceValue hc) h1 else h1)"
    by (simp add: outbound_header_def h1_def Let_def)
  moreover have "wf_header h1" if "wf_header h"
    using that by (simp add: h1_def wf_header_def distinct_update split: option.split)
  ultimately show ?thesis
    by (simp add: outbound_fields_def Set_def h1 wf_header_def distinct_update update_conv')
qed

definition injected_header :: "('s, 'c) tracer \<Rightarrow> ('s, 'c) NetHTTPRequest \<Rightarrow> Request \<Rightarrow> Header \<Rightarrow> Header" where
  \<comment> \<open>a new request gets a fresh context when it is the oldest one that waits, on an outbound
     connection, and brings none itself\<close>
  "injected_header tr nr req h =
     (if \<not> isInbound nr \<and> Queue.Peek (httpRequests nr) \<in> {None, Some (length (store nr))} \<and> Extract tr h = None
      then Inject tr (fst (StartSpan tr (r_Host req @ Path (r_URL req)) None (tracer_state nr))) h else h)"

lemma StartRequest_new_header:
  fixes nr :: "('s, 'c) NetHTTPRequest"
  shows "store (StartRequest tr hc order now (SetHTTPRequest (length (store nr)) (nr\<lparr>store := store nr @ [req]\<rparr>))) ! length (store nr) =
     req\<lparr>r_Header := injected_header tr nr req (r_Header req)\<rparr>"
proof -
  let ?nr = "SetHTTPRequest (length (store nr)) (nr\<lparr>store := store nr @ [req]\<rparr>)"
  obtain j where j: "Queue.Peek (httpRequests ?nr) = Some j"
    and jj: "j = length (store nr) \<longleftrightarrow> Queue.Peek (httpRequests nr) \<in> {None, Some (length (store nr))}"
    by (cases "elements (httpRequests nr)") (auto simp: Queue.Peek_def SetHTTPRequest_def Push_def)
  have nr: "isInbound ?nr = isInbound nr" "store ?nr = store nr @ [req]" "tracer_state ?nr = tracer_state nr"
    by (simp_all add: SetHTTPRequest_def)
  obtain sp :: "'c span" where "store (StartRequest tr hc order now ?nr) =
       (if parent sp = None \<and> \<not> isInbound ?nr
        then (store ?nr)[j := (store ?nr ! j)\<lparr>r_Header := Inject tr (span_context sp) (r_Header (store ?nr ! j))\<rparr>]
        else store ?nr)"
    "operation sp = span_operation (isInbound ?nr) (store ?nr ! j)"
    "parent sp = Extract tr (r_Header (store ?nr ! j))"
    "span_context sp = fst (StartSpan tr (operation sp) (parent sp) (tracer_state ?nr))"
    by (rule StartRequest_queues [OF j, of tr hc order now]) (rule that; assumption)
  with jj nr show ?thesis
    by (cases "j = length (store nr)") (auto simp: injected_header_def span_operation_def)
qed

lemma forward_request_exact:
  assumes "framed req B" "r_Body req = Some B" "wf_Body B" "Body_meaning B = (d, EOF, rest)" "length d < 2 ^ 64"
    "r_Trailer req = None" "room (writers st ! w) = None" "w < length (writers st)"
  shows "\<exists>h1 h tw payload. out (writers (forward_request env inb w req st) ! w) =
      out (writers st ! w) @ request_head (toASCII env) (req\<lparr>r_Header := h\<rparr>) tw @ payload \<and>
    request_writer unused_probe (req\<lparr>r_Header := h\<rparr>) = Inr tw \<and>
    delivers (r_TransferEncoding req) payload d \<and> flat (reader (forward_request env inb w req st)) = rest \<and>
    tw_buf (tmpWriter (forward_request env inb w req st)) = [] \<and>
    (if inb then h1 = r_Header req
     else outbound_fields (http_config env) (map_option (context_String (the_tracer env)) (cache_Get (clock env (turn st))
         (tracingContextMapping (netRequest st)) (Get (r_Header req) (RequestIdHeaderName (http_config env))))) (r_Header req) h1) \<and>
    h = injected_header (the_tracer env) (netRequest st) req h1 \<and>
    room (writers (forward_request env inb w req st) ! w) = None"
proof -
  let ?nr = "netRequest st" and ?now = "clock env (turn st)" and ?hc = "http_config env" and ?tr = "the_tracer env"
  let ?h1 = "if inb then r_Header req else outbound_header ?tr ?hc ?now (tracingContextMapping ?nr) (r_Header req)"
  let ?req = "if inb then req else req\<lparr>r_Header := outbound_header ?tr ?hc ?now (tracingContextMapping ?nr) (r_Header req)\<rparr>"
  let ?pushed = "SetHTTPRequest (length (store ?nr)) (?nr\<lparr>store := store ?nr @ [?req]\<rparr>)"
  let ?nr1 = "StartRequest ?tr ?hc (header_order env) ?now ?pushed"
  let ?h = "injected_header ?tr ?nr req ?h1"
  have "injected_header ?tr ?nr ?req (r_Header ?req) = ?h" "?req\<lparr>r_Header := ?h\<rparr> = req\<lparr>r_Header := ?h\<rparr>"
    by (cases inb; simp add: injected_header_def)+
  then have h: "store ?nr1 ! length (store ?nr) = req\<lparr>r_Header := ?h\<rparr>"
    using StartRequest_new_header [of ?tr ?hc "header_order env" ?now ?nr ?req] by presburger
  obtain tw payload B' where rw: "request_writer unused_probe (req\<lparr>r_Header := ?h\<rparr>) = Inr tw"
    "Request_write unused_probe (toASCII env) (req\<lparr>r_Header := ?h\<rparr>) (writers st ! w) = ((None, Some B'),
      (writers st ! w)\<lparr>out := out (writers st ! w) @ request_head (toASCII env) (req\<lparr>r_Header := ?h\<rparr>) tw @ payload\<rparr>)"
    "Body_flat B' = rest" "delivers (r_TransferEncoding (req\<lparr>r_Header := ?h\<rparr>)) payload d"
    by (rule Request_write_exact [of "req\<lparr>r_Header := ?h\<rparr>" B d rest "writers st ! w" unused_probe "toASCII env"])
      (use assms in \<open>simp_all add: framed_header\<close>)
  have "forward_request env inb w req st = st\<lparr>tmpWriter := Stop (tmpWriter st), netRequest := ?nr1,
     writers := (writers st)[w := (writers st ! w)\<lparr>out := out (writers st ! w) @
        request_head (toASCII env) (req\<lparr>r_Header := ?h\<rparr>) tw @ payload\<rparr>],
     reader := Body_bufr B', turn := Suc (turn st)\<rparr>"
    using rw(2) unfolding forward_request_def Let_def h by (simp add: body_after_def)
  with rw(1,3,4) assms(7,8) show ?thesis
    by - (rule exI [of _ ?h1], rule exI [of _ ?h], intro exI [of _ tw] exI [of _ payload],
        simp add: body_after_flat Stop_def outbound_header_fields)
qed

text \<open>
  (C2) One turn of the request loop forwards one request. For a request that was read and asks
  for no upgrade, without routing, the target is sent the head of that request and a body that
  carries exactly the client's data under the same framing; the loop goes on at the first byte
  after the request, with nothing recorded. The header sent is determined: \<open>h1\<close> is the client's
  header, with a request id where it had none, and on an outbound connection with the trace
  context that is stored under the request id and with a source where the client named none, every
  other field being kept with its values; the tracer injects a fresh context when \<open>h1\<close> carries none,
  on an outbound connection whose earlier requests are all answered.
\<close>
theorem request_turn_forwards:
  assumes "\<not> RoutingEnabled (http_config env)" and "the_w st = Some w" and "w < length (writers st)"
    and "room (writers st ! w) = None" and "ReadRequest (reader st) = (Inr req, b)"
    and "req1 = ensure_request_id (http_config env) (uuid env (turn st)) req"
    and "ToLower (Get (r_Header req1) ''Connection'') \<noteq> ''upgrade''"
    and "r_Body req = Some B" and "wf_Body B" and "Body_meaning B = (d, EOF, rest)" and "length d < 2 ^ 64"
    and "r_Trailer req = None"
  shows "\<exists>st' h1 h tw payload. request_turn env inb dst st = Again st' \<and>
     out (writers st' ! w) =
       out (writers st ! w) @ request_head (toASCII env) (req1\<lparr>r_Header := h\<rparr>) tw @ payload \<and>
     request_writer unused_probe (req1\<lparr>r_Header := h\<rparr>) = Inr tw \<and>
     delivers (r_TransferEncoding req) payload d \<and> flat (reader st') = rest \<and> tw_buf (tmpWriter st') = [] \<and>
     (if inb then h1 = r_Header req1
      else outbound_fields (http_config env) (map_option (context_String (the_tracer env)) (cache_Get (clock env (turn st))
         (tracingContextMapping (netRequest st)) (Get (r_Header req1) (RequestIdHeaderName (http_config env))))) (r_Header req1) h1) \<and>
     h = (if \<not> isInbound (netRequest st) \<and> Queue.Peek (httpRequests (netRequest st)) \<in> {None, Some (length (store (netRequest st)))} \<and>
             Extract (the_tracer env) h1 = None
          then Inject (the_tracer env) (fst (StartSpan (the_tracer env) (r_Host req1 @ Path (r_URL req1)) None
                 (tracer_state (netRequest st)))) h1
          else h1)"
proof -
  let ?st1 = "st\<lparr>reader := b, tmpWriter := tee_reads (reader st) b (Start (tmpWriter st))\<rparr>"
  let ?st3 = "set_remote env inb w ?st1"
  have same: "r_Body req1 = Some B" "r_Trailer req1 = None" "r_TransferEncoding req1 = r_TransferEncoding req"
    "framed req1 B" using assms(6,8,12) ReadRequest_framed [OF assms(5,8)]
    by (simp_all add: ensure_request_id_def framed_header)
  have turn: "request_turn env inb dst st = Again (forward_request env inb w req1 ?st3)"
    using assms(1,2,5,6,7) by (simp add: request_turn_def choose_connection_def)
  have nr: "tracingContextMapping (netRequest ?st3) = tracingContextMapping (netRequest st)"
    "injected_header tr (netRequest ?st3) r h = injected_header tr (netRequest st) r h" for tr r h
    by (simp_all add: set_remote_def injected_header_def)
  from assms(3,4) have w3: "room (writers ?st3 ! w) = None" "w < length (writers ?st3)" "writers ?st3 = writers st"
    "turn ?st3 = turn st" by simp_all
  from forward_request_exact [OF same(4,1) assms(9-11) same(2) w3(1,2), of env inb]
  show ?thesis
    unfolding turn nr w3(3,4) same(3) outcome.inject unfolding injected_header_def
    by (elim exE conjE) (intro exI conjI, (rule refl | assumption)+)
qed

theorem request_turn_forwards_witness:
  "\<exists>st' tw st'' h tw'. request_turn example_env True ''d:1'' ((example_handler [])\<lparr>reader := example_reader
        (''POST / HTTP/1.1'' @ CRLF @ ''Content-Length: 2'' @ CRLF @ CRLF @ ''hiX'')\<rparr>) = Again st' \<and>
     out (writers st' ! 0) = request_head Some
       (example_post\<lparr>r_Header := [(''Content-Length'', [''2'']), (''X-Request-Id'', [''id''])]\<rparr>) tw @ ''hi'' \<and>
     flat (reader st') = ''X'' \<and>
     request_turn example_env False ''d:1'' ((example_handler [])\<lparr>netRequest := NewNetHTTPRequest False (cache_New 0) 7,
        reader := example_reader
        (''POST / HTTP/1.1'' @ CRLF @ ''Content-Length: 2'' @ CRLF @ CRLF @ ''hiX'')\<rparr>) = Again st'' \<and>
     out (writers st'' ! 0) = request_head Some (example_post\<lparr>r_Header := h\<rparr>) tw' @ ''hi'' \<and>
     map_of h = [''Content-Length'' \<mapsto> [''2''], ''X-Request-Id'' \<mapsto> [''id''], ''X-Source'' \<mapsto> [''netra''],
                 ''Uber-Trace-Id'' \<mapsto> [Itoa 7]]"
proof -
  let ?bytes = "''POST / HTTP/1.1'' @ CRLF @ ''Content-Length: 2'' @ CRLF @ CRLF @ ''hiX''"
  let ?in = "(example_handler [])\<lparr>reader := example_reader ?bytes\<rparr>"
  let ?out = "(example_handler [])\<lparr>netRequest := NewNetHTTPRequest False (cache_New 0) 7, reader := example_reader ?bytes\<rparr>"
  let ?h = "[(''Content-Length'', [''2'']), (''X-Request-Id'', [''id''])]"
  let ?bd = "new_body (SrcLimited 2 (example_reader ''hiX'')) False False"
  have can: "CanonicalHeaderKey ''X-Request-Id'' = ''X-Request-Id''" "CanonicalHeaderKey ''X-Source'' = ''X-Source''"
      "CanonicalHeaderKey ''uber-trace-id'' = ''Uber-Trace-Id''"
    by code_simp+
  have id: "ensure_request_id (http_config example_env) u example_post = example_post\<lparr>r_Header := [(''Content-Length'', [''2'']), (''X-Request-Id'', [u])]\<rparr>" for u
    by (simp add: ensure_request_id_def example_env_def example_config_def example_post_def Get_def get_def
        field_values_def Set_def can)
  have body: "r_Body example_post = Some (TheBody ?bd)" "r_Trailer example_post = None"
      "r_TransferEncoding example_post = []" by (simp_all add: example_post_def)
  have wf: "wf_Body (TheBody ?bd)" "Body_meaning (TheBody ?bd) = (''hi'', EOF, ''X'')"
    by (simp_all add: wf_body_def new_body_def wf_bufr_def meaning_def flat_def)
  have conn: "ToLower (Get (r_Header (example_post\<lparr>r_Header := ?h\<rparr>)) ''Connection'') \<noteq> ''upgrade''"
    by (simp add: Get_def get_def field_values_def canonical_ids ToLower.simps)
  have set: "\<not> RoutingEnabled (http_config example_env)" "toASCII example_env = Some"
      "uuid example_env n = ''id''" "the_tracer example_env = plain_tracer" "http_config example_env = example_config" for n
    by (simp_all add: example_env_def example_config_def)
  have i: "the_w ?in = Some 0" "0 < length (writers ?in)" "room (writers ?in ! 0) = None" "isInbound (netRequest ?in)"
      "ReadRequest (reader ?in) = (Inr example_post, example_reader ''hiX'')" "out (writers ?in ! 0) = []"
    using read_example_post by (simp_all add: example_handler_def buffer_def NewNetHTTPRequest_def)
  have o: "the_w ?out = Some 0" "0 < length (writers ?out)" "room (writers ?out ! 0) = None" "\<not> isInbound (netRequest ?out)"
      "ReadRequest (reader ?out) = (Inr example_post, example_reader ''hiX'')" "out (writers ?out ! 0) = []"
      "Queue.Peek (httpRequests (netRequest ?out)) = None" "tracer_state (netRequest ?out) = 7"
      "cache_Get now (tracingContextMapping (netRequest ?out)) k = None" for now k
    using read_example_post
    by (simp_all add: example_handler_def buffer_def NewNetHTTPRequest_def Queue.Peek_def NewQueue_def cache_New_def cache_Get_def)
  have len: "length ''hi'' < 2 ^ 64" by simp
  have id': "example_post\<lparr>r_Header := ?h\<rparr> = ensure_request_id (http_config example_env) (uuid example_env n) example_post" for n
    using id set(3) by simp
  obtain st' tw where 1: "request_turn example_env True ''d:1'' ?in = Again st'"
     "out (writers st' ! 0) = request_head Some (example_post\<lparr>r_Header := ?h\<rparr>) tw @ ''hi''" "flat (reader st') = ''X''"
    using request_turn_forwards [OF set(1) i(1-3,5) id' conn body(1) wf len body(2), of True "''d:1''"] i(4,6) set(2) body(3)
    by (auto simp: delivers_def)
  obtain st'' h1 h tw' where 2: "request_turn example_env False ''d:1'' ?out = Again st''"
     "out (writers st'' ! 0) = request_head Some (example_post\<lparr>r_Header := h\<rparr>) tw' @ ''hi''"
     "outbound_fields example_config None ?h h1" "h = Inject plain_tracer 7 h1"
    using request_turn_forwards [OF set(1) o(1-3,5) id' conn body(1) wf len body(2), of False "''d:1''"] o(4,6-) set(2,4,5) body(3)
    by (auto simp: delivers_def plain_tracer_def)
  have "map_of h1 = (map_of ?h)(''X-Source'' \<mapsto> [''netra''])"
    using 2(3) by (auto simp: outbound_fields_def example_config_def Get_def get_def field_values_def can fun_eq_iff)
  then have "map_of h = [''Content-Length'' \<mapsto> [''2''], ''X-Request-Id'' \<mapsto> [''id''], ''X-Source'' \<mapsto> [''netra''], ''Uber-Trace-Id'' \<mapsto> [Itoa 7]]"
    using 2(4) by (auto simp: plain_tracer_def Add_def update_conv' can field_values_def Let_def fun_eq_iff)
  with 1 2(1,2) show ?thesis by blast
qed

section \<open>Context follows the request id\<close>

lemma routing_value_cached:
  assumes "field_values (r_Header req) (CanonicalHeaderKey (RoutingHeaderName hc)) = []"
    and "RoutingCookieEnabled hc \<Longrightarrow> Cookie_named (r_Header req) (RoutingCookieName hc) = None"
    and "cache_Get now m (Get (r_Header req) (RequestIdHeaderName hc)) = Some v"
  shows "routing_value hc now m req = (v, req\<lparr>r_Header := Add (RoutingHeaderName hc) v (r_Header req)\<rparr>)"
proof -
  have "Get (r_Header req) (RoutingHeaderName hc) = ''''" using assms(1) by (simp add: Get_def get_def)
  with assms(2,3) show ?thesis by (auto simp: routing_value_def Let_def)
qed

text \<open>
  (C25) A routing decision follows its request id. When an inbound request with routing value \<open>v\<close> is
  passed on, always to its original destination, every outbound request that carries the same
  request id and no routing value of its own is, until the entry expires, sent where \<open>v\<close> routes
  its host, and carries \<open>v\<close> on in its routing header.
\<close>
theorem routing_follows_request_id:
  assumes "routing_value hc t1 m req1 = (v, req1')" and "v \<noteq> ''''"
    and "getRoutingDestination v (r_Host req1') dst1 = Inr a"
    and "Get (r_Header req1') (RequestIdHeaderName hc) = rid" and "rid \<noteq> ''''"
    and "Get (r_Header req2) (RequestIdHeaderName hc) = rid"
    and "field_values (r_Header req2) (CanonicalHeaderKey (RoutingHeaderName hc)) = []"
    and "RoutingCookieEnabled hc \<Longrightarrow> Cookie_named (r_Header req2) (RoutingCookieName hc) = None"
    and "\<not> (0 <s defaultExpiration m \<and> 0 <s t1 + defaultExpiration m \<and> t1 + defaultExpiration m <s t2)"
  shows "\<exists>m' req2'. route_request hc t1 True dst1 m req1 = (dst1, m', req1') \<and>
     route_request hc t2 False dst2 m' req2 =
       (case getRoutingDestination v (r_Host req2) dst2 of Inl e \<Rightarrow> dst2 | Inr addr \<Rightarrow> addr, m', req2') \<and>
     Get (r_Header req2') (RoutingHeaderName hc) = v"
proof -
  let ?m = "SetDefault t1 rid v m"
  let ?req2 = "req2\<lparr>r_Header := Add (RoutingHeaderName hc) v (r_Header req2)\<rparr>"
  have r1: "route_request hc t1 True dst1 m req1 = (dst1, ?m, req1')"
    using assms(1-5) by (simp add: route_request_def)
  have "cache_Get t2 ?m (Get (r_Header req2) (RequestIdHeaderName hc)) = Some v"
    using assms(6,9) by (simp add: cache_Get_SetDefault_same Let_def)
  from routing_value_cached [OF assms(7,8) this] have
    rv: "routing_value hc t2 ?m req2 = (v, ?req2)" by simp
  then have r2: "route_request hc t2 False dst2 ?m req2 =
       (case getRoutingDestination v (r_Host req2) dst2 of Inl e \<Rightarrow> dst2 | Inr addr \<Rightarrow> addr, ?m, ?req2)"
    using assms(2) by (simp add: route_request_def split: sum.split)
  have "Get (r_Header ?req2) (RoutingHeaderName hc) = v"
    using assms(7) by (simp add: Get_def get_def field_values_Add)
  with r1 r2 show ?thesis by blast
qed

theorem routing_follows_request_id_witness:
  "\<exists>m' req2'. route_request example_config 0 True ''10.0.0.2:80'' (cache_New 0)
        (example_post\<lparr>r_Header := [(''X-Request-Id'', [''7'']), (''X-Route'', [''svc=svc2''])]\<rparr>) =
          (''10.0.0.2:80'', m', example_post\<lparr>r_Header := [(''X-Request-Id'', [''7'']), (''X-Route'', [''svc=svc2''])]\<rparr>) \<and>
     route_request example_config 9 False ''10.0.0.3:80'' m'
        (example_post\<lparr>r_Header := [(''X-Request-Id'', [''7''])], r_Host := ''svc''\<rparr>) = (''svc2:80'', m', req2')"
proof -
  let ?r1 = "example_post\<lparr>r_Header := [(''X-Request-Id'', [''7'']), (''X-Route'', [''svc=svc2''])]\<rparr>"
  let ?r2 = "example_post\<lparr>r_Header := [(''X-Request-Id'', [''7''])], r_Host := ''svc''\<rparr>"
  have can: "CanonicalHeaderKey ''X-Request-Id'' = ''X-Request-Id''" "CanonicalHeaderKey ''X-Route'' = ''X-Route''"
    by (simp_all add: CanonicalHeaderKey_def IsTokenRune_ord upper_ascii_def lower_ascii_def)
  have names: "RoutingHeaderName example_config = ''X-Route''" "RequestIdHeaderName example_config = ''X-Request-Id''"
      "\<not> RoutingCookieEnabled example_config" by (simp_all add: example_config_def)
  have v: "routing_value example_config 0 (cache_New 0) ?r1 = (''svc=svc2'', ?r1)"
    by (simp add: routing_value_def names Get_def get_def field_values_def can Let_def)
  have g1: "getRoutingDestination ''svc=svc2'' (r_Host ?r1) ''10.0.0.2:80'' = Inr ''10.0.0.2:80''"
    by (simp add: getRoutingDestination_def example_post_def)
  have g2: "getRoutingDestination ''svc=svc2'' (r_Host ?r2) ''10.0.0.3:80'' = Inr ''svc2:80''"
    by (simp add: getRoutingDestination_def Contains_def)
  have ids: "Get (r_Header ?r1) (RequestIdHeaderName example_config) = ''7''" "''7'' \<noteq> ''''"
      "Get (r_Header ?r2) (RequestIdHeaderName example_config) = ''7''"
      "field_values (r_Header ?r2) (CanonicalHeaderKey (RoutingHeaderName example_config)) = []"
    by (simp_all add: names Get_def get_def field_values_def can)
  have ex: "\<not> (0 <s defaultExpiration (cache_New 0) \<and> 0 <s 0 + defaultExpiration (cache_New 0) \<and>
      0 + defaultExpiration (cache_New 0) <s (9 :: int64))"
    by (simp add: cache_New_def NoExpiration_def word_sless_alt)
  from routing_follows_request_id [OF v _ g1 ids _ ex, of "''10.0.0.3:80''"] names(3) g2 show ?thesis by auto
qed

text \<open>
  (C26) A trace follows its request id. Starting the span of an inbound request stores its context
  under the request id; the header of an outbound request with this id gets, until the entry
  expires, exactly this context as its trace header.
\<close>
theorem trace_follows_request_id:
  assumes "isInbound nr" and "Queue.Peek (httpRequests nr) = Some i"
    and "Get (r_Header (store nr ! i)) (RequestIdHeaderName hc) = rid"
    and "Get h (RequestIdHeaderName hc) = rid" and "CanonicalHeaderKey (XSourceHeaderName hc) \<noteq> TraceContextHeaderName"
    and "\<not> (0 <s defaultExpiration (tracingContextMapping nr) \<and> 0 <s t1 + defaultExpiration (tracingContextMapping nr) \<and>
           t1 + defaultExpiration (tracingContextMapping nr) <s t2)"
  shows "\<exists>sp. spans (StartRequest tr hc order t1 nr) = Push sp (spans nr) \<and>
     map_of (outbound_header tr hc t2 (tracingContextMapping (StartRequest tr hc order t1 nr)) h) TraceContextHeaderName =
       Some [context_String tr (span_context sp)]"
proof -
  let ?nr = "StartRequest tr hc order t1 nr"
  from StartRequest_queues [OF assms(2), of tr hc order t1] obtain sp where
    sp: "spans ?nr = Push sp (spans nr)" "operation sp = span_operation (isInbound nr) (store nr ! i)"
    "parent sp = Extract tr (r_Header (store nr ! i))"
    "span_context sp = fst (StartSpan tr (operation sp) (parent sp) (tracer_state nr))" by metis
  have "tracingContextMapping ?nr = SetDefault t1 rid (span_context sp) (tracingContextMapping nr)"
    using assms(1-3) sp(2-4) by (auto simp: StartRequest_def Let_def split: option.split prod.split)
  with assms(4,6) have "cache_Get t2 (tracingContextMapping ?nr) (Get h (RequestIdHeaderName hc)) = Some (span_context sp)"
    by (simp add: cache_Get_SetDefault_same Let_def)
  with assms(5) have "map_of (outbound_header tr hc t2 (tracingContextMapping ?nr) h) TraceContextHeaderName =
       Some [context_String tr (span_context sp)]"
    by (auto simp: outbound_header_def Let_def Set_def update_conv')
  with sp(1) show ?thesis by blast
qed


theorem trace_follows_request_id_witness:
  "map_of (outbound_header plain_tracer example_config 5 (tracingContextMapping
       (StartRequest plain_tracer example_config [] 0 (SetHTTPRequest 0
          ((NewNetHTTPRequest True (cache_New 0) 7)\<lparr>store := [example_post\<lparr>r_Header := [(''X-Request-Id'', [''r''])]\<rparr>]\<rparr>))))
       [(''X-Request-Id'', [''r''])]) TraceContextHeaderName = Some [Itoa 7]"
proof -
  let ?nr = "SetHTTPRequest 0 ((NewNetHTTPRequest True (cache_New 0) 7)
      \<lparr>store := [example_post\<lparr>r_Header := [(''X-Request-Id'', [''r''])]\<rparr>]\<rparr>) :: (nat, nat) NetHTTPRequest"
  have can: "CanonicalHeaderKey ''X-Request-Id'' = ''X-Request-Id''" "CanonicalHeaderKey ''X-Source'' = ''X-Source''"
    by (simp_all add: CanonicalHeaderKey_def IsTokenRune_ord upper_ascii_def lower_ascii_def)
  have nr: "isInbound ?nr" "Queue.Peek (httpRequests ?nr) = Some 0" "tracer_state ?nr = 7"
      "tracingContextMapping ?nr = cache_New 0" "spans ?nr = NewQueue"
    by (simp_all add: SetHTTPRequest_def NewNetHTTPRequest_def Push_def NewQueue_def Queue.Peek_def)
  have g: "Get (r_Header (store ?nr ! 0)) (RequestIdHeaderName example_config) = ''r''"
      "Get [(''X-Request-Id'', [''r''])] (RequestIdHeaderName example_config) = ''r''"
      "CanonicalHeaderKey (XSourceHeaderName example_config) \<noteq> TraceContextHeaderName"
    by (simp_all add: SetHTTPRequest_def example_config_def can Get_def get_def field_values_def TraceContextHeaderName_def)
  have ex: "\<not> (0 <s defaultExpiration (tracingContextMapping ?nr) \<and> 0 <s 0 + defaultExpiration (tracingContextMapping ?nr) \<and>
      0 + defaultExpiration (tracingContextMapping ?nr) <s (5 :: int64))"
    unfolding nr(4) by (simp add: cache_New_def NoExpiration_def word_sless_alt)
  from trace_follows_request_id [OF nr(1,2) g ex, of plain_tracer "[]"] obtain sp where
    sp: "spans (StartRequest plain_tracer example_config [] 0 ?nr) = Push sp (spans ?nr)"
    "map_of (outbound_header plain_tracer example_config 5 (tracingContextMapping
       (StartRequest plain_tracer example_config [] 0 ?nr)) [(''X-Request-Id'', [''r''])]) TraceContextHeaderName =
       Some [context_String plain_tracer (span_context sp)]" by blast
  have "elements (spans (StartRequest plain_tracer example_config [] 0 ?nr)) = [sp]"
    using sp(1) nr(5) by (simp add: Push_def NewQueue_def)
  then have "span_context sp = 7"
    using nr
    by (auto simp: tags_keep_context StartRequest_def Let_def plain_tracer_def Push_def NewQueue_def split: if_splits)
  with sp(2) show ?thesis by (simp add: plain_tracer_def)
qed

text \<open>
  A caller's own trace header is sent along with the proxy's. The handler stores the context
  under the key \<open>uber-trace-id\<close> as it stands, while a header read from the wire has the key
  \<open>Uber-Trace-Id\<close>: an outbound request that came with a trace header leaves with two of them, the
  caller's and the stored one.
\<close>
lemma trace_header_sent_twice:
  assumes "cache_Get now mapping (Get h (RequestIdHeaderName hc)) = Some ctx" and "map_of h ''Uber-Trace-Id'' = Some vs"
    and "CanonicalHeaderKey (XSourceHeaderName hc) \<noteq> ''Uber-Trace-Id''"
    and "CanonicalHeaderKey (XSourceHeaderName hc) \<noteq> ''uber-trace-id''"
  shows "map_of (outbound_header tr hc now mapping h) ''Uber-Trace-Id'' = Some vs \<and>
     map_of (outbound_header tr hc now mapping h) ''uber-trace-id'' = Some [context_String tr ctx] \<and>
     CanonicalHeaderKey ''uber-trace-id'' = ''Uber-Trace-Id''"
proof -
  have "CanonicalHeaderKey ''uber-trace-id'' = ''Uber-Trace-Id''"
    by (simp add: CanonicalHeaderKey_def IsTokenRune_ord upper_ascii_def lower_ascii_def char_eval)
  with assms show ?thesis
    by (simp add: outbound_header_def TraceContextHeaderName_def Set_def update_conv' Let_def)
qed

lemma trace_header_sent_twice_witness:
  "let h = outbound_header plain_tracer example_config 5 (SetDefault 0 ''r'' 7 (cache_New 0))
        [(''X-Request-Id'', [''r'']), (''Uber-Trace-Id'', [''old''])] in
   map_of h ''Uber-Trace-Id'' = Some [''old''] \<and> map_of h ''uber-trace-id'' = Some [Itoa 7]"
proof -
  let ?h = "[(''X-Request-Id'', [''r'']), (''Uber-Trace-Id'', [''old''])]"
  have can: "CanonicalHeaderKey ''X-Request-Id'' = ''X-Request-Id''" "CanonicalHeaderKey ''X-Source'' = ''X-Source''"
    by (simp_all add: CanonicalHeaderKey_def IsTokenRune_ord upper_ascii_def lower_ascii_def)
  have x: "CanonicalHeaderKey (XSourceHeaderName example_config) = ''X-Source''"
    by (simp add: example_config_def can)
  have "cache_Get 5 (SetDefault 0 ''r'' (7 :: nat) (cache_New 0)) (Get ?h (RequestIdHeaderName example_config)) = Some 7"
    by (simp add: example_config_def Get_def get_def field_values_def can cache_Get_SetDefault_same cache_New_def
        NoExpiration_def word_sless_alt)
  from trace_header_sent_twice [OF this, of "[''old'']" plain_tracer] x show ?thesis
    by (simp add: Let_def plain_tracer_def)
qed

end
