(* ===== verification/Pipeline.thy ===== *)
theory Pipeline
  imports HttpHandler
begin

text \<open>
  A connection that carries one request after another. \<open>wire_request\<close> says what the bytes of a
  stream mean, without buffers and segments; the request loop forwards exactly the requests that
  this reading finds, however the bytes arrive and whatever the response side does meanwhile.
\<close>

section \<open>Requests on the wire\<close>

definition complete_lines :: "bytes \<Rightarrow> bytes \<Rightarrow> bool" where
  \<comment> \<open>the part of \<open>s\<close> before \<open>rest\<close> ends with a line feed\<close>
  "complete_lines s rest \<longleftrightarrow>
     (let n = length s - length rest in 0 < n \<and> take n s = butlast (take n s) @ [LF] \<and> drop n s = rest)"

definition wire_request :: "nat \<Rightarrow> bytes \<Rightarrow> (Request \<times> bytes \<times> bytes) option" where
  \<comment> \<open>for a reader with a buffer of \<open>c\<close> bytes: the request with its body still to be read, the
     data of the body, and what follows\<close>
  "wire_request c s =
     (case ReadLine s of
        None \<Rightarrow> None
      | Some (line, s1) \<Rightarrow>
          (case parse_first_line line of
             Inl e \<Rightarrow> None
           | Inr l \<Rightarrow>
               (case ReadMIMEHeader s1 of
                  (Some e, header, s2) \<Rightarrow> None
                | (None, header, s2) \<Rightarrow>
                    if \<not> complete_lines s1 s2 then None
                    else case finish_request True l header (NewReaderSize c [s2] EOF) of
                      Inl e \<Rightarrow> None
                    | Inr req \<Rightarrow>
                        (case r_Body req of
                           None \<Rightarrow> None
                         | Some B \<Rightarrow>
                             (case Body_meaning B of
                                (d, e, rest) \<Rightarrow> if e = EOF \<and> wf_Body B then Some (req, d, rest) else None)))))"

fun pipelined :: "nat \<Rightarrow> bytes \<Rightarrow> (Request \<times> bytes) list \<Rightarrow> bool" where
  \<comment> \<open>the stream consists of these requests\<close>
  "pipelined c s [] \<longleftrightarrow> s = []"
| "pipelined c s ((req, d) # rds) \<longleftrightarrow>
     (case wire_request c s of
        None \<Rightarrow> False
      | Some (req', d', rest) \<Rightarrow> req' = req \<and> d' = d \<and> pipelined c rest rds)"

section \<open>The reader finds what is on the wire\<close>

lemma complete_lines_iff: "complete_lines s rest \<longleftrightarrow> (\<exists>p. s = p @ LF # rest)"
proof
  assume c: "complete_lines s rest"
  let ?n = "length s - length rest"
  from c have "take ?n s = butlast (take ?n s) @ [LF]" "drop ?n s = rest"
    by (simp_all add: complete_lines_def Let_def)
  then have "s = butlast (take ?n s) @ LF # rest"
    by (metis append.assoc append_Cons append_Nil append_take_drop_id)
  then show "\<exists>p. s = p @ LF # rest" by blast
next
  assume "\<exists>p. s = p @ LF # rest"
  then obtain p where "s = p @ LF # rest" by blast
  then show "complete_lines s rest" by (simp add: complete_lines_def Let_def butlast_append)
qed

definition same_stream :: "bufr \<Rightarrow> bufr \<Rightarrow> bool" where
  "same_stream r r' \<longleftrightarrow> flat r = flat r' \<and> at_end r = at_end r' \<and> cap r = cap r' \<and> wf_bufr r \<and> wf_bufr r'"

fun moved :: "Body \<Rightarrow> bufr \<Rightarrow> Body" where
  \<comment> \<open>the same body on another reader\<close>
  "moved (NoBody b) r = NoBody r"
| "moved (TheBody bd) r = TheBody (bd\<lparr>b_src := set_reader r (b_src bd)\<rparr>)"
| "moved (Prefixed p bd) r = Prefixed p (bd\<lparr>b_src := set_reader r (b_src bd)\<rparr>)"

lemma choose_body_moved: "choose_body m st te n c tr r' = moved (choose_body m st te n c tr r) r'"
  by (simp add: choose_body_def Let_def NewChunkedReader_def)

lemma readTransfer_moved:
  "readTransfer isR st m mj mn c h r = Inr t \<Longrightarrow>
   readTransfer isR st m mj mn c h r' = Inr (t\<lparr>t_Body := moved (t_Body t) r'\<rparr>)"
  by (auto simp: readTransfer_def rbind_Inr_iff Let_def choose_body_moved [of _ _ _ _ _ _ r' r] split: prod.splits if_splits)

lemma finish_request_moved:
  assumes "finish_request d l h r = Inr req"
  shows "\<exists>B. r_Body req = Some B \<and> finish_request d l h r' = Inr (req\<lparr>r_Body := Some (moved B r')\<rparr>)"
proof -
  obtain meth uri proto major minor u where l: "l = (meth, uri, proto, major, minor, u)"
    by (metis surj_pair)
  obtain c h3 where sc: "shouldClose major minor
      (fixPragmaCacheControl (if d then AList.delete ''Host'' h else h)) False = (c, h3)" by fastforce
  from assms l sc obtain t where t: "readTransfer False 200 meth major minor c h3 r = Inr t"
    by (auto simp: finish_request_def rbind_Inr_iff Let_def)
  from readTransfer_moved [OF t, of r'] t assms l sc show ?thesis
    by (auto simp: finish_request_def Let_def isH2Upgrade_def)
qed

lemma pending_moved: "same_stream (cr_r cr) r \<Longrightarrow> pending (cr\<lparr>cr_r := r\<rparr>) = pending cr"
  by (cases "cr_err cr") (simp_all add: pending_def Let_def same_stream_def)

lemma moved_meaning:
  assumes "same_stream (Body_bufr B) r" "wf_Body B"
  shows "Body_meaning (moved B r) = Body_meaning B \<and> wf_Body (moved B r)"
proof (cases B)
  case (TheBody bd)
  show ?thesis
  proof (cases "b_src bd")
    case (SrcChunked cr)
    with TheBody assms have "pending (cr\<lparr>cr_r := r\<rparr>) = pending cr" by (simp add: body_bufr_def pending_moved)
    with SrcChunked TheBody assms show ?thesis
      by (simp add: same_stream_def wf_body_def meaning_def body_bufr_def cr_inv_def)
  qed (use TheBody assms in \<open>auto simp: same_stream_def wf_body_def meaning_def body_bufr_def\<close>)
qed (use assms in \<open>auto simp: same_stream_def\<close>)

lemma ReadRequest_wire:
  assumes "wire_request (cap r) (flat r) = Some (req, d, rest)" "wf_bufr r" "at_end r = EOF"
  obtains B b B0 where "ReadRequest r = (Inr (req\<lparr>r_Body := Some B\<rparr>), b)" "wf_Body B" "Body_meaning B = (d, EOF, rest)"
    "Body_bufr B = b" "r_Body req = Some B0" "B = moved B0 b"
proof -
  obtain line s1 where rl: "ReadLine (flat r) = Some (line, s1)"
    using assms(1) by (auto simp: wire_request_def split: option.splits)
  obtain l where l: "parse_first_line line = Inr l"
    using assms(1) rl by (auto simp: wire_request_def split: sum.splits)
  obtain header s2 where h: "ReadMIMEHeader s1 = (None, header, s2)" "complete_lines s1 s2"
    using assms(1) rl l by (auto simp: wire_request_def split: prod.splits option.splits if_splits)
  let ?bare = "NewReaderSize (cap r) [s2] EOF"
  obtain B0 where f: "finish_request True l header ?bare = Inr req" "r_Body req = Some B0"
    "Body_meaning B0 = (d, EOF, rest)" "wf_Body B0"
    using assms(1) rl l h by (auto simp: wire_request_def split: sum.splits option.splits prod.splits if_splits)
  from h(2) obtain p where p: "s1 = p @ LF # s2" by (auto simp: complete_lines_iff)
  have "LF \<in> set (flat r)" using ReadLine_suffix [OF rl] p by (auto simp: suffix_def)
  from readLineSlice_agrees [OF assms(2) this, of "[]"] rl obtain r1 where
    r1: "readLineSlice r = (Inr line, r1)" "flat r1 = s1" "wf_bufr r1" "at_end r1 = EOF" "cap r1 = cap r"
    using assms(3) by (auto simp: readLineSlice_def split: prod.splits)
  from ReadMIMEHeader_agrees [OF r1(3), of None header s2 p] h(1) p r1(2) obtain b where
    b: "ReadMIMEHeader_b r1 = (None, header, b)" "flat b = s2" "wf_bufr b" "at_end b = EOF" "cap b = cap r"
    using r1(4,5) by auto
  from finish_request_moved [OF f(1), of b] f(2) have
    fin: "finish_request True l header b = Inr (req\<lparr>r_Body := Some (moved B0 b)\<rparr>)" by auto
  have rd: "ReadRequest r = (Inr (req\<lparr>r_Body := Some (moved B0 b)\<rparr>), b)"
    using r1(1) l b(1) fin by (simp add: ReadRequest_def readRequest_def)
  have "Body_bufr B0 = ?bare" 
    using f(1,2) by (auto simp: finish_request_def Let_def rbind_Inr_iff dest!: readTransfer_reader split: prod.splits if_splits)
  moreover have "same_stream ?bare b"
    using b assms(2) by (auto simp: same_stream_def NewReaderSize_def flat_def wf_bufr_def)
  ultimately have m: "Body_meaning (moved B0 b) = (d, EOF, rest) \<and> wf_Body (moved B0 b)"
    using moved_meaning [of B0 b] f(3,4) by simp
  obtain B where "r_Body (req\<lparr>r_Body := Some (moved B0 b)\<rparr>) = Some B" "Body_bufr B = b"
    using ReadRequest_reader [OF rd] .
  then have "Body_bufr (moved B0 b) = b" by simp
  with that [OF rd] m f(2) show ?thesis by blast
qed

lemma ReadRequest_end:
  assumes "flat r = []" "at_end r = EOF" "wf_bufr r"
  shows "\<exists>b. ReadRequest r = (Inl EOF, b)"
proof -
  have "buffered r = []" "concat (incoming r) = []" using assms(1) by (simp_all add: flat_def)
  moreover from this(2) have "conn_read (cap r) (incoming r) = None" by (simp only: conn_read_None_iff)
  moreover have "\<not> cap r \<le> 0" using assms(3) by (simp add: wf_bufr_def)
  ultimately show ?thesis
    using assms(2) by (simp add: ReadRequest_def readRequest_def reader_eval)
qed

section \<open>The loop forwards them\<close>

definition forwardable :: "('s, 'c) env \<Rightarrow> nat \<Rightarrow> Request \<times> bytes \<Rightarrow> bool" where
  "forwardable env n rd \<longleftrightarrow> r_Trailer (fst rd) = None \<and> length (snd rd) < 2 ^ 64 \<and>
     ToLower (Get (r_Header (ensure_request_id (http_config env) (uuid env n) (fst rd))) ''Connection'') \<noteq> ''upgrade''"

definition forwarded_as :: "('s, 'c) env \<Rightarrow> bool \<Rightarrow> nat \<Rightarrow> Request \<times> bytes \<Rightarrow> bytes \<Rightarrow> bool" where
  \<comment> \<open>the bytes sent for a request that was read in the n-th turn\<close>
  "forwarded_as env inb n rd text \<longleftrightarrow>
     (\<exists>h1 h tw payload ctx. let req = ensure_request_id (http_config env) (uuid env n) (fst rd) in
        request_writer unused_probe (req\<lparr>r_Header := h\<rparr>) = Inr tw \<and>
        text = request_head (toASCII env) (req\<lparr>r_Header := h\<rparr>) tw @ payload \<and>
        delivers (r_TransferEncoding req) payload (snd rd) \<and>
        (if inb then h = r_Header req
         else outbound_fields (http_config env) (map_option (context_String (the_tracer env)) ctx) (r_Header req) h1 \<and>
           (h = h1 \<or> Extract (the_tracer env) h1 = None \<and> (\<exists>fresh. h = Inject (the_tracer env) fresh h1))))"

definition framed_writer :: "Request \<Rightarrow> Body \<Rightarrow> transferWriter" where
  \<comment> \<open>the transfer writer of a request whose length is known\<close>
  "framed_writer r B =
     (let t = \<lparr>Method = valueOrDefault (r_Method r) ''GET'', tw_Body = Some B, BodyCloser = Some B,
        ResponseToHEAD = False, ContentLength = outgoingLength (Some B) (r_ContentLength r),
        Close = r_Close r, TransferEncoding = r_TransferEncoding r, tw_Header = r_Header r,
        Trailer = r_Trailer r, IsResponse = False, FlushHeaders = False\<rparr> in
      sanitize True (if ContentLength t \<noteq> 0 then t\<lparr>FlushHeaders := True\<rparr> else t))"

lemma request_writer_framed:
  assumes "r_Body r = Some B" "framed r B"
  shows "request_writer probe r = Inr (framed_writer r B)"
proof -
  have np: "(outgoingLength (Some B) (r_ContentLength r) < 0 \<and> r_TransferEncoding r = []) = False"
    using assms(2) by (auto simp: framed_def outgoingLength_def split: Body.splits)
  have nb: "(r_ContentLength r \<noteq> 0 \<and> Some B = None) = False" by simp
  show ?thesis
    unfolding request_writer_def newTransferWriter_request_def framed_writer_def Let_def assms(1) nb if_False
      transferWriter.simps np by (rule refl)
qed

lemma sanitize_swap_body:
  "tw_Body t \<noteq> None \<Longrightarrow> \<not> ResponseToHEAD t \<Longrightarrow>
   sanitize True (t\<lparr>tw_Body := Some B, BodyCloser := Some B\<rparr>) = (sanitize True t)\<lparr>tw_Body := Some B, BodyCloser := Some B\<rparr>"
  by (cases t) (auto simp: sanitize_def Let_def)

lemma framing_fields_body: "framing_fields (t\<lparr>tw_Body := x, BodyCloser := y\<rparr>) = framing_fields t"
  by (simp add: framing_fields_def shouldSendContentLength_def)

lemma write_parts_body: "write_host toA (r\<lparr>r_Body := x\<rparr>) = write_host toA r" "write_uri host (r\<lparr>r_Body := x\<rparr>) = write_uri host r"
  by (simp_all add: write_host_def write_uri_def Let_def)

lemma request_head_body:
  "request_head toA (r\<lparr>r_Body := x\<rparr>) (tw\<lparr>tw_Body := y, BodyCloser := z\<rparr>) = request_head toA r tw"
  by (simp add: request_head_def request_line_def head_fields_def framing_fields_body write_parts_body)

lemma framed_writer_moved:
  "framed_writer (r\<lparr>r_Body := x\<rparr>) (moved B b) = (framed_writer r B)\<lparr>tw_Body := Some (moved B b), BodyCloser := Some (moved B b)\<rparr>"
proof -
  have ol: "outgoingLength (Some (moved B b)) n = outgoingLength (Some B) n" for n
    by (cases B) (simp_all add: outgoingLength_def)
  show ?thesis
    unfolding framed_writer_def ol Let_def
    by (subst sanitize_swap_body [symmetric]) simp_all
qed

lemma framed_moved: "framed (r\<lparr>r_Body := x\<rparr>) (moved B b) = framed r B"
  by (cases B) (auto simp: framed_def split: src.split elim: set_reader.elims)

lemma request_writer_moved:
  assumes "r_Body r = Some B" "framed r B" "request_writer probe (r\<lparr>r_Body := Some (moved B b)\<rparr>) = Inr tw"
  shows "\<exists>tw0. request_writer probe r = Inr tw0 \<and>
     request_head toA (r\<lparr>r_Body := Some (moved B b)\<rparr>) tw = request_head toA r tw0"
proof -
  have "tw = framed_writer (r\<lparr>r_Body := Some (moved B b)\<rparr>) (moved B b)"
    using request_writer_framed [of "r\<lparr>r_Body := Some (moved B b)\<rparr>" "moved B b" probe] assms(2,3) by (simp add: framed_moved)
  with request_writer_framed [OF assms(1,2), of probe] show ?thesis
    by (simp add: framed_writer_moved request_head_body)
qed

lemma forward_request_keeps:
  fixes st :: "('s, 'c) handler"
  shows "the_w (forward_request env inb w req st) = the_w st" "turn (forward_request env inb w req st) = Suc (turn st)"
    "length (writers (forward_request env inb w req st)) = length (writers st)"
    "isInbound (netRequest (forward_request env inb w req st)) = isInbound (netRequest st)"
proof -
  let ?nr = "netRequest st" and ?now = "clock env (turn st)" and ?hc = "http_config env"
  let ?req = "if inb then req else req\<lparr>r_Header := outbound_header (the_tracer env) ?hc ?now
      (tracingContextMapping ?nr) (r_Header req)\<rparr>"
  let ?nr1 = "StartRequest (the_tracer env) ?hc (header_order env) ?now
      (SetHTTPRequest (length (store ?nr)) (?nr\<lparr>store := store ?nr @ [?req]\<rparr>))"
  obtain e B w' where rw: "Request_write unused_probe (toASCII env) (store ?nr1 ! length (store ?nr)) (writers st ! w) =
      ((e, B), w')" by (metis surj_pair)
  have i: "isInbound (StartRequest tr hc order now nr) = isInbound nr" for tr hc order now and nr :: "('s, 'c) NetHTTPRequest"
    by (auto simp: StartRequest_def Let_def split: option.split prod.split)
  from rw show "the_w (forward_request env inb w req st) = the_w st" "turn (forward_request env inb w req st) = Suc (turn st)"
    "length (writers (forward_request env inb w req st)) = length (writers st)"
    "isInbound (netRequest (forward_request env inb w req st)) = isInbound (netRequest st)"
    by (simp_all add: forward_request_def Let_def i SetHTTPRequest_def)
qed

lemma request_turn_wire:
  assumes "\<not> RoutingEnabled (http_config env)" "the_w st = Some w" "w < length (writers st)" "room (writers st ! w) = None"
    and "wf_bufr (reader st)" "at_end (reader st) = EOF"
    and "wire_request (cap (reader st)) (flat (reader st)) = Some (req, d, rest)" "forwardable env (turn st) (req, d)"
    and "isInbound (netRequest st) = inb"
  shows "\<exists>st' text. request_turn env inb dst st = Again st' \<and> forwarded_as env inb (turn st) (req, d) text \<and>
     out (writers st' ! w) = out (writers st ! w) @ text \<and> the_w st' = Some w \<and> w < length (writers st') \<and>
     room (writers st' ! w) = None \<and> wf_bufr (reader st') \<and> at_end (reader st') = EOF \<and>
     cap (reader st') = cap (reader st) \<and> flat (reader st') = rest \<and> turn st' = Suc (turn st) \<and>
     isInbound (netRequest st') = inb"
proof -
  obtain B b B0 where
    rd: "ReadRequest (reader st) = (Inr (req\<lparr>r_Body := Some B\<rparr>), b)" and B: "wf_Body B" "Body_meaning B = (d, EOF, rest)"
      "Body_bufr B = b" "r_Body req = Some B0" "B = moved B0 b"
    by (rule ReadRequest_wire [OF assms(7,5,6)])
  let ?id = "ensure_request_id (http_config env) (uuid env (turn st))"
  let ?req1 = "?id (req\<lparr>r_Body := Some B\<rparr>)"
  have same: "?req1 = (?id req)\<lparr>r_Body := Some B\<rparr>" by (simp add: ensure_request_id_def)
  let ?st3 = "set_remote env inb w (st\<lparr>reader := b, tmpWriter := tee_reads (reader st) b (Start (tmpWriter st))\<rparr>)"
  have fr: "framed ?req1 B" using ReadRequest_framed [OF rd, of B] by (simp add: ensure_request_id_def framed_header)
  have conn: "ToLower (Get (r_Header ?req1) ''Connection'') \<noteq> ''upgrade''"
    using assms(8) unfolding same by (simp add: forwardable_def)
  have turn: "request_turn env inb dst st = Again (forward_request env inb w ?req1 ?st3)"
    using assms(1,2) conn rd by (simp add: request_turn_def choose_connection_def)
  have body: "r_Body ?req1 = Some B" "r_Trailer ?req1 = None" "length d < 2 ^ 64"
    using assms(8) by (simp_all add: ensure_request_id_def forwardable_def)
  have w3: "room (writers ?st3 ! w) = None" "w < length (writers ?st3)" using assms(3,4) by simp_all
  from forward_request_exact [OF fr body(1) B(1,2) body(3,2) w3, of env inb] obtain h1 h tw payload where
    f: "out (writers (forward_request env inb w ?req1 ?st3) ! w) =
        out (writers ?st3 ! w) @ request_head (toASCII env) (?req1\<lparr>r_Header := h\<rparr>) tw @ payload"
      "request_writer unused_probe (?req1\<lparr>r_Header := h\<rparr>) = Inr tw" "delivers (r_TransferEncoding ?req1) payload d"
      "flat (reader (forward_request env inb w ?req1 ?st3)) = rest"
      "if inb then h1 = r_Header ?req1
       else outbound_fields (http_config env) (map_option (context_String (the_tracer env)) (cache_Get (clock env (turn ?st3))
         (tracingContextMapping (netRequest ?st3)) (Get (r_Header ?req1) (RequestIdHeaderName (http_config env))))) (r_Header ?req1) h1"
      "h = injected_header (the_tracer env) (netRequest ?st3) ?req1 h1"
      "room (writers (forward_request env inb w ?req1 ?st3) ! w) = None"
    by blast
  obtain ctx where sent: "if inb then h = r_Header ?req1
      else outbound_fields (http_config env) (map_option (context_String (the_tracer env)) ctx) (r_Header ?req1) h1 \<and>
        (h = h1 \<or> Extract (the_tracer env) h1 = None \<and> (\<exists>fresh. h = Inject (the_tracer env) fresh h1))"
    using f(5,6) assms(9) by (auto simp: injected_header_def set_remote_def split: if_splits)
  have hd: "?req1\<lparr>r_Header := h\<rparr> = ((?id req)\<lparr>r_Header := h\<rparr>)\<lparr>r_Body := Some (moved B0 b)\<rparr>"
    using same B(5) by simp
  have "framed ((?id req)\<lparr>r_Header := h\<rparr>) B0"
    using fr same B(5) framed_moved by (metis framed_header)
  moreover have "r_Body ((?id req)\<lparr>r_Header := h\<rparr>) = Some B0" using B(4) by (simp add: ensure_request_id_body)
  ultimately obtain tw0 where
    "request_writer unused_probe ((?id req)\<lparr>r_Header := h\<rparr>) = Inr tw0"
    "request_head (toASCII env) (?req1\<lparr>r_Header := h\<rparr>) tw = request_head (toASCII env) ((?id req)\<lparr>r_Header := h\<rparr>) tw0"
    using request_writer_moved [OF _ _ f(2) [unfolded hd], of "toASCII env"] unfolding hd by blast
  moreover have parts: "r_TransferEncoding ?req1 = r_TransferEncoding (?id req)" "r_Header ?req1 = r_Header (?id req)"
    unfolding same by simp_all
  ultimately have "forwarded_as env inb (turn st) (req, d) (request_head (toASCII env) (?req1\<lparr>r_Header := h\<rparr>) tw @ payload)"
    using f(3) sent [unfolded parts(2)] parts unfolding forwarded_as_def Let_def fst_conv snd_conv
    by - (rule exI [of _ h1], rule exI [of _ h], intro exI [of _ tw0] exI [of _ payload] exI [of _ ctx], simp)
  note fwd = this
  let ?st' = "forward_request env inb w ?req1 ?st3"
  have "advances (reader st) (reader ?st')"
    using advances_ReadRequest [OF rd] forward_request_progress [OF body(1), of env inb w ?st3] B(3) advances_trans by simp
  then have "wf_bufr (reader ?st')" "at_end (reader ?st') = EOF" "cap (reader ?st') = cap (reader st)"
    using advances_wf [OF _ assms(5)] assms(6) by (simp_all add: advances_def)
  moreover have "isInbound (netRequest ?st') = inb" using assms(9) by (simp add: forward_request_keeps set_remote_def)
  ultimately show ?thesis
    using turn fwd f(1,4,7) assms(2,3)
    by (intro exI [of _ ?st'] exI [of _ "request_head (toASCII env) (?req1\<lparr>r_Header := h\<rparr>) tw @ payload"])
      (simp add: forward_request_keeps(1,2,3))
qed

fun all_indexed :: "(nat \<Rightarrow> 'a \<Rightarrow> bool) \<Rightarrow> nat \<Rightarrow> 'a list \<Rightarrow> bool" where
  "all_indexed P n [] = True"
| "all_indexed P n (x # xs) = (P n x \<and> all_indexed P (Suc n) xs)"

fun all2_indexed :: "(nat \<Rightarrow> 'a \<Rightarrow> 'b \<Rightarrow> bool) \<Rightarrow> nat \<Rightarrow> 'a list \<Rightarrow> 'b list \<Rightarrow> bool" where
  "all2_indexed P n (x # xs) (y # ys) = (P n x y \<and> all2_indexed P (Suc n) xs ys)"
| "all2_indexed P n xs ys = (xs = [] \<and> ys = [])"

lemma HandleRequest_pipeline:
  assumes "\<not> RoutingEnabled (http_config env)" "\<And>n nr. isInbound (other n nr) = isInbound nr"
    and "the_w st = Some w" "w < length (writers st)" "room (writers st ! w) = None"
    and "wf_bufr (reader st)" "at_end (reader st) = EOF" "isInbound (netRequest st) = inb"
    and "pipelined (cap (reader st)) (flat (reader st)) rds" "all_indexed (forwardable env) (turn st) rds"
  shows "\<exists>texts. out (writers (HandleRequest env other inb dst st) ! w) = out (writers st ! w) @ concat texts \<and>
     all2_indexed (forwarded_as env inb) (turn st) rds texts"
  using assms(3-)
proof (induction rds arbitrary: st)
  case Nil
  let ?st = "st\<lparr>netRequest := other (turn st) (netRequest st)\<rparr>"
  from Nil.prems(7) have "flat (reader ?st) = []" by simp
  with ReadRequest_end [of "reader ?st"] Nil.prems(4,5) obtain b where "ReadRequest (reader st) = (Inl EOF, b)" by auto
  then have "request_turn env inb dst ?st = Done (?st\<lparr>reader := b, tmpWriter := tee_reads (reader st) b (Start (tmpWriter st))\<rparr>)"
    by (simp add: request_turn_def)
  then have "writers (HandleRequest env other inb dst st) = writers st" by (subst HandleRequest.simps) simp
  then show ?case by (intro exI [of _ "[]"]) simp
next
  case (Cons rd rds)
  obtain req d where rd: "rd = (req, d)" by fastforce
  let ?st = "st\<lparr>netRequest := other (turn st) (netRequest st)\<rparr>"
  from Cons.prems(7) rd obtain rest where
    wire: "wire_request (cap (reader ?st)) (flat (reader ?st)) = Some (req, d, rest)" "pipelined (cap (reader st)) rest rds"
    by (auto split: option.splits)
  from request_turn_wire [OF assms(1), of ?st w req d rest inb dst] Cons.prems wire(1) rd assms(2) obtain st' bs where
    st': "request_turn env inb dst ?st = Again st'" "forwarded_as env inb (turn st) (req, d) bs"
      "out (writers st' ! w) = out (writers st ! w) @ bs" "the_w st' = Some w" "w < length (writers st')"
      "room (writers st' ! w) = None" "wf_bufr (reader st')" "at_end (reader st') = EOF"
      "cap (reader st') = cap (reader st)" "flat (reader st') = rest" "turn st' = Suc (turn st)"
      "isInbound (netRequest st') = inb"
    by auto
  from Cons.IH [of st'] st' wire(2) Cons.prems(8) obtain texts where
    "out (writers (HandleRequest env other inb dst st') ! w) = out (writers st' ! w) @ concat texts"
    "all2_indexed (forwarded_as env inb) (Suc (turn st)) rds texts" by auto
  moreover have "HandleRequest env other inb dst st = HandleRequest env other inb dst st'"
    using st'(1) by (subst HandleRequest.simps) simp
  ultimately show ?case using st'(2,3) rd by (intro exI [of _ "bs # texts"]) simp
qed

text \<open>
  (C3) A connection of pipelined requests is forwarded request by request. When the client's
  stream consists of well-framed requests, none of which asks for an upgrade or has trailer
  fields, then by the end of the loop the target has been sent, in the same order, one text for
  each of them and nothing else: its head and its body under its framing. On an inbound
  connection the head has the client's header with a request id; on an outbound connection it has
  all its fields, a source where the client named none, at most the trace context of an earlier
  request in the trace header, and the tracer's injection of a fresh context at most where there
  was none. This holds for every division of the stream into segments and for every effect of the
  response side on the shared queues.
\<close>
theorem pipelined_requests_forwarded:
  assumes "\<not> RoutingEnabled (http_config env)" and "\<And>n nr. isInbound (other n nr) = isInbound nr"
    and "the_w st = Some w" and "w < length (writers st)" and "room (writers st ! w) = None"
    and "wf_bufr (reader st)" and "at_end (reader st) = EOF" and "isInbound (netRequest st) = inb"
    and "pipelined (cap (reader st)) (flat (reader st)) rds" and "all_indexed (forwardable env) (turn st) rds"
  shows "\<exists>texts. out (writers (HandleRequest env other inb dst st) ! w) = out (writers st ! w) @ concat texts \<and>
     all2_indexed (forwarded_as env inb) (turn st) rds texts"
  using assms by (rule HandleRequest_pipeline)

definition wire_post :: bytes where
  "wire_post = ''POST / HTTP/1.1'' @ CRLF @ ''Content-Length: 2'' @ CRLF @ CRLF @ ''hi''"

definition post_before :: "bytes \<Rightarrow> Request" where
  "post_before rest = example_post\<lparr>r_Body := Some (TheBody (new_body
     (SrcLimited 2 (NewReaderSize 4095 [''hi'' @ rest] EOF)) False False))\<rparr>"

lemma wire_post_request: "wire_request 4095 (wire_post @ rest) = Some (post_before rest, ''hi'', rest)"
proof -
  let ?s1 = "''Content-Length: 2'' @ CRLF @ CRLF @ ''hi'' @ rest"
  have line: "ReadLine (wire_post @ rest) = Some (''POST / HTTP/1.1'', ?s1)"
    using ReadLine_CRLF [of "''POST / HTTP/1.1''" ?s1] by (simp add: wire_post_def LF_def)
  have r2: "read_fields m (CRLF @ ''hi'' @ rest) = (None, m, ''hi'' @ rest)" for m
    by (subst read_fields.simps, simp only: readContinuedLine_end option.case prod.case) simp
  have l1: "readContinuedLine ?s1 = Some (''Content-Length: 2'', CRLF @ ''hi'' @ rest)"
    using readContinuedLine_plain [of "''Content-Length: 2''" "CRLF @ ''hi'' @ rest"]
    by (simp add: LF_def CRLF_def CR_def is_blank_def trim_blank_def)
  have "read_fields [] ?s1 = (None, [(''Content-Length'', [''2''])], ''hi'' @ rest)"
    by (subst read_fields.simps, simp only: l1 option.case prod.case)
      (simp add: r2 [simplified] Let_def canonical_ids field_values_def is_blank_def)
  then have hdr: "ReadMIMEHeader ?s1 = (None, [(''Content-Length'', [''2''])], ''hi'' @ rest)"
    by (simp add: ReadMIMEHeader_def is_blank_def)
  have comp: "complete_lines ?s1 (''hi'' @ rest)"
    unfolding complete_lines_iff by (intro exI [of _ "''Content-Length: 2'' @ CRLF @ [CR]"]) (simp add: CRLF_def)
  have tr: "TrimSpace ''2'' = ''2''" by (rule TrimSpace_graphic) (simp add: graphic_def)
  have pc: "parseContentLength ''2'' = Inr 2"
    by (simp add: parseContentLength_def tr ParseInt64_def ParseUint_def is_digit_def digit_val_def)
  have fin: "finish_request True (''POST'', ''/'', ''HTTP/1.1'', 1, 1, empty_URL\<lparr>Path := ''/''\<rparr>)
      [(''Content-Length'', [''2''])] (NewReaderSize 4095 [''hi'' @ rest] EOF) = Inr (post_before rest)"
    by (simp add: finish_request_def fixPragmaCacheControl_def shouldClose_def readTransfer_def rbind_def
        fixTransferEncoding_def fixLength_def dedup_length_def field_values_def noResponseBodyExpected_def
        chunked_def fixTrailer_def Add_def Del_def canonical_ids Let_def tr pc choose_body_def example_post_def
        post_before_def new_body_def isH2Upgrade_def get_def hasToken_def empty_URL_def)
  have body: "r_Body (post_before rest) = Some (TheBody (new_body (SrcLimited 2 (NewReaderSize 4095 [''hi'' @ rest] EOF)) False False))"
    by (simp add: post_before_def)
  have m: "Body_meaning (TheBody (new_body (SrcLimited 2 (NewReaderSize 4095 [''hi'' @ rest] EOF)) False False)) = (''hi'', EOF, rest)"
      "wf_Body (TheBody (new_body (SrcLimited 2 (NewReaderSize 4095 [''hi'' @ rest] EOF)) False False))"
    by (simp_all add: wf_body_def new_body_def wf_bufr_def meaning_def flat_def NewReaderSize_def)
  show ?thesis
    unfolding wire_request_def line option.case prod.case post_line sum.case hdr fin body m
    using comp m(2) by simp
qed

definition example_connection :: "bool \<Rightarrow> (nat, nat) handler" where
  "example_connection inb = (example_handler
     [''POST / HT'', ''TP/1.1'' @ CRLF @ ''Content-Length: 2'' @ CRLF @ CRLF @ ''hiPOS'',
      ''T / HTTP/1.1'' @ CRLF @ ''Content-Length: 2'' @ CRLF @ CRLF @ ''h'', ''i''])
    \<lparr>netRequest := NewNetHTTPRequest inb (cache_New 0) 0\<rparr>"

theorem pipelined_requests_forwarded_witness:
  "\<forall>inb. \<exists>t1 t2. out (writers (HandleRequest example_env (\<lambda>n nr. nr) inb ''d:1'' (example_connection inb)) ! 0) = t1 @ t2 \<and>
     forwarded_as example_env inb 0 (post_before wire_post, ''hi'') t1 \<and>
     forwarded_as example_env inb 1 (post_before [], ''hi'') t2"
proof
  fix inb :: bool
  let ?st = "example_connection inb"
  let ?rds = "[(post_before wire_post, ''hi''), (post_before [], ''hi'')]"
  have fl: "flat (reader ?st) = wire_post @ wire_post" "cap (reader ?st) = 4095"
    by (simp_all add: example_connection_def example_handler_def NewReaderSize_def flat_def wire_post_def)
  have pipe: "pipelined (cap (reader ?st)) (flat (reader ?st)) ?rds"
    using wire_post_request [of wire_post] wire_post_request [of "[]"] unfolding fl by simp
  have fw: "forwardable example_env n (post_before rest, ''hi'')" for n rest
    by (simp add: forwardable_def post_before_def example_post_def ensure_request_id_def example_env_def example_config_def
        Get_def get_def field_values_def Set_def canonical_ids ToLower.simps)
  have set: "\<not> RoutingEnabled (http_config example_env)" "the_w ?st = Some 0" "0 < length (writers ?st)"
      "room (writers ?st ! 0) = None" "wf_bufr (reader ?st)" "at_end (reader ?st) = EOF"
      "isInbound (netRequest ?st) = inb" "turn ?st = 0" "out (writers ?st ! 0) = []"
    by (simp_all add: example_connection_def example_env_def example_config_def example_handler_def buffer_def
        NewNetHTTPRequest_def wf_bufr_def NewReaderSize_def)
  have "all_indexed (forwardable example_env) (turn ?st) ?rds" using fw by simp
  from pipelined_requests_forwarded [OF set(1) _ set(2-7) pipe this, of "\<lambda>n nr. nr" "''d:1''"]
  obtain texts where out: "out (writers (HandleRequest example_env (\<lambda>n nr. nr) inb ''d:1'' ?st) ! 0) = concat texts"
    and a: "all2_indexed (forwarded_as example_env inb) 0 ?rds texts" using set(8,9) by auto
  from a obtain t1 t2 where "texts = [t1, t2]"
    by (cases texts; cases "tl texts"; cases "tl (tl texts)") auto
  with out a show "\<exists>t1 t2. out (writers (HandleRequest example_env (\<lambda>n nr. nr) inb ''d:1'' ?st) ! 0) = t1 @ t2 \<and>
     forwarded_as example_env inb 0 (post_before wire_post, ''hi'') t1 \<and>
     forwarded_as example_env inb 1 (post_before [], ''hi'') t2" by auto
qed

end
