(* ===== verification/ReadBack.thy ===== *)
theory ReadBack
  imports Pipeline
begin

text \<open>
  What the proxy writes for a request is read by the next server as the same request: same method,
  target, host and body, and the same header fields but for those that the proxy is in charge of.
\<close>

section \<open>The text of a forwarded request\<close>

definition clean_header :: "Header \<Rightarrow> bool" where
  \<comment> \<open>a header whose fields survive being written: canonical names, values without line breaks
     and surrounding blanks, \<open>Pragma: no-cache\<close> spelled out\<close>
  "clean_header h \<longleftrightarrow> wf_header h \<and> list_all good_field h \<and>
     list_all (\<lambda>kv. map wire_value (snd kv) = snd kv) h \<and> fixPragmaCacheControl h = h"

definition clean_request :: "(string \<Rightarrow> string option) \<Rightarrow> Request \<Rightarrow> bool" where
  "clean_request toA r \<longleftrightarrow> clean_header (r_Header r) \<and> \<not> r_Close r \<and> r_Trailer r = None \<and>
     write_host toA r = r_Host r \<and> r_Host r \<noteq> '''' \<and> wire_value (r_Host r) = r_Host r \<and>
     wire_value (user_agent (r_Header r)) = user_agent (r_Header r) \<and>
     (r_Method r = ''HEAD'' \<longrightarrow> r_TransferEncoding r = []) \<and>
     HasPrefix (r_RequestURI r) ''/'' \<and> validEncodedPath (target_path (r_RequestURI r))"

definition framing_of :: "Request \<Rightarrow> Body \<Rightarrow> Header" where
  "framing_of r B =
     (if r_TransferEncoding r \<noteq> [] then [(''Transfer-Encoding'', [''chunked''])]
      else case B of
        NoBody b \<Rightarrow> if r_Method r = ''POST'' \<or> r_Method r = ''PUT'' then [(''Content-Length'', [Itoa 0])] else []
      | _ \<Rightarrow> [(''Content-Length'', [Itoa (r_ContentLength r)])])"

definition own_fields :: "Request \<Rightarrow> Body \<Rightarrow> Header" where
  \<comment> \<open>the fields written from the request itself\<close>
  "own_fields r B =
     [(''Host'', [r_Host r])] @
     (if user_agent (r_Header r) \<noteq> '''' then [(''User-Agent'', [user_agent (r_Header r)])] else []) @
     framing_of r B"

lemma framing_of_cases:
  obtains "framing_of r B = []" | "framing_of r B = [(''Transfer-Encoding'', [''chunked''])]"
  | n where "framing_of r B = [(''Content-Length'', [Itoa n])]"
proof -
  have "framing_of r B = [] \<or> framing_of r B = [(''Transfer-Encoding'', [''chunked''])] \<or>
      (\<exists>n. framing_of r B = [(''Content-Length'', [Itoa n])])"
    by (cases B) (simp_all add: framing_of_def)
  with that show ?thesis by blast
qed

lemma framing_fields_framed:
  assumes "framed r B" "\<not> r_Close r" "r_Trailer r = None" "r_Method r \<noteq> ''''"
  shows "framing_fields (framed_writer r B) = concat (map (\<lambda>kv. map (Pair (fst kv)) (snd kv)) (framing_of r B))"
proof (cases "r_TransferEncoding r = []")
  case True
  with assms show ?thesis
    by (cases B)
      (auto simp: framed_def framed_writer_def framing_fields_def sanitize_def shouldSendContentLength_def chunked_def
        outgoingLength_def valueOrDefault_def isIdentity_def framing_of_def Let_def)
next
  case False
  with assms have te: "r_TransferEncoding r = [''chunked'']" by (auto simp: framed_def)
  then have "TransferEncoding (framed_writer r B) = [''chunked'']" "Close (framed_writer r B) = r_Close r"
    "Trailer (framed_writer r B) = r_Trailer r"
    by (simp_all add: framed_writer_def sanitize_def chunked_def Let_def)
  with te assms(2,3) show ?thesis
    by (simp add: framing_fields_def shouldSendContentLength_def framing_of_def chunked_def)
qed

lemma own_names:
  "list_all IsTokenRune ''Host''" "list_all IsTokenRune ''User-Agent''" "list_all IsTokenRune ''Transfer-Encoding''"
  "list_all IsTokenRune ''Content-Length''" "CanonicalHeaderKey ''Host'' = ''Host''"
  "CanonicalHeaderKey ''User-Agent'' = ''User-Agent''" "CanonicalHeaderKey ''Transfer-Encoding'' = ''Transfer-Encoding''"
  by code_simp+

lemma good_names:
  "good_field (''Host'', [v])" "good_field (''User-Agent'', [v])" "good_field (''Transfer-Encoding'', [v])"
  "good_field (''Content-Length'', [v])"
  unfolding good_field_def by (simp_all only: fst_conv snd_conv own_names canonical_ids) simp_all

lemma good_own_fields:
  "list_all good_field (own_fields r B)" "distinct (map fst (own_fields r B))"
  "fst ` set (own_fields r B) \<subseteq> {''Host'', ''User-Agent'', ''Transfer-Encoding'', ''Content-Length''}"
proof -
  show "list_all good_field (own_fields r B)"
    by (rule framing_of_cases [of r B]) (simp_all add: own_fields_def good_names)
  show "distinct (map fst (own_fields r B))"
    by (rule framing_of_cases [of r B]) (simp_all add: own_fields_def)
  show "fst ` set (own_fields r B) \<subseteq> {''Host'', ''User-Agent'', ''Transfer-Encoding'', ''Content-Length''}"
    by (rule framing_of_cases [of r B]) (simp_all add: own_fields_def image_subset_iff)
qed

lemma fields_text:
  "list_all (\<lambda>kv. map wire_value (snd kv) = snd kv) kvs \<Longrightarrow>
   concat (concat (map field_writes kvs)) = concat (map field_text (concat (map (\<lambda>kv. map (Pair (fst kv)) (snd kv)) kvs)))"
proof (induction kvs)
  case (Cons kv kvs)
  obtain k vv where kv: "kv = (k, vv)" by fastforce
  have "concat (map (field_line k) vv) = concat (map field_text (map (Pair k) vv))" if "map wire_value vv = vv" for vv
    using that by (induction vv) (simp_all add: field_line_def field_text_def)
  with Cons kv show ?case by (simp add: concat_field_writes)
qed simp

lemma wire_value_graphic: "\<forall>c \<in> set s. \<not> Headers.isASCIISpace c \<Longrightarrow> wire_value s = s"
proof -
  assume s: "\<forall>c \<in> set s. \<not> Headers.isASCIISpace c"
  then have "headerNewlineToSpace s = s"
    unfolding headerNewlineToSpace_def by (intro map_idI) (auto simp: Headers.isASCIISpace_def)
  moreover
  have "dropWhile Headers.isASCIISpace t = t" if "\<forall>c \<in> set t. \<not> Headers.isASCIISpace c" for t
    using that by (cases t) simp_all
  from this [of s] this [of "rev s"] s have "dropWhile Headers.isASCIISpace s = s" "dropWhile Headers.isASCIISpace (rev s) = rev s"
    by simp_all
  ultimately show ?thesis by (simp add: wire_value_def TrimString_def)
qed

lemma wire_value_Itoa: "wire_value (Itoa i) = Itoa i"
proof (rule wire_value_graphic)
  have "\<not> (is_digit c \<or> c = CHR ''-'')" if "Headers.isASCIISpace c" for c
    using that unfolding Headers.isASCIISpace_def is_blank_def LF_def CR_def
    by (elim disjE) (simp_all add: is_digit_def)
  then show "\<forall>c \<in> set (Itoa i). \<not> Headers.isASCIISpace c" using Itoa_chars by blast
qed

lemma own_fields_wire:
  assumes "clean_request toA r"
  shows "list_all (\<lambda>kv. map wire_value (snd kv) = snd kv) (own_fields r B)"
proof -
  have "wire_value ''chunked'' = ''chunked''"
    by (simp add: wire_value_def headerNewlineToSpace_def TrimString_def Headers.isASCIISpace_def is_blank_def LF_def CR_def)
  with assms show ?thesis
    by (cases rule: framing_of_cases [of r B]) (simp_all add: own_fields_def clean_request_def wire_value_Itoa)
qed

lemma head_text:
  assumes "framed r B" "clean_request toA r" "r_Method r \<noteq> ''''"
  shows "concat (map field_text (head_fields toA r (framed_writer r B))) =
     concat (concat (map field_writes (own_fields r B @ sortedKeyValues reqWriteExcludeHeader (r_Header r))))"
proof -
  have c: "\<not> r_Close r" "r_Trailer r = None" using assms(2) by (simp_all add: clean_request_def)
  have "head_fields toA r (framed_writer r B) =
      concat (map (\<lambda>kv. map (Pair (fst kv)) (snd kv)) (own_fields r B)) @ subset_fields reqWriteExcludeHeader (r_Header r)"
    unfolding head_fields_def framing_fields_framed [OF assms(1) c assms(3)]
    using assms(2) by (simp add: own_fields_def clean_request_def)
  then show ?thesis
    using fields_text [OF own_fields_wire [OF assms(2)]] subset_fields_text [of reqWriteExcludeHeader "r_Header r"] by simp
qed

section \<open>Reading it back\<close>

lemma map_of_clean:
  "list_all (\<lambda>kv. map wire_value (snd kv) = snd kv) kvs \<Longrightarrow> map (\<lambda>(k, vv). (k, map wire_value vv)) kvs = kvs"
  by (induction kvs) auto

lemma read_forwarded_header:
  assumes "framed r B" "clean_request toA r" "r_Method r \<noteq> ''''"
  obtains m where "ReadMIMEHeader (concat (map field_text (head_fields toA r (framed_writer r B))) @ CRLF @ rest) = (None, m, rest)"
    "\<And>k. map_of m k = (if reqWriteExcludeHeader k then map_of (own_fields r B) k else map_of (r_Header r) k)"
proof -
  let ?h = "sortedKeyValues reqWriteExcludeHeader (r_Header r)"
  let ?kvs = "own_fields r B @ ?h"
  have set_h: "set ?h = {kv \<in> set (r_Header r). \<not> reqWriteExcludeHeader (fst kv)}" by (auto simp: sortedKeyValues_def)
  have clean: "wf_header (r_Header r)" "list_all good_field (r_Header r)"
      "list_all (\<lambda>kv. map wire_value (snd kv) = snd kv) (r_Header r)"
    using assms(2) by (simp_all add: clean_request_def clean_header_def)
  have own_ex: "reqWriteExcludeHeader k" if "k \<in> fst ` set (own_fields r B)" for k
    using good_own_fields(3) [of r B] that by (auto simp: reqWriteExcludeHeader_def)
  have good: "list_all good_field ?kvs" using good_own_fields(1) clean(2) set_h by (auto simp: list_all_iff)
  have dist_h: "distinct (map fst ?h)"
    using clean(1) by (auto simp: wf_header_def sortedKeyValues_def distinct_map inj_on_def)
  have "fst ` set (own_fields r B) \<inter> fst ` set ?h = {}" using own_ex set_h by force
  with good_own_fields(2) [of r B] dist_h have dist: "distinct (map fst ?kvs)" by simp
  have wire: "list_all (\<lambda>kv. map wire_value (snd kv) = snd kv) ?kvs"
    using own_fields_wire [OF assms(2)] clean(3) set_h by (auto simp: list_all_iff)
  from read_fields_written [OF good dist, of "[]" rest] obtain m where
    m: "read_fields [] (concat (concat (map field_writes ?kvs)) @ CRLF @ rest) = (None, m, rest)" "map_of m = map_of ?kvs"
    unfolding map_of_clean [OF wire] by auto
  show ?thesis
  proof (rule that)
    show "ReadMIMEHeader (concat (map field_text (head_fields toA r (framed_writer r B))) @ CRLF @ rest) = (None, m, rest)"
      unfolding head_text [OF assms] using m(1) fields_hd [OF good, of rest] by (auto simp: ReadMIMEHeader_def)
    fix k
    have "map_of ?h k = (if reqWriteExcludeHeader k then None else map_of (r_Header r) k)"
    proof -
      have "map_of ?h k = Some vv \<longleftrightarrow> \<not> reqWriteExcludeHeader k \<and> map_of (r_Header r) k = Some vv" for vv
        using clean(1) dist_h set_h by (auto simp: wf_header_def)
      then show ?thesis by (metis option.exhaust)
    qed
    moreover have "map_of (own_fields r B) k = None" if "\<not> reqWriteExcludeHeader k"
      using own_ex that by (metis map_of_eq_None_iff)
    ultimately show "map_of m k = (if reqWriteExcludeHeader k then map_of (own_fields r B) k else map_of (r_Header r) k)"
      unfolding m(2) by (auto simp: map_add_def split: option.split)
  qed
qed

lemma TrimSpace_chunked: "TrimSpace ''chunked'' = ''chunked''"
  by (rule TrimSpace_graphic) (simp add: graphic_def)

lemma readTransfer_chunked:
  assumes "map_of h ''Transfer-Encoding'' = Some [''chunked'']" "map_of h ''Trailer'' = None" "meth \<noteq> ''HEAD''"
  shows "readTransfer False 200 meth 1 1 c h b = Inr \<lparr>t_Header = AList.delete ''Content-Length'' (AList.delete ''Transfer-Encoding'' h),
     t_Body = choose_body meth 200 [''chunked''] (- 1) c None b, t_ContentLength = - 1, t_TransferEncoding = [''chunked''],
     t_Close = c, t_Trailer = None\<rparr>"
proof -
  have "encodings [] (Split ''chunked'' (CHR '','')) = Inr [''chunked'']"
    by (simp add: TrimSpace_chunked ToLower.simps HasPrefix_def lower_ascii_def char_eval)
  then have te: "fixTransferEncoding 1 1 h = Inr (AList.delete ''Content-Length'' (AList.delete ''Transfer-Encoding'' h), [''chunked''])"
    using assms(1) by (simp add: fixTransferEncoding_def protoAtLeast_def)
  have len: "fixLength False 200 meth (AList.delete ''Content-Length'' (AList.delete ''Transfer-Encoding'' h)) [''chunked''] =
      Inr (- 1, AList.delete ''Content-Length'' (AList.delete ''Transfer-Encoding'' h))"
    using assms(3) by (simp add: fixLength_def dedup_length_def field_values_def delete_conv' noResponseBodyExpected_def chunked_def)
  have tr: "fixTrailer (AList.delete ''Content-Length'' (AList.delete ''Transfer-Encoding'' h)) [''chunked''] =
      Inr (None, AList.delete ''Content-Length'' (AList.delete ''Transfer-Encoding'' h))"
    using assms(2) by (simp add: fixTrailer_def delete_conv')
  show ?thesis by (simp add: readTransfer_def te len tr)
qed

lemma readTransfer_length:
  assumes "map_of h ''Transfer-Encoding'' = None" "map_of h ''Content-Length'' = Some [Itoa n]" "map_of h ''Trailer'' = None"
    "meth \<noteq> ''HEAD''" "0 \<le> n" "n < 2 ^ 63"
  shows "readTransfer False 200 meth 1 1 c h b = Inr \<lparr>t_Header = h, t_Body = choose_body meth 200 [] n c None b,
     t_ContentLength = n, t_TransferEncoding = [], t_Close = c, t_Trailer = None\<rparr>"
proof -
  have "graphic c" if "c \<in> set (Itoa n)" for c
    using Itoa_chars [OF that] by (auto simp: graphic_def is_digit_def)
  then have tr: "TrimSpace (Itoa n) = Itoa n" by (intro TrimSpace_graphic) simp_all
  have "parseContentLength (Itoa n) = Inr n"
    using assms(5,6) by (simp add: parseContentLength_def tr ParseInt64_Itoa)
  with assms show ?thesis
    by (simp add: readTransfer_def fixTransferEncoding_def fixLength_def dedup_length_def field_values_def
        noResponseBodyExpected_def chunked_def fixTrailer_def tr)
qed

lemma readTransfer_no_body:
  assumes "map_of h ''Transfer-Encoding'' = None" "map_of h ''Content-Length'' = None" "map_of h ''Trailer'' = None"
  shows "\<exists>h'. map_of h' = map_of h \<and> readTransfer False 200 meth 1 1 c h b = Inr \<lparr>t_Header = h', t_Body = NoBody b,
     t_ContentLength = 0, t_TransferEncoding = [], t_Close = c, t_Trailer = None\<rparr>"
proof -
  have "map_of (Del ''Content-Length'' h) = map_of h"
    using assms(2) by (auto simp: Del_def canonical_ids delete_conv' fun_eq_iff)
  with assms show ?thesis
    by (cases "meth = ''HEAD''")
      (simp_all add: readTransfer_def fixTransferEncoding_def fixLength_def dedup_length_def field_values_def
        noResponseBodyExpected_def chunked_def fixTrailer_def choose_body_def)
qed

lemma first_line_back:
  assumes "parse_first_line line = Inr (meth, uri, proto, major, minor, u)"
  shows "parse_first_line (meth @ '' '' @ uri @ '' HTTP/1.1'') = Inr (meth, uri, ''HTTP/1.1'', 1, 1, u) \<and>
    meth \<noteq> [] \<and> set meth \<subseteq> set line \<and> set uri \<subseteq> set line \<and> parse_target meth uri = Inr u"
proof -
  from assms obtain pr: "parseRequestLine line = Some (meth, uri, proto)" and vm: "validMethod meth"
    and pt: "parse_target meth uri = Inr u"
    by (auto simp: parse_first_line_def rbind_Inr_iff split: option.splits if_splits prod.splits)
  from pr obtain i j where ij: "Index (CHR '' '') line = Some i" "Index (CHR '' '') (drop (Suc i) line) = Some j"
    "meth = take i line" "uri = take j (drop (Suc i) line)"
    by (auto simp: parseRequestLine_def split: option.splits)
  then have sp: "CHR '' '' \<notin> set meth" "CHR '' '' \<notin> set uri"
    by (auto simp: Index_Some_iff in_set_conv_nth)
  have "Index (CHR '' '') (meth @ CHR '' '' # x) = Some (length meth)"
    "Index (CHR '' '') (uri @ CHR '' '' # x) = Some (length uri)" for x
    using sp by (simp_all add: Index_append_notin)
  then have "parseRequestLine (meth @ '' '' @ uri @ '' HTTP/1.1'') = Some (meth, uri, ''HTTP/1.1'')"
    by (simp add: parseRequestLine_def)
  with vm pt have "parse_first_line (meth @ '' '' @ uri @ '' HTTP/1.1'') = Inr (meth, uri, ''HTTP/1.1'', 1, 1, u)"
    by (simp add: parse_first_line_def ParseHTTPVersion_def)
  moreover have "meth \<noteq> []" using vm by (auto simp: validMethod_def)
  moreover have "set meth \<subseteq> set line" "set uri \<subseteq> set line"
    unfolding ij(3,4) by (meson set_take_subset set_drop_subset order_trans)+
  ultimately show ?thesis using pt by blast
qed

lemma wire_request_line:
  assumes "wire_request c s = Some (req, d, rest)"
  shows "parse_first_line (r_Method req @ '' '' @ r_RequestURI req @ '' HTTP/1.1'') =
      Inr (r_Method req, r_RequestURI req, ''HTTP/1.1'', 1, 1, r_URL req)"
    "r_Method req \<noteq> []" "LF \<notin> set (r_Method req)" "LF \<notin> set (r_RequestURI req)"
    "parse_target (r_Method req) (r_RequestURI req) = Inr (r_URL req)"
proof -
  obtain line s1 l header s2 where w: "ReadLine s = Some (line, s1)" "parse_first_line line = Inr l"
    "ReadMIMEHeader s1 = (None, header, s2)" "finish_request True l header (NewReaderSize c [s2] EOF) = Inr req"
    using assms by (auto simp: wire_request_def split: option.splits sum.splits prod.splits if_splits)
  obtain meth uri proto major minor u where l: "l = (meth, uri, proto, major, minor, u)"
    by (metis surj_pair)
  from w(4) have eq: "r_Method req = meth" "r_RequestURI req = uri" "r_URL req = u"
    by (auto simp: l finish_request_def Let_def rbind_Inr_iff split: prod.splits if_splits)
  have "s1 \<noteq> []" using w(3) by (auto simp: ReadMIMEHeader_def read_fields.simps readContinuedLine_def ReadLine_def)
  with w(1) obtain i where "Index LF s = Some i" "line = drop_cr (take i s)"
    by (auto simp: ReadLine_def split: if_splits option.splits)
  moreover from this(1) have "LF \<notin> set (take i s)" by (auto simp: Index_Some_iff in_set_conv_nth)
  ultimately have "LF \<notin> set line" by (auto simp: drop_cr_def dest: in_set_butlastD split: if_splits)
  with first_line_back [OF w(2) [unfolded l]] eq show
    "parse_first_line (r_Method req @ '' '' @ r_RequestURI req @ '' HTTP/1.1'') =
      Inr (r_Method req, r_RequestURI req, ''HTTP/1.1'', 1, 1, r_URL req)"
    "r_Method req \<noteq> []" "LF \<notin> set (r_Method req)" "LF \<notin> set (r_RequestURI req)"
    "parse_target (r_Method req) (r_RequestURI req) = Inr (r_URL req)" by auto
qed

lemma fixPragma_iff:
  "fixPragmaCacheControl h = h \<longleftrightarrow>
   (\<forall>vs. map_of h ''Pragma'' = Some (''no-cache'' # vs) \<longrightarrow> map_of h ''Cache-Control'' \<noteq> None)"
proof -
  have "AList.update ''Cache-Control'' v h \<noteq> h" if "map_of h ''Cache-Control'' = None" for v
  proof
    assume "AList.update ''Cache-Control'' v h = h"
    then have "map_of (AList.update ''Cache-Control'' v h) ''Cache-Control'' = None" using that by simp
    then show False by (simp add: update_conv')
  qed
  then show ?thesis by (auto simp: fixPragmaCacheControl_def split: option.splits list.splits)
qed

definition same_request :: "Request \<Rightarrow> Request \<Rightarrow> bool" where
  "same_request r r' \<longleftrightarrow> r_Method r' = r_Method r \<and> r_RequestURI r' = r_RequestURI r \<and> r_URL r' = r_URL r \<and>
     r_Host r' = r_Host r \<and> r_TransferEncoding r' = r_TransferEncoding r \<and> r_Trailer r' = None \<and>
     (\<forall>k. \<not> reqWriteExcludeHeader k \<longrightarrow> map_of (r_Header r') k = map_of (r_Header r) k) \<and>
     map_of (r_Header r') ''User-Agent'' =
       (if user_agent (r_Header r) = '''' then None else Some [user_agent (r_Header r)])"

lemma body_back_limited:
  assumes "wf_bufr b" "flat b = d @ rest" "d \<noteq> []"
  shows "Body_meaning (choose_body meth 200 [] (int (length d)) c None b) = (d, EOF, rest) \<and>
    wf_Body (choose_body meth 200 [] (int (length d)) c None b)"
  using assms by (auto simp: choose_body_def chunked_def meaning_def wf_body_def)

lemma body_back_chunked:
  assumes "wf_bufr b" "flat b = payload @ rest" "cap b \<ge> 18" "meth \<noteq> ''HEAD''" "delivers [''chunked''] payload d"
  shows "Body_meaning (choose_body meth 200 [''chunked''] n c None b) = (d, EOF, rest) \<and>
    wf_Body (choose_body meth 200 [''chunked''] n c None b)"
proof -
  have "chunked_decode (cap b) (at_end b) (flat b) = (d, EOF, CRLF @ rest)"
    using assms by (simp add: delivers_def)
  then have "pending (NewChunkedReader b) = (d, EOF, CRLF @ rest)"
    by (simp add: pending_def NewChunkedReader_def)
  with assms show ?thesis
    by (simp add: choose_body_def chunked_def meaning_def wf_body_def noResponseBodyExpected_def bodyAllowedForStatus_def
        cr_inv_def NewChunkedReader_def no_trailer_def after_chunks_def CRLF_def)
qed

text \<open>What \<open>finish_request\<close> makes of the fields of a forwarded request.\<close>

lemma finish_forwarded:
  assumes "framed r B" "clean_request toA r" "r_Method r \<noteq> ''''" "URL_Host (r_URL r) = ''''"
    and m: "\<And>k. map_of m k = (if reqWriteExcludeHeader k then map_of (own_fields r B) k else map_of (r_Header r) k)"
    and "wf_Body B" "Body_meaning B = (d, EOF, rest0)" "length d < 2 ^ 63" "delivers (r_TransferEncoding r) payload d"
    and "wf_bufr b" "18 \<le> cap b" "flat b = payload @ rest" "r_Method r = ''HEAD'' \<longrightarrow> (\<exists>b0. B = NoBody b0)"
  shows "\<exists>r' B'. finish_request True (r_Method r, r_RequestURI r, ''HTTP/1.1'', 1, 1, r_URL r) m b = Inr r' \<and>
     r_Body r' = Some B' \<and> Body_meaning B' = (d, EOF, rest) \<and> wf_Body B' \<and> same_request r r'"
proof -
  let ?h = "AList.delete ''Host'' m"
  have host: "get m ''Host'' = r_Host r"
    using m [of "''Host''"] by (simp add: get_def field_values_def own_fields_def reqWriteExcludeHeader_def)
  have h: "map_of ?h k = (if k = ''Host'' then None else map_of m k)" for k by (simp add: delete_conv')
  have "fixPragmaCacheControl (r_Header r) = r_Header r" using assms(2) by (simp add: clean_request_def clean_header_def)
  then have prag: "fixPragmaCacheControl ?h = ?h"
    unfolding fixPragma_iff by (simp add: h m reqWriteExcludeHeader_def)
  obtain c where sc: "shouldClose 1 1 ?h False = (c, ?h)" by (auto simp: shouldClose_def Let_def)
  have te: "map_of ?h ''Transfer-Encoding'' = map_of (framing_of r B) ''Transfer-Encoding''"
    and cl: "map_of ?h ''Content-Length'' = map_of (framing_of r B) ''Content-Length''"
    by (simp_all add: h m reqWriteExcludeHeader_def own_fields_def)
  have trl: "map_of ?h ''Trailer'' = None"
    by (rule framing_of_cases [of r B]) (simp_all add: h m reqWriteExcludeHeader_def own_fields_def)
  have ua: "map_of ?h ''User-Agent'' = (if user_agent (r_Header r) = '''' then None else Some [user_agent (r_Header r)])"
    by (rule framing_of_cases [of r B]) (simp_all add: h m reqWriteExcludeHeader_def own_fields_def)
  have read: "\<exists>r' B'. finish_request True (r_Method r, r_RequestURI r, ''HTTP/1.1'', 1, 1, r_URL r) m b = Inr r' \<and>
       r_Body r' = Some B' \<and> Body_meaning B' = (d, EOF, rest) \<and> wf_Body B' \<and> same_request r r'"
    if "readTransfer False 200 (r_Method r) 1 1 c ?h b = Inr t" "t_TransferEncoding t = r_TransferEncoding r" "t_Trailer t = None"
      "\<And>k. k \<noteq> ''Content-Length'' \<Longrightarrow> k \<noteq> ''Transfer-Encoding'' \<Longrightarrow> map_of (t_Header t) k = map_of ?h k"
      "Body_meaning (t_Body t) = (d, EOF, rest)" "wf_Body (t_Body t)" for t
    using that assms(4) host prag sc m ua
    by (auto simp: finish_request_def Let_def isH2Upgrade_def same_request_def h reqWriteExcludeHeader_def)
  show ?thesis
  proof (cases "r_TransferEncoding r = []")
    case False
    then have "r_TransferEncoding r = [''chunked'']" using assms(1) by (auto simp: framed_def)
    moreover from False have "map_of ?h ''Transfer-Encoding'' = Some [''chunked'']" unfolding te by (simp add: framing_of_def)
    moreover from False have "r_Method r \<noteq> ''HEAD''" using assms(2) by (auto simp: clean_request_def)
    ultimately show ?thesis
      using body_back_chunked [OF assms(10,12,11), of "r_Method r" d "- 1" c] assms(9)
      by (intro read [OF readTransfer_chunked [OF _ trl]]) (simp_all add: delete_conv')
  next
    case True
    then have pd: "payload = d" using assms(9) by (simp add: delivers_def)
    have te0: "map_of ?h ''Transfer-Encoding'' = None"
      unfolding te using True by (cases B) (simp_all add: framing_of_def)
    show ?thesis
    proof (cases "map_of ?h ''Content-Length''")
      case None
      then have "\<exists>b0. B = NoBody b0" unfolding cl using True assms(1) by (cases B) (auto simp: framing_of_def framed_def)
      then have "d = []" using assms(7) by auto
      moreover from readTransfer_no_body [OF te0 None trl, of "r_Method r" c b] obtain h' where
        h': "map_of h' = map_of ?h" and rt: "readTransfer False 200 (r_Method r) 1 1 c ?h b = Inr \<lparr>t_Header = h', t_Body = NoBody b,
           t_ContentLength = 0, t_TransferEncoding = [], t_Close = c, t_Trailer = None\<rparr>" by blast
      ultimately show ?thesis using True pd assms(12) h' by (intro read [OF rt]) simp_all
    next
      case (Some vv)
      have nH: "r_Method r \<noteq> ''HEAD''"
        using Some assms(13) True unfolding cl by (auto simp: framing_of_def)
      have n: "vv = [Itoa (int (length d))]"
      proof (cases B)
        case (TheBody bd)
        with assms(1) True obtain b0 where "0 < r_ContentLength r" "b_src bd = SrcLimited (r_ContentLength r) b0"
          by (auto simp: framed_def)
        with assms(6,7) TheBody have "int (length d) = r_ContentLength r"
          by (auto simp: meaning_def wf_body_def split: if_splits)
        with Some TheBody True show ?thesis unfolding cl by (simp add: framing_of_def)
      qed (use Some True assms(6,7) cl in \<open>auto simp: framing_of_def split: if_splits\<close>)
      have rt: "readTransfer False 200 (r_Method r) 1 1 c ?h b = Inr \<lparr>t_Header = ?h, t_Body = choose_body (r_Method r) 200 []
          (int (length d)) c None b, t_ContentLength = int (length d), t_TransferEncoding = [], t_Close = c, t_Trailer = None\<rparr>"
        using assms(8) by (intro readTransfer_length [OF te0 Some [unfolded n] trl nH]) simp_all
      show ?thesis
      proof (cases "d = []")
        case True
        with True pd assms(12) \<open>r_TransferEncoding r = []\<close> show ?thesis
          by (intro read [OF rt]) (simp_all add: choose_body_def chunked_def)
      next
        case False
        with \<open>r_TransferEncoding r = []\<close> pd body_back_limited [OF assms(10), of d rest "r_Method r" c] assms(12) show ?thesis
          by (intro read [OF rt]) simp_all
      qed
    qed
  qed
qed

lemma wire_request_body:
  assumes "wire_request c s = Some (req, d, rest)"
  obtains B where "r_Body req = Some B" "framed req B" "wf_Body B" "Body_meaning B = (d, EOF, rest)"
    "r_Method req = ''HEAD'' \<longrightarrow> (\<exists>b. B = NoBody b)"
proof -
  obtain l header b B where f: "finish_request True l header b = Inr req" "r_Body req = Some B" "wf_Body B"
    "Body_meaning B = (d, EOF, rest)"
    using assms by (auto simp: wire_request_def split: option.splits sum.splits prod.splits if_splits)
  have "framed req B"
  proof (cases B)
    case (TheBody bd)
    with finish_request_body [OF f(1)] f(2) show ?thesis by (auto simp: framed_def)
  qed (use finish_request_TE [OF f(1)] f(2) in \<open>auto simp: framed_def\<close>)
  moreover have "\<exists>b. B = NoBody b" if head: "r_Method req = ''HEAD''"
  proof -
    obtain meth uri proto major minor u where l: "l = (meth, uri, proto, major, minor, u)"
      by (metis surj_pair)
    from f(1) l obtain t cc h3 where t: "readTransfer False 200 meth major minor cc h3 b = Inr t" "r_Method req = meth"
      "r_Body req = Some (t_Body t)"
      by (auto simp: finish_request_def rbind_Inr_iff Let_def split: prod.splits if_splits)
    from t(1) show ?thesis
    proof (cases rule: readTransfer_cases)
      case (1 c1 h1 mj mn h2 te n h3')
      with head t(2) have "n = 0"
        by (auto simp: fixLength_def rbind_Inr_iff noResponseBodyExpected_def Let_def split: if_splits)
      with 1 head t(2,3) f(2) show ?thesis
        by (auto simp: choose_body_def noResponseBodyExpected_def Let_def)
    qed
  qed
  ultimately show ?thesis using that f by blast
qed

lemma wire_request_forwarded:
  assumes "wire_request c0 s = Some (req, d, rest0)" "clean_request toA (req\<lparr>r_Header := h\<rparr>)"
    and "request_writer probe (req\<lparr>r_Header := h\<rparr>) = Inr tw" "delivers (r_TransferEncoding req) payload d"
    and "length d < 2 ^ 63" "18 \<le> c"
  shows "\<exists>r'. wire_request c (request_head toA (req\<lparr>r_Header := h\<rparr>) tw @ payload @ rest) = Some (r', d, rest) \<and>
     same_request (req\<lparr>r_Header := h\<rparr>) r'"
proof -
  let ?r = "req\<lparr>r_Header := h\<rparr>"
  obtain B where B: "r_Body req = Some B" "framed req B" "wf_Body B" "Body_meaning B = (d, EOF, rest0)"
    "r_Method req = ''HEAD'' \<longrightarrow> (\<exists>b. B = NoBody b)" by (rule wire_request_body [OF assms(1)])
  note line = wire_request_line [OF assms(1)]
  have fr: "framed ?r B" "r_Body ?r = Some B" using B(1,2) by (simp_all add: framed_header)
  then have tw: "tw = framed_writer ?r B" using request_writer_framed [of ?r B probe] assms(3) by simp
  have meth: "r_Method ?r \<noteq> ''''" using line(2) by simp
  have uri: "write_uri (write_host toA ?r) ?r = r_RequestURI req" "URL_Host (r_URL req) = ''''"
    using write_uri_origin_form [OF line(5), of ?r "write_host toA ?r"] assms(2) by (simp_all add: clean_request_def)
  let ?line = "r_Method req @ '' '' @ r_RequestURI req @ '' HTTP/1.1''"
  let ?fields = "concat (map field_text (head_fields toA ?r (framed_writer ?r B)))"
  have whole: "request_head toA ?r tw @ payload @ rest = ?line @ CRLF @ (?fields @ CRLF @ payload @ rest)"
    using meth uri(1) by (simp add: request_head_def request_line_def valueOrDefault_def tw)
  have "LF \<notin> set ?line" using line(3,4) by (simp add: LF_def)
  from ReadLine_CRLF [OF this] have rl: "ReadLine (request_head toA ?r tw @ payload @ rest) = Some (?line, ?fields @ CRLF @ payload @ rest)"
    unfolding whole .
  obtain m where m: "ReadMIMEHeader (?fields @ CRLF @ payload @ rest) = (None, m, payload @ rest)"
    "\<And>k. map_of m k = (if reqWriteExcludeHeader k then map_of (own_fields ?r B) k else map_of (r_Header ?r) k)"
    using read_forwarded_header [OF fr(1) assms(2) meth, of "payload @ rest"] by metis
  have comp: "complete_lines (?fields @ CRLF @ payload @ rest) (payload @ rest)"
    unfolding complete_lines_iff by (intro exI [of _ "?fields @ [CR]"]) (simp add: CRLF_def)
  let ?b = "NewReaderSize c [payload @ rest] EOF"
  have b: "wf_bufr ?b" "18 \<le> cap ?b" "flat ?b = payload @ rest"
    using assms(6) by (simp_all add: NewReaderSize_def wf_bufr_def flat_def)
  from finish_forwarded [OF fr(1) assms(2) meth _ m(2) B(3,4) assms(5) _ b] uri(2) assms(4) B(5) obtain r' B' where
    fin: "finish_request True (r_Method req, r_RequestURI req, ''HTTP/1.1'', 1, 1, r_URL req) m ?b = Inr r'"
      "r_Body r' = Some B'" "Body_meaning B' = (d, EOF, rest)" "wf_Body B'" "same_request ?r r'"
    by auto
  have "wire_request c (request_head toA ?r tw @ payload @ rest) = Some (r', d, rest)"
    unfolding wire_request_def rl option.case prod.case line(1) sum.case m(1) fin(1,2,3)
    using comp fin(4) by simp
  with fin(5) show ?thesis by blast
qed

section \<open>The service behind the proxy\<close>

definition passes :: "('s, 'c) env \<Rightarrow> nat \<Rightarrow> Request \<times> bytes \<Rightarrow> bool" where
  "passes env n rd \<longleftrightarrow> length (snd rd) < 2 ^ 63 \<and>
     clean_request (toASCII env) (ensure_request_id (http_config env) (uuid env n) (fst rd))"

definition received_as :: "('s, 'c) env \<Rightarrow> nat \<Rightarrow> Request \<times> bytes \<Rightarrow> Request \<times> bytes \<Rightarrow> bool" where
  "received_as env n rd rd' \<longleftrightarrow> snd rd' = snd rd \<and>
     same_request (ensure_request_id (http_config env) (uuid env n) (fst rd)) (fst rd')"

lemma ensure_request_id_header:
  "ensure_request_id hc u req = req\<lparr>r_Header := r_Header (ensure_request_id hc u req)\<rparr>"
  by (simp add: ensure_request_id_def)

lemma texts_pipelined:
  fixes env :: "('s, 'c) env"
  assumes "18 \<le> c" "pipelined c0 s rds" "all_indexed (passes env) n rds" "all2_indexed (forwarded_as env True) n rds texts"
  shows "\<exists>rds'. pipelined c (concat texts) rds' \<and> all2_indexed (received_as env) n rds rds'"
  using assms(2-)
proof (induction rds arbitrary: s n texts)
  case Nil
  then have "texts = []" by (cases texts) auto
  then show ?case by (intro exI [of _ "[]"]) simp
next
  case (Cons rd rds)
  obtain req d where rd: "rd = (req, d)" by fastforce
  from Cons.prems(1) rd obtain rest where wire: "wire_request c0 s = Some (req, d, rest)" "pipelined c0 rest rds"
    by (auto split: option.splits)
  from Cons.prems(3) obtain bs ts where ts: "texts = bs # ts" by (cases texts) auto
  let ?h = "r_Header (ensure_request_id (http_config env) (uuid env n) req)"
  note id = ensure_request_id_header [of "http_config env" "uuid env n" req]
  have same: "(ensure_request_id (http_config env) (uuid env n) req)\<lparr>r_Header := h\<rparr> = req\<lparr>r_Header := h\<rparr>"
      "r_TransferEncoding (ensure_request_id (http_config env) (uuid env n) req) = r_TransferEncoding req" for h
    by (simp_all add: ensure_request_id_def)
  from Cons.prems(3) ts rd have "forwarded_as env True n (req, d) bs" by simp
  then obtain tw payload where w: "request_writer unused_probe (req\<lparr>r_Header := ?h\<rparr>) = Inr tw"
    "bs = request_head (toASCII env) (req\<lparr>r_Header := ?h\<rparr>) tw @ payload" "delivers (r_TransferEncoding req) payload d"
    using same by (auto simp: forwarded_as_def Let_def)
  from Cons.prems(2) rd have "clean_request (toASCII env) (req\<lparr>r_Header := ?h\<rparr>)" "length d < 2 ^ 63"
    using id by (simp_all add: passes_def)
  from wire_request_forwarded [OF wire(1) this(1) w(1,3) this(2) assms(1), of "concat ts"] w(2) obtain r' where
    r': "wire_request c (bs @ concat ts) = Some (r', d, concat ts)" "same_request (req\<lparr>r_Header := ?h\<rparr>) r'" by auto
  from Cons.IH [OF wire(2)] Cons.prems(2,3) ts obtain rds' where
    "pipelined c (concat ts) rds'" "all2_indexed (received_as env) (Suc n) rds rds'" by auto
  moreover have "received_as env n (req, d) (r', d)" using r'(2) id by (simp add: received_as_def)
  ultimately show ?case using r'(1) ts rd by (intro exI [of _ "(r', d) # rds'"]) simp
qed

text \<open>
  (C1) The service receives the client's requests. On an inbound connection whose stream consists
  of requests that can pass (targets in origin form, canonical header fields without line breaks,
  no trailers, no upgrade, no request to close), the bytes that the proxy has sent to the service
  by the end of the loop are again a stream of requests, read by any server with the same parser:
  the same requests in the same order, each with its method, target, host, framing, body and
  header fields, a request id and a user agent added where the client gave none.
\<close>
theorem service_receives_requests:
  assumes "\<not> RoutingEnabled (http_config env)" and "\<And>n nr. isInbound (other n nr) = isInbound nr"
    and "the_w st = Some w" and "w < length (writers st)" and "room (writers st ! w) = None"
    and "wf_bufr (reader st)" and "at_end (reader st) = EOF" and "isInbound (netRequest st)"
    and "pipelined (cap (reader st)) (flat (reader st)) rds" and "all_indexed (forwardable env) (turn st) rds"
    and "all_indexed (passes env) (turn st) rds" and "out (writers st ! w) = []" and "18 \<le> c"
  shows "\<exists>rds'. pipelined c (out (writers (HandleRequest env other True dst st) ! w)) rds' \<and>
     all2_indexed (received_as env) (turn st) rds rds'"
proof -
  obtain texts where "out (writers (HandleRequest env other True dst st) ! w) = concat texts"
    "all2_indexed (forwarded_as env True) (turn st) rds texts"
    using HandleRequest_pipeline [where other = other and inb = True and dst = dst, OF assms(1-7) _ assms(9,10)] assms(8,12) by auto
  with texts_pipelined [OF assms(13,9,11)] show ?thesis by simp
qed

definition wire_get :: bytes where
  "wire_get = ''GET /x HTTP/1.1'' @ CRLF @ ''Host: a'' @ CRLF @ CRLF"

definition get_before :: "bytes \<Rightarrow> Request" where
  "get_before rest = \<lparr>r_Method = ''GET'', r_URL = empty_URL\<lparr>Path := ''/x''\<rparr>, r_Proto = ''HTTP/1.1'', r_ProtoMajor = 1,
     r_ProtoMinor = 1, r_Header = [], r_Body = Some (NoBody (NewReaderSize 4095 [rest] EOF)),
     r_ContentLength = 0, r_TransferEncoding = [], r_Close = False, r_Host = ''a'', r_Trailer = None, r_RequestURI = ''/x''\<rparr>"

lemma wire_get_request: "wire_request 4095 (wire_get @ rest) = Some (get_before rest, [], rest)"
proof -
  let ?s1 = "''Host: a'' @ CRLF @ CRLF @ rest"
  have line: "ReadLine (wire_get @ rest) = Some (''GET /x HTTP/1.1'', ?s1)"
    using ReadLine_CRLF [of "''GET /x HTTP/1.1''" ?s1] by (simp add: wire_get_def LF_def)
  have first: "parse_first_line ''GET /x HTTP/1.1'' = Inr (''GET'', ''/x'', ''HTTP/1.1'', 1, 1, empty_URL\<lparr>Path := ''/x''\<rparr>)"
    by (simp add: parse_first_line_def parseRequestLine_def validMethod_def isNotToken_def ParseHTTPVersion_def
        parse_target_def IsTokenRune_ord url_eval escape_def shouldEscape_def is_alnum_def rbind_def)
  have r2: "read_fields m (CRLF @ rest) = (None, m, rest)" for m
    by (subst read_fields.simps, simp only: readContinuedLine_end option.case prod.case) simp
  have l1: "readContinuedLine ?s1 = Some (''Host: a'', CRLF @ rest)"
    using readContinuedLine_plain [of "''Host: a''" "CRLF @ rest"]
    by (simp add: LF_def CRLF_def CR_def is_blank_def trim_blank_def)
  have "read_fields [] ?s1 = (None, [(''Host'', [''a''])], rest)"
    by (subst read_fields.simps, simp only: l1 option.case prod.case)
      (simp add: r2 Let_def own_names(5) field_values_def is_blank_def)
  then have hdr: "ReadMIMEHeader ?s1 = (None, [(''Host'', [''a''])], rest)"
    by (simp add: ReadMIMEHeader_def is_blank_def)
  have comp: "complete_lines ?s1 rest"
    unfolding complete_lines_iff by (intro exI [of _ "''Host: a'' @ CRLF @ [CR]"]) (simp add: CRLF_def)
  have fin: "finish_request True (''GET'', ''/x'', ''HTTP/1.1'', 1, 1, empty_URL\<lparr>Path := ''/x''\<rparr>)
      [(''Host'', [''a''])] (NewReaderSize 4095 [rest] EOF) = Inr (get_before rest)"
    by (simp add: finish_request_def fixPragmaCacheControl_def shouldClose_def readTransfer_def rbind_def
        fixTransferEncoding_def fixLength_def dedup_length_def field_values_def noResponseBodyExpected_def
        chunked_def fixTrailer_def Del_def canonical_ids Let_def choose_body_def get_before_def isH2Upgrade_def get_def
        empty_URL_def)
  have body: "r_Body (get_before rest) = Some (NoBody (NewReaderSize 4095 [rest] EOF))"
      "Body_meaning (NoBody (NewReaderSize 4095 [rest] EOF)) = ([], EOF, rest)"
    by (simp_all add: get_before_def NewReaderSize_def flat_def)
  show ?thesis
    unfolding wire_request_def line option.case prod.case first sum.case hdr fin body
    using comp by simp
qed

theorem service_receives_requests_witness:
  "\<exists>r. pipelined 4095 (out (writers (HandleRequest example_env (\<lambda>n nr. nr) True ''d:1''
       (example_handler [''GET /x HTT'', ''P/1.1'' @ CRLF @ ''Host: a'' @ CRLF @ CRLF])) ! 0)) [(r, [])] \<and>
     r_Method r = ''GET'' \<and> r_RequestURI r = ''/x'' \<and> r_Host r = ''a'' \<and>
     map_of (r_Header r) ''X-Request-Id'' = Some [''id''] \<and> map_of (r_Header r) ''User-Agent'' = Some [''Go-http-client/1.1'']"
proof -
  let ?st = "example_handler [''GET /x HTT'', ''P/1.1'' @ CRLF @ ''Host: a'' @ CRLF @ CRLF]"
  let ?rds = "[(get_before [], [])]"
  have fl: "flat (reader ?st) = wire_get" "cap (reader ?st) = 4095"
    by (simp_all add: example_handler_def NewReaderSize_def flat_def wire_get_def)
  have pipe: "pipelined (cap (reader ?st)) (flat (reader ?st)) ?rds"
    using wire_get_request [of "[]"] unfolding fl by simp
  have can: "CanonicalHeaderKey ''X-Request-Id'' = ''X-Request-Id''" "list_all IsTokenRune ''X-Request-Id''"
    by code_simp+
  have id: "ensure_request_id (http_config example_env) (uuid example_env n) (get_before rest) =
      (get_before rest)\<lparr>r_Header := [(''X-Request-Id'', [''id''])]\<rparr>" for n rest
    by (simp add: ensure_request_id_def example_env_def example_config_def get_before_def Get_def get_def
        field_values_def Set_def can(1))
  have fw: "forwardable example_env n (get_before [], [])" for n
    unfolding forwardable_def fst_conv snd_conv id
    by (simp add: get_before_def Get_def get_def field_values_def canonical_ids ToLower.simps)
  have hdr: "clean_header [(''X-Request-Id'', [''id''])]"
    using can by (simp add: clean_header_def wf_header_def good_field_def fixPragmaCacheControl_def
        wire_value_graphic Headers.isASCIISpace_def is_blank_def LF_def CR_def)
  have w: "wire_value ''a'' = ''a''" "wire_value ''Go-http-client/1.1'' = ''Go-http-client/1.1''"
    by (rule wire_value_graphic, simp add: Headers.isASCIISpace_def is_blank_def LF_def CR_def)+
  have ua: "user_agent [(''X-Request-Id'', [''id''])] = ''Go-http-client/1.1''"
    by (simp add: user_agent_def defaultUserAgent_def)
  have host: "write_host Some ((get_before [])\<lparr>r_Header := [(''X-Request-Id'', [''id''])]\<rparr>) = ''a''"
    by (simp add: write_host_def cleanHost_def get_before_def SplitHostPort_def LastIndex.simps idnaASCII_def isASCII_def
        removeZone_def HasPrefix_def Let_def)
  have ps: "passes example_env n (get_before [], [])" for n
    unfolding passes_def fst_conv snd_conv id
    using hdr w ua host
    by (simp add: clean_request_def example_env_def get_before_def HasPrefix_def validEncodedPath_def target_path_def
        shouldEscape_def is_alnum_def is_letter_def is_digit_def)
  have set: "\<not> RoutingEnabled (http_config example_env)" "the_w ?st = Some 0" "0 < length (writers ?st)"
      "room (writers ?st ! 0) = None" "wf_bufr (reader ?st)" "at_end (reader ?st) = EOF"
      "isInbound (netRequest ?st)" "turn ?st = 0" "out (writers ?st ! 0) = []"
    by (simp_all add: example_env_def example_config_def example_handler_def buffer_def NewNetHTTPRequest_def
        wf_bufr_def NewReaderSize_def)
  have "all_indexed (forwardable example_env) (turn ?st) ?rds" "all_indexed (passes example_env) (turn ?st) ?rds"
    using fw ps by simp_all
  from service_receives_requests [OF set(1) _ set(2-7) pipe this set(9), of "\<lambda>n nr. nr" 4095 "''d:1''"]
  obtain rds' where p: "pipelined 4095 (out (writers (HandleRequest example_env (\<lambda>n nr. nr) True ''d:1'' ?st) ! 0)) rds'"
    and a: "all2_indexed (received_as example_env) 0 ?rds rds'" using set(8) by auto
  from a obtain rd where "rds' = [rd]" by (cases rds'; cases "tl rds'") auto
  with a have "rds' = [(fst rd, [])]" "same_request ((get_before [])\<lparr>r_Header := [(''X-Request-Id'', [''id''])]\<rparr>) (fst rd)"
    by (simp_all add: received_as_def id prod_eq_iff)
  with p ua show ?thesis
    by (intro exI [of _ "fst rd"]) (simp add: same_request_def reqWriteExcludeHeader_def get_before_def)
qed

end
