(* ===== verification/ResponseHandler.thy ===== *)
theory ResponseHandler
  imports HttpHandler
begin

text \<open>
  The response loop of the HTTP handler: \<open>HandleResponse\<close> of \<open>pkg/protocol/http.go\<close>, one turn and
  the loop, with what it does to the queues of requests and spans. With \<open>forceClose\<close> (routing
  mode) the connection to the server is closed after a response: reads then fail, but bytes that
  were already buffered are still there.
\<close>

record ('s, 'c) responder =
  reader :: bufr
  tmpWriter :: TempWriter
  client :: writer
  netRequest :: "('s, 'c) NetHTTPRequest"
  turn :: nat

definition close_reader :: "bufr \<Rightarrow> bufr" where
  "close_reader r = r\<lparr>incoming := [], at_end := OtherError use_of_closed\<rparr>"

definition close_body :: "body \<Rightarrow> body" where
  "close_body b = b\<lparr>b_src := set_reader (close_reader (src_reader (b_src b))) (b_src b)\<rparr>"

fun close_Body :: "Body \<Rightarrow> Body" where
  "close_Body (NoBody r) = NoBody (close_reader r)"
| "close_Body (TheBody b) = TheBody (close_body b)"
| "close_Body (Prefixed p b) = Prefixed p (close_body b)"

definition send_all_back :: "('s, 'c) responder \<Rightarrow> ('s, 'c) responder" where
  "send_all_back st =
     (case fall_back (tmpWriter st) (reader st) (client st) of
        (tmp, w) \<Rightarrow> st\<lparr>tmpWriter := tmp, reader := (reader st)\<lparr>buffered := [], incoming := []\<rparr>, client := w\<rparr>)"

definition answers_HEAD :: "('s, 'c) NetHTTPRequest \<Rightarrow> bool" where
  "answers_HEAD nr =
     (case Queue.Peek (httpRequests nr) of
        None \<Rightarrow> False
      | Some i \<Rightarrow> r_Method (store nr ! i) = ''HEAD'')"

definition forward_response ::
  "HTTPConfig \<Rightarrow> bool \<Rightarrow> Response \<Rightarrow> ('s, 'c) responder \<Rightarrow> ('s, 'c) responder" where
  "forward_response hc forceClose resp st =
     (let close = (forceClose \<and> p_StatusCode resp \<noteq> 100);
          resp1 = (if answers_HEAD (netRequest st) \<and> close
                   then resp\<lparr>p_Body := map_option close_Body (p_Body resp)\<rparr> else resp) in
      case Response_Write resp1 (client st) of
        ((err, B), w) \<Rightarrow>
          let r = body_after (reader st) B in
          st\<lparr>tmpWriter := Stop (tmpWriter st), client := w,
             netRequest := StopRequest hc (SetHTTPResponse resp (netRequest st)),
             reader := (if close then close_reader r else r), turn := Suc (turn st)\<rparr>)"

definition response_turn ::
  "HTTPConfig \<Rightarrow> bool \<Rightarrow> ('s, 'c) responder \<Rightarrow> ('s, 'c) responder outcome" where
  "response_turn hc forceClose st0 =
     (let (res, b) = ReadResponse (reader st0);
          st1 = st0\<lparr>reader := b, tmpWriter := tee_reads (reader st0) b (Start (tmpWriter st0))\<rparr> in
      case res of
        Inl e \<Rightarrow> if e = EOF \<or> is_closed_error e then Done st1 else Done (send_all_back st1)
      | Inr resp \<Rightarrow>
          if ToLower (Get (p_Header resp) ''Connection'') = ''upgrade'' then Done (send_all_back st1)
          else Again (forward_response hc forceClose resp st1))"

section \<open>The loop ends\<close>

lemma advances_length_close: "length (flat (close_reader r)) \<le> length (flat r)"
  by (simp add: close_reader_def flat_def)

lemma probe_response_progress:
  assumes "probe_response r = (e, r1)" "p_Body r = Some B"
  shows "\<exists>B1. p_Body r1 = Some B1 \<and> advances (Body_bufr B) (Body_bufr B1)"
  using assms
  by (cases B)
    (auto simp: probe_response_def body_bufr_def split: if_splits prod.splits list.splits
      dest: advances_body_Read [unfolded body_bufr_def])

lemma Response_Write_progress:
  assumes "Response_Write r w = ((e, B'), w')" "p_Body r = Some B"
  shows "advances (Body_bufr B) (body_after b B')"
proof -
  obtain e1 r1 where pr: "probe_response r = (e1, r1)" by fastforce
  from probe_response_progress [OF pr assms(2)] obtain B1 where
    B1: "p_Body r1 = Some B1" "advances (Body_bufr B) (Body_bufr B1)" by blast
  let ?close = "p_Close r1 \<or> p_ContentLength r1 = - 1 \<and>
                     protoAtLeast (p_ProtoMajor r1) (p_ProtoMinor r1) 1 1 \<and>
                     \<not> chunked (p_TransferEncoding r1)"
  let ?tw = "newTransferWriter_response '''' (p_Body r1) (p_ContentLength r1) ?close
                     (p_TransferEncoding r1) (p_Header r1) (p_Trailer r1)
                     (p_ProtoMajor r1) (p_ProtoMinor r1)"
  have tw: "tw_Body ?tw = None \<or> tw_Body ?tw = BodyCloser ?tw" "BodyCloser ?tw = Some B1"
    using B1(1) sanitize_body unfolding newTransferWriter_response_def by fastforce+
  have "B' = p_Body r \<or> B' = p_Body r1 \<or> (\<exists>w4. writeBody ?tw w4 = ((e, B'), w'))"
    using assms(1) pr
    by (auto simp: Response_Write_def Let_def split: prod.splits option.splits)
  then show ?thesis
    using advances_writeBody [OF _ tw] B1 assms(2) advances_trans
    by (fastforce simp: body_after_def)
qed

lemma close_Body_bufr: "Body_bufr (close_Body B) = close_reader (Body_bufr B)"
  by (cases B) (simp_all add: close_body_def body_bufr_def)

lemma forward_response_progress:
  assumes "p_Body resp = Some B"
  shows "length (flat (reader (forward_response hc fc resp st))) \<le> length (flat (Body_bufr B))"
proof -
  let ?close = "fc \<and> p_StatusCode resp \<noteq> 100"
  let ?head = "answers_HEAD (netRequest st) \<and> ?close"
  let ?resp = "if ?head then resp\<lparr>p_Body := map_option close_Body (p_Body resp)\<rparr> else resp"
  obtain e B' w where rw: "Response_Write ?resp (client st) = ((e, B'), w)" by (metis surj_pair)
  have b: "p_Body ?resp = Some (if ?head then close_Body B else B)" using assms by simp
  from Response_Write_progress [OF rw b] have
    "length (flat (body_after (reader st) B')) \<le> length (flat (Body_bufr (if ?head then close_Body B else B)))"
    by (rule advances_length)
  also have "\<dots> \<le> length (flat (Body_bufr B))" by (simp add: close_Body_bufr advances_length_close)
  finally show ?thesis
    using rw advances_length_close [of "body_after (reader st) B'"]
    by (auto simp: forward_response_def Let_def)
qed

lemma response_turn_progress:
  assumes "response_turn hc fc st = Again st'"
  shows "length (flat (reader st')) < length (flat (reader st))"
proof -
  obtain res b where rr: "ReadResponse (reader st) = (res, b)" by fastforce
  from assms rr obtain resp where res: "res = Inr resp"
    and st': "st' = forward_response hc fc resp
       (st\<lparr>reader := b, tmpWriter := tee_reads (reader st) b (Start (tmpWriter st))\<rparr>)"
    by (cases res) (auto simp: response_turn_def Let_def split: if_splits)
  from rr res obtain B where B: "p_Body resp = Some B" "Body_bufr B = b" by (metis ReadResponse_reader)
  show ?thesis
    using forward_response_progress [OF B(1)] ReadResponse_progress [OF rr [unfolded res]] B(2)
    unfolding st' by (metis le_less_trans)
qed

text \<open>As for requests, \<open>other n\<close> is what the request goroutine did to the queues before the n-th turn.\<close>

function HandleResponse ::
  "HTTPConfig \<Rightarrow> (nat \<Rightarrow> ('s, 'c) NetHTTPRequest \<Rightarrow> ('s, 'c) NetHTTPRequest) \<Rightarrow> bool \<Rightarrow>
     ('s, 'c) responder \<Rightarrow> ('s, 'c) responder" where
  "HandleResponse hc other forceClose st =
     (case response_turn hc forceClose (st\<lparr>netRequest := other (turn st) (netRequest st)\<rparr>) of
        Done st' \<Rightarrow> st'
      | Again st' \<Rightarrow> HandleResponse hc other forceClose st')"
  by pat_completeness auto
termination
  by (relation "measure (\<lambda>(hc, other, fc, st). length (flat (reader st)))")
    (auto dest!: response_turn_progress)

declare HandleResponse.simps [simp del]

section \<open>The end of the server's stream\<close>

lemma encodings_error: "encodings te xs = Inl e \<Longrightarrow> e \<noteq> EOF"
  by (induction te xs rule: encodings.induct) (auto simp: Let_def split: if_splits)

lemma parseContentLength_error: "parseContentLength s = Inl e \<Longrightarrow> e \<noteq> EOF"
  by (auto simp: parseContentLength_def Let_def split: if_splits sum.splits)

lemma dedup_length_error: "dedup_length h = Inl e \<Longrightarrow> e \<noteq> EOF"
  by (auto simp: dedup_length_def errManyLengths_def split: list.splits if_splits)

lemma fixLength_error: "fixLength isR st m h te = Inl e \<Longrightarrow> e \<noteq> EOF"
  by (auto simp: fixLength_def rbind_Inl_iff errMethodLength_def Let_def split: if_splits
      dest: dedup_length_error parseContentLength_error)

lemma fixTransferEncoding_error: "fixTransferEncoding mj mn h = Inl e \<Longrightarrow> e \<noteq> EOF"
  by (auto simp: fixTransferEncoding_def rbind_Inl_iff Let_def split: option.splits if_splits dest: encodings_error)

lemma fixTrailer_error: "fixTrailer h te = Inl e \<Longrightarrow> e \<noteq> EOF"
  by (auto simp: fixTrailer_def Let_def ErrUnexpectedTrailer_def split: option.splits if_splits)

lemma readTransfer_error: "readTransfer isR st m mj mn c h r = Inl e \<Longrightarrow> e \<noteq> EOF"
  by (auto simp: readTransfer_def rbind_Inl_iff Let_def split: prod.splits if_splits
      dest: fixTransferEncoding_error fixLength_error fixTrailer_error parseContentLength_error)


text \<open>
  The end of the server's stream never reaches the handler as \<open>io.EOF\<close>: \<open>ReadResponse\<close> turns it
  into an unexpected end, at the first byte too. So the branch of \<open>HandleResponse\<close> that returns
  quietly at the end of the stream is never taken, and a server that closes an idle connection is
  treated like one that sent something unparsable.
\<close>
lemma ReadResponse_never_EOF: "fst (ReadResponse r) \<noteq> Inl EOF"
proof -
  have st: "parse_status_line s = Inl e \<Longrightarrow> e \<noteq> EOF" for s e
    by (auto simp: parse_status_line_def Let_def split: option.splits if_splits sum.splits)
  have fr: "finish_response m l h b = Inl e \<Longrightarrow> e \<noteq> EOF" for m l h b e
    by (auto simp: finish_response_def rbind_Inl_iff split: prod.splits dest: readTransfer_error)
  have un: "unexpected e \<noteq> EOF" for e by (simp add: unexpected_def)
  show ?thesis
    using un by (auto simp: ReadResponse_def split: prod.splits sum.splits option.splits dest: st fr)
qed

section \<open>Forwarding\<close>

lemma writeBody_until_close:
  assumes "tw_Body t = Some (TheBody b)" "TransferEncoding t = []" "ContentLength t = - 1"
    and "b_src b = SrcReader r" "wf_body b" "meaning b = (d, EOF, rest)" "room w = None"
  obtains b' where "body_flat b' = rest"
    "writeBody t w = ((None, Some (TheBody b')), w\<lparr>out := out w @ d\<rparr>)"
proof -
  have wf: "\<not> sawEOF b" "\<not> closed b" using assms(5) by (auto simp: wf_body_def)
  obtain n err b1 w1 where c: "copy_body WriteString copy_buffer_size None b w = ((n, err), b1, w1)" by (metis surj_pair)
  have inv: "fst (WriteString p w) = None \<and> room (snd (WriteString p w)) = None" if "room w = None" for p w
    using that by (simp add: WriteString_def)
  from copy_body_meaning [of "\<lambda>w. room w = None" w WriteString, OF assms(7) inv assms(5) copy_buffer_pos assms(6)] c
  have ps: "err = None" "body_flat b1 = rest" "w1 = w\<lparr>out := out w @ d\<rparr>"
    using fold_WriteString [OF assms(7)] by auto
  have "sawEOF b1" using copy_body_sawEOF [OF c [unfolded ps(1)] wf(2)] by auto
  then obtain b2 where b2: "body_Close b1 = (None, b2)" "body_flat b2 = body_flat b1" using body_Close_done by blast
  have wp: "write_payload t (TheBody b) w = ((n, None), TheBody b1, w\<lparr>out := out w @ d\<rparr>)"
    using assms(2,3) c ps by (simp add: write_payload_def chunked_def)
  have "writeBody t w = ((None, Some (TheBody b2)), w\<lparr>out := out w @ d\<rparr>)"
    using assms(1-3) b2 by (simp add: writeBody_def wp chunked_def)
  with ps b2 that show ?thesis by simp
qed

definition framed_response :: "Response \<Rightarrow> Body \<Rightarrow> bool" where
  "framed_response r B \<longleftrightarrow>
     (if p_TransferEncoding r = [] then
        (case B of NoBody b \<Rightarrow> p_ContentLength r = 0
         | TheBody bd \<Rightarrow>
             (0 < p_ContentLength r \<and> (\<exists>b. b_src bd = SrcLimited (p_ContentLength r) b)) \<or>
             (p_ContentLength r = - 1 \<and> (\<exists>b. b_src bd = SrcReader b))
         | Prefixed p bd \<Rightarrow> False)
      else p_TransferEncoding r = [''chunked''] \<and> p_ContentLength r = - 1)"

definition answer_fields :: "Response \<Rightarrow> (string \<times> string) list" where
  \<comment> \<open>the header a client is to see: the server's fields, in the order of their names, with the framing
     that belongs to the body, and a warning where only the end of the connection ends it\<close>
  "answer_fields r =
     (let until_close = (p_TransferEncoding r = [] \<and> p_ContentLength r = - 1) in
      (if (p_Close r \<or> until_close) \<and> \<not> hasToken (get (p_Header r) ''Connection'') ''close''
       then [(''Connection'', ''close'')] else []) @
      (if p_TransferEncoding r \<noteq> [] then [(''Transfer-Encoding'', ''chunked'')]
       else if 0 < p_ContentLength r then [(''Content-Length'', Itoa (p_ContentLength r))] else []) @
      concat (map (\<lambda>(k, vv). map (\<lambda>v. (k, wire_value v)) vv)
        (sort_key fst (filter (\<lambda>(k, vv). k \<noteq> ''Content-Length'' \<and> k \<noteq> ''Transfer-Encoding'' \<and> k \<noteq> ''Trailer'') (p_Header r)))) @
      (if p_TransferEncoding r = [] \<and> p_ContentLength r = 0 then [(''Content-Length'', ''0'')] else []))"

lemma answer_fields_eq:
  assumes "tw = newTransferWriter_response '''' (Some B) (p_ContentLength r) (p_Close r \<or> p_ContentLength r = - 1 \<and>
        protoAtLeast (p_ProtoMajor r) (p_ProtoMinor r) 1 1 \<and> \<not> chunked (p_TransferEncoding r))
      (p_TransferEncoding r) (p_Header r) None (p_ProtoMajor r) (p_ProtoMinor r)"
    and "framed_response r B" "protoAtLeast (p_ProtoMajor r) (p_ProtoMinor r) 1 1" "bodyAllowedForStatus (p_StatusCode r)"
  shows "framing_fields tw @ subset_fields respExcludeHeader (p_Header r) @
     (if p_ContentLength r = 0 \<and> \<not> chunked (p_TransferEncoding r) \<and> \<not> shouldSendContentLength tw \<and>
         bodyAllowedForStatus (p_StatusCode r) then [(''Content-Length'', ''0'')] else []) = answer_fields r"
proof -
  let ?close = "p_Close r \<or> p_ContentLength r = - 1 \<and> \<not> chunked (p_TransferEncoding r)"
  have tw: "TransferEncoding tw = p_TransferEncoding r" "ContentLength tw = p_ContentLength r" "Close tw = ?close"
    "Trailer tw = None" "Method tw = ''''" "tw_Header tw = p_Header r"
    using assms(2,3) unfolding assms(1)
    by (auto simp: newTransferWriter_response_def sanitize_def noResponseBodyExpected_def Let_def
        framed_response_def chunked_def split: if_splits)
  have own: "subset_fields respExcludeHeader (p_Header r) = concat (map (\<lambda>(k, vv). map (\<lambda>v. (k, wire_value v)) vv)
        (sort_key fst (filter (\<lambda>(k, vv). k \<noteq> ''Content-Length'' \<and> k \<noteq> ''Transfer-Encoding'' \<and> k \<noteq> ''Trailer'') (p_Header r))))"
    unfolding subset_fields_def sortedKeyValues_def respExcludeHeader_def
    by (simp add: case_prod_beta')
  have te: "p_TransferEncoding r = [] \<or> p_TransferEncoding r = [''chunked''] \<and> p_ContentLength r = - 1"
    using assms(2) by (auto simp: framed_response_def split: if_splits)
  have "p_ContentLength r < 0 \<longleftrightarrow> p_ContentLength r = - 1"
    using assms(2) by (auto simp: framed_response_def split: if_splits Body.splits)
  with te assms(4) show ?thesis
    unfolding own by (auto simp: framing_fields_def shouldSendContentLength_def answer_fields_def tw chunked_def isIdentity_def Let_def)
qed

lemma Response_Write_exact:
  assumes "p_Body r = Some B" "framed_response r B" "protoAtLeast (p_ProtoMajor r) (p_ProtoMinor r) 1 1"
    and "p_Trailer r = None" "room w = None" "wf_Body B" "Body_meaning B = (d, EOF, rest)" "length d < 2 ^ 64"
    and "bodyAllowedForStatus (p_StatusCode r)"
  shows "\<exists>payload B'. Response_Write r w = ((None, Some B'),
       w\<lparr>out := out w @ status_line r @ concat (map field_text (answer_fields r)) @ CRLF @ payload\<rparr>) \<and>
     Body_flat B' = rest \<and> delivers (p_TransferEncoding r) payload d"
proof -
  have pr: "probe_response r = (None, r)"
    using assms(1,2,6) by (cases B) (auto simp: probe_response_def framed_response_def split: if_splits)
  let ?close = "p_Close r \<or> p_ContentLength r = - 1 \<and> protoAtLeast (p_ProtoMajor r) (p_ProtoMinor r) 1 1 \<and>
                     \<not> chunked (p_TransferEncoding r)"
  let ?tw = "newTransferWriter_response '''' (p_Body r) (p_ContentLength r) ?close
                     (p_TransferEncoding r) (p_Header r) (p_Trailer r) (p_ProtoMajor r) (p_ProtoMinor r)"
  have tw: "tw_Body ?tw = Some B" "BodyCloser ?tw = Some B" "\<not> ResponseToHEAD ?tw" "Trailer ?tw = None"
    "TransferEncoding ?tw = p_TransferEncoding r" "ContentLength ?tw = p_ContentLength r"
    using assms(1-4)
    by (auto simp: newTransferWriter_response_def sanitize_def noResponseBodyExpected_def Let_def
        framed_response_def chunked_def split: if_splits)
  let ?zero = "p_ContentLength r = 0 \<and> \<not> chunked (p_TransferEncoding r) \<and>
                              \<not> shouldSendContentLength ?tw \<and> bodyAllowedForStatus (p_StatusCode r)"
  let ?fields = "framing_fields ?tw @ subset_fields respExcludeHeader (p_Header r) @
     (if ?zero then [(''Content-Length'', ''0'')] else [])"
  let ?head = "status_line r @ concat (map field_text ?fields) @ CRLF"
  let ?w = "w\<lparr>out := out w @ ?head\<rparr>"
  have r: "room (w\<lparr>out := x\<rparr>) = None" for x using assms(5) by simp
  have w1: "WriteString (status_line r) w = (None, w\<lparr>out := out w @ status_line r\<rparr>)"
    using assms(5) by (simp add: WriteString_def)
  have w2: "writeHeader ?tw (w\<lparr>out := x\<rparr>) = (None, w\<lparr>out := x @ concat (map field_text (framing_fields ?tw))\<rparr>)" for x
    using writeHeader_unlimited [OF r, of ?tw] tw(4) by simp
  have w3: "writeSubset respExcludeHeader (p_Header r) (w\<lparr>out := x\<rparr>) =
      (None, w\<lparr>out := x @ concat (map field_text (subset_fields respExcludeHeader (p_Header r)))\<rparr>)" for x
    using write_all_unlimited [OF r] by (simp add: writeSubset_def subset_fields_text)
  have w4: "write_all ss (w\<lparr>out := x\<rparr>) = (None, w\<lparr>out := x @ concat ss\<rparr>)" for ss x
    using write_all_unlimited [OF r] by simp
  have z: "concat ((if Z then [''Content-Length: 0'' @ CRLF] else []) @ [CRLF]) =
      concat (map field_text (if Z then [(''Content-Length'', ''0'')] else [])) @ CRLF" for Z
    by (simp add: field_text_def)
  have "Response_Write r w = writeBody ?tw (w\<lparr>out := (((out w @ status_line r) @
       concat (map field_text (framing_fields ?tw))) @
       concat (map field_text (subset_fields respExcludeHeader (p_Header r)))) @
       concat ((if ?zero then [''Content-Length: 0'' @ CRLF] else []) @ [CRLF])\<rparr>)"
    by (simp only: Response_Write_def pr w1 w2 w3 w4 Let_def prod.case option.case)
  also have "\<dots> = writeBody ?tw ?w" unfolding z by (simp only: map_append concat_append append_assoc)
  finally have rw: "Response_Write r w = writeBody ?tw ?w" .
  have rm: "room ?w = None" using assms(5) by simp
  have "\<exists>payload B'. writeBody ?tw ?w = ((None, Some B'), ?w\<lparr>out := out ?w @ payload\<rparr>) \<and>
     Body_flat B' = rest \<and> delivers (p_TransferEncoding r) payload d"
  proof (cases "\<exists>bd b. B = TheBody bd \<and> b_src bd = SrcReader b \<and> p_TransferEncoding r = []")
    case True
    then obtain bd b where b: "B = TheBody bd" "b_src bd = SrcReader b" "p_TransferEncoding r = []" by blast
    with assms(2) have cl: "ContentLength ?tw = - 1" using tw(6) by (auto simp: framed_response_def)
    have bt: "tw_Body ?tw = Some (TheBody bd)" "TransferEncoding ?tw = []" "wf_body bd" "meaning bd = (d, EOF, rest)"
      using tw b assms(6,7) by simp_all
    obtain b' where "body_flat b' = rest" "writeBody ?tw ?w = ((None, Some (TheBody b')), ?w\<lparr>out := out ?w @ d\<rparr>)"
      by (rule writeBody_until_close [OF bt(1,2) cl b(2) bt(3,4) rm])
    then show ?thesis using b(3) by (intro exI [of _ d] exI [of _ "TheBody b'"]) (simp add: delivers_def)
  next
    case False
    have sh: "TransferEncoding ?tw = [''chunked''] \<and> ContentLength ?tw = - 1 \<or>
      TransferEncoding ?tw = [] \<and> (case B of NoBody b \<Rightarrow> ContentLength ?tw = 0
        | TheBody bd \<Rightarrow> 0 < ContentLength ?tw \<and> (\<exists>b. b_src bd = SrcLimited (ContentLength ?tw) b)
        | _ \<Rightarrow> False)"
      using False assms(2) tw(5,6) by (auto simp: framed_response_def split: if_splits Body.splits)
    obtain payload B' where "writeBody ?tw ?w = ((None, Some B'), ?w\<lparr>out := out ?w @ payload\<rparr>)"
      "Body_flat B' = rest" "delivers (TransferEncoding ?tw) payload d"
      by (rule writeBody_exact [OF tw(1-4) rm assms(6-8) sh])
    then show ?thesis using tw(5) by auto
  qed
  then obtain payload B' where "writeBody ?tw ?w = ((None, Some B'), ?w\<lparr>out := out ?w @ payload\<rparr>)"
     "Body_flat B' = rest" "delivers (p_TransferEncoding r) payload d" by blast
  moreover have "?fields = answer_fields r"
    using answer_fields_eq [OF _ assms(2,3,9), of ?tw] assms(1,4) by simp
  ultimately show ?thesis using rw by (intro exI [of _ payload] exI [of _ B']) simp
qed

lemma fixLength_response:
  assumes "fixLength True st ''GET'' h te = Inr (n, h')" "\<not> st div 100 = 1" "st \<noteq> 204" "st \<noteq> 304"
  shows "if chunked te then n = - 1 else - 1 \<le> n"
proof -
  obtain h1 where d: "dedup_length h = Inr h1" using assms(1) by (auto simp: fixLength_def rbind_Inr_iff)
  have "parseContentLength (TrimSpace x) = Inr n \<Longrightarrow> - 1 \<le> n" for x
    by (auto simp: parseContentLength_def Let_def split: if_splits sum.splits)
  with assms d show ?thesis
    by (auto simp: fixLength_def noResponseBodyExpected_def rbind_Inr_iff Let_def split: if_splits)
qed

lemma ReadResponse_framed:
  assumes "ReadResponse b = (Inr resp, b')" "p_Body resp = Some B" "bodyAllowedForStatus (p_StatusCode resp)"
  shows "framed_response resp B"
proof -
  from assms(1) obtain l header where "finish_response ''GET'' l header b' = Inr resp"
    by (auto simp: ReadResponse_def split: prod.splits sum.splits option.splits)
  then obtain t mj mn h where t: "readTransfer True (p_StatusCode resp) ''GET'' mj mn False h b' = Inr t"
    and r: "p_Body resp = Some (t_Body t)" "p_TransferEncoding resp = t_TransferEncoding t"
      "p_ContentLength resp = t_ContentLength t"
    by (auto simp: finish_response_def rbind_Inr_iff split: prod.splits)
  have st: "\<not> p_StatusCode resp div 100 = 1" "p_StatusCode resp \<noteq> 204" "p_StatusCode resp \<noteq> 304"
    using assms(3) by (auto simp: bodyAllowedForStatus_def split: if_splits)
  from t show ?thesis
  proof (cases rule: readTransfer_cases)
    case (1 c1 h1 mj' mn' h2 te n h3)
    have cl: "t_ContentLength t = n" using 1(8) by simp
    have close: "t_Close t" if "n = - 1" "\<not> chunked te"
      using t 1(3,4) that assms(3)
      by (auto simp: readTransfer_def rbind_Inr_iff Let_def split: prod.splits if_splits)
        (use 1(1,2) in \<open>auto split: if_splits\<close>)
    have n: "if chunked te then n = - 1 else - 1 \<le> n"
      using fixLength_response [OF 1(4) st] .
    show ?thesis
      using fixTransferEncoding_result [OF 1(3)] 1(6,7) r cl n close assms(2,3)
      by (auto simp: framed_response_def choose_body_def chunked_def noResponseBodyExpected_def Let_def split: if_splits)
  qed
qed

lemma response_turn_exact:
  assumes "ReadResponse (reader st) = (Inr resp, b)"
    and "ToLower (Get (p_Header resp) ''Connection'') \<noteq> ''upgrade''"
    and "\<not> (answers_HEAD (netRequest st) \<and> fc \<and> p_StatusCode resp \<noteq> 100)"
    and "bodyAllowedForStatus (p_StatusCode resp)" "protoAtLeast (p_ProtoMajor resp) (p_ProtoMinor resp) 1 1"
    and "p_Body resp = Some B" "wf_Body B" "Body_meaning B = (d, EOF, rest)" "length d < 2 ^ 64"
    and "p_Trailer resp = None" "room (client st) = None"
  shows "\<exists>st' payload. response_turn hc fc st = Again st' \<and>
     out (client st') = out (client st) @ status_line resp @ concat (map field_text (answer_fields resp)) @ CRLF @ payload \<and>
     delivers (p_TransferEncoding resp) payload d \<and> tw_buf (tmpWriter st') = [] \<and>
     flat (reader st') = (if fc \<and> p_StatusCode resp \<noteq> 100 then buffered (reader st') else rest) \<and>
     netRequest st' = StopRequest hc (SetHTTPResponse resp (netRequest st))"
proof -
  let ?st1 = "st\<lparr>reader := b, tmpWriter := tee_reads (reader st) b (Start (tmpWriter st))\<rparr>"
  let ?close = "fc \<and> p_StatusCode resp \<noteq> 100"
  from Response_Write_exact [OF assms(6) ReadResponse_framed [OF assms(1,6,4)] assms(5,10,11,7-9,4)]
  obtain payload B' where rw: "Response_Write resp (client st) = ((None, Some B'),
       (client st)\<lparr>out := out (client st) @ status_line resp @ concat (map field_text (answer_fields resp)) @ CRLF @ payload\<rparr>)"
     "Body_flat B' = rest" "delivers (p_TransferEncoding resp) payload d" by blast
  let ?st = "?st1\<lparr>tmpWriter := Stop (tmpWriter ?st1), client := (client st)\<lparr>out := out (client st) @ status_line resp @
        concat (map field_text (answer_fields resp)) @ CRLF @ payload\<rparr>,
      netRequest := StopRequest hc (SetHTTPResponse resp (netRequest st)),
      reader := (if ?close then close_reader (Body_bufr B') else Body_bufr B'), turn := Suc (turn st)\<rparr>"
  have nh: "(answers_HEAD (netRequest st) \<and> fc \<and> p_StatusCode resp \<noteq> 100) = False" using assms(3) by blast
  have "response_turn hc fc st = Again (forward_response hc fc resp ?st1)"
    using assms(1,2) by (simp add: response_turn_def)
  also have "forward_response hc fc resp ?st1 = ?st"
    using rw(1) by (simp add: forward_response_def Let_def body_after_def nh)
  finally have "response_turn hc fc st = Again ?st" .
  then show ?thesis
    using rw(2,3)
    by (intro exI [of _ ?st] exI [of _ payload])
      (simp add: Stop_def body_after_flat close_reader_def flat_def)
qed

text \<open>
  (C5) One turn of the response loop forwards one response, other than an answer to \<open>HEAD\<close>: its
  status line; its header fields, in the order of their names and with the framing that belongs to
  the body; and a body that carries exactly the server's data, by length, in chunks or up to the
  end of the connection. The response finishes the oldest open span. Without \<open>forceClose\<close>, and for an interim
  response, the loop goes on at the first byte after the response; with it, only bytes that were
  already read ahead remain.
\<close>
theorem response_turn_forwards:
  assumes "ReadResponse (reader st) = (Inr resp, b)"
    and "ToLower (Get (p_Header resp) ''Connection'') \<noteq> ''upgrade''"
    and "\<not> answers_HEAD (netRequest st)"
    and "bodyAllowedForStatus (p_StatusCode resp)" and "protoAtLeast (p_ProtoMajor resp) (p_ProtoMinor resp) 1 1"
    and "p_Body resp = Some B" and "wf_Body B" and "Body_meaning B = (d, EOF, rest)" and "length d < 2 ^ 64"
    and "p_Trailer resp = None" and "room (client st) = None"
  shows "\<exists>st' payload. response_turn hc fc st = Again st' \<and>
     out (client st') = out (client st) @ status_line resp @ concat (map field_text (answer_fields resp)) @ CRLF @ payload \<and>
     delivers (p_TransferEncoding resp) payload d \<and> tw_buf (tmpWriter st') = [] \<and>
     flat (reader st') = (if fc \<and> p_StatusCode resp \<noteq> 100 then buffered (reader st') else rest) \<and>
     netRequest st' = StopRequest hc (SetHTTPResponse resp (netRequest st))"
  by (rule response_turn_exact) (use assms in simp_all)

text \<open>
  A response to \<open>HEAD\<close> swallows what follows it. \<open>ReadResponse\<close> is not told the request. Read with the
  request's method the response would have no body; as it is read, one that announces \<open>n\<close> bytes is
  given the next \<open>n\<close> bytes of the connection, although none of them belong to it: they are sent to
  the client behind its header, and the loop goes on \<open>n\<close> bytes into the next response.
\<close>
lemma HEAD_response_swallows_next:
  assumes "ReadResponse (reader st) = (Inr resp, b)"
    and "ToLower (Get (p_Header resp) ''Connection'') \<noteq> ''upgrade''"
    and "answers_HEAD (netRequest st)"
    and "bodyAllowedForStatus (p_StatusCode resp)" and "protoAtLeast (p_ProtoMajor resp) (p_ProtoMinor resp) 1 1"
    and "p_TransferEncoding resp = []" and "p_ContentLength resp = int n" and "0 < n" and "n \<le> length (flat b)"
    and "n < 2 ^ 64" and "p_Trailer resp = None" and "room (client st) = None" and "wf_bufr b"
  shows "\<exists>st'. response_turn hc False st = Again st' \<and>
     out (client st') = out (client st) @ status_line resp @ concat (map field_text (answer_fields resp)) @ CRLF @ take n (flat b) \<and>
     flat (reader st') = drop n (flat b)"
proof -
  from assms(1) obtain l header where fin: "finish_response ''GET'' l header b = Inr resp"
    by (auto simp: ReadResponse_def split: prod.splits sum.splits option.splits)
  then obtain B where B: "p_Body resp = Some B"
    by (auto simp: finish_response_def rbind_Inr_iff split: prod.splits)
  from ReadResponse_framed [OF assms(1) B assms(4)] assms(6-8) obtain bd b' where
    bd: "B = TheBody bd" "b_src bd = SrcLimited (int n) b'"
    by (cases B) (auto simp: framed_response_def)
  obtain mj mn h t where t: "readTransfer True (p_StatusCode resp) ''GET'' mj mn False h b = Inr t" "p_Body resp = Some (t_Body t)"
    using fin by (auto simp: finish_response_def rbind_Inr_iff split: prod.splits)
  have "b_src bd = SrcLimited (int n) b \<and> \<not> sawEOF bd \<and> \<not> closed bd \<and> \<not> b_hdr bd"
    using t B bd by (auto elim!: readTransfer_cases simp: choose_body_def Let_def split: if_splits)
  with bd(1) assms(9,13) have wf: "wf_Body B" "Body_meaning B = (take n (flat b), EOF, drop n (flat b))"
    by (simp_all add: wf_body_def meaning_def)
  have "length (take n (flat b)) < 2 ^ 64" "\<not> (answers_HEAD (netRequest st) \<and> False \<and> p_StatusCode resp \<noteq> 100)"
    using assms(10) by auto
  from response_turn_exact [OF assms(1,2) this(2) assms(4,5) B wf this(1) assms(11,12), of hc] assms(6)
  show ?thesis by (auto simp: delivers_def)
qed

text \<open>
  A bodyless response with \<open>Transfer-Encoding: chunked\<close>, which a server may send with status 304,
  is forwarded with a body it did not have: the final chunk and an empty trailer. The client does
  not expect them and reads them as the start of the next response.
\<close>
lemma bodyless_chunked_response_gains_body:
  assumes "\<not> bodyAllowedForStatus code"
  shows "\<exists>resp head. finish_response ''GET'' (''HTTP/1.1'', status, code, 1, 1)
        [(''Transfer-Encoding'', [''chunked''])] b = Inr resp \<and> p_Body resp = Some (NoBody b) \<and>
     Response_Write resp buffer = ((None, Some (NoBody b)), buffer\<lparr>out := head @ CRLF @ ''0'' @ CRLF @ CRLF\<rparr>)"
proof -
  let ?h = "[(''Transfer-Encoding'', [''chunked''])]"
  let ?r = "\<lparr>p_Status = status, p_StatusCode = code, p_Proto = ''HTTP/1.1'', p_ProtoMajor = 1, p_ProtoMinor = 1,
     p_Header = [], p_Body = Some (NoBody b), p_ContentLength = 0, p_TransferEncoding = [''chunked''], p_Close = False,
     p_Trailer = None\<rparr>"
  have st: "code div 100 = 1 \<or> code = 204 \<or> code = 304"
    using assms by (auto simp: bodyAllowedForStatus_def split: if_splits)
  have "TrimSpace ''chunked'' = ''chunked''" by (rule TrimSpace_graphic) (simp add: graphic_def)
  then have te: "encodings [] (Split ''chunked'' (CHR '','')) = Inr [''chunked'']"
    by (simp add: ToLower.simps HasPrefix_def lower_ascii_def)
  have sc: "shouldClose 1 1 ?h True = (False, ?h)"
    by (simp add: shouldClose_def field_values_def hasToken_def Let_def)
  have fin: "finish_response ''GET'' (''HTTP/1.1'', status, code, 1, 1) ?h b = Inr ?r"
    using st assms te
    by (auto simp: finish_response_def fixPragmaCacheControl_def readTransfer_def sc rbind_def
        fixTransferEncoding_def protoAtLeast_def fixLength_def dedup_length_def field_values_def
        noResponseBodyExpected_def fixTrailer_def choose_body_def chunked_def Let_def)
  have "Response_Write ?r buffer = ((None, Some (NoBody b)),
      buffer\<lparr>out := (status_line ?r @ ''Transfer-Encoding: chunked'' @ CRLF) @ CRLF @ ''0'' @ CRLF @ CRLF\<rparr>)"
    by (simp add: Response_Write_def probe_response_def newTransferWriter_response_def sanitize_def
        noResponseBodyExpected_def protoAtLeast_def chunked_def shouldSendContentLength_def writeHeader_def
        framing_writes_def writeSubset_def sortedKeyValues_def writeBody_def write_payload_def cw_Close_def
        WriteString_def buffer_def Let_def get_def field_values_def)
  with fin show ?thesis
    by (intro exI [of _ ?r] exI [of _ "status_line ?r @ ''Transfer-Encoding: chunked'' @ CRLF"]) simp
qed

lemma bodyless_chunked_response_gains_body_witness:
  "\<exists>resp head. finish_response ''GET'' (''HTTP/1.1'', ''304 Not Modified'', 304, 1, 1)
        [(''Transfer-Encoding'', [''chunked''])] (example_reader ''X'') = Inr resp \<and>
     out (snd (Response_Write resp buffer)) = head @ CRLF @ ''0'' @ CRLF @ CRLF"
  using bodyless_chunked_response_gains_body [of 304 "''304 Not Modified''" "example_reader ''X''"]
  by (auto simp: bodyAllowedForStatus_def)

subsection \<open>A response read on concrete input\<close>

definition example_ok :: Response where
  "example_ok = \<lparr>p_Status = ''200 OK'', p_StatusCode = 200, p_Proto = ''HTTP/1.1'', p_ProtoMajor = 1,
     p_ProtoMinor = 1, p_Header = [(''Content-Length'', [''2''])],
     p_Body = Some (TheBody (new_body (SrcLimited 2 (example_reader ''hiX'')) False False)),
     p_ContentLength = 2, p_TransferEncoding = [], p_Close = False, p_Trailer = None\<rparr>"

definition example_responder :: "nat Queue \<Rightarrow> Request list \<Rightarrow> (nat, nat) responder" where
  "example_responder q rs = \<lparr>reader = example_reader
       (''HTTP/1.1 200 OK'' @ CRLF @ ''Content-Length: 2'' @ CRLF @ CRLF @ ''hiX''),
     tmpWriter = NewTempWriter [], client = buffer,
     netRequest = (NewNetHTTPRequest True (cache_New 0) 0)\<lparr>httpRequests := q, store := rs\<rparr>, turn = 0\<rparr>"

lemma read_example_ok:
  "ReadResponse (example_reader (''HTTP/1.1 200 OK'' @ CRLF @ ''Content-Length: 2'' @ CRLF @ CRLF @ ''hiX'')) =
     (Inr example_ok, example_reader ''hiX'')"
proof -
  have line: "readLineSlice (example_reader (''HTTP/1.1 200 OK'' @ CRLF @ ''Content-Length: 2'' @ CRLF @ CRLF @ ''hiX'')) =
      (Inr ''HTTP/1.1 200 OK'', example_reader (''Content-Length: 2'' @ CRLF @ CRLF @ ''hiX''))"
    by (simp add: reader_eval)
  have at: "Atoi ''200'' = Inr 200" 
    by (simp add: Atoi_def ParseInt64_def ParseUint_def is_digit_def digit_val_def)
  have st: "parse_status_line ''HTTP/1.1 200 OK'' = Inr (''HTTP/1.1'', ''200 OK'', 200, 1, 1)"
    by (simp add: parse_status_line_def at ParseHTTPVersion_def Let_def)
  have tr: "TrimSpace ''2'' = ''2''" by (rule TrimSpace_graphic) (simp add: graphic_def)
  have pc: "parseContentLength ''2'' = Inr 2"
    by (simp add: parseContentLength_def tr ParseInt64_def ParseUint_def is_digit_def digit_val_def)
  have fin: "finish_response ''GET'' (''HTTP/1.1'', ''200 OK'', 200, 1, 1)
      [(''Content-Length'', [''2''])] (example_reader ''hiX'') = Inr example_ok"
    by (simp add: finish_response_def fixPragmaCacheControl_def shouldClose_def readTransfer_def rbind_def
        fixTransferEncoding_def fixLength_def dedup_length_def field_values_def noResponseBodyExpected_def
        chunked_def fixTrailer_def Add_def Del_def canonical_ids Let_def tr pc choose_body_def example_ok_def
        new_body_def get_def hasToken_def)
  show ?thesis
    unfolding ReadResponse_def line st post_header prod.case sum.case option.case fin ..
qed

lemma example_ok_facts:
  "ToLower (Get (p_Header example_ok) ''Connection'') \<noteq> ''upgrade''" "bodyAllowedForStatus (p_StatusCode example_ok)"
  "protoAtLeast (p_ProtoMajor example_ok) (p_ProtoMinor example_ok) 1 1"
  "p_Body example_ok = Some (TheBody (new_body (SrcLimited 2 (example_reader ''hiX'')) False False))"
  "p_Trailer example_ok = None" "p_TransferEncoding example_ok = []" "p_StatusCode example_ok = 200"
  "wf_body (new_body (SrcLimited 2 (example_reader ''hiX'')) False False)"
  "meaning (new_body (SrcLimited 2 (example_reader ''hiX'')) False False) = (''hi'', EOF, ''X'')"
  by (simp_all add: example_ok_def Get_def get_def field_values_def canonical_ids ToLower.simps bodyAllowedForStatus_def
      protoAtLeast_def wf_body_def new_body_def wf_bufr_def meaning_def flat_def)

theorem response_turn_forwards_witness:
  "\<exists>st'. response_turn example_config False (example_responder NewQueue []) = Again st' \<and>
     out (client st') = status_line example_ok @ ''Content-Length: 2'' @ CRLF @ CRLF @ ''hi'' \<and>
     flat (reader st') = ''X''"
proof -
  let ?st = "example_responder NewQueue []"
  let ?B = "TheBody (new_body (SrcLimited 2 (example_reader ''hiX'')) False False)"
  have rd: "ReadResponse (reader ?st) = (Inr example_ok, example_reader ''hiX'')"
    using read_example_ok by (simp add: example_responder_def)
  have c: "room (client ?st) = None" "out (client ?st) = []" by (simp_all add: example_responder_def buffer_def)
  have b: "wf_Body ?B" "Body_meaning ?B = (''hi'', EOF, ''X'')" "length ''hi'' < 2 ^ 64"
      "\<not> answers_HEAD (netRequest ?st)"
    using example_ok_facts by (simp_all add: example_responder_def answers_HEAD_def Queue.Peek_def NewQueue_def)
  have f: "concat (map field_text (answer_fields example_ok)) = ''Content-Length: 2'' @ CRLF"
    by (simp add: answer_fields_def example_ok_def field_text_def Itoa_def Let_def) code_simp
  from response_turn_forwards [OF rd example_ok_facts(1) b(4) example_ok_facts(2-4) b(1-3) example_ok_facts(5) c(1),
      of example_config False] c(2) example_ok_facts(6) obtain st' payload where
    "response_turn example_config False ?st = Again st'" "flat (reader st') = ''X''" "delivers [] payload ''hi''"
    "out (client st') = status_line example_ok @ concat (map field_text (answer_fields example_ok)) @ CRLF @ payload"
    by auto
  then show ?thesis unfolding f by (intro exI [of _ st']) (simp add: delivers_def)
qed

end
