(* ===== verification/Transport.thy ===== *)
theory Transport
  imports ResponseHandler
begin

text \<open>
  The transport: \<open>HandleConnection\<close>, \<open>TcpCopyRequest\<close> and \<open>TcpCopyResponse\<close> of
  \<open>pkg/transport/handler.go\<close>, the TCP handler of \<open>pkg/protocol/tcp.go\<close> and the factory of
  \<open>pkg/protocol/factory.go\<close>.

  In routing mode three goroutines serve a client: the request handler, which sends an address per
  request on \<open>addrCh\<close> and waits on \<open>connCh\<close>; the connection loop, which dials and answers; and a
  caller that runs the response handler of each connection in turn, fed through \<open>callCh\<close>. Their
  protocol is a step relation on the program counters and the channels; what the handlers do with
  the bytes is in \<open>HttpHandler\<close> and \<open>ResponseHandler\<close>.
\<close>

section \<open>Handlers\<close>

text \<open>
  \<open>io.CopyBuffer\<close>: read into the buffer, write what was read, stop at the first error of either
  side, at a short write, and quietly at the end of the source. The source delivers segments and
  then the error \<open>e\<close>; the destination is what its \<open>Write\<close> does. A connection may copy with a buffer
  of its own instead of the one it is given, which changes only the size of the reads.
\<close>

function copy_buffer ::
  "(bytes \<Rightarrow> 'w \<Rightarrow> (nat \<times> io_error option) \<times> 'w) \<Rightarrow> nat \<Rightarrow> io_error \<Rightarrow> nat \<Rightarrow> bytes list \<Rightarrow> 'w \<Rightarrow>
     (nat \<times> io_error option) \<times> bytes list \<times> 'w" where
  "copy_buffer wr k e written segs w =
     (if k = 0 then ((written, None), segs, w)
      else case conn_read k segs of
        None \<Rightarrow> ((written, if e = EOF then None else Some e), segs, w)
      | Some (p, segs') \<Rightarrow>
          (case wr p w of
             ((nw, Some ew), w') \<Rightarrow> ((written + nw, Some ew), segs', w')
           | ((nw, None), w') \<Rightarrow>
               if nw \<noteq> length p then ((written + nw, Some ErrShortWrite), segs', w')
               else copy_buffer wr k e (written + nw) segs' w'))"
  by pat_completeness auto
termination
  by (relation "measure (\<lambda>(wr, k, e, n, segs, w). length (concat segs))") (auto dest!: conn_read_SomeD)

declare copy_buffer.simps [simp del]

definition conn_Write :: "bytes \<Rightarrow> writer \<Rightarrow> (nat \<times> io_error option) \<times> writer" where
  \<comment> \<open>\<open>Write\<close> of a connection: all of it, or an error and how much was taken\<close>
  "conn_Write p w = (case WriteString p w of (e, w') \<Rightarrow> ((length (out w') - length (out w), e), w'))"

definition tcp_copy :: "bytes list \<Rightarrow> io_error \<Rightarrow> writer \<Rightarrow> (nat \<times> io_error option) \<times> bytes list \<times> writer" where
  "tcp_copy segs e w = copy_buffer conn_Write copy_buffer_size e 0 segs w"

definition sent_to :: "writer \<Rightarrow> bytes \<Rightarrow> bytes" where
  \<comment> \<open>what a connection takes of a stream\<close>
  "sent_to w s = (case room w of None \<Rightarrow> s | Some n \<Rightarrow> take n s)"

lemma conn_Write_cases:
  obtains "length (sent_to w p) = length p" "conn_Write p w = ((length p, None), w\<lparr>out := out w @ p, room := map_option (\<lambda>n. n - length p) (room w)\<rparr>)"
  | "length (sent_to w p) < length p" "conn_Write p w = ((length (sent_to w p), Some ErrWrite), w\<lparr>out := out w @ sent_to w p, room := Some 0\<rparr>)"
proof (cases "room w")
  case None
  then show thesis using that(1) by (cases w) (simp add: sent_to_def conn_Write_def WriteString_def)
next
  case (Some n)
  then show thesis using that
    by (cases w; cases "length p \<le> n") (simp_all add: sent_to_def conn_Write_def WriteString_def min_def)
qed

lemma sent_to_append:
  "length (sent_to w p) = length p \<Longrightarrow>
   sent_to w (p @ s) = p @ sent_to (w\<lparr>out := x, room := map_option (\<lambda>n. n - length p) (room w)\<rparr>) s"
  "length (sent_to w p) < length p \<Longrightarrow> sent_to w (p @ s) = sent_to w p"
  by (auto simp: sent_to_def min_def split: option.splits if_splits)

lemma copy_buffer_exact:
  "0 < k \<Longrightarrow> \<exists>rest w'. copy_buffer conn_Write k e n segs w =
     ((n + length (sent_to w (concat segs)),
       if length (sent_to w (concat segs)) < length (concat segs) then Some ErrWrite else if e = EOF then None else Some e), rest, w') \<and>
     out w' = out w @ sent_to w (concat segs) \<and> (length (sent_to w (concat segs)) = length (concat segs) \<longrightarrow> concat rest = [])"
proof (induction "conn_Write" k e n segs w rule: copy_buffer.induct)
  case (1 k e n segs w)
  show ?case
  proof (cases "conn_read k segs")
    case None
    then have cs: "concat segs = []" by (simp only: conn_read_None_iff)
    have none: "sent_to w [] = []" by (simp add: sent_to_def split: option.split)
    have "copy_buffer conn_Write k e n segs w = ((n, if e = EOF then None else Some e), segs, w)"
      using None "1.prems" by (subst copy_buffer.simps) simp
    then show ?thesis unfolding cs none using cs by (intro exI [of _ segs] exI [of _ w]) simp
  next
    case (Some x)
    obtain p segs' where x: "x = (p, segs')" by fastforce
    from conn_read_SomeD [OF Some [unfolded x]] have c: "concat segs = p @ concat segs'" by blast
    show ?thesis
    proof (cases rule: conn_Write_cases [of w p])
      case 1
      let ?w = "w\<lparr>out := out w @ p, room := map_option (\<lambda>n. n - length p) (room w)\<rparr>"
      have step: "copy_buffer conn_Write k e n segs w = copy_buffer conn_Write k e (n + length p) segs' ?w"
        using "1.prems" Some x 1(2) by (subst copy_buffer.simps) simp
      have s: "sent_to w (p @ concat segs') = p @ sent_to ?w (concat segs')" by (rule sent_to_append(1) [OF 1(1)])
      from "1.hyps" [OF _ Some x [symmetric] 1(2) [symmetric] refl refl] "1.prems" show ?thesis unfolding step c s by (simp add: add.assoc)
    next
      case 2
      have "copy_buffer conn_Write k e n segs w = ((n + length (sent_to w p), Some ErrWrite), segs',
          w\<lparr>out := out w @ sent_to w p, room := Some 0\<rparr>)"
        using "1.prems" Some x 2(2) by (subst copy_buffer.simps) simp
      with 2(1) sent_to_append(2) [OF 2(1)] c show ?thesis by simp
    qed
  qed
qed

record tcp_handler =
  tcp_w :: "nat option"
  tcp_writers :: "writer list"
  tcp_addrs :: "string list"

definition TCPHandler_HandleRequest ::
  "(nat \<Rightarrow> string \<Rightarrow> writer option) \<Rightarrow> string \<Rightarrow> bytes list \<Rightarrow> io_error \<Rightarrow> tcp_handler \<Rightarrow> tcp_handler" where
  "TCPHandler_HandleRequest dialer originalDst segs e st0 =
     (let st = (case tcp_w st0 of
          Some w \<Rightarrow> st0
        | None \<Rightarrow>
            let st1 = st0\<lparr>tcp_addrs := tcp_addrs st0 @ [originalDst]\<rparr> in
            (case dialer (length (tcp_addrs st0)) originalDst of
               None \<Rightarrow> st1
             | Some target \<Rightarrow>
                 st1\<lparr>tcp_w := Some (length (tcp_writers st1)), tcp_writers := tcp_writers st1 @ [target]\<rparr>)) in
      case tcp_w st of
        None \<Rightarrow> st
      | Some w \<Rightarrow> st\<lparr>tcp_writers := (tcp_writers st)[w := snd (snd (tcp_copy segs e (tcp_writers st ! w)))]\<rparr>)"

definition TCPHandler_HandleResponse :: "bytes list \<Rightarrow> io_error \<Rightarrow> writer \<Rightarrow> writer" where
  "TCPHandler_HandleResponse segs e w = snd (snd (tcp_copy segs e w))"

definition NetTCPRequest_StartRequest :: "unit \<Rightarrow> unit" where "NetTCPRequest_StartRequest r = r"
definition NetTCPRequest_StopRequest :: "unit \<Rightarrow> unit" where "NetTCPRequest_StopRequest r = r"
definition NetTCPRequest_CleanUp :: "unit \<Rightarrow> unit" where "NetTCPRequest_CleanUp r = r"

datatype net_handler = HTTPHandler | TCPHandler

definition GetNetworkHandler :: "Proto \<Rightarrow> net_handler" where
  "GetNetworkHandler proto = (if proto = HTTPProto then HTTPHandler else TCPHandler)"

datatype ('s, 'c) net_request = TheHTTPRequest "('s, 'c) NetHTTPRequest" | TheTCPRequest

definition GetNetRequest :: "Proto \<Rightarrow> bool \<Rightarrow> 'c cache \<Rightarrow> 's \<Rightarrow> ('s, 'c) net_request" where
  "GetNetRequest proto inbound mapping ts =
     (if proto = HTTPProto then TheHTTPRequest (NewNetHTTPRequest inbound mapping ts) else TheTCPRequest)"

section \<open>Accepting a connection\<close>

datatype ('s, 'c) serve =
    Ignored                        \<comment> \<open>no connection\<close>
  | ClosedEarly                    \<comment> \<open>the client's connection is closed again\<close>
  | Panicked
  | Relay net_handler "('s, 'c) net_request" bool string   \<comment> \<open>connected to the original destination\<close>
  | Route net_handler "('s, 'c) net_request" bool string

definition HandleConnection ::
  "NetraConfig \<Rightarrow> HTTPConfig \<Rightarrow> 'c cache \<Rightarrow> 's \<Rightarrow> bool \<Rightarrow> bool \<Rightarrow> multiaddr option \<Rightarrow> string \<Rightarrow>
     (string \<Rightarrow> bool) \<Rightarrow> (string \<Rightarrow> bool) \<Rightarrow> ('s, 'c) serve" where
  \<comment> \<open>the arguments after the configuration: whether there is a connection, whether its file could
     be had, the answer of \<open>getsockopt\<close>, the local address, and whether an address can be resolved and dialled.
     This is the part up to the start of the handlers; \<open>Panicked\<close> is a panic of this part. Of the handlers, which run
     in goroutines of their own, \<open>StartRequest\<close> can panic (\<open>StartRequest_checked\<close>)\<close>
  "HandleConnection nc hc mapping ts conn file sockopt localAddr resolves dials =
     (if \<not> conn then Ignored
      else if \<not> file then ClosedEarly
      else case sockopt of
        None \<Rightarrow> ClosedEarly
      | Some addr \<Rightarrow>
          let inbound = isInBoundConn addr localAddr; dst = originalDstAddr addr in
          (case Determine (HTTPProtoPorts nc) dst of
             None \<Rightarrow> Panicked
           | Some p \<Rightarrow>
               let r = GetNetRequest p inbound mapping ts; h = GetNetworkHandler p in
               if RoutingEnabled hc then Route h r inbound dst
               else if resolves dst \<and> dials dst then Relay h r inbound dst
               else ClosedEarly))"

section \<open>The goroutines of a routed connection\<close>

text \<open>
  An address that is sent is never empty, so the connection loop takes no address for the closed
  channel.
\<close>

lemma routed_address_nonempty:
  assumes "getRoutingDestination v host dst = Inr addr" "dst \<noteq> []"
  shows "addr \<noteq> []"
proof -
  have "route_pairs v host dst ps = Inr addr \<Longrightarrow> addr \<noteq> []" for ps
    using assms(2) by (induction ps) (auto simp: Let_def Contains_def split: if_splits)
  with assms(1) show ?thesis by (simp add: getRoutingDestination_def)
qed

lemma originalDstAddr_nonempty: "originalDstAddr a \<noteq> []"
  by (simp add: originalDstAddr_def)

datatype q_pc =
    QRead                \<comment> \<open>the request handler reads the client\<close>
  | QSend string         \<comment> \<open>\<open>addrCh <- addr\<close>\<close>
  | QWait                \<comment> \<open>\<open>w = <-connCh\<close>\<close>
  | QForward             \<comment> \<open>it writes to its connection\<close>
  | QReturn              \<comment> \<open>about to run \<open>close(addrCh)\<close>\<close>
  | QDone

datatype m_pc =
    MWait                \<comment> \<open>\<open>dstAddr := <-addrCh\<close>\<close>
  | MDial string
  | MAnswer "nat option" \<comment> \<open>\<open>connCh <- targetConn\<close>, or nil\<close>
  | MAdd nat             \<comment> \<open>\<open>wg.Add(1)\<close>\<close>
  | MSpawn nat           \<comment> \<open>\<open>callCh <- respRoutine\<close>\<close>
  | MDone

datatype c_pc = CIdle | CRun nat | CDone

record routed =
  pc_q :: q_pc
  pc_m :: m_pc
  pc_c :: c_pc
  addrCh_closed :: bool
  connCh_closed :: bool
  callCh :: "nat list"
  callCh_closed :: bool
  wg :: int
  opened :: nat            \<comment> \<open>connections opened so far, numbered from 0\<close>
  served :: "nat list"     \<comment> \<open>connections whose response routine has ended\<close>

definition routed_start :: routed where
  "routed_start = \<lparr>pc_q = QRead, pc_m = MWait, pc_c = CIdle, addrCh_closed = False, connCh_closed = False,
     callCh = [], callCh_closed = False, wg = 0, opened = 0, served = []\<rparr>"

definition M_return :: "routed \<Rightarrow> routed" where
  \<comment> \<open>\<open>close(connCh)\<close>, \<open>close(callCh)\<close> and return\<close>
  "M_return s = s\<lparr>pc_m := MDone, connCh_closed := True, callCh_closed := True\<rparr>"

inductive routed_step :: "routed \<Rightarrow> routed \<Rightarrow> bool" where
  ask: "pc_q s = QRead \<Longrightarrow> a \<noteq> '''' \<Longrightarrow> routed_step s (s\<lparr>pc_q := QSend a\<rparr>)"
| send_addr: "pc_q s = QSend a \<Longrightarrow> pc_m s = MWait \<Longrightarrow> routed_step s (s\<lparr>pc_q := QWait, pc_m := MDial a\<rparr>)"
| dial_ok: "pc_m s = MDial a \<Longrightarrow> routed_step s (s\<lparr>pc_m := MAnswer (Some (opened s)), opened := Suc (opened s)\<rparr>)"
| dial_fails: "pc_m s = MDial a \<Longrightarrow> routed_step s (s\<lparr>pc_m := MAnswer None\<rparr>)"
| send_conn: "pc_q s = QWait \<Longrightarrow> pc_m s = MAnswer (Some k) \<Longrightarrow> routed_step s (s\<lparr>pc_q := QForward, pc_m := MAdd k\<rparr>)"
| send_nil: "pc_q s = QWait \<Longrightarrow> pc_m s = MAnswer None \<Longrightarrow> routed_step s (M_return (s\<lparr>pc_q := QReturn\<rparr>))"
| add_wait: "pc_m s = MAdd k \<Longrightarrow> routed_step s (s\<lparr>pc_m := MSpawn k, wg := wg s + 1\<rparr>)"
| spawn: "pc_m s = MSpawn k \<Longrightarrow> length (callCh s) < 10 \<Longrightarrow>
    routed_step s (s\<lparr>pc_m := MWait, callCh := callCh s @ [k]\<rparr>)"
| forwarded: "pc_q s = QForward \<Longrightarrow> routed_step s (s\<lparr>pc_q := QRead\<rparr>)"
| handler_returns: "pc_q s = QRead \<or> pc_q s = QForward \<Longrightarrow> routed_step s (s\<lparr>pc_q := QReturn\<rparr>)"
| close_addr: "pc_q s = QReturn \<Longrightarrow> routed_step s (s\<lparr>pc_q := QDone, addrCh_closed := True\<rparr>)"
| sees_close: "pc_m s = MWait \<Longrightarrow> addrCh_closed s \<Longrightarrow> routed_step s (M_return s)"
| take_call: "pc_c s = CIdle \<Longrightarrow> callCh s = k # ks \<Longrightarrow> routed_step s (s\<lparr>pc_c := CRun k, callCh := ks\<rparr>)"
| call_ends: "pc_c s = CRun k \<Longrightarrow> routed_step s (s\<lparr>pc_c := CIdle, wg := wg s - 1, served := served s @ [k]\<rparr>)"
| caller_exits: "pc_c s = CIdle \<Longrightarrow> callCh s = [] \<Longrightarrow> callCh_closed s \<Longrightarrow> routed_step s (s\<lparr>pc_c := CDone\<rparr>)"

inductive_cases routed_stepE: "routed_step s s'"

definition routed_reachable :: "routed \<Rightarrow> bool" where
  "routed_reachable s \<longleftrightarrow> routed_step\<^sup>*\<^sup>* routed_start s"

text \<open>What Go panics on: a send on a closed channel, closing twice, and a negative wait group.\<close>

definition panics :: "routed \<Rightarrow> bool" where
  "panics s \<longleftrightarrow>
     (\<exists>a. pc_q s = QSend a) \<and> addrCh_closed s \<or>
     (\<exists>k. pc_m s = MAnswer k) \<and> connCh_closed s \<or>
     (\<exists>k. pc_m s = MSpawn k) \<and> callCh_closed s \<or>
     pc_q s = QReturn \<and> addrCh_closed s \<or>
     pc_m s = MWait \<and> addrCh_closed s \<and> (connCh_closed s \<or> callCh_closed s) \<or>
     wg s < 0"

definition running :: "routed \<Rightarrow> nat list" where
  "running s = (case pc_c s of CRun k \<Rightarrow> [k] | _ \<Rightarrow> [])"

definition unspawned :: "routed \<Rightarrow> nat list" where
  "unspawned s = (case pc_m s of MAnswer (Some k) \<Rightarrow> [k] | MAdd k \<Rightarrow> [k] | MSpawn k \<Rightarrow> [k] | _ \<Rightarrow> [])"

definition routed_inv :: "routed \<Rightarrow> bool" where
  "routed_inv s \<longleftrightarrow>
     (addrCh_closed s \<longleftrightarrow> pc_q s = QDone) \<and>
     (connCh_closed s \<longleftrightarrow> pc_m s = MDone) \<and> (callCh_closed s \<longleftrightarrow> pc_m s = MDone) \<and>
     (pc_q s = QWait \<longleftrightarrow> (\<exists>a. pc_m s = MDial a) \<or> (\<exists>k. pc_m s = MAnswer k)) \<and>
     (pc_m s = MDone \<longrightarrow> pc_q s = QReturn \<or> pc_q s = QDone) \<and>
     (pc_c s = CDone \<longrightarrow> callCh s = [] \<and> pc_m s = MDone) \<and>
     wg s = int (length (callCh s) + length (running s)) + (case pc_m s of MSpawn k \<Rightarrow> 1 | _ \<Rightarrow> 0) \<and>
     served s @ running s @ callCh s @ unspawned s = [0..<opened s]"

lemma routed_inv_start: "routed_inv routed_start"
  by (simp add: routed_inv_def routed_start_def running_def unspawned_def)

lemma routed_inv_step: "routed_step s s' \<Longrightarrow> routed_inv s \<Longrightarrow> routed_inv s'"
proof (induction rule: routed_step.induct)
  case (call_ends s k)
  then show ?case by (simp add: routed_inv_def running_def unspawned_def)
qed (auto simp: routed_inv_def running_def unspawned_def M_return_def split: option.splits)

lemma routed_reachable_inv: "routed_reachable s \<Longrightarrow> routed_inv s"
  unfolding routed_reachable_def
  by (induction rule: rtranclp_induct) (auto intro: routed_inv_start routed_inv_step)


lemma routed_inv_no_panic: "routed_inv s \<Longrightarrow> \<not> panics s"
  by (auto simp: routed_inv_def panics_def split: m_pc.splits)

lemma routed_inv_progress:
  assumes "routed_inv s"
  shows "pc_q s = QDone \<and> pc_m s = MDone \<and> pc_c s = CDone \<or> (\<exists>s'. routed_step s s')"
proof (cases "pc_c s")
  case (CRun k)
  then show ?thesis using call_ends by blast
next
  case CDone
  then have d: "pc_m s = MDone" "pc_q s = QReturn \<or> pc_q s = QDone" using assms by (auto simp: routed_inv_def)
  with CDone show ?thesis using close_addr by blast
next
  case CIdle
  show ?thesis
  proof (cases "callCh s")
    case (Cons k ks)
    with CIdle show ?thesis using take_call by blast
  next
    case Nil
    show ?thesis
    proof (cases "pc_m s")
      case MWait
      show ?thesis
      proof (cases "pc_q s")
        case QDone
        then have "addrCh_closed s" using assms by (simp add: routed_inv_def)
        with MWait show ?thesis using sees_close by blast
      next
        case QWait
        with MWait assms show ?thesis by (auto simp: routed_inv_def)
      qed (use MWait ask send_addr handler_returns close_addr in blast)+
    next
      case (MAnswer k)
      then have "pc_q s = QWait" using assms by (auto simp: routed_inv_def)
      with MAnswer show ?thesis using send_conn send_nil by (cases k) blast+
    next
      case MDone
      then have "callCh_closed s" using assms by (simp add: routed_inv_def)
      with CIdle Nil show ?thesis using caller_exits by blast
    next
      case (MSpawn k)
      with Nil have "length (callCh s) < 10" by simp
      with MSpawn show ?thesis using spawn by blast
    qed (use dial_ok add_wait in blast)+
  qed
qed

text \<open>
  (C7) The goroutines of a routed connection use their channels correctly. In every reachable
  state none of them is about to send on or close a closed channel and the wait group is not
  negative; the connections whose responses were handled, are being handled, are queued or are
  about to be queued are exactly those that were opened, in the order in which they were opened,
  so responses reach the client in the order of the requests.
\<close>
theorem routed_channels_safe:
  assumes "routed_reachable s"
  shows "\<not> panics s \<and> served s @ running s @ callCh s @ unspawned s = [0..<opened s]"
  using routed_reachable_inv [OF assms] routed_inv_no_panic by (auto simp: routed_inv_def)

text \<open>
  (C8) The goroutines of a routed connection cannot block each other for good: in every reachable
  state one of them can go on, until all three have ended, and then the response handler has run
  for every connection that was opened.
\<close>
theorem routed_no_deadlock:
  assumes "routed_reachable s"
  shows "(\<exists>s'. routed_step s s') \<or>
     pc_q s = QDone \<and> pc_m s = MDone \<and> pc_c s = CDone \<and> served s = [0..<opened s]"
proof -
  note inv = routed_reachable_inv [OF assms]
  have "served s = [0..<opened s]" if "pc_m s = MDone" "pc_c s = CDone"
    using inv that by (auto simp: routed_inv_def running_def unspawned_def)
  with routed_inv_progress [OF inv] show ?thesis by blast
qed

definition one_request :: routed where
  "one_request = \<lparr>pc_q = QForward, pc_m = MAdd 0, pc_c = CIdle, addrCh_closed = False, connCh_closed = False,
     callCh = [], callCh_closed = False, wg = 0, opened = 1, served = []\<rparr>"

lemma one_request_reachable: "routed_reachable one_request"
proof -
  let ?s1 = "routed_start\<lparr>pc_q := QSend ''a:1''\<rparr>"
  let ?s2 = "?s1\<lparr>pc_q := QWait, pc_m := MDial ''a:1''\<rparr>"
  let ?s3 = "?s2\<lparr>pc_m := MAnswer (Some (opened ?s2)), opened := Suc (opened ?s2)\<rparr>"
  let ?s4 = "?s3\<lparr>pc_q := QForward, pc_m := MAdd 0\<rparr>"
  have "routed_step routed_start ?s1" by (rule ask) (simp_all add: routed_start_def)
  moreover have "routed_step ?s1 ?s2" by (rule send_addr) (simp_all add: routed_start_def)
  moreover have "routed_step ?s2 ?s3" by (rule dial_ok) simp
  moreover have "routed_step ?s3 ?s4" by (rule send_conn) (simp_all add: routed_start_def)
  ultimately have "routed_step\<^sup>*\<^sup>* routed_start ?s4"
    by (meson converse_rtranclp_into_rtranclp rtranclp.rtrancl_refl)
  moreover have "?s4 = one_request" by (simp add: routed_start_def one_request_def)
  ultimately show ?thesis by (simp add: routed_reachable_def)
qed

theorem routed_channels_safe_witness: "\<not> panics one_request \<and> unspawned one_request = [0]"
  using routed_channels_safe [OF one_request_reachable]
  by (simp add: one_request_def running_def)

theorem routed_no_deadlock_witness: "\<exists>s'. routed_step one_request s'"
  using routed_no_deadlock [OF one_request_reachable] by (simp add: one_request_def)

section \<open>What was sent is never taken back\<close>

locale relay =
  fixes handle :: "'st \<Rightarrow> 'st"
    and sent :: "'st \<Rightarrow> bytes list"
  assumes grows: "i < length (sent st) \<Longrightarrow> i < length (sent (handle st)) \<and> prefix (sent st ! i) (sent (handle st) ! i)"
begin

lemma grows_run:
  "i < length (sent st) \<Longrightarrow> i < length (sent ((handle ^^ n) st)) \<and> prefix (sent st ! i) (sent ((handle ^^ n) st) ! i)"
proof (induction n)
  case (Suc n)
  with grows [of i "(handle ^^ n) st"] show ?case by (auto intro: prefix_order.trans)
qed simp

end

definition sent_le :: "writer list \<Rightarrow> writer list \<Rightarrow> bool" where
  "sent_le ws ws' \<longleftrightarrow> length ws \<le> length ws' \<and> (\<forall>i < length ws. extends (ws ! i) (ws' ! i))"

lemma sent_le_refl [simp]: "sent_le ws ws" by (simp add: sent_le_def)

lemma sent_le_trans: "sent_le a b \<Longrightarrow> sent_le b c \<Longrightarrow> sent_le a c"
  unfolding sent_le_def by (meson extends_trans less_le_trans order_trans)

lemma sent_le_update: "extends (ws ! w) x \<Longrightarrow> sent_le ws (ws[w := x])"
  by (auto simp: sent_le_def) (metis extends_refl nth_list_update_eq nth_list_update_neq)

lemma sent_le_append: "sent_le ws (ws @ xs)"
  by (simp add: sent_le_def nth_append)

lemma fall_back_extends: "extends w (snd (fall_back tmp r w))"
proof -
  obtain bs tmp1 where c: "copy_temp 65535 tmp = (bs, tmp1)" by fastforce
  obtain e1 w1 where w1: "WriteString bs w = (e1, w1)" by fastforce
  obtain e2 w2 where w2: "copy_rest r w1 = (e2, w2)" by fastforce
  have "extends w w1" "extends w1 w2"
    using WriteString_extends' [OF w1] write_all_extends w2 unfolding copy_rest_def by blast+
  then show ?thesis using c w1 w2 by (simp add: fall_back_def extends_trans)
qed

lemma writeSubset_extends: "writeSubset ex h w = (e, w') \<Longrightarrow> extends w w'"
  unfolding writeSubset_def by (rule write_all_extends)

lemma writeHeader_extends: "writeHeader t w = (e, w') \<Longrightarrow> extends w w'"
  by (auto simp: writeHeader_def Let_def split: prod.splits option.splits if_splits
      dest!: write_all_extends WriteString_extends' intro: extends_trans)

lemma step_extends:
  \<comment> \<open>one write, after which the error is returned or the rest goes on\<close>
  assumes "extends w (snd r)" "\<And>w1. r = (None, w1) \<Longrightarrow> extends w1 (snd (g w1))" "\<And>e w1. snd (f e w1) = w1"
  shows "extends w (snd (case r of (Some e, w1) \<Rightarrow> f e w1 | (None, w1) \<Rightarrow> g w1))"
  using assms by (cases r) (auto split: option.split intro: extends_trans)

lemma snd_extends:
  "extends w (snd (write_all ss w))" "extends w (snd (writeSubset ex h w))" "extends w (snd (writeHeader t w))"
  using write_all_extends writeSubset_extends writeHeader_extends by (metis surjective_pairing)+

lemma Request_write_extends: "extends w (snd (Request_write probe toA r w))"
  unfolding Request_write_def
  by (intro step_extends snd_extends WriteString_extends)
    (auto split: sum.split intro!: step_extends snd_extends WriteString_extends writeBody_extends)

lemma Response_Write_extends: "extends w (snd (Response_Write r w))"
proof -
  obtain e1 r1 where pr: "probe_response r = (e1, r1)" by fastforce
  show ?thesis
  proof (cases e1)
    case None
    show ?thesis
      unfolding Response_Write_def pr None prod.case option.case Let_def
      by (intro step_extends snd_extends WriteString_extends writeBody_extends) simp_all
  next
    case (Some e)
    show ?thesis
      unfolding Response_Write_def pr Some prod.case option.case
      by (intro step_extends WriteString_extends) simp_all
  qed
qed

subsection \<open>The request loop\<close>

lemma send_all_on_le: "sent_le (writers st) (writers (send_all_on w st))"
  using fall_back_extends [of "writers st ! w" "handler.tmpWriter st" "handler.reader st"]
  by (auto simp: send_all_on_def split: prod.split intro: sent_le_update)

lemma forward_request_le: "sent_le (writers st) (writers (forward_request env inb w req st))"
proof -
  let ?nr = "handler.netRequest st" and ?now = "clock env (handler.turn st)" and ?hc = "http_config env"
  let ?req = "if inb then req else req\<lparr>r_Header := outbound_header (the_tracer env) ?hc ?now
      (tracingContextMapping ?nr) (r_Header req)\<rparr>"
  let ?nr1 = "StartRequest (the_tracer env) ?hc (header_order env) ?now
      (SetHTTPRequest (length (store ?nr)) (?nr\<lparr>store := store ?nr @ [?req]\<rparr>))"
  obtain e B' w' where rw: "Request_write unused_probe (toASCII env) (store ?nr1 ! length (store ?nr)) (writers st ! w) =
      ((e, B'), w')" by (metis surj_pair)
  have "extends (writers st ! w) w'" using Request_write_extends [of "writers st ! w"] rw by (metis snd_conv)
  with rw show ?thesis by (simp add: forward_request_def Let_def sent_le_update)
qed

lemma choose_connection_le:
  "choose_connection env inb dst req st = (st', req') \<Longrightarrow> sent_le (writers st) (writers st')"
  by (auto simp: choose_connection_def Let_def sent_le_append split: if_splits prod.splits option.splits)

fun outcome_state :: "'st outcome \<Rightarrow> 'st" where
  "outcome_state (Again st) = st"
| "outcome_state (Done st) = st"

lemma request_turn_le: "sent_le (writers st) (writers (outcome_state (request_turn env inb dst st)))"
proof -
  obtain res b where rr: "ReadRequest (handler.reader st) = (res, b)" by fastforce
  let ?st1 = "st\<lparr>handler.reader := b, handler.tmpWriter := tee_reads (handler.reader st) b (Start (handler.tmpWriter st))\<rparr>"
  have s1: "writers ?st1 = writers st" by simp
  show ?thesis
  proof (cases res)
    case (Inl e)
    have "sent_le (writers st) (writers (send_all_on w (set_remote env inb w ?st1)))" for w
      using send_all_on_le [of "set_remote env inb w ?st1" w] by simp
    with rr Inl show ?thesis
      by (auto simp: request_turn_def Let_def split: option.split)
  next
    case (Inr req0)
    let ?req1 = "ensure_request_id (http_config env) (uuid env (handler.turn st)) req0"
    obtain st2 req2 where cc: "choose_connection env inb dst ?req1 ?st1 = (st2, req2)" by fastforce
    have le: "sent_le (writers st) (writers st2)" using choose_connection_le [OF cc] s1 by simp
    have "sent_le (writers st2) (writers (send_all_on w (set_remote env inb w st2)))"
      "sent_le (writers st2) (writers (forward_request env inb w req2 (set_remote env inb w st2)))" for w
      using send_all_on_le [of "set_remote env inb w st2" w] forward_request_le [of "set_remote env inb w st2" env inb w req2]
      by simp_all
    then have "sent_le (writers st) (writers (send_all_on w (set_remote env inb w st2)))"
      "sent_le (writers st) (writers (forward_request env inb w req2 (set_remote env inb w st2)))" for w
      using le sent_le_trans by blast+
    with rr Inr cc le show ?thesis
      by (auto simp: request_turn_def Let_def split: option.split)
  qed
qed

lemma HandleRequest_le: "sent_le (writers st) (writers (HandleRequest env other inb dst st))"
proof (induction env other inb dst st rule: HandleRequest.induct)
  case (1 env other inb dst st)
  let ?st = "st\<lparr>handler.netRequest := other (handler.turn st) (handler.netRequest st)\<rparr>"
  have le: "sent_le (writers st) (writers (outcome_state (request_turn env inb dst ?st)))"
    using request_turn_le [of ?st env inb dst] by simp
  show ?case
  proof (cases "request_turn env inb dst ?st")
    case (Done st')
    with le show ?thesis by (subst HandleRequest.simps) simp
  next
    case (Again st')
    with le "1.IH" [OF Again] show ?thesis by (subst HandleRequest.simps) (auto intro: sent_le_trans)
  qed
qed

subsection \<open>The response loop\<close>

lemma response_turn_le: "extends (client st) (client (outcome_state (response_turn hc fc st)))"
proof -
  have "extends (client s) (client (send_all_back s))" for s :: "('a, 'b) responder"
    using fall_back_extends [of "client s" "tmpWriter s" "reader s"]
    by (auto simp: send_all_back_def split: prod.split)
  moreover have "extends (client s) (client (forward_response hc fc resp s))" for s :: "('a, 'b) responder" and resp
    using Response_Write_extends [of "client s"]
    by (auto simp: forward_response_def Let_def split: prod.split) (metis snd_conv)+
  ultimately show ?thesis
    by (auto simp: response_turn_def Let_def split: prod.split sum.split)
      (metis responder.select_convs(3) responder.surjective responder.update_convs(1,2))+
qed

lemma HandleResponse_le: "extends (client st) (client (HandleResponse hc other fc st))"
proof (induction hc other fc st rule: HandleResponse.induct)
  case (1 hc other fc st)
  let ?st = "st\<lparr>netRequest := other (turn st) (netRequest st)\<rparr>"
  have le: "extends (client st) (client (outcome_state (response_turn hc fc ?st)))"
    using response_turn_le [of ?st hc fc] by simp
  show ?case
  proof (cases "response_turn hc fc ?st")
    case (Done st')
    with le show ?thesis by (subst HandleResponse.simps) simp
  next
    case (Again st')
    with le "1.IH" [OF Again] show ?thesis by (subst HandleResponse.simps) (auto intro: extends_trans)
  qed
qed

interpretation http_requests: relay "HandleRequest env other inb dst" "\<lambda>st. map out (writers st)"
  for env other inb dst
proof
  fix i and st :: "('a, 'b) handler"
  assume "i < length (map out (writers st))"
  with HandleRequest_le [of st env other inb dst] show "i < length (map out (writers (HandleRequest env other inb dst st))) \<and>
      prefix (map out (writers st) ! i) (map out (writers (HandleRequest env other inb dst st)) ! i)"
    by (auto simp: sent_le_def extends_def)
qed

interpretation http_responses: relay "HandleResponse hc other fc" "\<lambda>st. [out (client st)]"
  for hc other fc
  by unfold_locales (use HandleResponse_le in \<open>auto simp: extends_def\<close>)

lemma tcp_copy_out: "out (snd (snd (tcp_copy segs e w))) = out w @ sent_to w (concat segs)"
proof -
  have "0 < copy_buffer_size" by (simp add: copy_buffer_size_def)
  from copy_buffer_exact [OF this, of e 0 segs w] show ?thesis by (auto simp: tcp_copy_def)
qed

lemma TCPHandler_HandleRequest_le:
  "sent_le (tcp_writers st) (tcp_writers (TCPHandler_HandleRequest dialer dst segs e st))"
proof -
  have step: "sent_le ws (ws[w := snd (snd (tcp_copy segs e (ws ! w)))])" for ws w
    by (intro sent_le_update) (simp add: extends_def tcp_copy_out)
  show ?thesis
  proof (cases "tcp_w st")
    case (Some w)
    with step [of "tcp_writers st" w] show ?thesis by (simp add: TCPHandler_HandleRequest_def)
  next
    case None
    show ?thesis
    proof (cases "dialer (length (tcp_addrs st)) dst")
      case (Some x)
      let ?ws = "tcp_writers st @ [x]" and ?n = "length (tcp_writers st)"
      from sent_le_trans [OF sent_le_append [of "tcp_writers st" "[x]"] step [of ?ws ?n]] None Some show ?thesis
        by (simp add: TCPHandler_HandleRequest_def Let_def)
    qed (simp add: TCPHandler_HandleRequest_def None Let_def)
  qed
qed

interpretation tcp_requests: relay "TCPHandler_HandleRequest dialer dst segs e" "\<lambda>st. map out (tcp_writers st)"
  for dialer dst segs e
proof
  fix i and st :: tcp_handler
  assume "i < length (map out (tcp_writers st))"
  then show "i < length (map out (tcp_writers (TCPHandler_HandleRequest dialer dst segs e st))) \<and>
      prefix (map out (tcp_writers st) ! i) (map out (tcp_writers (TCPHandler_HandleRequest dialer dst segs e st)) ! i)"
    using TCPHandler_HandleRequest_le [of st dialer dst segs e] by (auto simp: sent_le_def extends_def)
qed

text \<open>
  (C30) The copy loop of a TCP connection is exact, in both directions. Whatever the segments in
  which the source delivers its bytes and whatever the size of the buffer, the destination is sent
  the whole stream, in order, or as much of it as it takes; the count returned is what was sent; an
  error is returned exactly when the destination refuses bytes or the source ends with something
  other than the end of its stream. So is what the handlers do: a response goes to the client, a
  request to the connection the handler has or, in routing mode, to the one it opens to the original
  destination; when none can be opened, nothing is sent anywhere.
\<close>
theorem tcp_relay_exact:
  assumes "0 < k" and "\<And>w. tcp_w st = Some w \<Longrightarrow> w < length (tcp_writers st)"
  shows "(\<exists>rest w'. copy_buffer conn_Write k e 0 segs w =
       ((length (sent_to w (concat segs)),
         if length (sent_to w (concat segs)) < length (concat segs) then Some ErrWrite else if e = EOF then None else Some e), rest, w') \<and>
       out w' = out w @ sent_to w (concat segs)) \<and>
     out (TCPHandler_HandleResponse segs e w) = out w @ sent_to w (concat segs) \<and>
     (let st' = TCPHandler_HandleRequest dialer dst segs e st in
      case tcp_w st of
        Some i \<Rightarrow> map out (tcp_writers st') =
          (map out (tcp_writers st))[i := out (tcp_writers st ! i) @ sent_to (tcp_writers st ! i) (concat segs)]
      | None \<Rightarrow> tcp_addrs st' = tcp_addrs st @ [dst] \<and>
          (case dialer (length (tcp_addrs st)) dst of
             None \<Rightarrow> tcp_w st' = None \<and> tcp_writers st' = tcp_writers st
           | Some x \<Rightarrow> tcp_w st' = Some (length (tcp_writers st)) \<and>
               map out (tcp_writers st') = map out (tcp_writers st) @ [out x @ sent_to x (concat segs)]))"
proof -
  have "\<exists>rest w'. copy_buffer conn_Write k e 0 segs w =
       ((length (sent_to w (concat segs)),
         if length (sent_to w (concat segs)) < length (concat segs) then Some ErrWrite else if e = EOF then None else Some e), rest, w') \<and>
       out w' = out w @ sent_to w (concat segs)"
    using copy_buffer_exact [OF assms(1), of e 0 segs w] by (metis add_0)
  moreover have "out (TCPHandler_HandleResponse segs e w) = out w @ sent_to w (concat segs)"
    by (simp add: TCPHandler_HandleResponse_def tcp_copy_out)
  ultimately show ?thesis
    by (auto simp: TCPHandler_HandleRequest_def Let_def map_update tcp_copy_out split: option.split)
qed

theorem tcp_relay_exact_witness:
  "out (TCPHandler_HandleResponse [''ab'', ''c''] EOF buffer) = ''abc'' \<and>
   map out (tcp_writers (TCPHandler_HandleRequest (\<lambda>n a. Some \<lparr>out = [], room = Some 2\<rparr>) ''d:1'' [''ab'', ''c''] EOF
      \<lparr>tcp_w = None, tcp_writers = [], tcp_addrs = []\<rparr>)) = [''ab'']"
  using tcp_relay_exact [of 7 "\<lparr>tcp_w = None, tcp_writers = [], tcp_addrs = []\<rparr>" EOF "[''ab'', ''c'']" buffer
      "\<lambda>n a. Some \<lparr>out = [], room = Some 2\<rparr>" "''d:1''"]
  by (simp add: Let_def buffer_def sent_to_def)

text \<open>
  Whatever the handlers do, they only append: after a run of the request loop every connection has
  been sent what it had been sent before, and possibly more.
\<close>
lemma HandleRequest_only_appends:
  assumes "i < length (writers st)"
  shows "i < length (writers (HandleRequest env other inb dst st)) \<and>
    prefix (out (writers st ! i)) (out (writers (HandleRequest env other inb dst st) ! i))"
  using http_requests.grows [of i st env other inb dst] assms by auto

end
