(* ===== verification/Startup.thy ===== *)
theory Startup
  imports Logging Config Transport
begin

text \<open>
  The start of the program: \<open>main\<close> of \<open>cmd/main.go\<close>, up to and including the loop that accepts
  connections. The steps that can fail end the process through the logger. The value of the
  flag \<open>service-name\<close>, the answers of the jaeger configuration and of the operating system, and
  the texts of their errors are arguments; the profiling and metrics servers, which \<open>main\<close> starts in
  goroutines of their own and never waits for, are left out.
\<close>

section \<open>Start\<close>

definition EnvNetraLoggerLevel :: string where "EnvNetraLoggerLevel = ''NETRA_LOGGER_LEVEL''"

record ('cfg, 's) system =
  getenv :: "string \<Rightarrow> string"
  service_flag :: string                                  \<comment> \<open>\<open>*serviceName\<close> after \<open>flag.Parse\<close>\<close>
  error_string :: "num_error \<Rightarrow> string"                   \<comment> \<open>\<open>err.Error()\<close> of a configuration error\<close>
  FromEnv :: "(string \<Rightarrow> string) \<Rightarrow> string + 'cfg"        \<comment> \<open>\<open>jaegercfg.FromEnv\<close> in an environment\<close>
  NewTracer :: "'cfg \<Rightarrow> string + 's"
  ResolveTCPAddr :: "string \<Rightarrow> string + string"
  ListenTCP :: "string \<Rightarrow> string option"                  \<comment> \<open>the error, if any\<close>

record ('s, 'c) server =
  the_logger :: Logger
  the_config :: config
  tracer_state :: 's
  tracingMapping :: "'c cache"
  routingMapping :: "string cache"
  lAddr :: string

datatype ('s, 'c) start = Ends Logging.outcome | Serves "('s, 'c) server" log_world

definition stderr :: nat where "stderr = 2"

definition listen_address :: "config \<Rightarrow> string" where
  "listen_address c = ''0.0.0.0:'' @ Itoa (uint (Port (netraConfig c)))"

fun loaded_calls :: "string \<Rightarrow> string list \<Rightarrow> log_call list" where
  \<comment> \<open>the calls of \<open>logger.Infof\<close> in the loop of \<open>load_pairs\<close>\<close>
  "loaded_calls what [] = []"
| "loaded_calls what (pair # pairs) =
     (let kv = SplitN2 pair (CHR '':'') in
      if length kv < 2 then loaded_calls what pairs
      else LogCall InfoLevel 0 (''loaded '' @ what @ '' to tag mapping: '' @ kv ! 0 @ '' => '' @ kv ! 1) #
             loaded_calls what pairs)"

definition config_calls :: "(string \<Rightarrow> string) \<Rightarrow> log_call list" where
  \<comment> \<open>all that \<open>GlobalConfigFromENV\<close> logs; nothing before it can fail\<close>
  "config_calls env =
     (if env envHttpHeaderTagMap = [] then [] else loaded_calls ''header'' (Split (env envHttpHeaderTagMap) (CHR '',''))) @
     (if env envHttpCookieTagMap = [] then [] else loaded_calls ''cookie'' (Split (env envHttpCookieTagMap) (CHR '','')))"

definition main_prog :: "('cfg, 's) system \<Rightarrow> ('s, 'c) start" where
  "main_prog sys =
     (case Init ''NETRA'' (getenv sys EnvNetraLoggerLevel) stderr init_log of
        (Inl e, w) \<Rightarrow> Ends (fatal_default 0 e w)
      | (Inr logger, w) \<Rightarrow>
          if service_flag sys = '''' then Ends (fatal_with logger 0 ''service-name flag should be set'' w)
          else
            let w = log_run logger (config_calls (getenv sys)) w;
                fatal = (\<lambda>msg. Ends (fatal_with logger 0 msg w)) in
            (case GlobalConfigFromENV (getenv sys) (SetServiceName (service_flag sys) initial_config) of
               (Some e, c) \<Rightarrow> fatal (error_string sys e)
             | (None, c) \<Rightarrow>
                 (case FromEnv sys ((getenv sys)(''JAEGER_SERVICE_NAME'' := service_flag sys)) of
                    Inl e \<Rightarrow> fatal (''Could not parse Jaeger env vars: '' @ e)
                  | Inr cfg \<Rightarrow>
                      (case NewTracer sys cfg of
                         Inl e \<Rightarrow> fatal (''Could not initialize jaeger tracer: '' @ e)
                       | Inr tracer \<Rightarrow>
                           (case ResolveTCPAddr sys (listen_address c) of
                              Inl e \<Rightarrow> fatal e
                            | Inr addr \<Rightarrow>
                                (case ListenTCP sys addr of
                                   Some e \<Rightarrow> fatal e
                                 | None \<Rightarrow>
                                     Serves \<lparr>the_logger = logger, the_config = c, tracer_state = tracer,
                                       tracingMapping = cache_New (TracingContextExpiration (netraConfig c)),
                                       routingMapping = cache_New (RoutingContextExpiration (netraConfig c)),
                                       lAddr = addr\<rparr> w))))))"

section \<open>The accept loop\<close>

datatype accepted = AcceptError string | Accepted "multiaddr option" string bool

fun accept_loop ::
  "('s, 'c) server \<Rightarrow> (string \<Rightarrow> bool) \<Rightarrow> (string \<Rightarrow> bool) \<Rightarrow> accepted list \<Rightarrow> log_world \<Rightarrow>
     ('s, 'c) serve list \<times> log_world" where
  \<comment> \<open>what became of the connections so far; each is served by a goroutine of its own, whose log lines
     are not part of the loop's\<close>
  "accept_loop sv resolves dials [] w = ([], w)"
| "accept_loop sv resolves dials (AcceptError e # as) w =
     accept_loop sv resolves dials as (guarded WarnLevel (the_logger sv) 0 e w)"
| "accept_loop sv resolves dials (Accepted sockopt localAddr file # as) w =
     (let c = HandleConnection (netraConfig (the_config sv)) (httpConfig (the_config sv)) (tracingMapping sv)
                (tracer_state sv) True file sockopt localAddr resolves dials in
      case accept_loop sv resolves dials as w of (cs, w') \<Rightarrow> (c # cs, w'))"

section \<open>When the program starts\<close>

definition level_accepted :: "string \<Rightarrow> bool" where
  "level_accepted s \<longleftrightarrow> s = '''' \<or>
     ToLower s \<in> {''fatal'', ''error'', ''warning'', ''warn'', ''info'', ''debug''}"

lemma parse_level_accepted: "s \<noteq> [] \<Longrightarrow> level_accepted s \<longleftrightarrow> (\<exists>l. parse_level s = Inr l)"
  by (simp add: level_accepted_def parse_level_def Let_def)

lemma Init_rejects: "\<not> level_accepted s \<Longrightarrow> \<exists>e. Init name s f w = (Inl e, w)"
  using parse_level_accepted [of s]
  by (cases "parse_level s") (auto simp: Init_def level_accepted_def)

lemma Init_accepts:
  "level_accepted s \<Longrightarrow> \<exists>l w. Init name s f init_log = (Inr l, w) \<and> closer l = Some f \<and> FatalLevel \<le> outputLevel l \<and>
     log_lines w = [] \<and> closed_writers w = []"
  using parse_level_accepted [of s]
  by (cases "parse_level s")
    (auto simp: Init_def init_log_def level_accepted_def level_defs Let_def parse_level_def split: if_splits)

definition startable :: "('cfg, 's) system \<Rightarrow> bool" where
  "startable sys \<longleftrightarrow> service_flag sys \<noteq> '''' \<and>
     (let g = getenv sys; c = snd (GlobalConfigFromENV g (SetServiceName (service_flag sys) initial_config)) in
      \<not> (bad_port (g envNetraPort) \<or> bad_port (g envNetraPprofPort) \<or> bad_port (g envNetraPrometheusPort) \<or>
          bad_int (g envNetraTracingContextExpiration) \<or> bad_int (g envNetraTracingContextCleanupInterval) \<or>
          bad_int (g envNetraRoutingContextExpiration) \<or> bad_int (g envNetraRoutingContextCleanupInterval) \<or>
          bad_port_list (g envNetraHTTPPorts)) \<and>
      (\<exists>cfg tr addr. FromEnv sys (g(''JAEGER_SERVICE_NAME'' := service_flag sys)) = Inr cfg \<and> NewTracer sys cfg = Inr tr \<and>
         ResolveTCPAddr sys (listen_address c) = Inr addr \<and> ListenTCP sys addr = None))"

definition loaded_lines :: "(string \<Rightarrow> string) \<Rightarrow> (string \<times> nat \<times> string) list" where
  \<comment> \<open>a line per tag mapping, unless the level is lower than \<open>info\<close>\<close>
  "loaded_lines env =
     (if ToLower (env EnvNetraLoggerLevel) \<in> {'''', ''info'', ''debug''}
      then map (\<lambda>c. (''NETRA'', 3, ''INFO: '' @ call_text c)) (config_calls env) else [])"

lemma config_calls_info: "c \<in> set (config_calls env) \<Longrightarrow> call_level c = InfoLevel \<and> call_depth c = 0"
proof -
  have "c \<in> set (loaded_calls what ps) \<Longrightarrow> call_level c = InfoLevel \<and> call_depth c = 0" for what ps
    by (induction ps) (auto simp: Let_def split: if_splits)
  then show "c \<in> set (config_calls env) \<Longrightarrow> ?thesis" by (auto simp: config_calls_def split: if_splits)
qed

lemma ToLower_Nil: "ToLower [] = []"
  by (subst ToLower.simps) simp

lemma Init_level:
  assumes "Init ''NETRA'' s f w = (Inr l, w')"
  shows "inner_prefix l = ''NETRA'' \<and> (InfoLevel \<le> outputLevel l \<longleftrightarrow> ToLower s \<in> {'''', ''info'', ''debug''})"
  using assms by (auto simp: Init_def Let_def parse_level_def level_defs ToLower_Nil split: if_splits)

lemma log_config_calls:
  assumes "Init ''NETRA'' (env EnvNetraLoggerLevel) f w0 = (Inr l, w')"
  shows "log_run l (config_calls env) w = w\<lparr>log_lines := log_lines w @ loaded_lines env\<rparr>"
proof -
  have "log_run l (config_calls env) w = w\<lparr>log_lines := log_lines w @
      map (rendered l) (filter (\<lambda>c. call_level c \<le> outputLevel l) (config_calls env))\<rparr>"
    by (rule log_run_gating) (simp add: config_calls_info)
  moreover have "filter (\<lambda>c. call_level c \<le> outputLevel l) (config_calls env) =
      filter (\<lambda>c. InfoLevel \<le> outputLevel l) (config_calls env)"
    by (rule filter_cong) (simp_all add: config_calls_info)
  moreover have "map (rendered l) (config_calls env) = map (\<lambda>c. (''NETRA'', 3, ''INFO: '' @ call_text c)) (config_calls env)"
    using Init_level [OF assms] by (simp add: rendered_def config_calls_info level_tag_def level_defs)
  ultimately show ?thesis
    using Init_level [OF assms] by (simp add: loaded_lines_def)
qed

lemma fatal_with_exits:
  assumes "closer l = Some f" "FatalLevel \<le> outputLevel l"
  shows "\<exists>w'. fatal_with l 0 msg w = Exited 1 w' \<and> log_lines w' = log_lines w @ [(inner_prefix l, 3, ''FATAL: '' @ msg)] \<and>
    closed_writers w' = closed_writers w @ [f]"
  using assms by (simp add: fatal_with_def close_and_exit_def Logging.Close_def Logger_output_def Let_def level_defs)

lemma main_prog_rejected:
  "\<not> level_accepted (getenv sys EnvNetraLoggerLevel) \<Longrightarrow> \<exists>w. main_prog sys = Ends (Logging.Panicked w)"
  using Init_rejects [of "getenv sys EnvNetraLoggerLevel" "''NETRA''" stderr init_log]
  by (auto simp: main_prog_def fatal_default_def Logger_output_def close_and_exit_def Logging.Close_def init_log_def level_defs Let_def)

text \<open>
  (C27) How the program starts. It serves connections exactly when the logger level is known, a
  service name was given, the environment configures it, and the tracer, the address and the
  listener can be set up; it then listens on the configured port on all addresses with caches of
  the configured lifetimes. Otherwise it ends with status 1 after one line of level FATAL, the last
  that is written, and with the log closed; only an unknown logger level ends it with a panic. All
  that is logged before are the tag mappings the environment configures.
\<close>
theorem main_outcome:
  fixes sys :: "('cfg, 's) system"
  shows "case main_prog sys :: ('s, 'c) start of
     Serves sv w \<Rightarrow> level_accepted (getenv sys EnvNetraLoggerLevel) \<and> startable sys \<and> log_lines w = loaded_lines (getenv sys) \<and>
       ResolveTCPAddr sys (''0.0.0.0:'' @ Itoa (uint (Port (netraConfig (the_config sv))))) = Inr (lAddr sv) \<and>
       (None, the_config sv) = GlobalConfigFromENV (getenv sys) (SetServiceName (service_flag sys) initial_config) \<and>
       tracingMapping sv = cache_New (TracingContextExpiration (netraConfig (the_config sv))) \<and>
       routingMapping sv = cache_New (RoutingContextExpiration (netraConfig (the_config sv)))
   | Ends oc \<Rightarrow>
       (if level_accepted (getenv sys EnvNetraLoggerLevel)
        then \<not> startable sys \<and> (\<exists>w msg. oc = Exited 1 w \<and> closed_writers w = [stderr] \<and>
               log_lines w = (if service_flag sys = [] then [] else loaded_lines (getenv sys)) @ [(''NETRA'', 3, ''FATAL: '' @ msg)])
        else (\<exists>w. oc = Logging.Panicked w))"
proof (cases "level_accepted (getenv sys EnvNetraLoggerLevel)")
  case False
  then obtain w where "main_prog sys = (Ends (Logging.Panicked w) :: ('s, 'c) start)"
    using main_prog_rejected by blast
  with False show ?thesis by simp
next
  case True
  from Init_accepts [OF True, of "''NETRA''" stderr] obtain l w where
    i: "Init ''NETRA'' (getenv sys EnvNetraLoggerLevel) stderr init_log = (Inr l, w)" "closer l = Some stderr"
      "FatalLevel \<le> outputLevel l" "log_lines w = []" "closed_writers w = []" by blast
  note p = Init_level [OF i(1), THEN conjunct1] and run = log_config_calls [where env = "getenv sys" and w = w, OF i(1)]
  have fatal: "\<exists>w'. fatal_with l 0 msg (w\<lparr>log_lines := ls\<rparr>) = Exited 1 w' \<and>
      log_lines w' = ls @ [(''NETRA'', 3, ''FATAL: '' @ msg)] \<and> closed_writers w' = [stderr]" for msg ls
    using fatal_with_exits [OF i(2,3), of msg "w\<lparr>log_lines := ls\<rparr>"] i(5) p by auto
  have early: "\<exists>w'. fatal_with l 0 msg w = Exited 1 w' \<and>
      log_lines w' = [(''NETRA'', 3, ''FATAL: '' @ msg)] \<and> closed_writers w' = [stderr]" for msg
    using fatal_with_exits [OF i(2,3), of msg w] i(4,5) p by auto
  obtain e c where g: "GlobalConfigFromENV (getenv sys) (SetServiceName (service_flag sys) initial_config) = (e, c)" by fastforce
  note bad = config_error_iff [of "getenv sys" "SetServiceName (service_flag sys) initial_config", unfolded g fst_conv]
  note step = main_prog_def [of sys, unfolded i(1) prod.case sum.case Let_def g run i(4) append_Nil]
  show ?thesis
  proof (cases "service_flag sys = []")
    case True
    then show ?thesis
      using \<open>level_accepted _\<close> early [of "''service-name flag should be set''"] by (auto simp: step startable_def)
  next
    case flag: False
    show ?thesis
    proof (cases e)
      case (Some er)
      with flag show ?thesis
        using \<open>level_accepted _\<close> fatal [of "error_string sys er" "loaded_lines (getenv sys)"] bad
        by (auto simp: step startable_def Let_def)
    next
      case None
      then show ?thesis
        using \<open>level_accepted _\<close> fatal [of _ "loaded_lines (getenv sys)"] bad flag
        by (simp add: step startable_def Let_def g listen_address_def split: sum.split option.split) blast
    qed
  qed
qed

lemma HandleConnection_returns:
  "Transport.Panicked \<noteq> HandleConnection nc hc m ts conn f so la resolves dials"
  by (auto simp: HandleConnection_def Determine_originalDst Let_def split: option.splits)

text \<open>
  The accept loop goes on. Every connection that is accepted is handed to \<open>HandleConnection\<close>, in the order
  of acceptance and whatever failed before it, and the part of it that runs before its handlers
  start does not panic; the loop itself writes at most one line per failure to accept. (The lines that
  \<open>HandleConnection\<close> and \<open>closeConn\<close> write and what the handlers do afterwards are not part of
  the loop.)
\<close>
lemma accept_loop_dispatches:
  "fst (accept_loop sv resolves dials as w) =
     concat (map (\<lambda>a. case a of AcceptError e \<Rightarrow> []
        | Accepted so la f \<Rightarrow> [HandleConnection (netraConfig (the_config sv)) (httpConfig (the_config sv)) (tracingMapping sv)
            (tracer_state sv) True f so la resolves dials]) as) \<and>
   Transport.Panicked \<notin> set (fst (accept_loop sv resolves dials as w)) \<and>
   length (log_lines (snd (accept_loop sv resolves dials as w))) \<le>
     length (log_lines w) + length (filter (\<lambda>a. \<exists>e. a = AcceptError e) as)"
proof (induction as arbitrary: w)
  case (Cons a as)
  show ?case
  proof (cases a)
    case (AcceptError e)
    let ?w = "guarded WarnLevel (the_logger sv) 0 e w"
    have "length (log_lines ?w) \<le> Suc (length (log_lines w))"
      by (simp add: guarded_def Logger_output_def Let_def)
    with Cons.IH [of ?w] AcceptError show ?thesis by auto
  next
    case (Accepted so la f)
    obtain cs w' where cs: "accept_loop sv resolves dials as w = (cs, w')" by fastforce
    with Cons.IH [of w] Accepted cs show ?thesis by (auto simp: Let_def HandleConnection_returns)
  qed
qed simp

end
