(* ===== verification/VarInt.thy ===== *)
theory VarInt
  imports Prelude
begin

text \<open>
  The integers of HPACK, the header compression of HTTP/2: \<open>appendVarInt\<close> of
  \<open>http2/hpack/encode.go\<close> and \<open>readVarInt\<close> of \<open>http2/hpack/hpack.go\<close>. The wire is a list of octets
  (\<open>8 word\<close>), the integers are 64 bits wide; the width \<open>n\<close> of the prefix, a byte in the code, is a
  number. The theory also holds the errors of the package.
\<close>

unbundle bit_operations_syntax

type_synonym octets = "8 word list"

datatype hpack_error =
    NeedMore                      \<comment> \<open>\<open>errNeedMore\<close>, which never leaves the package\<close>
  | VarintOverflow
  | ErrStringLength
  | ErrInvalidHuffman
  | InvalidIndexError "64 word"
  | LateSizeUpdate                \<comment> \<open>a dynamic table size update \<open>MUST occur at the beginning of a header block\<close>\<close>
  | SizeUpdateTooLarge
  | InvalidEncoding
  | TruncatedHeaders
  | HpackPanic

definition fatal_error :: "hpack_error \<Rightarrow> bool" where
  "fatal_error e \<longleftrightarrow> e \<noteq> NeedMore"

section \<open>Bits\<close>

lemma bit_127: "bit (127 :: int) k \<longleftrightarrow> k < 7"
  using bit_mask_iff [of 7 k, where 'a = int] by (simp add: mask_eq_exp_minus_1)

lemma bit_128: "bit (128 :: int) k \<longleftrightarrow> k = 7"
  using bit_exp_iff [of 7 k, where 'a = int] by auto

lemma unat_drop_bit_7: "unat (drop_bit 7 i) = unat i div 128" for i :: "64 word"
  by (simp only: unat_drop_bit_eq) (simp add: drop_bit_eq_div)

section \<open>Writing\<close>

function varint_groups :: "64 word \<Rightarrow> octets" where
  \<comment> \<open>what the loop appends: seven bits at a time, the lowest first\<close>
  "varint_groups i =
     (if 128 \<le> i then ucast (0x80 OR (i AND 0x7f)) # varint_groups (drop_bit 7 i) else [ucast i])"
  by auto
termination
proof (relation "measure unat")
  show "(drop_bit 7 i, i) \<in> measure unat" if "128 \<le> i" for i :: "64 word"
  proof -
    have "128 \<le> unat i" using that by (simp add: word_le_nat_alt)
    then show ?thesis by (simp add: unat_drop_bit_7)
  qed
qed simp

declare varint_groups.simps [simp del]

definition prefix_max :: "nat \<Rightarrow> 64 word" where
  "prefix_max n = push_bit n 1 - 1"

definition appendVarInt :: "octets \<Rightarrow> nat \<Rightarrow> 64 word \<Rightarrow> octets" where
  "appendVarInt dst n i =
     (let k = prefix_max n in
      if i < k then dst @ [ucast i]
      else dst @ [ucast k] @ varint_groups (i - k))"

definition or_at :: "octets \<Rightarrow> nat \<Rightarrow> 8 word \<Rightarrow> octets" where
  \<comment> \<open>\<open>dst[first] |= b\<close>\<close>
  "or_at dst first b = dst[first := dst ! first OR b]"

section \<open>Reading\<close>

fun readVarInt_loop :: "64 word \<Rightarrow> nat \<Rightarrow> octets \<Rightarrow> hpack_error + 64 word \<times> octets" where
  "readVarInt_loop i m [] = Inl NeedMore"
| "readVarInt_loop i m (b # p) =
     (let i = i + push_bit m (ucast (b AND 127)) in
      if b AND 128 = 0 then Inr (i, p)
      else if 63 \<le> m + 7 then Inl VarintOverflow
      else readVarInt_loop i (m + 7) p)"

definition readVarInt :: "nat \<Rightarrow> octets \<Rightarrow> hpack_error + 64 word \<times> octets" where
  "readVarInt n p =
     (if n < 1 \<or> 8 < n then Inl HpackPanic
      else case p of
        [] \<Rightarrow> Inl NeedMore
      | b # p \<Rightarrow>
          let i = ucast b; i = (if n < 8 then i AND prefix_max n else i) in
          if i < prefix_max n then Inr (i, p) else readVarInt_loop i 0 p)"

section \<open>Prefixes of the input\<close>

lemma readVarInt_loop_more:
  "readVarInt_loop i m p = r \<Longrightarrow> r \<noteq> Inl NeedMore \<Longrightarrow>
   readVarInt_loop i m (p @ q) = map_sum id (\<lambda>(j, p'). (j, p' @ q)) r"
  by (induction i m p rule: readVarInt_loop.induct) (auto simp: Let_def)

lemma readVarInt_more:
  assumes "readVarInt n p \<noteq> Inl NeedMore"
  shows "readVarInt n (p @ q) = map_sum id (\<lambda>(j, p'). (j, p' @ q)) (readVarInt n p)"
  using assms by (cases p) (auto simp: readVarInt_def Let_def intro: readVarInt_loop_more)

lemma readVarInt_loop_suffix:
  "readVarInt_loop i m p = Inr (j, p') \<Longrightarrow> suffix p' p \<and> length p' < length p"
  by (induction i m p rule: readVarInt_loop.induct) (auto simp: Let_def suffix_Cons split: if_splits)

lemma readVarInt_suffix: "readVarInt n p = Inr (j, p') \<Longrightarrow> suffix p' p \<and> length p' < length p"
  by (auto simp: readVarInt_def Let_def suffix_Cons split: if_splits list.splits
      dest!: readVarInt_loop_suffix)

section \<open>Round trip\<close>

lemma push_bit_groups:
  "push_bit m i = push_bit m (i AND 0x7f) + push_bit (m + 7) (drop_bit 7 i)" for i :: "64 word"
proof -
  have "i = (i AND 0x7f) + push_bit 7 (drop_bit 7 i)"
    using bits_ident [of 7 i] by (simp add: take_bit_eq_mask mask_eq_exp_minus_1 add.commute)
  then have "push_bit m i = push_bit m ((i AND 0x7f) + push_bit 7 (drop_bit 7 i))" by simp
  also have "\<dots> = push_bit m (i AND 0x7f) + push_bit m (push_bit 7 (drop_bit 7 i))"
    by (rule push_bit_add)
  finally show ?thesis by (simp only: push_bit_push_bit)
qed

lemma group_octet:
  fixes i :: "64 word"
  shows "(ucast (0x80 OR (i AND 0x7f)) :: 8 word) AND 128 \<noteq> 0"
    "ucast ((ucast (0x80 OR (i AND 0x7f)) :: 8 word) AND 127) = i AND 0x7f"
proof -
  have "bit ((ucast (0x80 OR (i AND 0x7f)) :: 8 word) AND 128) 7"
    by (simp add: bit_simps)
  then show "(ucast (0x80 OR (i AND 0x7f)) :: 8 word) AND 128 \<noteq> 0" by auto
  show "ucast ((ucast (0x80 OR (i AND 0x7f)) :: 8 word) AND 127) = i AND 0x7f"
    by (rule bit_word_eqI) (auto simp: bit_simps bit_127 bit_128)
qed

lemma last_octet:
  fixes i :: "64 word"
  assumes "i < 128"
  shows "(ucast i :: 8 word) AND 128 = 0" "ucast ((ucast i :: 8 word) AND 127) = i"
proof -
  have "i AND 127 = i" using less_mask_eq [of i 7] assms by (simp add: mask_eq_exp_minus_1)
  then have b: "bit i k \<Longrightarrow> k < 7" for k by (metis bit_and_iff bit_numeral_word_iff bit_127)
  show "(ucast i :: 8 word) AND 128 = 0"
    by (rule bit_word_eqI) (auto simp: bit_simps bit_128 dest: b)
  show "ucast ((ucast i :: 8 word) AND 127) = i"
    by (rule bit_word_eqI) (auto simp: bit_simps bit_127 dest: b)
qed

lemma readVarInt_loop_groups:
  assumes "m \<le> 56" "7 dvd m"
  shows "readVarInt_loop i m (varint_groups j @ rest) =
    (if unat j < 2 ^ (63 - m) then Inr (i + push_bit m j, rest) else Inl VarintOverflow)"
  using assms
proof (induction j arbitrary: i m rule: varint_groups.induct)
  case (1 j)
  show ?case
  proof (cases "128 \<le> j")
    case True
    then have g: "varint_groups j = ucast (0x80 OR (j AND 0x7f)) # varint_groups (drop_bit 7 j)"
      by (subst varint_groups.simps) simp
    have ge: "128 \<le> unat j" using True by (simp add: word_le_nat_alt)
    show ?thesis
    proof (cases "m = 56")
      case True
      then show ?thesis using ge by (simp only: g append_Cons readVarInt_loop.simps group_octet Let_def) simp
    next
      case False
      with 1(2,3) have m: "m + 7 \<le> 56" by (auto elim!: dvdE)
      then have "readVarInt_loop i m (varint_groups j @ rest) =
          readVarInt_loop (i + push_bit m (j AND 0x7f)) (m + 7) (varint_groups (drop_bit 7 j) @ rest)"
        by (simp only: g append_Cons readVarInt_loop.simps group_octet Let_def) simp
      also have "\<dots> = (if unat (drop_bit 7 j) < 2 ^ (63 - (m + 7))
          then Inr (i + push_bit m (j AND 0x7f) + push_bit (m + 7) (drop_bit 7 j), rest) else Inl VarintOverflow)"
        using 1(3) by (intro 1(1) [OF True m]) simp
      also have "unat (drop_bit 7 j) < 2 ^ (63 - (m + 7)) \<longleftrightarrow> unat j < 2 ^ (63 - m)"
        using m power_add [of "2::nat" "56 - m" 7] by (simp add: unat_drop_bit_7 div_less_iff_less_mult)
      also have "i + push_bit m (j AND 0x7f) + push_bit (m + 7) (drop_bit 7 j) = i + push_bit m j"
        by (subst (2) push_bit_groups) (simp only: add.assoc)
      finally show ?thesis .
    qed
  next
    case False
    then have "unat j < 2 ^ 7" by (simp add: word_le_nat_alt)
    also have "2 ^ 7 \<le> (2 :: nat) ^ (63 - m)" using 1(2) by (intro power_increasing) simp_all
    finally have "unat j < 2 ^ (63 - m)" .
    with False show ?thesis
      by (subst varint_groups.simps) (simp add: last_octet Let_def)
  qed
qed

lemma prefix_max_mask: "prefix_max n = mask n"
  by (simp add: prefix_max_def mask_eq_exp_minus_1 push_bit_of_1)

lemma readVarInt_Cons:
  assumes "1 \<le> n" "n \<le> 8"
  shows "readVarInt n (b # p) =
    (let i = take_bit n (ucast b) in if i < mask n then Inr (i, p) else readVarInt_loop i 0 p)"
proof -
  have "(if n < 8 then ucast b AND mask n else ucast b) = (take_bit n (ucast b) :: 64 word)"
  proof (cases "n < 8")
    case False
    with assms have "n = 8" by simp
    then show ?thesis by (simp, intro bit_word_eqI) (auto simp: bit_simps dest: bit_imp_le_length)
  qed (simp add: take_bit_eq_mask)
  with assms show ?thesis by (simp only: readVarInt_def prefix_max_mask Let_def) simp
qed

lemma unat_mask: "n \<le> LENGTH('a) \<Longrightarrow> unat (mask n :: 'a::len word) = 2 ^ n - 1"
proof -
  assume "n \<le> LENGTH('a)"
  then have "unat (mask n :: 'a word) = mask n" by (intro bit_eqI) (auto simp: bit_simps)
  then show ?thesis by (simp add: mask_eq_exp_minus_1)
qed

lemma take_bit_octet:
  fixes i :: "64 word"
  assumes "n \<le> 8" "take_bit n (flag :: 8 word) = 0" "i \<le> mask n"
  shows "take_bit n (ucast (ucast i OR flag :: 8 word)) = i"
proof -
  have "unat i < 2 ^ n" using assms(1,3) unat_mask [of n, where 'a = 64] by (simp add: word_le_nat_alt le_diff_conv2 Suc_le_eq [symmetric])
  then have "take_bit n i = i"
    by (simp add: word_unat_eq_iff unsigned_take_bit_eq take_bit_nat_eq_self)
  moreover have "take_bit n (ucast (ucast i OR flag :: 8 word)) = take_bit n i OR (ucast (take_bit n flag) :: 64 word)"
    using assms(1) by (intro bit_word_eqI) (auto simp: bit_simps)
  ultimately show ?thesis using assms(2) by simp
qed

definition varint_octets :: "nat \<Rightarrow> 8 word \<Rightarrow> 64 word \<Rightarrow> octets" where
  \<comment> \<open>an integer with the bits of a representation above its prefix\<close>
  "varint_octets n flag i = or_at (appendVarInt [] n i) 0 flag"

lemma appendVarInt_append: "appendVarInt dst n i = dst @ appendVarInt [] n i"
  by (simp add: appendVarInt_def Let_def)

lemma appendVarInt_not_Nil [simp]: "appendVarInt dst n i \<noteq> []"
  by (simp add: appendVarInt_def Let_def)

lemma or_at_varint: "or_at (appendVarInt dst n i @ rest) (length dst) flag = dst @ varint_octets n flag i @ rest"
  by (subst appendVarInt_append)
    (cases "appendVarInt [] n i", simp_all add: or_at_def varint_octets_def list_update_append nth_append)

lemma varint_octets_0: "varint_octets n 0 i = appendVarInt [] n i"
  by (cases "appendVarInt [] n i") (simp_all add: varint_octets_def or_at_def)

lemma readVarInt_octets:
  assumes "1 \<le> n" "n \<le> 8" "take_bit n flag = 0"
  shows "readVarInt n (varint_octets n flag i @ rest) =
    (if unat i < 2 ^ 63 + 2 ^ n - 1 then Inr (i, rest) else Inl VarintOverflow)"
proof -
  have k: "unat (mask n :: 64 word) = 2 ^ n - 1" using assms(2) by (intro unat_mask) simp
  have n: "(1::nat) \<le> 2 ^ n" by simp
  show ?thesis
  proof (cases "i < mask n")
    case True
    then have "varint_octets n flag i = [ucast i OR flag]"
      by (simp add: varint_octets_def appendVarInt_def prefix_max_mask or_at_def)
    moreover have "unat i < 2 ^ 63 + 2 ^ n - 1" using True k n by (simp add: word_less_nat_alt)
    ultimately show ?thesis
      using True take_bit_octet [OF assms(2,3), of i] by (simp add: readVarInt_Cons [OF assms(1,2)] Let_def)
  next
    case False
    then have "varint_octets n flag i = (ucast (mask n :: 64 word) OR flag) # varint_groups (i - mask n)"
      by (simp add: varint_octets_def appendVarInt_def prefix_max_mask or_at_def Let_def)
    moreover have "unat (i - mask n) < 2 ^ 63 \<longleftrightarrow> unat i < 2 ^ 63 + 2 ^ n - 1"
      using False k n by (auto simp: unat_sub word_le_nat_alt not_less)
    ultimately show ?thesis
      using take_bit_octet [OF assms(2,3), of "mask n"] by (simp add: readVarInt_Cons [OF assms(1,2)] Let_def readVarInt_loop_groups)
  qed
qed

text \<open>
  (C35) Integers survive the wire. What is read from the octets written for a 64-bit integer with a
  prefix of one to eight bits, whatever the bits of the representation above the prefix, is that
  integer and what follows it, as long as the part beyond the prefix fits in 63 bits; a larger integer,
  which the encoder writes all the same, is refused as an overflow.
\<close>
theorem varint_roundtrip:
  assumes "1 \<le> n" "n \<le> 8" "take_bit n flag = 0"
  shows "readVarInt n (drop (length dst) (or_at (appendVarInt dst n i) (length dst) flag) @ rest) =
    (if unat i < 2 ^ 63 + 2 ^ n - 1 then Inr (i, rest) else Inl VarintOverflow)"
  using or_at_varint [of dst n i "[]" flag] readVarInt_octets [OF assms] by simp

theorem varint_roundtrip_witness:
  "readVarInt 5 (drop 1 (or_at (appendVarInt [7] 5 1337) 1 0x20) @ [9]) = Inr (1337, [9]) \<and>
   readVarInt 7 (drop 0 (or_at (appendVarInt [] 7 (2 ^ 63 + 127)) 0 0x80) @ []) = Inl VarintOverflow"
  using varint_roundtrip [of 5 "0x20" "[7]" 1337 "[9]"] varint_roundtrip [of 7 "0x80" "[]" "2 ^ 63 + 127" "[]"]
  by simp

end
