(* ===== verification/HpackTables.thy ===== *)
theory HpackTables
  imports VarInt
begin

text \<open>
  The tables of HPACK: \<open>headerFieldTable\<close> and the static table of \<open>http2/hpack/tables.go\<close>,
  \<open>HeaderField\<close> and \<open>dynamicTable\<close> of \<open>http2/hpack/hpack.go\<close>. A table keeps its entries oldest first, with two
  maps from names, and from names with values, to the unique id of the newest entry; ids are 64-bit
  words, sizes 32-bit words, with their wrap-around. The result \<open>None\<close> of an operation is a panic.

  The invariant says that the maps find the newest entry, and that the recorded size is that of the
  entries and within the limit. The abstract table is the list of the entries, from which the oldest are
  dropped until the rest fits.
\<close>

section \<open>Header fields\<close>

record HeaderField =
  Name :: octets
  Value :: octets
  Sensitive :: bool

definition octets_of :: "string \<Rightarrow> octets" where
  "octets_of s = map (\<lambda>c. word_of_nat (of_char c)) s"

definition IsPseudo :: "HeaderField \<Rightarrow> bool" where
  "IsPseudo hf \<longleftrightarrow> length (Name hf) \<noteq> 0 \<and> Name hf ! 0 = word_of_nat (of_char (CHR '':''))"

definition Size :: "HeaderField \<Rightarrow> 32 word" where
  "Size hf = word_of_nat (length (Name hf) + length (Value hf) + 32)"

section \<open>Tables\<close>

record headerFieldTable =
  ents :: "HeaderField list"
  evictCount :: "64 word"
  byName :: "octets \<rightharpoonup> 64 word"
  byNameValue :: "octets \<times> octets \<rightharpoonup> 64 word"

definition table_init :: headerFieldTable where
  "table_init = \<lparr>ents = [], evictCount = 0, byName = Map.empty, byNameValue = Map.empty\<rparr>"

definition get :: "('k \<rightharpoonup> 64 word) \<Rightarrow> 'k \<Rightarrow> 64 word" where
  \<comment> \<open>reading a map of Go, which has zero where there is no entry\<close>
  "get m k = (case m k of None \<Rightarrow> 0 | Some v \<Rightarrow> v)"

definition addEntry :: "headerFieldTable \<Rightarrow> HeaderField \<Rightarrow> headerFieldTable" where
  "addEntry t f =
     (let id = word_of_nat (length (ents t)) + evictCount t + 1 in
      t\<lparr>byName := (byName t)(Name f \<mapsto> id),
        byNameValue := (byNameValue t)((Name f, Value f) \<mapsto> id),
        ents := ents t @ [f]\<rparr>)"

fun evict_ids :: "HeaderField list \<Rightarrow> 64 word \<Rightarrow> (octets \<rightharpoonup> 64 word) \<times> (octets \<times> octets \<rightharpoonup> 64 word) \<Rightarrow>
    (octets \<rightharpoonup> 64 word) \<times> (octets \<times> octets \<rightharpoonup> 64 word)" where
  \<comment> \<open>the loop over the evicted entries; the number is the id of the first\<close>
  "evict_ids [] uid m = m"
| "evict_ids (f # fs) uid (bn, bnv) =
     (let bn = (if get bn (Name f) = uid then bn(Name f := None) else bn);
          p = (Name f, Value f);
          bnv = (if get bnv p = uid then bnv(p := None) else bnv) in
      evict_ids fs (uid + 1) (bn, bnv))"

definition evictOldest :: "headerFieldTable \<Rightarrow> nat \<Rightarrow> headerFieldTable option" where
  "evictOldest t n =
     (if length (ents t) < n then None
      else
        let (bn, bnv) = evict_ids (take n (ents t)) (evictCount t + 1) (byName t, byNameValue t) in
        if evictCount t + word_of_nat n < evictCount t then None
        else Some (t\<lparr>byName := bn, byNameValue := bnv, ents := drop n (ents t), evictCount := evictCount t + word_of_nat n\<rparr>))"

definition idToIndex :: "bool \<Rightarrow> headerFieldTable \<Rightarrow> 64 word \<Rightarrow> 64 word option" where
  \<comment> \<open>the flag says whether the table is the static table\<close>
  "idToIndex static t uid =
     (if uid \<le> evictCount t then None
      else let k = uid - evictCount t - 1 in
           Some (if static then k + 1 else word_of_nat (length (ents t)) - k))"

definition search :: "bool \<Rightarrow> headerFieldTable \<Rightarrow> HeaderField \<Rightarrow> (64 word \<times> bool) option" where
  "search static t f =
     (let id = get (byNameValue t) (Name f, Value f) in
      if \<not> Sensitive f \<and> id \<noteq> 0 then map_option (\<lambda>i. (i, True)) (idToIndex static t id)
      else
        let id = get (byName t) (Name f) in
        if id \<noteq> 0 then map_option (\<lambda>i. (i, False)) (idToIndex static t id)
        else Some (0, False))"

definition staticTableEntries :: "HeaderField list" where
  "staticTableEntries = map (\<lambda>(n, v). \<lparr>Name = octets_of n, Value = octets_of v, Sensitive = False\<rparr>)
    [('':authority'', ''''), ('':method'', ''GET''), ('':method'', ''POST''), ('':path'', ''/''),
     ('':path'', ''/index.html''), ('':scheme'', ''http''), ('':scheme'', ''https''),
     ('':status'', ''200''), ('':status'', ''204''), ('':status'', ''206''), ('':status'', ''304''),
     ('':status'', ''400''), ('':status'', ''404''), ('':status'', ''500''),
     (''accept-charset'', ''''), (''accept-encoding'', ''gzip, deflate''), (''accept-language'', ''''),
     (''accept-ranges'', ''''), (''accept'', ''''), (''access-control-allow-origin'', ''''),
     (''age'', ''''), (''allow'', ''''), (''authorization'', ''''), (''cache-control'', ''''),
     (''content-disposition'', ''''), (''content-encoding'', ''''), (''content-language'', ''''),
     (''content-length'', ''''), (''content-location'', ''''), (''content-range'', ''''),
     (''content-type'', ''''), (''cookie'', ''''), (''date'', ''''), (''etag'', ''''),
     (''expect'', ''''), (''expires'', ''''), (''from'', ''''), (''host'', ''''), (''if-match'', ''''),
     (''if-modified-since'', ''''), (''if-none-match'', ''''), (''if-range'', ''''),
     (''if-unmodified-since'', ''''), (''last-modified'', ''''), (''link'', ''''),
     (''location'', ''''), (''max-forwards'', ''''), (''proxy-authenticate'', ''''),
     (''proxy-authorization'', ''''), (''range'', ''''), (''referer'', ''''), (''refresh'', ''''),
     (''retry-after'', ''''), (''server'', ''''), (''set-cookie'', ''''),
     (''strict-transport-security'', ''''), (''transfer-encoding'', ''''), (''user-agent'', ''''),
     (''vary'', ''''), (''via'', ''''), (''www-authenticate'', '''')]"

definition newStaticTable :: headerFieldTable where
  "newStaticTable = foldl addEntry table_init staticTableEntries"

definition staticTable :: headerFieldTable where
  "staticTable = newStaticTable"

section \<open>The dynamic table\<close>

record dynamicTable =
  table :: headerFieldTable
  dt_size :: "32 word"            \<comment> \<open>\<open>size\<close>\<close>
  maxSize :: "32 word"
  allowedMaxSize :: "32 word"

fun evict_loop :: "HeaderField list \<Rightarrow> 32 word \<Rightarrow> 32 word \<Rightarrow> nat \<times> 32 word" where
  "evict_loop [] s mx = (0, s)"
| "evict_loop (f # fs) s mx =
     (if mx < s then (case evict_loop fs (s - Size f) mx of (n, s) \<Rightarrow> (Suc n, s)) else (0, s))"

definition evict :: "dynamicTable \<Rightarrow> dynamicTable option" where
  "evict dt =
     (case evict_loop (ents (table dt)) (dt_size dt) (maxSize dt) of
        (n, s) \<Rightarrow> map_option (\<lambda>t. dt\<lparr>dt_size := s, table := t\<rparr>) (evictOldest (table dt) n))"

definition setMaxSize :: "dynamicTable \<Rightarrow> 32 word \<Rightarrow> dynamicTable option" where
  "setMaxSize dt v = evict (dt\<lparr>maxSize := v\<rparr>)"

definition dyn_add :: "dynamicTable \<Rightarrow> HeaderField \<Rightarrow> dynamicTable option" where
  "dyn_add dt f = evict (dt\<lparr>table := addEntry (table dt) f, dt_size := dt_size dt + Size f\<rparr>)"

section \<open>The maps find the newest entry\<close>

fun last_index :: "('a \<Rightarrow> bool) \<Rightarrow> 'a list \<Rightarrow> nat option" where
  "last_index P [] = None"
| "last_index P (x # xs) =
     (case last_index P xs of Some k \<Rightarrow> Some (Suc k) | None \<Rightarrow> if P x then Some 0 else None)"

lemma last_index_snoc: "last_index P (xs @ [x]) = (if P x then Some (length xs) else last_index P xs)"
  by (induction xs) auto

lemma last_index_Some: "last_index P xs = Some k \<Longrightarrow> k < length xs \<and> P (xs ! k)"
  by (induction xs arbitrary: k) (auto split: option.splits if_splits)

lemma last_index_None: "last_index P xs = None \<longleftrightarrow> (\<forall>x \<in> set xs. \<not> P x)"
  by (induction xs) (auto split: option.split)

definition newest :: "64 word \<Rightarrow> ('a \<Rightarrow> bool) \<Rightarrow> 'a list \<Rightarrow> 64 word option" where
  "newest ec P xs = map_option (\<lambda>k. ec + word_of_nat k + 1) (last_index P xs)"

definition maps_ok :: "64 word \<Rightarrow> HeaderField list \<Rightarrow> (octets \<rightharpoonup> 64 word) \<times> (octets \<times> octets \<rightharpoonup> 64 word) \<Rightarrow> bool" where
  "maps_ok ec xs m \<longleftrightarrow> unat ec + length xs < 2 ^ 64 \<and>
     (\<forall>n. fst m n = newest ec (\<lambda>f. Name f = n) xs) \<and>
     (\<forall>p. snd m p = newest ec (\<lambda>f. (Name f, Value f) = p) xs)"

definition table_ok :: "headerFieldTable \<Rightarrow> bool" where
  "table_ok t \<longleftrightarrow> maps_ok (evictCount t) (ents t) (byName t, byNameValue t)"

lemma table_ok_init: "table_ok table_init"
  by (simp add: table_ok_def maps_ok_def table_init_def newest_def)

lemma addEntry_ok:
  assumes "table_ok t" "unat (evictCount t) + length (ents t) + 1 < 2 ^ 64"
  shows "table_ok (addEntry t f)"
  using assms
  by (auto simp: table_ok_def maps_ok_def addEntry_def newest_def last_index_snoc Let_def ac_simps)

lemma newest_unat:
  assumes "unat ec + length xs < 2 ^ 64" "newest ec P xs = Some uid"
  shows "\<exists>k. last_index P xs = Some k \<and> unat uid = unat ec + k + 1"
proof -
  obtain k where k: "last_index P xs = Some k" "uid = ec + word_of_nat k + 1" using assms(2) by (auto simp: newest_def)
  then have "k < length xs" using last_index_Some by blast
  then have "unat uid = unat ec + k + 1" using k(2) assms(1) by (simp add: unat_word_ariths unat_of_nat)
  then show ?thesis using k by blast
qed

lemma newest_Cons:
  "newest ec P (f # fs) = (case newest (ec + 1) P fs of Some i \<Rightarrow> Some i | None \<Rightarrow> if P f then Some (ec + 1) else None)"
  by (simp add: newest_def ac_simps split: option.split)

lemma newest_later:
  assumes "unat ec + length (f # fs) < 2 ^ 64" "newest (ec + 1) P fs = Some i"
  shows "i \<noteq> ec + 1 \<and> i \<noteq> 0"
proof -
  have ec: "unat (ec + 1) = unat ec + 1" using assms(1) by (simp add: unat_word_ariths)
  then obtain k where "unat i = unat ec + 1 + k + 1"
    using newest_unat [of "ec + 1" fs P i] assms by auto
  then show ?thesis using ec by auto
qed

lemma get_newest: "m k = newest ec P xs \<Longrightarrow> get m k = (case newest ec P xs of None \<Rightarrow> 0 | Some v \<Rightarrow> v)"
  by (simp add: get_def)

lemma evict_first:
  assumes "unat ec + length (f # fs) < 2 ^ 64" "\<And>k. m k = newest ec (\<lambda>f. key f = k) (f # fs)"
  shows "(if get m (key f) = ec + 1 then m(key f := None) else m) k = newest (ec + 1) (\<lambda>f. key f = k) fs"
proof -
  have "unat (ec + 1) = unat ec + 1" using assms(1) by (simp add: unat_word_ariths)
  then have ne: "ec + 1 \<noteq> 0" by auto
  show ?thesis
    using assms(2) [of "key f"] assms(2) [of k] newest_later [OF assms(1), of "\<lambda>f'. key f' = key f"] ne
    by (auto simp: get_def newest_Cons split: option.splits)
qed

lemma evict_ids_ok:
  assumes "maps_ok ec xs (bn, bnv)" "n \<le> length xs"
  shows "maps_ok (ec + word_of_nat n) (drop n xs) (evict_ids (take n xs) (ec + 1) (bn, bnv))"
  using assms
proof (induction n arbitrary: ec xs bn bnv)
  case (Suc n)
  then obtain f fs where xs: "xs = f # fs" by (cases xs) auto
  let ?bn = "if get bn (Name f) = ec + 1 then bn(Name f := None) else bn"
  let ?bnv = "if get bnv (Name f, Value f) = ec + 1 then bnv((Name f, Value f) := None) else bnv"
  have b: "unat ec + length (f # fs) < 2 ^ 64" using Suc.prems(1) by (simp add: maps_ok_def xs)
  have "unat (ec + 1) = unat ec + 1" using b by (simp add: unat_word_ariths)
  moreover have "?bn k = newest (ec + 1) (\<lambda>f. Name f = k) fs" for k
    using Suc.prems(1) by (intro evict_first [OF b]) (simp add: maps_ok_def xs)
  moreover have "?bnv k = newest (ec + 1) (\<lambda>f. (Name f, Value f) = k) fs" for k
    using Suc.prems(1) by (intro evict_first [OF b, where key = "\<lambda>f. (Name f, Value f)"]) (auto simp: maps_ok_def xs)
  ultimately have "maps_ok (ec + 1) fs (?bn, ?bnv)" using b by (simp add: maps_ok_def)
  from Suc.IH [OF this] Suc.prems(2) show ?case by (simp add: xs Let_def ac_simps)
qed simp

lemma evictOldest_ok:
  assumes "table_ok t" "n \<le> length (ents t)"
  shows "\<exists>t'. evictOldest t n = Some t' \<and> table_ok t' \<and> ents t' = drop n (ents t) \<and>
    unat (evictCount t') = unat (evictCount t) + n"
proof -
  have b: "unat (evictCount t) + length (ents t) < 2 ^ 64" using assms(1) by (simp add: table_ok_def maps_ok_def)
  then have u: "unat (evictCount t + word_of_nat n) = unat (evictCount t) + n"
    using assms(2) by (simp add: unat_word_ariths unat_of_nat)
  obtain bn bnv where m: "evict_ids (take n (ents t)) (evictCount t + 1) (byName t, byNameValue t) = (bn, bnv)" by fastforce
  have "maps_ok (evictCount t + word_of_nat n) (drop n (ents t)) (bn, bnv)"
    using evict_ids_ok [of "evictCount t" "ents t" "byName t" "byNameValue t" n] assms by (simp add: table_ok_def m)
  moreover have "\<not> evictCount t + word_of_nat n < evictCount t" using u by (simp add: word_less_nat_alt)
  ultimately show ?thesis using assms(2) u by (simp add: evictOldest_def m table_ok_def)
qed

section \<open>Searching\<close>

definition position :: "bool \<Rightarrow> headerFieldTable \<Rightarrow> nat \<Rightarrow> 64 word" where
  \<comment> \<open>the HPACK index of \<open>ents[k]\<close>: the dynamic table counts from the newest entry\<close>
  "position static t k = word_of_nat (if static then k + 1 else length (ents t) - k)"

lemma idToIndex_newest:
  assumes "table_ok t" "newest (evictCount t) P (ents t) = Some i"
  shows "\<exists>k. last_index P (ents t) = Some k \<and> idToIndex static t i = Some (position static t k) \<and> i \<noteq> 0"
proof -
  have b: "unat (evictCount t) + length (ents t) < 2 ^ 64" using assms(1) by (simp add: table_ok_def maps_ok_def)
  obtain k where k: "last_index P (ents t) = Some k" "unat i = unat (evictCount t) + k + 1"
    using newest_unat [OF b assms(2)] by blast
  then have less: "k < length (ents t)" using last_index_Some by blast
  have i: "i = evictCount t + word_of_nat k + 1" using k(1) assms(2) by (simp add: newest_def)
  have "(word_of_nat (length (ents t)) :: 64 word) - word_of_nat k = word_of_nat (length (ents t) - k)"
    using less by (simp add: of_nat_diff)
  then show ?thesis using k i by (auto simp: idToIndex_def position_def word_le_nat_alt Let_def)
qed

lemma search_newest:
  assumes "table_ok t"
  shows "search static t f = Some
    (case (if Sensitive f then None else last_index (\<lambda>g. (Name g, Value g) = (Name f, Value f)) (ents t)) of
       Some k \<Rightarrow> (position static t k, True)
     | None \<Rightarrow> (case last_index (\<lambda>g. Name g = Name f) (ents t) of
         Some k \<Rightarrow> (position static t k, False)
       | None \<Rightarrow> (0, False)))"
proof -
  have nv: "byNameValue t (Name f, Value f) = newest (evictCount t) (\<lambda>g. (Name g, Value g) = (Name f, Value f)) (ents t)"
    and n: "byName t (Name f) = newest (evictCount t) (\<lambda>g. Name g = Name f) (ents t)"
    using assms by (simp_all add: table_ok_def maps_ok_def)
  have none: "newest ec P xs = None \<longleftrightarrow> last_index P xs = None" for ec P and xs :: "HeaderField list"
    by (simp add: newest_def)
  note i = idToIndex_newest [OF assms, of _ _ static]
  show ?thesis
    using i [of "\<lambda>g. (Name g, Value g) = (Name f, Value f)"] i [of "\<lambda>g. Name g = Name f"]
      none [of "evictCount t" "\<lambda>g. (Name g, Value g) = (Name f, Value f)" "ents t"]
      none [of "evictCount t" "\<lambda>g. Name g = Name f" "ents t"]
    unfolding search_def get_def nv n
    by (cases "newest (evictCount t) (\<lambda>g. (Name g, Value g) = (Name f, Value f)) (ents t)";
        cases "newest (evictCount t) (\<lambda>g. Name g = Name f) (ents t)") (fastforce simp: Let_def)+
qed

lemma foldl_addEntry_ok:
  "table_ok t \<Longrightarrow> unat (evictCount t) + length (ents t) + length fs < 2 ^ 64 \<Longrightarrow>
     table_ok (foldl addEntry t fs) \<and> ents (foldl addEntry t fs) = ents t @ fs \<and> evictCount (foldl addEntry t fs) = evictCount t"
proof (induction fs arbitrary: t)
  case (Cons f fs)
  moreover have "ents (addEntry t f) = ents t @ [f]" "evictCount (addEntry t f) = evictCount t"
    by (simp_all add: addEntry_def Let_def)
  ultimately show ?case using addEntry_ok [of t f] by simp
qed simp

lemma length_staticTableEntries: "length staticTableEntries = 61"
  by (simp add: staticTableEntries_def)

lemma staticTable_ok: "table_ok staticTable" "ents staticTable = staticTableEntries"
  using foldl_addEntry_ok [OF table_ok_init, of staticTableEntries]
  by (simp_all add: staticTable_def newStaticTable_def table_init_def length_staticTableEntries)

section \<open>The dynamic table holds what fits\<close>

definition entry_size :: "HeaderField \<Rightarrow> nat" where
  "entry_size f = length (Name f) + length (Value f) + 32"

definition total_size :: "HeaderField list \<Rightarrow> nat" where
  "total_size fs = sum_list (map entry_size fs)"

fun retain :: "nat \<Rightarrow> HeaderField list \<Rightarrow> HeaderField list" where
  \<comment> \<open>the abstract eviction: the oldest entries go until the rest fits\<close>
  "retain mx [] = []"
| "retain mx (f # fs) = (if mx < total_size (f # fs) then retain mx fs else f # fs)"

definition dyn_ok :: "dynamicTable \<Rightarrow> bool" where
  "dyn_ok dt \<longleftrightarrow> table_ok (table dt) \<and> unat (dt_size dt) = total_size (ents (table dt)) \<and> dt_size dt \<le> maxSize dt"

lemma total_size_simps [simp]:
  "total_size [] = 0" "total_size (f # fs) = entry_size f + total_size fs"
  "total_size (fs @ gs) = total_size fs + total_size gs"
  by (simp_all add: total_size_def)

lemma Size_entry: "Size f = word_of_nat (entry_size f)"
  by (simp only: Size_def entry_size_def)

lemma unat_Size: "entry_size f < 2 ^ 32 \<Longrightarrow> unat (Size f) = entry_size f"
  by (simp add: Size_entry unat_of_nat)

lemma retain_bound: "total_size (retain mx fs) \<le> mx"
  by (induction mx fs rule: retain.induct) auto

lemma retain_suffix: "suffix (retain mx fs) fs"
  by (induction mx fs rule: retain.induct) (auto simp: suffix_Cons)

lemma retain_id: "total_size fs \<le> mx \<Longrightarrow> retain mx fs = fs"
  by (cases fs) auto

lemma evict_loop_retain:
  assumes "unat s = total_size fs" "evict_loop fs s mx = (n, s')"
  shows "n \<le> length fs \<and> drop n fs = retain (unat mx) fs \<and> unat s' = total_size (retain (unat mx) fs) \<and> s' \<le> mx"
  using assms
proof (induction fs s mx arbitrary: n s' rule: evict_loop.induct)
  case (2 f fs s mx)
  have es: "entry_size f < 2 ^ 32" using "2.prems"(1) unsigned_less [of s, where 'a = nat] by simp
  then have sz: "unat (Size f) = entry_size f" by (rule unat_Size)
  then have sub: "unat (s - Size f) = total_size fs" using "2.prems"(1) by (subst unat_sub) (simp_all add: word_le_nat_alt)
  show ?case
  proof (cases "mx < s")
    case True
    then obtain m where m: "evict_loop fs (s - Size f) mx = (m, s')" "n = Suc m"
      using "2.prems"(2) by (auto split: prod.splits)
    have "unat mx < total_size (f # fs)" using True "2.prems"(1) by (simp add: word_less_nat_alt)
    with "2.IH" [OF True sub m(1)] m(2) show ?thesis by simp
  next
    case False
    then have "\<not> unat mx < total_size (f # fs)" using "2.prems"(1) by (simp add: word_less_nat_alt)
    moreover have "n = 0" "s' = s" using False "2.prems"(2) by simp_all
    ultimately show ?thesis using False "2.prems"(1) by (simp add: not_less)
  qed
qed (simp add: word_le_nat_alt)

lemma evict_ok:
  assumes "table_ok (table dt)" "unat (dt_size dt) = total_size (ents (table dt))"
  shows "\<exists>dt'. evict dt = Some dt' \<and> dyn_ok dt' \<and> ents (table dt') = retain (unat (maxSize dt)) (ents (table dt)) \<and>
    maxSize dt' = maxSize dt \<and> allowedMaxSize dt' = allowedMaxSize dt \<and>
    unat (evictCount (table dt')) + length (ents (table dt')) = unat (evictCount (table dt)) + length (ents (table dt))"
proof -
  obtain n s where l: "evict_loop (ents (table dt)) (dt_size dt) (maxSize dt) = (n, s)" by fastforce
  note r = evict_loop_retain [OF assms(2) l]
  then obtain t' where t': "evictOldest (table dt) n = Some t'" "table_ok t'" "ents t' = drop n (ents (table dt))"
    "unat (evictCount t') = unat (evictCount (table dt)) + n"
    using evictOldest_ok [OF assms(1), of n] by blast
  moreover have "n + length (drop n (ents (table dt))) = length (ents (table dt))" using r [THEN conjunct1] by simp
  ultimately show ?thesis using r by (simp add: evict_def l dyn_ok_def)
qed

definition dyn_room :: "dynamicTable \<Rightarrow> HeaderField \<Rightarrow> bool" where
  \<comment> \<open>neither the unique ids nor the size overflow\<close>
  "dyn_room dt f \<longleftrightarrow> unat (evictCount (table dt)) + length (ents (table dt)) + 1 < 2 ^ 64 \<and>
     unat (dt_size dt) + entry_size f < 2 ^ 32"

lemma dyn_add_ok:
  assumes "dyn_ok dt" "dyn_room dt f"
  shows "\<exists>dt'. dyn_add dt f = Some dt' \<and> dyn_ok dt' \<and> ents (table dt') = retain (unat (maxSize dt)) (ents (table dt) @ [f]) \<and>
    maxSize dt' = maxSize dt \<and> allowedMaxSize dt' = allowedMaxSize dt \<and>
    unat (evictCount (table dt')) + length (ents (table dt')) = unat (evictCount (table dt)) + length (ents (table dt)) + 1"
proof -
  let ?dt = "dt\<lparr>table := addEntry (table dt) f, dt_size := dt_size dt + Size f\<rparr>"
  have "table_ok (addEntry (table dt) f)" using assms by (intro addEntry_ok) (simp_all add: dyn_ok_def dyn_room_def)
  moreover have "unat (dt_size dt + Size f) = total_size (ents (table dt) @ [f])"
    using assms by (simp add: dyn_ok_def dyn_room_def unat_word_ariths unat_Size)
  moreover have "ents (addEntry (table dt) f) = ents (table dt) @ [f]" "evictCount (addEntry (table dt) f) = evictCount (table dt)"
    by (simp_all add: addEntry_def Let_def)
  ultimately show ?thesis using evict_ok [of ?dt] by (simp add: dyn_add_def)
qed

lemma setMaxSize_ok:
  assumes "dyn_ok dt"
  shows "\<exists>dt'. setMaxSize dt v = Some dt' \<and> dyn_ok dt' \<and> ents (table dt') = retain (unat v) (ents (table dt)) \<and>
    maxSize dt' = v \<and> allowedMaxSize dt' = allowedMaxSize dt \<and>
    unat (evictCount (table dt')) + length (ents (table dt')) = unat (evictCount (table dt)) + length (ents (table dt))"
  using evict_ok [of "dt\<lparr>maxSize := v\<rparr>"] assms by (simp add: setMaxSize_def dyn_ok_def)

definition new_dyn :: "32 word \<Rightarrow> dynamicTable option" where
  \<comment> \<open>\<open>dynTab.table.init(); dynTab.setMaxSize(v)\<close> on the zero value\<close>
  "new_dyn v = setMaxSize \<lparr>table = table_init, dt_size = 0, maxSize = 0, allowedMaxSize = 0\<rparr> v"

lemma new_dyn_eq: "new_dyn v = Some \<lparr>table = table_init, dt_size = 0, maxSize = v, allowedMaxSize = 0\<rparr>"
  by (simp add: new_dyn_def setMaxSize_def evict_def evictOldest_def table_init_def)

lemma dyn_ok_new: "dyn_ok \<lparr>table = table_init, dt_size = 0, maxSize = v, allowedMaxSize = a\<rparr>"
  by (simp add: dyn_ok_def table_ok_init) (simp add: table_init_def)

text \<open>
  (C20) The dynamic table. Adding a field, while the unique ids and the size do not overflow, never panics;
  afterwards the table holds the entries it had and the new one, without the oldest ones that no longer
  fit, its recorded size is the total of the entries and within the limit, and a search finds the
  newest entry with the name and value, or else the newest with the name, at its HPACK index. Changing the
  limit evicts in the same way.
\<close>
theorem dynamic_table_refines:
  assumes "dyn_ok dt" "unat (evictCount (table dt)) + length (ents (table dt)) + 1 < 2 ^ 64"
    "unat (dt_size dt) + entry_size f < 2 ^ 32"
  shows "\<exists>dt' dt''. dyn_add dt f = Some dt' \<and> dyn_ok dt' \<and>
      ents (table dt') = retain (unat (maxSize dt)) (ents (table dt) @ [f]) \<and>
      setMaxSize dt v = Some dt'' \<and> dyn_ok dt'' \<and> ents (table dt'') = retain (unat v) (ents (table dt)) \<and>
      search False (table dt') g = Some
        (case (if Sensitive g then None else last_index (\<lambda>h. (Name h, Value h) = (Name g, Value g)) (ents (table dt'))) of
           Some k \<Rightarrow> (word_of_nat (length (ents (table dt')) - k), True)
         | None \<Rightarrow> (case last_index (\<lambda>h. Name h = Name g) (ents (table dt')) of
             Some k \<Rightarrow> (word_of_nat (length (ents (table dt')) - k), False)
           | None \<Rightarrow> (0, False)))"
proof -
  obtain dt' where a: "dyn_add dt f = Some dt'" "dyn_ok dt'" "ents (table dt') = retain (unat (maxSize dt)) (ents (table dt) @ [f])"
    using dyn_add_ok [of dt f] assms by (auto simp: dyn_room_def)
  obtain dt'' where "setMaxSize dt v = Some dt''" "dyn_ok dt''" "ents (table dt'') = retain (unat v) (ents (table dt))"
    using setMaxSize_ok [OF assms(1), of v] by auto
  with a show ?thesis
    using search_newest [of "table dt'" False g] by (simp add: dyn_ok_def position_def cong: option.case_cong)
qed

theorem dynamic_table_refines_witness:
  "\<exists>dt'. dyn_add \<lparr>table = table_init, dt_size = 0, maxSize = 100, allowedMaxSize = 0\<rparr> \<lparr>Name = [97], Value = [98], Sensitive = False\<rparr> = Some dt' \<and>
     ents (table dt') = [\<lparr>Name = [97], Value = [98], Sensitive = False\<rparr>] \<and>
     search False (table dt') \<lparr>Name = [97], Value = [], Sensitive = True\<rparr> = Some (1, False)"
  using dynamic_table_refines [of "\<lparr>table = table_init, dt_size = 0, maxSize = 100, allowedMaxSize = 0\<rparr>"
      "\<lparr>Name = [97], Value = [98], Sensitive = False\<rparr>" 0 "\<lparr>Name = [97], Value = [], Sensitive = True\<rparr>"] dyn_ok_new [of 100 0]
  by (auto simp: table_init_def entry_size_def)

end
