(* ===== verification/HuffmanCode.thy ===== *)
theory HuffmanCode
  imports VarInt "HOL-Library.Tree"
begin

text \<open>
  The Huffman code of HPACK: the tables \<open>huffmanCodes\<close> and \<open>huffmanCodeLen\<close> of
  \<open>http2/hpack/tables.go\<close>, bit strings, and the proof that the code is prefix free. A code word is
  read as the interval of the 32-bit fractions that start with it; the intervals of the 256 symbols are
  found in a search tree of disjoint intervals, so no code word is a prefix of another.
\<close>

section \<open>Tables\<close>

definition huffmanCodes :: "32 word list" where
  "huffmanCodes =
    [0x1ff8, 0x7fffd8, 0xfffffe2, 0xfffffe3, 0xfffffe4, 0xfffffe5, 0xfffffe6, 0xfffffe7, 0xfffffe8,
     0xffffea, 0x3ffffffc, 0xfffffe9, 0xfffffea, 0x3ffffffd, 0xfffffeb, 0xfffffec, 0xfffffed,
     0xfffffee, 0xfffffef, 0xffffff0, 0xffffff1, 0xffffff2, 0x3ffffffe, 0xffffff3, 0xffffff4,
     0xffffff5, 0xffffff6, 0xffffff7, 0xffffff8, 0xffffff9, 0xffffffa, 0xffffffb, 0x14, 0x3f8, 0x3f9,
     0xffa, 0x1ff9, 0x15, 0xf8, 0x7fa, 0x3fa, 0x3fb, 0xf9, 0x7fb, 0xfa, 0x16, 0x17, 0x18, 0x0, 0x1,
     0x2, 0x19, 0x1a, 0x1b, 0x1c, 0x1d, 0x1e, 0x1f, 0x5c, 0xfb, 0x7ffc, 0x20, 0xffb, 0x3fc, 0x1ffa,
     0x21, 0x5d, 0x5e, 0x5f, 0x60, 0x61, 0x62, 0x63, 0x64, 0x65, 0x66, 0x67, 0x68, 0x69, 0x6a, 0x6b,
     0x6c, 0x6d, 0x6e, 0x6f, 0x70, 0x71, 0x72, 0xfc, 0x73, 0xfd, 0x1ffb, 0x7fff0, 0x1ffc, 0x3ffc, 0x22,
     0x7ffd, 0x3, 0x23, 0x4, 0x24, 0x5, 0x25, 0x26, 0x27, 0x6, 0x74, 0x75, 0x28, 0x29, 0x2a, 0x7, 0x2b,
     0x76, 0x2c, 0x8, 0x9, 0x2d, 0x77, 0x78, 0x79, 0x7a, 0x7b, 0x7ffe, 0x7fc, 0x3ffd, 0x1ffd,
     0xffffffc, 0xfffe6, 0x3fffd2, 0xfffe7, 0xfffe8, 0x3fffd3, 0x3fffd4, 0x3fffd5, 0x7fffd9, 0x3fffd6,
     0x7fffda, 0x7fffdb, 0x7fffdc, 0x7fffdd, 0x7fffde, 0xffffeb, 0x7fffdf, 0xffffec, 0xffffed,
     0x3fffd7, 0x7fffe0, 0xffffee, 0x7fffe1, 0x7fffe2, 0x7fffe3, 0x7fffe4, 0x1fffdc, 0x3fffd8,
     0x7fffe5, 0x3fffd9, 0x7fffe6, 0x7fffe7, 0xffffef, 0x3fffda, 0x1fffdd, 0xfffe9, 0x3fffdb, 0x3fffdc,
     0x7fffe8, 0x7fffe9, 0x1fffde, 0x7fffea, 0x3fffdd, 0x3fffde, 0xfffff0, 0x1fffdf, 0x3fffdf,
     0x7fffeb, 0x7fffec, 0x1fffe0, 0x1fffe1, 0x3fffe0, 0x1fffe2, 0x7fffed, 0x3fffe1, 0x7fffee,
     0x7fffef, 0xfffea, 0x3fffe2, 0x3fffe3, 0x3fffe4, 0x7ffff0, 0x3fffe5, 0x3fffe6, 0x7ffff1,
     0x3ffffe0, 0x3ffffe1, 0xfffeb, 0x7fff1, 0x3fffe7, 0x7ffff2, 0x3fffe8, 0x1ffffec, 0x3ffffe2,
     0x3ffffe3, 0x3ffffe4, 0x7ffffde, 0x7ffffdf, 0x3ffffe5, 0xfffff1, 0x1ffffed, 0x7fff2, 0x1fffe3,
     0x3ffffe6, 0x7ffffe0, 0x7ffffe1, 0x3ffffe7, 0x7ffffe2, 0xfffff2, 0x1fffe4, 0x1fffe5, 0x3ffffe8,
     0x3ffffe9, 0xffffffd, 0x7ffffe3, 0x7ffffe4, 0x7ffffe5, 0xfffec, 0xfffff3, 0xfffed, 0x1fffe6,
     0x3fffe9, 0x1fffe7, 0x1fffe8, 0x7ffff3, 0x3fffea, 0x3fffeb, 0x1ffffee, 0x1ffffef, 0xfffff4,
     0xfffff5, 0x3ffffea, 0x7ffff4, 0x3ffffeb, 0x7ffffe6, 0x3ffffec, 0x3ffffed, 0x7ffffe7, 0x7ffffe8,
     0x7ffffe9, 0x7ffffea, 0x7ffffeb, 0xffffffe, 0x7ffffec, 0x7ffffed, 0x7ffffee, 0x7ffffef, 0x7fffff0,
     0x3ffffee]"

definition huffmanCodeLen :: "8 word list" where
  "huffmanCodeLen =
    [13, 23, 28, 28, 28, 28, 28, 28, 28, 24, 30, 28, 28, 30, 28, 28, 28, 28, 28, 28, 28, 28, 30, 28,
     28, 28, 28, 28, 28, 28, 28, 28, 6, 10, 10, 12, 13, 6, 8, 11, 10, 10, 8, 11, 8, 6, 6, 6, 5, 5, 5,
     6, 6, 6, 6, 6, 6, 6, 7, 8, 15, 6, 12, 10, 13, 6, 7, 7, 7, 7, 7, 7, 7, 7, 7, 7, 7, 7, 7, 7, 7, 7,
     7, 7, 7, 7, 7, 7, 8, 7, 8, 13, 19, 13, 14, 6, 15, 5, 6, 5, 6, 5, 6, 6, 6, 5, 7, 7, 6, 6, 6, 5, 6,
     7, 6, 5, 5, 6, 7, 7, 7, 7, 7, 15, 11, 14, 13, 28, 20, 22, 20, 20, 22, 22, 22, 23, 22, 23, 23, 23,
     23, 23, 24, 23, 24, 24, 22, 23, 24, 23, 23, 23, 23, 21, 22, 23, 22, 23, 23, 24, 22, 21, 20, 22,
     22, 23, 23, 21, 23, 22, 22, 24, 21, 22, 23, 23, 21, 21, 22, 21, 23, 22, 23, 23, 20, 22, 22, 22,
     23, 22, 22, 23, 26, 26, 20, 19, 22, 23, 22, 25, 26, 26, 26, 27, 27, 26, 24, 25, 19, 21, 26, 27,
     27, 26, 27, 24, 21, 21, 26, 26, 28, 27, 27, 27, 20, 24, 20, 21, 22, 21, 21, 23, 22, 22, 25, 25,
     24, 24, 26, 23, 26, 27, 26, 26, 27, 27, 27, 27, 27, 28, 27, 27, 27, 27, 27, 26]"

section \<open>Bit strings\<close>

definition bits :: "nat \<Rightarrow> 'a::len word \<Rightarrow> bool list" where
  \<comment> \<open>the low \<open>n\<close> bits, the highest first\<close>
  "bits n w = map (\<lambda>k. bit w (n - Suc k)) [0..<n]"

definition octet_bits :: "octets \<Rightarrow> bool list" where
  "octet_bits p = concat (map (bits 8) p)"

definition code_bits :: "8 word \<Rightarrow> bool list" where
  "code_bits c = bits (unat (huffmanCodeLen ! unat c)) (huffmanCodes ! unat c)"

lemma length_bits [simp]: "length (bits n w) = n"
  by (simp add: bits_def)

lemma nth_bits: "k < n \<Longrightarrow> bits n w ! k = bit w (n - Suc k)"
  by (simp add: bits_def)

lemma bits_eq_iff: "bits n v = bits n w \<longleftrightarrow> (\<forall>k < n. bit v k = bit w k)"
proof
  assume e: "bits n v = bits n w"
  show "\<forall>k < n. bit v k = bit w k"
  proof (intro allI impI)
    fix k assume "k < n"
    with arg_cong [OF e, of "\<lambda>bs. bs ! (n - Suc k)"] show "bit v k = bit w k"
      by (simp add: nth_bits)
  qed
qed (simp add: bits_def)

lemma bits_0 [simp]: "bits 0 w = []"
  by (simp add: bits_def)

lemma bits_add: "bits (m + n) w = bits m (drop_bit n w) @ bits n w"
  by (rule nth_equalityI) (auto simp: nth_bits nth_append bit_simps not_less diff_diff_left [symmetric] intro!: arg_cong [of _ _ "bit w"])

lemma take_bits: "k \<le> n \<Longrightarrow> take k (bits n w) = bits k (drop_bit (n - k) w)"
  using bits_add [of k "n - k" w] by simp

lemma drop_bits: "k \<le> n \<Longrightarrow> drop k (bits n w) = bits (n - k) w"
  using bits_add [of k "n - k" w] by simp

lemma bits_ucast: "n \<le> LENGTH('b) \<Longrightarrow> bits n (ucast (w :: 'a::len word) :: 'b::len word) = bits n w"
  by (auto simp: bits_def bit_simps)

lemma bits_8_inj: "bits 8 v = bits 8 w \<longleftrightarrow> v = w" for v w :: "8 word"
  by (auto simp: bits_eq_iff intro: bit_word_eqI)

lemma bits_OR: "bits n (v OR w) = map2 (\<or>) (bits n v) (bits n w)"
  by (rule nth_equalityI) (simp_all add: nth_bits bit_simps)

lemma octet_bits_simps [simp]:
  "octet_bits [] = []" "octet_bits (b # p) = bits 8 b @ octet_bits p"
  "octet_bits (p @ q) = octet_bits p @ octet_bits q"
  by (simp_all add: octet_bits_def)

lemma length_octet_bits [simp]: "length (octet_bits p) = 8 * length p"
  by (induction p) simp_all

lemma octet_bits_inj: "octet_bits p = octet_bits q \<longleftrightarrow> p = q"
proof
  assume e: "octet_bits p = octet_bits q"
  then have "length p = length q" by (metis length_octet_bits mult_cancel1 zero_neq_numeral)
  then show "p = q" using e by (induction p q rule: list_induct2) (auto simp: bits_8_inj)
qed simp

section \<open>The code is prefix free\<close>

definition interval :: "32 word \<times> 8 word \<Rightarrow> int \<times> int" where
  "interval p = (let l = unat (snd p); c = uint (fst p) in (c * 2 ^ (32 - l), (c + 1) * 2 ^ (32 - l)))"

fun disjoint_in :: "int \<Rightarrow> int \<Rightarrow> (int \<times> int \<times> 'a) tree \<Rightarrow> bool" where
  "disjoint_in lo hi Leaf \<longleftrightarrow> lo \<le> hi"
| "disjoint_in lo hi (Node l (s, e, i) r) \<longleftrightarrow> disjoint_in lo s l \<and> s < e \<and> disjoint_in e hi r"

fun find_start :: "int \<Rightarrow> (int \<times> int \<times> 'a) tree \<Rightarrow> (int \<times> 'a) option" where
  "find_start k Leaf = None"
| "find_start k (Node l (s, e, i) r) =
     (if k < s then find_start k l else if s = k then Some (e, i) else find_start k r)"

lemma find_start_member: "find_start k t = Some (e, i) \<Longrightarrow> (k, e, i) \<in> set_tree t"
  by (induction k t rule: find_start.induct) (auto split: if_splits)

lemma disjoint_in_bounds: "disjoint_in lo hi t \<Longrightarrow> (s, e, i) \<in> set_tree t \<Longrightarrow> lo \<le> s \<and> s < e \<and> e \<le> hi"
proof (induction lo hi t rule: disjoint_in.induct)
  case (2 lo hi l s' e' i' r)
  moreover have "disjoint_in a b u \<Longrightarrow> a \<le> b" for a b and u :: "(int \<times> int \<times> 'a) tree"
    by (induction a b u rule: disjoint_in.induct) auto
  ultimately show ?case by fastforce
qed simp

lemma disjoint_in_disjoint:
  "disjoint_in lo hi t \<Longrightarrow> (s, e, i) \<in> set_tree t \<Longrightarrow> (s', e', i') \<in> set_tree t \<Longrightarrow>
     (s, e, i) = (s', e', i') \<or> e \<le> s' \<or> e' \<le> s"
  by (induction lo hi t rule: disjoint_in.induct) (fastforce dest: disjoint_in_bounds)+

definition code_space :: "(int \<times> int \<times> int) tree" where
  "code_space =
     (Node (Node (Node (Node (Node (Node (Node (Node (Node Leaf (0, 134217728, 48) Leaf) (134217728,
     268435456, 49) Leaf) (268435456, 402653184, 50) (Node Leaf (402653184, 536870912, 97) Leaf))
     (536870912, 671088640, 99) (Node (Node Leaf (671088640, 805306368, 101) Leaf) (805306368, 939524096,
     105) (Node Leaf (939524096, 1073741824, 111) Leaf))) (1073741824, 1207959552, 115) (Node (Node (Node
     Leaf (1207959552, 1342177280, 116) Leaf) (1342177280, 1409286144, 32) (Node Leaf (1409286144,
     1476395008, 37) Leaf)) (1476395008, 1543503872, 45) (Node (Node Leaf (1543503872, 1610612736, 46)
     Leaf) (1610612736, 1677721600, 47) (Node Leaf (1677721600, 1744830464, 51) Leaf)))) (1744830464,
     1811939328, 52) (Node (Node (Node (Node Leaf (1811939328, 1879048192, 53) Leaf) (1879048192,
     1946157056, 54) (Node Leaf (1946157056, 2013265920, 55) Leaf)) (2013265920, 2080374784, 56) (Node
     (Node Leaf (2080374784, 2147483648, 57) Leaf) (2147483648, 2214592512, 61) (Node Leaf (2214592512,
     2281701376, 65) Leaf))) (2281701376, 2348810240, 95) (Node (Node (Node Leaf (2348810240, 2415919104,
     98) Leaf) (2415919104, 2483027968, 100) (Node Leaf (2483027968, 2550136832, 102) Leaf)) (2550136832,
     2617245696, 103) (Node (Node Leaf (2617245696, 2684354560, 104) Leaf) (2684354560, 2751463424, 108)
     (Node Leaf (2751463424, 2818572288, 109) Leaf))))) (2818572288, 2885681152, 110) (Node (Node (Node
     (Node (Node Leaf (2885681152, 2952790016, 112) Leaf) (2952790016, 3019898880, 114) (Node Leaf
     (3019898880, 3087007744, 117) Leaf)) (3087007744, 3120562176, 58) (Node (Node Leaf (3120562176,
     3154116608, 66) Leaf) (3154116608, 3187671040, 67) (Node Leaf (3187671040, 3221225472, 68) Leaf)))
     (3221225472, 3254779904, 69) (Node (Node (Node Leaf (3254779904, 3288334336, 70) Leaf) (3288334336,
     3321888768, 71) (Node Leaf (3321888768, 3355443200, 72) Leaf)) (3355443200, 3388997632, 73) (Node
     (Node Leaf (3388997632, 3422552064, 74) Leaf) (3422552064, 3456106496, 75) (Node Leaf (3456106496,
     3489660928, 76) Leaf)))) (3489660928, 3523215360, 77) (Node (Node (Node (Node Leaf (3523215360,
     3556769792, 78) Leaf) (3556769792, 3590324224, 79) (Node Leaf (3590324224, 3623878656, 80) Leaf))
     (3623878656, 3657433088, 81) (Node (Node Leaf (3657433088, 3690987520, 82) Leaf) (3690987520,
     3724541952, 83) (Node Leaf (3724541952, 3758096384, 84) Leaf))) (3758096384, 3791650816, 85) (Node
     (Node (Node Leaf (3791650816, 3825205248, 86) Leaf) (3825205248, 3858759680, 87) (Node Leaf
     (3858759680, 3892314112, 89) Leaf)) (3892314112, 3925868544, 106) (Node (Node Leaf (3925868544,
     3959422976, 107) Leaf) (3959422976, 3992977408, 113) (Node Leaf (3992977408, 4026531840, 118)
     Leaf)))))) (4026531840, 4060086272, 119) (Node (Node (Node (Node (Node (Node Leaf (4060086272,
     4093640704, 120) Leaf) (4093640704, 4127195136, 121) (Node Leaf (4127195136, 4160749568, 122) Leaf))
     (4160749568, 4177526784, 38) (Node (Node Leaf (4177526784, 4194304000, 42) Leaf) (4194304000,
     4211081216, 44) (Node Leaf (4211081216, 4227858432, 59) Leaf))) (4227858432, 4244635648, 88) (Node
     (Node (Node Leaf (4244635648, 4261412864, 90) Leaf) (4261412864, 4265607168, 33) (Node Leaf
     (4265607168, 4269801472, 34) Leaf)) (4269801472, 4273995776, 40) (Node (Node Leaf (4273995776,
     4278190080, 41) Leaf) (4278190080, 4282384384, 63) (Node Leaf (4282384384, 4284481536, 39) Leaf))))
     (4284481536, 4286578688, 43) (Node (Node (Node (Node Leaf (4286578688, 4288675840, 124) Leaf)
     (4288675840, 4289724416, 35) (Node Leaf (4289724416, 4290772992, 62) Leaf)) (4290772992, 4291297280,
     0) (Node (Node Leaf (4291297280, 4291821568, 36) Leaf) (4291821568, 4292345856, 64) (Node Leaf
     (4292345856, 4292870144, 91) Leaf))) (4292870144, 4293394432, 93) (Node (Node (Node Leaf
     (4293394432, 4293918720, 126) Leaf) (4293918720, 4294180864, 94) (Node Leaf (4294180864, 4294443008,
     125) Leaf)) (4294443008, 4294574080, 60) (Node (Node Leaf (4294574080, 4294705152, 96) Leaf)
     (4294705152, 4294836224, 123) (Node Leaf (4294836224, 4294844416, 92) Leaf))))) (4294844416,
     4294852608, 195) (Node (Node (Node (Node (Node Leaf (4294852608, 4294860800, 208) Leaf) (4294860800,
     4294864896, 128) (Node Leaf (4294864896, 4294868992, 130) Leaf)) (4294868992, 4294873088, 131) (Node
     (Node Leaf (4294873088, 4294877184, 162) Leaf) (4294877184, 4294881280, 184) (Node Leaf (4294881280,
     4294885376, 194) Leaf))) (4294885376, 4294889472, 224) (Node (Node (Node Leaf (4294889472,
     4294893568, 226) Leaf) (4294893568, 4294895616, 153) (Node Leaf (4294895616, 4294897664, 161) Leaf))
     (4294897664, 4294899712, 167) (Node (Node Leaf (4294899712, 4294901760, 172) Leaf) (4294901760,
     4294903808, 176) (Node Leaf (4294903808, 4294905856, 177) Leaf)))) (4294905856, 4294907904, 179)
     (Node (Node (Node (Node Leaf (4294907904, 4294909952, 209) Leaf) (4294909952, 4294912000, 216) (Node
     Leaf (4294912000, 4294914048, 217) Leaf)) (4294914048, 4294916096, 227) (Node (Node Leaf
     (4294916096, 4294918144, 229) Leaf) (4294918144, 4294920192, 230) (Node Leaf (4294920192,
     4294921216, 129) Leaf))) (4294921216, 4294922240, 132) (Node (Node (Node Leaf (4294922240,
     4294923264, 133) Leaf) (4294923264, 4294924288, 134) (Node Leaf (4294924288, 4294925312, 136) Leaf))
     (4294925312, 4294926336, 146) (Node (Node Leaf (4294926336, 4294927360, 154) Leaf) (4294927360,
     4294928384, 156) (Node Leaf (4294928384, 4294929408, 160) Leaf))))))) (4294929408, 4294930432, 163)
     (Node (Node (Node (Node (Node (Node (Node Leaf (4294930432, 4294931456, 164) Leaf) (4294931456,
     4294932480, 169) (Node Leaf (4294932480, 4294933504, 170) Leaf)) (4294933504, 4294934528, 173) (Node
     (Node Leaf (4294934528, 4294935552, 178) Leaf) (4294935552, 4294936576, 181) (Node Leaf (4294936576,
     4294937600, 185) Leaf))) (4294937600, 4294938624, 186) (Node (Node (Node Leaf (4294938624,
     4294939648, 187) Leaf) (4294939648, 4294940672, 189) (Node Leaf (4294940672, 4294941696, 190) Leaf))
     (4294941696, 4294942720, 196) (Node (Node Leaf (4294942720, 4294943744, 198) Leaf) (4294943744,
     4294944768, 228) (Node Leaf (4294944768, 4294945792, 232) Leaf)))) (4294945792, 4294946816, 233)
     (Node (Node (Node (Node Leaf (4294946816, 4294947328, 1) Leaf) (4294947328, 4294947840, 135) (Node
     Leaf (4294947840, 4294948352, 137) Leaf)) (4294948352, 4294948864, 138) (Node (Node Leaf
     (4294948864, 4294949376, 139) Leaf) (4294949376, 4294949888, 140) (Node Leaf (4294949888,
     4294950400, 141) Leaf))) (4294950400, 4294950912, 143) (Node (Node (Node Leaf (4294950912,
     4294951424, 147) Leaf) (4294951424, 4294951936, 149) (Node Leaf (4294951936, 4294952448, 150) Leaf))
     (4294952448, 4294952960, 151) (Node (Node Leaf (4294952960, 4294953472, 152) Leaf) (4294953472,
     4294953984, 155) (Node Leaf (4294953984, 4294954496, 157) Leaf))))) (4294954496, 4294955008, 158)
     (Node (Node (Node (Node (Node Leaf (4294955008, 4294955520, 165) Leaf) (4294955520, 4294956032, 166)
     (Node Leaf (4294956032, 4294956544, 168) Leaf)) (4294956544, 4294957056, 174) (Node (Node Leaf
     (4294957056, 4294957568, 175) Leaf) (4294957568, 4294958080, 180) (Node Leaf (4294958080,
     4294958592, 182) Leaf))) (4294958592, 4294959104, 183) (Node (Node (Node Leaf (4294959104,
     4294959616, 188) Leaf) (4294959616, 4294960128, 191) (Node Leaf (4294960128, 4294960640, 197) Leaf))
     (4294960640, 4294961152, 231) (Node (Node Leaf (4294961152, 4294961664, 239) Leaf) (4294961664,
     4294961920, 9) (Node Leaf (4294961920, 4294962176, 142) Leaf)))) (4294962176, 4294962432, 144) (Node
     (Node (Node (Node Leaf (4294962432, 4294962688, 145) Leaf) (4294962688, 4294962944, 148) (Node Leaf
     (4294962944, 4294963200, 159) Leaf)) (4294963200, 4294963456, 171) (Node (Node Leaf (4294963456,
     4294963712, 206) Leaf) (4294963712, 4294963968, 215) (Node Leaf (4294963968, 4294964224, 225)
     Leaf))) (4294964224, 4294964480, 236) (Node (Node (Node Leaf (4294964480, 4294964736, 237) Leaf)
     (4294964736, 4294964864, 199) (Node Leaf (4294964864, 4294964992, 207) Leaf)) (4294964992,
     4294965120, 234) (Node (Node Leaf (4294965120, 4294965248, 235) Leaf) (4294965248, 4294965312, 192)
     (Node Leaf (4294965312, 4294965376, 193) Leaf)))))) (4294965376, 4294965440, 200) (Node (Node (Node
     (Node (Node (Node Leaf (4294965440, 4294965504, 201) Leaf) (4294965504, 4294965568, 202) (Node Leaf
     (4294965568, 4294965632, 205) Leaf)) (4294965632, 4294965696, 210) (Node (Node Leaf (4294965696,
     4294965760, 213) Leaf) (4294965760, 4294965824, 218) (Node Leaf (4294965824, 4294965888, 219)
     Leaf))) (4294965888, 4294965952, 238) (Node (Node (Node Leaf (4294965952, 4294966016, 240) Leaf)
     (4294966016, 4294966080, 242) (Node Leaf (4294966080, 4294966144, 243) Leaf)) (4294966144,
     4294966208, 255) (Node (Node Leaf (4294966208, 4294966240, 203) Leaf) (4294966240, 4294966272, 204)
     (Node Leaf (4294966272, 4294966304, 211) Leaf)))) (4294966304, 4294966336, 212) (Node (Node (Node
     (Node Leaf (4294966336, 4294966368, 214) Leaf) (4294966368, 4294966400, 221) (Node Leaf (4294966400,
     4294966432, 222) Leaf)) (4294966432, 4294966464, 223) (Node (Node Leaf (4294966464, 4294966496, 241)
     Leaf) (4294966496, 4294966528, 244) (Node Leaf (4294966528, 4294966560, 245) Leaf))) (4294966560,
     4294966592, 246) (Node (Node (Node Leaf (4294966592, 4294966624, 247) Leaf) (4294966624, 4294966656,
     248) (Node Leaf (4294966656, 4294966688, 250) Leaf)) (4294966688, 4294966720, 251) (Node (Node Leaf
     (4294966720, 4294966752, 252) Leaf) (4294966752, 4294966784, 253) (Node Leaf (4294966784,
     4294966816, 254) Leaf))))) (4294966816, 4294966832, 2) (Node (Node (Node (Node (Node Leaf
     (4294966832, 4294966848, 3) Leaf) (4294966848, 4294966864, 4) (Node Leaf (4294966864, 4294966880, 5)
     Leaf)) (4294966880, 4294966896, 6) (Node (Node Leaf (4294966896, 4294966912, 7) Leaf) (4294966912,
     4294966928, 8) (Node Leaf (4294966928, 4294966944, 11) Leaf))) (4294966944, 4294966960, 12) (Node
     (Node (Node Leaf (4294966960, 4294966976, 14) Leaf) (4294966976, 4294966992, 15) (Node Leaf
     (4294966992, 4294967008, 16) Leaf)) (4294967008, 4294967024, 17) (Node (Node Leaf (4294967024,
     4294967040, 18) Leaf) (4294967040, 4294967056, 19) (Node Leaf (4294967056, 4294967072, 20) Leaf))))
     (4294967072, 4294967088, 21) (Node (Node (Node (Node Leaf (4294967088, 4294967104, 23) Leaf)
     (4294967104, 4294967120, 24) (Node Leaf (4294967120, 4294967136, 25) Leaf)) (4294967136, 4294967152,
     26) (Node (Node Leaf (4294967152, 4294967168, 27) Leaf) (4294967168, 4294967184, 28) (Node Leaf
     (4294967184, 4294967200, 29) Leaf))) (4294967200, 4294967216, 30) (Node (Node (Node Leaf
     (4294967216, 4294967232, 31) Leaf) (4294967232, 4294967248, 127) (Node Leaf (4294967248, 4294967264,
     220) Leaf)) (4294967264, 4294967280, 249) (Node (Node Leaf (4294967280, 4294967284, 10) Leaf)
     (4294967284, 4294967288, 13) (Node Leaf (4294967288, 4294967292, 22) Leaf))))))))"

fun located :: "int \<Rightarrow> (int \<times> int) list \<Rightarrow> bool" where
  "located i [] \<longleftrightarrow> True"
| "located i ((s, e) # ps) \<longleftrightarrow> find_start s code_space = Some (e, i) \<and> located (i + 1) ps"

lemma code_space_disjoint: "disjoint_in 0 (2 ^ 32 - 4) code_space"
  by (simp add: code_space_def)

lemma codes_located: "located 0 (map interval (zip huffmanCodes huffmanCodeLen))"
  by code_simp

lemma table_lengths [simp]: "length huffmanCodes = 256" "length huffmanCodeLen = 256"
  by (simp_all add: huffmanCodes_def huffmanCodeLen_def)

lemma table_bounds:
  "list_all (\<lambda>(c, l). 5 \<le> l \<and> l \<le> 30 \<and> unat c < 2 ^ unat l) (zip huffmanCodes huffmanCodeLen)"
  by (simp add: huffmanCodes_def huffmanCodeLen_def)

lemma code_entry:
  "5 \<le> unat (huffmanCodeLen ! unat c)" "unat (huffmanCodeLen ! unat c) \<le> 30"
  "unat (huffmanCodes ! unat c) < 2 ^ unat (huffmanCodeLen ! unat c)" for c :: "8 word"
proof -
  have "unat c < 256" using unsigned_less [of c, where 'a = nat] by simp
  with list_all_length [THEN iffD1, OF table_bounds, rule_format, of "unat c"]
  have "5 \<le> huffmanCodeLen ! unat c \<and> huffmanCodeLen ! unat c \<le> 30 \<and>
      unat (huffmanCodes ! unat c) < 2 ^ unat (huffmanCodeLen ! unat c)" by simp
  then show "5 \<le> unat (huffmanCodeLen ! unat c)" "unat (huffmanCodeLen ! unat c) \<le> 30"
      "unat (huffmanCodes ! unat c) < 2 ^ unat (huffmanCodeLen ! unat c)"
    by (simp_all add: word_le_nat_alt)
qed

lemma length_code_bits: "5 \<le> length (code_bits c)" "length (code_bits c) \<le> 30"
  by (simp_all add: code_bits_def code_entry)

lemma located_nth:
  "located i ps \<Longrightarrow> k < length ps \<Longrightarrow> find_start (fst (ps ! k)) code_space = Some (snd (ps ! k), i + int k)"
  by (induction i ps arbitrary: k rule: located.induct) (auto simp: nth_Cons algebra_simps split: nat.splits)

definition code_interval :: "8 word \<Rightarrow> int \<times> int" where
  "code_interval c = interval (huffmanCodes ! unat c, huffmanCodeLen ! unat c)"

lemma code_interval_member: "(fst (code_interval c), snd (code_interval c), uint c) \<in> set_tree code_space"
proof -
  have "unat c < 256" using unsigned_less [of c, where 'a = nat] by simp
  then show ?thesis
    using located_nth [OF codes_located, of "unat c"]
    by (intro find_start_member) (simp add: code_interval_def)
qed

lemma bit_small: "bit u k \<Longrightarrow> unat u < 2 ^ j \<Longrightarrow> k < j" for u :: "'a::len word"
proof -
  assume "bit u k" "unat u < 2 ^ j"
  then have "bit (unat u) k" "take_bit j (unat u) = unat u"
    by (simp_all add: bit_unsigned_iff take_bit_nat_eq_self)
  then show "k < j" by (metis bit_take_bit_iff)
qed

lemma div_bounds: "0 < q \<Longrightarrow> w div q * q \<le> w \<and> w < (w div q + 1) * q" for q w :: int
proof -
  assume "0 < q"
  then have "w div q * q + w mod q = w" "0 \<le> w mod q" "w mod q < q" by simp_all
  then show ?thesis unfolding distrib_right by linarith
qed

lemma bits_prefix_div:
  fixes v w :: "'a::len word"
  assumes "prefix (bits l v) (bits m w)" "unat v < 2 ^ l" "unat w < 2 ^ m"
  shows "l \<le> m \<and> uint v = uint w div 2 ^ (m - l)"
proof -
  have l: "l \<le> m" using prefix_length_le [OF assms(1)] by simp
  have "bits l v = take l (bits m w)" using assms(1) by (auto simp: prefix_def)
  then have e: "\<forall>k < l. bit v k = bit (drop_bit (m - l) w) k"
    using l by (simp add: take_bits bits_eq_iff)
  note big = bit_small
  have "v = drop_bit (m - l) w"
  proof (rule bit_word_eqI)
    fix k assume "k < LENGTH('a)"
    show "bit v k = bit (drop_bit (m - l) w) k"
    proof (cases "k < l")
      case False
      with big [OF _ assms(2), of k] big [OF _ assms(3), of "m - l + k"] l show ?thesis
        by (auto simp: bit_simps)
    qed (simp add: e)
  qed
  moreover have "uint (drop_bit (m - l) w) = uint w div 2 ^ (m - l)"
    by (simp only: unsigned_drop_bit_eq) (simp add: drop_bit_eq_div take_bit_int_eq_self)
  ultimately show ?thesis using l by simp
qed

lemma code_prefix_interval:
  assumes "prefix (code_bits c) (code_bits d)"
  shows "fst (code_interval c) \<le> fst (code_interval d)" "fst (code_interval d) < snd (code_interval c)"
proof -
  let ?l = "unat (huffmanCodeLen ! unat c)" and ?m = "unat (huffmanCodeLen ! unat d)"
  let ?v = "uint (huffmanCodes ! unat c)" and ?w = "uint (huffmanCodes ! unat d)"
  from assms code_entry [of c] code_entry [of d]
  have lm: "?l \<le> ?m" and v: "?v = ?w div 2 ^ (?m - ?l)"
    using bits_prefix_div [of ?l "huffmanCodes ! unat c" ?m "huffmanCodes ! unat d"] by (auto simp: code_bits_def)
  have "?v * 2 ^ (?m - ?l) \<le> ?w" "?w < (?v + 1) * 2 ^ (?m - ?l)"
    unfolding v by (simp_all add: div_bounds)
  then have "?v * 2 ^ (?m - ?l) * 2 ^ (32 - ?m) \<le> ?w * 2 ^ (32 - ?m)"
    "?w * 2 ^ (32 - ?m) < (?v + 1) * 2 ^ (?m - ?l) * 2 ^ (32 - ?m)" by simp_all
  moreover have "?m - ?l + (32 - ?m) = 32 - ?l" using lm code_entry(2) [of d] by simp
  ultimately show "fst (code_interval c) \<le> fst (code_interval d)" "fst (code_interval d) < snd (code_interval c)"
    by (simp_all add: code_interval_def interval_def Let_def mult.assoc flip: power_add)
qed

text \<open>No code word is a prefix of another.\<close>

lemma code_prefix_free: "prefix (code_bits c) (code_bits d) \<longleftrightarrow> c = d"
proof
  assume p: "prefix (code_bits c) (code_bits d)"
  have "fst (code_interval d) < snd (code_interval d)"
    using disjoint_in_bounds [OF code_space_disjoint code_interval_member] by blast
  with code_prefix_interval [OF p]
    disjoint_in_disjoint [OF code_space_disjoint code_interval_member [of c] code_interval_member [of d]]
  show "c = d" by (auto intro: word_uint_eqI)
qed simp

text \<open>No code word consists of ones, so padding with ones is never read as a symbol.\<close>

lemma code_not_ones: "code_bits c \<noteq> replicate n True"
proof
  assume e: "code_bits c = replicate n True"
  let ?l = "unat (huffmanCodeLen ! unat c)" and ?v = "huffmanCodes ! unat c"
  have n: "n = ?l" using arg_cong [OF e, of length] by (simp add: code_bits_def)
  have "bits ?l ?v = bits ?l (mask ?l :: 32 word)"
    using e code_entry(2) [of c]
    by (intro nth_equalityI) (auto simp: code_bits_def n nth_bits bit_simps list_eq_iff_nth_eq)
  then have "uint ?v = uint (mask ?l :: 32 word) div 2 ^ (?l - ?l)"
    using code_entry(2,3) [of c]
    by (intro bits_prefix_div [THEN conjunct2]) (simp_all add: unat_mask)
  also have "\<dots> = 2 ^ ?l - 1"
    using code_entry(2) [of c] by (simp only: uint_mask_eq) (simp add: mask_eq_exp_minus_1 min_def)
  finally have "snd (code_interval c) = 2 ^ ?l * 2 ^ (32 - ?l)"
    by (simp add: code_interval_def interval_def Let_def)
  also have "\<dots> = 2 ^ 32" using code_entry(2) [of c] by (simp flip: power_add)
  finally show False
    using disjoint_in_bounds [OF code_space_disjoint code_interval_member [of c]] by simp
qed

end
