(* ===== verification/HuffmanTree.thy ===== *)
theory HuffmanTree
  imports HuffmanCode
begin

text \<open>
  The decoding tree of \<open>http2/hpack/huffman.go\<close>: \<open>addDecoderNode\<close> and \<open>buildRootHuffmanNode\<close>. An
  inner node has 256 children, one per octet; a symbol whose code word ends inside an octet is the
  child for every completion of the octet. Node pointers are a tree, \<open>None\<close> is \<open>nil\<close>, and the result
  \<open>None\<close> of an operation is the panic of an index into the children of a leaf.

  The tree is characterised by the node at the end of every path of octets: it is a leaf when a code
  word ends in the last octet of the path, an inner node when the path is a proper prefix of a code
  word, and missing otherwise.
\<close>

section \<open>Tree\<close>

datatype node = Internal "node option list" | Leaf "8 word" "8 word" \<comment> \<open>\<open>codeLen\<close> and \<open>sym\<close>\<close>

definition newInternalNode :: node where
  "newInternalNode = Internal (replicate 256 None)"

fun fill :: "nat \<Rightarrow> nat \<Rightarrow> node \<Rightarrow> node option list \<Rightarrow> node option list option" where
  \<comment> \<open>\<open>for i := start; i < start+end; i++\<close>, with \<open>n\<close> steps to go; \<open>None\<close> is an index out of range\<close>
  "fill i 0 nd children = Some children"
| "fill i (Suc n) nd children =
     (if i < length children then fill (Suc i) n nd (children[i := Some nd]) else None)"

function addDecoderNode :: "8 word \<Rightarrow> 32 word \<Rightarrow> 8 word \<Rightarrow> node \<Rightarrow> node option" where
  "addDecoderNode s code codeLen cur =
     (case cur of
        Leaf _ _ \<Rightarrow> None
      | Internal children \<Rightarrow>
          if 8 < codeLen then
            let codeLen = codeLen - 8;
                i = unat (ucast (drop_bit (unat codeLen) code) :: 8 word);
                next = (case children ! i of None \<Rightarrow> newInternalNode | Some n \<Rightarrow> n) in
            map_option (\<lambda>n. Internal (children[i := Some n])) (addDecoderNode s code codeLen next)
          else
            let shift = unat (8 - codeLen);
                start = unat (ucast (push_bit shift code) :: 8 word) in
            map_option Internal (fill start (2 ^ shift) (Leaf codeLen s) children))"
  by auto
termination
  by (relation "measure (\<lambda>(s, c, l, n). unat l)")
    (auto simp: unat_sub word_less_nat_alt word_le_nat_alt)

declare addDecoderNode.simps [simp del]

fun add_codes :: "(8 word \<times> 32 word \<times> 8 word) list \<Rightarrow> node \<Rightarrow> node option" where
  "add_codes [] root = Some root"
| "add_codes ((s, code, codeLen) # cs) root =
     Option.bind (addDecoderNode s code codeLen root) (add_codes cs)"

definition huffman_entries :: "(8 word \<times> 32 word \<times> 8 word) list" where
  "huffman_entries = zip (map word_of_nat [0..<256]) (zip huffmanCodes huffmanCodeLen)"

definition buildRootHuffmanNode :: "node option" where
  "buildRootHuffmanNode =
     (if length huffmanCodes \<noteq> 256 then None else add_codes huffman_entries newInternalNode)"

section \<open>Paths\<close>

fun follow :: "node \<Rightarrow> octets \<Rightarrow> node option" where
  "follow n [] = Some n"
| "follow (Leaf l s) (i # is) = None"
| "follow (Internal children) (i # is) =
     (case children ! unat i of None \<Rightarrow> None | Some n \<Rightarrow> follow n is)"

lemma follow_append: "follow n (is @ js) = Option.bind (follow n is) (\<lambda>n. follow n js)"
  by (induction n "is" rule: follow.induct) (auto split: option.splits)

definition wf_tree :: "node \<Rightarrow> bool" where
  "wf_tree t \<longleftrightarrow> (\<forall>is children. follow t is = Some (Internal children) \<longrightarrow> length children = 256)"

lemma wf_tree_child:
  "wf_tree (Internal children) \<Longrightarrow> children ! unat i = Some n \<Longrightarrow> wf_tree n" for i :: "8 word"
  unfolding wf_tree_def by (metis follow.simps(3) option.simps(5))

lemma wf_tree_length: "wf_tree (Internal children) \<Longrightarrow> length children = 256"
  unfolding wf_tree_def by (metis follow.simps(1))

lemma octet_less_256 [simp]: "unat (i :: 8 word) < 256"
  using unsigned_less [of i, where 'a = nat] by simp

lemma follow_new: "follow newInternalNode is = (if is = [] then Some newInternalNode else None)"
  by (cases "is") (simp_all add: newInternalNode_def)

lemma follow_new_Leaf: "follow newInternalNode is \<noteq> Some (Leaf l s)"
  by (simp add: follow_new, simp add: newInternalNode_def)

lemma wf_new [simp]: "wf_tree newInternalNode"
  by (simp add: wf_tree_def follow_new, simp add: newInternalNode_def)

section \<open>Adding a code word\<close>

lemma fill_nth:
  "i + n \<le> length ch \<Longrightarrow> \<exists>ch'. fill i n nd ch = Some ch' \<and> length ch' = length ch \<and>
     (\<forall>j < length ch. ch' ! j = (if i \<le> j \<and> j < i + n then Some nd else ch ! j))"
proof (induction i n nd ch rule: fill.induct)
  case (2 i n nd ch)
  then obtain ch' where "fill (Suc i) n nd (ch[i := Some nd]) = Some ch'" "length ch' = length ch"
    "\<forall>j < length ch. ch' ! j = (if Suc i \<le> j \<and> j < Suc i + n then Some nd else ch[i := Some nd] ! j)"
    by auto
  with 2 show ?case by (auto simp: nth_list_update)
qed auto

lemma fill_range:
  fixes code :: "32 word" and j :: "8 word"
  assumes "l \<le> 8"
  defines "start \<equiv> ucast (push_bit (8 - l) code) :: 8 word"
  shows "unat start + 2 ^ (8 - l) \<le> 256"
    "unat start \<le> unat j \<and> unat j < unat start + 2 ^ (8 - l) \<longleftrightarrow> prefix (bits l code) (bits 8 j)"
proof -
  let ?k = "8 - l"
  have "take_bit ?k start = 0"
    by (rule bit_word_eqI) (auto simp: start_def bit_simps)
  then have z: "unat start mod 2 ^ ?k = 0"
    by (metis take_bit_eq_mod unsigned_take_bit_eq unsigned_0)
  define q where "q = unat start div 2 ^ ?k"
  have st: "unat start = q * 2 ^ ?k" using div_mult_mod_eq [of "unat start" "2 ^ ?k"] z q_def by simp
  have div: "unat (drop_bit ?k i) = unat i div 2 ^ ?k" for i :: "8 word"
    by (simp only: unat_drop_bit_eq) (simp add: drop_bit_eq_div)
  have split8: "(2::nat) ^ l * 2 ^ ?k = 256" using assms(1) by (simp flip: power_add)
  have "q < 2 ^ l" unfolding q_def using octet_less_256 [of start] split8
    by (simp add: less_mult_imp_div_less)
  then have "(q + 1) * 2 ^ ?k \<le> 2 ^ l * 2 ^ ?k" by (intro mult_right_mono) simp_all
  then show "unat start + 2 ^ ?k \<le> 256" unfolding st split8 by simp
  have "bits l (drop_bit ?k start) = bits l code"
    using assms(1) by (auto simp: bits_eq_iff start_def bit_simps)
  then have "prefix (bits l code) (bits 8 j) \<longleftrightarrow> bits l (drop_bit ?k j) = bits l (drop_bit ?k start)"
    using take_bits [OF assms(1), of j] assms(1) by (metis length_bits take_is_prefix prefix_def append_eq_conv_conj)
  also have "\<dots> \<longleftrightarrow> drop_bit ?k j = drop_bit ?k start"
  proof
    assume e: "bits l (drop_bit ?k j) = bits l (drop_bit ?k start)"
    have high: "\<not> bit i (?k + n)" if "l \<le> n" for i :: "8 word" and n
      using that assms(1) bit_imp_le_length [of i "?k + n"] by auto
    show "drop_bit ?k j = drop_bit ?k start"
    proof (rule bit_word_eqI)
      fix n
      show "bit (drop_bit ?k j) n = bit (drop_bit ?k start) n"
        using e high [of n] by (cases "n < l") (auto simp: bits_eq_iff bit_drop_bit_eq)
    qed
  qed simp
  also have "\<dots> \<longleftrightarrow> unat j div 2 ^ ?k = q"
    by (simp only: word_unat_eq_iff div q_def)
  also have "\<dots> \<longleftrightarrow> unat start \<le> unat j \<and> unat j < unat start + 2 ^ ?k"
    unfolding st by (auto simp: div_nat_eqI algebra_simps dividend_less_times_div)
  finally show "unat start \<le> unat j \<and> unat j < unat start + 2 ^ ?k \<longleftrightarrow> prefix (bits l code) (bits 8 j)" by simp
qed

text \<open>
  What a code word \<open>b\<close> of symbol \<open>s\<close> makes of a path, on top of what was there.
\<close>

definition kind :: "node \<Rightarrow> (8 word \<times> 8 word) option" where
  "kind n = (case n of Internal _ \<Rightarrow> None | Leaf l s \<Rightarrow> Some (l, s))"

definition added :: "8 word \<Rightarrow> bool list \<Rightarrow> (octets \<Rightarrow> (8 word \<times> 8 word) option option) \<Rightarrow> octets \<Rightarrow> (8 word \<times> 8 word) option option" where
  "added s b old is =
     (if strict_prefix (octet_bits is) b then Some None
      else if prefix b (octet_bits is) then
        (if 8 * length is < length b + 8 then Some (Some (word_of_nat (length b + 8 - 8 * length is), s)) else None)
      else old is)"

abbreviation kinds :: "node \<Rightarrow> octets \<Rightarrow> (8 word \<times> 8 word) option option" where
  "kinds t is \<equiv> map_option kind (follow t is)"

lemma kind_simps [simp]: "kind (Internal ch) = None" "kind (Leaf l s) = Some (l, s)"
  by (simp_all add: kind_def)

lemma prefix_bits_8: "prefix (bits 8 i @ p) (bits 8 j @ q) \<longleftrightarrow> i = j \<and> prefix p q" for i j :: "8 word"
  by (auto simp: prefix_def bits_8_inj)

lemma strict_prefix_bits_8: "strict_prefix (bits 8 i @ p) (bits 8 j @ q) \<longleftrightarrow> i = j \<and> strict_prefix p q" for i j :: "8 word"
  by (auto simp: strict_prefix_def prefix_bits_8)

lemma added_step:
  "added s (bits 8 i0 @ b) old (i # is) = (if i = i0 then added s b (\<lambda>is. old (i0 # is)) is else old (i # is))"
  by (auto simp: added_def prefix_bits_8 strict_prefix_bits_8)

lemma code_chunk:
  fixes code :: "32 word" and l :: "8 word"
  assumes "8 < l"
  shows "bits (unat l) code = bits 8 (ucast (drop_bit (unat (l - 8)) code) :: 8 word) @ bits (unat (l - 8)) code"
proof -
  have "unat l = 8 + unat (l - 8)" using assms by (simp add: unat_sub word_less_nat_alt word_le_nat_alt)
  then show ?thesis by (simp only: bits_add bits_ucast) (simp add: bits_ucast)
qed

lemma bits_not_Nil: "0 < l \<Longrightarrow> [] \<noteq> bits (unat l) w"
  by (metis length_bits list.size(3) unat_gt_0 word_neq_0_conv less_numeral_extra(3))

lemma add_last:
  assumes "wf_tree (Internal ch)" "0 < l" "l \<le> 8"
  shows "\<exists>t. addDecoderNode s code l (Internal ch) = Some t \<and> wf_tree t \<and>
    kinds t = added s (bits (unat l) code) (kinds (Internal ch))"
proof -
  let ?l = "unat l" and ?s = "unat (ucast (push_bit (8 - unat l) code) :: 8 word)"
  have l: "?l \<le> 8" "0 < ?l" using assms(2,3) by (simp_all add: word_le_nat_alt word_gt_0 unat_gt_0)
  have sh: "unat (8 - l) = 8 - ?l" using assms(3) by (simp add: unat_sub)
  obtain ch' where f: "fill ?s (2 ^ (8 - ?l)) (Leaf l s) ch = Some ch'" "length ch' = 256"
    "\<forall>j < 256. ch' ! j = (if ?s \<le> j \<and> j < ?s + 2 ^ (8 - ?l) then Some (Leaf l s) else ch ! j)"
    using fill_nth [of ?s "2 ^ (8 - ?l)" ch "Leaf l s"] fill_range(1) [OF l(1), of code] wf_tree_length [OF assms(1)] by auto
  then have n: "ch' ! unat j = (if prefix (bits ?l code) (bits 8 j) then Some (Leaf l s) else ch ! unat j)" for j :: "8 word"
    using fill_range(2) [OF l(1), of code j] by simp
  have add: "addDecoderNode s code l (Internal ch) = Some (Internal ch')"
    using assms(3) f(1) by (subst addDecoderNode.simps) (simp add: sh Let_def leD)
  have "kinds (Internal ch') is = added s (bits ?l code) (kinds (Internal ch)) is" for "is"
  proof (cases "is")
    case (Cons j js)
    show ?thesis
    proof (cases "prefix (bits ?l code) (bits 8 j)")
      case True
      then have p: "prefix (bits ?l code) (octet_bits is)" "\<not> strict_prefix (octet_bits is) (bits ?l code)"
        using l True by (auto simp: Cons dest: prefix_length_less)
      then show ?thesis using True l by (cases js) (auto simp: added_def Cons n)
    next
      case False
      then have p: "\<not> prefix (bits ?l code) (octet_bits is)"
        using l prefix_length_prefix [of "bits ?l code" "octet_bits is" "bits 8 j"] by (auto simp: Cons)
      moreover have "\<not> strict_prefix (octet_bits is) (bits ?l code)"
        using l by (auto simp: Cons dest: prefix_length_less)
      ultimately show ?thesis using False by (simp add: added_def Cons n)
    qed
  qed (use assms(2) bits_not_Nil [of l code] in \<open>simp add: added_def strict_prefix_def\<close>)
  moreover have "wf_tree (Internal ch')"
    unfolding wf_tree_def
  proof (intro allI impI)
    fix "is" c assume a: "follow (Internal ch') is = Some (Internal c)"
    show "length c = 256"
    proof (cases "is")
      case (Cons j js)
      with a have "follow (Internal ch) is = Some (Internal c)"
        by (cases js) (auto simp: n split: if_splits)
      then show ?thesis using assms(1) by (auto simp: wf_tree_def)
    qed (use a f(2) in simp)
  qed
  ultimately show ?thesis using add by blast
qed

lemma addDecoderNode_kinds:
  assumes "wf_tree t" "0 < l"
    and "\<And>is l' s'. strict_prefix (octet_bits is) (bits (unat l) code) \<Longrightarrow> follow t is \<noteq> Some (Leaf l' s')"
  shows "\<exists>t'. addDecoderNode s code l t = Some t' \<and> wf_tree t' \<and> kinds t' = added s (bits (unat l) code) (kinds t)"
  using assms
proof (induction s code l t rule: addDecoderNode.induct)
  case (1 s code l t)
  have "follow t [] \<noteq> Some (Leaf l' s')" for l' s'
    using 1(3) bits_not_Nil [of l code] by (intro 1(4)) (simp add: strict_prefix_def)
  then obtain ch where t: "t = Internal ch" by (cases t) auto
  show ?case
  proof (cases "8 < l")
    case False
    then show ?thesis using add_last [of ch l s code] 1(2,3) t by (simp add: not_less)
  next
    case True
    define i where "i = (ucast (drop_bit (unat (l - 8)) code) :: 8 word)"
    define child where "child = (case ch ! unat i of None \<Rightarrow> newInternalNode | Some n \<Rightarrow> n)"
    have b: "bits (unat l) code = bits 8 i @ bits (unat (l - 8)) code"
      using code_chunk [OF True] by (simp add: i_def)
    have old: "kinds t (i # is) = (if is = [] \<and> ch ! unat i = None then None else kinds child is)" for "is"
      by (simp add: t child_def follow_new split: option.split)
    have "\<exists>n. addDecoderNode s code (l - 8) child = Some n \<and> wf_tree n \<and>
        kinds n = added s (bits (unat (l - 8)) code) (kinds child)"
      unfolding child_def
    proof (rule 1(1) [OF t True refl, of "unat i", folded i_def, OF refl refl])
      show "wf_tree (case ch ! unat i of None \<Rightarrow> newInternalNode | Some n \<Rightarrow> n)"
        using 1(2) wf_tree_child t by (auto split: option.split)
      show "0 < l - 8" using True by (simp add: word_gt_0)
      fix "is" l' s' assume a: "strict_prefix (octet_bits is) (bits (unat (l - 8)) code)"
      then have "strict_prefix (octet_bits (i # is)) (bits (unat l) code)"
        by (simp add: b strict_prefix_bits_8)
      from 1(4) [OF this, of l' s'] show "follow (case ch ! unat i of None \<Rightarrow> newInternalNode | Some n \<Rightarrow> n) is \<noteq> Some (Leaf l' s')"
        by (auto simp: t follow_new_Leaf split: option.splits)
    qed
    then obtain n where n: "addDecoderNode s code (l - 8) child = Some n" "wf_tree n"
      "kinds n = added s (bits (unat (l - 8)) code) (kinds child)" by blast
    let ?t = "Internal (ch[unat i := Some n])"
    have len: "length ch = 256" using 1(2) t wf_tree_length by blast
    have f: "follow ?t (j # js) = (if j = i then follow n js else follow t (j # js))" for j js
      using len by (auto simp: t nth_list_update word_unat_eq_iff)
    have "addDecoderNode s code l t = Some ?t"
      using n(1) by (subst addDecoderNode.simps) (simp add: t True child_def i_def Let_def)
    moreover have "kinds ?t is = added s (bits (unat l) code) (kinds t) is" for "is"
    proof (cases "is")
      case (Cons j js)
      have "added s (bits (unat (l - 8)) code) (\<lambda>is. kinds t (i # is)) js = added s (bits (unat (l - 8)) code) (kinds child) js"
        using old [of js] bits_not_Nil [of "l - 8" code] True by (auto simp: added_def strict_prefix_def word_gt_0)
      then show ?thesis using fun_cong [OF n(3), of js] by (simp add: Cons b added_step f del: follow.simps)
    qed (simp add: t added_def strict_prefix_def bits_not_Nil 1(3))
    moreover have "wf_tree ?t"
      unfolding wf_tree_def
    proof (intro allI impI)
      fix "is" c assume a: "follow ?t is = Some (Internal c)"
      then show "length c = 256"
        using 1(2) n(2) len f by (cases "is") (auto simp: wf_tree_def simp del: follow.simps(3) split: if_splits)
    qed
    ultimately show ?thesis by blast
  qed
qed

section \<open>The tree of the code\<close>

definition spec_kind :: "(8 word \<Rightarrow> bool) \<Rightarrow> octets \<Rightarrow> (8 word \<times> 8 word) option option \<Rightarrow> bool" where
  \<comment> \<open>what a path leads to when the code words of the symbols \<open>S\<close> are in the tree\<close>
  "spec_kind S is k \<longleftrightarrow>
     (case k of
        None \<Rightarrow> is \<noteq> [] \<and> (\<forall>c. S c \<longrightarrow> \<not> strict_prefix (octet_bits is) (code_bits c) \<and>
          \<not> (prefix (code_bits c) (octet_bits is) \<and> 8 * length is < length (code_bits c) + 8))
      | Some None \<Rightarrow> is = [] \<or> (\<exists>c. S c \<and> strict_prefix (octet_bits is) (code_bits c))
      | Some (Some (l, c)) \<Rightarrow> S c \<and> prefix (code_bits c) (octet_bits is) \<and>
          0 < unat l \<and> length (code_bits c) + 8 = 8 * length is + unat l)"

lemma spec_kind_simps:
  "spec_kind S is None \<longleftrightarrow> is \<noteq> [] \<and> (\<forall>c. S c \<longrightarrow> \<not> strict_prefix (octet_bits is) (code_bits c) \<and>
     \<not> (prefix (code_bits c) (octet_bits is) \<and> 8 * length is < length (code_bits c) + 8))"
  "spec_kind S is (Some None) \<longleftrightarrow> is = [] \<or> (\<exists>c. S c \<and> strict_prefix (octet_bits is) (code_bits c))"
  "spec_kind S is (Some (Some (l, c))) \<longleftrightarrow> S c \<and> prefix (code_bits c) (octet_bits is) \<and>
     0 < unat l \<and> length (code_bits c) + 8 = 8 * length is + unat l"
  by (simp_all add: spec_kind_def)

definition holds_codes :: "(8 word \<Rightarrow> bool) \<Rightarrow> node \<Rightarrow> bool" where
  "holds_codes S t \<longleftrightarrow> wf_tree t \<and> (\<forall>is. spec_kind S is (kinds t is))"

lemma holds_codes_add:
  assumes "holds_codes S t" "\<not> S s" "code_bits s = bits (unat l) code" "0 < l"
  shows "\<exists>t'. addDecoderNode s code l t = Some t' \<and> holds_codes (\<lambda>c. S c \<or> c = s) t'"
proof -
  have spec: "spec_kind S is (kinds t is)" for "is" using assms(1) by (simp add: holds_codes_def)
  have "follow t is \<noteq> Some (Leaf l' s')" if "strict_prefix (octet_bits is) (code_bits s)" for "is" l' s'
  proof
    assume "follow t is = Some (Leaf l' s')"
    with spec [of "is"] have "S s'" "prefix (code_bits s') (octet_bits is)" by (simp_all add: spec_kind_def)
    with that have "prefix (code_bits s') (code_bits s)" by (auto simp: strict_prefix_def)
    then show False using \<open>S s'\<close> assms(2) by (simp add: code_prefix_free)
  qed
  then obtain t' where t': "addDecoderNode s code l t = Some t'" "wf_tree t'" "kinds t' = added s (code_bits s) (kinds t)"
    using addDecoderNode_kinds [of t l code s] assms(1,3,4) by (auto simp: holds_codes_def)
  have "spec_kind (\<lambda>c. S c \<or> c = s) is (kinds t' is)" for "is"
  proof -
    let ?p = "octet_bits is"
    consider (inner) "strict_prefix ?p (code_bits s)"
      | (under) "prefix (code_bits s) ?p" "\<not> strict_prefix ?p (code_bits s)"
      | (other) "\<not> prefix (code_bits s) ?p" "\<not> strict_prefix ?p (code_bits s)" by blast
    then show ?thesis
    proof cases
      case inner
      then show ?thesis by (auto simp: fun_cong [OF t'(3)] added_def spec_kind_def)
    next
      case under
      have ne: "is \<noteq> []" using under(1) length_code_bits(1) [of s] by auto
      have le: "length (code_bits s) \<le> 8 * length is" using prefix_length_le [OF under(1)] by simp
      have inner: "\<not> strict_prefix ?p (code_bits c)" for c
      proof
        assume sp: "strict_prefix ?p (code_bits c)"
        then have "prefix (code_bits s) (code_bits c)"
          using under(1) prefix_order.trans by (auto simp: strict_prefix_def)
        then show False using sp under(2) by (simp add: code_prefix_free)
      qed
      have outer: "c = s" if "prefix (code_bits c) ?p" for c
        using prefix_same_cases [OF that under(1)] by (auto simp: code_prefix_free)
      have "unat (word_of_nat (length (code_bits s) + 8 - 8 * length is) :: 8 word) = length (code_bits s) + 8 - 8 * length is"
        using le by (simp add: unat_of_nat)
      moreover have "kinds t' is = (if 8 * length is < length (code_bits s) + 8
          then Some (Some (word_of_nat (length (code_bits s) + 8 - 8 * length is), s)) else None)"
        using under by (simp add: fun_cong [OF t'(3)] added_def)
      ultimately show ?thesis
        using under(1) ne inner by (auto simp: spec_kind_simps dest!: outer)
    next
      case other
      with spec [of "is"] show ?thesis
        by (auto simp: fun_cong [OF t'(3)] added_def spec_kind_def split: option.splits)
    qed
  qed
  with t' show ?thesis by (auto simp: holds_codes_def)
qed

lemma holds_codes_new: "holds_codes (\<lambda>_. False) newInternalNode"
  by (simp add: holds_codes_def spec_kind_def follow_new) (simp add: newInternalNode_def)

lemma add_codes_holds:
  assumes "holds_codes S t" "distinct (map fst cs)" "\<forall>(s, code, l) \<in> set cs. \<not> S s \<and> code_bits s = bits (unat l) code \<and> 0 < l"
  shows "\<exists>t'. add_codes cs t = Some t' \<and> holds_codes (\<lambda>c. S c \<or> c \<in> set (map fst cs)) t'"
  using assms
proof (induction cs t arbitrary: S rule: add_codes.induct)
  case (2 s code l cs t)
  then have "\<not> S s" "code_bits s = bits (unat l) code" "0 < l" by auto
  from holds_codes_add [OF "2.prems"(1) this] obtain t1 where
    t1: "addDecoderNode s code l t = Some t1" "holds_codes (\<lambda>c. S c \<or> c = s) t1" by blast
  have "\<exists>t'. add_codes cs t1 = Some t' \<and> holds_codes (\<lambda>c. (S c \<or> c = s) \<or> c \<in> set (map fst cs)) t'"
    using "2.prems"(2,3) by (intro "2.IH" [OF t1]) (auto simp: image_iff)
  then show ?case using t1(1) by (simp add: disj_assoc)
qed simp

lemma huffman_entries_nth: "k < 256 \<Longrightarrow> huffman_entries ! k = (word_of_nat k, huffmanCodes ! k, huffmanCodeLen ! k)"
  by (simp add: huffman_entries_def)

lemma huffman_entries_codes: "(s, code, l) \<in> set huffman_entries \<Longrightarrow> code_bits s = bits (unat l) code \<and> 0 < l"
proof -
  assume "(s, code, l) \<in> set huffman_entries"
  then obtain k where k: "k < 256" "(s, code, l) = huffman_entries ! k"
    by (auto simp: in_set_conv_nth huffman_entries_def)
  then have "unat s = k" "code = huffmanCodes ! unat s" "l = huffmanCodeLen ! unat s"
    by (simp_all add: huffman_entries_nth unat_of_nat)
  then show ?thesis using code_entry(1) [of s] by (simp add: code_bits_def word_gt_0 unat_gt_0 flip: unat_gt_0)
qed

lemma huffman_entries_symbols: "map fst huffman_entries = map word_of_nat [0..<256]"
  by (simp add: huffman_entries_def)

lemma root_holds_codes: "\<exists>root. buildRootHuffmanNode = Some root \<and> holds_codes (\<lambda>_. True) root"
proof -
  have w: "unat (word_of_nat k :: 8 word) = k" if "k < 256" for k using that by (simp add: unat_of_nat)
  have "distinct (map fst huffman_entries)"
    unfolding huffman_entries_symbols by (simp add: distinct_map) (metis (no_types, lifting) w inj_onI atLeastLessThan_iff)
  moreover have "s \<in> set (map fst huffman_entries)" for s :: "8 word"
    unfolding huffman_entries_symbols set_map by (rule image_eqI [of _ _ "unat s"]) simp_all
  moreover have "\<forall>(s, code, l) \<in> set huffman_entries. \<not> False \<and> code_bits s = bits (unat l) code \<and> 0 < l"
    using huffman_entries_codes by blast
  ultimately show ?thesis
    using add_codes_holds [OF holds_codes_new, of huffman_entries] by (simp add: buildRootHuffmanNode_def)
qed

text \<open>
  The decoding tree. Building it from the tables never panics, and the paths of octets through
  the tree are the code: a path leads to a leaf exactly when a code word ends in its last octet, and the
  leaf then has that symbol and the number of bits of the last octet that belong to it; it leads to
  an inner node exactly when it is empty or a proper prefix of a code word.
\<close>
lemma buildRootHuffmanNode_code:
  "\<exists>root. buildRootHuffmanNode = Some root \<and>
     (\<forall>is. case follow root is of
        None \<Rightarrow> is \<noteq> [] \<and> (\<forall>c. \<not> strict_prefix (octet_bits is) (code_bits c) \<and>
          \<not> (prefix (code_bits c) (octet_bits is) \<and> 8 * length is < length (code_bits c) + 8))
      | Some (Internal children) \<Rightarrow> length children = 256 \<and> (is = [] \<or> (\<exists>c. strict_prefix (octet_bits is) (code_bits c)))
      | Some (Leaf l c) \<Rightarrow> prefix (code_bits c) (octet_bits is) \<and> 0 < unat l \<and>
          length (code_bits c) + 8 = 8 * length is + unat l)"
proof -
  obtain root where "buildRootHuffmanNode = Some root" "holds_codes (\<lambda>_. True) root" using root_holds_codes by blast
  then have b: "buildRootHuffmanNode = Some root" and w: "wf_tree root" and k: "spec_kind (\<lambda>_. True) is (kinds root is)" for "is"
    by (simp_all add: holds_codes_def)
  show ?thesis
  proof (intro exI conjI allI, rule b)
    fix "is"
    show "case follow root is of
        None \<Rightarrow> is \<noteq> [] \<and> (\<forall>c. \<not> strict_prefix (octet_bits is) (code_bits c) \<and>
          \<not> (prefix (code_bits c) (octet_bits is) \<and> 8 * length is < length (code_bits c) + 8))
      | Some (Internal children) \<Rightarrow> length children = 256 \<and> (is = [] \<or> (\<exists>c. strict_prefix (octet_bits is) (code_bits c)))
      | Some (Leaf l c) \<Rightarrow> prefix (code_bits c) (octet_bits is) \<and> 0 < unat l \<and>
          length (code_bits c) + 8 = 8 * length is + unat l"
      using k [of "is"] w by (auto simp: spec_kind_simps wf_tree_def split: option.split node.split)
  qed
qed

end
