(* ===== verification/HuffmanString.thy ===== *)
theory HuffmanString
  imports HuffmanTree
begin

text \<open>
  Huffman-coded strings of HPACK: \<open>AppendHuffmanString\<close> and \<open>HuffmanEncodeLength\<close> of
  \<open>http2/hpack/huffman.go\<close>. A string of this package is an opaque sequence of octets.
\<close>

section \<open>Encoding\<close>

function append_code :: "32 word \<Rightarrow> octets \<Rightarrow> 8 word \<Rightarrow> 8 word \<Rightarrow> octets \<times> 8 word" where
  "append_code code dst rembits nbits =
     (if nbits < rembits
      then (or_at dst (length dst - 1) (ucast (push_bit (unat (rembits - nbits)) code)), rembits - nbits)
      else
        let dst = or_at dst (length dst - 1) (ucast (drop_bit (unat (nbits - rembits)) code));
            nbits = nbits - rembits in
        if nbits = 0 then (dst, 8) else append_code code (dst @ [0]) 8 nbits)"
  by auto
termination
proof (relation "measure (\<lambda>(c, d, r, n). 2 * unat n + (if r = 0 then 1 else 0))")
  show "((code, x @ [0], 8, y), code, dst, r, n) \<in> measure (\<lambda>(c, d, r, n). 2 * unat n + (if r = 0 then 1 else 0))"
    if "\<not> n < r" "y = n - r" for code x dst y and r n :: "8 word"
    using that unat_gt_0 [of r] by (cases "r = 0") (auto simp: not_less unat_sub word_le_nat_alt)
qed simp

declare append_code.simps [simp del]

definition appendByteToHuffmanCode :: "octets \<Rightarrow> 8 word \<Rightarrow> 8 word \<Rightarrow> octets \<times> 8 word" where
  "appendByteToHuffmanCode dst rembits c = append_code (huffmanCodes ! unat c) dst rembits (huffmanCodeLen ! unat c)"

fun append_symbols :: "octets \<Rightarrow> 8 word \<Rightarrow> octets \<Rightarrow> octets \<times> 8 word" where
  "append_symbols dst rembits [] = (dst, rembits)"
| "append_symbols dst rembits (c # s) =
     (let (dst, rembits) = appendByteToHuffmanCode (if rembits = 8 then dst @ [0] else dst) rembits c in
      append_symbols dst rembits s)"

definition AppendHuffmanString :: "octets \<Rightarrow> octets \<Rightarrow> octets" where
  "AppendHuffmanString dst s =
     (let (dst, rembits) = append_symbols dst 8 s in
      if rembits < 8
      then or_at dst (length dst - 1) (ucast (drop_bit (unat (30 - rembits)) (0x3fffffff :: 32 word)))
      else dst)"

definition HuffmanEncodeLength :: "octets \<Rightarrow> 64 word" where
  "HuffmanEncodeLength s = (foldl (\<lambda>n c. n + ucast (huffmanCodeLen ! unat c)) 0 s + 7) div 8"

section \<open>The bits of an encoded string\<close>

definition string_bits :: "octets \<Rightarrow> bool list" where
  "string_bits s = concat (map code_bits s)"

lemma string_bits_simps [simp]:
  "string_bits [] = []" "string_bits (c # s) = code_bits c @ string_bits s"
  "string_bits (s @ s') = string_bits s @ string_bits s'"
  by (simp_all add: string_bits_def)

lemma map2_or_replicate:
  "length u = r \<Longrightarrow> length y = m \<Longrightarrow> map2 (\<or>) (y @ replicate r False) (replicate m False @ u) = y @ u"
  by (rule nth_equalityI) (auto simp: nth_append)

lemma or_last_bits:
  assumes "octet_bits dst = X @ replicate r False" "r \<le> 8" "dst \<noteq> []" "length u = r"
    "bits 8 t = replicate (8 - r) False @ u"
  shows "octet_bits (or_at dst (length dst - 1) t) = X @ u"
proof -
  obtain ds b where dst: "dst = ds @ [b]" using assms(3) by (cases dst rule: rev_cases) auto
  let ?Y = "take (8 - r) (bits 8 b)"
  have len: "length X + r = 8 * length ds + 8" using arg_cong [OF assms(1), of length] by (simp add: dst)
  have e: "octet_bits ds @ bits 8 b = X @ replicate r False" using assms(1) by (simp add: dst)
  have "octet_bits ds @ ?Y = take (length X) (octet_bits ds @ bits 8 b)"
  proof -
    have "length X - 8 * length ds = 8 - r" "8 * length ds \<le> length X" using len assms(2) by linarith+
    then show ?thesis by simp
  qed
  then have X: "X = octet_bits ds @ ?Y" by (simp only: e) simp
  have "octet_bits ds @ bits 8 b = octet_bits ds @ ?Y @ replicate r False" by (subst e, subst X) simp
  then have "bits 8 b = ?Y @ replicate r False" by simp
  then have "bits 8 (b OR t) = ?Y @ u"
    unfolding bits_OR assms(5) using map2_or_replicate [OF assms(4), of ?Y "8 - r"] by simp
  then show ?thesis by (simp add: dst or_at_def X)
qed

lemma octet_push:
  fixes code :: "32 word"
  assumes "n < r" "r \<le> 8" "r = 8 \<or> unat code < 2 ^ n"
  shows "bits 8 (ucast (push_bit (r - n) code) :: 8 word) =
    replicate (8 - r) False @ bits n code @ replicate (r - n) False"
proof (rule nth_equalityI)
  fix k assume "k < length (bits 8 (ucast (push_bit (r - n) code) :: 8 word))"
  then have k: "k < 8" by simp
  have l: "bits 8 (ucast (push_bit (r - n) code) :: 8 word) ! k \<longleftrightarrow> r - n \<le> 7 - k \<and> bit code (7 - k - (r - n))"
    using k by (auto simp: nth_bits bit_simps)
  consider "k < 8 - r" | "8 - r \<le> k" "k < 8 - r + n" | "8 - r + n \<le> k" by linarith
  then show "bits 8 (ucast (push_bit (r - n) code) :: 8 word) ! k =
      (replicate (8 - r) False @ bits n code @ replicate (r - n) False) ! k"
  proof cases
    case 1
    then have "\<not> bit code (7 - k - (r - n))" using assms bit_small [of code "7 - k - (r - n)" n] by auto
    then show ?thesis using 1 l by (simp add: nth_append)
  next
    case 2
    then have "7 - k - (r - n) = n - Suc (k - (8 - r))" "r - n \<le> 7 - k" "k - (8 - r) < n" using assms(1,2) k by linarith+
    then show ?thesis using 2 l by (simp add: nth_append nth_bits)
  next
    case 3
    then have "\<not> r - n \<le> 7 - k" "\<not> k < 8 - r" "\<not> k - (8 - r) < n" "k - (8 - r) - n < r - n"
      using assms(1,2) k by linarith+
    then show ?thesis using l by (simp add: nth_append)
  qed
qed (use assms in simp)

lemma octet_drop:
  fixes code :: "32 word"
  assumes "r \<le> n" "r \<le> 8" "r = 8 \<or> unat code < 2 ^ n"
  shows "bits 8 (ucast (drop_bit (n - r) code) :: 8 word) = replicate (8 - r) False @ bits r (drop_bit (n - r) code)"
proof (rule nth_equalityI)
  fix k assume "k < length (bits 8 (ucast (drop_bit (n - r) code) :: 8 word))"
  then have k: "k < 8" by simp
  have l: "bits 8 (ucast (drop_bit (n - r) code) :: 8 word) ! k \<longleftrightarrow> bit code (n - r + (7 - k))"
    using k by (auto simp: nth_bits bit_simps)
  show "bits 8 (ucast (drop_bit (n - r) code) :: 8 word) ! k =
      (replicate (8 - r) False @ bits r (drop_bit (n - r) code)) ! k"
  proof (cases "k < 8 - r")
    case True
    then have "\<not> bit code (n - r + (7 - k))" using assms bit_small [of code "n - r + (7 - k)" n] by auto
    then show ?thesis using True l by (simp add: nth_append)
  next
    case False
    then have "r - Suc (k - (8 - r)) = 7 - k" using assms(2) k by linarith
    then show ?thesis using False k l assms(2) by (simp add: nth_append nth_bits bit_simps)
  qed
qed (use assms in simp)

lemma bits_8_0: "bits 8 (0 :: 8 word) = replicate 8 False"
  by (simp add: bits_def map_replicate_const)

lemma append_code_bits:
  assumes "octet_bits dst = X @ replicate (unat r) False" "dst \<noteq> []" "0 < unat r" "unat r \<le> 8"
    "0 < unat n" "r = 8 \<or> unat code < 2 ^ unat n" "append_code code dst r n = (dst', r')"
  shows "octet_bits dst' = X @ bits (unat n) code @ replicate (unat r' mod 8) False \<and> dst' \<noteq> [] \<and> 0 < unat r' \<and> unat r' \<le> 8"
  using assms
proof (induction code dst r n arbitrary: X rule: append_code.induct)
  case (1 code dst r n)
  note e = append_code.simps [of code dst r n]
  have r8: "unat r = 8 \<or> unat code < 2 ^ unat n" using "1.prems"(6) by auto
  show ?case
  proof (cases "n < r")
    case True
    then have u: "unat (r - n) = unat r - unat n" "unat n < unat r" by (simp_all add: unat_sub word_less_nat_alt word_le_nat_alt)
    have "octet_bits (or_at dst (length dst - 1) (ucast (push_bit (unat r - unat n) code))) =
        X @ bits (unat n) code @ replicate (unat r - unat n) False"
      using "1.prems"(1,2,4) u r8 by (intro or_last_bits [where r = "unat r"] octet_push) simp_all
    moreover have "(unat r - unat n) mod 8 = unat r - unat n" using "1.prems"(4,5) u by (intro mod_less) linarith
    ultimately show ?thesis
      using "1.prems"(2,7) u by (auto simp: e True or_at_def)
  next
    case False
    let ?d = "or_at dst (length dst - 1) (ucast (drop_bit (unat (n - r)) code))"
    have u: "unat (n - r) = unat n - unat r" "unat r \<le> unat n" using False by (simp_all add: unat_sub word_le_nat_alt not_less)
    have d: "octet_bits ?d = X @ bits (unat r) (drop_bit (unat (n - r)) code)"
      unfolding u(1) using "1.prems"(1,2,4) u r8 by (intro or_last_bits [where r = "unat r"] octet_drop) simp_all
    have b: "bits (unat n) code = bits (unat r) (drop_bit (unat (n - r)) code) @ bits (unat (n - r)) code"
      using bits_add [of "unat r" "unat (n - r)" code] u by simp
    show ?thesis
    proof (cases "n - r = 0")
      case True
      then have "append_code code dst r n = (?d, 8)" using False by (simp only: e Let_def) simp
      with "1.prems"(2,7) have "dst' = ?d" "r' = 8" "?d \<noteq> []" by (auto simp: or_at_def)
      then show ?thesis using True d b by simp
    next
      case nz: False
      have "octet_bits dst' = (X @ bits (unat r) (drop_bit (unat (n - r)) code)) @ bits (unat (n - r)) code @
          replicate (unat r' mod 8) False \<and> dst' \<noteq> [] \<and> 0 < unat r' \<and> unat r' \<le> 8"
        using "1.prems"(7) False nz d unat_gt_0 [of "n - r"]
        by (intro "1.IH" [OF False refl refl nz]) (simp_all add: e Let_def bits_8_0)
      then show ?thesis by (simp add: b)
    qed
  qed
qed

lemma append_symbols_bits:
  assumes "octet_bits dst = X @ replicate (unat r mod 8) False" "0 < unat r" "unat r \<le> 8" "r = 8 \<or> dst \<noteq> []"
    "append_symbols dst r s = (dst', r')"
  shows "octet_bits dst' = X @ string_bits s @ replicate (unat r' mod 8) False \<and> 0 < unat r' \<and> unat r' \<le> 8 \<and>
    (r' = 8 \<or> dst' \<noteq> [])"
  using assms
proof (induction dst r s arbitrary: X rule: append_symbols.induct)
  case (2 dst r c s)
  let ?d = "if r = 8 then dst @ [0] else dst"
  obtain d1 r1 where d1: "appendByteToHuffmanCode ?d r c = (d1, r1)" by fastforce
  have "r \<noteq> 8 \<Longrightarrow> unat r < 8" using "2.prems"(3) by (simp add: word_unat_eq_iff)
  then have o: "octet_bits ?d = X @ replicate (unat r) False" using "2.prems"(1) by (simp add: bits_8_0)
  have n: "0 < unat (huffmanCodeLen ! unat c)" using code_entry(1) [of c] by simp
  have "octet_bits d1 = X @ code_bits c @ replicate (unat r1 mod 8) False \<and> d1 \<noteq> [] \<and> 0 < unat r1 \<and> unat r1 \<le> 8"
    unfolding code_bits_def
    using d1 "2.prems"(2-4) n code_entry(3) [of c]
    by (intro append_code_bits [OF o]) (auto simp: appendByteToHuffmanCode_def)
  then have "octet_bits dst' = (X @ code_bits c) @ string_bits s @ replicate (unat r' mod 8) False \<and>
      0 < unat r' \<and> unat r' \<le> 8 \<and> (r' = 8 \<or> dst' \<noteq> [])"
    using "2.prems"(5) d1 by (intro "2.IH" [OF d1 [symmetric] refl]) simp_all
  then show ?case by simp
qed simp

text \<open>The bits written are the code words of the string, filled up with ones to the next octet.\<close>

definition padding :: "octets \<Rightarrow> bool list" where
  "padding s = replicate (nat (- int (length (string_bits s)) mod 8)) True"

lemma padding_unique:
  "k < 8 \<Longrightarrow> 8 * n = length (string_bits s) + k \<Longrightarrow> padding s = replicate k True"
proof -
  assume k: "k < 8" and n: "8 * n = length (string_bits s) + k"
  have "- int (length (string_bits s)) = int k + (- int n) * 8" using n by linarith
  then have "- int (length (string_bits s)) mod 8 = (int k + (- int n) * 8) mod 8" by (rule arg_cong)
  also have "\<dots> = int k" using k by (simp only: mod_mult_self1) simp
  finally show ?thesis by (simp add: padding_def)
qed

lemma AppendHuffmanString_bits: "octet_bits (AppendHuffmanString dst s) = octet_bits dst @ string_bits s @ padding s"
proof -
  obtain d r where d: "append_symbols dst 8 s = (d, r)" by fastforce
  have b: "octet_bits d = octet_bits dst @ string_bits s @ replicate (unat r mod 8) False" "0 < unat r" "unat r \<le> 8" "r = 8 \<or> d \<noteq> []"
    using append_symbols_bits [OF _ _ _ _ d, of "octet_bits dst"] by auto
  have l: "8 * (length d - length dst) = length (string_bits s) + unat r mod 8"
    using arg_cong [OF b(1), of length] by simp
  have pad: "padding s = replicate (unat r mod 8) True" using l by (intro padding_unique) simp_all
  show ?thesis
  proof (cases "r < 8")
    case True
    then have r: "unat r < 8" by (simp add: word_less_nat_alt)
    have u: "unat (30 - r) = 30 - unat r" using r by (subst unat_sub) (simp_all add: word_le_nat_alt)
    have m: "bits 8 (ucast (drop_bit (30 - unat r) (0x3fffffff :: 32 word)) :: 8 word) = replicate (8 - unat r) False @ replicate (unat r) True"
    proof -
      have o: "(0x3fffffff :: 32 word) = mask 30" by (simp add: mask_eq_exp_minus_1)
      have "bits (unat r) (drop_bit (30 - unat r) (mask 30 :: 32 word)) = replicate (unat r) True"
        using r by (intro nth_equalityI) (auto simp: nth_bits bit_simps)
      moreover have "unat (mask 30 :: 32 word) < 2 ^ 30" by (simp add: unat_mask)
      ultimately show ?thesis using r octet_drop [of "unat r" 30 "mask 30"] by (simp only: o) simp
    qed
    have "octet_bits (or_at d (length d - 1) (ucast (drop_bit (unat (30 - r)) (0x3fffffff :: 32 word)))) =
        (octet_bits dst @ string_bits s) @ replicate (unat r) True"
      unfolding u using b True r m by (intro or_last_bits [where r = "unat r"]) auto
    then show ?thesis using True r pad by (simp add: AppendHuffmanString_def d)
  next
    case False
    then have "unat r = 8" using b(3) by (simp add: word_less_nat_alt)
    then show ?thesis using False b(1) pad by (simp add: AppendHuffmanString_def d)
  qed
qed

section \<open>The length of an encoded string\<close>

lemma length_AppendHuffmanString:
  "length (AppendHuffmanString dst s) = length dst + (length (string_bits s) + 7) div 8"
proof -
  define k where "k = nat (- int (length (string_bits s)) mod 8)"
  have "length (padding s) = k" by (simp add: padding_def k_def)
  then have e: "8 * length (AppendHuffmanString dst s) = 8 * length dst + length (string_bits s) + k"
    using arg_cong [OF AppendHuffmanString_bits [of dst s], of length] by simp
  have k: "k \<le> 7" by (simp add: k_def)
  have "a = b + (l + 7) div 8" if "8 * a = 8 * b + l + k" for a b l :: nat
    using that k by linarith
  then show ?thesis using e by blast
qed

lemma length_string_bits: "length (string_bits s) \<le> 30 * length s"
proof (induction s)
  case (Cons c s)
  then show ?case using length_code_bits(2) [of c] by simp
qed simp

lemma HuffmanEncodeLength_length:
  assumes "length s < 2 ^ 58"
  shows "unat (HuffmanEncodeLength s) = length (AppendHuffmanString [] s)"
proof -
  have "foldl (\<lambda>n c. n + ucast (huffmanCodeLen ! unat c)) (m :: 64 word) s = m + word_of_nat (length (string_bits s))" for m
  proof (induction s arbitrary: m)
    case (Cons c s)
    have "(ucast (huffmanCodeLen ! unat c) :: 64 word) = word_of_nat (length (code_bits c))"
      by (simp add: code_bits_def)
    with Cons show ?case by (simp add: add.assoc)
  qed simp
  then have h: "HuffmanEncodeLength s = (word_of_nat (length (string_bits s)) + 7) div 8" by (simp add: HuffmanEncodeLength_def)
  have "length (string_bits s) + 7 < 2 ^ 64" using length_string_bits [of s] assms by simp
  then have "unat (word_of_nat (length (string_bits s)) + 7 :: 64 word) = length (string_bits s) + 7"
    by (simp add: unat_word_ariths unat_of_nat)
  then have "unat (HuffmanEncodeLength s) = (length (string_bits s) + 7) div 8" by (simp only: h unat_div) simp
  then show ?thesis by (simp only: length_AppendHuffmanString) simp
qed

end
