(* ===== verification/HuffmanDecode.thy ===== *)
theory HuffmanDecode
  imports HuffmanString
begin

text \<open>
  \<open>huffmanDecode\<close> of \<open>http2/hpack/huffman.go\<close>. The bit buffer \<open>cur\<close> is a 64-bit word that loses the bits
  shifted out at the top, the bit counts are octets, as in the code. \<open>Inl HpackPanic\<close> stands for an
  index into the children of a leaf, and for a leaf whose code length would keep the loop from ending;
  neither occurs with the tree of the code.
\<close>

section \<open>Decoding\<close>

lemma unat_sub_less: "l \<noteq> 0 \<Longrightarrow> \<not> c < l \<Longrightarrow> unat (c - l) < unat c" for c l :: "8 word"
  using unat_gt_0 [of l] by (simp add: not_less unat_sub word_le_nat_alt)

definition full :: "int \<Rightarrow> octets \<Rightarrow> bool" where
  "full maxLen buf \<longleftrightarrow> maxLen \<noteq> 0 \<and> int (length buf) = maxLen"

function huffman_inner ::
  "node \<Rightarrow> int \<Rightarrow> 64 word \<Rightarrow> node \<Rightarrow> 8 word \<Rightarrow> 8 word \<Rightarrow> octets \<Rightarrow> hpack_error + node \<times> 8 word \<times> 8 word \<times> octets" where
  "huffman_inner root maxLen cur n cbits sbits buf =
     (if 8 \<le> cbits then
        (case n of
           Leaf _ _ \<Rightarrow> Inl HpackPanic
         | Internal children \<Rightarrow>
             (case children ! unat (ucast (drop_bit (unat (cbits - 8)) cur) :: 8 word) of
                None \<Rightarrow> Inl ErrInvalidHuffman
              | Some n \<Rightarrow>
                  (case n of
                     Leaf codeLen s \<Rightarrow>
                       if full maxLen buf then Inl ErrStringLength
                       else if codeLen = 0 \<or> cbits < codeLen then Inl HpackPanic
                       else huffman_inner root maxLen cur root (cbits - codeLen) (cbits - codeLen) (buf @ [s])
                   | Internal _ \<Rightarrow> huffman_inner root maxLen cur n (cbits - 8) sbits buf)))
      else Inr (n, cbits, sbits, buf))"
  by auto
termination
  by (relation "measure (\<lambda>(r, m, c, n, cb, sb, b). unat cb)")
    (auto intro!: unat_sub_less simp: not_less)

fun huffman_octets ::
  "node \<Rightarrow> int \<Rightarrow> 64 word \<Rightarrow> node \<Rightarrow> 8 word \<Rightarrow> 8 word \<Rightarrow> octets \<Rightarrow> octets \<Rightarrow>
     hpack_error + 64 word \<times> node \<times> 8 word \<times> 8 word \<times> octets" where
  "huffman_octets root maxLen cur n cbits sbits buf [] = Inr (cur, n, cbits, sbits, buf)"
| "huffman_octets root maxLen cur n cbits sbits buf (b # v) =
     (let cur = push_bit 8 cur OR ucast b in
      case huffman_inner root maxLen cur n (cbits + 8) (sbits + 8) buf of
        Inl e \<Rightarrow> Inl e
      | Inr (n, cbits, sbits, buf) \<Rightarrow> huffman_octets root maxLen cur n cbits sbits buf v)"

function huffman_tail ::
  "node \<Rightarrow> int \<Rightarrow> 64 word \<Rightarrow> node \<Rightarrow> 8 word \<Rightarrow> 8 word \<Rightarrow> octets \<Rightarrow> hpack_error + 8 word \<times> 8 word \<times> octets" where
  "huffman_tail root maxLen cur n cbits sbits buf =
     (if 0 < cbits then
        (case n of
           Leaf _ _ \<Rightarrow> Inl HpackPanic
         | Internal children \<Rightarrow>
             (case children ! unat (ucast (push_bit (unat (8 - cbits)) cur) :: 8 word) of
                None \<Rightarrow> Inl ErrInvalidHuffman
              | Some n \<Rightarrow>
                  (case n of
                     Internal _ \<Rightarrow> Inr (cbits, sbits, buf)
                   | Leaf codeLen s \<Rightarrow>
                       if cbits < codeLen then Inr (cbits, sbits, buf)
                       else if full maxLen buf then Inl ErrStringLength
                       else if codeLen = 0 then Inl HpackPanic
                       else huffman_tail root maxLen cur root (cbits - codeLen) (cbits - codeLen) (buf @ [s]))))
      else Inr (cbits, sbits, buf))"
  by auto
termination
  by (relation "measure (\<lambda>(r, m, c, n, cb, sb, b). unat cb)")
    (auto intro!: unat_sub_less simp: not_less)

declare huffman_inner.simps [simp del] huffman_tail.simps [simp del]

definition huffmanDecode :: "int \<Rightarrow> octets \<Rightarrow> hpack_error + octets" where
  "huffmanDecode maxLen v =
     (case buildRootHuffmanNode of
        None \<Rightarrow> Inl HpackPanic
      | Some root \<Rightarrow>
          (case huffman_octets root maxLen 0 root 0 0 [] v of
             Inl e \<Rightarrow> Inl e
           | Inr (cur, n, cbits, sbits, buf) \<Rightarrow>
               (case huffman_tail root maxLen cur n cbits sbits buf of
                  Inl e \<Rightarrow> Inl e
                | Inr (cbits, sbits, buf) \<Rightarrow>
                    let mask = push_bit (unat cbits) 1 - 1 in
                    if 7 < sbits then Inl ErrInvalidHuffman
                    else if cur AND mask \<noteq> mask then Inl ErrInvalidHuffman
                    else Inr buf)))"

section \<open>States of the decoder\<close>

definition at_path :: "node \<Rightarrow> bool list \<Rightarrow> octets \<Rightarrow> 64 word \<Rightarrow> node \<Rightarrow> 8 word \<Rightarrow> 8 word \<Rightarrow> octets \<Rightarrow> bool" where
  \<comment> \<open>the bits \<open>X\<close> read so far are the string \<open>buf\<close>, the path to the node \<open>n\<close>, and \<open>cbits\<close> bits of \<open>cur\<close>\<close>
  "at_path root X path cur n cbits sbits buf \<longleftrightarrow>
     follow root path = Some n \<and> kind n = None \<and>
     X = string_bits buf @ octet_bits path @ bits (unat cbits) cur \<and>
     unat sbits = 8 * length path + unat cbits"

lemma child_follow:
  "follow root path = Some (Internal ch) \<Longrightarrow> follow root (path @ [i]) = ch ! unat i"
  by (simp add: follow_append split: option.split)

lemma child_Leaf:
  fixes i :: "8 word"
  assumes "holds_codes (\<lambda>_. True) root" "follow root path = Some (Internal ch)" "ch ! unat i = Some (Leaf l c)"
  shows "0 < unat l \<and> unat l \<le> 8 \<and> code_bits c = octet_bits path @ take (unat l) (bits 8 i)"
proof -
  have "spec_kind (\<lambda>_. True) (path @ [i]) (kinds root (path @ [i]))"
    using assms(1) by (simp only: holds_codes_def)
  then have p: "prefix (code_bits c) (octet_bits path @ bits 8 i)" and l: "0 < unat l" "length (code_bits c) = 8 * length path + unat l"
    by (simp_all add: child_follow [OF assms(2)] assms(3) spec_kind_simps)
  then have "code_bits c = take (length (code_bits c)) (octet_bits path @ bits 8 i)"
    by (metis append_eq_conv_conj prefix_def)
  then show ?thesis using l prefix_length_le [OF p] by simp
qed

lemma path_bound:
  assumes "holds_codes (\<lambda>_. True) root" "follow root path = Some (Internal ch)"
  shows "path = [] \<or> (\<exists>c. strict_prefix (octet_bits path) (code_bits c))" "length path \<le> 3"
proof -
  have "spec_kind (\<lambda>_. True) path (kinds root path)" using assms(1) by (simp only: holds_codes_def)
  then show p: "path = [] \<or> (\<exists>c. strict_prefix (octet_bits path) (code_bits c))" by (simp add: assms(2) spec_kind_simps)
  have "8 * length path < 30" if "strict_prefix (octet_bits path) (code_bits c)" for c
    using prefix_length_less [OF that] length_code_bits(2) [of c] by simp
  then show "length path \<le> 3" using p by fastforce
qed

lemma at_path_Leaf:
  fixes i :: "8 word"
  assumes "holds_codes (\<lambda>_. True) root" "at_path root X path cur (Internal ch) cbits sbits buf"
    "ch ! unat i = Some (Leaf l c)" "\<And>m. m \<le> 8 \<Longrightarrow> m \<le> unat cbits \<Longrightarrow> take m (bits 8 i) = take m (bits (unat cbits) cur)" "l \<le> cbits"
  shows "at_path root X [] cur root (cbits - l) (cbits - l) (buf @ [c])"
proof -
  have f: "follow root path = Some (Internal ch)" and X: "X = string_bits buf @ octet_bits path @ bits (unat cbits) cur"
    using assms(2) by (simp_all add: at_path_def)
  from child_Leaf [OF assms(1) f assms(3)] have l: "unat l \<le> 8" and c: "code_bits c = octet_bits path @ take (unat l) (bits 8 i)" by simp_all
  have le: "unat l \<le> unat cbits" "unat (cbits - l) = unat cbits - unat l" using assms(5) by (simp_all add: word_le_nat_alt unat_sub)
  have "bits (unat cbits) cur = take (unat l) (bits 8 i) @ bits (unat (cbits - l)) cur"
    using assms(4) [OF l le(1)] drop_bits [OF le(1), of cur] le(2) by (metis append_take_drop_id)
  moreover have "kind root = None"
    using assms(1) f by (cases root; cases path) auto
  ultimately show ?thesis by (simp add: at_path_def X c)
qed

lemma inner_index:
  fixes cur :: "64 word" and cbits :: "8 word"
  assumes "8 \<le> cbits"
  shows "bits (unat cbits) cur = bits 8 (ucast (drop_bit (unat (cbits - 8)) cur) :: 8 word) @ bits (unat (cbits - 8)) cur"
proof -
  have "unat cbits = 8 + unat (cbits - 8)" using assms by (simp add: word_le_nat_alt unat_sub)
  then show ?thesis using bits_add [of 8 "unat (cbits - 8)" cur] by (simp add: bits_ucast)
qed

lemma tail_index:
  fixes cur :: "64 word" and cbits :: "8 word"
  assumes "unat cbits \<le> 8"
  shows "bits 8 (ucast (push_bit (unat (8 - cbits)) cur) :: 8 word) = bits (unat cbits) cur @ replicate (8 - unat cbits) False"
proof -
  have u: "unat (8 - cbits) = 8 - unat cbits" using assms by (simp add: unat_sub word_le_nat_alt)
  show ?thesis unfolding u
    using assms by (intro nth_equalityI) (auto simp: nth_append nth_bits bit_simps not_less intro!: arg_cong [of _ _ "bit cur"])
qed

lemma at_path_Internal:
  assumes "at_path root X path cur (Internal ch) cbits sbits buf" "8 \<le> cbits"
    "ch ! unat (ucast (drop_bit (unat (cbits - 8)) cur) :: 8 word) = Some (Internal ch')"
  shows "at_path root X (path @ [ucast (drop_bit (unat (cbits - 8)) cur)]) cur (Internal ch') (cbits - 8) sbits buf"
  using assms child_follow [of root path ch "ucast (drop_bit (unat (cbits - 8)) cur)"] inner_index [OF assms(2), of cur]
  by (auto simp: at_path_def word_le_nat_alt unat_sub)

lemma at_path_inner_Leaf:
  assumes "holds_codes (\<lambda>_. True) root" "at_path root X path cur (Internal ch) cbits sbits buf" "8 \<le> cbits"
    "ch ! unat (ucast (drop_bit (unat (cbits - 8)) cur) :: 8 word) = Some (Leaf l c)" "l \<le> cbits"
  shows "at_path root X [] cur root (cbits - l) (cbits - l) (buf @ [c])"
  using assms(5) inner_index [OF assms(3), of cur]
  by (intro at_path_Leaf [OF assms(1,2,4)]) simp_all

lemma at_path_tail_Leaf:
  assumes "holds_codes (\<lambda>_. True) root" "at_path root X path cur (Internal ch) cbits sbits buf" "unat cbits \<le> 8"
    "ch ! unat (ucast (push_bit (unat (8 - cbits)) cur) :: 8 word) = Some (Leaf l c)" "l \<le> cbits"
  shows "at_path root X [] cur root (cbits - l) (cbits - l) (buf @ [c])"
  using assms(5) tail_index [OF assms(3), of cur]
  by (intro at_path_Leaf [OF assms(1,2,4)]) simp_all

lemma at_path_Internal_node: "at_path root X path cur n cbits sbits buf \<Longrightarrow> \<exists>ch. n = Internal ch"
  by (cases n) (auto simp: at_path_def)

section \<open>What is accepted\<close>

definition within :: "int \<Rightarrow> octets \<Rightarrow> bool" where
  "within maxLen s \<longleftrightarrow> maxLen \<le> 0 \<or> int (length s) \<le> maxLen"

lemma within_snoc: "within maxLen buf \<Longrightarrow> \<not> full maxLen buf \<Longrightarrow> within maxLen (buf @ [c])"
  by (auto simp: within_def full_def)

lemma huffman_inner_sound:
  assumes "holds_codes (\<lambda>_. True) root" "at_path root X path cur n cbits sbits buf" "within maxLen buf"
    "huffman_inner root maxLen cur n cbits sbits buf = Inr (n', cbits', sbits', buf')"
  shows "\<exists>path. at_path root X path cur n' cbits' sbits' buf' \<and> unat cbits' < 8 \<and> within maxLen buf'"
  using assms
proof (induction root maxLen cur n cbits sbits buf arbitrary: path rule: huffman_inner.induct)
  case (1 root maxLen cur n cbits sbits buf)
  obtain ch where n: "n = Internal ch" using "1.prems"(2) at_path_Internal_node by blast
  note e = huffman_inner.simps [of root maxLen cur "Internal ch" cbits sbits buf]
  show ?case
  proof (cases "8 \<le> cbits")
    case True
    let ?i = "unat (ucast (drop_bit (unat (cbits - 8)) cur) :: 8 word)"
    obtain n1 where n1: "ch ! ?i = Some n1" using "1.prems"(4) True by (cases "ch ! ?i") (simp_all add: e n)
    show ?thesis
    proof (cases n1)
      case (Internal ch')
      then have "huffman_inner root maxLen cur n1 (cbits - 8) sbits buf = Inr (n', cbits', sbits', buf')"
        using "1.prems"(4) True n1 by (simp add: e n)
      then show ?thesis
        using "1.IH"(1) [OF True n n1 Internal] at_path_Internal [OF "1.prems"(2) [unfolded n] True] n1 Internal "1.prems"(1,3) by blast
    next
      case (Leaf l c)
      then have c: "\<not> full maxLen buf" "\<not> (l = 0 \<or> cbits < l)"
        and "huffman_inner root maxLen cur root (cbits - l) (cbits - l) (buf @ [c]) = Inr (n', cbits', sbits', buf')"
        using "1.prems"(4) True n1 by (auto simp: e n split: if_splits)
      moreover have "at_path root X [] cur root (cbits - l) (cbits - l) (buf @ [c])"
        using at_path_inner_Leaf [OF "1.prems"(1) "1.prems"(2) [unfolded n] True] n1 Leaf c by auto
      ultimately show ?thesis
        using "1.IH"(2) [OF True n n1 Leaf c] "1.prems"(1,3) within_snoc by blast
    qed
  next
    case False
    then show ?thesis using "1.prems" by (auto simp: e n word_le_nat_alt)
  qed
qed

lemma huffman_tail_sound:
  assumes "holds_codes (\<lambda>_. True) root" "at_path root X path cur n cbits sbits buf" "within maxLen buf" "unat cbits \<le> 8"
    "huffman_tail root maxLen cur n cbits sbits buf = Inr (cbits', sbits', buf')"
  shows "\<exists>path n'. at_path root X path cur n' cbits' sbits' buf' \<and> within maxLen buf'"
  using assms
proof (induction root maxLen cur n cbits sbits buf arbitrary: path rule: huffman_tail.induct)
  case (1 root maxLen cur n cbits sbits buf)
  obtain ch where n: "n = Internal ch" using "1.prems"(2) at_path_Internal_node by blast
  note e = huffman_tail.simps [of root maxLen cur "Internal ch" cbits sbits buf]
  let ?i = "unat (ucast (push_bit (unat (8 - cbits)) cur) :: 8 word)"
  show ?case
  proof (cases "0 < cbits \<and> (\<exists>l c. ch ! ?i = Some (Leaf l c) \<and> l \<le> cbits)")
    case True
    then obtain l c where b: "0 < cbits" and n1: "ch ! ?i = Some (Leaf l c)" and l: "l \<le> cbits" by blast
    then have c: "\<not> cbits < l" "\<not> full maxLen buf" "l \<noteq> 0"
      and r: "huffman_tail root maxLen cur root (cbits - l) (cbits - l) (buf @ [c]) = Inr (cbits', sbits', buf')"
      using "1.prems"(5) by (auto simp: e n split: if_splits)
    have "at_path root X [] cur root (cbits - l) (cbits - l) (buf @ [c])"
      using at_path_tail_Leaf [OF "1.prems"(1) "1.prems"(2) [unfolded n] "1.prems"(4) n1 l] .
    moreover have "unat (cbits - l) \<le> 8" using l "1.prems"(4) by (simp add: unat_sub word_le_nat_alt)
    ultimately show ?thesis
      using "1.IH" [OF b n n1 refl c] r "1.prems"(1,3) within_snoc [OF _ c(2)] by blast
  next
    case False
    then have "cbits' = cbits \<and> sbits' = sbits \<and> buf' = buf"
      using "1.prems"(5) by (cases "ch ! ?i") (auto simp: e n not_le split: node.splits if_splits)
    then show ?thesis using "1.prems"(2,3) by blast
  qed
qed

lemma at_path_octet:
  fixes b :: "8 word"
  assumes "holds_codes (\<lambda>_. True) root" "at_path root X path cur n cbits sbits buf" "unat cbits < 8"
  shows "at_path root (X @ bits 8 b) path (push_bit 8 cur OR ucast b) n (cbits + 8) (sbits + 8) buf" "unat (cbits + 8) < 16"
proof -
  obtain ch where n: "n = Internal ch" using assms(2) at_path_Internal_node by blast
  then have "length path \<le> 3" using assms(2) path_bound(2) [OF assms(1)] by (auto simp: at_path_def)
  then have u: "unat (cbits + 8) = unat cbits + 8" "unat (sbits + 8) = unat sbits + 8"
    using assms(2,3) by (simp_all add: at_path_def unat_word_ariths)
  have "bits (unat cbits + 8) (push_bit 8 cur OR ucast b) = bits (unat cbits) cur @ bits 8 b"
    using assms(3) by (subst bits_add) (auto simp: bits_eq_iff bit_simps dest: bit_imp_le_length)
  then show "at_path root (X @ bits 8 b) path (push_bit 8 cur OR ucast b) n (cbits + 8) (sbits + 8) buf" "unat (cbits + 8) < 16"
    using assms(2,3) u by (simp_all add: at_path_def)
qed

lemma huffman_octets_sound:
  assumes "holds_codes (\<lambda>_. True) root" "at_path root X path cur n cbits sbits buf" "within maxLen buf" "unat cbits < 8"
    "huffman_octets root maxLen cur n cbits sbits buf v = Inr (cur', n', cbits', sbits', buf')"
  shows "\<exists>path. at_path root (X @ octet_bits v) path cur' n' cbits' sbits' buf' \<and> unat cbits' < 8 \<and> within maxLen buf'"
  using assms
proof (induction root maxLen cur n cbits sbits buf v arbitrary: X path rule: huffman_octets.induct)
  case (2 root maxLen cur n cbits sbits buf b v)
  let ?cur = "push_bit 8 cur OR ucast b"
  obtain n1 c1 s1 b1 where i: "huffman_inner root maxLen ?cur n (cbits + 8) (sbits + 8) buf = Inr (n1, c1, s1, b1)"
    using "2.prems"(5) by (auto simp: Let_def split: sum.splits)
  obtain path1 where "at_path root (X @ bits 8 b) path1 ?cur n1 c1 s1 b1" "unat c1 < 8" "within maxLen b1"
    using huffman_inner_sound [OF "2.prems"(1) at_path_octet(1) [OF "2.prems"(1,2,4)] "2.prems"(3) i] by blast
  moreover have "huffman_octets root maxLen ?cur n1 c1 s1 b1 v = Inr (cur', n', cbits', sbits', buf')"
    using "2.prems"(5) i by (simp add: Let_def)
  ultimately show ?case using "2.IH" [OF refl i refl refl refl "2.prems"(1), of "X @ bits 8 b" path1] by simp
qed auto

section \<open>What an encoded string decodes to\<close>

lemma string_bits_unique:
  "string_bits buf @ Y = string_bits s @ replicate k True \<Longrightarrow> \<exists>s'. s = buf @ s' \<and> Y = string_bits s' @ replicate k True"
proof (induction buf arbitrary: s)
  case (Cons c buf)
  show ?case
  proof (cases s)
    case Nil
    then have "prefix (code_bits c) (replicate k True)" using Cons.prems by (metis append_Nil append_assoc prefixI string_bits_simps(1,2))
    then have "code_bits c = replicate (length (code_bits c)) True"
      by (metis in_set_replicate prefix_def replicate_eqI set_append UnI1)
    then show ?thesis using code_not_ones by metis
  next
    case (Cons d s1)
    with Cons.prems have "code_bits c @ string_bits buf @ Y = code_bits d @ string_bits s1 @ replicate k True" by simp
    then have "prefix (code_bits c) (code_bits d) \<or> prefix (code_bits d) (code_bits c)"
      by (metis prefixI prefix_same_cases)
    then have "c = d" by (auto simp: code_prefix_free)
    with Cons Cons.prems Cons.IH [of s1] show ?thesis by simp
  qed
qed simp

definition reads :: "bool list \<Rightarrow> octets \<Rightarrow> bool" where
  \<comment> \<open>the bits start a string \<open>s\<close> padded with at most seven ones\<close>
  "reads X s \<longleftrightarrow> (\<exists>rest k. k \<le> 7 \<and> X @ rest = string_bits s @ replicate k True)"

text \<open>The next symbol of the string decides what the next octet of the path leads to.\<close>

lemma next_symbol:
  assumes "holds_codes (\<lambda>_. True) root" "follow root path = Some (Internal ch)"
    "prefix (code_bits c) Y" "prefix (octet_bits path) Y"
  shows "8 * length path < length (code_bits c)"
proof (rule ccontr)
  assume "\<not> 8 * length path < length (code_bits c)"
  then have p: "prefix (code_bits c) (octet_bits path)"
    using prefix_length_prefix [OF assms(3,4)] by simp
  have ne: "path \<noteq> []" using p length_code_bits(1) [of c] by auto
  then obtain d where d: "strict_prefix (octet_bits path) (code_bits d)" using path_bound(1) [OF assms(1,2)] by blast
  with p have "prefix (code_bits c) (code_bits d)" by (auto simp: strict_prefix_def)
  then have "c = d" by (simp add: code_prefix_free)
  then show False using p d by (auto simp: strict_prefix_def)
qed

lemma next_child:
  fixes i :: "8 word"
  assumes "holds_codes (\<lambda>_. True) root" "follow root path = Some (Internal ch)"
    "prefix (code_bits c) Y" "prefix (octet_bits path @ bits 8 i) Y"
  shows "\<exists>n. ch ! unat i = Some n \<and> (\<forall>l d. n = Leaf l d \<longrightarrow> d = c)"
proof -
  have path: "prefix (octet_bits path) Y" using assms(4) by (auto simp: prefix_def)
  have s: "spec_kind (\<lambda>_. True) (path @ [i]) (kinds root (path @ [i]))" using assms(1) by (simp only: holds_codes_def)
  consider "prefix (code_bits c) (octet_bits path @ bits 8 i)" | "strict_prefix (octet_bits path @ bits 8 i) (code_bits c)"
    using prefix_same_cases [OF assms(3,4)] unfolding strict_prefix_def by (metis prefix_order.order_refl)
  then have "ch ! unat i \<noteq> None"
    using s next_symbol [OF assms(1,2,3) path]
    by cases (cases "ch ! unat i", auto simp: child_follow [OF assms(2)] spec_kind_simps)+
  moreover have "d = c" if "ch ! unat i = Some (Leaf l d)" for l d
  proof -
    have "prefix (code_bits d) (octet_bits path @ bits 8 i)"
      using child_Leaf [OF assms(1,2) that] by (simp add: take_is_prefix)
    then have d: "prefix (code_bits d) Y" using assms(4) by auto
    show ?thesis using prefix_same_cases [OF d assms(3)] by (auto simp: code_prefix_free)
  qed
  ultimately show ?thesis by blast
qed

lemma reads_next:
  assumes "at_path root X path cur n cbits sbits buf" "reads X s"
  obtains Y s' k where "s = buf @ s'" "k \<le> 7" "Y = string_bits s' @ replicate k True"
    "prefix (octet_bits path @ bits (unat cbits) cur) Y" "\<And>c s2. s' = c # s2 \<Longrightarrow> prefix (code_bits c) Y"
    "s' = [] \<Longrightarrow> 8 * length path + unat cbits \<le> 7"
proof -
  obtain rest k where k: "k \<le> 7" "X @ rest = string_bits s @ replicate k True" using assms(2) by (auto simp: reads_def)
  let ?Y = "octet_bits path @ bits (unat cbits) cur @ rest"
  have "string_bits buf @ ?Y = string_bits s @ replicate k True" using k(2) assms(1) by (simp add: at_path_def)
  from string_bits_unique [OF this] obtain s' where s': "s = buf @ s'" "?Y = string_bits s' @ replicate k True" by blast
  show ?thesis
  proof (rule that [OF s'(1) k(1) s'(2)])
    show "prefix (octet_bits path @ bits (unat cbits) cur) ?Y" by simp
    show "prefix (code_bits c) ?Y" if "s' = c # s2" for c s2 unfolding s'(2) using that by simp
    show "8 * length path + unat cbits \<le> 7" if "s' = []"
      using arg_cong [OF s'(2), of length] that k(1) by simp
  qed
qed

lemma huffman_inner_complete:
  assumes "holds_codes (\<lambda>_. True) root" "at_path root X path cur n cbits sbits buf" "reads X s" "within maxLen s"
  shows "\<exists>r. huffman_inner root maxLen cur n cbits sbits buf = Inr r"
  using assms
proof (induction root maxLen cur n cbits sbits buf arbitrary: path rule: huffman_inner.induct)
  case (1 root maxLen cur n cbits sbits buf)
  obtain ch where n: "n = Internal ch" using "1.prems"(2) at_path_Internal_node by blast
  note e = huffman_inner.simps [of root maxLen cur "Internal ch" cbits sbits buf]
  show ?case
  proof (cases "8 \<le> cbits")
    case True
    let ?i = "ucast (drop_bit (unat (cbits - 8)) cur) :: 8 word"
    obtain Y s' k where r: "s = buf @ s'" "prefix (octet_bits path @ bits (unat cbits) cur) Y"
      "\<And>c s2. s' = c # s2 \<Longrightarrow> prefix (code_bits c) Y" "s' = [] \<Longrightarrow> 8 * length path + unat cbits \<le> 7"
      using reads_next [OF "1.prems"(2,3)] by metis
    have "s' \<noteq> []" using r(4) True by (auto simp: word_le_nat_alt)
    then obtain c s2 where c: "s' = c # s2" by (cases s') auto
    have "prefix (octet_bits path @ bits 8 ?i) Y" using r(2) inner_index [OF True, of cur] by (auto simp: prefix_def)
    moreover have f: "follow root path = Some (Internal ch)" using "1.prems"(2) by (simp add: at_path_def n)
    ultimately obtain n1 where n1: "ch ! unat ?i = Some n1" "\<forall>l d. n1 = Leaf l d \<longrightarrow> d = c"
      using next_child [OF "1.prems"(1) _ r(3) [OF c]] by blast
    show ?thesis
    proof (cases n1)
      case (Internal ch')
      then show ?thesis
        using "1.IH"(1) [OF True n n1(1) Internal "1.prems"(1)] at_path_Internal [OF "1.prems"(2) [unfolded n] True] n1 "1.prems"(3,4) True
        by (simp add: e n)
    next
      case (Leaf l d)
      have l: "0 < unat l" "unat l \<le> 8" using child_Leaf [OF "1.prems"(1) f] n1(1) Leaf by simp_all
      have nf: "\<not> full maxLen buf" using "1.prems"(4) r(1) c by (auto simp: within_def full_def)
      have nl: "\<not> (l = 0 \<or> cbits < l)" using l True by (auto simp: word_le_nat_alt word_less_nat_alt)
      then have "at_path root X [] cur root (cbits - l) (cbits - l) (buf @ [d])"
        using at_path_inner_Leaf [OF "1.prems"(1) "1.prems"(2) [unfolded n] True] n1(1) Leaf by auto
      then show ?thesis
        using "1.IH"(2) [OF True n n1(1) Leaf nf nl "1.prems"(1) _ "1.prems"(3,4)] True n1(1) Leaf nf nl by (simp add: e n)
    qed
  qed (simp add: e n)
qed

text \<open>A run of at most seven ones, filled up with zeros to an octet, is the start of a path.\<close>

lemma ones_start_code:
  assumes "1 \<le> k" "k \<le> 7"
  shows "\<exists>c. prefix (code_bits c) (replicate k True @ replicate (8 - k) False) \<or>
    strict_prefix (replicate k True @ replicate (8 - k) False) (code_bits c)"
proof -
  have eval: "code_bits 61 = [True, False, False, False, False, False]"
    "code_bits 69 = [True, True, False, False, False, False, False]"
    "code_bits 85 = [True, True, True, False, False, False, False]"
    "code_bits 119 = [True, True, True, True, False, False, False]"
    "code_bits 38 = [True, True, True, True, True, False, False, False]"
    "code_bits 88 = [True, True, True, True, True, True, False, False]"
    "code_bits 33 = [True, True, True, True, True, True, True, False, False, False]"
    by (simp_all add: code_bits_def huffmanCodes_def huffmanCodeLen_def bits_def upt_rec)
  from assms consider "k = 1" | "k = 2" | "k = 3" | "k = 4" | "k = 5" | "k = 6" | "k = 7" by linarith
  then show ?thesis
    by cases (rule exI [of _ 61] exI [of _ 69] exI [of _ 85] exI [of _ 119] exI [of _ 38] exI [of _ 88] exI [of _ 33],
      simp add: eval numeral_eq_Suc; fail)+
qed

lemma ones_child:
  fixes i :: "8 word"
  assumes "holds_codes (\<lambda>_. True) (Internal ch)" "1 \<le> k" "k \<le> 7" "bits 8 i = replicate k True @ replicate (8 - k) False"
  shows "\<exists>n. ch ! unat i = Some n \<and> (\<forall>l d. n = Leaf l d \<longrightarrow> k < unat l)"
proof -
  have f: "follow (Internal ch) [] = Some (Internal ch)" by simp
  have s: "spec_kind (\<lambda>_. True) [i] (kinds (Internal ch) [i])" using assms(1) by (simp only: holds_codes_def)
  obtain c where "prefix (code_bits c) (bits 8 i) \<or> strict_prefix (bits 8 i) (code_bits c)"
    using ones_start_code [OF assms(2,3)] assms(4) by auto
  then have "ch ! unat i \<noteq> None"
    using s length_code_bits(1) [of c] by (cases "ch ! unat i") (auto simp: spec_kind_simps)
  moreover have "k < unat l" if "ch ! unat i = Some (Leaf l d)" for l d
  proof (rule ccontr)
    assume "\<not> k < unat l"
    then have "code_bits d = replicate (unat l) True"
      using child_Leaf [OF assms(1) f that] assms(3,4) by (simp add: min_def)
    then show False using code_not_ones by blast
  qed
  ultimately show ?thesis by blast
qed

lemma huffman_tail_complete:
  assumes "holds_codes (\<lambda>_. True) root" "at_path root X path cur n cbits sbits buf" "unat cbits \<le> 7"
    "X = string_bits s @ replicate k True" "k \<le> 7" "within maxLen s"
  shows "\<exists>cb. huffman_tail root maxLen cur n cbits sbits buf = Inr (cb, cb, s) \<and> unat cb \<le> 7 \<and>
    bits (unat cb) cur = replicate (unat cb) True"
  using assms
proof (induction root maxLen cur n cbits sbits buf arbitrary: path rule: huffman_tail.induct)
  case (1 root maxLen cur n cbits sbits buf)
  obtain ch where n: "n = Internal ch" using "1.prems"(2) at_path_Internal_node by blast
  note e = huffman_tail.simps [of root maxLen cur "Internal ch" cbits sbits buf]
  let ?i = "ucast (push_bit (unat (8 - cbits)) cur) :: 8 word" and ?Y = "octet_bits path @ bits (unat cbits) cur"
  have i: "bits 8 ?i = bits (unat cbits) cur @ replicate (8 - unat cbits) False" using tail_index [of cbits cur] "1.prems"(3) by simp
  have f: "follow root path = Some (Internal ch)" and sb: "unat sbits = 8 * length path + unat cbits"
    using "1.prems"(2) by (simp_all add: at_path_def n)
  have "string_bits buf @ ?Y = string_bits s @ replicate k True" using "1.prems"(2,4) by (simp add: at_path_def)
  from string_bits_unique [OF this] obtain s' where s': "s = buf @ s'" "?Y = string_bits s' @ replicate k True" by blast
  show ?case
  proof (cases s')
    case Nil
    have len: "8 * length path + unat cbits = k" using arg_cong [OF s'(2), of length] Nil by simp
    with "1.prems"(5) have p: "path = []" "unat cbits = k" by (cases path; simp)+
    then have "sbits = cbits" and b: "bits k cur = replicate k True" using sb s'(2) Nil by (simp_all add: word_unat_eq_iff)
    moreover have "huffman_tail root maxLen cur n cbits sbits buf = Inr (cbits, sbits, buf)"
    proof (cases "0 < cbits")
      case True
      then have k: "1 \<le> k" using p(2) unat_gt_0 [of cbits] by auto
      have "root = Internal ch" using f p by simp
      then obtain n1 where "ch ! unat ?i = Some n1" "\<forall>l d. n1 = Leaf l d \<longrightarrow> k < unat l"
        using ones_child [of ch k ?i] "1.prems"(1,5) k i b p(2) by auto
      then show ?thesis using True p(2) by (cases n1) (simp_all add: e n word_less_nat_alt)
    qed (simp add: e n)
    ultimately show ?thesis using s'(1) Nil p(2) "1.prems"(5) by auto
  next
    case (Cons c s2)
    then have cY: "prefix (code_bits c) ?Y" using s'(2) by simp
    have pY: "prefix (octet_bits path) ?Y" by simp
    have cY': "prefix (code_bits c) (octet_bits path @ bits 8 ?i)" unfolding i append_assoc [symmetric] using cY by (rule prefix_prefix)
    have long: "8 * length path < length (code_bits c)" by (rule next_symbol [OF "1.prems"(1) f cY pY])
    have short: "length (code_bits c) \<le> 8 * length path + unat cbits" using prefix_length_le [OF cY] by simp
    have b: "0 < cbits" using long short unat_gt_0 [of cbits] by (simp add: word_gt_0)
    obtain n1 where n1: "ch ! unat ?i = Some n1" "\<forall>l d. n1 = Leaf l d \<longrightarrow> d = c"
      using next_child [OF "1.prems"(1) f cY'] by blast
    obtain l where Leaf: "n1 = Leaf l c"
    proof (cases n1)
      case (Internal ch')
      have "follow root (path @ [?i]) = Some (Internal ch')" using child_follow [OF f, of ?i] n1(1) Internal by simp
      then obtain d where "strict_prefix (octet_bits path @ bits 8 ?i) (code_bits d)"
        using path_bound(1) [OF "1.prems"(1), of "path @ [?i]" ch'] by auto
      with cY' have "strict_prefix (code_bits c) (code_bits d)" by auto
      then show ?thesis by (auto simp: strict_prefix_def code_prefix_free)
    qed (use n1(2) that in auto)
    have l: "0 < unat l" "unat l \<le> 8" "code_bits c = octet_bits path @ take (unat l) (bits 8 ?i)"
      using child_Leaf [OF "1.prems"(1) f] n1(1) Leaf by simp_all
    then have "length (code_bits c) = 8 * length path + unat l" by simp
    with short have le: "l \<le> cbits" by (simp add: word_le_nat_alt)
    have nf: "\<not> full maxLen buf" using "1.prems"(6) s'(1) Cons by (auto simp: within_def full_def)
    have "at_path root X [] cur root (cbits - l) (cbits - l) (buf @ [c])"
      using "1.prems"(3) n1(1) Leaf le
      by (intro at_path_tail_Leaf [OF "1.prems"(1) "1.prems"(2) [unfolded n]]) auto
    moreover have "unat (cbits - l) \<le> 7" using "1.prems"(3) le by (simp add: unat_sub word_le_nat_alt)
    moreover have nl: "\<not> cbits < l" "l \<noteq> 0" using l le by auto
    ultimately show ?thesis
      using "1.IH" [OF b n n1(1) Leaf nl(1) nf nl(2) "1.prems"(1) _ _ "1.prems"(4,5,6)] b n1(1) Leaf nf nl by (simp add: e n)
  qed
qed

lemma huffman_octets_complete:
  assumes "holds_codes (\<lambda>_. True) root" "at_path root X path cur n cbits sbits buf" "within maxLen buf" "unat cbits < 8"
    "reads (X @ octet_bits v) s" "within maxLen s"
  shows "\<exists>r. huffman_octets root maxLen cur n cbits sbits buf v = Inr r"
  using assms
proof (induction root maxLen cur n cbits sbits buf v arbitrary: X path rule: huffman_octets.induct)
  case (2 root maxLen cur n cbits sbits buf b v)
  let ?cur = "push_bit 8 cur OR ucast b"
  note p = at_path_octet(1) [OF "2.prems"(1,2,4), of b]
  have r: "reads (X @ bits 8 b) s" using "2.prems"(5) unfolding reads_def by (metis append_assoc octet_bits_simps(2))
  obtain n1 c1 s1 b1 where i: "huffman_inner root maxLen ?cur n (cbits + 8) (sbits + 8) buf = Inr (n1, c1, s1, b1)"
    using huffman_inner_complete [OF "2.prems"(1) p r "2.prems"(6)] by auto
  obtain path1 where "at_path root (X @ bits 8 b) path1 ?cur n1 c1 s1 b1" "unat c1 < 8" "within maxLen b1"
    using huffman_inner_sound [OF "2.prems"(1) p "2.prems"(3) i] by blast
  then show ?case
    using "2.IH" [OF refl i refl refl refl "2.prems"(1), of "X @ bits 8 b" path1] "2.prems"(5,6) i by (simp add: Let_def)
qed simp

section \<open>Decoding is the inverse of encoding\<close>

lemma mask_check: "n \<le> 8 \<Longrightarrow> cur AND (push_bit n 1 - 1) = push_bit n 1 - 1 \<longleftrightarrow> bits n cur = replicate n True" for cur :: "64 word"
proof -
  assume n: "n \<le> 8"
  have "push_bit n 1 - 1 = (mask n :: 64 word)" using prefix_max_mask by (simp add: prefix_max_def)
  moreover have "cur AND mask n = mask n \<longleftrightarrow> (\<forall>k. k < 64 \<and> k < n \<longrightarrow> bit cur k)"
    by (auto simp: bit_eq_iff bit_simps)
  moreover have "replicate n True = bits n (mask n :: 64 word)"
    using n by (intro nth_equalityI) (auto simp: nth_bits bit_simps)
  then have "bits n cur = replicate n True \<longleftrightarrow> (\<forall>k < n. bit cur k)"
    using n by (auto simp: bits_eq_iff bit_simps)
  ultimately show ?thesis using n by auto
qed

lemma at_path_start: "holds_codes (\<lambda>_. True) root \<Longrightarrow> at_path root [] [] 0 root 0 0 []"
proof -
  assume "holds_codes (\<lambda>_. True) root"
  then have "spec_kind (\<lambda>_. True) [] (kinds root [])" by (simp only: holds_codes_def)
  then have "kind root = None"
  proof (cases root)
    case (Leaf l c)
    with \<open>spec_kind _ _ _\<close> show ?thesis using length_code_bits(1) [of c] by (simp add: spec_kind_simps)
  qed simp
  then show ?thesis by (simp add: at_path_def)
qed

lemma huffmanDecode_iff:
  "huffmanDecode maxLen v = Inr s \<longleftrightarrow> v = AppendHuffmanString [] s \<and> within maxLen s"
proof -
  obtain root where root: "buildRootHuffmanNode = Some root" "holds_codes (\<lambda>_. True) root" using root_holds_codes by blast
  note start = at_path_start [OF root(2)]
  have w: "within maxLen []" by (auto simp: within_def)
  show ?thesis
  proof
    assume "huffmanDecode maxLen v = Inr s"
    then obtain cur n cb sb buf cb' sb' where o: "huffman_octets root maxLen 0 root 0 0 [] v = Inr (cur, n, cb, sb, buf)"
      and u: "huffman_tail root maxLen cur n cb sb buf = Inr (cb', sb', s)"
      and c: "\<not> 7 < sb'" "cur AND (push_bit (unat cb') 1 - 1) = push_bit (unat cb') 1 - 1"
      by (auto simp: huffmanDecode_def root(1) Let_def split: sum.splits if_splits)
    obtain path where "at_path root (octet_bits v) path cur n cb sb buf" "unat cb < 8" "within maxLen buf"
      using huffman_octets_sound [OF root(2) start w _ o] by auto
    then obtain path' n' where p: "at_path root (octet_bits v) path' cur n' cb' sb' s" and within: "within maxLen s"
      using huffman_tail_sound [OF root(2) _ _ _ u] by fastforce
    have "unat sb' \<le> 7" using c(1) by (simp add: word_less_nat_alt)
    then have "path' = []" and k: "unat cb' \<le> 7" using p by (cases path'; simp add: at_path_def)+
    moreover have "bits (unat cb') cur = replicate (unat cb') True" using c(2) mask_check [of "unat cb'" cur] k by simp
    ultimately have v: "octet_bits v = string_bits s @ replicate (unat cb') True" using p by (simp add: at_path_def)
    have "padding s = replicate (unat cb') True"
      using arg_cong [OF v, of length] k by (intro padding_unique [of _ "length v"]) simp_all
    with v have "octet_bits v = octet_bits (AppendHuffmanString [] s)" by (simp add: AppendHuffmanString_bits)
    then show "v = AppendHuffmanString [] s \<and> within maxLen s" using within by (simp add: octet_bits_inj)
  next
    assume a: "v = AppendHuffmanString [] s \<and> within maxLen s"
    have "nat (- int (length (string_bits s)) mod 8) \<le> 7" by simp
    then obtain k where k: "k \<le> 7" "padding s = replicate k True" unfolding padding_def by blast
    have v: "octet_bits v = string_bits s @ replicate k True" using a k by (simp add: AppendHuffmanString_bits)
    then have "reads ([] @ octet_bits v) s" using k(1) by (auto simp: reads_def)
    then obtain cur n cb sb buf where o: "huffman_octets root maxLen 0 root 0 0 [] v = Inr (cur, n, cb, sb, buf)"
      using huffman_octets_complete [OF root(2) start w, of v s] a by auto
    obtain path where p: "at_path root (octet_bits v) path cur n cb sb buf" "unat cb < 8"
      using huffman_octets_sound [OF root(2) start w _ o] by auto
    obtain cb' where "huffman_tail root maxLen cur n cb sb buf = Inr (cb', cb', s)" "unat cb' \<le> 7"
      "bits (unat cb') cur = replicate (unat cb') True"
      using huffman_tail_complete [OF root(2) p(1) _ v k(1)] p(2) a by auto
    then show "huffmanDecode maxLen v = Inr s"
      using o mask_check [of "unat cb'" cur] by (simp add: huffmanDecode_def root(1) Let_def word_less_nat_alt)
  qed
qed

text \<open>
  (C17) Huffman coding. The decoder accepts an octet string exactly when it is the encoding of a string,
  and then returns that string; so every string survives coding, and no other spelling of it (longer
  padding, padding with zeros, an explicit end-of-string symbol, an incomplete symbol) is accepted. With a
  limit on the length, exactly the strings within the limit are returned.
\<close>
theorem huffmanDecode_exact:
  "huffmanDecode maxLen v = Inr s \<longleftrightarrow> v = AppendHuffmanString [] s \<and> (maxLen \<le> 0 \<or> int (length s) \<le> maxLen)"
  by (simp add: huffmanDecode_iff within_def)

end
