(* ===== verification/Hpack.thy ===== *)
theory Hpack
  imports HpackTables HuffmanDecode
begin

text \<open>
  The encoder and the decoder of HPACK: \<open>http2/hpack/encode.go\<close> and \<open>http2/hpack/hpack.go\<close>.

  The decoder's state has the fields of \<open>Decoder\<close>, with the fields handed to the callback \<open>emit\<close> as a
  list; an operation that may return an error or \<open>nil\<close> yields an optional error and the state, which an
  error may already have changed. The encoder's state has the fields of \<open>Encoder\<close> other than the writer
  and the scratch buffer; \<open>WriteField\<close> yields the octets of its single \<open>Write\<close>, and what it makes of the
  writer's answer. \<open>None\<close>, and the error \<open>HpackPanic\<close>, are panics of the tables.
\<close>

section \<open>Encoder\<close>

record Encoder =
  e_dynTab :: dynamicTable
  minSize :: "32 word"
  maxSizeLimit :: "32 word"
  tableSizeUpdate :: bool

definition uint32Max :: "32 word" where "uint32Max = NOT 0"
definition initialHeaderTableSize :: "32 word" where "initialHeaderTableSize = 4096"

definition NewEncoder :: "Encoder option" where
  "NewEncoder = map_option (\<lambda>dt. \<lparr>e_dynTab = dt, minSize = uint32Max, maxSizeLimit = initialHeaderTableSize,
     tableSizeUpdate = False\<rparr>) (new_dyn initialHeaderTableSize)"

definition encodeTypeByte :: "bool \<Rightarrow> bool \<Rightarrow> 8 word" where
  "encodeTypeByte indexing sensitive = (if sensitive then 0x10 else if indexing then 0x40 else 0)"

definition appendIndexed :: "octets \<Rightarrow> 64 word \<Rightarrow> octets" where
  "appendIndexed dst i = or_at (appendVarInt dst 7 i) (length dst) 0x80"

definition appendTableSize :: "octets \<Rightarrow> 32 word \<Rightarrow> octets" where
  "appendTableSize dst v = or_at (appendVarInt dst 5 (ucast v)) (length dst) 0x20"

definition appendHpackString :: "octets \<Rightarrow> octets \<Rightarrow> octets" where
  "appendHpackString dst s =
     (let huffmanLength = HuffmanEncodeLength s in
      if huffmanLength < word_of_nat (length s)
      then or_at (AppendHuffmanString (appendVarInt dst 7 huffmanLength) s) (length dst) 0x80
      else appendVarInt dst 7 (word_of_nat (length s)) @ s)"

definition appendNewName :: "octets \<Rightarrow> HeaderField \<Rightarrow> bool \<Rightarrow> octets" where
  "appendNewName dst f indexing =
     appendHpackString (appendHpackString (dst @ [encodeTypeByte indexing (Sensitive f)]) (Name f)) (Value f)"

definition appendIndexedName :: "octets \<Rightarrow> HeaderField \<Rightarrow> 64 word \<Rightarrow> bool \<Rightarrow> octets" where
  "appendIndexedName dst f i indexing =
     (let n = (if indexing then 6 else 4) in
      appendHpackString (or_at (appendVarInt dst n i) (length dst) (encodeTypeByte indexing (Sensitive f))) (Value f))"

definition shouldIndex :: "Encoder \<Rightarrow> HeaderField \<Rightarrow> bool" where
  "shouldIndex e f \<longleftrightarrow> \<not> Sensitive f \<and> Size f \<le> maxSize (e_dynTab e)"

definition searchTable :: "Encoder \<Rightarrow> HeaderField \<Rightarrow> (64 word \<times> bool) option" where
  "searchTable e f =
     (case search True staticTable f of
        None \<Rightarrow> None
      | Some (i, match) \<Rightarrow>
          if match then Some (i, True)
          else
            (case search False (table (e_dynTab e)) f of
               None \<Rightarrow> None
             | Some (j, match) \<Rightarrow>
                 if match \<or> (i = 0 \<and> j \<noteq> 0) then Some (j + word_of_nat (length (ents staticTable)), match)
                 else Some (i, False)))"

definition SetMaxDynamicTableSize :: "Encoder \<Rightarrow> 32 word \<Rightarrow> Encoder option" where
  "SetMaxDynamicTableSize e v =
     (let v = (if maxSizeLimit e < v then maxSizeLimit e else v);
          e = (if v < minSize e then e\<lparr>minSize := v\<rparr> else e) in
      map_option (\<lambda>dt. e\<lparr>tableSizeUpdate := True, e_dynTab := dt\<rparr>) (setMaxSize (e_dynTab e) v))"

definition SetMaxDynamicTableSizeLimit :: "Encoder \<Rightarrow> 32 word \<Rightarrow> Encoder option" where
  "SetMaxDynamicTableSizeLimit e v =
     (let e = e\<lparr>maxSizeLimit := v\<rparr> in
      if v < maxSize (e_dynTab e)
      then map_option (\<lambda>dt. e\<lparr>tableSizeUpdate := True, e_dynTab := dt\<rparr>) (setMaxSize (e_dynTab e) v)
      else Some e)"

definition size_updates :: "Encoder \<Rightarrow> octets \<times> Encoder" where
  \<comment> \<open>the first part of \<open>WriteField\<close>\<close>
  "size_updates e =
     (if tableSizeUpdate e then
        (let buf = (if minSize e < maxSize (e_dynTab e) then appendTableSize [] (minSize e) else []) in
         (appendTableSize buf (maxSize (e_dynTab e)), e\<lparr>tableSizeUpdate := False, minSize := uint32Max\<rparr>))
      else ([], e))"

datatype 'e write_result = Written | ErrShortWrite | WriteError 'e

definition WriteField :: "(octets \<Rightarrow> nat \<times> 'e option) \<Rightarrow> Encoder \<Rightarrow> HeaderField \<Rightarrow> (octets \<times> Encoder \<times> 'e write_result) option" where
  \<comment> \<open>the argument is the \<open>Write\<close> of the encoder's writer\<close>
  "WriteField wr e f =
     (let (buf, e) = size_updates e in
      case searchTable e f of
        None \<Rightarrow> None
      | Some (idx, match) \<Rightarrow>
          let r = (if match then Some (appendIndexed buf idx, e)
                   else
                     let indexing = shouldIndex e f;
                         dt = (if indexing then dyn_add (e_dynTab e) f else Some (e_dynTab e)) in
                     map_option (\<lambda>dt. (if idx = 0 then appendNewName buf f indexing else appendIndexedName buf f idx indexing,
                       e\<lparr>e_dynTab := dt\<rparr>)) dt) in
          map_option (\<lambda>(buf, e).
            (buf, e, case wr buf of
                       (n, Some err) \<Rightarrow> WriteError err
                     | (n, None) \<Rightarrow> if n \<noteq> length buf then ErrShortWrite else Written)) r)"

section \<open>Decoder\<close>

record Decoder =
  d_dynTab :: dynamicTable
  emitEnabled :: bool
  maxStrLen :: int
  d_buf :: octets
  saveBuf :: octets
  emitted :: "HeaderField list"

definition NewDecoder :: "32 word \<Rightarrow> Decoder option" where
  "NewDecoder v = map_option (\<lambda>dt. \<lparr>d_dynTab = dt, emitEnabled = True, maxStrLen = 0, d_buf = [], saveBuf = [], emitted = []\<rparr>)
     (setMaxSize \<lparr>table = table_init, dt_size = 0, maxSize = 0, allowedMaxSize = v\<rparr> v)"

definition maxTableIndex :: "Decoder \<Rightarrow> nat" where
  "maxTableIndex d = length (ents (table (d_dynTab d))) + length (ents staticTable)"

definition at_index :: "Decoder \<Rightarrow> 64 word \<Rightarrow> HeaderField option" where
  "at_index d i =
     (if i = 0 then None
      else if i \<le> word_of_nat (length (ents staticTable)) then Some (ents staticTable ! (unat i - 1))
      else if word_of_nat (maxTableIndex d) < i then None
      else let dt = table (d_dynTab d) in
           Some (ents dt ! (length (ents dt) - (unat i - length (ents staticTable)))))"

definition callEmit :: "HeaderField \<Rightarrow> Decoder \<Rightarrow> hpack_error option \<times> Decoder" where
  "callEmit hf d =
     (if maxStrLen d \<noteq> 0 \<and> (int (length (Name hf)) > maxStrLen d \<or> int (length (Value hf)) > maxStrLen d)
      then (Some hpack_error.ErrStringLength, d)
      else (None, if emitEnabled d then d\<lparr>emitted := emitted d @ [hf]\<rparr> else d))"

definition readString :: "Decoder \<Rightarrow> octets \<Rightarrow> bool \<Rightarrow> hpack_error + octets \<times> octets" where
  "readString d p wantStr =
     (case p of
        [] \<Rightarrow> Inl NeedMore
      | b # _ \<Rightarrow>
          let isHuff = (b AND 128 \<noteq> 0) in
          (case readVarInt 7 p of
             Inl e \<Rightarrow> Inl e
           | Inr (strLen, p) \<Rightarrow>
               if maxStrLen d \<noteq> 0 \<and> word_of_int (maxStrLen d) < strLen then Inl hpack_error.ErrStringLength
               else if word_of_nat (length p) < strLen then Inl NeedMore
               else if \<not> isHuff then Inr (if wantStr then take (unat strLen) p else [], drop (unat strLen) p)
               else if wantStr then
                 (case huffmanDecode (maxStrLen d) (take (unat strLen) p) of
                    Inl e \<Rightarrow> Inl e
                  | Inr s \<Rightarrow> Inr (s, drop (unat strLen) p))
               else Inr ([], drop (unat strLen) p)))"

datatype indexType = indexedTrue | indexedFalse | indexedNever

definition parseFieldIndexed :: "Decoder \<Rightarrow> hpack_error option \<times> Decoder" where
  "parseFieldIndexed d =
     (case readVarInt 7 (d_buf d) of
        Inl e \<Rightarrow> (Some e, d)
      | Inr (idx, buf) \<Rightarrow>
          (case at_index d idx of
             None \<Rightarrow> (Some (InvalidIndexError idx), d)
           | Some hf \<Rightarrow> callEmit \<lparr>Name = Name hf, Value = Value hf, Sensitive = False\<rparr> (d\<lparr>d_buf := buf\<rparr>)))"

definition readName :: "Decoder \<Rightarrow> bool \<Rightarrow> 64 word \<Rightarrow> octets \<Rightarrow> hpack_error + octets \<times> octets" where
  \<comment> \<open>the name of a literal, from the table or from the wire\<close>
  "readName d wantStr nameIdx buf =
     (if nameIdx > 0 then
        (case at_index d nameIdx of
           None \<Rightarrow> Inl (InvalidIndexError nameIdx)
         | Some ihf \<Rightarrow> Inr (Name ihf, buf))
      else readString d buf wantStr)"

definition parseFieldLiteral :: "nat \<Rightarrow> indexType \<Rightarrow> Decoder \<Rightarrow> hpack_error option \<times> Decoder" where
  "parseFieldLiteral n it d =
     (let wantStr = (emitEnabled d \<or> it = indexedTrue) in
      case rbind (readVarInt n (d_buf d)) (\<lambda>(nameIdx, buf).
             rbind (readName d wantStr nameIdx buf) (\<lambda>(name, buf).
               rbind (readString d buf wantStr) (\<lambda>(val, buf). Inr (name, val, buf)))) of
        Inl e \<Rightarrow> (Some e, d)
      | Inr (name, val, buf) \<Rightarrow>
          let d = d\<lparr>d_buf := buf\<rparr>; hf = \<lparr>Name = name, Value = val, Sensitive = False\<rparr> in
          (case (if it = indexedTrue then dyn_add (d_dynTab d) hf else Some (d_dynTab d)) of
             None \<Rightarrow> (Some HpackPanic, d)
           | Some dt \<Rightarrow> callEmit (hf\<lparr>Sensitive := (it = indexedNever)\<rparr>) (d\<lparr>d_dynTab := dt\<rparr>)))"

definition parseDynamicTableSizeUpdate :: "Decoder \<Rightarrow> hpack_error option \<times> Decoder" where
  "parseDynamicTableSizeUpdate d =
     (if 0 < dt_size (d_dynTab d) then (Some LateSizeUpdate, d)
      else case readVarInt 5 (d_buf d) of
        Inl e \<Rightarrow> (Some e, d)
      | Inr (s, buf) \<Rightarrow>
          if ucast (allowedMaxSize (d_dynTab d)) < s then (Some SizeUpdateTooLarge, d)
          else (case setMaxSize (d_dynTab d) (ucast s) of
                  None \<Rightarrow> (Some HpackPanic, d)
                | Some dt \<Rightarrow> (None, d\<lparr>d_dynTab := dt, d_buf := buf\<rparr>)))"

definition parseHeaderFieldRepr :: "Decoder \<Rightarrow> hpack_error option \<times> Decoder" where
  "parseHeaderFieldRepr d =
     (case d_buf d of
        [] \<Rightarrow> (Some HpackPanic, d)
      | b # _ \<Rightarrow>
          if b AND 128 \<noteq> 0 then parseFieldIndexed d
          else if b AND 192 = 64 then parseFieldLiteral 6 indexedTrue d
          else if b AND 240 = 0 then parseFieldLiteral 4 indexedFalse d
          else if b AND 240 = 16 then parseFieldLiteral 4 indexedNever d
          else if b AND 224 = 32 then parseDynamicTableSizeUpdate d
          else (Some InvalidEncoding, d))"

section \<open>Progress\<close>

lemma readString_shorter: "readString d p wantStr = Inr (s, q) \<Longrightarrow> length q < length p"
  by (cases p) (auto simp: readString_def Let_def split: sum.splits if_splits dest!: readVarInt_suffix)

lemma callEmit_buf: "callEmit hf d = (r, d') \<Longrightarrow> d_buf d' = d_buf d \<and> saveBuf d' = saveBuf d"
  by (auto simp: callEmit_def split: if_splits)

lemma readName_shorter: "readName d wantStr i p = Inr (s, q) \<Longrightarrow> length q \<le> length p"
  by (auto simp: readName_def dest: readString_shorter split: if_splits option.splits)

lemma parseFieldLiteral_shorter:
  assumes "parseFieldLiteral n it d = (None, d')"
  shows "length (d_buf d') < length (d_buf d)"
proof -
  obtain i p name q val r where p: "readVarInt n (d_buf d) = Inr (i, p)"
    "readName d (emitEnabled d \<or> it = indexedTrue) i p = Inr (name, q)"
    "readString d q (emitEnabled d \<or> it = indexedTrue) = Inr (val, r)" and "d_buf d' = r"
    using assms
    by (auto simp: parseFieldLiteral_def Let_def go_result split: sum.splits option.splits dest!: callEmit_buf)
  then show ?thesis
    using readVarInt_suffix [OF p(1)] readName_shorter [OF p(2)] readString_shorter [OF p(3)] by simp
qed

lemma parse_shorter: "parseHeaderFieldRepr d = (None, d') \<Longrightarrow> length (d_buf d') < length (d_buf d)"
  by (auto simp: parseHeaderFieldRepr_def parseFieldIndexed_def parseDynamicTableSizeUpdate_def Let_def
      split: list.splits if_splits sum.splits option.splits
      dest!: callEmit_buf readVarInt_suffix parseFieldLiteral_shorter)

section \<open>Writing to the decoder\<close>

function write_loop :: "nat \<Rightarrow> Decoder \<Rightarrow> nat \<times> hpack_error option \<times> Decoder" where
  \<comment> \<open>the loop of \<open>Write\<close> of \<open>n\<close> octets\<close>
  "write_loop n d =
     (if d_buf d = [] then (n, None, d)
      else
        (case parseHeaderFieldRepr d of
           (None, d) \<Rightarrow> write_loop n d
         | (Some e, d) \<Rightarrow>
             if e = NeedMore then
               if maxStrLen d \<noteq> 0 \<and> int (length (d_buf d)) > sint (word_of_int (2 * (maxStrLen d + 8)) :: 64 word)
               then (0, Some hpack_error.ErrStringLength, d)
               else (n, None, d\<lparr>saveBuf := saveBuf d @ d_buf d\<rparr>)
             else (n, Some e, d)))"
  by auto
termination
  by (relation "measure (\<lambda>(n, d). length (d_buf d))") (use parse_shorter in \<open>auto dest: sym\<close>)

declare write_loop.simps [simp del]

definition Decoder_Write :: "Decoder \<Rightarrow> octets \<Rightarrow> nat \<times> hpack_error option \<times> Decoder" where
  "Decoder_Write d p =
     (if p = [] then (0, None, d)
      else
        let d = (if saveBuf d = [] then d\<lparr>d_buf := p\<rparr> else d\<lparr>d_buf := saveBuf d @ p, saveBuf := []\<rparr>) in
        write_loop (length p) d)"

definition Decoder_Close :: "Decoder \<Rightarrow> hpack_error option \<times> Decoder" where
  "Decoder_Close d = (if saveBuf d \<noteq> [] then (Some TruncatedHeaders, d\<lparr>saveBuf := []\<rparr>) else (None, d))"

definition DecodeFull :: "Decoder \<Rightarrow> octets \<Rightarrow> (hpack_error + HeaderField list) \<times> Decoder" where
  \<comment> \<open>the callback collects the fields of the block and is then put back\<close>
  "DecodeFull d p =
     (case Decoder_Write (d\<lparr>emitted := []\<rparr>) p of
        (n, Some e, d') \<Rightarrow> (Inl e, d'\<lparr>emitted := emitted d\<rparr>)
      | (n, None, d') \<Rightarrow>
          (case Decoder_Close d' of
             (Some e, d') \<Rightarrow> (Inl e, d'\<lparr>emitted := emitted d\<rparr>)
           | (None, d') \<Rightarrow> (Inr (emitted d'), d'\<lparr>emitted := emitted d\<rparr>)))"

section \<open>Strings survive the wire\<close>

lemma AppendHuffmanString_append: "AppendHuffmanString dst s = dst @ AppendHuffmanString [] s"
  by (simp flip: octet_bits_inj add: AppendHuffmanString_bits)

definition string_octets :: "octets \<Rightarrow> octets" where
  "string_octets s = appendHpackString [] s"

lemma appendHpackString_octets: "appendHpackString dst s = dst @ string_octets s"
proof -
  have "or_at (AppendHuffmanString (appendVarInt dst 7 i) s) (length dst) 0x80 =
      dst @ varint_octets 7 0x80 i @ AppendHuffmanString [] s" for dst i
    by (subst AppendHuffmanString_append) (rule or_at_varint)
  from this [of dst] this [of "[]"] show ?thesis
    by (simp add: string_octets_def appendHpackString_def Let_def appendVarInt_append [of dst])
qed

lemma string_octets_cases:
  "string_octets s =
     (if HuffmanEncodeLength s < word_of_nat (length s)
      then varint_octets 7 0x80 (HuffmanEncodeLength s) @ AppendHuffmanString [] s
      else varint_octets 7 0 (word_of_nat (length s)) @ s)"
  using or_at_varint [of "[]" 7 "HuffmanEncodeLength s" "AppendHuffmanString [] s" "0x80"]
  by (simp add: string_octets_def appendHpackString_def Let_def varint_octets_0
      AppendHuffmanString_append [of "appendVarInt _ _ _"])

lemma varint_first:
  assumes "n \<le> 8"
  obtains b bs where "varint_octets n flag i = b # bs" "drop_bit n b = drop_bit n flag"
proof -
  have *: "drop_bit n (ucast (m :: 64 word) OR flag) = drop_bit n flag" if "m \<le> mask n" for m
  proof -
    have "unat m < 2 ^ n" using that unat_mask [of n, where 'a = 64] assms by (simp add: word_le_nat_alt le_diff_conv2 Suc_le_eq [symmetric])
    then have "\<not> bit m (n + k)" for k using bit_small [of m "n + k" n] by auto
    then show ?thesis by (intro bit_word_eqI) (auto simp: bit_simps)
  qed
  show thesis
  proof (cases "i < mask n")
    case True
    then show thesis
      using that [of "ucast i OR flag" "[]"] * [of i]
      by (simp add: varint_octets_def appendVarInt_def prefix_max_mask or_at_def)
  next
    case False
    then show thesis
      using that [of "ucast (mask n :: 64 word) OR flag" "varint_groups (i - mask n)"] * [of "mask n"]
      by (simp add: varint_octets_def appendVarInt_def prefix_max_mask or_at_def Let_def)
  qed
qed

lemma varint_not_Nil [simp]: "varint_octets n flag i \<noteq> []"
  by (simp add: varint_octets_def or_at_def)

lemma high_bits: "drop_bit n b = drop_bit n flag \<Longrightarrow> take_bit n c = 0 \<Longrightarrow> b AND c = flag AND c" for b flag c :: "8 word"
proof (rule bit_word_eqI)
  fix k assume e: "drop_bit n b = drop_bit n flag" and z: "take_bit n c = 0"
  show "bit (b AND c) k = bit (flag AND c) k"
  proof (cases "k < n")
    case True
    then have "\<not> bit c k" using arg_cong [OF z, of "\<lambda>w. bit w k"] by (simp add: bit_simps)
    then show ?thesis by (simp add: bit_simps)
  next
    case False
    then have "bit b k = bit flag k" using arg_cong [OF e, of "\<lambda>w. bit w (k - n)"] by (simp add: bit_simps)
    then show ?thesis by (simp add: bit_simps)
  qed
qed

definition string_fits :: "Decoder \<Rightarrow> octets \<Rightarrow> bool" where
  "string_fits d s \<longleftrightarrow> length s < 2 ^ 32 \<and> 0 \<le> maxStrLen d \<and> maxStrLen d < 2 ^ 63 \<and>
     (maxStrLen d = 0 \<or> int (length s) \<le> maxStrLen d)"

lemma length_ok:
  assumes "string_fits d s" "n \<le> length s"
  shows "\<not> (maxStrLen d \<noteq> 0 \<and> word_of_int (maxStrLen d) < (word_of_nat n :: 64 word))"
    "unat (word_of_nat n :: 64 word) = n" "n < 2 ^ 63"
proof -
  show n: "n < 2 ^ 63" using assms by (simp add: string_fits_def)
  then show u: "unat (word_of_nat n :: 64 word) = n" by (simp add: unat_of_nat)
  have "uint (word_of_int (maxStrLen d) :: 64 word) = maxStrLen d"
    using assms(1) by (simp add: string_fits_def unsigned_of_int take_bit_int_eq_self)
  moreover have "uint (word_of_nat n :: 64 word) = int n" using u by (metis of_nat_unat)
  ultimately show "\<not> (maxStrLen d \<noteq> 0 \<and> word_of_int (maxStrLen d) < (word_of_nat n :: 64 word))"
    using assms by (auto simp: string_fits_def word_less_def)
qed

lemma readString_octets:
  assumes "string_fits d s" "length rest < 2 ^ 63"
  shows "readString d (string_octets s @ rest) True = Inr (s, rest)"
proof -
  let ?h = "HuffmanEncodeLength s" and ?hs = "AppendHuffmanString [] s"
  have h: "unat ?h = length ?hs" using assms(1) by (intro HuffmanEncodeLength_length) (simp add: string_fits_def)
  have hw: "?h = word_of_nat (length ?hs)" by (simp flip: h)
  show ?thesis
  proof (cases "?h < word_of_nat (length s)")
    case True
    have ls: "unat (word_of_nat (length s) :: 64 word) = length s" using length_ok(2) [OF assms(1) order_refl] .
    have le: "length ?hs \<le> length s" using True h ls by (simp add: word_less_nat_alt)
    note ok = length_ok [OF assms(1) le]
    obtain b bs where b: "varint_octets 7 0x80 ?h = b # bs" "drop_bit 7 b = drop_bit 7 0x80" using varint_first [of 7 "0x80" ?h] by auto
    have "b AND 128 \<noteq> 0" using high_bits [OF b(2), of 128] by simp
    moreover have "readVarInt 7 (varint_octets 7 0x80 ?h @ ?hs @ rest) = Inr (?h, ?hs @ rest)"
      using readVarInt_octets [of 7 "0x80" ?h "?hs @ rest"] h ok(3) by simp
    moreover have "\<not> word_of_nat (length (?hs @ rest)) < ?h"
      using ok(3) assms(2) h by (simp add: word_less_nat_alt unat_word_ariths unat_of_nat)
    moreover have "huffmanDecode (maxStrLen d) ?hs = Inr s"
      using assms(1) by (auto simp: huffmanDecode_iff within_def string_fits_def)
    ultimately show ?thesis
      using ok(1) True h b(1) by (simp add: readString_def string_octets_cases hw [symmetric] Let_def)
  next
    case False
    note ok = length_ok [OF assms(1) order_refl]
    obtain b bs where b: "varint_octets 7 0 (word_of_nat (length s)) = b # bs" "drop_bit 7 b = drop_bit 7 0"
      using varint_first [of 7 0 "word_of_nat (length s)"] by auto
    have "b AND 128 = 0" using high_bits [OF b(2), of 128] by simp
    moreover have "readVarInt 7 (varint_octets 7 0 (word_of_nat (length s)) @ s @ rest) = Inr (word_of_nat (length s), s @ rest)"
      using readVarInt_octets [of 7 0 "word_of_nat (length s)" "s @ rest"] ok(2,3) by simp
    moreover have "\<not> word_of_nat (length (s @ rest)) < (word_of_nat (length s) :: 64 word)"
      using ok(2,3) assms(2) by (simp add: word_less_nat_alt unat_word_ariths unat_of_nat)
    ultimately show ?thesis
      using ok(1,2) False b(1) by (simp add: readString_def string_octets_cases Let_def)
  qed
qed

section \<open>What the encoder finds, the decoder finds\<close>

definition synced :: "Encoder \<Rightarrow> Decoder \<Rightarrow> bool" where
  "synced e d \<longleftrightarrow> dyn_ok (e_dynTab e) \<and> dyn_ok (d_dynTab d) \<and> \<not> tableSizeUpdate e \<and>
     ents (table (d_dynTab d)) = ents (table (e_dynTab e)) \<and> maxSize (d_dynTab d) = maxSize (e_dynTab e)"

lemma dyn_ok_length: "dyn_ok dt \<Longrightarrow> length (ents (table dt)) < 2 ^ 32"
proof -
  assume ok: "dyn_ok dt"
  have "length fs \<le> total_size fs" for fs by (induction fs) (simp_all add: entry_size_def)
  from this [of "ents (table dt)"] show ?thesis
    using ok unsigned_less [of "dt_size dt", where 'a = nat] by (simp add: dyn_ok_def)
qed

lemma search_hit:
  assumes "table_ok t" "search st t f = Some (i, match)"
  shows "(\<exists>k < length (ents t). i = position st t k \<and> Name (ents t ! k) = Name f \<and>
      (match \<longrightarrow> Value (ents t ! k) = Value f \<and> \<not> Sensitive f)) \<or> (i = 0 \<and> \<not> match)"
  using assms(2) unfolding search_newest [OF assms(1)]
  by (auto split: option.splits if_splits dest!: last_index_Some)

lemma search_total:
  assumes "table_ok t"
  obtains i m where "search st t f = Some (i, m)"
proof -
  obtain r where "search st t f = Some r" using search_newest [OF assms, of st f] by blast
  then show thesis using that by (cases r) simp
qed

lemma at_static:
  assumes "k < 61"
  shows "at_index d (position True staticTable k) = Some (ents staticTable ! k)" "unat (position True staticTable k) = k + 1"
proof -
  show u: "unat (position True staticTable k) = k + 1" using assms by (simp only: position_def if_True) (simp add: unat_word_ariths unat_of_nat)
  then have "position True staticTable k \<noteq> 0" by auto
  then show "at_index d (position True staticTable k) = Some (ents staticTable ! k)"
    using u assms by (simp add: at_index_def staticTable_ok length_staticTableEntries word_le_nat_alt)
qed

lemma at_dynamic:
  assumes "dyn_ok (d_dynTab d)" "k < length (ents (table (d_dynTab d)))"
  shows "at_index d (position False (table (d_dynTab d)) k + 61) = Some (ents (table (d_dynTab d)) ! k)"
    "unat (position False (table (d_dynTab d)) k + 61) = length (ents (table (d_dynTab d))) - k + 61"
    "position False (table (d_dynTab d)) k \<noteq> 0"
proof -
  let ?n = "length (ents (table (d_dynTab d)))"
  have n: "?n < 2 ^ 32" by (rule dyn_ok_length [OF assms(1)])
  have p: "unat (position False (table (d_dynTab d)) k) = ?n - k"
    using n by (simp only: position_def if_False) (simp add: unat_of_nat)
  then show u: "unat (position False (table (d_dynTab d)) k + 61) = ?n - k + 61" using n by (simp add: unat_word_ariths)
  show "position False (table (d_dynTab d)) k \<noteq> 0" using p assms(2) by auto
  have "unat (word_of_nat (maxTableIndex d) :: 64 word) = ?n + 61"
    using n by (simp add: maxTableIndex_def staticTable_ok length_staticTableEntries unat_word_ariths unat_of_nat)
  then have "position False (table (d_dynTab d)) k + 61 \<noteq> 0" "\<not> position False (table (d_dynTab d)) k + 61 \<le> 61"
    "\<not> word_of_nat (maxTableIndex d) < position False (table (d_dynTab d)) k + 61"
    using u assms(2) by (auto simp: word_le_nat_alt word_less_nat_alt)
  then show "at_index d (position False (table (d_dynTab d)) k + 61) = Some (ents (table (d_dynTab d)) ! k)"
    using u assms(2) by (simp add: at_index_def staticTable_ok length_staticTableEntries Let_def)
qed

lemma searchTable_at:
  assumes "synced e d"
  obtains idx match where "searchTable e f = Some (idx, match)" "unat idx < 2 ^ 33"
    "idx \<noteq> 0 \<Longrightarrow> \<exists>hf. at_index d idx = Some hf \<and> Name hf = Name f \<and> (match \<longrightarrow> Value hf = Value f)"
    "match \<Longrightarrow> idx \<noteq> 0 \<and> \<not> Sensitive f"
proof -
  let ?t = "table (e_dynTab e)"
  have t: "table_ok ?t" and ed: "ents (table (d_dynTab d)) = ents ?t" using assms by (simp_all add: synced_def dyn_ok_def)
  have dok: "dyn_ok (d_dynTab d)" using assms by (simp only: synced_def)
  obtain i m where i: "search True staticTable f = Some (i, m)" by (rule search_total [OF staticTable_ok(1)])
  obtain j m2 where j: "search False ?t f = Some (j, m2)" by (rule search_total [OF t])
  have pos: "position False ?t k = position False (table (d_dynTab d)) k" for k by (simp add: position_def ed)
  have len: "length (ents ?t) < 2 ^ 32" using dyn_ok_length [OF dok] ed by simp
  have static: "i \<noteq> 0 \<Longrightarrow> unat i < 2 ^ 33 \<and> (\<exists>hf. at_index d i = Some hf \<and> Name hf = Name f \<and> (m \<longrightarrow> Value hf = Value f))"
      "m \<Longrightarrow> i \<noteq> 0 \<and> \<not> Sensitive f"
  proof -
    consider k where "k < 61" "i = position True staticTable k" "Name (ents staticTable ! k) = Name f"
        "m \<longrightarrow> Value (ents staticTable ! k) = Value f \<and> \<not> Sensitive f" | "i = 0" "\<not> m"
      using search_hit [OF staticTable_ok(1) i] by (auto simp: staticTable_ok length_staticTableEntries)
    then have "(i \<noteq> 0 \<longrightarrow> unat i < 2 ^ 33 \<and> (\<exists>hf. at_index d i = Some hf \<and> Name hf = Name f \<and> (m \<longrightarrow> Value hf = Value f))) \<and>
        (m \<longrightarrow> i \<noteq> 0 \<and> \<not> Sensitive f)"
    proof cases
      case (1 k)
      then have "unat i = k + 1" "at_index d i = Some (ents staticTable ! k)" using at_static(1) [of k d] at_static(2) [of k] by auto
      moreover from this(1) have "i \<noteq> 0" by auto
      ultimately show ?thesis using 1 by auto
    qed simp
    then show "i \<noteq> 0 \<Longrightarrow> unat i < 2 ^ 33 \<and> (\<exists>hf. at_index d i = Some hf \<and> Name hf = Name f \<and> (m \<longrightarrow> Value hf = Value f))"
      "m \<Longrightarrow> i \<noteq> 0 \<and> \<not> Sensitive f" by blast+
  qed
  have dyn: "(j \<noteq> 0 \<longrightarrow> unat (j + 61) < 2 ^ 33 \<and> j + 61 \<noteq> 0 \<and>
      (\<exists>hf. at_index d (j + 61) = Some hf \<and> Name hf = Name f \<and> (m2 \<longrightarrow> Value hf = Value f))) \<and> (m2 \<longrightarrow> j \<noteq> 0 \<and> \<not> Sensitive f)"
  proof -
    consider k where "k < length (ents ?t)" "j = position False ?t k" "Name (ents ?t ! k) = Name f"
        "m2 \<longrightarrow> Value (ents ?t ! k) = Value f \<and> \<not> Sensitive f" | "j = 0" "\<not> m2"
      using search_hit [OF t j] by auto
    then show ?thesis
    proof cases
      case (1 k)
      then have "unat (j + 61) = length (ents ?t) - k + 61" "at_index d (j + 61) = Some (ents ?t ! k)" "j \<noteq> 0"
        using at_dynamic [OF dok, of k] ed by (simp_all add: pos)
      moreover from this(1) have "j + 61 \<noteq> 0" by auto
      ultimately show ?thesis using 1 len by auto
    qed simp
  qed
  show thesis
  proof (cases "m \<or> \<not> (m2 \<or> (i = 0 \<and> j \<noteq> 0))")
    case True
    show thesis
    proof (rule that)
      show "searchTable e f = Some (i, m)" using True i j by (auto simp: searchTable_def)
      show "unat i < 2 ^ 33" using static(1) by (cases "i = 0") auto
    qed (use static in auto)
  next
    case False
    show thesis
    proof (rule that)
      show "searchTable e f = Some (j + 61, m2)"
        using False i j by (auto simp: searchTable_def staticTable_ok length_staticTableEntries)
    qed (use dyn False in auto)
  qed
qed

section \<open>A field survives the wire\<close>

lemma length_varint_groups: "length (varint_groups i) \<le> unat i + 1"
proof (induction i rule: varint_groups.induct)
  case (1 i)
  show ?case
  proof (cases "128 \<le> i")
    case True
    then have "128 \<le> unat i" by (simp add: word_le_nat_alt)
    then show ?thesis using 1 [OF True] True by (subst varint_groups.simps) (simp add: unat_drop_bit_7)
  qed (subst varint_groups.simps, simp)
qed

lemma length_varint_octets: "length (varint_octets n flag i) \<le> unat i + 2"
proof -
  have "unat (i - mask n) \<le> unat i" if "\<not> i < mask n" using that by (simp add: unat_sub not_less)
  with length_varint_groups [of "i - mask n"] show ?thesis
    by (auto simp: varint_octets_def appendVarInt_def prefix_max_mask or_at_def Let_def)
qed

lemma length_string_octets: "length s < 2 ^ 32 \<Longrightarrow> length (string_octets s) < 2 ^ 34"
proof -
  assume s: "length s < 2 ^ 32"
  have u: "unat (word_of_nat (length s) :: 64 word) = length s" using s by (simp add: unat_of_nat)
  have h: "unat (HuffmanEncodeLength s) = length (AppendHuffmanString [] s)" using s by (intro HuffmanEncodeLength_length) simp
  show ?thesis
    using length_varint_octets [of 7 "0x80" "HuffmanEncodeLength s"] length_varint_octets [of 7 0 "word_of_nat (length s)"] s u h
    by (simp add: string_octets_cases word_less_nat_alt)
qed

definition field_fits :: "Decoder \<Rightarrow> HeaderField \<Rightarrow> bool" where
  "field_fits d f \<longleftrightarrow> string_fits d (Name f) \<and> string_fits d (Value f)"

lemma callEmit_fits:
  "field_fits d f \<Longrightarrow> emitEnabled d \<Longrightarrow> callEmit f d = (None, d\<lparr>emitted := emitted d @ [f]\<rparr>)"
  by (auto simp: callEmit_def field_fits_def string_fits_def)

definition literal_form :: "bool \<Rightarrow> bool \<Rightarrow> nat \<times> 8 word \<times> indexType" where
  "literal_form indexing sensitive =
     (if indexing then (6, 0x40, indexedTrue) else if sensitive then (4, 0x10, indexedNever) else (4, 0, indexedFalse))"

lemma parse_literal_dispatch:
  assumes "literal_form indexing sensitive = (n, flag, it)" "d_buf d = varint_octets n flag i @ p"
  shows "parseHeaderFieldRepr d = parseFieldLiteral n it d"
proof -
  obtain b bs where b: "varint_octets n flag i = b # bs" "drop_bit n b = drop_bit n flag"
    using varint_first [of n flag i] assms(1) by (auto simp: literal_form_def split: if_splits)
  note hi = high_bits [OF b(2)]
  show ?thesis
    using assms hi [of 128] hi [of 192] hi [of 240] b(1)
    by (auto simp: parseHeaderFieldRepr_def literal_form_def split: if_splits)
qed

lemma parse_indexed_dispatch:
  assumes "d_buf d = varint_octets 7 0x80 i @ p"
  shows "parseHeaderFieldRepr d = parseFieldIndexed d"
proof -
  obtain b bs where b: "varint_octets 7 0x80 i = b # bs" "drop_bit 7 b = drop_bit 7 0x80"
    using varint_first [of 7 "0x80" i] by auto
  show ?thesis using assms high_bits [OF b(2), of 128] b(1) by (simp add: parseHeaderFieldRepr_def)
qed

lemma parse_size_dispatch:
  assumes "d_buf d = varint_octets 5 0x20 i @ p"
  shows "parseHeaderFieldRepr d = parseDynamicTableSizeUpdate d"
proof -
  obtain b bs where b: "varint_octets 5 0x20 i = b # bs" "drop_bit 5 b = drop_bit 5 0x20"
    using varint_first [of 5 "0x20" i] by auto
  note hi = high_bits [OF b(2)]
  have x: "(b AND 240) AND 224 = 32" using hi [of 224] by (simp add: and.assoc)
  have "b AND 240 \<noteq> v" if "v AND 224 \<noteq> 32" for v using x that by blast
  from this [of 0] this [of 16] show ?thesis using assms hi [of 128] hi [of 192] hi [of 224] b(1) by (simp add: parseHeaderFieldRepr_def)
qed

lemma field_eta:
  "Sensitive f = s \<Longrightarrow> \<lparr>Name = Name f, Value = Value f, Sensitive = s\<rparr> = f"
  "Sensitive f = s \<Longrightarrow> f\<lparr>Sensitive := s\<rparr> = f" for f :: HeaderField
  by (cases f, simp)+

lemma parseFieldLiteral_octets:
  assumes "literal_form indexing (Sensitive f) = (n, flag, it)" "indexing \<longrightarrow> \<not> Sensitive f"
    "d_buf d = varint_octets n flag idx @ (if idx = 0 then string_octets (Name f) else []) @ string_octets (Value f) @ rest"
    "field_fits d f" "emitEnabled d" "length rest < 2 ^ 62" "unat idx < 2 ^ 33"
    "idx \<noteq> 0 \<Longrightarrow> \<exists>hf. at_index d idx = Some hf \<and> Name hf = Name f"
    "(if indexing then dyn_add (d_dynTab d) f else Some (d_dynTab d)) = Some dt"
  shows "parseFieldLiteral n it d = (None, d\<lparr>d_buf := rest, d_dynTab := dt, emitted := emitted d @ [f]\<rparr>)"
proof -
  let ?v = "string_octets (Value f) @ rest"
  have n: "1 \<le> n" "n \<le> 8" "take_bit n flag = 0" "(it = indexedTrue) = indexing" "(it = indexedNever) = Sensitive f"
    using assms(1,2) by (auto simp: literal_form_def split: if_splits)
  have i: "readVarInt n (d_buf d) = Inr (idx, (if idx = 0 then string_octets (Name f) else []) @ ?v)"
    using readVarInt_octets [OF n(1-3), of idx "(if idx = 0 then string_octets (Name f) else []) @ ?v"] assms(7)
    by (simp add: assms(3))
  have fits: "string_fits d (Name f)" "string_fits d (Value f)" using assms(4) by (simp_all add: field_fits_def)
  have "length ?v < 2 ^ 63"
    using length_string_octets [of "Value f"] fits(2) assms(6) by (simp add: string_fits_def)
  then have "readName d True idx ((if idx = 0 then string_octets (Name f) else []) @ ?v) = Inr (Name f, ?v)"
    using assms(8) readString_octets [OF fits(1), of ?v] by (auto simp: readName_def word_gt_0)
  moreover have "readString d ?v True = Inr (Value f, rest)"
    using readString_octets [OF fits(2), of rest] assms(6) by simp
  moreover have "field_fits (d\<lparr>d_buf := rest, d_dynTab := dt\<rparr>) f" using assms(4) by (simp add: field_fits_def string_fits_def)
  ultimately show ?thesis
    using assms(5,9) i n(4,5) callEmit_fits [of "d\<lparr>d_buf := rest, d_dynTab := dt\<rparr>" f]
    assms(2) by (cases indexing; cases "Sensitive f") (auto simp: parseFieldLiteral_def Let_def field_eta)
qed

lemma parseFieldIndexed_octets:
  assumes "d_buf d = varint_octets 7 0x80 idx @ rest" "field_fits d f" "emitEnabled d" "unat idx < 2 ^ 33"
    "at_index d idx = Some hf" "Name hf = Name f" "Value hf = Value f" "\<not> Sensitive f"
  shows "parseFieldIndexed d = (None, d\<lparr>d_buf := rest, emitted := emitted d @ [f]\<rparr>)"
proof -
  have "readVarInt 7 (d_buf d) = Inr (idx, rest)"
    using readVarInt_octets [of 7 "0x80" idx rest] assms(1,4) by simp
  moreover have "\<lparr>Name = Name f, Value = Value f, Sensitive = False\<rparr> = f" using assms(8) by (cases f) simp
  moreover have "field_fits (d\<lparr>d_buf := rest\<rparr>) f" using assms(2) by (simp add: field_fits_def string_fits_def)
  ultimately show ?thesis
    using assms(3,5,6,7) callEmit_fits [of "d\<lparr>d_buf := rest\<rparr>" f] by (simp add: parseFieldIndexed_def)
qed

lemma appendNewName_octets:
  assumes "literal_form indexing (Sensitive f) = (n, flag, it)" "indexing \<longrightarrow> \<not> Sensitive f"
  shows "appendNewName [] f indexing = varint_octets n flag 0 @ string_octets (Name f) @ string_octets (Value f)"
    "appendIndexedName [] f i indexing = varint_octets n flag i @ string_octets (Value f)"
proof -
  have f: "encodeTypeByte indexing (Sensitive f) = flag" "n = (if indexing then 6 else 4)"
    using assms by (auto simp: literal_form_def encodeTypeByte_def split: if_splits)
  have "varint_octets n flag 0 = [flag]"
    using f(2) by (simp add: varint_octets_def appendVarInt_def or_at_def prefix_max_def)
  then show "appendNewName [] f indexing = varint_octets n flag 0 @ string_octets (Name f) @ string_octets (Value f)"
    by (simp add: appendNewName_def appendHpackString_octets f)
  show "appendIndexedName [] f i indexing = varint_octets n flag i @ string_octets (Value f)"
    using or_at_varint [of "[]" n i "[]" flag] f(2)
    by (simp add: appendIndexedName_def appendHpackString_octets f Let_def)
qed

definition field_room :: "dynamicTable \<Rightarrow> HeaderField list \<Rightarrow> bool" where
  \<comment> \<open>neither the unique ids nor the size of the table overflow while the fields are added\<close>
  "field_room dt fs \<longleftrightarrow> unat (evictCount (table dt)) + length (ents (table dt)) + length fs < 2 ^ 64 \<and>
     (\<forall>f \<in> set fs. unat (maxSize dt) + entry_size f < 2 ^ 32)"

lemma field_room_add:
  assumes "dyn_ok dt" "field_room dt (f # fs)"
  shows "\<exists>dt'. dyn_add dt f = Some dt' \<and> dyn_ok dt' \<and> ents (table dt') = retain (unat (maxSize dt)) (ents (table dt) @ [f]) \<and>
    maxSize dt' = maxSize dt \<and> allowedMaxSize dt' = allowedMaxSize dt \<and> field_room dt' fs"
proof -
  have "unat (dt_size dt) \<le> unat (maxSize dt)" using assms(1) by (simp add: dyn_ok_def word_le_nat_alt)
  then have "dyn_room dt f" using assms(2) by (auto simp: dyn_room_def field_room_def)
  from dyn_add_ok [OF assms(1) this] assms(2) show ?thesis by (auto simp: field_room_def)
qed

lemma field_room_tl: "field_room dt (f # fs) \<Longrightarrow> field_room dt fs"
  by (simp add: field_room_def)

definition carries_on :: "Decoder \<Rightarrow> Decoder \<Rightarrow> bool" where
  "carries_on d d' \<longleftrightarrow> emitEnabled d' = emitEnabled d \<and> maxStrLen d' = maxStrLen d \<and> saveBuf d' = saveBuf d"

lemma synced_add:
  assumes "synced e d" "field_room (e_dynTab e) (f # fs)" "field_room (d_dynTab d) (f # fs)"
  obtains dte dtd where "(if indexing then dyn_add (e_dynTab e) f else Some (e_dynTab e)) = Some dte"
    "(if indexing then dyn_add (d_dynTab d) f else Some (d_dynTab d)) = Some dtd"
    "\<And>em b. synced (e\<lparr>e_dynTab := dte\<rparr>) (d\<lparr>d_buf := b, d_dynTab := dtd, emitted := em\<rparr>)"
    "field_room dte fs" "field_room dtd fs"
proof (cases indexing)
  case True
  have ok: "dyn_ok (e_dynTab e)" "dyn_ok (d_dynTab d)" using assms(1) by (simp_all only: synced_def)
  obtain dte where e: "dyn_add (e_dynTab e) f = Some dte" "dyn_ok dte" "ents (table dte) = retain (unat (maxSize (e_dynTab e))) (ents (table (e_dynTab e)) @ [f])"
    "maxSize dte = maxSize (e_dynTab e)" "field_room dte fs" using field_room_add [OF ok(1) assms(2)] by blast
  obtain dtd where d: "dyn_add (d_dynTab d) f = Some dtd" "dyn_ok dtd" "ents (table dtd) = retain (unat (maxSize (d_dynTab d))) (ents (table (d_dynTab d)) @ [f])"
    "maxSize dtd = maxSize (d_dynTab d)" "field_room dtd fs" using field_room_add [OF ok(2) assms(3)] by blast
  show thesis by (rule that [of dte dtd]) (use True e d assms(1) in \<open>simp_all add: synced_def\<close>)
next
  case False
  show thesis
    by (rule that [of "e_dynTab e" "d_dynTab d"]) (use False assms field_room_tl in \<open>auto simp: synced_def\<close>)
qed

lemma WriteField_parse:
  assumes "synced e d" "field_fits d f" "emitEnabled d" "length rest < 2 ^ 62"
    "field_room (e_dynTab e) (f # fs)" "field_room (d_dynTab d) (f # fs)"
  shows "\<exists>out e' w d'. WriteField wr e f = Some (out, e', w) \<and> out \<noteq> [] \<and>
    parseHeaderFieldRepr (d\<lparr>d_buf := out @ rest\<rparr>) = (None, d') \<and> d_buf d' = rest \<and> emitted d' = emitted d @ [f] \<and>
    carries_on d d' \<and> synced e' d' \<and> field_room (e_dynTab e') fs \<and> field_room (d_dynTab d') fs"
proof -
  have su: "size_updates e = ([], e)" using assms(1) by (simp add: size_updates_def synced_def)
  obtain idx match where s: "searchTable e f = Some (idx, match)" "unat idx < 2 ^ 33"
    "idx \<noteq> 0 \<Longrightarrow> \<exists>hf. at_index d idx = Some hf \<and> Name hf = Name f \<and> (match \<longrightarrow> Value hf = Value f)"
    "match \<Longrightarrow> idx \<noteq> 0 \<and> \<not> Sensitive f"
    using searchTable_at [OF assms(1), of f] by blast
  have at: "at_index (d\<lparr>d_buf := b\<rparr>) i = at_index d i" for b i by (simp add: at_index_def maxTableIndex_def)
  have fits: "field_fits (d\<lparr>d_buf := b\<rparr>) f" for b using assms(2) by (simp add: field_fits_def string_fits_def)
  show ?thesis
  proof (cases match)
    case True
    let ?out = "varint_octets 7 0x80 idx"
    have o: "appendIndexed [] idx = ?out" using or_at_varint [of "[]" 7 idx "[]" "0x80"] by (simp add: appendIndexed_def)
    obtain w where "WriteField wr e f = Some (?out, e, w)" using True s(1) by (auto simp: WriteField_def su o)
    moreover have "parseHeaderFieldRepr (d\<lparr>d_buf := ?out @ rest\<rparr>) = (None, d\<lparr>d_buf := rest, emitted := emitted d @ [f]\<rparr>)"
      using s True parse_indexed_dispatch [of "d\<lparr>d_buf := ?out @ rest\<rparr>" idx rest]
        parseFieldIndexed_octets [of "d\<lparr>d_buf := ?out @ rest\<rparr>" idx rest f] fits assms(3) at by fastforce
    moreover have "?out \<noteq> []" by simp
    ultimately show ?thesis
      using assms(1,5,6) field_room_tl
      by (intro exI [of _ ?out] exI [of _ e] exI [of _ w] exI [of _ "d\<lparr>d_buf := rest, emitted := emitted d @ [f]\<rparr>"] conjI)
        (auto simp: synced_def carries_on_def)
  next
    case False
    define indexing where "indexing = shouldIndex e f"
    have ns: "indexing \<longrightarrow> \<not> Sensitive f" by (simp add: indexing_def shouldIndex_def)
    obtain n flag it where l: "literal_form indexing (Sensitive f) = (n, flag, it)" using prod_cases3 by blast
    obtain dte dtd where a: "(if indexing then dyn_add (e_dynTab e) f else Some (e_dynTab e)) = Some dte"
        "(if indexing then dyn_add (d_dynTab d) f else Some (d_dynTab d)) = Some dtd"
        "\<And>em b. synced (e\<lparr>e_dynTab := dte\<rparr>) (d\<lparr>d_buf := b, d_dynTab := dtd, emitted := em\<rparr>)"
        "field_room dte fs" "field_room dtd fs"
      using synced_add [OF assms(1,5,6), where indexing = indexing] by blast
    let ?out = "varint_octets n flag idx @ (if idx = 0 then string_octets (Name f) else []) @ string_octets (Value f)"
    have "(if idx = 0 then appendNewName [] f indexing else appendIndexedName [] f idx indexing) = ?out"
      by (simp add: appendNewName_octets [OF l ns])
    then obtain w where "WriteField wr e f = Some (?out, e\<lparr>e_dynTab := dte\<rparr>, w)"
      using False s(1) a(1) by (auto simp: WriteField_def su indexing_def [symmetric] Let_def)
    moreover have "parseHeaderFieldRepr (d\<lparr>d_buf := ?out @ rest\<rparr>) = (None, d\<lparr>d_buf := rest, d_dynTab := dtd, emitted := emitted d @ [f]\<rparr>)"
    proof -
      let ?d = "d\<lparr>d_buf := ?out @ rest\<rparr>"
      have buf: "d_buf ?d = varint_octets n flag idx @ (if idx = 0 then string_octets (Name f) else []) @ string_octets (Value f) @ rest" by simp
      have "parseHeaderFieldRepr ?d = parseFieldLiteral n it ?d" by (rule parse_literal_dispatch [OF l buf])
      also have "\<dots> = (None, ?d\<lparr>d_buf := rest, d_dynTab := dtd, emitted := emitted ?d @ [f]\<rparr>)"
      proof (rule parseFieldLiteral_octets [OF l ns buf fits])
        show "\<exists>hf. at_index ?d idx = Some hf \<and> Name hf = Name f" if "idx \<noteq> 0" using s(3) [OF that] at by auto
      qed (use assms(3,4) s(2) a(2) in \<open>auto split: if_splits\<close>)
      finally show ?thesis by simp
    qed
    moreover have "?out \<noteq> []" by simp
    ultimately show ?thesis
      using a(3,4,5)
      by (intro exI [of _ ?out] exI [of _ "e\<lparr>e_dynTab := dte\<rparr>"] exI [of _ w]
          exI [of _ "d\<lparr>d_buf := rest, d_dynTab := dtd, emitted := emitted d @ [f]\<rparr>"] conjI) (auto simp: carries_on_def)
  qed
qed

section \<open>Header blocks survive the wire\<close>

fun write_fields :: "(octets \<Rightarrow> nat \<times> 'e option) \<Rightarrow> Encoder \<Rightarrow> HeaderField list \<Rightarrow> (octets \<times> Encoder) option" where
  \<comment> \<open>a header block: what a run of \<open>WriteField\<close> writes\<close>
  "write_fields wr e [] = Some ([], e)"
| "write_fields wr e (f # fs) =
     Option.bind (WriteField wr e f) (\<lambda>(out, e, _). map_option (\<lambda>(outs, e). (out @ outs, e)) (write_fields wr e fs))"

lemma fields_fit_carries: "carries_on d d' \<Longrightarrow> field_fits d f \<Longrightarrow> field_fits d' f"
  by (simp add: carries_on_def field_fits_def string_fits_def)

lemma write_fields_loop:
  assumes "synced e d" "\<forall>f \<in> set fs. field_fits d f" "emitEnabled d" "field_room (e_dynTab e) fs" "field_room (d_dynTab d) fs"
  shows "\<exists>out e'. write_fields wr e fs = Some (out, e') \<and>
    (length out < 2 ^ 62 \<longrightarrow> (\<exists>d'. write_loop n (d\<lparr>d_buf := out\<rparr>) = (n, None, d') \<and> emitted d' = emitted d @ fs \<and>
       d_buf d' = [] \<and> carries_on d d' \<and> synced e' d'))"
  using assms
proof (induction fs arbitrary: e d)
  case Nil
  have "write_loop n (d\<lparr>d_buf := []\<rparr>) = (n, None, d\<lparr>d_buf := []\<rparr>)" by (subst write_loop.simps) simp
  then show ?case using Nil(1) by (auto simp: carries_on_def synced_def)
next
  case (Cons f fs)
  note step = WriteField_parse [OF Cons.prems(1) _ Cons.prems(3) _ Cons.prems(4,5)]
  have fit: "field_fits d f" using Cons.prems(2) by simp
  obtain out e1 w d1 where 1: "WriteField wr e f = Some (out, e1, w)" "carries_on d d1" "synced e1 d1"
    "field_room (e_dynTab e1) fs" "field_room (d_dynTab d1) fs" using step [of "[]", OF fit] by force
  then have "\<forall>f \<in> set fs. field_fits d1 f" "emitEnabled d1" using Cons.prems(2,3) fields_fit_carries by (auto simp: carries_on_def)
  then obtain outs e2 where 2: "write_fields wr e1 fs = Some (outs, e2)" using Cons.IH [OF 1(3) _ _ 1(4,5)] by blast
  have "\<exists>d'. write_loop n (d\<lparr>d_buf := out @ outs\<rparr>) = (n, None, d') \<and> emitted d' = emitted d @ f # fs \<and>
      d_buf d' = [] \<and> carries_on d d' \<and> synced e2 d'" if l: "length (out @ outs) < 2 ^ 62"
  proof -
    obtain d2 where d2: "out \<noteq> []" "parseHeaderFieldRepr (d\<lparr>d_buf := out @ outs\<rparr>) = (None, d2)" "d_buf d2 = outs"
      "emitted d2 = emitted d @ [f]" "carries_on d d2" "synced e1 d2" "field_room (d_dynTab d2) fs"
      using step [of outs wr, OF fit] 1(1) l by force
    then have "\<forall>f \<in> set fs. field_fits d2 f" "emitEnabled d2" using Cons.prems(2,3) fields_fit_carries by (auto simp: carries_on_def)
    moreover have "d2\<lparr>d_buf := outs\<rparr> = d2" using d2(3) by (cases d2) simp
    ultimately obtain d' where d': "write_loop n d2 = (n, None, d')" "emitted d' = emitted d2 @ fs" "d_buf d' = []"
      "carries_on d2 d'" "synced e2 d'"
      using Cons.IH [OF d2(6) _ _ 1(4) d2(7)] 2 l by force
    have "write_loop n (d\<lparr>d_buf := out @ outs\<rparr>) = write_loop n d2" using d2(1,2) by (subst write_loop.simps) simp
    then show ?thesis using d' d2(4,5) by (auto simp: carries_on_def)
  qed
  then show ?case using 1(1) 2 by auto
qed

text \<open>
  (C9) A header block survives compression. An encoder and a decoder with the same dynamic table write and
  read any list of header fields: the decoder returns exactly the fields that were written, in order
  and with their sensitivity, and both end with the same dynamic table again, so the next block is read as
  well. This needs that no size update is pending, that the decoder has no unfinished block, that
  the strings respect its limit, and that the sizes and the unique ids do not overflow.
\<close>
theorem header_block_roundtrip:
  assumes "synced e d" "saveBuf d = []" "emitEnabled d" "\<forall>f \<in> set fs. field_fits d f"
    "field_room (e_dynTab e) fs" "field_room (d_dynTab d) fs"
  shows "\<exists>out e'. write_fields wr e fs = Some (out, e') \<and>
    (length out < 2 ^ 62 \<longrightarrow> (\<exists>d'. DecodeFull d out = (Inr fs, d') \<and> synced e' d' \<and> saveBuf d' = []))"
proof -
  let ?d = "d\<lparr>emitted := []\<rparr>"
  have "synced e ?d" "\<forall>f \<in> set fs. field_fits ?d f" "emitEnabled ?d" "field_room (d_dynTab ?d) fs"
    using assms by (simp_all add: synced_def field_fits_def string_fits_def)
  then have all: "\<exists>out e'. write_fields wr e fs = Some (out, e') \<and>
    (length out < 2 ^ 62 \<longrightarrow> (\<exists>d'. write_loop n (?d\<lparr>d_buf := out\<rparr>) = (n, None, d') \<and> emitted d' = emitted ?d @ fs \<and>
       d_buf d' = [] \<and> carries_on ?d d' \<and> synced e' d'))" for n
    using write_fields_loop [of e ?d fs wr n] assms(5) by blast
  then obtain out e' where w: "write_fields wr e fs = Some (out, e')" by blast
  have "\<exists>d'. DecodeFull d out = (Inr fs, d') \<and> synced e' d' \<and> saveBuf d' = []" if l: "length out < 2 ^ 62"
  proof -
    obtain d' where d': "write_loop (length out) (?d\<lparr>d_buf := out\<rparr>) = (length out, None, d')" "emitted d' = fs"
      "carries_on ?d d'" "synced e' d'" using all [of "length out"] w l by auto
    have s: "saveBuf d' = []" using d'(3) assms(2) by (simp add: carries_on_def)
    show ?thesis
    proof (cases "out = []")
      case True
      then have "d' = ?d\<lparr>d_buf := []\<rparr>" using d'(1) by (subst (asm) write_loop.simps) simp
      then show ?thesis using True d'(2,4) assms(2) by (simp add: DecodeFull_def Decoder_Write_def Decoder_Close_def synced_def)
    next
      case False
      then show ?thesis using d' s assms(2) by (simp add: DecodeFull_def Decoder_Write_def Decoder_Close_def synced_def)
    qed
  qed
  with w show ?thesis by blast
qed

definition encoder_start :: Encoder where
  "encoder_start = \<lparr>e_dynTab = \<lparr>table = table_init, dt_size = 0, maxSize = 4096, allowedMaxSize = 0\<rparr>,
     minSize = uint32Max, maxSizeLimit = 4096, tableSizeUpdate = False\<rparr>"

definition decoder_start :: Decoder where
  "decoder_start = \<lparr>d_dynTab = \<lparr>table = table_init, dt_size = 0, maxSize = 4096, allowedMaxSize = 4096\<rparr>,
     emitEnabled = True, maxStrLen = 0, d_buf = [], saveBuf = [], emitted = []\<rparr>"

lemma NewEncoder_start: "NewEncoder = Some encoder_start" "NewDecoder 4096 = Some decoder_start"
  by (simp_all add: NewEncoder_def NewDecoder_def new_dyn_eq encoder_start_def decoder_start_def initialHeaderTableSize_def
      setMaxSize_def evict_def evictOldest_def table_init_def)

lemma synced_start: "synced encoder_start decoder_start"
  by (simp add: synced_def encoder_start_def decoder_start_def dyn_ok_new)

definition sample_fields :: "HeaderField list" where
  "sample_fields = [\<lparr>Name = octets_of '':method'', Value = octets_of ''GET'', Sensitive = False\<rparr>,
     \<lparr>Name = [97], Value = [98], Sensitive = False\<rparr>]"

lemma search_sample:
  "search True staticTable \<lparr>Name = octets_of '':method'', Value = octets_of ''GET'', Sensitive = False\<rparr> = Some (2, True)"
  "search True staticTable \<lparr>Name = [97], Value = [98], Sensitive = False\<rparr> = Some (0, False)"
  by (simp_all add: search_newest [OF staticTable_ok(1)] staticTable_ok(2) staticTableEntries_def octets_of_def position_def)

lemma HuffmanEncodeLength_sample: "HuffmanEncodeLength [97] = 1" "HuffmanEncodeLength [98] = 1"
  by (simp_all add: HuffmanEncodeLength_def huffmanCodeLen_def)

lemma write_sample_1:
  "\<exists>w. WriteField wr encoder_start \<lparr>Name = octets_of '':method'', Value = octets_of ''GET'', Sensitive = False\<rparr> =
    Some ([0x82], encoder_start, w)"
proof -
  have "searchTable encoder_start \<lparr>Name = octets_of '':method'', Value = octets_of ''GET'', Sensitive = False\<rparr> = Some (2, True)"
    by (simp add: searchTable_def search_sample)
  moreover have "appendIndexed [] 2 = [0x82]"
    by (simp add: appendIndexed_def appendVarInt_def prefix_max_def or_at_def)
  ultimately show ?thesis
    by (simp add: WriteField_def size_updates_def) (simp add: encoder_start_def)
qed

lemma write_sample_2:
  "\<exists>e' w. WriteField wr encoder_start \<lparr>Name = [97], Value = [98], Sensitive = False\<rparr> = Some ([0x40, 1, 97, 1, 98], e', w)"
proof -
  let ?f = "\<lparr>Name = [97], Value = [98], Sensitive = False\<rparr>"
  have "search False (table (e_dynTab encoder_start)) ?f = Some (0, False)"
    by (simp add: encoder_start_def search_def table_init_def get_def)
  then have "searchTable encoder_start ?f = Some (0, False)" by (simp add: searchTable_def search_sample)
  moreover have "appendNewName [] ?f True = [0x40, 1, 97, 1, 98]"
    by (simp add: appendNewName_def encodeTypeByte_def appendHpackString_def HuffmanEncodeLength_sample appendVarInt_def prefix_max_def)
  moreover have "shouldIndex encoder_start ?f" by (simp add: shouldIndex_def encoder_start_def Size_def)
  moreover obtain dt where "dyn_add (e_dynTab encoder_start) ?f = Some dt"
    using dyn_add_ok [of "e_dynTab encoder_start" ?f] dyn_ok_new [of 4096 0]
    by (auto simp: encoder_start_def dyn_room_def entry_size_def table_init_def)
  moreover have "size_updates encoder_start = ([], encoder_start)" by (simp add: size_updates_def encoder_start_def)
  ultimately show ?thesis by (simp add: WriteField_def Let_def)
qed

lemma write_sample: "\<exists>e'. write_fields wr encoder_start sample_fields = Some ([0x82, 0x40, 1, 97, 1, 98], e')"
  using write_sample_1 [of wr] write_sample_2 [of wr] by (auto simp: sample_fields_def)

lemma sample_fits:
  "\<forall>f \<in> set sample_fields. field_fits decoder_start f"
  "field_room (e_dynTab encoder_start) sample_fields" "field_room (d_dynTab decoder_start) sample_fields"
  by (simp_all add: sample_fields_def field_fits_def string_fits_def decoder_start_def encoder_start_def octets_of_def
      field_room_def entry_size_def table_init_def)

theorem header_block_roundtrip_witness:
  "\<exists>d'. DecodeFull decoder_start [0x82, 0x40, 1, 97, 1, 98] = (Inr sample_fields, d')"
proof -
  obtain e' where e': "write_fields (\<lambda>b. (length b, None :: unit option)) encoder_start sample_fields =
      Some ([0x82, 0x40, 1, 97, 1, 98], e')" using write_sample by blast
  have "saveBuf decoder_start = []" "emitEnabled decoder_start" by (simp_all add: decoder_start_def)
  then show ?thesis
    using header_block_roundtrip [OF synced_start _ _ sample_fits, of "\<lambda>b. (length b, None :: unit option)"] e' by auto
qed

end
