(* ===== verification/HpackStream.thy ===== *)
theory HpackStream
  imports Hpack
begin

text \<open>
  The decoder of HPACK as a stream: what it makes of a header block does not depend on how the
  block is cut into calls of \<open>Write\<close>; and what it makes of the size updates that the encoder writes.
\<close>

section \<open>More input changes nothing that was decided\<close>

abbreviation more_buf :: "octets \<Rightarrow> Decoder \<Rightarrow> Decoder" where
  "more_buf q d \<equiv> d\<lparr>d_buf := d_buf d @ q\<rparr>"

lemma readString_more:
  assumes "readString d p w \<noteq> Inl NeedMore" "length p + length q < 2 ^ 64"
  shows "readString (more_buf q d) (p @ q) w = map_sum id (\<lambda>(s, p'). (s, p' @ q)) (readString d p w)"
proof -
  obtain b bs where p: "p = b # bs" using assms(1) by (cases p) (auto simp: readString_def)
  have v: "readVarInt 7 p \<noteq> Inl NeedMore" using assms(1) by (auto simp: readString_def p)
  note more = readVarInt_more [OF v, of q]
  show ?thesis
  proof (cases "readVarInt 7 p")
    case (Inl e)
    then show ?thesis using more by (simp add: readString_def p Let_def)
  next
    case (Inr r)
    then obtain n p' where r: "readVarInt 7 p = Inr (n, p')" by (cases r) simp
    have len: "length p' < length p" using readVarInt_suffix [OF r] by simp
    have "\<not> word_of_nat (length p') < n \<Longrightarrow> unat n \<le> length p' \<and> \<not> word_of_nat (length (p' @ q)) < n"
      using len assms(2) by (simp add: word_less_nat_alt unat_word_ariths unat_of_nat not_less)
    then show ?thesis
      using assms(1) r more
      by (auto simp: readString_def p Let_def split: if_splits sum.splits)
  qed
qed

lemma at_index_buf [simp]: "at_index (d\<lparr>d_buf := b\<rparr>) i = at_index d i"
  by (simp add: at_index_def maxTableIndex_def)

lemma readString_buf [simp]: "readString (d\<lparr>d_buf := b\<rparr>) p w = readString d p w"
  by (cases p) (simp_all add: readString_def Let_def split: sum.split)

lemma readName_more:
  assumes "readName d w i p \<noteq> Inl NeedMore" "length p + length q < 2 ^ 64"
  shows "readName (more_buf q d) w i (p @ q) = map_sum id (\<lambda>(s, p'). (s, p' @ q)) (readName d w i p)"
  using assms readString_more [of d p w q] by (auto simp: readName_def split: option.split)

lemma callEmit_more: "callEmit hf (d\<lparr>d_buf := b\<rparr>) = apsnd (\<lambda>d'. d'\<lparr>d_buf := b\<rparr>) (callEmit hf d)"
  by (simp add: callEmit_def)

lemma callEmit_keeps: "d_buf (snd (callEmit hf d)) = d_buf d"
  by (simp add: callEmit_def)

lemma callEmit_NeedMore [simp]: "callEmit hf d \<noteq> (Some NeedMore, x)"
  by (simp add: callEmit_def)

definition grows :: "octets \<Rightarrow> (Decoder \<Rightarrow> hpack_error option \<times> Decoder) \<Rightarrow> Decoder \<Rightarrow> bool" where
  \<comment> \<open>the operation either waits for more input, leaving the state alone, or does the same with more input\<close>
  "grows q f d \<longleftrightarrow> (if fst (f d) = Some NeedMore then snd (f d) = d else f (more_buf q d) = apsnd (more_buf q) (f d))"

lemma parseFieldIndexed_grows: "grows q parseFieldIndexed d"
proof (cases "readVarInt 7 (d_buf d) = Inl NeedMore")
  case True
  then show ?thesis by (simp add: grows_def parseFieldIndexed_def)
next
  case False
  note more = readVarInt_more [OF False, of q]
  show ?thesis
    using more False
    by (auto simp: grows_def parseFieldIndexed_def callEmit_more callEmit_keeps apsnd_def map_prod_def split: sum.split option.split prod.split)
qed

definition literal_parts :: "nat \<Rightarrow> indexType \<Rightarrow> Decoder \<Rightarrow> hpack_error + octets \<times> octets \<times> octets" where
  "literal_parts n it d =
     rbind (readVarInt n (d_buf d)) (\<lambda>(nameIdx, buf).
       rbind (readName d (emitEnabled d \<or> it = indexedTrue) nameIdx buf) (\<lambda>(name, buf).
         rbind (readString d buf (emitEnabled d \<or> it = indexedTrue)) (\<lambda>(val, buf). Inr (name, val, buf))))"

lemma literal_parts_more:
  assumes "literal_parts n it d \<noteq> Inl NeedMore" "length (d_buf d) + length q < 2 ^ 64"
  shows "literal_parts n it (more_buf q d) = map_sum id (\<lambda>(name, val, p). (name, val, p @ q)) (literal_parts n it d)"
proof (cases "readVarInt n (d_buf d)")
  case (Inl e)
  then show ?thesis using assms(1) readVarInt_more [of n "d_buf d" q] by (simp add: literal_parts_def)
next
  case (Inr r)
  then obtain i p where p: "readVarInt n (d_buf d) = Inr (i, p)" by (cases r) simp
  let ?w = "emitEnabled d \<or> it = indexedTrue"
  have v: "readVarInt n (d_buf d @ q) = Inr (i, p @ q)" using readVarInt_more [of n "d_buf d" q] p by simp
  have lp: "length p + length q < 2 ^ 64" using readVarInt_suffix [OF p] assms(2) by simp
  have nm: "readName d ?w i p \<noteq> Inl NeedMore" using assms(1) p by (auto simp: literal_parts_def)
  note n = readName_more [OF nm lp]
  show ?thesis
  proof (cases "readName d ?w i p")
    case (Inl e)
    then show ?thesis using n v p by (simp add: literal_parts_def)
  next
    case (Inr r)
    then obtain s p' where s: "readName d ?w i p = Inr (s, p')" by (cases r) simp
    have "length p' + length q < 2 ^ 64" using readName_shorter [OF s] lp by simp
    moreover have "readString d p' ?w \<noteq> Inl NeedMore" using assms(1) p s by (auto simp: literal_parts_def)
    ultimately have "readString (more_buf q d) (p' @ q) ?w = map_sum id (\<lambda>(s, p'). (s, p' @ q)) (readString d p' ?w)"
      by (rule readString_more [rotated])
    then show ?thesis using n v p s by (cases "readString d p' ?w") (auto simp: literal_parts_def)
  qed
qed

lemma parseFieldLiteral_parts:
  "parseFieldLiteral n it d =
     (case literal_parts n it d of
        Inl e \<Rightarrow> (Some e, d)
      | Inr (name, val, buf) \<Rightarrow>
          let d = d\<lparr>d_buf := buf\<rparr>; hf = \<lparr>Name = name, Value = val, Sensitive = False\<rparr> in
          (case (if it = indexedTrue then dyn_add (d_dynTab d) hf else Some (d_dynTab d)) of
             None \<Rightarrow> (Some HpackPanic, d)
           | Some dt \<Rightarrow> callEmit (hf\<lparr>Sensitive := (it = indexedNever)\<rparr>) (d\<lparr>d_dynTab := dt\<rparr>)))"
  by (simp only: parseFieldLiteral_def literal_parts_def Let_def)

lemma parseFieldLiteral_grows:
  assumes "length (d_buf d) + length q < 2 ^ 64"
  shows "grows q (parseFieldLiteral n it) d"
proof (cases "literal_parts n it d = Inl NeedMore")
  case True
  then show ?thesis by (simp add: grows_def parseFieldLiteral_parts)
next
  case False
  note more = literal_parts_more [OF False assms]
  show ?thesis
  proof (cases "literal_parts n it d")
    case (Inl e)
    then show ?thesis using more False by (simp add: grows_def parseFieldLiteral_parts)
  next
    case (Inr r)
    then obtain name val buf where r: "literal_parts n it d = Inr (name, val, buf)" by (cases r) simp
    have emit: "callEmit hf (d\<lparr>d_buf := buf @ q, d_dynTab := dt\<rparr>) = apsnd (more_buf q) (callEmit hf (d\<lparr>d_buf := buf, d_dynTab := dt\<rparr>))"
      for hf dt by (simp add: callEmit_def)
    have "literal_parts n it (more_buf q d) = Inr (name, val, buf @ q)" using more r by simp
    then show ?thesis
      using emit by (auto simp: grows_def parseFieldLiteral_parts r Let_def split: option.split) (auto simp: callEmit_def)
  qed
qed

lemma parseDynamicTableSizeUpdate_grows: "grows q parseDynamicTableSizeUpdate d"
proof (cases "readVarInt 5 (d_buf d) = Inl NeedMore")
  case True
  then show ?thesis by (simp add: grows_def parseDynamicTableSizeUpdate_def)
next
  case False
  note more = readVarInt_more [OF False, of q]
  show ?thesis
    using more False
    by (auto simp: grows_def parseDynamicTableSizeUpdate_def split: sum.split option.split)
qed

definition choice :: "8 word \<Rightarrow> Decoder \<Rightarrow> hpack_error option \<times> Decoder" where
  "choice b =
     (if b AND 128 \<noteq> 0 then parseFieldIndexed
      else if b AND 192 = 64 then parseFieldLiteral 6 indexedTrue
      else if b AND 240 = 0 then parseFieldLiteral 4 indexedFalse
      else if b AND 240 = 16 then parseFieldLiteral 4 indexedNever
      else if b AND 224 = 32 then parseDynamicTableSizeUpdate
      else (\<lambda>d. (Some InvalidEncoding, d)))"

lemma parse_choice: "d_buf d = b # bs \<Longrightarrow> parseHeaderFieldRepr d = choice b d"
  by (simp add: parseHeaderFieldRepr_def choice_def)

lemma parse_grows:
  assumes "length (d_buf d) + length q < 2 ^ 64" "d_buf d \<noteq> []"
  shows "grows q parseHeaderFieldRepr d"
proof -
  obtain b bs where b: "d_buf d = b # bs" using assms(2) by (cases "d_buf d") auto
  have "grows q (\<lambda>d. (Some InvalidEncoding, d)) d" by (simp add: grows_def)
  then have "grows q (choice b) d"
    unfolding choice_def
    using parseFieldIndexed_grows parseFieldLiteral_grows [OF assms(1)] parseDynamicTableSizeUpdate_grows by auto
  then show ?thesis
    using parse_choice [OF b] parse_choice [of "more_buf q d" b "bs @ q"] b by (auto simp: grows_def split: if_splits)
qed

lemma callEmit_saveBuf: "saveBuf (snd (callEmit hf d)) = saveBuf d"
  by (simp add: callEmit_def)

lemma parse_saveBuf: "saveBuf (snd (parseHeaderFieldRepr d)) = saveBuf d"
proof (cases "d_buf d")
  case (Cons b bs)
  have "saveBuf (snd (parseFieldIndexed d)) = saveBuf d"
    by (auto simp: parseFieldIndexed_def callEmit_saveBuf split: sum.split option.split)
  moreover have "saveBuf (snd (parseFieldLiteral n it d)) = saveBuf d" for n it
    by (auto simp: parseFieldLiteral_parts callEmit_saveBuf Let_def split: sum.split option.split)
  moreover have "saveBuf (snd (parseDynamicTableSizeUpdate d)) = saveBuf d"
    by (auto simp: parseDynamicTableSizeUpdate_def split: sum.split option.split)
  ultimately show ?thesis by (simp add: parse_choice [OF Cons] choice_def)
qed (simp add: parseHeaderFieldRepr_def)

section \<open>A block may come in pieces\<close>

lemma write_loop_count: "snd (write_loop n d) = snd (write_loop m d)"
proof (induction n d rule: write_loop.induct)
  case (1 n d)
  show ?case
    by (subst (1 2) write_loop.simps) (use 1 in \<open>auto split: prod.split option.split\<close>)
qed

definition refill :: "octets \<Rightarrow> Decoder \<Rightarrow> Decoder" where
  \<comment> \<open>the state in which \<open>Write\<close> enters its loop\<close>
  "refill q d = (if saveBuf d = [] then d\<lparr>d_buf := q\<rparr> else d\<lparr>d_buf := saveBuf d @ q, saveBuf := []\<rparr>)"

lemma write_loop_pieces:
  assumes "write_loop n d = (m, None, d1)" "saveBuf d = []" "length (d_buf d) + length q < 2 ^ 64"
  shows "snd (write_loop k (more_buf q d)) = snd (write_loop k (refill q d1))"
  using assms
proof (induction n d arbitrary: m d1 rule: write_loop.induct)
  case (1 n d)
  show ?case
  proof (cases "d_buf d = []")
    case True
    then have "d1 = d" using "1.prems"(1) by (subst (asm) write_loop.simps) simp
    then show ?thesis using True "1.prems"(2) by (simp add: refill_def)
  next
    case False
    have g: "grows q parseHeaderFieldRepr d" using parse_grows [OF "1.prems"(3) False] .
    obtain r d' where p: "parseHeaderFieldRepr d = (r, d')" by fastforce
    have sv: "saveBuf d' = []" using parse_saveBuf [of d] "1.prems"(2) p by simp
    show ?thesis
    proof (cases r)
      case None
      have l: "write_loop n d' = (m, None, d1)" using "1.prems"(1) False p None by (subst (asm) write_loop.simps) simp
      have len: "length (d_buf d') + length q < 2 ^ 64" using parse_shorter [of d d'] p None "1.prems"(3) by simp
      have "parseHeaderFieldRepr (more_buf q d) = (None, more_buf q d')" using g p None by (simp add: grows_def)
      then have "write_loop k (more_buf q d) = write_loop k (more_buf q d')" using False by (subst write_loop.simps) simp
      with "1.IH" [OF False p [symmetric] None l sv len] show ?thesis by simp
    next
      case (Some e)
      have e: "e = NeedMore \<and> d1 = d'\<lparr>saveBuf := d_buf d'\<rparr>"
        using "1.prems"(1) False p sv Some unfolding write_loop.simps [of n d] by (auto split: if_splits)
      moreover have "d' = d" using g p Some e by (simp add: grows_def)
      moreover have "more_buf q d\<lparr>saveBuf := []\<rparr> = more_buf q d" using "1.prems"(2) by (cases d) simp
      ultimately show ?thesis using False by (simp add: refill_def)
    qed
  qed
qed

text \<open>
  (C24) A header block may arrive in pieces. If the decoder accepts the first piece, cut wherever it was, then
  writing the rest has the same outcome as writing both at once: the same error or none, the same
  fields emitted, the same dynamic table and the same octets kept for later.
\<close>
theorem decoder_pieces:
  assumes "Decoder_Write d p = (n, None, d1)" "q \<noteq> []" "length (saveBuf d) + length p + length q < 2 ^ 64"
  shows "snd (Decoder_Write d1 q) = snd (Decoder_Write d (p @ q))"
proof (cases "p = []")
  case True
  then show ?thesis using assms(1) by (simp add: Decoder_Write_def)
next
  case False
  have w: "Decoder_Write d p = write_loop (length p) (refill p d)" if "p \<noteq> []" for p d
    using that by (simp add: Decoder_Write_def refill_def)
  have "saveBuf (refill p d) = []" "length (d_buf (refill p d)) + length q < 2 ^ 64" "more_buf q (refill p d) = refill (p @ q) d"
    using assms(3) by (simp_all add: refill_def)
  then have "snd (write_loop (length q) (refill (p @ q) d)) = snd (write_loop (length q) (refill q d1))"
    using write_loop_pieces [of "length p" "refill p d" n d1 q "length q"] assms(1) w [OF False] by simp
  then show ?thesis
    using w [OF assms(2), of d1] w [of "p @ q" d] False write_loop_count by (metis append_is_Nil_conv)
qed

theorem decoder_pieces_witness:
  "snd (Decoder_Write (decoder_start\<lparr>d_buf := [0x40], saveBuf := [0x40]\<rparr>) [1, 97, 1, 98]) = snd (Decoder_Write decoder_start [0x40, 1, 97, 1, 98])"
proof -
  have "Decoder_Write decoder_start [0x40] = (1, None, decoder_start\<lparr>d_buf := [0x40], saveBuf := [0x40]\<rparr>)"
    by (simp add: Decoder_Write_def decoder_start_def, subst write_loop.simps)
      (simp add: parseHeaderFieldRepr_def parseFieldLiteral_def readVarInt_def prefix_max_def readName_def readString_def)
  from decoder_pieces [OF this, of "[1, 97, 1, 98]"] show ?thesis by (simp add: decoder_start_def)
qed

section \<open>Size updates\<close>

lemma size_updates_octets:
  "tableSizeUpdate e \<Longrightarrow> \<exists>v rest. fst (size_updates e) = varint_octets 5 0x20 v @ rest"
proof -
  have "appendTableSize dst v = dst @ varint_octets 5 0x20 (ucast v)" for dst v
    using or_at_varint [of dst 5 "ucast v" "[]" "0x20"] by (simp add: appendTableSize_def)
  moreover assume "tableSizeUpdate e"
  ultimately show ?thesis by (auto simp: size_updates_def Let_def) 
qed

lemma WriteField_prefix:
  assumes "WriteField wr e f = Some (out, e', w)"
  shows "\<exists>rest. out = fst (size_updates e) @ rest"
proof -
  have idx: "or_at (appendVarInt dst n i) (length dst) b = dst @ varint_octets n b i" for dst n i b
    using or_at_varint [of dst n i "[]" b] by simp
  obtain buf e1 where s: "size_updates e = (buf, e1)" by fastforce
  show ?thesis
    using assms
    by (auto simp: WriteField_def s Let_def appendIndexed_def appendNewName_def appendIndexedName_def idx
        appendHpackString_octets split: option.splits if_splits)
qed

text \<open>
  (C36) A dynamic table size update is refused as soon as the decoder's table has an entry: whatever size is
  set on the encoder, the next field it writes starts with the update, and a decoder with a non-empty
  table rejects the whole write with the error that the update must come at the beginning of a
  header block, although it does.
\<close>
theorem size_update_refused:
  assumes "SetMaxDynamicTableSize e v = Some e1" "WriteField wr e1 f = Some (out, e2, w)"
    "dyn_ok (d_dynTab d)" "ents (table (d_dynTab d)) \<noteq> []" "saveBuf d = []"
  shows "Decoder_Write d out = (length out, Some LateSizeUpdate, d\<lparr>d_buf := out\<rparr>)"
proof -
  have "tableSizeUpdate e1" using assms(1) by (auto simp: SetMaxDynamicTableSize_def Let_def)
  then obtain s rest where out: "out = varint_octets 5 0x20 s @ rest"
    using size_updates_octets [of e1] WriteField_prefix [OF assms(2)] by auto
  obtain g gs where "ents (table (d_dynTab d)) = g # gs" using assms(4) by (cases "ents (table (d_dynTab d))") auto
  then have "0 < unat (dt_size (d_dynTab d))" using assms(3) by (simp add: dyn_ok_def entry_size_def)
  then have "0 < dt_size (d_dynTab d)" by (simp add: word_less_nat_alt)
  then have "parseHeaderFieldRepr (d\<lparr>d_buf := out\<rparr>) = (Some LateSizeUpdate, d\<lparr>d_buf := out\<rparr>)"
    using parse_size_dispatch [of "d\<lparr>d_buf := out\<rparr>" s rest] out by (simp add: parseDynamicTableSizeUpdate_def)
  moreover have "out \<noteq> []" using out by simp
  ultimately show ?thesis using assms(5) by (simp add: Decoder_Write_def, subst write_loop.simps) simp
qed

theorem size_update_refused_witness:
  "\<exists>e1 out e2 w dt. SetMaxDynamicTableSize encoder_start 0 = Some e1 \<and>
     WriteField (\<lambda>b. (length b, None :: unit option)) e1 (sample_fields ! 0) = Some (out, e2, w) \<and>
     dyn_add (d_dynTab decoder_start) (sample_fields ! 1) = Some dt \<and>
     Decoder_Write (decoder_start\<lparr>d_dynTab := dt\<rparr>) out =
       (length out, Some LateSizeUpdate, decoder_start\<lparr>d_dynTab := dt, d_buf := out\<rparr>)"
proof -
  let ?wr = "\<lambda>b. (length b, None :: unit option)" and ?f = "sample_fields ! 0" and ?g = "sample_fields ! 1"
  have "dyn_ok (e_dynTab encoder_start)" using dyn_ok_new [of 4096 0] by (simp add: encoder_start_def)
  then obtain dt1 where "setMaxSize (e_dynTab encoder_start) 0 = Some dt1" using setMaxSize_ok [of _ 0] by blast
  moreover have "\<not> maxSizeLimit encoder_start < 0" by simp
  ultimately obtain e1 where e1: "SetMaxDynamicTableSize encoder_start 0 = Some e1"
    by (cases "0 < minSize encoder_start") (auto simp: SetMaxDynamicTableSize_def Let_def)
  obtain out e2 w where out: "WriteField ?wr e1 ?f = Some (out, e2, w)"
    by (cases "size_updates e1") (auto simp: WriteField_def sample_fields_def searchTable_def search_sample)
  have "dyn_ok (d_dynTab decoder_start)" "dyn_room (d_dynTab decoder_start) ?g"
    using dyn_ok_new [of 4096 4096] by (simp_all add: decoder_start_def sample_fields_def dyn_room_def entry_size_def table_init_def)
  then obtain dt where dt: "dyn_add (d_dynTab decoder_start) ?g = Some dt" "dyn_ok dt" "ents (table dt) = [?g]"
    using dyn_add_ok [of "d_dynTab decoder_start" ?g]
    by (auto simp: decoder_start_def table_init_def entry_size_def sample_fields_def)
  then have "Decoder_Write (decoder_start\<lparr>d_dynTab := dt\<rparr>) out =
      (length out, Some LateSizeUpdate, (decoder_start\<lparr>d_dynTab := dt\<rparr>)\<lparr>d_buf := out\<rparr>)"
    by (intro size_update_refused [OF e1 out]) (simp_all add: decoder_start_def)
  with e1 out dt(1) show ?thesis by blast
qed

end
