(* ===== verification/H2Frames.thy ===== *)
theory H2Frames
  imports HpackStream GoIO Strconv
begin

text \<open>
  The frames of HTTP/2: the types of frames with their parsers and the \<open>Write\<close> methods of
  \<open>http2Framer\<close>, all of \<open>pkg/http/h2_bundle.go\<close>.

  A parser is given the header and the payload of a frame and returns the frame or an error; an
  error \<open>H2Panic\<close> is a panic. A \<open>Write\<close> method is given the \<open>Write\<close> of the framer's writer and the flag
  \<open>AllowIllegalWrites\<close>, and returns its error with the list of the buffers it handed to the writer, of
  which there is at most one. The scratch buffer \<open>wbuf\<close> is local to a call, and the logging of frames,
  which is on only for \<open>GODEBUG=http2debug=2\<close>, is left out.
\<close>

section \<open>Errors\<close>

definition http2ErrCodeNo :: "32 word" where "http2ErrCodeNo = 0x0"
definition http2ErrCodeProtocol :: "32 word" where "http2ErrCodeProtocol = 0x1"
definition http2ErrCodeInternal :: "32 word" where "http2ErrCodeInternal = 0x2"
definition http2ErrCodeFlowControl :: "32 word" where "http2ErrCodeFlowControl = 0x3"
definition http2ErrCodeStreamClosed :: "32 word" where "http2ErrCodeStreamClosed = 0x5"
definition http2ErrCodeFrameSize :: "32 word" where "http2ErrCodeFrameSize = 0x6"
definition http2ErrCodeRefusedStream :: "32 word" where "http2ErrCodeRefusedStream = 0x7"
definition http2ErrCodeCompression :: "32 word" where "http2ErrCodeCompression = 0x9"

datatype http2_error =
    http2ConnectionError "32 word"
  | http2StreamError "32 word" "32 word" "http2_error option"   \<comment> \<open>stream, code and cause\<close>
  | http2connError "32 word" string
  | http2ErrFrameTooLarge | http2goAwayFlowError
  | http2errStreamID | http2errDepStreamID | http2errPadLength | http2errPadBytes
  | http2pseudoHeaderError octets | http2duplicatePseudoHeaderError octets
  | http2headerFieldNameError octets | http2headerFieldValueError octets
  | http2errMixPseudoHeaderTypes | http2errPseudoAfterRegular
  | IOError io_error
  | TextError string
  | H2Panic

definition http2streamError :: "32 word \<Rightarrow> 32 word \<Rightarrow> http2_error" where
  "http2streamError sid code = http2StreamError sid code None"

section \<open>Types and flags\<close>

definition http2FrameData :: "8 word" where "http2FrameData = 0x0"
definition http2FrameHeaders :: "8 word" where "http2FrameHeaders = 0x1"
definition http2FramePriority :: "8 word" where "http2FramePriority = 0x2"
definition http2FrameRSTStream :: "8 word" where "http2FrameRSTStream = 0x3"
definition http2FrameSettings :: "8 word" where "http2FrameSettings = 0x4"
definition http2FramePushPromise :: "8 word" where "http2FramePushPromise = 0x5"
definition http2FramePing :: "8 word" where "http2FramePing = 0x6"
definition http2FrameGoAway :: "8 word" where "http2FrameGoAway = 0x7"
definition http2FrameWindowUpdate :: "8 word" where "http2FrameWindowUpdate = 0x8"
definition http2FrameContinuation :: "8 word" where "http2FrameContinuation = 0x9"

lemmas frame_types =
  http2FrameData_def http2FrameHeaders_def http2FramePriority_def http2FrameRSTStream_def
  http2FrameSettings_def http2FramePushPromise_def http2FramePing_def http2FrameGoAway_def
  http2FrameWindowUpdate_def http2FrameContinuation_def

definition http2frameName :: "(8 word \<times> string) list" where
  "http2frameName =
     [(http2FrameData, ''DATA''), (http2FrameHeaders, ''HEADERS''), (http2FramePriority, ''PRIORITY''),
      (http2FrameRSTStream, ''RST_STREAM''), (http2FrameSettings, ''SETTINGS''),
      (http2FramePushPromise, ''PUSH_PROMISE''), (http2FramePing, ''PING''), (http2FrameGoAway, ''GOAWAY''),
      (http2FrameWindowUpdate, ''WINDOW_UPDATE''), (http2FrameContinuation, ''CONTINUATION'')]"

definition http2FrameType_String :: "8 word \<Rightarrow> string" where
  "http2FrameType_String t =
     (case map_of http2frameName t of
        Some s \<Rightarrow> s
      | None \<Rightarrow> ''UNKNOWN_FRAME_TYPE_'' @ Itoa (uint t))"

definition Has :: "8 word \<Rightarrow> 8 word \<Rightarrow> bool" where
  "Has f v \<longleftrightarrow> f AND v = v"

definition http2FlagDataEndStream :: "8 word" where "http2FlagDataEndStream = 0x1"
definition http2FlagDataPadded :: "8 word" where "http2FlagDataPadded = 0x8"
definition http2FlagHeadersEndStream :: "8 word" where "http2FlagHeadersEndStream = 0x1"
definition http2FlagHeadersEndHeaders :: "8 word" where "http2FlagHeadersEndHeaders = 0x4"
definition http2FlagHeadersPadded :: "8 word" where "http2FlagHeadersPadded = 0x8"
definition http2FlagHeadersPriority :: "8 word" where "http2FlagHeadersPriority = 0x20"
definition http2FlagSettingsAck :: "8 word" where "http2FlagSettingsAck = 0x1"
definition http2FlagPingAck :: "8 word" where "http2FlagPingAck = 0x1"
definition http2FlagContinuationEndHeaders :: "8 word" where "http2FlagContinuationEndHeaders = 0x4"
definition http2FlagPushPromiseEndHeaders :: "8 word" where "http2FlagPushPromiseEndHeaders = 0x4"
definition http2FlagPushPromisePadded :: "8 word" where "http2FlagPushPromisePadded = 0x8"

lemmas frame_flags =
  http2FlagDataEndStream_def http2FlagDataPadded_def http2FlagHeadersEndStream_def
  http2FlagHeadersEndHeaders_def http2FlagHeadersPadded_def http2FlagHeadersPriority_def
  http2FlagSettingsAck_def http2FlagPingAck_def http2FlagContinuationEndHeaders_def
  http2FlagPushPromiseEndHeaders_def http2FlagPushPromisePadded_def

section \<open>Frames\<close>

record http2FrameHeader =
  fh_valid :: bool
  fh_Type :: "8 word"
  fh_Flags :: "8 word"
  fh_Length :: "32 word"
  fh_StreamID :: "32 word"

record http2PriorityParam =
  StreamDep :: "32 word"
  Exclusive :: bool
  Weight :: "8 word"

record http2Setting =
  s_ID :: "16 word"
  s_Val :: "32 word"

datatype http2Frame =
    http2DataFrame (Header: http2FrameHeader) octets
  | http2HeadersFrame (Header: http2FrameHeader) http2PriorityParam octets
  | http2PriorityFrame (Header: http2FrameHeader) http2PriorityParam
  | http2RSTStreamFrame (Header: http2FrameHeader) "32 word"
  | http2SettingsFrame (Header: http2FrameHeader) octets
  | http2PushPromiseFrame (Header: http2FrameHeader) "32 word" octets
  | http2PingFrame (Header: http2FrameHeader) octets
  | http2GoAwayFrame (Header: http2FrameHeader) "32 word" "32 word" octets
  | http2WindowUpdateFrame (Header: http2FrameHeader) "32 word"
  | http2ContinuationFrame (Header: http2FrameHeader) octets
  | http2UnknownFrame (Header: http2FrameHeader) octets
  | http2MetaHeadersFrame (Header: http2FrameHeader) http2PriorityParam "HeaderField list" bool

definition zero_priority :: http2PriorityParam where
  "zero_priority = \<lparr>StreamDep = 0, Exclusive = False, Weight = 0\<rparr>"

definition IsZero :: "http2PriorityParam \<Rightarrow> bool" where
  "IsZero p \<longleftrightarrow> p = zero_priority"

section \<open>Numbers on the wire\<close>

definition Uint16 :: "octets \<Rightarrow> 16 word" where
  "Uint16 b = push_bit 8 (ucast (b ! 0)) OR ucast (b ! 1)"

definition Uint32 :: "octets \<Rightarrow> 32 word" where
  "Uint32 b = push_bit 24 (ucast (b ! 0)) OR push_bit 16 (ucast (b ! 1)) OR push_bit 8 (ucast (b ! 2)) OR ucast (b ! 3)"

definition writeUint16 :: "16 word \<Rightarrow> octets" where
  "writeUint16 v = [ucast (drop_bit 8 v), ucast v]"

definition writeUint32 :: "32 word \<Rightarrow> octets" where
  "writeUint32 v = [ucast (drop_bit 24 v), ucast (drop_bit 16 v), ucast (drop_bit 8 v), ucast v]"

definition mask31 :: "32 word" where "mask31 = 0x7fffffff"
definition bit31 :: "32 word" where "bit31 = 0x80000000"

definition http2readByte :: "octets \<Rightarrow> http2_error + octets \<times> 8 word" where
  "http2readByte p = (case p of [] \<Rightarrow> Inl (IOError ErrUnexpectedEOF) | b # p \<Rightarrow> Inr (p, b))"

definition http2readUint32 :: "octets \<Rightarrow> http2_error + octets \<times> 32 word" where
  "http2readUint32 p =
     (if length p < 4 then Inl (IOError ErrUnexpectedEOF) else Inr (drop 4 p, Uint32 (take 4 p)))"

section \<open>Parsing\<close>

definition http2parseDataFrame :: "http2FrameHeader \<Rightarrow> octets \<Rightarrow> http2_error + http2Frame" where
  "http2parseDataFrame fh payload =
     (if fh_StreamID fh = 0 then Inl (http2connError http2ErrCodeProtocol ''DATA frame with stream ID 0'')
      else
        rbind (if Has (fh_Flags fh) http2FlagDataPadded then http2readByte payload else Inr (payload, 0)) (\<lambda>(payload, padSize).
          if length payload < unat padSize
          then Inl (http2connError http2ErrCodeProtocol ''pad size larger than data payload'')
          else Inr (http2DataFrame fh (take (length payload - unat padSize) payload))))"

definition Setting_at :: "octets \<Rightarrow> nat \<Rightarrow> http2Setting" where
  "Setting_at p i =
     \<lparr>s_ID = Uint16 (take 2 (drop (i * 6) p)), s_Val = Uint32 (take 4 (drop (i * 6 + 2) p))\<rparr>"

definition NumSettings :: "octets \<Rightarrow> nat" where
  "NumSettings p = length p div 6"

definition Settings_of :: "octets \<Rightarrow> http2Setting list" where
  \<comment> \<open>the settings in the order in which the loops over them meet them\<close>
  "Settings_of p = map (Setting_at p) [0..<NumSettings p]"

definition http2SettingsFrame_Value :: "http2FrameHeader \<Rightarrow> octets \<Rightarrow> 16 word \<Rightarrow> http2_error + (32 word \<times> bool)" where
  "http2SettingsFrame_Value fh p sid =
     (if \<not> fh_valid fh then Inl H2Panic
      else case find (\<lambda>s. s_ID s = sid) (Settings_of p) of
        Some s \<Rightarrow> Inr (s_Val s, True)
      | None \<Rightarrow> Inr (0, False))"

fun has_pair :: "16 word list \<Rightarrow> bool" where
  \<comment> \<open>the two nested loops of \<open>HasDuplicates\<close>\<close>
  "has_pair [] = False"
| "has_pair (x # xs) = (list_ex (\<lambda>y. x = y) xs \<or> has_pair xs)"

fun seen_before :: "16 word set \<Rightarrow> 16 word list \<Rightarrow> bool" where
  \<comment> \<open>the loop with the map\<close>
  "seen_before seen [] = False"
| "seen_before seen (x # xs) = (if x \<in> seen then True else seen_before (insert x seen) xs)"

definition HasDuplicates :: "octets \<Rightarrow> bool" where
  "HasDuplicates p =
     (let num = NumSettings p in
      if num = 0 then False
      else if num < 10 then has_pair (map s_ID (Settings_of p))
      else seen_before {} (map s_ID (Settings_of p)))"

fun ForeachSetting_loop :: "('s \<Rightarrow> http2Setting \<Rightarrow> http2_error option \<times> 's) \<Rightarrow> http2Setting list \<Rightarrow> 's \<Rightarrow> http2_error option \<times> 's" where
  "ForeachSetting_loop fn [] s = (None, s)"
| "ForeachSetting_loop fn (x # xs) s =
     (case fn s x of (Some e, s) \<Rightarrow> (Some e, s) | (None, s) \<Rightarrow> ForeachSetting_loop fn xs s)"

definition ForeachSetting :: "http2FrameHeader \<Rightarrow> octets \<Rightarrow> ('s \<Rightarrow> http2Setting \<Rightarrow> http2_error option \<times> 's) \<Rightarrow> 's \<Rightarrow> http2_error option \<times> 's" where
  \<comment> \<open>the function works on a state\<close>
  "ForeachSetting fh p fn s = (if \<not> fh_valid fh then (Some H2Panic, s) else ForeachSetting_loop fn (Settings_of p) s)"

definition http2SettingHeaderTableSize :: "16 word" where "http2SettingHeaderTableSize = 0x1"
definition http2SettingEnablePush :: "16 word" where "http2SettingEnablePush = 0x2"
definition http2SettingMaxConcurrentStreams :: "16 word" where "http2SettingMaxConcurrentStreams = 0x3"
definition http2SettingInitialWindowSize :: "16 word" where "http2SettingInitialWindowSize = 0x4"
definition http2SettingMaxFrameSize :: "16 word" where "http2SettingMaxFrameSize = 0x5"
definition http2SettingMaxHeaderListSize :: "16 word" where "http2SettingMaxHeaderListSize = 0x6"

definition http2parseSettingsFrame :: "http2FrameHeader \<Rightarrow> octets \<Rightarrow> http2_error + http2Frame" where
  "http2parseSettingsFrame fh p =
     (if Has (fh_Flags fh) http2FlagSettingsAck \<and> 0 < fh_Length fh then Inl (http2ConnectionError http2ErrCodeFrameSize)
      else if fh_StreamID fh \<noteq> 0 then Inl (http2ConnectionError http2ErrCodeProtocol)
      else if length p mod 6 \<noteq> 0 then Inl (http2ConnectionError http2ErrCodeFrameSize)
      else
        rbind (http2SettingsFrame_Value fh p http2SettingInitialWindowSize) (\<lambda>(v, ok).
          if ok \<and> v > mask31 then Inl (http2ConnectionError http2ErrCodeFlowControl)
          else Inr (http2SettingsFrame fh p)))"

definition http2parsePingFrame :: "http2FrameHeader \<Rightarrow> octets \<Rightarrow> http2_error + http2Frame" where
  "http2parsePingFrame fh payload =
     (if length payload \<noteq> 8 then Inl (http2ConnectionError http2ErrCodeFrameSize)
      else if fh_StreamID fh \<noteq> 0 then Inl (http2ConnectionError http2ErrCodeProtocol)
      else Inr (http2PingFrame fh payload))"

definition http2parseGoAwayFrame :: "http2FrameHeader \<Rightarrow> octets \<Rightarrow> http2_error + http2Frame" where
  "http2parseGoAwayFrame fh p =
     (if fh_StreamID fh \<noteq> 0 then Inl (http2ConnectionError http2ErrCodeProtocol)
      else if length p < 8 then Inl (http2ConnectionError http2ErrCodeFrameSize)
      else Inr (http2GoAwayFrame fh (Uint32 (take 4 p) AND mask31) (Uint32 (take 4 (drop 4 p))) (drop 8 p)))"

definition http2parseUnknownFrame :: "http2FrameHeader \<Rightarrow> octets \<Rightarrow> http2_error + http2Frame" where
  "http2parseUnknownFrame fh p = Inr (http2UnknownFrame fh p)"

definition http2parseWindowUpdateFrame :: "http2FrameHeader \<Rightarrow> octets \<Rightarrow> http2_error + http2Frame" where
  "http2parseWindowUpdateFrame fh p =
     (if length p \<noteq> 4 then Inl (http2ConnectionError http2ErrCodeFrameSize)
      else
        let inc = Uint32 (take 4 p) AND mask31 in
        if inc = 0 then
          if fh_StreamID fh = 0 then Inl (http2ConnectionError http2ErrCodeProtocol)
          else Inl (http2streamError (fh_StreamID fh) http2ErrCodeProtocol)
        else Inr (http2WindowUpdateFrame fh inc))"

definition http2parseHeadersFrame :: "http2FrameHeader \<Rightarrow> octets \<Rightarrow> http2_error + http2Frame" where
  "http2parseHeadersFrame fh p =
     (if fh_StreamID fh = 0 then Inl (http2connError http2ErrCodeProtocol ''HEADERS frame with stream ID 0'')
      else
        rbind (if Has (fh_Flags fh) http2FlagHeadersPadded then http2readByte p else Inr (p, 0)) (\<lambda>(p, padLength).
        rbind (if Has (fh_Flags fh) http2FlagHeadersPriority then
                 rbind (http2readUint32 p) (\<lambda>(p, v).
                 rbind (http2readByte p) (\<lambda>(p, weight).
                   Inr (p, \<lparr>StreamDep = v AND mask31, Exclusive = (v \<noteq> v AND mask31), Weight = weight\<rparr>)))
               else Inr (p, zero_priority)) (\<lambda>(p, prio).
          if int (length p) - int (unat padLength) \<le> 0 then Inl (http2streamError (fh_StreamID fh) http2ErrCodeProtocol)
          else Inr (http2HeadersFrame fh prio (take (length p - unat padLength) p)))))"

definition http2parsePriorityFrame :: "http2FrameHeader \<Rightarrow> octets \<Rightarrow> http2_error + http2Frame" where
  "http2parsePriorityFrame fh payload =
     (if fh_StreamID fh = 0 then Inl (http2connError http2ErrCodeProtocol ''PRIORITY frame with stream ID 0'')
      else if length payload \<noteq> 5 then
        Inl (http2connError http2ErrCodeFrameSize
          (''PRIORITY frame payload size was '' @ Itoa (int (length payload)) @ ''; want 5''))
      else
        let v = Uint32 (take 4 payload); streamID = v AND mask31 in
        Inr (http2PriorityFrame fh \<lparr>StreamDep = streamID, Exclusive = (streamID \<noteq> v), Weight = payload ! 4\<rparr>))"

definition http2parseRSTStreamFrame :: "http2FrameHeader \<Rightarrow> octets \<Rightarrow> http2_error + http2Frame" where
  "http2parseRSTStreamFrame fh p =
     (if length p \<noteq> 4 then Inl (http2ConnectionError http2ErrCodeFrameSize)
      else if fh_StreamID fh = 0 then Inl (http2ConnectionError http2ErrCodeProtocol)
      else Inr (http2RSTStreamFrame fh (Uint32 (take 4 p))))"

definition http2parseContinuationFrame :: "http2FrameHeader \<Rightarrow> octets \<Rightarrow> http2_error + http2Frame" where
  "http2parseContinuationFrame fh p =
     (if fh_StreamID fh = 0 then Inl (http2connError http2ErrCodeProtocol ''CONTINUATION frame with stream ID 0'')
      else Inr (http2ContinuationFrame fh p))"

definition http2parsePushPromise :: "http2FrameHeader \<Rightarrow> octets \<Rightarrow> http2_error + http2Frame" where
  "http2parsePushPromise fh p =
     (if fh_StreamID fh = 0 then Inl (http2ConnectionError http2ErrCodeProtocol)
      else
        rbind (if Has (fh_Flags fh) http2FlagPushPromisePadded then http2readByte p else Inr (p, 0)) (\<lambda>(p, padLength).
        rbind (http2readUint32 p) (\<lambda>(p, v).
          if length p < unat padLength then Inl (http2ConnectionError http2ErrCodeProtocol)
          else Inr (http2PushPromiseFrame fh (v AND mask31) (take (length p - unat padLength) p)))))"

definition http2frameParsers :: "(8 word \<times> (http2FrameHeader \<Rightarrow> octets \<Rightarrow> http2_error + http2Frame)) list" where
  "http2frameParsers =
     [(http2FrameData, http2parseDataFrame), (http2FrameHeaders, http2parseHeadersFrame),
      (http2FramePriority, http2parsePriorityFrame), (http2FrameRSTStream, http2parseRSTStreamFrame),
      (http2FrameSettings, http2parseSettingsFrame), (http2FramePushPromise, http2parsePushPromise),
      (http2FramePing, http2parsePingFrame), (http2FrameGoAway, http2parseGoAwayFrame),
      (http2FrameWindowUpdate, http2parseWindowUpdateFrame), (http2FrameContinuation, http2parseContinuationFrame)]"

definition http2typeFrameParser :: "8 word \<Rightarrow> http2FrameHeader \<Rightarrow> octets \<Rightarrow> http2_error + http2Frame" where
  "http2typeFrameParser t = (case map_of http2frameParsers t of Some f \<Rightarrow> f | None \<Rightarrow> http2parseUnknownFrame)"

section \<open>Writing\<close>

type_synonym h2_writer = "octets \<Rightarrow> nat \<times> io_error option"
type_synonym write_outcome = "http2_error option \<times> octets list"

definition http2frameHeaderLen :: nat where "http2frameHeaderLen = 9"

definition startWrite :: "8 word \<Rightarrow> 8 word \<Rightarrow> 32 word \<Rightarrow> octets" where
  "startWrite ftype flags streamID =
     [0, 0, 0, ftype, flags, ucast (drop_bit 24 streamID), ucast (drop_bit 16 streamID), ucast (drop_bit 8 streamID), ucast streamID]"

definition endWrite :: "h2_writer \<Rightarrow> octets \<Rightarrow> write_outcome" where
  "endWrite wr wbuf =
     (let len = length wbuf - http2frameHeaderLen in
      if 2 ^ 24 \<le> len then (Some http2ErrFrameTooLarge, [])
      else
        let wbuf = [word_of_nat (drop_bit 16 len), word_of_nat (drop_bit 8 len), word_of_nat len] @ drop 3 wbuf in
        (case wr wbuf of
           (n, Some e) \<Rightarrow> Some (IOError e)
         | (n, None) \<Rightarrow> if n \<noteq> length wbuf then Some (IOError io_error.ErrShortWrite) else None,
         [wbuf]))"

definition http2validStreamIDOrZero :: "32 word \<Rightarrow> bool" where
  "http2validStreamIDOrZero streamID \<longleftrightarrow> streamID AND bit31 = 0"

definition http2validStreamID :: "32 word \<Rightarrow> bool" where
  "http2validStreamID streamID \<longleftrightarrow> streamID \<noteq> 0 \<and> streamID AND bit31 = 0"

definition flag_if :: "bool \<Rightarrow> 8 word \<Rightarrow> 8 word" where
  \<comment> \<open>\<open>if b { flags |= v }\<close>\<close>
  "flag_if b v = (if b then v else 0)"

definition WriteDataPadded :: "h2_writer \<Rightarrow> bool \<Rightarrow> 32 word \<Rightarrow> bool \<Rightarrow> octets \<Rightarrow> octets option \<Rightarrow> write_outcome" where
  \<comment> \<open>the padding is \<open>None\<close> where the code has \<open>nil\<close>\<close>
  "WriteDataPadded wr illegal streamID endStream data pad =
     (let padBytes = (case pad of None \<Rightarrow> [] | Some b \<Rightarrow> b) in
      if \<not> http2validStreamID streamID \<and> \<not> illegal then (Some http2errStreamID, [])
      else if 255 < length padBytes then (Some http2errPadLength, [])
      else if \<not> illegal \<and> \<not> list_all (\<lambda>b. b = 0) padBytes then (Some http2errPadBytes, [])
      else
        let flags = flag_if endStream http2FlagDataEndStream OR flag_if (pad \<noteq> None) http2FlagDataPadded in
        endWrite wr (startWrite http2FrameData flags streamID @
          (if pad \<noteq> None then [word_of_nat (length padBytes)] else []) @ data @ padBytes))"

definition WriteData :: "h2_writer \<Rightarrow> bool \<Rightarrow> 32 word \<Rightarrow> bool \<Rightarrow> octets \<Rightarrow> write_outcome" where
  "WriteData wr illegal streamID endStream data = WriteDataPadded wr illegal streamID endStream data None"

definition WriteSettings :: "h2_writer \<Rightarrow> http2Setting list \<Rightarrow> write_outcome" where
  "WriteSettings wr settings =
     endWrite wr (startWrite http2FrameSettings 0 0 @ concat (map (\<lambda>s. writeUint16 (s_ID s) @ writeUint32 (s_Val s)) settings))"

definition WriteSettingsAck :: "h2_writer \<Rightarrow> write_outcome" where
  "WriteSettingsAck wr = endWrite wr (startWrite http2FrameSettings http2FlagSettingsAck 0)"

definition WritePing :: "h2_writer \<Rightarrow> bool \<Rightarrow> octets \<Rightarrow> write_outcome" where
  "WritePing wr ack data = endWrite wr (startWrite http2FramePing (flag_if ack http2FlagPingAck) 0 @ data)"

definition WriteGoAway :: "h2_writer \<Rightarrow> 32 word \<Rightarrow> 32 word \<Rightarrow> octets \<Rightarrow> write_outcome" where
  "WriteGoAway wr maxStreamID code debugData =
     endWrite wr (startWrite http2FrameGoAway 0 0 @ writeUint32 (maxStreamID AND mask31) @ writeUint32 code @ debugData)"

definition WriteWindowUpdate :: "h2_writer \<Rightarrow> bool \<Rightarrow> 32 word \<Rightarrow> 32 word \<Rightarrow> write_outcome" where
  "WriteWindowUpdate wr illegal streamID incr =
     (if (incr < 1 \<or> 2147483647 < incr) \<and> \<not> illegal then (Some (TextError ''illegal window increment value''), [])
      else endWrite wr (startWrite http2FrameWindowUpdate 0 streamID @ writeUint32 incr))"

record http2HeadersFrameParam =
  h_StreamID :: "32 word"
  h_BlockFragment :: octets
  h_EndStream :: bool
  h_EndHeaders :: bool
  h_PadLength :: "8 word"
  h_Priority :: http2PriorityParam

definition pad_zeros :: "8 word \<Rightarrow> octets" where
  "pad_zeros n = replicate (unat n) 0"

definition exclusive_bit :: "http2PriorityParam \<Rightarrow> 32 word" where
  \<comment> \<open>the dependency as it is written\<close>
  "exclusive_bit p = (if Exclusive p then StreamDep p OR bit31 else StreamDep p)"

definition WriteHeaders :: "h2_writer \<Rightarrow> bool \<Rightarrow> http2HeadersFrameParam \<Rightarrow> write_outcome" where
  "WriteHeaders wr illegal p =
     (if \<not> http2validStreamID (h_StreamID p) \<and> \<not> illegal then (Some http2errStreamID, [])
      else if \<not> IsZero (h_Priority p) \<and> \<not> http2validStreamIDOrZero (StreamDep (h_Priority p)) \<and> \<not> illegal
      then (Some http2errDepStreamID, [])
      else
        let flags = flag_if (h_PadLength p \<noteq> 0) http2FlagHeadersPadded OR flag_if (h_EndStream p) http2FlagHeadersEndStream OR
              flag_if (h_EndHeaders p) http2FlagHeadersEndHeaders OR flag_if (\<not> IsZero (h_Priority p)) http2FlagHeadersPriority in
        endWrite wr (startWrite http2FrameHeaders flags (h_StreamID p) @
          (if h_PadLength p \<noteq> 0 then [h_PadLength p] else []) @
          (if \<not> IsZero (h_Priority p) then writeUint32 (exclusive_bit (h_Priority p)) @ [Weight (h_Priority p)] else []) @
          h_BlockFragment p @ pad_zeros (h_PadLength p)))"

definition WritePriority :: "h2_writer \<Rightarrow> bool \<Rightarrow> 32 word \<Rightarrow> http2PriorityParam \<Rightarrow> write_outcome" where
  "WritePriority wr illegal streamID p =
     (if \<not> http2validStreamID streamID \<and> \<not> illegal then (Some http2errStreamID, [])
      else if \<not> http2validStreamIDOrZero (StreamDep p) then (Some http2errDepStreamID, [])
      else endWrite wr (startWrite http2FramePriority 0 streamID @ writeUint32 (exclusive_bit p) @ [Weight p]))"

definition WriteRSTStream :: "h2_writer \<Rightarrow> bool \<Rightarrow> 32 word \<Rightarrow> 32 word \<Rightarrow> write_outcome" where
  "WriteRSTStream wr illegal streamID code =
     (if \<not> http2validStreamID streamID \<and> \<not> illegal then (Some http2errStreamID, [])
      else endWrite wr (startWrite http2FrameRSTStream 0 streamID @ writeUint32 code))"

definition WriteContinuation :: "h2_writer \<Rightarrow> bool \<Rightarrow> 32 word \<Rightarrow> bool \<Rightarrow> octets \<Rightarrow> write_outcome" where
  "WriteContinuation wr illegal streamID endHeaders headerBlockFragment =
     (if \<not> http2validStreamID streamID \<and> \<not> illegal then (Some http2errStreamID, [])
      else endWrite wr (startWrite http2FrameContinuation (flag_if endHeaders http2FlagContinuationEndHeaders) streamID @
        headerBlockFragment))"

record http2PushPromiseParam =
  pp_StreamID :: "32 word"
  pp_PromiseID :: "32 word"
  pp_BlockFragment :: octets
  pp_EndHeaders :: bool
  pp_PadLength :: "8 word"

definition WritePushPromise :: "h2_writer \<Rightarrow> bool \<Rightarrow> http2PushPromiseParam \<Rightarrow> write_outcome" where
  "WritePushPromise wr illegal p =
     (if \<not> http2validStreamID (pp_StreamID p) \<and> \<not> illegal then (Some http2errStreamID, [])
      else if \<not> http2validStreamID (pp_PromiseID p) \<and> \<not> illegal then (Some http2errStreamID, [])
      else
        let flags = flag_if (pp_PadLength p \<noteq> 0) http2FlagPushPromisePadded OR
              flag_if (pp_EndHeaders p) http2FlagPushPromiseEndHeaders in
        endWrite wr (startWrite http2FramePushPromise flags (pp_StreamID p) @
          (if pp_PadLength p \<noteq> 0 then [pp_PadLength p] else []) @
          writeUint32 (pp_PromiseID p) @ pp_BlockFragment p @ pad_zeros (pp_PadLength p)))"

definition WriteRawFrame :: "h2_writer \<Rightarrow> 8 word \<Rightarrow> 8 word \<Rightarrow> 32 word \<Rightarrow> octets \<Rightarrow> write_outcome" where
  "WriteRawFrame wr t flags streamID payload = endWrite wr (startWrite t flags streamID @ payload)"

section \<open>Numbers survive the wire\<close>

lemma Uint16_writeUint16 [simp]: "Uint16 (writeUint16 v) = v"
proof (rule bit_word_eqI)
  fix k assume "k < LENGTH(16)"
  then show "bit (Uint16 (writeUint16 v)) k \<longleftrightarrow> bit v k"
    by (cases "8 \<le> k") (auto simp: Uint16_def writeUint16_def bit_simps)
qed

lemma Uint32_writeUint32 [simp]: "Uint32 (writeUint32 v) = v"
proof (rule bit_word_eqI)
  fix k assume "k < LENGTH(32)"
  then consider "k < 8" | "8 \<le> k" "k < 16" | "16 \<le> k" "k < 24" | "24 \<le> k" "k < 32" by (simp, linarith)
  then show "bit (Uint32 (writeUint32 v)) k \<longleftrightarrow> bit v k"
    by cases (auto simp: Uint32_def writeUint32_def bit_simps)
qed

lemma length_writeUint [simp]: "length (writeUint16 v) = 2" "length (writeUint32 u) = 4"
  by (simp_all add: writeUint16_def writeUint32_def)

lemma take_writeUint32 [simp]: "take 4 (writeUint32 v @ q) = writeUint32 v" "drop 4 (writeUint32 v @ q) = q"
  by simp_all

lemma mask31_eq: "mask31 = mask 31"
  by (simp add: mask31_def mask_eq_exp_minus_1)

lemma bit_mask31: "bit mask31 k \<longleftrightarrow> k < 31"
  by (auto simp: mask31_eq bit_simps)

lemma bit_bit31: "bit bit31 k \<longleftrightarrow> k = 31"
  using bit_exp_iff [of 31 k, where 'a = "32 word"] by (auto simp: bit31_def)

lemma validStreamIDOrZero_bit: "http2validStreamIDOrZero v \<longleftrightarrow> \<not> bit v 31"
proof
  assume "http2validStreamIDOrZero v"
  then have "\<not> bit (v AND bit31) 31" by (simp add: http2validStreamIDOrZero_def)
  then show "\<not> bit v 31" by (simp add: bit_and_iff bit_bit31)
next
  assume "\<not> bit v 31"
  then show "http2validStreamIDOrZero v"
    unfolding http2validStreamIDOrZero_def by (intro bit_word_eqI) (auto simp: bit_and_iff bit_bit31)
qed

lemma validStreamID_bit: "http2validStreamID v \<longleftrightarrow> v \<noteq> 0 \<and> \<not> bit v 31"
  using validStreamIDOrZero_bit by (simp add: http2validStreamID_def http2validStreamIDOrZero_def)

lemma mask31_id [simp]: "\<not> bit v 31 \<Longrightarrow> v AND mask31 = v"
proof (rule bit_word_eqI)
  fix k assume "\<not> bit v 31" "k < LENGTH(32)"
  then show "bit (v AND mask31) k \<longleftrightarrow> bit v k"
    by (cases "k = 31") (auto simp: bit_and_iff bit_mask31)
qed

lemma mask31_high: "v AND mask31 = v \<longleftrightarrow> \<not> bit v 31"
  by (metis mask31_id bit_and_iff bit_mask31 less_irrefl)

lemma mask31_not_high [simp]: "\<not> bit (v AND mask31) 31"
  by (simp add: bit_and_iff bit_mask31)

lemma exclusive_bit_read:
  assumes "\<not> bit (StreamDep p) 31"
  shows "exclusive_bit p AND mask31 = StreamDep p" "(exclusive_bit p \<noteq> StreamDep p) = Exclusive p"
proof -
  have "(d OR bit31) AND mask31 = d" if "\<not> bit d 31" for d
  proof (rule bit_word_eqI)
    fix k assume "k < LENGTH(32)"
    then show "bit ((d OR bit31) AND mask31) k \<longleftrightarrow> bit d k"
      using that by (cases "k = 31") (auto simp: bit_and_iff bit_or_iff bit_mask31 bit_bit31)
  qed
  with assms show "exclusive_bit p AND mask31 = StreamDep p" by (simp add: exclusive_bit_def)
  have "bit (StreamDep p OR bit31) 31" by (simp add: bit_or_iff bit_bit31)
  with assms show "(exclusive_bit p \<noteq> StreamDep p) = Exclusive p" by (auto simp: exclusive_bit_def)
qed

section \<open>Settings survive the wire\<close>

lemma Settings_of_written:
  "Settings_of (concat (map (\<lambda>s. writeUint16 (s_ID s) @ writeUint32 (s_Val s)) ss)) = ss"
proof (induction ss)
  case (Cons s ss)
  let ?q = "concat (map (\<lambda>s. writeUint16 (s_ID s) @ writeUint32 (s_Val s)) ss)"
  let ?p = "writeUint16 (s_ID s) @ writeUint32 (s_Val s) @ ?q"
  have "Setting_at ?p (Suc i) = Setting_at ?q i" for i
    by (simp add: Setting_at_def add.commute)
  moreover have "Setting_at ?p 0 = s" by (simp add: Setting_at_def)
  moreover have "NumSettings ?p = Suc (NumSettings ?q)" by (simp add: NumSettings_def)
  ultimately have "Settings_of ?p = s # Settings_of ?q"
    by (simp add: Settings_of_def upt_conv_Cons del: upt_Suc) (simp add: map_Suc_upt [symmetric] del: upt_Suc)
  with Cons.IH show ?case by simp
qed (simp add: Settings_of_def NumSettings_def)

lemma has_pair_iff: "has_pair xs \<longleftrightarrow> \<not> distinct xs"
  by (induction xs) (auto simp: list_ex_iff)

lemma seen_before_iff: "seen_before seen xs \<longleftrightarrow> \<not> (distinct xs \<and> set xs \<inter> seen = {})"
  by (induction seen xs rule: seen_before.induct) auto

lemma HasDuplicates_iff: "HasDuplicates p \<longleftrightarrow> \<not> distinct (map s_ID (Settings_of p))"
  by (auto simp: HasDuplicates_def Let_def has_pair_iff seen_before_iff Settings_of_def)

lemma length_settings_octets:
  "length (concat (map (\<lambda>s. writeUint16 (s_ID s) @ writeUint32 (s_Val s)) ss)) = 6 * length ss"
  by (induction ss) simp_all

end
