(* ===== verification/H2Framer.thy ===== *)
theory H2Framer
  imports H2Frames
begin

text \<open>
  Reading frames: \<open>http2Framer\<close> with \<open>ReadFrame\<close>, \<open>checkFrameOrder\<close> and \<open>readMetaFrame\<close>, which decodes
  the header block of a HEADERS frame and the CONTINUATION frames behind it.

  A reader is the octets still to come and the error that \<open>Read\<close> returns behind them. A frame is a
  value: what the code does to the frame it returned last, which it marks as no longer valid, is done to
  the copy that the framer keeps. The callback that \<open>readMetaFrame\<close> gives to the decoder of HPACK may
  switch the decoding of strings off; \<open>meta_loop\<close> is the loop of the decoder's \<open>Write\<close> with this
  callback, which runs at the end of each representation.
\<close>

section \<open>Frame headers\<close>

record h2_reader =
  rd :: octets
  rd_err :: io_error

definition io_ReadFull :: "h2_reader \<Rightarrow> nat \<Rightarrow> (io_error + octets) \<times> h2_reader" where
  "io_ReadFull r n =
     (if n \<le> length (rd r) then (Inr (take n (rd r)), r\<lparr>rd := drop n (rd r)\<rparr>)
      else (Inl (if rd r \<noteq> [] \<and> rd_err r = EOF then ErrUnexpectedEOF else rd_err r), r\<lparr>rd := []\<rparr>))"

definition http2readFrameHeader :: "h2_reader \<Rightarrow> (http2_error + http2FrameHeader) \<times> h2_reader" where
  "http2readFrameHeader r =
     (case io_ReadFull r http2frameHeaderLen of
        (Inl e, r) \<Rightarrow> (Inl (IOError e), r)
      | (Inr buf, r) \<Rightarrow>
          (Inr \<lparr>fh_valid = True, fh_Type = buf ! 3, fh_Flags = buf ! 4,
                fh_Length = push_bit 16 (ucast (buf ! 0)) OR push_bit 8 (ucast (buf ! 1)) OR ucast (buf ! 2),
                fh_StreamID = Uint32 (drop 5 buf) AND mask31\<rparr>, r))"

section \<open>The framer\<close>

record http2Framer =
  fr_r :: h2_reader
  lastFrame :: "http2Frame option"
  errDetail :: "http2_error option"
  lastHeaderStream :: "32 word"
  maxReadSize :: "32 word"
  AllowIllegalReads :: bool
  ReadMetaHeaders :: "Decoder option"
  MaxHeaderListSize :: "32 word"

definition http2maxFrameSize :: "32 word" where "http2maxFrameSize = 0xffffff"

definition SetMaxReadFrameSize :: "http2Framer \<Rightarrow> 32 word \<Rightarrow> http2Framer" where
  "SetMaxReadFrameSize fr v = fr\<lparr>maxReadSize := if http2maxFrameSize < v then http2maxFrameSize else v\<rparr>"

definition http2NewFramer :: "h2_reader \<Rightarrow> http2Framer" where
  "http2NewFramer r = SetMaxReadFrameSize
     \<lparr>fr_r = r, lastFrame = None, errDetail = None, lastHeaderStream = 0, maxReadSize = 0, AllowIllegalReads = False,
      ReadMetaHeaders = None, MaxHeaderListSize = 0\<rparr> http2maxFrameSize"

definition maxHeaderListSize :: "http2Framer \<Rightarrow> 32 word" where
  "maxHeaderListSize fr = (if MaxHeaderListSize fr = 0 then 16777216 else MaxHeaderListSize fr)"

definition http2terminalReadFrameError :: "http2_error \<Rightarrow> bool" where
  "http2terminalReadFrameError e \<longleftrightarrow> (case e of http2StreamError _ _ _ \<Rightarrow> False | _ \<Rightarrow> True)"

definition connError :: "http2Framer \<Rightarrow> 32 word \<Rightarrow> string \<Rightarrow> http2_error \<times> http2Framer" where
  "connError fr code reason = (http2ConnectionError code, fr\<lparr>errDetail := Some (TextError reason)\<rparr>)"

fun invalidate :: "http2Frame \<Rightarrow> http2Frame" where
  "invalidate (http2DataFrame h d) = http2DataFrame (h\<lparr>fh_valid := False\<rparr>) d"
| "invalidate (http2HeadersFrame h p d) = http2HeadersFrame (h\<lparr>fh_valid := False\<rparr>) p d"
| "invalidate (http2PriorityFrame h p) = http2PriorityFrame (h\<lparr>fh_valid := False\<rparr>) p"
| "invalidate (http2RSTStreamFrame h c) = http2RSTStreamFrame (h\<lparr>fh_valid := False\<rparr>) c"
| "invalidate (http2SettingsFrame h d) = http2SettingsFrame (h\<lparr>fh_valid := False\<rparr>) d"
| "invalidate (http2PushPromiseFrame h i d) = http2PushPromiseFrame (h\<lparr>fh_valid := False\<rparr>) i d"
| "invalidate (http2PingFrame h d) = http2PingFrame (h\<lparr>fh_valid := False\<rparr>) d"
| "invalidate (http2GoAwayFrame h i c d) = http2GoAwayFrame (h\<lparr>fh_valid := False\<rparr>) i c d"
| "invalidate (http2WindowUpdateFrame h i) = http2WindowUpdateFrame (h\<lparr>fh_valid := False\<rparr>) i"
| "invalidate (http2ContinuationFrame h d) = http2ContinuationFrame (h\<lparr>fh_valid := False\<rparr>) d"
| "invalidate (http2UnknownFrame h d) = http2UnknownFrame (h\<lparr>fh_valid := False\<rparr>) d"
| "invalidate (http2MetaHeadersFrame h p f t) = http2MetaHeadersFrame (h\<lparr>fh_valid := False\<rparr>) p f t"

definition checkFrameOrder :: "http2Framer \<Rightarrow> http2Frame \<Rightarrow> http2_error option \<times> http2Framer" where
  "checkFrameOrder fr f =
     (let last = lastFrame fr; fr = fr\<lparr>lastFrame := Some f\<rparr>; fh = Header f;
          accept = (None, if fh_Type fh = http2FrameHeaders \<or> fh_Type fh = http2FrameContinuation
                          then fr\<lparr>lastHeaderStream := if Has (fh_Flags fh) http2FlagHeadersEndHeaders then 0 else fh_StreamID fh\<rparr>
                          else fr) in
      if AllowIllegalReads fr then (None, fr)
      else if lastHeaderStream fr \<noteq> 0 then
        if fh_Type fh \<noteq> http2FrameContinuation then
          (case last of
             None \<Rightarrow> (Some H2Panic, fr)
           | Some l \<Rightarrow>
               apfst Some (connError fr http2ErrCodeProtocol
                 (''got '' @ http2FrameType_String (fh_Type fh) @ '' for stream '' @ Itoa (uint (fh_StreamID fh)) @
                  ''; expected CONTINUATION following '' @ http2FrameType_String (fh_Type (Header l)) @
                  '' for stream '' @ Itoa (uint (lastHeaderStream fr)))))
        else if fh_StreamID fh \<noteq> lastHeaderStream fr then
          apfst Some (connError fr http2ErrCodeProtocol
            (''got CONTINUATION for stream '' @ Itoa (uint (fh_StreamID fh)) @ ''; expected stream '' @ Itoa (uint (lastHeaderStream fr))))
        else accept
      else if fh_Type fh = http2FrameContinuation then
        apfst Some (connError fr http2ErrCodeProtocol (''unexpected CONTINUATION for stream '' @ Itoa (uint (fh_StreamID fh))))
      else accept)"

definition read_frame :: "http2Framer \<Rightarrow> (http2_error + http2Frame) \<times> http2Framer" where
  \<comment> \<open>\<open>ReadFrame\<close> up to the test for HEADERS at its end\<close>
  "read_frame fr =
     (let fr = fr\<lparr>errDetail := None, lastFrame := map_option invalidate (lastFrame fr)\<rparr> in
      case http2readFrameHeader (fr_r fr) of
        (Inl e, r) \<Rightarrow> (Inl e, fr\<lparr>fr_r := r\<rparr>)
      | (Inr fh, r) \<Rightarrow>
          if maxReadSize fr < fh_Length fh then (Inl http2ErrFrameTooLarge, fr\<lparr>fr_r := r\<rparr>)
          else
            (case io_ReadFull r (unat (fh_Length fh)) of
               (Inl e, r) \<Rightarrow> (Inl (IOError e), fr\<lparr>fr_r := r\<rparr>)
             | (Inr payload, r) \<Rightarrow>
                 let fr = fr\<lparr>fr_r := r\<rparr> in
                 (case http2typeFrameParser (fh_Type fh) fh payload of
                    Inl (http2connError code reason) \<Rightarrow> apfst Inl (connError fr code reason)
                  | Inl e \<Rightarrow> (Inl e, fr)
                  | Inr f \<Rightarrow>
                      (case checkFrameOrder fr f of
                         (Some e, fr) \<Rightarrow> (Inl e, fr)
                       | (None, fr) \<Rightarrow> (Inr f, fr)))))"

section \<open>Header blocks\<close>

definition chars_of :: "octets \<Rightarrow> string" where
  "chars_of s = map (\<lambda>b. char_of (unat b)) s"

definition http2validWireHeaderFieldName :: "octets \<Rightarrow> bool" where
  "http2validWireHeaderFieldName v =
     (if v = [] then False
      else list_all (\<lambda>c. IsTokenRune c \<and> \<not> (ord (CHR ''A'') \<le> ord c \<and> ord c \<le> ord (CHR ''Z''))) (chars_of v))"

record meta_state =
  remainSize :: "32 word"
  sawRegular :: bool
  m_invalid :: "http2_error option"
  m_Fields :: "HeaderField list"
  m_Truncated :: bool

definition meta_emit :: "HeaderField \<Rightarrow> Decoder \<times> meta_state \<Rightarrow> Decoder \<times> meta_state" where
  \<comment> \<open>the callback given to the decoder\<close>
  "meta_emit hf = (\<lambda>(d, m).
     (let m = (if \<not> ValidHeaderFieldValue (chars_of (Value hf)) then m\<lparr>m_invalid := Some (http2headerFieldValueError (Value hf))\<rparr> else m);
          isPseudo = (take 1 (Name hf) = octets_of '':'');
          m = (if isPseudo then if sawRegular m then m\<lparr>m_invalid := Some http2errPseudoAfterRegular\<rparr> else m
               else let m = m\<lparr>sawRegular := True\<rparr> in
                    if \<not> http2validWireHeaderFieldName (Name hf) then m\<lparr>m_invalid := Some (http2headerFieldNameError (Name hf))\<rparr> else m) in
      if m_invalid m \<noteq> None then (d\<lparr>emitEnabled := False\<rparr>, m)
      else if remainSize m < Size hf then (d\<lparr>emitEnabled := False\<rparr>, m\<lparr>m_Truncated := True\<rparr>)
      else (d, m\<lparr>remainSize := remainSize m - Size hf, m_Fields := m_Fields m @ [hf]\<rparr>)))"

lemma meta_emit_buf [simp]: "d_buf (fst (fold meta_emit fs (d, m))) = d_buf d"
proof (induction fs arbitrary: d m)
  case (Cons f fs)
  obtain d1 m1 where e: "meta_emit f (d, m) = (d1, m1)" by fastforce
  then have "d_buf d1 = d_buf d" by (auto simp: meta_emit_def Let_def split: if_splits)
  with Cons.IH [of d1 m1] e show ?case by simp
qed simp

function meta_loop :: "Decoder \<Rightarrow> meta_state \<Rightarrow> hpack_error option \<times> Decoder \<times> meta_state" where
  "meta_loop d m =
     (if d_buf d = [] then (None, d, m)
      else
        (case parseHeaderFieldRepr (d\<lparr>emitted := []\<rparr>) of
           (None, d') \<Rightarrow> (case fold meta_emit (emitted d') (d', m) of (d', m') \<Rightarrow> meta_loop d' m')
         | (Some e, d') \<Rightarrow>
             if e = NeedMore then
               if maxStrLen d' \<noteq> 0 \<and> int (length (d_buf d')) > sint (word_of_int (2 * (maxStrLen d' + 8)) :: 64 word)
               then (Some hpack_error.ErrStringLength, d', m)
               else (None, d'\<lparr>saveBuf := saveBuf d' @ d_buf d'\<rparr>, m)
             else (Some e, d', m)))"
  by auto
termination
proof (relation "measure (\<lambda>(d, m). length (d_buf d))", goal_cases)
  case (2 d m r d1 d2 m2)
  have "d_buf d2 = d_buf d1" using meta_emit_buf [of "emitted d1" d1 m] unfolding 2(4) [symmetric] by simp
  moreover have "length (d_buf d1) < length (d_buf d)" using parse_shorter [of "d\<lparr>emitted := []\<rparr>" d1] 2 by simp
  ultimately show ?case by simp
qed simp

declare meta_loop.simps [simp del]

definition meta_Write :: "Decoder \<Rightarrow> octets \<Rightarrow> meta_state \<Rightarrow> hpack_error option \<times> Decoder \<times> meta_state" where
  "meta_Write d p m =
     (if p = [] then (None, d, m)
      else meta_loop (if saveBuf d = [] then d\<lparr>d_buf := p\<rparr> else d\<lparr>d_buf := saveBuf d @ p, saveBuf := []\<rparr>) m)"

definition PseudoFields :: "HeaderField list \<Rightarrow> HeaderField list" where
  "PseudoFields fs = takeWhile IsPseudo fs"

definition RegularFields :: "HeaderField list \<Rightarrow> HeaderField list" where
  "RegularFields fs = dropWhile IsPseudo fs"

fun PseudoValue :: "HeaderField list \<Rightarrow> octets \<Rightarrow> octets" where
  "PseudoValue [] pseudo = []"
| "PseudoValue (hf # fs) pseudo =
     (if \<not> IsPseudo hf then []
      else if drop 1 (Name hf) = pseudo then Value hf
      else PseudoValue fs pseudo)"

definition request_pseudos :: "octets list" where
  "request_pseudos = map octets_of ['':method'', '':path'', '':scheme'', '':authority'']"

fun check_pseudos :: "octets list \<Rightarrow> bool \<Rightarrow> bool \<Rightarrow> HeaderField list \<Rightarrow> http2_error option" where
  \<comment> \<open>the names before, the two flags and the fields to come\<close>
  "check_pseudos before isRequest isResponse [] =
     (if isRequest \<and> isResponse then Some http2errMixPseudoHeaderTypes else None)"
| "check_pseudos before isRequest isResponse (hf # fs) =
     (if Name hf \<notin> set request_pseudos \<and> Name hf \<noteq> octets_of '':status'' then Some (http2pseudoHeaderError (Name hf))
      else if Name hf \<in> set before then Some (http2duplicatePseudoHeaderError (Name hf))
      else check_pseudos (before @ [Name hf]) (isRequest \<or> Name hf \<in> set request_pseudos)
             (isResponse \<or> Name hf = octets_of '':status'') fs)"

definition checkPseudos :: "HeaderField list \<Rightarrow> http2_error option" where
  "checkPseudos fs = check_pseudos [] False False (PseudoFields fs)"

definition maxHeaderStringLen :: "http2Framer \<Rightarrow> int" where
  "maxHeaderStringLen fr =
     (let v = maxHeaderListSize fr in if (word_of_int (uint v) :: 32 word) = v then uint v else 0)"

section \<open>Reading consumes\<close>

lemma io_ReadFull_length: "io_ReadFull r n = (Inr b, r') \<Longrightarrow> length (rd r) = n + length (rd r') \<and> length b = n"
  by (auto simp: io_ReadFull_def split: if_splits)

lemma checkFrameOrder_reader: "checkFrameOrder fr f = (e, fr') \<Longrightarrow> fr_r fr' = fr_r fr"
  by (auto simp: checkFrameOrder_def Let_def connError_def split: if_splits option.splits)

lemma read_frame_shorter: "read_frame fr = (Inr f, fr') \<Longrightarrow> length (rd (fr_r fr')) < length (rd (fr_r fr))"
  by (auto simp: read_frame_def http2readFrameHeader_def Let_def connError_def http2frameHeaderLen_def
      split: prod.splits sum.splits if_splits option.splits http2_error.splits
      dest!: io_ReadFull_length checkFrameOrder_reader)

section \<open>Merging header frames\<close>

definition HeadersEnded :: "http2Frame \<Rightarrow> bool" where
  \<comment> \<open>of HEADERS and CONTINUATION frames; both flags have the same value\<close>
  "HeadersEnded f = Has (fh_Flags (Header f)) http2FlagHeadersEndHeaders"

function meta_frames :: "http2Framer \<Rightarrow> Decoder \<Rightarrow> meta_state \<Rightarrow> http2FrameHeader \<Rightarrow> octets \<Rightarrow>
    http2_error option \<times> http2Framer \<times> Decoder \<times> meta_state" where
  \<comment> \<open>the loop of \<open>readMetaFrame\<close>; the header and the fragment are those of \<open>hc\<close>\<close>
  "meta_frames fr d m fh frag =
     (if \<not> fh_valid fh then (Some H2Panic, fr, d, m)
      else case meta_Write d frag m of
        (Some _, d, m) \<Rightarrow> (Some (http2ConnectionError http2ErrCodeCompression), fr, d, m)
      | (None, d, m) \<Rightarrow>
          if Has (fh_Flags fh) http2FlagHeadersEndHeaders then (None, fr, d, m)
          else
            (case read_frame fr of
               (Inl e, fr) \<Rightarrow> (Some e, fr, d, m)
             | (Inr (http2ContinuationFrame fh frag), fr) \<Rightarrow> meta_frames fr d m fh frag
             | (Inr _, fr) \<Rightarrow> (Some H2Panic, fr, d, m)))"
  by auto
termination
  by (relation "measure (\<lambda>(fr, d, m, fh, frag). length (rd (fr_r fr)))") (auto dest: read_frame_shorter [OF sym])

declare meta_frames.simps [simp del]

definition readMetaFrame :: "http2Framer \<Rightarrow> Decoder \<Rightarrow> http2FrameHeader \<Rightarrow> http2PriorityParam \<Rightarrow> octets \<Rightarrow>
    (http2_error + http2Frame) \<times> http2Framer" where
  "readMetaFrame fr hdec fh prio frag =
     (if AllowIllegalReads fr then (Inl (TextError ''illegal use of AllowIllegalReads with ReadMetaHeaders''), fr)
      else
        let hdec = hdec\<lparr>emitEnabled := True, maxStrLen := maxHeaderStringLen fr\<rparr>;
            m = \<lparr>remainSize = maxHeaderListSize fr, sawRegular = False, m_invalid = None, m_Fields = [], m_Truncated = False\<rparr> in
        (case meta_frames fr hdec m fh frag of
           (Some e, fr, hdec, m) \<Rightarrow> (Inl e, fr\<lparr>ReadMetaHeaders := Some hdec\<rparr>)
         | (None, fr, hdec, m) \<Rightarrow>
             (case Decoder_Close hdec of
                (Some _, hdec) \<Rightarrow> (Inl (http2ConnectionError http2ErrCodeCompression), fr\<lparr>ReadMetaHeaders := Some hdec\<rparr>)
              | (None, hdec) \<Rightarrow>
                  let fr = fr\<lparr>ReadMetaHeaders := Some hdec\<rparr> in
                  (case (case m_invalid m of Some e \<Rightarrow> Some e | None \<Rightarrow> checkPseudos (m_Fields m)) of
                     Some e \<Rightarrow> (Inl (http2StreamError (fh_StreamID fh) http2ErrCodeProtocol (Some e)), fr\<lparr>errDetail := Some e\<rparr>)
                   | None \<Rightarrow> (Inr (http2MetaHeadersFrame (fh\<lparr>fh_valid := False\<rparr>) prio (m_Fields m) (m_Truncated m)), fr)))))"

definition ReadFrame :: "http2Framer \<Rightarrow> (http2_error + http2Frame) \<times> http2Framer" where
  "ReadFrame fr =
     (case read_frame fr of
        (Inl e, fr) \<Rightarrow> (Inl e, fr)
      | (Inr f, fr) \<Rightarrow>
          (case ReadMetaHeaders fr of
             None \<Rightarrow> (Inr f, fr)
           | Some hdec \<Rightarrow>
               if fh_Type (Header f) = http2FrameHeaders then
                 (case f of
                    http2HeadersFrame fh prio frag \<Rightarrow> readMetaFrame fr hdec fh prio frag
                  | _ \<Rightarrow> (Inl H2Panic, fr))
               else (Inr f, fr)))"

section \<open>The types of what is read\<close>

lemma http2typeFrameParser_header: "http2typeFrameParser t fh p = Inr f \<Longrightarrow> Header f = fh"
  by (auto simp: http2typeFrameParser_def http2frameParsers_def frame_types
      http2parseDataFrame_def http2parseHeadersFrame_def http2parsePriorityFrame_def http2parseRSTStreamFrame_def
      http2parseSettingsFrame_def http2parsePushPromise_def http2parsePingFrame_def http2parseGoAwayFrame_def
      http2parseWindowUpdateFrame_def http2parseContinuationFrame_def http2parseUnknownFrame_def Let_def go_result
      split: if_splits)

definition frame_shape :: "http2Frame \<Rightarrow> 8 word option" where
  \<comment> \<open>the type that belongs to a form of frame\<close>
  "frame_shape f =
     (case f of
        http2DataFrame _ _ \<Rightarrow> Some http2FrameData | http2HeadersFrame _ _ _ \<Rightarrow> Some http2FrameHeaders
      | http2PriorityFrame _ _ \<Rightarrow> Some http2FramePriority | http2RSTStreamFrame _ _ \<Rightarrow> Some http2FrameRSTStream
      | http2SettingsFrame _ _ \<Rightarrow> Some http2FrameSettings | http2PushPromiseFrame _ _ _ \<Rightarrow> Some http2FramePushPromise
      | http2PingFrame _ _ \<Rightarrow> Some http2FramePing | http2GoAwayFrame _ _ _ _ \<Rightarrow> Some http2FrameGoAway
      | http2WindowUpdateFrame _ _ \<Rightarrow> Some http2FrameWindowUpdate | http2ContinuationFrame _ _ \<Rightarrow> Some http2FrameContinuation
      | http2UnknownFrame _ _ \<Rightarrow> None | http2MetaHeadersFrame _ _ _ _ \<Rightarrow> Some http2FrameHeaders)"

lemma http2typeFrameParser_shape:
  "http2typeFrameParser t fh p = Inr f \<Longrightarrow>
     (case frame_shape f of Some s \<Rightarrow> s = t | None \<Rightarrow> t \<notin> fst ` set http2frameParsers) \<and> (\<forall>h p l b. f \<noteq> http2MetaHeadersFrame h p l b)"
  by (auto simp: http2typeFrameParser_def http2frameParsers_def frame_types frame_shape_def
      http2parseDataFrame_def http2parseHeadersFrame_def http2parsePriorityFrame_def http2parseRSTStreamFrame_def
      http2parseSettingsFrame_def http2parsePushPromise_def http2parsePingFrame_def http2parseGoAwayFrame_def
      http2parseWindowUpdateFrame_def http2parseContinuationFrame_def http2parseUnknownFrame_def Let_def go_result
      split: if_splits)

lemma read_frame_Inr:
  assumes "read_frame fr = (Inr f, fr')"
  obtains fr1 p where "fh_valid (Header f)" "http2typeFrameParser (fh_Type (Header f)) (Header f) p = Inr f"
    "checkFrameOrder fr1 f = (None, fr')" "lastHeaderStream fr1 = lastHeaderStream fr"
    "AllowIllegalReads fr1 = AllowIllegalReads fr" "ReadMetaHeaders fr1 = ReadMetaHeaders fr"
    "MaxHeaderListSize fr1 = MaxHeaderListSize fr"
proof -
  let ?fr = "fr\<lparr>errDetail := None, lastFrame := map_option invalidate (lastFrame fr)\<rparr>"
  obtain fh r1 where h: "http2readFrameHeader (fr_r fr) = (Inr fh, r1)"
    using assms by (auto simp: read_frame_def Let_def split: prod.splits sum.splits)
  obtain p r2 where p: "io_ReadFull r1 (unat (fh_Length fh)) = (Inr p, r2)"
    using assms h by (auto simp: read_frame_def Let_def split: prod.splits sum.splits if_splits)
  have t: "http2typeFrameParser (fh_Type fh) fh p = Inr f" and o: "checkFrameOrder (?fr\<lparr>fr_r := r2\<rparr>) f = (None, fr')"
    using assms h p
    by (auto simp: read_frame_def Let_def connError_def split: prod.splits sum.splits if_splits option.splits http2_error.splits)
  have "fh_valid fh" using h by (auto simp: http2readFrameHeader_def split: prod.splits sum.splits)
  then show thesis using that [of p "?fr\<lparr>fr_r := r2\<rparr>"] http2typeFrameParser_header [OF t] t o by simp
qed

section \<open>What is written is read\<close>

definition header_of :: "8 word \<Rightarrow> 8 word \<Rightarrow> nat \<Rightarrow> 32 word \<Rightarrow> http2FrameHeader" where
  "header_of t flags len sid = \<lparr>fh_valid = True, fh_Type = t, fh_Flags = flags, fh_Length = word_of_nat len, fh_StreamID = sid\<rparr>"

lemma length_startWrite [simp]: "length (startWrite t flags sid) = 9"
  by (simp add: startWrite_def)

lemma endWrite_written:
  assumes "endWrite wr (startWrite t flags sid @ payload) = (e, [buf])"
  shows "length payload < 2 ^ 24 \<and> length buf = 9 + length payload \<and>
    buf = [word_of_nat (drop_bit 16 (length payload)), word_of_nat (drop_bit 8 (length payload)), word_of_nat (length payload), t, flags] @
      writeUint32 sid @ payload"
  using assms by (auto simp: endWrite_def http2frameHeaderLen_def Let_def startWrite_def writeUint32_def split: if_splits)

lemma length_octets:
  fixes n :: nat
  assumes "n < 2 ^ 24"
  shows "push_bit 16 (ucast (word_of_nat (drop_bit 16 n) :: 8 word)) OR push_bit 8 (ucast (word_of_nat (drop_bit 8 n) :: 8 word)) OR
    ucast (word_of_nat n :: 8 word) = (word_of_nat n :: 32 word)"
proof (rule bit_word_eqI)
  fix k assume "k < LENGTH(32)"
  moreover have "\<not> bit n k" if "24 \<le> k" for k
    using assms that by (metis bit_take_bit_iff leD take_bit_nat_eq_self_iff)
  ultimately consider "k < 8" | "8 \<le> k" "k < 16" | "16 \<le> k" "k < 24" | "24 \<le> k" "\<not> bit n k" by (cases "24 \<le> k") (simp_all, linarith)
  then show "bit (push_bit 16 (ucast (word_of_nat (drop_bit 16 n) :: 8 word)) OR push_bit 8 (ucast (word_of_nat (drop_bit 8 n) :: 8 word)) OR
      ucast (word_of_nat n :: 8 word) :: 32 word) k \<longleftrightarrow> bit (word_of_nat n :: 32 word) k"
    using \<open>k < LENGTH(32)\<close> by cases (auto simp: bit_simps)
qed

lemma read_frame_written:
  assumes "endWrite wr (startWrite t flags sid @ payload) = (e, [buf])" "rd (fr_r fr) = buf @ rest"
    "length payload \<le> unat (maxReadSize fr)" "\<not> bit sid 31"
    "http2typeFrameParser t (header_of t flags (length payload) sid) payload = Inr f"
  shows "read_frame fr =
    (case checkFrameOrder (fr\<lparr>errDetail := None, lastFrame := map_option invalidate (lastFrame fr), fr_r := (fr_r fr)\<lparr>rd := rest\<rparr>\<rparr>) f of
       (Some e, fr) \<Rightarrow> (Inl e, fr)
     | (None, fr) \<Rightarrow> (Inr f, fr))"
proof -
  let ?h = "header_of t flags (length payload) sid" and ?b = "take 9 buf"
  note w = endWrite_written [OF assms(1)]
  have n: "unat (word_of_nat (length payload) :: 32 word) = length payload" using w by (simp add: unat_of_nat)
  have h: "http2readFrameHeader (fr_r fr) = (Inr ?h, (fr_r fr)\<lparr>rd := payload @ rest\<rparr>)"
    using w assms(2,4) length_octets [of "length payload"]
    by (simp add: http2readFrameHeader_def io_ReadFull_def http2frameHeaderLen_def header_of_def)
  have "\<not> maxReadSize fr < fh_Length ?h" using assms(3) n by (simp add: header_of_def word_less_nat_alt)
  with h n assms(5) show ?thesis
    by (simp add: read_frame_def Let_def io_ReadFull_def header_of_def)
qed

end
