(* ===== verification/H2Round.thy ===== *)
theory H2Round
  imports H2Framer
begin

text \<open>
  Frames between two framers: what the \<open>Write\<close> methods of \<open>http2Framer\<close> (theory \<open>H2Frames\<close>) send, its \<open>ReadFrame\<close> (theory \<open>H2Framer\<close>)
  returns, and which orders of frames a reader lets pass. The theory models no code of its own.
\<close>

datatype write_call =
    CallData "32 word" bool octets "octets option"
  | CallHeaders http2HeadersFrameParam
  | CallPriority "32 word" http2PriorityParam
  | CallRSTStream "32 word" "32 word"
  | CallSettings "http2Setting list"
  | CallSettingsAck
  | CallPushPromise http2PushPromiseParam
  | CallPing bool octets
  | CallGoAway "32 word" "32 word" octets
  | CallWindowUpdate "32 word" "32 word"
  | CallContinuation "32 word" bool octets
  | CallRaw "8 word" "8 word" "32 word" octets

primrec run_call :: "h2_writer \<Rightarrow> bool \<Rightarrow> write_call \<Rightarrow> write_outcome" where
  "run_call wr illegal (CallData sid e data pad) = WriteDataPadded wr illegal sid e data pad"
| "run_call wr illegal (CallHeaders p) = WriteHeaders wr illegal p"
| "run_call wr illegal (CallPriority sid p) = WritePriority wr illegal sid p"
| "run_call wr illegal (CallRSTStream sid code) = WriteRSTStream wr illegal sid code"
| "run_call wr illegal (CallSettings ss) = WriteSettings wr ss"
| "run_call wr illegal CallSettingsAck = WriteSettingsAck wr"
| "run_call wr illegal (CallPushPromise p) = WritePushPromise wr illegal p"
| "run_call wr illegal (CallPing ack data) = WritePing wr ack data"
| "run_call wr illegal (CallGoAway sid code debug) = WriteGoAway wr sid code debug"
| "run_call wr illegal (CallWindowUpdate sid incr) = WriteWindowUpdate wr illegal sid incr"
| "run_call wr illegal (CallContinuation sid e frag) = WriteContinuation wr illegal sid e frag"
| "run_call wr illegal (CallRaw t flags sid payload) = WriteRawFrame wr t flags sid payload"

primrec readable :: "write_call \<Rightarrow> bool" where
  \<comment> \<open>what the methods do not check, but the parsers do\<close>
  "readable (CallData sid e data pad) = True"
| "readable (CallHeaders p) = (h_BlockFragment p \<noteq> [])"
| "readable (CallPriority sid p) = True"
| "readable (CallRSTStream sid code) = True"
| "readable (CallSettings ss) = (case find (\<lambda>s. s_ID s = http2SettingInitialWindowSize) ss of None \<Rightarrow> True | Some s \<Rightarrow> s_Val s \<le> mask31)"
| "readable CallSettingsAck = True"
| "readable (CallPushPromise p) = True"
| "readable (CallPing ack data) = (length data = 8)"
| "readable (CallGoAway sid code debug) = True"
| "readable (CallWindowUpdate sid incr) = (\<not> bit sid 31)"
| "readable (CallContinuation sid e frag) = True"
| "readable (CallRaw t flags sid payload) = (http2FrameContinuation < t \<and> \<not> bit sid 31)"

primrec frame_of :: "write_call \<Rightarrow> nat \<Rightarrow> http2Frame" where
  \<comment> \<open>the frame that a call asks for, given the length of its payload\<close>
  "frame_of (CallData sid e data pad) n =
     http2DataFrame (header_of http2FrameData (flag_if e http2FlagDataEndStream OR flag_if (pad \<noteq> None) http2FlagDataPadded) n sid) data"
| "frame_of (CallHeaders p) n =
     http2HeadersFrame (header_of http2FrameHeaders
       (flag_if (h_PadLength p \<noteq> 0) http2FlagHeadersPadded OR flag_if (h_EndStream p) http2FlagHeadersEndStream OR
        flag_if (h_EndHeaders p) http2FlagHeadersEndHeaders OR flag_if (\<not> IsZero (h_Priority p)) http2FlagHeadersPriority) n (h_StreamID p))
       (h_Priority p) (h_BlockFragment p)"
| "frame_of (CallPriority sid p) n = http2PriorityFrame (header_of http2FramePriority 0 n sid) p"
| "frame_of (CallRSTStream sid code) n = http2RSTStreamFrame (header_of http2FrameRSTStream 0 n sid) code"
| "frame_of (CallSettings ss) n =
     http2SettingsFrame (header_of http2FrameSettings 0 n 0) (concat (map (\<lambda>s. writeUint16 (s_ID s) @ writeUint32 (s_Val s)) ss))"
| "frame_of CallSettingsAck n = http2SettingsFrame (header_of http2FrameSettings http2FlagSettingsAck n 0) []"
| "frame_of (CallPushPromise p) n =
     http2PushPromiseFrame (header_of http2FramePushPromise
       (flag_if (pp_PadLength p \<noteq> 0) http2FlagPushPromisePadded OR flag_if (pp_EndHeaders p) http2FlagPushPromiseEndHeaders) n (pp_StreamID p))
       (pp_PromiseID p) (pp_BlockFragment p)"
| "frame_of (CallPing ack data) n = http2PingFrame (header_of http2FramePing (flag_if ack http2FlagPingAck) n 0) data"
| "frame_of (CallGoAway sid code debug) n = http2GoAwayFrame (header_of http2FrameGoAway 0 n 0) (sid AND mask31) code debug"
| "frame_of (CallWindowUpdate sid incr) n = http2WindowUpdateFrame (header_of http2FrameWindowUpdate 0 n sid) incr"
| "frame_of (CallContinuation sid e frag) n =
     http2ContinuationFrame (header_of http2FrameContinuation (flag_if e http2FlagContinuationEndHeaders) n sid) frag"
| "frame_of (CallRaw t flags sid payload) n = http2UnknownFrame (header_of t flags n sid) payload"

lemma header_of_sel [simp]:
  "fh_valid (header_of t flags n sid)" "fh_Type (header_of t flags n sid) = t" "fh_Flags (header_of t flags n sid) = flags"
  "fh_Length (header_of t flags n sid) = word_of_nat n" "fh_StreamID (header_of t flags n sid) = sid"
  by (simp_all add: header_of_def)

lemma Has_data: 
  "Has (flag_if e http2FlagDataEndStream OR flag_if p http2FlagDataPadded) http2FlagDataPadded \<longleftrightarrow> p"
  by (cases e; cases p) (simp_all add: Has_def flag_if_def frame_flags)

lemma Has_headers:
  assumes "fl = flag_if a http2FlagHeadersPadded OR flag_if b http2FlagHeadersEndStream OR flag_if c http2FlagHeadersEndHeaders OR flag_if d http2FlagHeadersPriority"
  shows "Has fl http2FlagHeadersPadded \<longleftrightarrow> a" "Has fl http2FlagHeadersPriority \<longleftrightarrow> d" "Has fl http2FlagHeadersEndHeaders \<longleftrightarrow> c"
    "Has fl http2FlagHeadersEndStream \<longleftrightarrow> b"
  unfolding assms by (cases a; cases b; cases c; cases d; simp add: Has_def flag_if_def frame_flags)+

lemma Has_push:
  "Has (flag_if a http2FlagPushPromisePadded OR flag_if b http2FlagPushPromiseEndHeaders) http2FlagPushPromisePadded \<longleftrightarrow> a"
  by (cases a; cases b) (simp_all add: Has_def flag_if_def frame_flags)

lemma parser_of [simp]:
  "http2typeFrameParser http2FrameData = http2parseDataFrame"
  "http2typeFrameParser http2FrameHeaders = http2parseHeadersFrame"
  "http2typeFrameParser http2FramePriority = http2parsePriorityFrame"
  "http2typeFrameParser http2FrameRSTStream = http2parseRSTStreamFrame"
  "http2typeFrameParser http2FrameSettings = http2parseSettingsFrame"
  "http2typeFrameParser http2FramePushPromise = http2parsePushPromise"
  "http2typeFrameParser http2FramePing = http2parsePingFrame"
  "http2typeFrameParser http2FrameGoAway = http2parseGoAwayFrame"
  "http2typeFrameParser http2FrameWindowUpdate = http2parseWindowUpdateFrame"
  "http2typeFrameParser http2FrameContinuation = http2parseContinuationFrame"
  "http2FrameContinuation < t \<Longrightarrow> http2typeFrameParser t = http2parseUnknownFrame"
  by (auto simp: http2typeFrameParser_def http2frameParsers_def frame_types split: option.split)

definition reads_as :: "h2_writer \<Rightarrow> http2_error option \<Rightarrow> octets \<Rightarrow> (nat \<Rightarrow> http2Frame) \<Rightarrow> bool" where
  \<comment> \<open>the buffer is a frame whose payload is parsed to the frame given for its length\<close>
  "reads_as wr e buf f \<longleftrightarrow> (\<exists>t flags sid payload.
     endWrite wr (startWrite t flags sid @ payload) = (e, [buf]) \<and> \<not> bit sid 31 \<and>
     http2typeFrameParser t (header_of t flags (length payload) sid) payload = Inr (f (length payload)))"

lemma reads_asI:
  "endWrite wr (startWrite t flags sid @ payload) = (e, [buf]) \<Longrightarrow> \<not> bit sid 31 \<Longrightarrow>
   http2typeFrameParser t (header_of t flags (length payload) sid) payload = Inr (f (length payload)) \<Longrightarrow> reads_as wr e buf f"
  by (auto simp: reads_as_def)

lemma length_pad_zeros [simp]: "length (pad_zeros n) = unat n" "pad_zeros 0 = []"
  by (simp_all add: pad_zeros_def)

lemma reads_CallData:
  assumes "run_call wr False (CallData sid es data pad) = (e, [buf])" "readable (CallData sid es data pad)"
  shows "reads_as wr e buf (frame_of (CallData sid es data pad))"
proof -
  let ?pb = "case pad of None \<Rightarrow> [] | Some b \<Rightarrow> b"
  let ?fl = "flag_if es http2FlagDataEndStream OR flag_if (pad \<noteq> None) http2FlagDataPadded"
  let ?pl = "(if pad \<noteq> None then [word_of_nat (length ?pb)] else []) @ data @ ?pb"
  have *: "http2validStreamID sid" "length ?pb \<le> 255" "endWrite wr (startWrite http2FrameData ?fl sid @ ?pl) = (e, [buf])"
    using assms(1) by (auto simp: WriteDataPadded_def Let_def split: if_splits)
  have "unat (word_of_nat (length ?pb) :: 8 word) = length ?pb" using *(2) by (simp add: unat_of_nat)
  with *(1) Has_data [of es "pad \<noteq> None"] show ?thesis
    by (intro reads_asI [OF *(3)]; cases pad) (auto simp: validStreamID_bit http2parseDataFrame_def http2readByte_def)
qed

lemma reads_CallHeaders:
  assumes "run_call wr False (CallHeaders p) = (e, [buf])" "readable (CallHeaders p)"
  shows "reads_as wr e buf (frame_of (CallHeaders p))"
proof -
  let ?fl = "flag_if (h_PadLength p \<noteq> 0) http2FlagHeadersPadded OR flag_if (h_EndStream p) http2FlagHeadersEndStream OR
        flag_if (h_EndHeaders p) http2FlagHeadersEndHeaders OR flag_if (\<not> IsZero (h_Priority p)) http2FlagHeadersPriority"
  let ?pl = "(if h_PadLength p \<noteq> 0 then [h_PadLength p] else []) @
          (if \<not> IsZero (h_Priority p) then writeUint32 (exclusive_bit (h_Priority p)) @ [Weight (h_Priority p)] else []) @
          h_BlockFragment p @ pad_zeros (h_PadLength p)"
  have *: "http2validStreamID (h_StreamID p)" "IsZero (h_Priority p) \<or> http2validStreamIDOrZero (StreamDep (h_Priority p))"
    "endWrite wr (startWrite http2FrameHeaders ?fl (h_StreamID p) @ ?pl) = (e, [buf])"
    using assms(1) by (auto simp: WriteHeaders_def Let_def split: if_splits)
  note hs = Has_headers [OF refl, of "h_PadLength p \<noteq> 0" "h_EndStream p" "h_EndHeaders p" "\<not> IsZero (h_Priority p)"]
  have ne: "h_BlockFragment p \<noteq> []" using assms(2) by simp
  have r: "\<lparr>StreamDep = exclusive_bit q AND mask31, Exclusive = (exclusive_bit q \<noteq> exclusive_bit q AND mask31), Weight = Weight q\<rparr> = q"
    if "\<not> bit (StreamDep q) 31" for q :: http2PriorityParam using exclusive_bit_read [OF that] by (cases q) auto
  have "http2parseHeadersFrame (header_of http2FrameHeaders ?fl (length ?pl) (h_StreamID p)) ?pl =
      Inr (http2HeadersFrame (header_of http2FrameHeaders ?fl (length ?pl) (h_StreamID p)) (h_Priority p) (h_BlockFragment p))"
  proof (cases "IsZero (h_Priority p)")
    case True
    then show ?thesis using *(1) ne hs by (auto simp: http2parseHeadersFrame_def validStreamID_bit http2readByte_def IsZero_def)
  next
    case False
    then have b: "\<not> bit (StreamDep (h_Priority p)) 31" using *(2) by (simp add: validStreamIDOrZero_bit)
    show ?thesis
      using *(1) ne hs False r [OF b]
      by (auto simp: http2parseHeadersFrame_def validStreamID_bit http2readByte_def http2readUint32_def)
  qed
  with *(1) show ?thesis by (intro reads_asI [OF *(3)]) (simp_all add: validStreamID_bit)
qed

lemma reads_CallPriority:
  assumes "run_call wr False (CallPriority sid p) = (e, [buf])" "readable (CallPriority sid p)"
  shows "reads_as wr e buf (frame_of (CallPriority sid p))"
proof -
  have *: "http2validStreamID sid" "http2validStreamIDOrZero (StreamDep p)"
    "endWrite wr (startWrite http2FramePriority 0 sid @ writeUint32 (exclusive_bit p) @ [Weight p]) = (e, [buf])"
    using assms(1) by (auto simp: WritePriority_def split: if_splits)
  have "(StreamDep p \<noteq> exclusive_bit p) = Exclusive p" "exclusive_bit p AND mask31 = StreamDep p"
    using *(2) exclusive_bit_read [of p] by (auto simp: validStreamIDOrZero_bit)
  with *(1) show ?thesis
    by (intro reads_asI [OF *(3)]) (simp_all add: validStreamID_bit http2parsePriorityFrame_def Let_def nth_append)
qed

lemma reads_CallRSTStream:
  assumes "run_call wr False (CallRSTStream sid code) = (e, [buf])" "readable (CallRSTStream sid code)"
  shows "reads_as wr e buf (frame_of (CallRSTStream sid code))"
proof -
  have *: "http2validStreamID sid" "endWrite wr (startWrite http2FrameRSTStream 0 sid @ writeUint32 code) = (e, [buf])"
    using assms(1) by (auto simp: WriteRSTStream_def split: if_splits)
  show ?thesis using *(1) by (intro reads_asI [OF *(2)]) (simp_all add: validStreamID_bit http2parseRSTStreamFrame_def)
qed

lemma reads_CallSettings:
  assumes "run_call wr False (CallSettings ss) = (e, [buf])" "readable (CallSettings ss)"
  shows "reads_as wr e buf (frame_of (CallSettings ss))"
proof -
  let ?pl = "concat (map (\<lambda>s. writeUint16 (s_ID s) @ writeUint32 (s_Val s)) ss)"
  have *: "endWrite wr (startWrite http2FrameSettings 0 0 @ ?pl) = (e, [buf])"
    using assms(1) by (simp add: WriteSettings_def)
  have "\<not> Has 0 http2FlagSettingsAck" by (simp add: Has_def frame_flags)
  then show ?thesis
    using assms(2) by (intro reads_asI [OF *]) (auto simp: http2parseSettingsFrame_def http2SettingsFrame_Value_def Settings_of_written length_settings_octets split: option.splits)
qed

lemma reads_CallSettingsAck:
  assumes "run_call wr False CallSettingsAck = (e, [buf])" "readable CallSettingsAck"
  shows "reads_as wr e buf (frame_of CallSettingsAck)"
proof -
  have *: "endWrite wr (startWrite http2FrameSettings http2FlagSettingsAck 0 @ []) = (e, [buf])"
    using assms(1) by (simp add: WriteSettingsAck_def)
  show ?thesis
    by (intro reads_asI [OF *]) (simp_all add: http2parseSettingsFrame_def http2SettingsFrame_Value_def Settings_of_def NumSettings_def)
qed

lemma reads_CallPushPromise:
  assumes "run_call wr False (CallPushPromise p) = (e, [buf])" "readable (CallPushPromise p)"
  shows "reads_as wr e buf (frame_of (CallPushPromise p))"
proof -
  let ?fl = "flag_if (pp_PadLength p \<noteq> 0) http2FlagPushPromisePadded OR flag_if (pp_EndHeaders p) http2FlagPushPromiseEndHeaders"
  let ?pl = "(if pp_PadLength p \<noteq> 0 then [pp_PadLength p] else []) @
          writeUint32 (pp_PromiseID p) @ pp_BlockFragment p @ pad_zeros (pp_PadLength p)"
  have *: "http2validStreamID (pp_StreamID p)" "http2validStreamID (pp_PromiseID p)"
    "endWrite wr (startWrite http2FramePushPromise ?fl (pp_StreamID p) @ ?pl) = (e, [buf])"
    using assms(1) by (auto simp: WritePushPromise_def Let_def split: if_splits)
  show ?thesis
    using *(1,2) Has_push [of "pp_PadLength p \<noteq> 0" "pp_EndHeaders p"]
    by (intro reads_asI [OF *(3)]) (auto simp: validStreamID_bit http2parsePushPromise_def http2readByte_def http2readUint32_def)
qed

lemma reads_CallPing:
  assumes "run_call wr False (CallPing ack data) = (e, [buf])" "readable (CallPing ack data)"
  shows "reads_as wr e buf (frame_of (CallPing ack data))"
proof -
  have *: "endWrite wr (startWrite http2FramePing (flag_if ack http2FlagPingAck) 0 @ data) = (e, [buf])"
    using assms(1) by (simp add: WritePing_def)
  show ?thesis using assms(2) by (intro reads_asI [OF *]) (simp_all add: http2parsePingFrame_def)
qed

lemma reads_CallGoAway:
  assumes "run_call wr False (CallGoAway sid code debug) = (e, [buf])" "readable (CallGoAway sid code debug)"
  shows "reads_as wr e buf (frame_of (CallGoAway sid code debug))"
proof -
  have *: "endWrite wr (startWrite http2FrameGoAway 0 0 @ writeUint32 (sid AND mask31) @ writeUint32 code @ debug) = (e, [buf])"
    using assms(1) by (simp add: WriteGoAway_def)
  show ?thesis by (intro reads_asI [OF *]) (simp_all add: http2parseGoAwayFrame_def)
qed

lemma reads_CallWindowUpdate:
  assumes "run_call wr False (CallWindowUpdate sid incr) = (e, [buf])" "readable (CallWindowUpdate sid incr)"
  shows "reads_as wr e buf (frame_of (CallWindowUpdate sid incr))"
proof -
  have *: "incr \<noteq> 0" "incr \<le> 2147483647" "endWrite wr (startWrite http2FrameWindowUpdate 0 sid @ writeUint32 incr) = (e, [buf])"
    using assms(1) by (auto simp: WriteWindowUpdate_def not_less split: if_splits)
  have "unat incr < 2 ^ 31" using *(2) by (simp add: word_le_nat_alt)
  then have "\<not> bit incr 31" using bit_small by blast
  then have "incr AND mask31 = incr" by simp
  then show ?thesis using *(1) assms(2) by (intro reads_asI [OF *(3)]) (auto simp: http2parseWindowUpdateFrame_def Let_def)
qed

lemma reads_CallContinuation:
  assumes "run_call wr False (CallContinuation sid eh frag) = (e, [buf])" "readable (CallContinuation sid eh frag)"
  shows "reads_as wr e buf (frame_of (CallContinuation sid eh frag))"
proof -
  have *: "http2validStreamID sid"
    "endWrite wr (startWrite http2FrameContinuation (flag_if eh http2FlagContinuationEndHeaders) sid @ frag) = (e, [buf])"
    using assms(1) by (auto simp: WriteContinuation_def split: if_splits)
  show ?thesis using *(1) by (intro reads_asI [OF *(2)]) (simp_all add: validStreamID_bit http2parseContinuationFrame_def)
qed

lemma reads_CallRaw:
  assumes "run_call wr False (CallRaw t flags sid payload) = (e, [buf])" "readable (CallRaw t flags sid payload)"
  shows "reads_as wr e buf (frame_of (CallRaw t flags sid payload))"
proof -
  have *: "endWrite wr (startWrite t flags sid @ payload) = (e, [buf])" using assms(1) by (simp add: WriteRawFrame_def)
  show ?thesis using assms(2) by (intro reads_asI [OF *]) (simp_all add: http2parseUnknownFrame_def)
qed

lemmas reads_calls =
  reads_CallData reads_CallHeaders reads_CallPriority reads_CallRSTStream reads_CallSettings reads_CallSettingsAck
  reads_CallPushPromise reads_CallPing reads_CallGoAway reads_CallWindowUpdate reads_CallContinuation reads_CallRaw

lemma reads_call: "run_call wr False c = (e, [buf]) \<Longrightarrow> readable c \<Longrightarrow> reads_as wr e buf (frame_of c)"
  using reads_calls by (cases c) simp_all

definition in_order :: "http2Framer \<Rightarrow> write_call \<Rightarrow> bool" where
  "in_order fr c \<longleftrightarrow> (case c of CallContinuation sid _ _ \<Rightarrow> lastHeaderStream fr = sid | _ \<Rightarrow> lastHeaderStream fr = 0)"

lemma frame_of_header:
  "fh_Type (Header (frame_of c n)) = http2FrameContinuation \<longleftrightarrow> (\<exists>sid e frag. c = CallContinuation sid e frag) \<or>
     (\<exists>t flags sid payload. c = CallRaw t flags sid payload \<and> t = http2FrameContinuation)"
  by (cases c) (auto simp: frame_types)

lemma checkFrameOrder_written:
  assumes "in_order fr c" "readable c" "run_call wr False c = (e, [buf])"
  shows "\<exists>fr'. checkFrameOrder fr (frame_of c n) = (None, fr') \<and> fr_r fr' = fr_r fr \<and> errDetail fr' = errDetail fr \<and>
    ReadMetaHeaders fr' = ReadMetaHeaders fr"
proof (cases "\<exists>sid eh frag. c = CallContinuation sid eh frag")
  case True
  then obtain sid eh frag where c: "c = CallContinuation sid eh frag" by blast
  then have "sid \<noteq> 0" "lastHeaderStream fr = sid"
    using assms by (auto simp: WriteContinuation_def validStreamID_bit in_order_def split: if_splits)
  then show ?thesis using c by (auto simp: checkFrameOrder_def Let_def)
next
  case False
  then have "fh_Type (Header (frame_of c n)) \<noteq> http2FrameContinuation" using assms(2) by (auto simp: frame_of_header)
  moreover have "lastHeaderStream fr = 0" using assms(1) False by (auto simp: in_order_def split: write_call.splits)
  ultimately show ?thesis by (auto simp: checkFrameOrder_def Let_def)
qed

lemma read_frame_call:
  assumes "run_call wr False c = (e, [buf])" "readable c" "rd (fr_r fr) = buf @ rest"
    "length buf \<le> unat (maxReadSize fr) + 9" "in_order fr c"
  shows "\<exists>fr'. read_frame fr = (Inr (frame_of c (length buf - 9)), fr') \<and> fr_r fr' = (fr_r fr)\<lparr>rd := rest\<rparr> \<and> errDetail fr' = None \<and>
    ReadMetaHeaders fr' = ReadMetaHeaders fr \<and>
    checkFrameOrder (fr\<lparr>errDetail := None, lastFrame := map_option invalidate (lastFrame fr), fr_r := (fr_r fr)\<lparr>rd := rest\<rparr>\<rparr>)
      (frame_of c (length buf - 9)) = (None, fr')"
proof -
  let ?fr = "fr\<lparr>errDetail := None, lastFrame := map_option invalidate (lastFrame fr), fr_r := (fr_r fr)\<lparr>rd := rest\<rparr>\<rparr>"
  obtain t flags sid payload where p: "endWrite wr (startWrite t flags sid @ payload) = (e, [buf])" "\<not> bit sid 31"
    "http2typeFrameParser t (header_of t flags (length payload) sid) payload = Inr (frame_of c (length payload))"
    using reads_call [OF assms(1,2)] by (auto simp: reads_as_def)
  have l: "length buf - 9 = length payload" "length payload \<le> unat (maxReadSize fr)"
    using endWrite_written [OF p(1)] assms(4) by simp_all
  have "in_order ?fr c" using assms(5) by (cases c) (simp_all add: in_order_def)
  then obtain fr' where o: "checkFrameOrder ?fr (frame_of c (length payload)) = (None, fr')" "fr_r fr' = fr_r ?fr"
    "errDetail fr' = None" "ReadMetaHeaders fr' = ReadMetaHeaders fr"
    using checkFrameOrder_written [OF _ assms(2,1), of ?fr "length payload"] by auto
  then show ?thesis using read_frame_written [OF p(1) assms(3) l(2) p(2,3)] l(1) by simp
qed

text \<open>
  (C11) What a framer writes, a framer reads. If a \<open>Write\<close> method with legal arguments hands a buffer to the writer,
  then \<open>ReadFrame\<close> on these octets returns the frame that the call asked for (its type, flags, stream,
  padding removed, and contents) and leaves what follows. The side conditions are what the methods do not check:
  a HEADERS frame needs a fragment, the initial window a value below \<open>2 ^ 31\<close>, a WINDOW_UPDATE a stream number of 31 bits; the
  frame must fit the reader's limit, and CONTINUATION must follow the frame it continues.
\<close>
theorem frames_roundtrip:
  assumes "run_call wr False c = (e, [buf])" "readable c" "rd (fr_r fr) = buf @ rest"
    "length buf \<le> unat (maxReadSize fr) + 9" "in_order fr c" "ReadMetaHeaders fr = None"
  shows "\<exists>fr'. ReadFrame fr = (Inr (frame_of c (length buf - 9)), fr') \<and> rd (fr_r fr') = rest \<and> errDetail fr' = None"
  using read_frame_call [OF assms(1-5)] assms(6) by (auto simp: ReadFrame_def)

definition sample_reader :: "octets \<Rightarrow> http2Framer" where
  "sample_reader b = http2NewFramer \<lparr>rd = b, rd_err = EOF\<rparr>"

theorem frames_roundtrip_witness:
  "\<exists>fr'. ReadFrame (sample_reader [0, 0, 4, 0, 9, 0, 0, 0, 5, 1, 65, 66, 0]) =
     (Inr (http2DataFrame \<lparr>fh_valid = True, fh_Type = 0, fh_Flags = 9, fh_Length = 4, fh_StreamID = 5\<rparr> [65, 66]), fr')"
proof -
  let ?c = "CallData 5 True [65, 66] (Some [0])" and ?b = "[0, 0, 4, 0, 9, 0, 0, 0, 5, 1, 65, 66, 0]"
  have "run_call (\<lambda>b. (length b, None)) False ?c = (None, [?b])"
    by (simp add: WriteDataPadded_def Let_def http2validStreamID_def bit31_def flag_if_def frame_flags endWrite_def startWrite_def
        http2frameHeaderLen_def http2FrameData_def drop_bit_eq_div)
  then show ?thesis
    using frames_roundtrip [of "\<lambda>b. (length b, None)" ?c None ?b "sample_reader ?b" "[]"]
    by (auto simp: sample_reader_def http2NewFramer_def SetMaxReadFrameSize_def http2maxFrameSize_def in_order_def header_of_def
        flag_if_def frame_flags http2FrameData_def)
qed

section \<open>The order of frames\<close>

definition is_continuation :: "http2Frame \<Rightarrow> bool" where
  "is_continuation f \<longleftrightarrow> (\<exists>h b. f = http2ContinuationFrame h b)"

definition unfinished :: "32 word \<Rightarrow> http2Frame \<Rightarrow> 32 word" where
  \<comment> \<open>the stream of the header block that is open behind a frame\<close>
  "unfinished cur f =
     (case f of
        http2HeadersFrame h _ _ \<Rightarrow> if HeadersEnded f then 0 else fh_StreamID h
      | http2ContinuationFrame h _ \<Rightarrow> if HeadersEnded f then 0 else fh_StreamID h
      | _ \<Rightarrow> cur)"

fun contiguous :: "32 word \<Rightarrow> http2Frame list \<Rightarrow> bool" where
  \<comment> \<open>behind an unfinished header block comes a CONTINUATION of its stream, and elsewhere there is none\<close>
  "contiguous cur [] = True"
| "contiguous cur (f # fs) =
     ((if cur = 0 then \<not> is_continuation f else is_continuation f \<and> fh_StreamID (Header f) = cur) \<and>
      contiguous (unfinished cur f) fs)"

fun frames_read :: "nat \<Rightarrow> http2Framer \<Rightarrow> http2Frame list" where
  \<comment> \<open>calls of \<open>ReadFrame\<close>, up to an error that ends the connection\<close>
  "frames_read 0 fr = []"
| "frames_read (Suc n) fr =
     (case ReadFrame fr of
        (Inr f, fr) \<Rightarrow> f # frames_read n fr
      | (Inl e, fr) \<Rightarrow> if http2terminalReadFrameError e then [] else frames_read n fr)"

lemma shape_continuation:
  assumes "http2typeFrameParser (fh_Type (Header f)) (Header f) p = Inr f"
  shows "fh_Type (Header f) = http2FrameContinuation \<longleftrightarrow> is_continuation f"
    "fh_Type (Header f) = http2FrameHeaders \<longleftrightarrow> (\<exists>h q b. f = http2HeadersFrame h q b)"
    "\<not> (\<exists>h q l b. f = http2MetaHeadersFrame h q l b)"
  using http2typeFrameParser_shape [OF assms]
  by (cases f; auto simp: frame_shape_def is_continuation_def frame_types http2frameParsers_def)+

lemma read_frame_order:
  assumes "read_frame fr = (Inr f, fr')" "\<not> AllowIllegalReads fr"
  shows "if lastHeaderStream fr = 0 then \<not> is_continuation f else is_continuation f \<and> fh_StreamID (Header f) = lastHeaderStream fr"
    "lastHeaderStream fr' = unfinished (lastHeaderStream fr) f" "AllowIllegalReads fr' = AllowIllegalReads fr"
    "ReadMetaHeaders fr' = ReadMetaHeaders fr"
proof -
  obtain fr1 p where r: "http2typeFrameParser (fh_Type (Header f)) (Header f) p = Inr f" "checkFrameOrder fr1 f = (None, fr')"
    "lastHeaderStream fr1 = lastHeaderStream fr" "AllowIllegalReads fr1 = AllowIllegalReads fr" "ReadMetaHeaders fr1 = ReadMetaHeaders fr"
    using read_frame_Inr [OF assms(1)] by metis
  note s = shape_continuation [OF r(1)]
  have ne: "lastHeaderStream fr \<noteq> 0 \<Longrightarrow> is_continuation f" and o: "lastHeaderStream fr \<noteq> 0 \<Longrightarrow> fh_StreamID (Header f) = lastHeaderStream fr"
    and z: "lastHeaderStream fr = 0 \<Longrightarrow> \<not> is_continuation f"
    and n: "fr' = (if fh_Type (Header f) = http2FrameHeaders \<or> fh_Type (Header f) = http2FrameContinuation
        then fr1\<lparr>lastFrame := Some f, lastHeaderStream := if Has (fh_Flags (Header f)) http2FlagHeadersEndHeaders then 0 else fh_StreamID (Header f)\<rparr>
        else fr1\<lparr>lastFrame := Some f\<rparr>)"
    using r(2-4) assms(2) s(1) by (auto simp: checkFrameOrder_def Let_def connError_def split: if_splits option.splits)
  show "if lastHeaderStream fr = 0 then \<not> is_continuation f else is_continuation f \<and> fh_StreamID (Header f) = lastHeaderStream fr"
    using ne o z by auto
  show "lastHeaderStream fr' = unfinished (lastHeaderStream fr) f"
    using n s r(3) by (cases f) (auto simp: unfinished_def HeadersEnded_def is_continuation_def)
  show "AllowIllegalReads fr' = AllowIllegalReads fr" "ReadMetaHeaders fr' = ReadMetaHeaders fr" using n r(4,5) by auto
qed

lemma read_frame_error:
  assumes "read_frame fr = (Inl e, fr')"
  shows "lastHeaderStream fr' = lastHeaderStream fr" "AllowIllegalReads fr' = AllowIllegalReads fr" "ReadMetaHeaders fr' = ReadMetaHeaders fr"
  using assms
  by (auto simp: read_frame_def Let_def connError_def checkFrameOrder_def
      split: prod.splits sum.splits if_splits option.splits http2_error.splits)

lemma frames_read_contiguous:
  "ReadMetaHeaders fr = None \<Longrightarrow> \<not> AllowIllegalReads fr \<Longrightarrow> contiguous (lastHeaderStream fr) (frames_read n fr)"
proof (induction n fr rule: frames_read.induct)
  case (2 n fr)
  obtain r fr' where r: "read_frame fr = (r, fr')" by fastforce
  show ?case
  proof (cases r)
    case (Inl e)
    note k = read_frame_error [OF r [unfolded Inl]]
    have "ReadFrame fr = (Inl e, fr')" using r Inl by (simp add: ReadFrame_def)
    with k "2.IH"(1) [OF this [symmetric] refl] "2.prems" show ?thesis by simp
  next
    case (Inr f)
    note k = read_frame_order [OF r [unfolded Inr] "2.prems"(2)]
    have "ReadFrame fr = (Inr f, fr')" using r Inr k(4) "2.prems"(1) by (simp add: ReadFrame_def)
    with k "2.IH"(2) [OF this [symmetric] refl] "2.prems" show ?thesis by simp
  qed
qed simp

text \<open>
  (C21) Header blocks are never interleaved. Whatever octets a peer sends, in the frames that a framer returns one after
  the other (errors that concern a single stream skipped, up to the first that ends the connection) a
  HEADERS or CONTINUATION frame without END_HEADERS is followed by a CONTINUATION frame of the same stream, and a
  CONTINUATION frame comes nowhere else.
\<close>
theorem header_blocks_contiguous:
  assumes "ReadMetaHeaders fr = None" "\<not> AllowIllegalReads fr" "lastHeaderStream fr = 0"
  shows "contiguous 0 (frames_read n fr)"
  using frames_read_contiguous [OF assms(1,2), of n] assms(3) by simp

theorem header_blocks_contiguous_witness: "contiguous 0 (frames_read 3 (sample_reader [0, 0, 1, 1, 0, 0, 0, 0, 5, 65, 0, 0, 1, 9, 4, 0, 0, 0, 5, 66]))"
  by (rule header_blocks_contiguous) (simp_all add: sample_reader_def http2NewFramer_def SetMaxReadFrameSize_def)

text \<open>
  Two orders that are not treated as intended. A header block that begins with PUSH_PROMISE may not be continued, although
  \<open>WritePushPromise\<close> offers it: the reader takes its CONTINUATION for an error of the connection. And the order is only checked for
  frames that could be parsed: inside an unfinished header block, a WINDOW_UPDATE without increment ends the block with an error
  of the stream alone; the connection goes on, and the rest of the block is returned as a frame of its own, never decoded.
\<close>
lemma promise_continuation_refused:
  assumes "run_call wr False (CallPushPromise p) = (e1, [b1])" "\<not> pp_EndHeaders p"
    "run_call wr False (CallContinuation (pp_StreamID p) eh frag) = (e2, [b2])" "rd (fr_r fr) = b1 @ b2 @ rest"
    "length b1 \<le> unat (maxReadSize fr) + 9" "length b2 \<le> unat (maxReadSize fr) + 9" 
    "lastHeaderStream fr = 0" "\<not> AllowIllegalReads fr" "ReadMetaHeaders fr = None"
  shows "\<exists>fr1 fr2. ReadFrame fr = (Inr (frame_of (CallPushPromise p) (length b1 - 9)), fr1) \<and>
    ReadFrame fr1 = (Inl (http2ConnectionError http2ErrCodeProtocol), fr2)"
proof -
  obtain fr1 where r: "read_frame fr = (Inr (frame_of (CallPushPromise p) (length b1 - 9)), fr1)" "fr_r fr1 = (fr_r fr)\<lparr>rd := b2 @ rest\<rparr>"
    "checkFrameOrder (fr\<lparr>errDetail := None, lastFrame := map_option invalidate (lastFrame fr), fr_r := (fr_r fr)\<lparr>rd := b2 @ rest\<rparr>\<rparr>)
      (frame_of (CallPushPromise p) (length b1 - 9)) = (None, fr1)"
    using read_frame_call [OF assms(1) _ assms(4,5)] assms(7) by (auto simp: in_order_def)
  have s: "lastHeaderStream fr1 = 0" "\<not> AllowIllegalReads fr1" "ReadMetaHeaders fr1 = None" "maxReadSize fr1 = maxReadSize fr"
    using r(3) assms(7-9) by (auto simp: checkFrameOrder_def Let_def frame_types split: if_splits)
  let ?c = "CallContinuation (pp_StreamID p) eh frag"
  obtain t flags sid payload where q: "endWrite wr (startWrite t flags sid @ payload) = (e2, [b2])" "\<not> bit sid 31"
    "http2typeFrameParser t (header_of t flags (length payload) sid) payload = Inr (frame_of ?c (length payload))"
    using reads_call [OF assms(3)] by (auto simp: reads_as_def)
  have "length payload \<le> unat (maxReadSize fr1)" using endWrite_written [OF q(1)] assms(6) s(4) by simp
  with r(2) have "\<exists>fr2. read_frame fr1 = (Inl (http2ConnectionError http2ErrCodeProtocol), fr2)"
    using read_frame_written [OF q(1) _ _ q(2,3), of fr1 rest] s by (auto simp: checkFrameOrder_def Let_def connError_def)
  then show ?thesis using r(1) s(3) assms(9) by (auto simp: ReadFrame_def)
qed

lemma order_not_checked_after_stream_error:
  "case ReadFrame ((sample_reader ([0, 0, 1, 1, 0, 0, 0, 0, 1, 0x40] @ [0, 0, 4, 8, 0, 0, 0, 0, 1, 0, 0, 0, 0] @ [0, 0, 2, 9, 4, 0, 0, 0, 1, 0x88, 0x88]))
       \<lparr>ReadMetaHeaders := NewDecoder 4096\<rparr>) of
     (r, fr) \<Rightarrow> r = Inl (http2StreamError 1 http2ErrCodeProtocol None) \<and>
       fst (ReadFrame fr) = Inr (http2ContinuationFrame \<lparr>fh_valid = True, fh_Type = 9, fh_Flags = 4, fh_Length = 2, fh_StreamID = 1\<rparr> [0x88, 0x88])"
  by code_simp
end
