(* ===== verification/H2Meta.thy ===== *)
theory H2Meta
  imports H2Round
begin

text \<open>
  Header blocks as \<open>readMetaFrame\<close> of \<open>pkg/http/h2_bundle.go\<close> decodes them: what holds of the fields that a framer
  returns.
\<close>

section \<open>Fields that were accepted\<close>

definition valid_regular :: "HeaderField \<Rightarrow> bool" where
  "valid_regular f \<longleftrightarrow> \<not> IsPseudo f \<and> http2validWireHeaderFieldName (Name f)"

definition ordered_fields :: "HeaderField list \<Rightarrow> bool" where
  \<comment> \<open>the pseudo header fields come first\<close>
  "ordered_fields fs \<longleftrightarrow> list_all valid_regular (dropWhile IsPseudo fs) \<and> list_all (\<lambda>f. ValidHeaderFieldValue (chars_of (Value f))) fs"

lemma IsPseudo_prefix: "take (Suc 0) (Name hf) = octets_of '':'' \<longleftrightarrow> IsPseudo hf"
  by (cases "Name hf") (auto simp: IsPseudo_def octets_of_def)

definition meta_ok :: "nat \<Rightarrow> meta_state \<Rightarrow> bool" where
  "meta_ok limit m \<longleftrightarrow> m_invalid m = None \<longrightarrow>
     ordered_fields (m_Fields m) \<and> (\<not> sawRegular m \<longrightarrow> list_all IsPseudo (m_Fields m)) \<and>
     sum_list (map (\<lambda>f. unat (Size f)) (m_Fields m)) + unat (remainSize m) = limit"

lemma dropWhile_all: "list_all P xs \<Longrightarrow> dropWhile P (xs @ ys) = dropWhile P ys"
  by (induction xs) simp_all

lemma ordered_snoc:
  assumes "ordered_fields fs" "ValidHeaderFieldValue (chars_of (Value f))"
    "if IsPseudo f then list_all IsPseudo fs else http2validWireHeaderFieldName (Name f)"
  shows "ordered_fields (fs @ [f])"
proof (cases "list_all IsPseudo fs")
  case True
  then show ?thesis using assms by (auto simp: ordered_fields_def dropWhile_all valid_regular_def)
next
  case False
  then have "dropWhile IsPseudo (fs @ [f]) = dropWhile IsPseudo fs @ [f]"
    by (metis dropWhile_append1 list_all_iff)
  then show ?thesis using assms False by (auto simp: ordered_fields_def valid_regular_def split: if_splits)
qed

lemma meta_emit_ok:
  assumes "meta_ok limit m" "meta_emit hf (d, m) = (d', m')"
  shows "meta_ok limit m'"
proof (cases "m_invalid m' = None")
  case True
  have v: "ValidHeaderFieldValue (chars_of (Value hf))" and i: "m_invalid m = None"
    and p: "if IsPseudo hf then \<not> sawRegular m \<and> sawRegular m' = sawRegular m else http2validWireHeaderFieldName (Name hf) \<and> sawRegular m'"
    using assms(2) True by (auto simp: meta_emit_def IsPseudo_prefix Let_def split: if_splits)
  have m: "m_Fields m' = m_Fields m \<and> remainSize m' = remainSize m \<or>
      m_Fields m' = m_Fields m @ [hf] \<and> Size hf \<le> remainSize m \<and> remainSize m' = remainSize m - Size hf"
    using assms(2) True by (auto simp: meta_emit_def IsPseudo_prefix Let_def not_less split: if_splits)
  have ok: "ordered_fields (m_Fields m)" "\<not> sawRegular m \<longrightarrow> list_all IsPseudo (m_Fields m)"
    "sum_list (map (\<lambda>f. unat (Size f)) (m_Fields m)) + unat (remainSize m) = limit"
    using assms(1) i by (simp_all add: meta_ok_def)
  from m show ?thesis
  proof
    assume "m_Fields m' = m_Fields m \<and> remainSize m' = remainSize m"
    then show ?thesis using ok p by (auto simp: meta_ok_def split: if_splits)
  next
    assume a: "m_Fields m' = m_Fields m @ [hf] \<and> Size hf \<le> remainSize m \<and> remainSize m' = remainSize m - Size hf"
    then have "unat (remainSize m') = unat (remainSize m) - unat (Size hf)" "unat (Size hf) \<le> unat (remainSize m)"
      by (auto simp: unat_sub word_le_nat_alt)
    then show ?thesis using ok p a v ordered_snoc [of "m_Fields m" hf] by (auto simp: meta_ok_def split: if_splits)
  qed
qed (auto simp: meta_ok_def)

lemma meta_emits_ok: "meta_ok limit m \<Longrightarrow> fold meta_emit fs (d, m) = (d', m') \<Longrightarrow> meta_ok limit m'"
proof (induction fs arbitrary: d m)
  case (Cons f fs)
  obtain d1 m1 where "meta_emit f (d, m) = (d1, m1)" by fastforce
  with Cons meta_emit_ok show ?case by fastforce
qed simp

lemma meta_loop_ok: "meta_ok limit m \<Longrightarrow> meta_loop d m = (r, d', m') \<Longrightarrow> meta_ok limit m'"
proof (induction d m rule: meta_loop.induct)
  case (1 d m)
  show ?case
  proof (cases "d_buf d = []")
    case True
    with 1(2,3) show ?thesis by (simp add: meta_loop.simps [of d m])
  next
    case False
    obtain e d1 where p: "parseHeaderFieldRepr (d\<lparr>emitted := []\<rparr>) = (e, d1)" by fastforce
    obtain d2 m2 where f: "fold meta_emit (emitted d1) (d1, m) = (d2, m2)" by fastforce
    show ?thesis
    proof (cases e)
      case None
      have "meta_loop d2 m2 = (r, d', m')" using "1.prems"(2) False p f None by (simp add: meta_loop.simps [of d m])
      with "1.IH" [OF False p [symmetric] None f [symmetric]] meta_emits_ok [OF "1.prems"(1) f] show ?thesis by blast
    next
      case (Some x)
      with 1(2,3) False p show ?thesis by (auto simp: meta_loop.simps [of d m] split: if_splits)
    qed
  qed
qed

lemma meta_Write_ok: "meta_ok limit m \<Longrightarrow> meta_Write d p m = (r, d', m') \<Longrightarrow> meta_ok limit m'"
  by (auto simp: meta_Write_def split: if_splits dest: meta_loop_ok)

lemma meta_frames_ok: "meta_ok limit m \<Longrightarrow> meta_frames fr d m fh frag = (r, fr', d', m') \<Longrightarrow> meta_ok limit m'"
proof (induction fr d m fh frag rule: meta_frames.induct)
  case (1 fr d m fh frag)
  obtain e d1 m1 where w: "meta_Write d frag m = (e, d1, m1)" by (cases "meta_Write d frag m") auto
  have ok: "meta_ok limit m1" using meta_Write_ok [OF "1.prems"(1) w] .
  obtain rr fr1 where rf: "read_frame fr = (rr, fr1)" by fastforce
  consider (stop) "m' = m \<or> m' = m1"
    | (more) fh1 frag1 where "fh_valid fh" "e = None" "\<not> Has (fh_Flags fh) http2FlagHeadersEndHeaders"
        "rr = Inr (http2ContinuationFrame fh1 frag1)" "meta_frames fr1 d1 m1 fh1 frag1 = (r, fr', d', m')"
    using "1.prems"(2) w rf
    by (subst (asm) meta_frames.simps) (auto split: if_splits option.splits sum.splits http2Frame.splits)
  then show ?case
  proof cases
    case stop
    then show ?thesis using ok "1.prems"(1) by auto
  next
    case more
    then show ?thesis using "1.IH" [OF _ w [symmetric]] rf ok by auto
  qed
qed

section \<open>Pseudo header fields\<close>

lemma check_pseudos_None:
  "check_pseudos before rq rs fs = None \<longleftrightarrow>
     (\<forall>f \<in> set fs. Name f \<in> set request_pseudos \<or> Name f = octets_of '':status'') \<and>
     distinct (map Name fs) \<and> (\<forall>f \<in> set fs. Name f \<notin> set before) \<and>
     \<not> ((rq \<or> (\<exists>f \<in> set fs. Name f \<in> set request_pseudos)) \<and> (rs \<or> (\<exists>f \<in> set fs. Name f = octets_of '':status'')))"
proof (induction before rq rs fs rule: check_pseudos.induct)
  case (2 before rq rs hf fs)
  show ?case
  proof (cases "Name hf \<notin> set request_pseudos \<and> Name hf \<noteq> octets_of '':status'' \<or> Name hf \<in> set before")
    case False
    let ?n = "Name hf" and ?R = "set request_pseudos" and ?S = "octets_of '':status''"
    have "check_pseudos before rq rs (hf # fs) = check_pseudos (before @ [?n]) (rq \<or> ?n \<in> ?R) (rs \<or> ?n = ?S) fs"
      using False by auto
    moreover have "(\<forall>f \<in> set fs. Name f \<notin> set (before @ [?n])) \<and> distinct (map Name fs) \<longleftrightarrow>
        distinct (map Name (hf # fs)) \<and> (\<forall>f \<in> set (hf # fs). Name f \<notin> set before)"
      using False by (auto simp: image_iff)
    moreover have "(\<forall>f \<in> set (hf # fs). Name f \<in> ?R \<or> Name f = ?S) \<longleftrightarrow> (\<forall>f \<in> set fs. Name f \<in> ?R \<or> Name f = ?S)"
      using False by auto
    moreover have "(rq \<or> (\<exists>f \<in> set (hf # fs). Name f \<in> ?R)) \<longleftrightarrow> (rq \<or> ?n \<in> ?R) \<or> (\<exists>f \<in> set fs. Name f \<in> ?R)"
      "(rs \<or> (\<exists>f \<in> set (hf # fs). Name f = ?S)) \<longleftrightarrow> (rs \<or> ?n = ?S) \<or> (\<exists>f \<in> set fs. Name f = ?S)" by auto
    ultimately show ?thesis using 2 False by (simp only:) argo
  qed (auto split: if_splits)
qed auto

lemma status_no_request: "octets_of '':status'' \<notin> set request_pseudos"
  by (simp add: request_pseudos_def octets_of_def)

definition known_pseudos :: "HeaderField list \<Rightarrow> bool" where
  \<comment> \<open>each at most once, and either those of a request or that of a response\<close>
  "known_pseudos fs \<longleftrightarrow> distinct (map Name fs) \<and>
     ((\<forall>f \<in> set fs. Name f \<in> set request_pseudos) \<or> (\<forall>f \<in> set fs. Name f = octets_of '':status''))"

lemma checkPseudos_iff: "checkPseudos fs = None \<longleftrightarrow> known_pseudos (takeWhile IsPseudo fs)"
  by (auto simp: checkPseudos_def PseudoFields_def check_pseudos_None known_pseudos_def status_no_request)

lemma readMetaFrame_fields:
  assumes "readMetaFrame fr d fh prio frag = (Inr f, fr')"
  obtains fs tr where "f = http2MetaHeadersFrame (fh\<lparr>fh_valid := False\<rparr>) prio fs tr" "ordered_fields fs" "checkPseudos fs = None"
    "sum_list (map (\<lambda>f. unat (Size f)) fs) \<le> unat (maxHeaderListSize fr)"
proof -
  let ?m = "\<lparr>remainSize = maxHeaderListSize fr, sawRegular = False, m_invalid = None, m_Fields = [], m_Truncated = False\<rparr>"
  let ?d = "d\<lparr>emitEnabled := True, maxStrLen := maxHeaderStringLen fr\<rparr>"
  obtain e fr1 d1 m1 where l: "meta_frames fr ?d ?m fh frag = (e, fr1, d1, m1)" by (metis prod_cases4)
  have "meta_ok (unat (maxHeaderListSize fr)) ?m" by (simp add: meta_ok_def ordered_fields_def)
  then have ok: "meta_ok (unat (maxHeaderListSize fr)) m1" using meta_frames_ok l by blast
  have "m_invalid m1 = None" "checkPseudos (m_Fields m1) = None"
    "f = http2MetaHeadersFrame (fh\<lparr>fh_valid := False\<rparr>) prio (m_Fields m1) (m_Truncated m1)"
    using assms l by (auto simp: readMetaFrame_def Let_def split: if_splits option.splits prod.splits)
  then show thesis using that ok by (simp add: meta_ok_def)
qed

lemma ReadFrame_fields:
  assumes "ReadFrame fr = (Inr (http2MetaHeadersFrame h prio fs tr), fr')"
  shows "ordered_fields fs" "checkPseudos fs = None" "sum_list (map (\<lambda>f. unat (Size f)) fs) \<le> unat (maxHeaderListSize fr)"
proof -
  obtain f1 fr1 where r: "read_frame fr = (Inr f1, fr1)"
    using assms by (auto simp: ReadFrame_def split: prod.splits sum.splits)
  then obtain fr0 p where o: "http2typeFrameParser (fh_Type (Header f1)) (Header f1) p = Inr f1" "checkFrameOrder fr0 f1 = (None, fr1)"
    "MaxHeaderListSize fr0 = MaxHeaderListSize fr" using read_frame_Inr by metis
  have "\<not> (\<exists>h q l b. f1 = http2MetaHeadersFrame h q l b)" using shape_continuation [OF o(1)] by blast
  then obtain d h1 p1 b1 where "readMetaFrame fr1 d h1 p1 b1 = (Inr (http2MetaHeadersFrame h prio fs tr), fr')"
    using assms r by (auto simp: ReadFrame_def split: option.splits if_splits http2Frame.splits)
  from readMetaFrame_fields [OF this] have k: "ordered_fields fs" "checkPseudos fs = None"
    "sum_list (map (\<lambda>f. unat (Size f)) fs) \<le> unat (maxHeaderListSize fr1)" by auto
  have "maxHeaderListSize fr1 = maxHeaderListSize fr"
    using o(2,3) by (auto simp: checkFrameOrder_def Let_def connError_def maxHeaderListSize_def split: if_splits option.splits)
  with k show "ordered_fields fs" "checkPseudos fs = None" "sum_list (map (\<lambda>f. unat (Size f)) fs) \<le> unat (maxHeaderListSize fr)" by simp_all
qed

end
