(* ===== verification/H2Pieces.thy ===== *)
theory H2Pieces
  imports H2Meta
begin

text \<open>
  Decoding a header block in pieces with the callback of \<open>readMetaFrame\<close>: as long as the callback accepts the fields, the decoder
  runs as it does without it.
\<close>

section \<open>Fields that the callback accepts\<close>

definition acceptable :: "HeaderField \<Rightarrow> meta_state \<Rightarrow> bool" where
  "acceptable f m \<longleftrightarrow> m_invalid m = None \<and> ValidHeaderFieldValue (chars_of (Value f)) \<and>
     (if IsPseudo f then \<not> sawRegular m else http2validWireHeaderFieldName (Name f)) \<and> Size f \<le> remainSize m"

definition taken :: "HeaderField \<Rightarrow> meta_state \<Rightarrow> meta_state" where
  "taken f m = m\<lparr>sawRegular := sawRegular m \<or> \<not> IsPseudo f, remainSize := remainSize m - Size f, m_Fields := m_Fields m @ [f]\<rparr>"

lemma meta_emit_accepted: "acceptable f m \<Longrightarrow> meta_emit f (d, m) = (d, taken f m)"
  by (cases m) (auto simp: meta_emit_def IsPseudo_prefix Let_def acceptable_def taken_def)

fun accepts :: "meta_state \<Rightarrow> HeaderField list \<Rightarrow> bool" where
  "accepts m [] = True"
| "accepts m (f # fs) = (acceptable f m \<and> accepts (taken f m) fs)"

lemma accepts_append [simp]: "accepts m (xs @ ys) \<longleftrightarrow> accepts m xs \<and> accepts (fold taken xs m) ys"
  by (induction m xs rule: accepts.induct) auto

lemma fold_meta_emit: "accepts m fs \<Longrightarrow> fold meta_emit fs (d, m) = (d, fold taken fs m)"
  by (induction m fs rule: accepts.induct) (simp_all add: meta_emit_accepted)

section \<open>The list of emitted fields\<close>

lemma callEmit_emitted:
  "callEmit hf (d\<lparr>emitted := xs @ emitted d\<rparr>) = apsnd (\<lambda>d'. d'\<lparr>emitted := xs @ emitted d'\<rparr>) (callEmit hf d)"
  by (simp add: callEmit_def)

lemma at_index_emitted [simp]: "at_index (d\<lparr>emitted := xs\<rparr>) i = at_index d i"
  by (simp add: at_index_def maxTableIndex_def)

lemma readString_emitted [simp]: "readString (d\<lparr>emitted := xs\<rparr>) p w = readString d p w"
  by (cases p) (simp_all add: readString_def Let_def split: sum.split)

lemma readName_emitted [simp]: "readName (d\<lparr>emitted := xs\<rparr>) w i p = readName d w i p"
  by (simp add: readName_def split: option.split)

lemma parse_emitted:
  "parseHeaderFieldRepr (d\<lparr>emitted := xs @ emitted d\<rparr>) = apsnd (\<lambda>d'. d'\<lparr>emitted := xs @ emitted d'\<rparr>) (parseHeaderFieldRepr d)"
proof (cases "d_buf d")
  case (Cons b bs)
  let ?up = "\<lambda>d :: Decoder. d\<lparr>emitted := xs @ emitted d\<rparr>"
  have i: "parseFieldIndexed (?up d) = apsnd ?up (parseFieldIndexed d)"
    by (auto simp: parseFieldIndexed_def callEmit_def split: sum.split option.split)
  have l: "parseFieldLiteral n it (?up d) = apsnd ?up (parseFieldLiteral n it d)" for n it
    by (auto simp: parseFieldLiteral_parts literal_parts_def callEmit_def Let_def split: sum.split option.split)
  have s: "parseDynamicTableSizeUpdate (?up d) = apsnd ?up (parseDynamicTableSizeUpdate d)"
    by (auto simp: parseDynamicTableSizeUpdate_def split: sum.split option.split)
  have "d_buf (?up d) = b # bs" using Cons by simp
  then show ?thesis using i l s by (simp add: parse_choice [OF Cons] parse_choice choice_def)
qed (simp add: parseHeaderFieldRepr_def)

lemma parse_keeps: "maxStrLen (snd (parseHeaderFieldRepr d)) = maxStrLen d"
proof (cases "d_buf d")
  case (Cons b bs)
  have "maxStrLen (snd (parseFieldIndexed d)) = maxStrLen d"
    by (auto simp: parseFieldIndexed_def callEmit_def split: sum.split option.split)
  moreover have "maxStrLen (snd (parseFieldLiteral n it d)) = maxStrLen d" for n it
    by (auto simp: parseFieldLiteral_parts callEmit_def Let_def split: sum.split option.split)
  moreover have "maxStrLen (snd (parseDynamicTableSizeUpdate d)) = maxStrLen d"
    by (auto simp: parseDynamicTableSizeUpdate_def split: sum.split option.split)
  ultimately show ?thesis by (simp add: parse_choice [OF Cons] choice_def)
qed (simp add: parseHeaderFieldRepr_def)

lemma parse_NeedMore: "parseHeaderFieldRepr d = (Some e, d') \<Longrightarrow> emitted d' = emitted d"
proof (cases "d_buf d")
  case (Cons b bs)
  assume p: "parseHeaderFieldRepr d = (Some e, d')"
  have "parseFieldIndexed d = (Some e, d') \<Longrightarrow> emitted d' = emitted d"
    by (auto simp: parseFieldIndexed_def callEmit_def split: sum.splits option.splits if_splits)
  moreover have "parseFieldLiteral n it d = (Some e, d') \<Longrightarrow> emitted d' = emitted d" for n it
    by (auto simp: parseFieldLiteral_parts callEmit_def Let_def split: sum.splits option.splits if_splits)
  moreover have "parseDynamicTableSizeUpdate d = (Some e, d') \<Longrightarrow> emitted d' = emitted d"
    by (auto simp: parseDynamicTableSizeUpdate_def split: sum.splits option.splits if_splits)
  ultimately show ?thesis using p by (auto simp: parse_choice [OF Cons] choice_def split: if_splits)
qed (simp add: parseHeaderFieldRepr_def)

section \<open>The loop with the callback\<close>

lemma meta_loop_accepts:
  "write_loop n d = (n', None, d') \<Longrightarrow>
   \<exists>gs. emitted d' = emitted d @ gs \<and> (\<forall>x. write_loop n (d\<lparr>emitted := x\<rparr>) = (n', None, d'\<lparr>emitted := x @ gs\<rparr>)) \<and>
     (\<forall>x m. accepts m gs \<longrightarrow> (\<exists>y. meta_loop (d\<lparr>emitted := x\<rparr>) m = (None, d'\<lparr>emitted := y\<rparr>, fold taken gs m)))"
proof (induction n d arbitrary: n' d' rule: write_loop.induct)
  case (1 n d)
  show ?case
  proof (cases "d_buf d = []")
    case True
    then have "d' = d" "n' = n" using "1.prems" by (subst (asm) write_loop.simps, simp)+
    with True have "write_loop n (d\<lparr>emitted := x\<rparr>) = (n', None, d'\<lparr>emitted := x @ []\<rparr>)"
      "meta_loop (d\<lparr>emitted := x\<rparr>) m = (None, d'\<lparr>emitted := x\<rparr>, fold taken [] m)" for x m
      by (simp_all add: write_loop.simps [of n "d\<lparr>emitted := x\<rparr>"] meta_loop.simps [of "d\<lparr>emitted := x\<rparr>"])
    then show ?thesis using \<open>d' = d\<close> by (intro exI [of _ "[]"]) auto
  next
    case False
    obtain r d1 where p0: "parseHeaderFieldRepr (d\<lparr>emitted := []\<rparr>) = (r, d1)" by fastforce
    have p: "parseHeaderFieldRepr (d\<lparr>emitted := x\<rparr>) = (r, d1\<lparr>emitted := x @ emitted d1\<rparr>)" for x
      using parse_emitted [where d = "d\<lparr>emitted := []\<rparr>" and xs = x] p0 by simp
    have pd: "parseHeaderFieldRepr d = (r, d1\<lparr>emitted := emitted d @ emitted d1\<rparr>)" using p [of "emitted d"] by simp
    show ?thesis
    proof (cases r)
      case None
      let ?d1 = "d1\<lparr>emitted := emitted d @ emitted d1\<rparr>"
      have w: "write_loop n (d\<lparr>emitted := x\<rparr>) = write_loop n (d1\<lparr>emitted := x @ emitted d1\<rparr>)" for x
        using False p [of x] None by (subst write_loop.simps) simp
      then have "write_loop n ?d1 = (n', None, d')" using "1.prems" w [of "emitted d"] by simp
      then obtain gs where gs: "emitted d' = emitted ?d1 @ gs"
        "\<And>x. write_loop n (d1\<lparr>emitted := x\<rparr>) = (n', None, d'\<lparr>emitted := x @ gs\<rparr>)"
        "\<And>x m. accepts m gs \<Longrightarrow> \<exists>y. meta_loop (d1\<lparr>emitted := x\<rparr>) m = (None, d'\<lparr>emitted := y\<rparr>, fold taken gs m)"
        using "1.IH" [OF False pd [symmetric] None] by auto
      have "\<exists>y. meta_loop (d\<lparr>emitted := x\<rparr>) m = (None, d'\<lparr>emitted := y\<rparr>, fold taken (emitted d1 @ gs) m)"
        if a: "accepts m (emitted d1 @ gs)" for x m
      proof -
        have "meta_loop (d\<lparr>emitted := x\<rparr>) m = meta_loop d1 (fold taken (emitted d1) m)"
          using False p0 None a fold_meta_emit [of m "emitted d1" d1] by (subst meta_loop.simps) simp
        then show ?thesis using gs(3) [of "fold taken (emitted d1) m" "emitted d1"] a by simp
      qed
      then show ?thesis using gs(1,2) w by (intro exI [of _ "emitted d1 @ gs"]) auto
    next
      case (Some e)
      have em: "emitted d1 = []" using parse_NeedMore [OF p0 [unfolded Some]] by simp
      have e: "e = NeedMore" "\<not> (maxStrLen d1 \<noteq> 0 \<and> int (length (d_buf d1)) > sint (word_of_int (2 * (maxStrLen d1 + 8)) :: 64 word))"
        "n' = n" "d' = d1\<lparr>emitted := emitted d, saveBuf := saveBuf d1 @ d_buf d1\<rparr>"
        using "1.prems" False pd Some em unfolding write_loop.simps [of n d] by (auto split: if_splits)
      have "write_loop n (d\<lparr>emitted := x\<rparr>) = (n', None, d'\<lparr>emitted := x @ []\<rparr>)" for x
        using False p [of x] Some e em by (subst write_loop.simps) simp
      moreover have "meta_loop (d\<lparr>emitted := x\<rparr>) m = (None, d'\<lparr>emitted := []\<rparr>, fold taken [] m)" for x m
      proof -
        have "d1\<lparr>saveBuf := b, emitted := []\<rparr> = d1\<lparr>saveBuf := b\<rparr>" for b using em by (cases d1) simp
        then show ?thesis using False p0 Some e em by (subst meta_loop.simps) simp
      qed
      moreover have "emitted d' = emitted d @ []" using e(4) by simp
      ultimately show ?thesis by blast
    qed
  qed
qed

section \<open>A piece of a good block is accepted\<close>

definition roomy :: "Decoder \<Rightarrow> nat \<Rightarrow> bool" where
  \<comment> \<open>that many octets may be kept for later\<close>
  "roomy d n \<longleftrightarrow> n < 2 ^ 62 \<and> 0 \<le> maxStrLen d \<and> maxStrLen d < 2 ^ 32 \<and> (maxStrLen d = 0 \<or> int n \<le> 2 * (maxStrLen d + 8))"

lemma roomy_wait:
  assumes "roomy d n" "length (d_buf d) \<le> n"
  shows "\<not> (maxStrLen d \<noteq> 0 \<and> int (length (d_buf d)) > sint (word_of_int (2 * (maxStrLen d + 8)) :: 64 word))"
proof -
  have "sint (word_of_int (2 * (maxStrLen d + 8)) :: 64 word) = 2 * (maxStrLen d + 8)"
    using assms(1) by (intro sint64_of_int) (simp_all add: roomy_def)
  then show ?thesis using assms by (auto simp: roomy_def)
qed

lemma write_loop_prefix:
  assumes "write_loop k (more_buf q d) = (k, None, d')" "saveBuf d = []" "roomy d n" "length (d_buf d) + length q \<le> n"
  shows "\<exists>d1. write_loop n0 d = (n0, None, d1) \<and> maxStrLen d1 = maxStrLen d \<and> length (saveBuf d1) \<le> length (d_buf d)"
  using assms
proof (induction n0 d rule: write_loop.induct)
  case (1 n0 d)
  show ?case
  proof (cases "d_buf d = []")
    case True
    then show ?thesis using "1.prems"(2) by (subst write_loop.simps) simp
  next
    case False
    have "length (d_buf d) + length q < 2 ^ 64" using "1.prems"(3,4) by (simp add: roomy_def)
    then have g: "grows q parseHeaderFieldRepr d" using parse_grows False by blast
    obtain r d1 where p: "parseHeaderFieldRepr d = (r, d1)" by fastforce
    have k: "maxStrLen d1 = maxStrLen d" "saveBuf d1 = []" using parse_keeps [of d] parse_saveBuf [of d] p "1.prems"(2) by simp_all
    show ?thesis
    proof (cases r)
      case None
      have l: "length (d_buf d1) < length (d_buf d)" using parse_shorter [of d d1] p None by simp
      have "parseHeaderFieldRepr (more_buf q d) = (None, more_buf q d1)" using g p None by (simp add: grows_def)
      then have "write_loop k (more_buf q d1) = (k, None, d')"
        using "1.prems"(1) False by (subst (asm) write_loop.simps) simp
      moreover have "roomy d1 n" using "1.prems"(3) k by (simp add: roomy_def)
      ultimately have "\<exists>d2. write_loop n0 d1 = (n0, None, d2) \<and> maxStrLen d2 = maxStrLen d1 \<and> length (saveBuf d2) \<le> length (d_buf d1)"
        using "1.IH" [OF False p [symmetric] None] k l "1.prems"(4) by simp
      then show ?thesis using False p None k(1) l unfolding write_loop.simps [of n0 d] by auto
    next
      case (Some e)
      have e: "e = NeedMore"
      proof (rule ccontr)
        assume "e \<noteq> NeedMore"
        then have "parseHeaderFieldRepr (more_buf q d) = (Some e, more_buf q d1)" using g p Some by (simp add: grows_def)
        then show False using "1.prems"(1) False \<open>e \<noteq> NeedMore\<close> by (subst (asm) write_loop.simps) simp
      qed
      have "d1 = d" using g p Some e by (simp add: grows_def)
      then have "\<not> (maxStrLen d1 \<noteq> 0 \<and> int (length (d_buf d1)) > sint (word_of_int (2 * (maxStrLen d1 + 8)) :: 64 word))"
        using roomy_wait [OF "1.prems"(3)] "1.prems"(4) by simp
      then have "write_loop n0 d = (n0, None, d1\<lparr>saveBuf := saveBuf d1 @ d_buf d1\<rparr>)"
        using False p Some e unfolding write_loop.simps [of n0 d] by auto
      then show ?thesis using \<open>d1 = d\<close> "1.prems"(2) by simp
    qed
  qed
qed

section \<open>A block in pieces\<close>

definition finishes :: "Decoder \<Rightarrow> octets \<Rightarrow> HeaderField list \<Rightarrow> Decoder \<Rightarrow> bool" where
  \<comment> \<open>with these octets the decoder ends in the state given, the list of emitted fields apart\<close>
  "finishes d p gs d' \<longleftrightarrow> (\<exists>x. write_loop 0 (refill p d) = (0, None, d'\<lparr>emitted := x\<rparr>) \<and> x = emitted d @ gs)"

lemma refill_emitted: "refill p (d\<lparr>emitted := x\<rparr>) = (refill p d)\<lparr>emitted := x\<rparr>"
  by (simp add: refill_def)

lemma refill_sel [simp]: "saveBuf (refill p d) = []" "emitted (refill p d) = emitted d" "maxStrLen (refill p d) = maxStrLen d"
  "d_buf (refill p d) = saveBuf d @ p"
  by (simp_all add: refill_def)

lemma refill_more: "more_buf q (refill p d) = refill (p @ q) d"
  by (simp add: refill_def)

lemma write_loop_zero: "fst (write_loop 0 d) = 0"
proof (induction "0 :: nat" d rule: write_loop.induct)
  case (1 d)
  show ?case by (subst write_loop.simps) (use 1 in \<open>auto split: prod.split option.split\<close>)
qed

lemma finishes_emitted: "finishes d p gs d' \<Longrightarrow> finishes (d\<lparr>emitted := x\<rparr>) p gs d'"
  using meta_loop_accepts [of 0 "refill p d" 0] by (fastforce simp: finishes_def refill_emitted)

lemma meta_Write_finish:
  assumes "finishes d p gs d'" "accepts m gs" "p \<noteq> []"
  shows "\<exists>y. meta_Write d p m = (None, d'\<lparr>emitted := y\<rparr>, fold taken gs m)"
proof -
  obtain hs where hs: "emitted d @ gs = emitted d @ hs"
    "\<And>x m. accepts m hs \<Longrightarrow> \<exists>y. meta_loop ((refill p d)\<lparr>emitted := x\<rparr>) m = (None, d'\<lparr>emitted := y\<rparr>, fold taken hs m)"
    using meta_loop_accepts [of 0 "refill p d" 0 "d'\<lparr>emitted := emitted d @ gs\<rparr>"] assms(1) by (auto simp: finishes_def)
  have "meta_Write d p m = meta_loop (refill p d) m" using assms(3) by (simp add: meta_Write_def refill_def)
  moreover have re: "(refill p d)\<lparr>emitted := emitted d\<rparr> = refill p d" using refill_emitted [where p = p and d = d and x = "emitted d"] by simp
  ultimately show ?thesis using hs(1) hs(2) [of m "emitted d", unfolded re] assms(2) by simp
qed

lemma meta_Write_piece:
  assumes "finishes d (p @ q) gs d'" "accepts m gs" "p \<noteq> []" "roomy d n" "length (saveBuf d) + length p + length q \<le> n"
  shows "\<exists>d1 gs1 gs2. gs = gs1 @ gs2 \<and> meta_Write d p m = (None, d1, fold taken gs1 m) \<and> finishes d1 q gs2 d' \<and>
    maxStrLen d1 = maxStrLen d \<and> length (saveBuf d1) \<le> length (saveBuf d) + length p"
proof -
  have w: "write_loop 0 (more_buf q (refill p d)) = (0, None, d'\<lparr>emitted := emitted d @ gs\<rparr>)"
    unfolding refill_more using assms(1) by (simp add: finishes_def)
  have "roomy (refill p d) n" using assms(4) by (simp add: roomy_def)
  then obtain d1 where d1: "write_loop 0 (refill p d) = (0, None, d1)" "maxStrLen d1 = maxStrLen d"
    "length (saveBuf d1) \<le> length (saveBuf d) + length p"
    using write_loop_prefix [OF w, of n 0] assms(5) by auto
  obtain gs1 where g1: "emitted d1 = emitted d @ gs1" using meta_loop_accepts [OF d1(1)] by auto
  have "length (d_buf (refill p d)) + length q < 2 ^ 64" using assms(4,5) by (simp add: roomy_def)
  then have "snd (write_loop 0 (refill q d1)) = (None, d'\<lparr>emitted := emitted d @ gs\<rparr>)"
    using write_loop_pieces [OF d1(1), of q 0] w by simp
  moreover have "fst (write_loop 0 (refill q d1)) = 0"
    using write_loop_zero by blast
  ultimately have f: "write_loop 0 (refill q d1) = (0, None, d'\<lparr>emitted := emitted d @ gs\<rparr>)" by (metis prod.collapse)
  obtain gs2 where g2: "emitted d @ gs = emitted d1 @ gs2" using meta_loop_accepts [OF f] by auto
  have "finishes d p gs1 d1" using d1(1) g1 by (simp add: finishes_def)
  moreover have "gs = gs1 @ gs2" using g1 g2 by simp
  ultimately obtain y where "meta_Write d p m = (None, d1\<lparr>emitted := y\<rparr>, fold taken gs1 m)"
    using meta_Write_finish assms(2,3) by fastforce
  moreover have "finishes (d1\<lparr>emitted := y\<rparr>) q gs2 d'"
    using f g1 g2 \<open>gs = gs1 @ gs2\<close> by (intro finishes_emitted) (simp add: finishes_def)
  ultimately show ?thesis using d1(2,3) \<open>gs = gs1 @ gs2\<close> by (intro exI [of _ "d1\<lparr>emitted := y\<rparr>"] exI [of _ gs1] exI [of _ gs2]) simp
qed

end
