(* ===== verification/H2Headers.thy ===== *)
theory H2Headers
  imports H2Pieces Headers Status
begin

text \<open>
  How a server of HTTP/2 writes the header of a response: \<open>http2writeResHeaders\<close> with \<open>http2encodeHeaders\<close> and
  \<open>http2splitHeaderBlock\<close> of \<open>pkg/http/h2_bundle.go\<close>, and that the framer of the peer reads the same fields.

  The encoder writes to a buffer, which takes every octet; \<open>http2encodeHeaders\<close> is the list of the names and values that it
  hands to \<open>http2encKV\<close>, in order.
\<close>

section \<open>Fields of a response\<close>

definition common_headers :: "string list" where
  "common_headers =
     [''accept'', ''accept-charset'', ''accept-encoding'', ''accept-language'', ''accept-ranges'', ''age'',
      ''access-control-allow-origin'', ''allow'', ''authorization'', ''cache-control'', ''content-disposition'',
      ''content-encoding'', ''content-language'', ''content-length'', ''content-location'', ''content-range'',
      ''content-type'', ''cookie'', ''date'', ''etag'', ''expect'', ''expires'', ''from'', ''host'', ''if-match'',
      ''if-modified-since'', ''if-none-match'', ''if-unmodified-since'', ''last-modified'', ''link'', ''location'',
      ''max-forwards'', ''proxy-authenticate'', ''proxy-authorization'', ''range'', ''referer'', ''refresh'',
      ''retry-after'', ''server'', ''set-cookie'', ''strict-transport-security'', ''trailer'', ''transfer-encoding'',
      ''user-agent'', ''vary'', ''via'', ''www-authenticate'']"

definition http2commonLowerHeader :: "(string \<times> string) list" where
  "http2commonLowerHeader = map (\<lambda>v. (CanonicalHeaderKey v, v)) common_headers"

definition http2lowerHeader :: "string \<Rightarrow> string" where
  "http2lowerHeader v = (case map_of http2commonLowerHeader v of Some s \<Rightarrow> s | None \<Rightarrow> ToLower v)"

definition http2httpCodeStringCommon :: "int \<Rightarrow> string option" where
  "http2httpCodeStringCommon i = (if 100 \<le> i \<and> i \<le> 999 \<and> StatusText i \<noteq> '''' then Some (Itoa i) else None)"

definition http2httpCodeString :: "int \<Rightarrow> string" where
  "http2httpCodeString code = (case http2httpCodeStringCommon code of Some s \<Rightarrow> s | None \<Rightarrow> Itoa code)"

definition sorted_keys :: "Header \<Rightarrow> string list" where
  "sorted_keys h = sort (map fst h)"

definition encode_key :: "Header \<Rightarrow> string \<Rightarrow> (string \<times> string) list" where
  \<comment> \<open>one round of the loop over the keys\<close>
  "encode_key h k0 =
     (let vv = (case map_of h k0 of Some vv \<Rightarrow> vv | None \<Rightarrow> []); k = http2lowerHeader k0 in
      if \<not> http2validWireHeaderFieldName (octets_of k) then []
      else
        let isTE = (k = ''transfer-encoding'') in
        map (Pair k) (filter (\<lambda>v. ValidHeaderFieldValue v \<and> \<not> (isTE \<and> v \<noteq> ''trailers'')) vv))"

definition http2encodeHeaders :: "Header \<Rightarrow> string list option \<Rightarrow> (string \<times> string) list" where
  "http2encodeHeaders h keys = concat (map (encode_key h) (case keys of Some ks \<Rightarrow> ks | None \<Rightarrow> sorted_keys h))"

definition http2encKV :: "string \<times> string \<Rightarrow> HeaderField" where
  \<comment> \<open>the field written for a name and a value\<close>
  "http2encKV kv = \<lparr>Name = octets_of (fst kv), Value = octets_of (snd kv), Sensitive = False\<rparr>"

record http2writeResHeaders =
  w_streamID :: "32 word"
  httpResCode :: int
  w_h :: Header
  w_trailers :: "string list option"
  w_endStream :: bool
  w_date :: string
  w_contentType :: string
  w_contentLength :: string

definition response_pairs :: "http2writeResHeaders \<Rightarrow> (string \<times> string) list" where
  \<comment> \<open>the calls of \<open>http2encKV\<close> in \<open>writeFrame\<close>\<close>
  "response_pairs w =
     (if httpResCode w \<noteq> 0 then [('':status'', http2httpCodeString (httpResCode w))] else []) @
     http2encodeHeaders (w_h w) (w_trailers w) @
     (if w_contentType w \<noteq> '''' then [(''content-type'', w_contentType w)] else []) @
     (if w_contentLength w \<noteq> '''' then [(''content-length'', w_contentLength w)] else []) @
     (if w_date w \<noteq> '''' then [(''date'', w_date w)] else [])"

definition response_fields :: "http2writeResHeaders \<Rightarrow> HeaderField list" where
  "response_fields w = map http2encKV (response_pairs w)"

section \<open>Frames of a header block\<close>

definition writeHeaderBlock :: "h2_writer \<Rightarrow> http2writeResHeaders \<Rightarrow> octets \<Rightarrow> bool \<Rightarrow> bool \<Rightarrow> write_outcome" where
  "writeHeaderBlock wr w frag firstFrag lastFrag =
     (if firstFrag then
        WriteHeaders wr False \<lparr>h_StreamID = w_streamID w, h_BlockFragment = frag, h_EndStream = w_endStream w, h_EndHeaders = lastFrag,
          h_PadLength = 0, h_Priority = zero_priority\<rparr>
      else WriteContinuation wr False (w_streamID w) lastFrag frag)"

definition block_maxFrameSize :: nat where "block_maxFrameSize = 16384"

function split_loop :: "(octets \<Rightarrow> bool \<Rightarrow> bool \<Rightarrow> write_outcome) \<Rightarrow> bool \<Rightarrow> octets \<Rightarrow> write_outcome" where
  "split_loop fn first headerBlock =
     (if headerBlock = [] then (None, [])
      else
        let frag = (if block_maxFrameSize < length headerBlock then take block_maxFrameSize headerBlock else headerBlock);
            headerBlock = drop (length frag) headerBlock in
        (case fn frag first (headerBlock = []) of
           (Some err, ws) \<Rightarrow> (Some err, ws)
         | (None, ws) \<Rightarrow> apsnd (append ws) (split_loop fn False headerBlock)))"
  by auto
termination
  by (relation "measure (\<lambda>(fn, first, b). length b)") (auto simp: block_maxFrameSize_def)

declare split_loop.simps [simp del]

definition http2splitHeaderBlock :: "octets \<Rightarrow> (octets \<Rightarrow> bool \<Rightarrow> bool \<Rightarrow> write_outcome) \<Rightarrow> write_outcome" where
  "http2splitHeaderBlock headerBlock fn = split_loop fn True headerBlock"

definition buffer_Write :: "octets \<Rightarrow> nat \<times> io_error option" where
  "buffer_Write b = (length b, None)"

definition writeResHeaders_writeFrame :: "h2_writer \<Rightarrow> Encoder \<Rightarrow> http2writeResHeaders \<Rightarrow> (write_outcome \<times> Encoder) option" where
  \<comment> \<open>\<open>None\<close> is a panic\<close>
  "writeResHeaders_writeFrame wr enc w =
     (case write_fields buffer_Write enc (response_fields w) of
        None \<Rightarrow> None
      | Some (headerBlock, enc) \<Rightarrow>
          if headerBlock = [] \<and> w_trailers w = None then None
          else Some (http2splitHeaderBlock headerBlock (writeHeaderBlock wr w), enc))"

definition write100Continue_writeFrame :: "h2_writer \<Rightarrow> Encoder \<Rightarrow> 32 word \<Rightarrow> (write_outcome \<times> Encoder) option" where
  "write100Continue_writeFrame wr enc streamID =
     map_option (\<lambda>(block, enc).
       (WriteHeaders wr False \<lparr>h_StreamID = streamID, h_BlockFragment = block, h_EndStream = False, h_EndHeaders = True,
          h_PadLength = 0, h_Priority = zero_priority\<rparr>, enc))
       (write_fields buffer_Write enc [http2encKV ('':status'', ''100'')])"

section \<open>The fields are valid\<close>

lemma chars_of_octets_of [simp]: "chars_of (octets_of s) = s"
proof -
  have "char_of (unat (word_of_nat (of_char c) :: 8 word)) = c" for c
    using of_char_of [where 'a = nat] by (simp add: unat_of_nat)
  then show ?thesis by (simp add: chars_of_def octets_of_def comp_def)
qed

lemma wire_name_regular: "http2validWireHeaderFieldName (octets_of k) \<Longrightarrow> valid_regular (http2encKV (k, v))"
proof -
  assume v: "http2validWireHeaderFieldName (octets_of k)"
  have "\<not> IsTokenRune (CHR '':'')" by (simp add: IsTokenRune_def isTokenTable_def)
  then have "k \<noteq> []" "hd k \<noteq> CHR '':''" using v by (cases k; auto simp: http2validWireHeaderFieldName_def octets_of_def chars_of_def unat_of_nat)+
  have inj: "word_of_nat (of_char c) = (word_of_nat (of_char c') :: 8 word) \<longleftrightarrow> c = c'" for c c'
    by (metis (no_types, lifting) chars_of_octets_of list.inject list.simps(8,9) octets_of_def)
  have "word_of_nat (of_char c) = (58 :: 8 word) \<longleftrightarrow> c = CHR '':''" for c using inj [of c "CHR '':''"] by simp
  then show ?thesis using v \<open>k \<noteq> []\<close> \<open>hd k \<noteq> CHR '':''\<close>
    by (cases k) (auto simp: valid_regular_def IsPseudo_def http2encKV_def octets_of_def)
qed

lemma encodeHeaders_valid:
  "kv \<in> set (http2encodeHeaders h keys) \<Longrightarrow> http2validWireHeaderFieldName (octets_of (fst kv)) \<and> ValidHeaderFieldValue (snd kv)"
  by (auto simp: http2encodeHeaders_def encode_key_def Let_def split: if_splits)

lemma wire_literals:
  "http2validWireHeaderFieldName (octets_of ''content-type'')" "http2validWireHeaderFieldName (octets_of ''content-length'')"
  "http2validWireHeaderFieldName (octets_of ''date'')"
  by (simp_all add: http2validWireHeaderFieldName_def) (simp_all add: octets_of_def IsTokenRune_def isTokenTable_def)

lemma Itoa_valid: "ValidHeaderFieldValue (Itoa i)"
  by (auto simp: ValidHeaderFieldValue_def list_all_iff isCTL_def is_digit_def dest!: Itoa_chars)

definition response_ok :: "http2writeResHeaders \<Rightarrow> bool" where
  \<comment> \<open>what the code does not check of the three values it adds\<close>
  "response_ok w \<longleftrightarrow> ValidHeaderFieldValue (w_contentType w) \<and> ValidHeaderFieldValue (w_contentLength w) \<and> ValidHeaderFieldValue (w_date w)"

definition status_pairs :: "http2writeResHeaders \<Rightarrow> (string \<times> string) list" where
  "status_pairs w = (if httpResCode w \<noteq> 0 then [('':status'', http2httpCodeString (httpResCode w))] else [])"

lemma response_split:
  assumes "response_ok w"
  shows "\<exists>kvs. response_pairs w = status_pairs w @ kvs \<and>
    (\<forall>kv \<in> set kvs. http2validWireHeaderFieldName (octets_of (fst kv)) \<and> ValidHeaderFieldValue (snd kv))"
  using assms encodeHeaders_valid [of _ "w_h w" "w_trailers w"] wire_literals
  by (auto simp: response_pairs_def status_pairs_def response_ok_def)

lemma status_pseudo: "IsPseudo (http2encKV ('':status'', v))"
  by (simp add: IsPseudo_def http2encKV_def octets_of_def)

lemma response_fields_split:
  assumes "response_ok w"
  obtains fs where "response_fields w = map http2encKV (status_pairs w) @ fs" "list_all valid_regular fs"
    "list_all (\<lambda>f. ValidHeaderFieldValue (chars_of (Value f))) fs"
proof -
  obtain kvs where k: "response_pairs w = status_pairs w @ kvs"
    "\<forall>kv \<in> set kvs. http2validWireHeaderFieldName (octets_of (fst kv)) \<and> ValidHeaderFieldValue (snd kv)"
    using response_split [OF assms] by blast
  have "list_all valid_regular (map http2encKV kvs)" using k(2) wire_name_regular by (auto simp: list_all_iff)
  moreover have "list_all (\<lambda>f. ValidHeaderFieldValue (chars_of (Value f))) (map http2encKV kvs)"
    using k(2) by (auto simp: list_all_iff http2encKV_def)
  ultimately show thesis using that [of "map http2encKV kvs"] k(1) by (simp add: response_fields_def)
qed

lemma status_pseudos: "list_all IsPseudo (map http2encKV (status_pairs w))"
  by (simp add: status_pairs_def status_pseudo)

lemma takeWhile_regular: "list_all valid_regular fs \<Longrightarrow> takeWhile IsPseudo fs = [] \<and> dropWhile IsPseudo fs = fs"
  by (cases fs) (simp_all add: valid_regular_def)

lemma takeWhile_all: "list_all P xs \<Longrightarrow> takeWhile P (xs @ ys) = xs @ takeWhile P ys"
  by (induction xs) simp_all

lemma response_valid:
  assumes "response_ok w"
  shows "ordered_fields (response_fields w)" "checkPseudos (response_fields w) = None"
proof -
  obtain fs where f: "response_fields w = map http2encKV (status_pairs w) @ fs" "list_all valid_regular fs"
    "list_all (\<lambda>f. ValidHeaderFieldValue (chars_of (Value f))) fs" using response_fields_split [OF assms] by blast
  have "ValidHeaderFieldValue (http2httpCodeString c)" for c
    using Itoa_valid by (simp add: http2httpCodeString_def http2httpCodeStringCommon_def)
  then have "list_all (\<lambda>f. ValidHeaderFieldValue (chars_of (Value f))) (map http2encKV (status_pairs w))"
    by (simp add: status_pairs_def http2encKV_def)
  then show "ordered_fields (response_fields w)"
    using f takeWhile_regular [OF f(2)] status_pseudos [of w] by (simp add: ordered_fields_def dropWhile_all)
  have "takeWhile IsPseudo (response_fields w) = map http2encKV (status_pairs w)"
    using f takeWhile_regular [OF f(2)] status_pseudos [of w] by (simp add: takeWhile_all)
  then show "checkPseudos (response_fields w) = None"
    by (simp add: checkPseudos_iff known_pseudos_def status_pairs_def http2encKV_def)
qed

lemma accepts_ordered:
  "m_invalid m = None \<Longrightarrow> ordered_fields fs \<Longrightarrow> (sawRegular m \<longrightarrow> list_all (\<lambda>f. \<not> IsPseudo f) fs) \<Longrightarrow>
   sum_list (map (\<lambda>f. unat (Size f)) fs) \<le> unat (remainSize m) \<Longrightarrow> accepts m fs"
proof (induction m fs rule: accepts.induct)
  case (2 m f fs)
  have s: "Size f \<le> remainSize m" using "2.prems"(4) by (simp add: word_le_nat_alt)
  then have r: "unat (remainSize (taken f m)) = unat (remainSize m) - unat (Size f)" by (simp add: taken_def unat_sub)
  have v: "ValidHeaderFieldValue (chars_of (Value f))" using "2.prems"(2) by (simp add: ordered_fields_def)
  have o: "ordered_fields fs" and n: "\<not> IsPseudo f \<Longrightarrow> http2validWireHeaderFieldName (Name f) \<and> list_all (\<lambda>f. \<not> IsPseudo f) fs"
  proof -
    show n: "\<not> IsPseudo f \<Longrightarrow> http2validWireHeaderFieldName (Name f) \<and> list_all (\<lambda>f. \<not> IsPseudo f) fs"
      using "2.prems"(2) by (auto simp: ordered_fields_def valid_regular_def list_all_iff)
    show "ordered_fields fs"
    proof (cases "IsPseudo f")
      case True
      then show ?thesis using "2.prems"(2) by (simp add: ordered_fields_def)
    next
      case False
      then have "dropWhile IsPseudo fs = fs" using n by (cases fs) auto
      then show ?thesis using "2.prems"(2) False by (simp add: ordered_fields_def)
    qed
  qed
  have "acceptable f m" using 2 s v n by (auto simp: acceptable_def)
  moreover have "accepts (taken f m) fs"
    using "2.IH" o n r "2.prems" by (auto simp: taken_def)
  ultimately show ?case by simp
qed simp

section \<open>The length of a header block\<close>

lemma varint_groups_length: "unat i < 2 ^ (7 * k) \<Longrightarrow> 0 < k \<Longrightarrow> length (varint_groups i) \<le> k"
proof (induction i arbitrary: k rule: varint_groups.induct)
  case (1 i)
  show ?case
  proof (cases "128 \<le> i")
    case True
    then have "128 \<le> unat i" by (simp add: word_le_nat_alt)
    with "1.prems" obtain j where j: "k = Suc j" "0 < j" by (cases k; cases "k - 1") auto
    have "unat (drop_bit 7 i) < 2 ^ (7 * j)" using "1.prems"(1) j(1) by (simp add: unat_drop_bit_7 less_mult_imp_div_less power_add)
    with "1.IH" [OF True this j(2)] True j(1) show ?thesis by (subst varint_groups.simps) simp
  next
    case False
    then show ?thesis using "1.prems"(2) by (subst varint_groups.simps) simp
  qed
qed

lemma varint_octets_length: "length (varint_octets n b i) \<le> 11"
proof -
  have g: "length (varint_groups j) \<le> 10" for j :: "64 word"
    using varint_groups_length [of j 10] unsigned_less [of j, where 'a = nat] by simp
  show ?thesis by (simp add: varint_octets_def or_at_def appendVarInt_def Let_def) (use g in auto)
qed

lemma varint_octets_not_Nil: "varint_octets n b i \<noteq> []"
  by (simp add: varint_octets_def or_at_def appendVarInt_def Let_def)

lemma string_octets_length:
  assumes "length s < 2 ^ 32"
  shows "length (string_octets s) \<le> length s + 11"
proof -
  have l: "unat (word_of_nat (length s) :: 64 word) = length s" using assms by (simp add: unat_of_nat)
  have "unat (HuffmanEncodeLength s) = length (AppendHuffmanString [] s)" using assms by (intro HuffmanEncodeLength_length) simp
  then show ?thesis
    using l varint_octets_length [of 7 "0x80" "HuffmanEncodeLength s"] varint_octets_length [of 7 0 "word_of_nat (length s)"]
    by (auto simp: string_octets_cases word_less_nat_alt)
qed

lemma WriteField_length:
  assumes "WriteField wr e f = Some (b, e', r)" "\<not> tableSizeUpdate e" "length (Name f) < 2 ^ 32" "length (Value f) < 2 ^ 32"
  shows "length b \<le> entry_size f \<and> b \<noteq> []"
proof -
  note n = string_octets_length [OF assms(3)] and v = string_octets_length [OF assms(4)]
  have idx: "or_at (appendVarInt [] k i) 0 c = varint_octets k c i" for k i c by (simp add: varint_octets_def)
  have "b = varint_octets 7 0x80 i \<or> (\<exists>c. b = c # string_octets (Name f) @ string_octets (Value f)) \<or>
      (\<exists>k c. b = varint_octets k c i @ string_octets (Value f))" if "searchTable e f = Some (i, match)" for i match
    using assms(1,2) that
    by (auto simp: WriteField_def size_updates_def Let_def appendIndexed_def appendNewName_def appendIndexedName_def idx
        appendHpackString_octets split: if_splits)
  moreover obtain i match where "searchTable e f = Some (i, match)"
    using assms(1,2) by (auto simp: WriteField_def size_updates_def split: option.splits)
  ultimately consider i where "b = varint_octets 7 0x80 i" | c where "b = c # string_octets (Name f) @ string_octets (Value f)"
    | i k c where "b = varint_octets k c i @ string_octets (Value f)" by blast
  then show ?thesis
  proof cases
    case (1 i)
    then show ?thesis using varint_octets_length [of 7 "0x80" i] varint_octets_not_Nil by (simp add: entry_size_def)
  next
    case 2
    then show ?thesis using n v by (simp add: entry_size_def)
  next
    case (3 i k c)
    then show ?thesis using v varint_octets_length [of k c i] varint_octets_not_Nil by (simp add: entry_size_def)
  qed
qed

lemma WriteField_no_update:
  assumes "WriteField wr e f = Some (b, e', r)" "\<not> tableSizeUpdate e"
  shows "\<not> tableSizeUpdate e'"
  using assms by (auto simp: WriteField_def size_updates_def Let_def split: option.splits if_splits)

lemma write_fields_length:
  assumes "write_fields wr e fs = Some (b, e')" "\<not> tableSizeUpdate e" "total_size fs < 2 ^ 32"
  shows "length b \<le> total_size fs \<and> (b = [] \<longleftrightarrow> fs = [])"
  using assms
proof (induction fs arbitrary: e b e')
  case (Cons f fs)
  obtain b1 e1 r b2 where 1: "WriteField wr e f = Some (b1, e1, r)" "write_fields wr e1 fs = Some (b2, e')" "b = b1 @ b2"
    using Cons.prems(1) by (auto simp: bind_eq_Some_conv)
  have "length (Name f) < 2 ^ 32" "length (Value f) < 2 ^ 32" "total_size fs < 2 ^ 32" using Cons.prems(3) by (simp_all add: entry_size_def)
  then show ?case
    using WriteField_length [OF 1(1) Cons.prems(2)] WriteField_no_update [OF 1(1) Cons.prems(2)] Cons.IH [OF 1(2)] 1(3) by simp
qed simp

section \<open>Reading the frames of a block\<close>

definition same_reading :: "http2Framer \<Rightarrow> http2Framer \<Rightarrow> bool" where
  \<comment> \<open>the settings of the framer are the same\<close>
  "same_reading fr fr' \<longleftrightarrow> maxReadSize fr' = maxReadSize fr \<and> AllowIllegalReads fr' = AllowIllegalReads fr \<and>
     ReadMetaHeaders fr' = ReadMetaHeaders fr \<and> MaxHeaderListSize fr' = MaxHeaderListSize fr"

lemma Has_end_headers: "Has (flag_if b http2FlagContinuationEndHeaders) http2FlagHeadersEndHeaders \<longleftrightarrow> b"
  by (cases b) (simp_all add: Has_def flag_if_def frame_flags)

lemma endWrite_one: "endWrite wr b = (None, ws) \<Longrightarrow> \<exists>buf. ws = [buf]"
  by (auto simp: endWrite_def Let_def split: if_splits)

lemma read_continuation:
  assumes "WriteContinuation wr False sid fin frag = (None, ws)" "rd (fr_r fr) = concat ws @ rest" "length frag \<le> unat (maxReadSize fr)"
    "lastHeaderStream fr = sid"
  shows "\<exists>fr' n. read_frame fr = (Inr (frame_of (CallContinuation sid fin frag) n), fr') \<and> fr_r fr' = (fr_r fr)\<lparr>rd := rest\<rparr> \<and>
    same_reading fr fr' \<and> (\<not> AllowIllegalReads fr \<longrightarrow> lastHeaderStream fr' = (if fin then 0 else sid))"
proof -
  let ?c = "CallContinuation sid fin frag"
  have v: "http2validStreamID sid" and w: "endWrite wr (startWrite http2FrameContinuation (flag_if fin http2FlagContinuationEndHeaders) sid @ frag) = (None, ws)"
    using assms(1) by (auto simp: WriteContinuation_def split: if_splits)
  obtain buf where b: "ws = [buf]" using endWrite_one [OF w] by blast
  have l: "length buf \<le> unat (maxReadSize fr) + 9" using endWrite_written [OF w [unfolded b]] assms(3) by simp
  obtain fr' where f: "read_frame fr = (Inr (frame_of ?c (length buf - 9)), fr')" "fr_r fr' = (fr_r fr)\<lparr>rd := rest\<rparr>"
    "checkFrameOrder (fr\<lparr>errDetail := None, lastFrame := map_option invalidate (lastFrame fr), fr_r := (fr_r fr)\<lparr>rd := rest\<rparr>\<rparr>)
      (frame_of ?c (length buf - 9)) = (None, fr')"
    using read_frame_call [of wr ?c None buf fr rest] assms b l by (auto simp: in_order_def)
  from f(3) have "same_reading fr fr' \<and> (\<not> AllowIllegalReads fr \<longrightarrow> lastHeaderStream fr' = (if fin then 0 else sid))"
    using assms(4) Has_end_headers [of fin]
    by (auto simp: checkFrameOrder_def Let_def same_reading_def connError_def split: if_splits option.splits)
  with f show ?thesis by blast
qed

lemma meta_frames_read:
  assumes "split_loop (writeHeaderBlock wr w) False q = (None, bufs)" "rd (fr_r fr) = concat bufs @ rest"
    "fh_valid fh" "Has (fh_Flags fh) http2FlagHeadersEndHeaders \<longleftrightarrow> q = []" "lastHeaderStream fr = (if q = [] then 0 else w_streamID w)"
    "finishes d (p @ q) gs d'" "accepts m gs" "p \<noteq> []" "roomy d n" "length (saveBuf d) + length p + length q \<le> n"
    "\<not> AllowIllegalReads fr" "block_maxFrameSize \<le> unat (maxReadSize fr)"
  shows "\<exists>fr' y. meta_frames fr d m fh p = (None, fr', d'\<lparr>emitted := y\<rparr>, fold taken gs m) \<and> fr_r fr' = (fr_r fr)\<lparr>rd := rest\<rparr> \<and>
    same_reading fr fr' \<and> lastHeaderStream fr' = 0"
  using assms
proof (induction "length q" arbitrary: q bufs fr fh d p gs m rule: less_induct)
  case less
  note A = less.prems
  show ?case
  proof (cases "q = []")
    case True
    then obtain y where y: "meta_Write d p m = (None, d'\<lparr>emitted := y\<rparr>, fold taken gs m)"
      using meta_Write_finish A(6-8) by fastforce
    have "bufs = []" using A(1) True by (simp add: split_loop.simps)
    then have "(fr_r fr)\<lparr>rd := rest\<rparr> = fr_r fr" using A(2) by simp
    then show ?thesis using True y A(3-5) by (auto simp: meta_frames.simps [of fr d m fh p] same_reading_def)
  next
    case False
    define frag where "frag = (if block_maxFrameSize < length q then take block_maxFrameSize q else q)"
    define q' where "q' = drop (length frag) q"
    have fr: "frag \<noteq> []" "q = frag @ q'" "length q' < length q" "length frag \<le> block_maxFrameSize"
      using False by (auto simp: frag_def q'_def block_maxFrameSize_def min_def)
    have e: "split_loop (writeHeaderBlock wr w) False q =
        (case writeHeaderBlock wr w frag False (q' = []) of
           (Some err, ws) \<Rightarrow> (Some err, ws)
         | (None, ws) \<Rightarrow> apsnd (append ws) (split_loop (writeHeaderBlock wr w) False q'))"
      using False unfolding split_loop.simps [of _ False q] Let_def q'_def frag_def by (simp only: if_False)
    obtain ws bufs' where s: "WriteContinuation wr False (w_streamID w) (q' = []) frag = (None, ws)"
      "split_loop (writeHeaderBlock wr w) False q' = (None, bufs')" "bufs = ws @ bufs'"
      using A(1) e by (cases "split_loop (writeHeaderBlock wr w) False q'") (auto simp: writeHeaderBlock_def split: prod.splits option.splits)
    obtain fr1 k where r: "read_frame fr = (Inr (frame_of (CallContinuation (w_streamID w) (q' = []) frag) k), fr1)"
      "fr_r fr1 = (fr_r fr)\<lparr>rd := concat bufs' @ rest\<rparr>" "same_reading fr fr1" "lastHeaderStream fr1 = (if q' = [] then 0 else w_streamID w)"
      using read_continuation [OF s(1), of fr "concat bufs' @ rest"] A(2,5,11,12) fr(4) s(3) False by auto
    obtain d1 gs1 gs2 where d1: "gs = gs1 @ gs2" "meta_Write d p m = (None, d1, fold taken gs1 m)" "finishes d1 q gs2 d'"
      "maxStrLen d1 = maxStrLen d" "length (saveBuf d1) \<le> length (saveBuf d) + length p"
      using meta_Write_piece [OF A(6-10)] by blast
    let ?fh = "header_of http2FrameContinuation (flag_if (q' = []) http2FlagContinuationEndHeaders) k (w_streamID w)"
    have step: "meta_frames fr d m fh p = meta_frames fr1 d1 (fold taken gs1 m) ?fh frag"
      using A(3,4) False d1(2) r(1) by (simp add: meta_frames.simps [of fr d m fh p])
    have "\<exists>fr' y. meta_frames fr1 d1 (fold taken gs1 m) ?fh frag = (None, fr', d'\<lparr>emitted := y\<rparr>, fold taken gs2 (fold taken gs1 m)) \<and>
        fr_r fr' = (fr_r fr1)\<lparr>rd := rest\<rparr> \<and> same_reading fr1 fr' \<and> lastHeaderStream fr' = 0"
    proof (rule less.hyps [OF fr(3) s(2)])
      show "finishes d1 (frag @ q') gs2 d'" using d1(3) fr(2) by simp
      show "accepts (fold taken gs1 m) gs2" using A(7) d1(1) by simp
      show "roomy d1 n" using A(9) d1(4) by (simp add: roomy_def)
      show "length (saveBuf d1) + length frag + length q' \<le> n" using A(10) d1(5) fr(2) by simp
    qed (use r A(11,12) fr(1) Has_end_headers in \<open>simp_all add: same_reading_def\<close>)
    then show ?thesis using step r(2,3) d1(1) by (fastforce simp: same_reading_def)
  qed
qed

lemma fold_taken:
  "m_Fields (fold taken fs m) = m_Fields m @ fs" "m_invalid (fold taken fs m) = m_invalid m" "m_Truncated (fold taken fs m) = m_Truncated m"
  by (induction fs arbitrary: m) (simp_all add: taken_def)

lemma read_headers:
  assumes "WriteHeaders wr False p = (None, ws)" "h_BlockFragment p \<noteq> []" "h_Priority p = zero_priority" "h_PadLength p = 0"
    "rd (fr_r fr) = concat ws @ rest" "length (h_BlockFragment p) \<le> unat (maxReadSize fr)" "lastHeaderStream fr = 0" "\<not> AllowIllegalReads fr"
  shows "\<exists>fr' fh. read_frame fr = (Inr (http2HeadersFrame fh zero_priority (h_BlockFragment p)), fr') \<and> fr_r fr' = (fr_r fr)\<lparr>rd := rest\<rparr> \<and>
    same_reading fr fr' \<and> lastHeaderStream fr' = (if h_EndHeaders p then 0 else h_StreamID p) \<and>
    fh_valid fh \<and> fh_Type fh = http2FrameHeaders \<and> fh_StreamID fh = h_StreamID p \<and>
    (Has (fh_Flags fh) http2FlagHeadersEndHeaders \<longleftrightarrow> h_EndHeaders p) \<and> (Has (fh_Flags fh) http2FlagHeadersEndStream \<longleftrightarrow> h_EndStream p)"
proof -
  define fl where "fl = flag_if (h_PadLength p \<noteq> 0) http2FlagHeadersPadded OR flag_if (h_EndStream p) http2FlagHeadersEndStream OR
    flag_if (h_EndHeaders p) http2FlagHeadersEndHeaders OR flag_if (\<not> IsZero (h_Priority p)) http2FlagHeadersPriority"
  have w: "endWrite wr (startWrite http2FrameHeaders fl (h_StreamID p) @ h_BlockFragment p) = (None, ws)"
    using assms(1,3,4) by (auto simp: WriteHeaders_def Let_def IsZero_def fl_def split: if_splits)
  obtain buf where b: "ws = [buf]" using endWrite_one [OF w] by blast
  have l: "length buf \<le> unat (maxReadSize fr) + 9" using endWrite_written [OF w [unfolded b]] assms(6) by simp
  let ?f = "http2HeadersFrame (header_of http2FrameHeaders fl (length buf - 9) (h_StreamID p)) zero_priority (h_BlockFragment p)"
  have "frame_of (CallHeaders p) (length buf - 9) = ?f" using assms(3) by (simp add: fl_def)
  then obtain fr' where f: "read_frame fr = (Inr ?f, fr')" "fr_r fr' = (fr_r fr)\<lparr>rd := rest\<rparr>"
    "checkFrameOrder (fr\<lparr>errDetail := None, lastFrame := map_option invalidate (lastFrame fr), fr_r := (fr_r fr)\<lparr>rd := rest\<rparr>\<rparr>) ?f = (None, fr')"
    using read_frame_call [of wr "CallHeaders p" None buf fr rest] assms b l by (auto simp: in_order_def)
  note hs = Has_headers [OF fl_def]
  have "same_reading fr fr' \<and> lastHeaderStream fr' = (if h_EndHeaders p then 0 else h_StreamID p)"
    using f(3) assms(7,8) hs by (auto simp: checkFrameOrder_def Let_def same_reading_def connError_def frame_types split: if_splits option.splits)
  then show ?thesis using f(1,2) hs by (intro exI [of _ fr'] exI) auto
qed

lemma response_frames_read:
  assumes "http2splitHeaderBlock block (writeHeaderBlock wr w) = (None, bufs)" "block \<noteq> []" "rd (fr_r fr) = concat bufs @ rest"
    "lastHeaderStream fr = 0" "\<not> AllowIllegalReads fr" "block_maxFrameSize \<le> unat (maxReadSize fr)" "ReadMetaHeaders fr = Some d"
    "finishes (d\<lparr>emitEnabled := True, maxStrLen := maxHeaderStringLen fr\<rparr>) block gs d'" "saveBuf d = []" "saveBuf d' = []"
    "accepts \<lparr>remainSize = maxHeaderListSize fr, sawRegular = False, m_invalid = None, m_Fields = [], m_Truncated = False\<rparr> gs"
    "roomy (d\<lparr>emitEnabled := True, maxStrLen := maxHeaderStringLen fr\<rparr>) (length block)" "checkPseudos gs = None"
  shows "\<exists>h fr' y. ReadFrame fr = (Inr (http2MetaHeadersFrame h zero_priority gs False), fr') \<and> fh_StreamID h = w_streamID w \<and>
    (Has (fh_Flags h) http2FlagHeadersEndStream \<longleftrightarrow> w_endStream w) \<and> rd (fr_r fr') = rest \<and>
    ReadMetaHeaders fr' = Some (d'\<lparr>emitted := y\<rparr>) \<and> lastHeaderStream fr' = 0"
proof -
  define frag where "frag = (if block_maxFrameSize < length block then take block_maxFrameSize block else block)"
  define q where "q = drop (length frag) block"
  have fq: "frag \<noteq> []" "block = frag @ q" "length frag \<le> block_maxFrameSize"
    using assms(2) by (auto simp: frag_def q_def block_maxFrameSize_def min_def)
  let ?p = "\<lparr>h_StreamID = w_streamID w, h_BlockFragment = frag, h_EndStream = w_endStream w, h_EndHeaders = (q = []),
    h_PadLength = 0, h_Priority = zero_priority\<rparr>"
  have e: "split_loop (writeHeaderBlock wr w) True block =
      (case writeHeaderBlock wr w frag True (q = []) of
         (Some err, ws) \<Rightarrow> (Some err, ws)
       | (None, ws) \<Rightarrow> apsnd (append ws) (split_loop (writeHeaderBlock wr w) False q))"
    using assms(2) unfolding split_loop.simps [of _ True block] Let_def q_def frag_def by (simp only: if_False)
  obtain ws bufs' where s: "WriteHeaders wr False ?p = (None, ws)"
    "split_loop (writeHeaderBlock wr w) False q = (None, bufs')" "bufs = ws @ bufs'"
    using assms(1) e unfolding http2splitHeaderBlock_def
    by (cases "split_loop (writeHeaderBlock wr w) False q") (auto simp: writeHeaderBlock_def split: prod.splits option.splits)
  obtain fr1 fh where r: "read_frame fr = (Inr (http2HeadersFrame fh zero_priority frag), fr1)" "fr_r fr1 = (fr_r fr)\<lparr>rd := concat bufs' @ rest\<rparr>"
    "same_reading fr fr1" "lastHeaderStream fr1 = (if q = [] then 0 else w_streamID w)" "fh_valid fh" "fh_Type fh = http2FrameHeaders"
    "fh_StreamID fh = w_streamID w" "Has (fh_Flags fh) http2FlagHeadersEndHeaders \<longleftrightarrow> q = []"
    "Has (fh_Flags fh) http2FlagHeadersEndStream \<longleftrightarrow> w_endStream w"
    using read_headers [OF s(1), of fr "concat bufs' @ rest"] assms(3-6) fq s(3) by auto
  let ?d = "d\<lparr>emitEnabled := True, maxStrLen := maxHeaderStringLen fr1\<rparr>"
  let ?m = "\<lparr>remainSize = maxHeaderListSize fr1, sawRegular = False, m_invalid = None, m_Fields = [], m_Truncated = False\<rparr>"
  have l: "maxHeaderListSize fr1 = maxHeaderListSize fr" using r(3) by (simp add: maxHeaderListSize_def same_reading_def)
  then have h: "maxHeaderStringLen fr1 = maxHeaderStringLen fr" by (simp add: maxHeaderStringLen_def)
  obtain fr2 y where f: "meta_frames fr1 ?d ?m fh frag = (None, fr2, d'\<lparr>emitted := y\<rparr>, fold taken gs ?m)"
    "fr_r fr2 = (fr_r fr1)\<lparr>rd := rest\<rparr>" "lastHeaderStream fr2 = 0"
    using meta_frames_read [OF s(2), of fr1 rest fh ?d frag gs d' ?m "length block"] r l h fq assms by (auto simp: same_reading_def)
  have "readMetaFrame fr1 d fh zero_priority frag =
      (Inr (http2MetaHeadersFrame (fh\<lparr>fh_valid := False\<rparr>) zero_priority gs False), fr2\<lparr>ReadMetaHeaders := Some (d'\<lparr>emitted := y\<rparr>)\<rparr>)"
    using f(1) assms(5,10,13) r(3) by (simp add: readMetaFrame_def Let_def Decoder_Close_def fold_taken same_reading_def)
  then have "ReadFrame fr = (Inr (http2MetaHeadersFrame (fh\<lparr>fh_valid := False\<rparr>) zero_priority gs False), fr2\<lparr>ReadMetaHeaders := Some (d'\<lparr>emitted := y\<rparr>)\<rparr>)"
    using r assms(7) by (simp add: ReadFrame_def same_reading_def)
  then show ?thesis using f(2,3) r(7,9) by auto
qed

lemma response_headers_back:
  assumes "writeResHeaders_writeFrame wr e w = Some ((None, bufs), e')" "response_ok w" "response_fields w \<noteq> []"
    and "synced e d" "saveBuf d = []" "field_room (e_dynTab e) (response_fields w)" "field_room (d_dynTab d) (response_fields w)"
    and "rd (fr_r fr) = concat bufs @ rest" "ReadMetaHeaders fr = Some d" "lastHeaderStream fr = 0" "\<not> AllowIllegalReads fr"
    and "block_maxFrameSize \<le> unat (maxReadSize fr)" "total_size (response_fields w) \<le> unat (maxHeaderListSize fr)"
  shows "\<exists>h fr' d'. ReadFrame fr = (Inr (http2MetaHeadersFrame h zero_priority (response_fields w) False), fr') \<and>
    fh_StreamID h = w_streamID w \<and> (Has (fh_Flags h) http2FlagHeadersEndStream \<longleftrightarrow> w_endStream w) \<and> rd (fr_r fr') = rest \<and>
    ReadMetaHeaders fr' = Some d' \<and> synced e' d' \<and> saveBuf d' = [] \<and> lastHeaderStream fr' = 0"
proof -
  let ?fs = "response_fields w" and ?d = "d\<lparr>emitEnabled := True, maxStrLen := maxHeaderStringLen fr\<rparr>"
  obtain block where b: "write_fields buffer_Write e ?fs = Some (block, e')" "http2splitHeaderBlock block (writeHeaderBlock wr w) = (None, bufs)"
    using assms(1) by (auto simp: writeResHeaders_writeFrame_def split: option.splits if_splits)
  define N where "N = unat (maxHeaderListSize fr)"
  have m: "maxHeaderStringLen fr = int N" by (simp add: maxHeaderStringLen_def Let_def N_def)
  have lt: "N < 2 ^ 32" using unsigned_less [of "maxHeaderListSize fr", where 'a = nat] by (simp add: N_def)
  then have t: "total_size ?fs < 2 ^ 32" using assms(13) by (simp add: N_def)
  have nu: "\<not> tableSizeUpdate e" using assms(4) by (simp add: synced_def)
  have bl: "length block \<le> total_size ?fs" "block \<noteq> []" using write_fields_length [OF b(1) nu t] assms(3) by simp_all
  have each: "entry_size f \<le> total_size ?fs" if "f \<in> set ?fs" for f
    using that by (simp add: total_size_def member_le_sum_list)
  have fits: "\<forall>f \<in> set ?fs. field_fits ?d f"
  proof
    fix f assume "f \<in> set ?fs"
    then have "length (Name f) + length (Value f) + 32 \<le> N"
      using each [of f] assms(13) by (simp add: entry_size_def N_def)
    then show "field_fits ?d f" using lt m by (simp add: field_fits_def string_fits_def)
  qed
  obtain d' where d': "write_loop 0 (?d\<lparr>d_buf := block\<rparr>) = (0, None, d')" "emitted d' = emitted ?d @ ?fs" "carries_on ?d d'" "synced e' d'"
    using write_fields_loop [of e ?d ?fs buffer_Write 0] b(1) assms(4,6,7) fits bl(1) t by (auto simp: synced_def)
  have "finishes ?d block ?fs d'" using d'(1,2) assms(5) by (simp add: finishes_def refill_def)
  moreover have "accepts \<lparr>remainSize = maxHeaderListSize fr, sawRegular = False, m_invalid = None, m_Fields = [], m_Truncated = False\<rparr> ?fs"
  proof (rule accepts_ordered)
    have "unat (Size f) \<le> entry_size f" for f by (simp add: Size_entry unat_of_nat)
    then have "sum_list (map (\<lambda>f. unat (Size f)) ?fs) \<le> total_size ?fs" unfolding total_size_def by (intro sum_list_mono)
    then show "sum_list (map (\<lambda>f. unat (Size f)) ?fs) \<le>
        unat (remainSize \<lparr>remainSize = maxHeaderListSize fr, sawRegular = False, m_invalid = None, m_Fields = [], m_Truncated = False\<rparr>)"
      using assms(13) by simp
  qed (use response_valid [OF assms(2)] in simp_all)
  moreover have "saveBuf d' = []" using d'(3) assms(5) by (simp add: carries_on_def)
  moreover have "roomy ?d (length block)" using bl(1) assms(13) lt m unfolding N_def [symmetric] by (simp add: roomy_def)
  ultimately obtain h fr' y where "ReadFrame fr = (Inr (http2MetaHeadersFrame h zero_priority ?fs False), fr')" "fh_StreamID h = w_streamID w"
    "Has (fh_Flags h) http2FlagHeadersEndStream \<longleftrightarrow> w_endStream w" "rd (fr_r fr') = rest"
    "ReadMetaHeaders fr' = Some (d'\<lparr>emitted := y\<rparr>)" "lastHeaderStream fr' = 0"
    using response_frames_read [OF b(2) bl(2) assms(8,10-12,9), of ?fs d'] response_valid(2) [OF assms(2)] assms(5) by blast
  then show ?thesis using d'(4) \<open>saveBuf d' = []\<close> by (auto simp: synced_def)
qed

section \<open>The two theorems, at a response without a header\<close>

definition sample_response :: http2writeResHeaders where
  "sample_response = \<lparr>w_streamID = 1, httpResCode = 200, w_h = [], w_trailers = None, w_endStream = True, w_date = '''',
     w_contentType = '''', w_contentLength = ''''\<rparr>"

definition sample_status :: HeaderField where
  "sample_status = \<lparr>Name = octets_of '':status'', Value = octets_of ''200'', Sensitive = False\<rparr>"

definition sample_peer :: http2Framer where
  "sample_peer = (sample_reader [0, 0, 1, 1, 5, 0, 0, 0, 1, 0x88])\<lparr>ReadMetaHeaders := Some decoder_start\<rparr>"

lemma sample_response_fields: "response_fields sample_response = [sample_status]"
proof -
  have "http2httpCodeString 200 = Itoa 200" by (simp add: http2httpCodeString_def http2httpCodeStringCommon_def)
  also have "Itoa 200 = ''200''" by code_simp
  finally have "http2httpCodeString 200 = ''200''" .
  then show ?thesis
    by (simp add: response_fields_def response_pairs_def sample_response_def http2encodeHeaders_def sorted_keys_def http2encKV_def sample_status_def)
qed

lemma sample_response_written:
  "writeResHeaders_writeFrame (\<lambda>b. (length b, None)) encoder_start sample_response = Some ((None, [[0, 0, 1, 1, 5, 0, 0, 0, 1, 0x88]]), encoder_start)"
proof -
  have "search True staticTable sample_status = Some (8, True)"
    by (simp add: search_newest [OF staticTable_ok(1)] staticTable_ok(2) staticTableEntries_def octets_of_def position_def sample_status_def)
  then have "write_fields buffer_Write encoder_start [sample_status] = Some ([0x88], encoder_start)"
    by (simp add: WriteField_def size_updates_def encoder_start_def Let_def searchTable_def appendIndexed_def appendVarInt_def or_at_def prefix_max_def buffer_Write_def)
  moreover have "w_trailers sample_response = None" by (simp add: sample_response_def)
  ultimately have "writeResHeaders_writeFrame (\<lambda>b. (length b, None)) encoder_start sample_response =
      Some (http2splitHeaderBlock [0x88] (writeHeaderBlock (\<lambda>b. (length b, None)) sample_response), encoder_start)"
    unfolding writeResHeaders_writeFrame_def sample_response_fields by simp
  then show ?thesis
    by (simp add: http2splitHeaderBlock_def split_loop.simps writeHeaderBlock_def
        sample_response_def block_maxFrameSize_def WriteHeaders_def http2validStreamID_def bit31_def IsZero_def flag_if_def frame_flags
        endWrite_def startWrite_def http2frameHeaderLen_def frame_types pad_zeros_def Let_def)
qed

lemma sample_peer_ready:
  "response_ok sample_response" "field_room (e_dynTab encoder_start) [sample_status]" "field_room (d_dynTab decoder_start) [sample_status]"
  "saveBuf decoder_start = []" "rd (fr_r sample_peer) = concat [[0, 0, 1, 1, 5, 0, 0, 0, 1, 0x88]] @ []" "ReadMetaHeaders sample_peer = Some decoder_start"
  "lastHeaderStream sample_peer = 0" "\<not> AllowIllegalReads sample_peer" "block_maxFrameSize \<le> unat (maxReadSize sample_peer)"
  "total_size [sample_status] \<le> unat (maxHeaderListSize sample_peer)"
  by (simp_all add: response_ok_def sample_response_def ValidHeaderFieldValue_def field_room_def encoder_start_def decoder_start_def table_init_def
      sample_status_def entry_size_def octets_of_def sample_peer_def sample_reader_def http2NewFramer_def SetMaxReadFrameSize_def
      http2maxFrameSize_def block_maxFrameSize_def maxHeaderListSize_def)

text \<open>
  (C10) The header of a response crosses an HTTP/2 connection. The server encodes the fields and cuts the block into a HEADERS frame and
  CONTINUATION frames; if it wrote them all, then one call of \<open>ReadFrame\<close> of the peer, whose decoder has the server's dynamic
  table, returns exactly the fields in order, none cut off, on the stream of the response and with its END_STREAM flag,
  leaves what follows, and both tables agree again, so that the next response is read as well. This holds for a list of fields
  within the peer's limit, where the three values that the server adds are valid; the names and values of the header need not
  be, as \<open>http2encodeHeaders\<close> leaves out the others.
\<close>
theorem response_headers_read:
  assumes "writeResHeaders_writeFrame wr e w = Some ((None, bufs), e')" "response_ok w" "response_fields w \<noteq> []"
    and "synced e d" "saveBuf d = []" "field_room (e_dynTab e) (response_fields w)" "field_room (d_dynTab d) (response_fields w)"
    and "rd (fr_r fr) = concat bufs @ rest" "ReadMetaHeaders fr = Some d" "lastHeaderStream fr = 0" "\<not> AllowIllegalReads fr"
    and "block_maxFrameSize \<le> unat (maxReadSize fr)" "total_size (response_fields w) \<le> unat (maxHeaderListSize fr)"
  shows "\<exists>h fr' d'. ReadFrame fr = (Inr (http2MetaHeadersFrame h zero_priority (response_fields w) False), fr') \<and>
    fh_StreamID h = w_streamID w \<and> (Has (fh_Flags h) http2FlagHeadersEndStream \<longleftrightarrow> w_endStream w) \<and> rd (fr_r fr') = rest \<and>
    ReadMetaHeaders fr' = Some d' \<and> synced e' d' \<and> saveBuf d' = [] \<and> lastHeaderStream fr' = 0"
  using response_headers_back [OF assms] .

theorem response_headers_read_witness:
  "\<exists>h fr'. ReadFrame sample_peer = (Inr (http2MetaHeadersFrame h zero_priority [sample_status] False), fr') \<and> fh_StreamID h = 1"
  using response_headers_read [OF sample_response_written sample_peer_ready(1) _ synced_start sample_peer_ready(4), of sample_peer "[]"]
    sample_peer_ready sample_response_fields by (auto simp: sample_response_def)

text \<open>
  (C22) The promise that the code documents for the fields of a \<open>MetaHeadersFrame\<close>. Whatever a peer sends, if \<open>ReadFrame\<close> returns
  a decoded header block, then the pseudo header fields come first, each at most once, all known and all of a request or all of
  a response; the other names are valid names of HTTP/2 without capital letters; every value is a valid value; and the
  sizes of the fields add up to no more than the framer's limit.
\<close>
theorem meta_headers_valid:
  assumes "ReadFrame fr = (Inr (http2MetaHeadersFrame h prio fs tr), fr')"
  shows "known_pseudos (takeWhile IsPseudo fs) \<and>
    (\<forall>f \<in> set (dropWhile IsPseudo fs). \<not> IsPseudo f \<and> http2validWireHeaderFieldName (Name f)) \<and>
    (\<forall>f \<in> set fs. ValidHeaderFieldValue (chars_of (Value f))) \<and>
    sum_list (map (\<lambda>f. unat (Size f)) fs) \<le> unat (maxHeaderListSize fr)"
  using ReadFrame_fields [OF assms] by (auto simp: ordered_fields_def valid_regular_def list_all_iff checkPseudos_iff)

theorem meta_headers_valid_witness:
  "\<exists>h fr'. ReadFrame sample_peer = (Inr (http2MetaHeadersFrame h zero_priority [sample_status] False), fr') \<and>
     known_pseudos (takeWhile IsPseudo [sample_status])"
proof -
  obtain h fr' where r: "ReadFrame sample_peer = (Inr (http2MetaHeadersFrame h zero_priority [sample_status] False), fr')"
    using response_headers_back [OF sample_response_written sample_peer_ready(1) _ synced_start sample_peer_ready(4), of sample_peer "[]"]
      sample_peer_ready sample_response_fields by auto
  from meta_headers_valid [OF r] r show ?thesis by blast
qed

end
