(* ===== verification/H2Request.thy ===== *)
theory H2Request
  imports H2Headers Url
begin

text \<open>
  From a header that was read to a request: \<open>newWriterAndRequest\<close> and \<open>newWriterAndRequestNoBody\<close> of the server in
  \<open>pkg/http/h2_bundle.go\<close>, with the tests on request headers and trailers.

  A request is what the functions set of \<open>Request\<close> and of \<open>http2requestBody\<close>; the fields that are the same for every request of a
  connection are left out, and so is the response writer. \<open>canonHeader\<close>, which caches \<open>CanonicalHeaderKey\<close>, is left out as well.
\<close>

section \<open>Requests\<close>

record http2requestParam =
  rp_method :: string
  rp_scheme :: string
  rp_authority :: string
  rp_path :: string
  rp_header :: Header

record h2request =
  rq_Method :: string
  rq_URL :: URL
  rq_Header :: Header
  rq_RequestURI :: string
  rq_Host :: string
  rq_Trailer :: "Header option"
  rq_ContentLength :: int
  rq_needsContinue :: bool
  rq_pipe :: bool                  \<comment> \<open>whether the body has a pipe\<close>
  rq_useTLS :: bool

definition http2commonCanonHeader :: "(string \<times> string) list" where
  "http2commonCanonHeader = map (\<lambda>v. (v, CanonicalHeaderKey v)) common_headers"

definition canonicalHeader :: "string \<Rightarrow> string" where
  "canonicalHeader v = (case map_of http2commonCanonHeader v of Some cv \<Rightarrow> cv | None \<Rightarrow> CanonicalHeaderKey v)"

definition declared_trailer :: "Header \<Rightarrow> Header option" where
  \<comment> \<open>the keys of the Trailer header\<close>
  "declared_trailer h =
     (let keys = filter (\<lambda>key. key \<notin> set [''Transfer-Encoding'', ''Trailer'', ''Content-Length''])
            (map (\<lambda>key. CanonicalHeaderKey (TrimSpace key)) (concat (map (\<lambda>v. Split v (CHR '','')) (field_values h ''Trailer'')))) in
      if keys = [] then None else Some (fold (\<lambda>k t. AList.update k [] t) keys []))"

definition newWriterAndRequestNoBody :: "32 word \<Rightarrow> http2requestParam \<Rightarrow> http2_error + h2request" where
  "newWriterAndRequestNoBody sid rp =
     (let h = rp_header rp;
          needsContinue = (Get h ''Expect'' = ''100-continue'');
          h = (if needsContinue then Del ''Expect'' h else h);
          cookies = field_values h ''Cookie'';
          h = (if 1 < length cookies then Set ''Cookie'' (Join cookies ''; '') h else h);
          trailer = declared_trailer h;
          h = AList.delete ''Trailer'' h;
          req = (\<lambda>url requestURI.
            \<lparr>rq_Method = rp_method rp, rq_URL = url, rq_Header = h, rq_RequestURI = requestURI, rq_Host = rp_authority rp, rq_Trailer = trailer,
             rq_ContentLength = 0, rq_needsContinue = needsContinue, rq_pipe = False, rq_useTLS = (rp_scheme rp = ''https'')\<rparr>) in
      if rp_method rp = ''CONNECT'' then Inr (req (empty_URL\<lparr>URL_Host := rp_authority rp\<rparr>) (rp_authority rp))
      else
        (case ParseRequestURI (rp_path rp) of
           Inl _ \<Rightarrow> Inl (http2streamError sid http2ErrCodeProtocol)
         | Inr url \<Rightarrow> Inr (req url (rp_path rp))))"

definition content_length :: "string \<Rightarrow> int" where
  \<comment> \<open>\<open>ParseInt\<close> with its error dropped: 0 for a syntax error, the nearest number for one that is out of range\<close>
  "content_length s =
     (case ParseInt64 s of
        Inr n \<Rightarrow> n
      | Inl ErrSyntax \<Rightarrow> 0
      | Inl ErrRange \<Rightarrow> if hd s = CHR ''-'' then - (2 ^ 63) else 2 ^ 63 - 1)"

definition newWriterAndRequest :: "32 word \<Rightarrow> bool \<Rightarrow> HeaderField list \<Rightarrow> http2_error + h2request" where
  \<comment> \<open>the second argument is \<open>StreamEnded\<close> of the frame\<close>
  "newWriterAndRequest sid ended hfs =
     (let pv = (\<lambda>s. chars_of (PseudoValue hfs (octets_of s)));
          rp = \<lparr>rp_method = pv ''method'', rp_scheme = pv ''scheme'', rp_authority = pv ''authority'', rp_path = pv ''path'', rp_header = []\<rparr>;
          isConnect = (rp_method rp = ''CONNECT'');
          bodyOpen = (\<not> ended) in
      if isConnect \<and> (rp_path rp \<noteq> '''' \<or> rp_scheme rp \<noteq> '''' \<or> rp_authority rp = '''') then Inl (http2streamError sid http2ErrCodeProtocol)
      else if \<not> isConnect \<and> (rp_method rp = '''' \<or> rp_path rp = '''' \<or> rp_scheme rp \<noteq> ''https'' \<and> rp_scheme rp \<noteq> ''http'') then
        Inl (http2streamError sid http2ErrCodeProtocol)
      else if rp_method rp = ''HEAD'' \<and> bodyOpen then Inl (http2streamError sid http2ErrCodeProtocol)
      else
        let h = fold (\<lambda>hf. Add (canonicalHeader (chars_of (Name hf))) (chars_of (Value hf))) (RegularFields hfs) [];
            rp = rp\<lparr>rp_header := h, rp_authority := if rp_authority rp = '''' then Get h ''Host'' else rp_authority rp\<rparr> in
        rbind (newWriterAndRequestNoBody sid rp) (\<lambda>req.
          if bodyOpen then
            Inr (req\<lparr>rq_ContentLength := (case map_of (rq_Header req) ''Content-Length'' of Some (v # _) \<Rightarrow> content_length v | _ \<Rightarrow> - 1),
                     rq_pipe := True\<rparr>)
          else Inr req))"

definition http2connHeaders :: "string list" where
  "http2connHeaders = [''Connection'', ''Keep-Alive'', ''Proxy-Connection'', ''Transfer-Encoding'', ''Upgrade'']"

definition http2checkValidHTTP2RequestHeaders :: "Header \<Rightarrow> string option" where
  "http2checkValidHTTP2RequestHeaders h =
     (case find (\<lambda>k. map_of h k \<noteq> None) http2connHeaders of
        Some k \<Rightarrow> Some (''request header \"'' @ k @ ''\" is not valid in HTTP/2'')
      | None \<Rightarrow>
          let te = field_values h ''Te'' in
          if te \<noteq> [] \<and> (1 < length te \<or> hd te \<noteq> ''trailers'' \<and> hd te \<noteq> '''') then
            Some ''request header \"TE\" may only be \"trailers\" in HTTP/2''
          else None)"

definition badTrailer :: "string list" where
  "badTrailer =
     [''Authorization'', ''Cache-Control'', ''Connection'', ''Content-Encoding'', ''Content-Length'', ''Content-Range'', ''Content-Type'',
      ''Expect'', ''Host'', ''Keep-Alive'', ''Max-Forwards'', ''Pragma'', ''Proxy-Authenticate'', ''Proxy-Authorization'',
      ''Proxy-Connection'', ''Range'', ''Realm'', ''Te'', ''Trailer'', ''Transfer-Encoding'', ''Www-Authenticate'']"

definition ValidTrailerHeader :: "string \<Rightarrow> bool" where
  "ValidTrailerHeader name0 =
     (let name = CanonicalHeaderKey name0 in
      if HasPrefix name ''If-'' \<or> name \<in> set badTrailer then False else True)"

end
