(* ===== verification/H2Buffer.thy ===== *)
theory H2Buffer
  imports H2Frames
begin

text \<open>
  The body of a stream on its way to a handler: \<open>http2dataBuffer\<close>, a queue of octets kept in chunks, and \<open>http2pipe\<close>, which
  hands them from the goroutine that reads frames to the one that runs the handler, of \<open>pkg/http/h2_bundle.go\<close>.

  A chunk has the size of one of five classes; the pools give chunks with the octets of an earlier use, which are the argument \<open>stale\<close>
  of the operations that allocate. The pipe works on any buffer with the operations of the interface \<open>http2pipeBuffer\<close>; its operations run
  under a mutex, so that each is one step, and a \<open>Read\<close> that would wait returns \<open>Waits\<close> and leaves the pipe alone.
\<close>

section \<open>Chunks\<close>

definition http2dataChunkSizeClasses :: "nat list" where
  "http2dataChunkSizeClasses = [1024, 2048, 4096, 8192, 16384]"

definition chunk_class :: "int \<Rightarrow> nat" where
  \<comment> \<open>the size of the class that the loop of \<open>http2getDataBufferChunk\<close> stops at\<close>
  "chunk_class sz =
     (case find (\<lambda>c. sz \<le> int c) (butlast http2dataChunkSizeClasses) of
        Some c \<Rightarrow> c
      | None \<Rightarrow> last http2dataChunkSizeClasses)"

definition http2getDataBufferChunk :: "(nat \<Rightarrow> octets) \<Rightarrow> int \<Rightarrow> octets" where
  "http2getDataBufferChunk stale sz = (let c = chunk_class sz in take c (stale c @ replicate c 0))"

definition http2putDataBufferChunk :: "octets \<Rightarrow> bool" where
  \<comment> \<open>whether it does not panic\<close>
  "http2putDataBufferChunk p \<longleftrightarrow> length p \<in> set http2dataChunkSizeClasses"

record http2dataBuffer =
  chunks :: "octets list"
  db_r :: nat
  db_w :: nat
  db_size :: nat
  db_expected :: int

definition bytesFromFirstChunk :: "http2dataBuffer \<Rightarrow> octets" where
  "bytesFromFirstChunk b =
     (if length (chunks b) = 1 then drop (db_r b) (take (db_w b) (chunks b ! 0)) else drop (db_r b) (chunks b ! 0))"

function read_loop :: "nat \<Rightarrow> octets \<Rightarrow> http2dataBuffer \<Rightarrow> (octets \<times> http2dataBuffer) option" where
  \<comment> \<open>the room left in \<open>p\<close>, what was copied, the buffer; \<open>None\<close> is a panic or a loop that does not end\<close>
  "read_loop cap acc b =
     (if cap = 0 \<or> db_size b = 0 then Some (acc, b)
      else if chunks b = [] then None
      else
        let n = min cap (length (bytesFromFirstChunk b));
            acc = acc @ take n (bytesFromFirstChunk b);
            b1 = b\<lparr>db_r := db_r b + n, db_size := db_size b - n\<rparr> in
        if db_r b1 = length (chunks b1 ! 0) then
          if http2putDataBufferChunk (chunks b1 ! 0) then read_loop (cap - n) acc (b1\<lparr>chunks := tl (chunks b1), db_r := 0\<rparr>) else None
        else if n = 0 then None else read_loop (cap - n) acc b1)"
  by auto
termination
  by (relation "measures [\<lambda>(cap, acc, b). length (chunks b), \<lambda>(cap, acc, b). cap]") (auto simp: Let_def)

declare read_loop.simps [simp del]

datatype buffer_error = http2errReadEmpty | http2errClosedPipeWrite | PipeError string | StreamFailed "32 word" "32 word"

definition dataBuffer_Read :: "nat \<Rightarrow> http2dataBuffer \<Rightarrow> ((buffer_error + octets) \<times> http2dataBuffer) option" where
  \<comment> \<open>reading into a slice of the length given\<close>
  "dataBuffer_Read n b =
     (if db_size b = 0 then Some (Inl http2errReadEmpty, b)
      else map_option (apfst Inr) (read_loop n [] b))"

definition dataBuffer_Len :: "http2dataBuffer \<Rightarrow> nat" where
  "dataBuffer_Len b = db_size b"

definition lastChunkOrAlloc :: "(nat \<Rightarrow> octets) \<Rightarrow> int \<Rightarrow> http2dataBuffer \<Rightarrow> http2dataBuffer" where
  \<comment> \<open>the chunk returned is the last\<close>
  "lastChunkOrAlloc stale want b =
     (if chunks b \<noteq> [] \<and> db_w b < length (last (chunks b)) then b
      else b\<lparr>chunks := chunks b @ [http2getDataBufferChunk stale want], db_w := 0\<rparr>)"

definition copy_last :: "octets \<Rightarrow> http2dataBuffer \<Rightarrow> nat \<times> http2dataBuffer" where
  \<comment> \<open>\<open>n := copy(chunk[b.w:], p)\<close> and what follows it\<close>
  "copy_last p b =
     (let c = last (chunks b); n = min (length c - db_w b) (length p) in
      (n, b\<lparr>chunks := butlast (chunks b) @ [take (db_w b) c @ take n p @ drop (db_w b + n) c],
            db_w := db_w b + n, db_size := db_size b + n, db_expected := db_expected b - int n\<rparr>))"

lemma chunk_class_in: "chunk_class sz \<in> set http2dataChunkSizeClasses"
  by (auto simp: chunk_class_def http2dataChunkSizeClasses_def split: option.split)

lemma length_new_chunk [simp]: "length (http2getDataBufferChunk stale sz) = chunk_class sz"
  by (simp add: http2getDataBufferChunk_def Let_def)

lemma class_pos: "c \<in> set http2dataChunkSizeClasses \<Longrightarrow> 0 < c"
  by (auto simp: http2dataChunkSizeClasses_def)

lemma lastChunkOrAlloc_room:
  "chunks (lastChunkOrAlloc stale want b) \<noteq> []"
  "db_w (lastChunkOrAlloc stale want b) < length (last (chunks (lastChunkOrAlloc stale want b)))"
  using class_pos [OF chunk_class_in] by (auto simp: lastChunkOrAlloc_def)

function write_octets :: "(nat \<Rightarrow> octets) \<Rightarrow> octets \<Rightarrow> http2dataBuffer \<Rightarrow> http2dataBuffer" where
  \<comment> \<open>the loop of \<open>Write\<close>\<close>
  "write_octets stale p b =
     (if p = [] then b
      else
        let want = max (int (length p)) (db_expected b);
            (n, b) = copy_last p (lastChunkOrAlloc stale want b) in
        write_octets stale (drop n p) b)"
  by auto
termination
proof (relation "measure (\<lambda>(stale, p, b). length p)", goal_cases)
  case (2 stale p b want x n b')
  then have "0 < n" using lastChunkOrAlloc_room(2) [of stale want b] by (auto simp: copy_last_def Let_def)
  with 2 show ?case by simp
qed simp

declare write_octets.simps [simp del]

definition dataBuffer_Write :: "(nat \<Rightarrow> octets) \<Rightarrow> octets \<Rightarrow> http2dataBuffer \<Rightarrow> (buffer_error + nat) \<times> http2dataBuffer" where
  "dataBuffer_Write stale p b = (Inr (length p), write_octets stale p b)"

section \<open>What the buffer holds\<close>

definition content :: "http2dataBuffer \<Rightarrow> octets" where
  "content b = (if chunks b = [] then [] else drop (db_r b) (concat (butlast (chunks b)) @ take (db_w b) (last (chunks b))))"

definition db_ok :: "http2dataBuffer \<Rightarrow> bool" where
  "db_ok b \<longleftrightarrow> (\<forall>c \<in> set (chunks b). length c \<in> set http2dataChunkSizeClasses) \<and> db_size b = length (content b) \<and>
     (if chunks b = [] then db_r b = 0
      else db_r b < length (hd (chunks b)) \<and> db_w b \<le> length (last (chunks b)) \<and> (length (chunks b) = 1 \<longrightarrow> db_r b \<le> db_w b))"

definition empty_buffer :: http2dataBuffer where
  "empty_buffer = \<lparr>chunks = [], db_r = 0, db_w = 0, db_size = 0, db_expected = 0\<rparr>"

lemma db_ok_empty: "db_ok empty_buffer" "content empty_buffer = []"
  by (simp_all add: db_ok_def empty_buffer_def content_def)

lemma first_chunk:
  assumes "db_ok b" "chunks b = c # cs"
  shows "content b = bytesFromFirstChunk b @ (if cs = [] then [] else concat (butlast cs) @ take (db_w b) (last cs))"
    "cs \<noteq> [] \<Longrightarrow> bytesFromFirstChunk b = drop (db_r b) c" "cs = [] \<Longrightarrow> bytesFromFirstChunk b = drop (db_r b) (take (db_w b) c)"
  using assms by (auto simp: content_def bytesFromFirstChunk_def db_ok_def)

lemma read_step:
  assumes ok: "db_ok b" and ne: "db_size b \<noteq> 0" "cap \<noteq> 0"
  defines "n \<equiv> min cap (length (bytesFromFirstChunk b))"
  defines "b1 \<equiv> b\<lparr>db_r := db_r b + n, db_size := db_size b - n\<rparr>"
  defines "b2 \<equiv> b1\<lparr>chunks := tl (chunks b1), db_r := 0\<rparr>"
  shows "chunks b \<noteq> []" "0 < n" "take n (bytesFromFirstChunk b) = take n (content b)" "n = cap \<or> n < cap \<and> db_r b1 = length (chunks b1 ! 0) \<or> drop n (content b) = []"
    "if db_r b1 = length (chunks b1 ! 0) then http2putDataBufferChunk (chunks b1 ! 0) \<and> db_ok b2 \<and> content b2 = drop n (content b)
     else db_ok b1 \<and> content b1 = drop n (content b)"
proof -
  have c: "content b \<noteq> []" using ok ne by (auto simp: db_ok_def)
  then show "chunks b \<noteq> []" by (auto simp: content_def)
  then obtain c cs where cs: "chunks b = c # cs" by (cases "chunks b") auto
  note f = first_chunk [OF ok cs]
  have l: "length (bytesFromFirstChunk b) = (if cs = [] then db_w b - db_r b else length c - db_r b)"
    using f ok cs by (auto simp: db_ok_def)
  have r: "db_r b < length c" "cs = [] \<Longrightarrow> db_r b \<le> db_w b \<and> db_w b \<le> length c" using ok cs by (auto simp: db_ok_def)
  have "bytesFromFirstChunk b \<noteq> []" using c f r by (cases "cs = []") auto
  then show "0 < n" using ne by (simp add: n_def)
  show "take n (bytesFromFirstChunk b) = take n (content b)" using f(1) by (simp add: n_def)
  show "n = cap \<or> n < cap \<and> db_r b1 = length (chunks b1 ! 0) \<or> drop n (content b) = []"
    using f l r cs by (auto simp: n_def b1_def min_def)
  show "if db_r b1 = length (chunks b1 ! 0) then http2putDataBufferChunk (chunks b1 ! 0) \<and> db_ok b2 \<and> content b2 = drop n (content b)
     else db_ok b1 \<and> content b1 = drop n (content b)"
  proof (cases "db_r b1 = length (chunks b1 ! 0)")
    case True
    then have n: "n = length (bytesFromFirstChunk b)" using l r cs by (auto simp: b1_def n_def split: if_splits)
    then have "content b2 = drop n (content b)" using f(1) cs by (simp add: b2_def b1_def content_def)
    moreover have "db_ok b2"
      using ok cs calculation class_pos [of "length (hd cs)"]
      by (cases cs; cases "tl cs") (auto simp: db_ok_def b2_def b1_def)
    ultimately show ?thesis using True ok cs by (simp add: http2putDataBufferChunk_def db_ok_def b1_def)
  next
    case False
    have "content b1 = drop n (content b)" using cs by (simp add: b1_def content_def add.commute del: drop_append)
    moreover have "db_r b1 < length c" "cs = [] \<Longrightarrow> db_r b1 \<le> db_w b"
      using False l r cs by (auto simp: b1_def n_def split: if_splits)
    ultimately show ?thesis using False ok cs by (auto simp: db_ok_def b1_def)
  qed
qed

lemma read_loop_content:
  "db_ok b \<Longrightarrow> \<exists>b'. read_loop cap acc b = Some (acc @ take cap (content b), b') \<and> db_ok b' \<and> content b' = drop cap (content b)"
proof (induction cap acc b rule: read_loop.induct)
  case (1 cap acc b)
  show ?case
  proof (cases "cap = 0 \<or> db_size b = 0")
    case True
    then show ?thesis using "1.prems" by (auto simp: read_loop.simps [of cap acc b] db_ok_def)
  next
    case False
    define n where "n = min cap (length (bytesFromFirstChunk b))"
    define b1 where "b1 = b\<lparr>db_r := db_r b + n, db_size := db_size b - n\<rparr>"
    define b2 where "b2 = b1\<lparr>chunks := tl (chunks b1), db_r := 0\<rparr>"
    define acc1 where "acc1 = acc @ take n (content b)"
    note s = read_step [OF "1.prems", of cap, folded n_def, folded b1_def, folded b2_def]
    have s': "chunks b \<noteq> []" "0 < n" "take n (bytesFromFirstChunk b) = take n (content b)"
      "if db_r b1 = length (chunks b1 ! 0) then http2putDataBufferChunk (chunks b1 ! 0) \<and> db_ok b2 \<and> content b2 = drop n (content b)
       else db_ok b1 \<and> content b1 = drop n (content b)"
      using s False by auto
    have n: "n \<le> cap" by (simp add: n_def)
    have j: "acc1 @ take (cap - n) (drop n (content b)) = acc @ take cap (content b)" "drop (cap - n) (drop n (content b)) = drop cap (content b)"
      using n by (simp_all add: acc1_def) (metis le_add_diff_inverse take_add)
    show ?thesis
    proof (cases "db_r b1 = length (chunks b1 ! 0)")
      case True
      have e: "read_loop cap acc b = read_loop (cap - n) acc1 b2"
        using False s' True unfolding read_loop.simps [of cap acc b] acc1_def b2_def b1_def
        by (simp add: Let_def flip: n_def)
      show ?thesis
        using "1.IH"(1) [OF False s'(1) n_def _ b1_def True, of acc1] s' True j e unfolding acc1_def b2_def by auto
    next
      case f: False
      have e: "read_loop cap acc b = read_loop (cap - n) acc1 b1"
        using False s' f unfolding read_loop.simps [of cap acc b] acc1_def b1_def
        by (simp add: Let_def flip: n_def)
      show ?thesis
        using "1.IH"(2) [OF False s'(1) n_def _ b1_def f, of acc1] s' f j e unfolding acc1_def by auto
    qed
  qed
qed

lemma lastChunkOrAlloc_ok:
  assumes "db_ok b"
  shows "db_ok (lastChunkOrAlloc stale want b) \<and> content (lastChunkOrAlloc stale want b) = content b"
proof (cases "chunks b \<noteq> [] \<and> db_w b < length (last (chunks b))")
  case False
  let ?b = "lastChunkOrAlloc stale want b"
  have "chunks b \<noteq> [] \<Longrightarrow> db_w b = length (last (chunks b))" using False assms by (auto simp: db_ok_def)
  moreover have "chunks b \<noteq> [] \<Longrightarrow> concat (butlast (chunks b)) @ last (chunks b) = concat (chunks b)"
    by (metis append_butlast_last_id concat_append concat.simps append_Nil2)
  ultimately have c: "content ?b = content b"
    using False assms by (auto simp: lastChunkOrAlloc_def content_def db_ok_def)
  moreover have "length (http2getDataBufferChunk stale want) \<in> set http2dataChunkSizeClasses" using chunk_class_in by simp
  moreover have "0 < chunk_class want" using class_pos chunk_class_in by blast
  ultimately show ?thesis using False assms by (cases "chunks b") (auto simp: lastChunkOrAlloc_def db_ok_def)
qed (use assms in \<open>simp add: lastChunkOrAlloc_def\<close>)

lemma copy_last_ok:
  assumes "db_ok b" "chunks b \<noteq> []" "copy_last p b = (n, b')"
  shows "db_ok b' \<and> content b' = content b @ take n p"
proof -
  let ?c = "last (chunks b)"
  have n: "n = min (length ?c - db_w b) (length p)" using assms(3) by (simp add: copy_last_def Let_def)
  have b': "b' = b\<lparr>chunks := butlast (chunks b) @ [take (db_w b) ?c @ take n p @ drop (db_w b + n) ?c],
      db_w := db_w b + n, db_size := db_size b + n, db_expected := db_expected b - int n\<rparr>"
    using assms(3) n by (auto simp: copy_last_def Let_def)
  have w: "db_w b \<le> length ?c" "length (concat (butlast (chunks b))) + db_w b \<ge> db_r b"
  proof -
    show "db_w b \<le> length ?c" using assms(1,2) by (simp add: db_ok_def)
    show "length (concat (butlast (chunks b))) + db_w b \<ge> db_r b"
    proof (cases "length (chunks b) = 1")
      case True
      then show ?thesis using assms(1,2) by (auto simp: db_ok_def)
    next
      case False
      then obtain c d cs where "chunks b = c # d # cs" using assms(2) by (cases "chunks b"; cases "tl (chunks b)") auto
      then show ?thesis using assms(1) by (auto simp: db_ok_def)
    qed
  qed
  have l: "length (take (db_w b) ?c @ take n p @ drop (db_w b + n) ?c) = length ?c" using n w by simp
  have "content b' = content b @ take n p" using b' n w assms(2) by (auto simp: content_def)
  moreover have "hd (chunks b') = (if length (chunks b) = 1 then take (db_w b) ?c @ take n p @ drop (db_w b + n) ?c else hd (chunks b))"
    using b' assms(2) by (cases "chunks b") auto
  moreover have "length (hd (chunks b')) = length (hd (chunks b))" using calculation(2) l assms(2) by (cases "chunks b") auto
  moreover have "?c \<in> set (chunks b)" using assms(2) by simp
  moreover have "\<And>x. x \<in> set (butlast (chunks b)) \<Longrightarrow> x \<in> set (chunks b)" by (rule in_set_butlastD)
  ultimately show ?thesis using assms(1,2) b' l n w by (auto simp: db_ok_def)
qed

lemma write_octets_content: "db_ok b \<Longrightarrow> db_ok (write_octets stale p b) \<and> content (write_octets stale p b) = content b @ p"
proof (induction stale p b rule: write_octets.induct)
  case (1 stale p b)
  show ?case
  proof (cases "p = []")
    case True
    then show ?thesis using "1.prems" by (simp add: write_octets.simps)
  next
    case False
    define want where "want = max (int (length p)) (db_expected b)"
    obtain n b' where c: "copy_last p (lastChunkOrAlloc stale want b) = (n, b')" by fastforce
    have "db_ok b' \<and> content b' = content b @ take n p"
      using copy_last_ok [OF _ _ c] lastChunkOrAlloc_ok [OF "1.prems", of stale want] lastChunkOrAlloc_room(1) by auto
    moreover have "write_octets stale p b = write_octets stale (drop n p) b'"
      using False c by (subst write_octets.simps) (simp add: want_def [symmetric])
    ultimately show ?thesis using "1.IH" [OF False want_def c [symmetric] refl] by simp
  qed
qed

section \<open>Buffers of a pipe\<close>

text \<open>
  The interface \<open>http2pipeBuffer\<close>: what a pipe relies on. The invariant and the octets held are those of the provider.
\<close>

locale pipe_buffer =
  fixes blen :: "'b \<Rightarrow> nat"
    and bread :: "nat \<Rightarrow> 'b \<Rightarrow> ((buffer_error + octets) \<times> 'b) option"
    and bwrite :: "octets \<Rightarrow> 'b \<Rightarrow> (buffer_error + nat) \<times> 'b"
    and held :: "'b \<Rightarrow> octets"
    and inv :: "'b \<Rightarrow> bool"
  assumes blen_held: "inv b \<Longrightarrow> blen b = length (held b)"
    and bread_held: "inv b \<Longrightarrow> held b \<noteq> [] \<Longrightarrow> \<exists>b'. bread n b = Some (Inr (take n (held b)), b') \<and> inv b' \<and> held b' = drop n (held b)"
    and bwrite_held: "inv b \<Longrightarrow> \<exists>b'. bwrite p b = (Inr (length p), b') \<and> inv b' \<and> held b' = held b @ p"
begin

lemma read_nonempty: "inv b \<Longrightarrow> 0 < blen b \<Longrightarrow> \<exists>b'. bread n b = Some (Inr (take n (held b)), b') \<and> inv b' \<and> held b' = drop n (held b)"
  using blen_held bread_held by auto

end

interpretation db: pipe_buffer dataBuffer_Len dataBuffer_Read "dataBuffer_Write stale" content db_ok for stale
proof
  fix b n p
  assume ok: "db_ok b"
  show "dataBuffer_Len b = length (content b)" using ok by (simp add: dataBuffer_Len_def db_ok_def)
  show "\<exists>b'. dataBuffer_Write stale p b = (Inr (length p), b') \<and> db_ok b' \<and> content b' = content b @ p"
    using write_octets_content [OF ok, of stale p] by (simp add: dataBuffer_Write_def)
  assume "content b \<noteq> []"
  then show "\<exists>b'. dataBuffer_Read n b = Some (Inr (take n (content b)), b') \<and> db_ok b' \<and> content b' = drop n (content b)"
    using read_loop_content [OF ok, of n "[]"] ok by (auto simp: dataBuffer_Read_def db_ok_def)
qed

section \<open>Pipes\<close>

record 'b http2pipe =
  p_b :: "'b option"
  p_err :: "buffer_error option"
  p_breakErr :: "buffer_error option"
  p_donec :: "bool option"                  \<comment> \<open>\<open>nil\<close>, or whether the channel is closed\<close>
  p_readFn :: "nat option"                  \<comment> \<open>the code to run, by a number\<close>
  p_ran :: "nat list"                       \<comment> \<open>the code that \<open>Read\<close> has run\<close>

datatype pipe_result = Waits | Got "buffer_error + octets" | PipePanic

definition pipe_Len :: "('b \<Rightarrow> nat) \<Rightarrow> 'b http2pipe \<Rightarrow> nat" where
  "pipe_Len blen p = (case p_b p of None \<Rightarrow> 0 | Some b \<Rightarrow> blen b)"

definition pipe_Read ::
  "('b \<Rightarrow> nat) \<Rightarrow> (nat \<Rightarrow> 'b \<Rightarrow> ((buffer_error + octets) \<times> 'b) option) \<Rightarrow> nat \<Rightarrow> 'b http2pipe \<Rightarrow> pipe_result \<times> 'b http2pipe" where
  \<comment> \<open>one round of the loop\<close>
  "pipe_Read blen bread n p =
     (case p_breakErr p of
        Some e \<Rightarrow> (Got (Inl e), p)
      | None \<Rightarrow>
          (case (case p_b p of Some b \<Rightarrow> if 0 < blen b then Some b else None | None \<Rightarrow> None) of
             Some b \<Rightarrow>
               (case bread n b of
                  None \<Rightarrow> (PipePanic, p)
                | Some (r, b) \<Rightarrow> (Got r, p\<lparr>p_b := Some b\<rparr>))
           | None \<Rightarrow>
               (case p_err p of
                  Some e \<Rightarrow>
                    (Got (Inl e), p\<lparr>p_ran := p_ran p @ (case p_readFn p of None \<Rightarrow> [] | Some f \<Rightarrow> [f]), p_readFn := None, p_b := None\<rparr>)
                | None \<Rightarrow> (Waits, p))))"

definition pipe_Write ::
  "(octets \<Rightarrow> 'b \<Rightarrow> (buffer_error + nat) \<times> 'b) \<Rightarrow> octets \<Rightarrow> 'b http2pipe \<Rightarrow> ((buffer_error + nat) \<times> 'b http2pipe) option" where
  \<comment> \<open>\<open>None\<close> is a panic\<close>
  "pipe_Write bwrite d p =
     (if p_err p \<noteq> None then Some (Inl http2errClosedPipeWrite, p)
      else if p_breakErr p \<noteq> None then Some (Inr (length d), p)
      else
        (case p_b p of
           None \<Rightarrow> None
         | Some b \<Rightarrow> (case bwrite d b of (r, b) \<Rightarrow> Some (r, p\<lparr>p_b := Some b\<rparr>))))"

definition closeDoneLocked :: "'b http2pipe \<Rightarrow> 'b http2pipe" where
  "closeDoneLocked p = (case p_donec p of None \<Rightarrow> p | Some _ \<Rightarrow> p\<lparr>p_donec := Some True\<rparr>)"

definition pipe_CloseWithError :: "buffer_error \<Rightarrow> nat option \<Rightarrow> 'b http2pipe \<Rightarrow> 'b http2pipe" where
  \<comment> \<open>\<open>closeWithError\<close> on \<open>p.err\<close>\<close>
  "pipe_CloseWithError e fn p = (if p_err p \<noteq> None then p else closeDoneLocked (p\<lparr>p_readFn := fn, p_err := Some e\<rparr>))"

definition pipe_BreakWithError :: "buffer_error \<Rightarrow> 'b http2pipe \<Rightarrow> 'b http2pipe" where
  \<comment> \<open>\<open>closeWithError\<close> on \<open>p.breakErr\<close>\<close>
  "pipe_BreakWithError e p =
     (if p_breakErr p \<noteq> None then p else closeDoneLocked (p\<lparr>p_readFn := None, p_b := None, p_breakErr := Some e\<rparr>))"

definition pipe_Err :: "'b http2pipe \<Rightarrow> buffer_error option" where
  "pipe_Err p = (if p_breakErr p \<noteq> None then p_breakErr p else p_err p)"

definition pipe_Done :: "'b http2pipe \<Rightarrow> 'b http2pipe" where
  \<comment> \<open>the channel returned is the one the pipe then has\<close>
  "pipe_Done p =
     (if p_donec p = None then
        let p = p\<lparr>p_donec := Some False\<rparr> in
        if p_err p \<noteq> None \<or> p_breakErr p \<noteq> None then closeDoneLocked p else p
      else p)"

definition new_pipe :: "'b \<Rightarrow> 'b http2pipe" where
  "new_pipe b = \<lparr>p_b = Some b, p_err = None, p_breakErr = None, p_donec = None, p_readFn = None, p_ran = []\<rparr>"

datatype pipe_op = PWrite octets | PRead nat | PClose buffer_error "nat option" | PBreak buffer_error | PDone

record 'b pipe_run =
  the_pipe :: "'b http2pipe"
  accepted :: octets       \<comment> \<open>what was written to the buffer\<close>
  delivered :: octets      \<comment> \<open>what was read\<close>

primrec pipe_step ::
  "('b \<Rightarrow> nat) \<Rightarrow> (nat \<Rightarrow> 'b \<Rightarrow> ((buffer_error + octets) \<times> 'b) option) \<Rightarrow> (octets \<Rightarrow> 'b \<Rightarrow> (buffer_error + nat) \<times> 'b) \<Rightarrow>
   pipe_op \<Rightarrow> 'b pipe_run \<Rightarrow> 'b pipe_run option" where
  "pipe_step blen bread bwrite (PWrite d) s =
     map_option (\<lambda>(r, p). s\<lparr>the_pipe := p, accepted := accepted s @ (if p_breakErr p = None \<and> isl r = False then d else [])\<rparr>)
       (pipe_Write bwrite d (the_pipe s))"
| "pipe_step blen bread bwrite (PRead n) s =
     (case pipe_Read blen bread n (the_pipe s) of
        (PipePanic, p) \<Rightarrow> None
      | (Got (Inr d), p) \<Rightarrow> Some (s\<lparr>the_pipe := p, delivered := delivered s @ d\<rparr>)
      | (r, p) \<Rightarrow> Some (s\<lparr>the_pipe := p\<rparr>))"
| "pipe_step blen bread bwrite (PClose e fn) s = Some (s\<lparr>the_pipe := pipe_CloseWithError e fn (the_pipe s)\<rparr>)"
| "pipe_step blen bread bwrite (PBreak e) s = Some (s\<lparr>the_pipe := pipe_BreakWithError e (the_pipe s)\<rparr>)"
| "pipe_step blen bread bwrite PDone s = Some (s\<lparr>the_pipe := pipe_Done (the_pipe s)\<rparr>)"

primrec pipe_steps ::
  "('b \<Rightarrow> nat) \<Rightarrow> (nat \<Rightarrow> 'b \<Rightarrow> ((buffer_error + octets) \<times> 'b) option) \<Rightarrow> (octets \<Rightarrow> 'b \<Rightarrow> (buffer_error + nat) \<times> 'b) \<Rightarrow>
   pipe_op list \<Rightarrow> 'b pipe_run \<Rightarrow> 'b pipe_run option" where
  "pipe_steps blen bread bwrite [] s = Some s"
| "pipe_steps blen bread bwrite (x # xs) s = Option.bind (pipe_step blen bread bwrite x s) (pipe_steps blen bread bwrite xs)"

lemma closeDoneLocked_sel [simp]:
  "p_b (closeDoneLocked p) = p_b p" "p_err (closeDoneLocked p) = p_err p" "p_breakErr (closeDoneLocked p) = p_breakErr p"
  by (simp_all add: closeDoneLocked_def split: option.split)

context pipe_buffer
begin

definition pipe_ok :: "'b pipe_run \<Rightarrow> bool" where
  "pipe_ok s \<longleftrightarrow>
     (if p_breakErr (the_pipe s) \<noteq> None then prefix (delivered s) (accepted s)
      else case p_b (the_pipe s) of
        Some b \<Rightarrow> inv b \<and> accepted s = delivered s @ held b
      | None \<Rightarrow> p_err (the_pipe s) \<noteq> None \<and> accepted s = delivered s)"

lemma pipe_ok_new: "inv b \<Longrightarrow> held b = [] \<Longrightarrow> pipe_ok \<lparr>the_pipe = new_pipe b, accepted = [], delivered = []\<rparr>"
  by (simp add: pipe_ok_def new_pipe_def)

lemma next_read:
  assumes "pipe_ok s"
  shows "fst (pipe_Read blen bread n (the_pipe s)) =
    (case p_breakErr (the_pipe s) of
       Some e \<Rightarrow> Got (Inl e)
     | None \<Rightarrow>
         if delivered s \<noteq> accepted s then Got (Inr (take n (drop (length (delivered s)) (accepted s))))
         else case p_err (the_pipe s) of Some e \<Rightarrow> Got (Inl e) | None \<Rightarrow> Waits)"
proof (cases "p_breakErr (the_pipe s)")
  case None
  show ?thesis
  proof (cases "p_b (the_pipe s)")
    case (Some b)
    then have b: "inv b" "accepted s = delivered s @ held b" using assms None by (simp_all add: pipe_ok_def)
    show ?thesis
    proof (cases "held b = []")
      case True
      then show ?thesis using None Some b blen_held [OF b(1)] by (auto simp: pipe_Read_def split: option.split)
    next
      case False
      then obtain b' where "bread n b = Some (Inr (take n (held b)), b')" using bread_held [OF b(1)] by blast
      then show ?thesis using None Some b False blen_held [OF b(1)] by (simp add: pipe_Read_def)
    qed
  qed (use assms None in \<open>auto simp: pipe_Read_def pipe_ok_def split: option.split\<close>)
qed (simp add: pipe_Read_def)

lemma step_read_ok:
  assumes "pipe_ok s"
  shows "\<exists>s'. pipe_step blen bread bwrite (PRead n) s = Some s' \<and> pipe_ok s'"
proof (cases "p_breakErr (the_pipe s) = None \<and> delivered s \<noteq> accepted s")
  case True
  then obtain b where b: "p_b (the_pipe s) = Some b" "inv b" "accepted s = delivered s @ held b" "held b \<noteq> []"
    using assms by (auto simp: pipe_ok_def split: option.splits)
  then obtain b' where "bread n b = Some (Inr (take n (held b)), b')" "inv b'" "held b' = drop n (held b)" using bread_held by blast
  then show ?thesis using True b blen_held [OF b(2)] by (simp add: pipe_Read_def pipe_ok_def)
next
  case False
  have keep: "p_breakErr (snd (pipe_Read blen bread n (the_pipe s))) = p_breakErr (the_pipe s)"
    "p_err (snd (pipe_Read blen bread n (the_pipe s))) = p_err (the_pipe s)"
    by (auto simp: pipe_Read_def split: option.split)
  have "p_b (snd (pipe_Read blen bread n (the_pipe s))) = p_b (the_pipe s) \<or>
      p_b (snd (pipe_Read blen bread n (the_pipe s))) = None \<and> p_err (the_pipe s) \<noteq> None" if "p_breakErr (the_pipe s) = None"
  proof (cases "p_b (the_pipe s)")
    case (Some b)
    then have "blen b = 0" using assms False that blen_held [of b] by (auto simp: pipe_ok_def)
    with Some that show ?thesis by (auto simp: pipe_Read_def split: option.split)
  qed (use that in \<open>auto simp: pipe_Read_def split: option.split\<close>)
  with keep False assms have "pipe_ok (s\<lparr>the_pipe := snd (pipe_Read blen bread n (the_pipe s))\<rparr>)"
    by (auto simp: pipe_ok_def split: option.splits)
  moreover have "pipe_step blen bread bwrite (PRead n) s = Some (s\<lparr>the_pipe := snd (pipe_Read blen bread n (the_pipe s))\<rparr>)"
    using next_read [OF assms, of n] False
    by (cases "pipe_Read blen bread n (the_pipe s)") (auto split: option.splits)
  ultimately show ?thesis by blast
qed

lemma step_ok:
  assumes "pipe_ok s"
  shows "\<exists>s'. pipe_step blen bread bwrite x s = Some s' \<and> pipe_ok s'"
proof (cases x)
  case (PWrite d)
  show ?thesis
  proof (cases "p_err (the_pipe s) = None \<and> p_breakErr (the_pipe s) = None")
    case True
    then obtain b where b: "p_b (the_pipe s) = Some b" "inv b" "accepted s = delivered s @ held b"
      using assms by (auto simp: pipe_ok_def split: option.splits)
    obtain b' where "bwrite d b = (Inr (length d), b')" "inv b'" "held b' = held b @ d" using bwrite_held [OF b(2)] by blast
    then show ?thesis using PWrite True b by (simp add: pipe_Write_def pipe_ok_def)
  next
    case False
    then show ?thesis using PWrite assms by (auto simp: pipe_Write_def pipe_ok_def)
  qed
next
  case (PRead n)
  then show ?thesis using step_read_ok [OF assms] by simp
next
  case (PClose e fn)
  then show ?thesis using assms by (auto simp: pipe_ok_def pipe_CloseWithError_def split: option.splits)
next
  case (PBreak e)
  have "prefix (delivered s) (accepted s)" using assms by (auto simp: pipe_ok_def split: if_splits option.splits)
  then show ?thesis using PBreak assms by (auto simp: pipe_ok_def pipe_BreakWithError_def)
next
  case PDone
  then show ?thesis using assms by (auto simp: pipe_ok_def pipe_Done_def Let_def split: option.splits)
qed

lemma steps_ok: "pipe_ok s \<Longrightarrow> \<exists>s'. pipe_steps blen bread bwrite xs s = Some s' \<and> pipe_ok s'"
proof (induction xs arbitrary: s)
  case (Cons x xs)
  obtain s1 where "pipe_step blen bread bwrite x s = Some s1" "pipe_ok s1" using step_ok [OF Cons.prems] by blast
  with Cons.IH show ?case by simp
qed simp

end

text \<open>
  (C13) A pipe over a data buffer neither loses, repeats nor reorders octets and never panics. After any sequence of writes, reads,
  closings, breakings and requests for the channel, in any interleaving, the next read of \<open>n\<close> octets returns exactly the next \<open>n\<close> (or
  what is there) of the octets that were accepted, whatever the pool's chunks held; if all were read, it
  returns the error of the closing, or waits if there was none. A broken pipe returns its error at once.
\<close>
theorem pipe_delivers:
  "\<exists>s. pipe_steps dataBuffer_Len dataBuffer_Read (dataBuffer_Write stale) ops
       \<lparr>the_pipe = new_pipe empty_buffer, accepted = [], delivered = []\<rparr> = Some s \<and> prefix (delivered s) (accepted s) \<and>
     fst (pipe_Read dataBuffer_Len dataBuffer_Read n (the_pipe s)) =
       (case p_breakErr (the_pipe s) of
          Some e \<Rightarrow> Got (Inl e)
        | None \<Rightarrow>
            if delivered s \<noteq> accepted s then Got (Inr (take n (drop (length (delivered s)) (accepted s))))
            else case p_err (the_pipe s) of Some e \<Rightarrow> Got (Inl e) | None \<Rightarrow> Waits)"
proof -
  obtain s where s: "pipe_steps dataBuffer_Len dataBuffer_Read (dataBuffer_Write stale) ops
      \<lparr>the_pipe = new_pipe empty_buffer, accepted = [], delivered = []\<rparr> = Some s" "db.pipe_ok s"
    using db.steps_ok [OF db.pipe_ok_new [OF db_ok_empty], where xs = ops and stale = stale] by blast
  moreover have "prefix (delivered s) (accepted s)" using s(2) by (auto simp: db.pipe_ok_def split: if_splits option.splits)
  ultimately show ?thesis using db.next_read by blast
qed

end
