(* ===== verification/H2Sched.thy ===== *)
theory H2Sched
  imports H2Headers
begin

text \<open>
  Flow control and the choice of the next frame to write: \<open>http2flow\<close>, \<open>http2FrameWriteRequest.Consume\<close>, \<open>http2writeQueue\<close> and
  \<open>http2randomWriteScheduler\<close> of \<open>pkg/http/h2_bundle.go\<close>.

  The flows of a connection are one record, its own window and that of each stream, because the flow of a stream points to the
  connection's. Windows are signed 32-bit numbers. A stream is referred to by its number. The writers are those of the server without
  push promises. The order in which a loop meets the entries of a map is an argument.
\<close>

section \<open>Flow control windows\<close>

record flows =
  conn_n :: "32 word"
  stream_n :: "32 word \<Rightarrow> 32 word"

definition available :: "flows \<Rightarrow> 32 word \<Rightarrow> 32 word" where
  \<comment> \<open>of the flow of a stream\<close>
  "available f sid = (let n = stream_n f sid in if sint (conn_n f) < sint n then conn_n f else n)"

definition flow_take :: "flows \<Rightarrow> 32 word \<Rightarrow> 32 word \<Rightarrow> flows option" where
  \<comment> \<open>\<open>take\<close> on the flow of a stream; \<open>None\<close> is the panic\<close>
  "flow_take f sid n =
     (if sint (available f sid) < sint n then None
      else Some (f\<lparr>stream_n := (stream_n f)(sid := stream_n f sid - n), conn_n := conn_n f - n\<rparr>))"

definition conn_take :: "flows \<Rightarrow> 32 word \<Rightarrow> flows option" where
  \<comment> \<open>\<open>take\<close> on the flow of the connection\<close>
  "conn_take f n = (if sint (conn_n f) < sint n then None else Some (f\<lparr>conn_n := conn_n f - n\<rparr>))"

definition window_add :: "32 word \<Rightarrow> 32 word \<Rightarrow> bool \<times> 32 word" where
  \<comment> \<open>\<open>add\<close>, which touches only the flow it is called on\<close>
  "window_add w n =
     (let sum = w + n in
      if (sint n < sint sum) = (0 < sint w) then (True, sum) else (False, w))"

definition flow_add :: "flows \<Rightarrow> 32 word \<Rightarrow> 32 word \<Rightarrow> bool \<times> flows" where
  "flow_add f sid n = apsnd (\<lambda>w. f\<lparr>stream_n := (stream_n f)(sid := w)\<rparr>) (window_add (stream_n f sid) n)"

definition conn_add :: "flows \<Rightarrow> 32 word \<Rightarrow> bool \<times> flows" where
  "conn_add f n = apsnd (\<lambda>w. f\<lparr>conn_n := w\<rparr>) (window_add (conn_n f) n)"

lemma sint32_bounds: "- 2147483648 \<le> sint w \<and> sint w < 2147483648" for w :: "32 word"
  using sint_greater_eq [of w] sint_less [of w] by simp

lemma sint32_of_int: "- 2147483648 \<le> x \<Longrightarrow> x < 2147483648 \<Longrightarrow> sint (word_of_int x :: 32 word) = x"
  by (simp add: int_word_sint)

lemma sint32_plus: "sint (a + b) = (sint a + sint b + 2147483648) mod 4294967296 - 2147483648" for a b :: "32 word"
proof -
  have "sint (a + b) = sint (word_of_int (sint a + sint b) :: 32 word)" by simp
  also have "\<dots> = (sint a + sint b + 2147483648) mod 4294967296 - 2147483648" by (simp only: int_word_sint) simp
  finally show ?thesis .
qed

lemma sint32_minus: "sint (a - b) = (sint a - sint b + 2147483648) mod 4294967296 - 2147483648" for a b :: "32 word"
proof -
  have "sint (a - b) = sint (word_of_int (sint a - sint b) :: 32 word)" by simp
  also have "\<dots> = (sint a - sint b + 2147483648) mod 4294967296 - 2147483648" by (simp only: int_word_sint) simp
  finally show ?thesis .
qed

lemma window_add_exact:
  "fst (window_add w n) \<longleftrightarrow> - 2147483648 \<le> sint w + sint n \<and> sint w + sint n < 2147483648"
  "sint (snd (window_add w n)) = (if fst (window_add w n) then sint w + sint n else sint w)"
proof -
  note b = sint32_bounds [of w] sint32_bounds [of n]
  define x y where "x = sint w" and "y = sint n"
  have s: "sint (w + n) = (x + y + 2147483648) mod 4294967296 - 2147483648" by (simp add: sint32_plus x_def y_def)
  have xy: "- 2147483648 \<le> x" "x < 2147483648" "- 2147483648 \<le> y" "y < 2147483648" using b by (simp_all add: x_def y_def)
  have m: "(x + y + 2147483648) mod 4294967296 =
      (if x + y + 2147483648 < 0 then x + y + 2147483648 + 4294967296 else if 4294967296 \<le> x + y + 2147483648 then x + y + 2147483648 - 4294967296
       else x + y + 2147483648)"
    using xy by (simp add: mod_pos_pos_trivial) (smt (verit) mod_add_self2 mod_pos_pos_trivial minus_mod_self2)
  show 1: "fst (window_add w n) \<longleftrightarrow> - 2147483648 \<le> sint w + sint n \<and> sint w + sint n < 2147483648"
    unfolding window_add_def Let_def x_def [symmetric] y_def [symmetric] s m using xy by (auto split: if_splits)
  show "sint (snd (window_add w n)) = (if fst (window_add w n) then sint w + sint n else sint w)"
  proof (cases "fst (window_add w n)")
    case True
    then have "snd (window_add w n) = w + n" by (auto simp: window_add_def Let_def split: if_splits)
    then show ?thesis using True 1 s m by (auto simp: x_def y_def)
  next
    case False
    then have "snd (window_add w n) = w" by (auto simp: window_add_def Let_def split: if_splits)
    then show ?thesis using False by simp
  qed
qed

lemma sint32_minus_exact: "0 \<le> sint n \<Longrightarrow> sint n \<le> sint a \<Longrightarrow> sint (a - n) = sint a - sint n" for a n :: "32 word"
  using sint32_bounds [of a] sint32_bounds [of n] by (simp add: sint32_minus mod_pos_pos_trivial)

section \<open>Requests to write a frame\<close>

datatype write_framer =
    writeData "32 word" octets bool      \<comment> \<open>stream, octets, \<open>endStream\<close>\<close>
  | writeStreamError "32 word" "32 word" \<comment> \<open>\<open>http2StreamError\<close> as a writer\<close>
  | handlerPanicRST "32 word"
  | writeResHeaders http2writeResHeaders
  | write100ContinueHeadersFrame "32 word"
  | writeWindowUpdate "32 word" "32 word" \<comment> \<open>stream, or 0, and increment\<close>
  | writeSettings "http2Setting list"
  | writeSettingsAck
  | writePingAck octets
  | writeGoAway "32 word" "32 word"      \<comment> \<open>last stream and code\<close>
  | flushFrameWriter

record http2FrameWriteRequest =
  wr_write :: write_framer
  wr_stream :: "32 word option"
  wr_done :: "nat option"

definition wr_StreamID :: "http2FrameWriteRequest \<Rightarrow> 32 word" where
  "wr_StreamID wr =
     (case wr_stream wr of
        None \<Rightarrow> (case wr_write wr of writeStreamError sid _ \<Rightarrow> sid | _ \<Rightarrow> 0)
      | Some sid \<Rightarrow> sid)"

definition wr_DataSize :: "http2FrameWriteRequest \<Rightarrow> nat" where
  "wr_DataSize wr = (case wr_write wr of writeData _ p _ \<Rightarrow> length p | _ \<Rightarrow> 0)"

definition smin :: "32 word \<Rightarrow> 32 word \<Rightarrow> 32 word" where
  \<comment> \<open>\<open>if x < y { y = x }\<close>\<close>
  "smin x y = (if sint x < sint y then x else y)"

definition Consume :: "32 word \<Rightarrow> 32 word \<Rightarrow> http2FrameWriteRequest \<Rightarrow> flows \<Rightarrow> (http2FrameWriteRequest list \<times> flows) option" where
  \<comment> \<open>the frames returned, none, the request or two; the first argument is \<open>maxFrameSize\<close> of the connection; \<open>None\<close> is a panic\<close>
  "Consume mfs n wr f =
     (case wr_write wr of
        writeData sid p endStream \<Rightarrow>
          if p = [] then Some ([wr], f)
          else
            (case wr_stream wr of
               None \<Rightarrow> None
             | Some st \<Rightarrow>
                 let allowed = smin mfs (smin n (available f st)) in
                 if sint allowed \<le> 0 then Some ([], f)
                 else if int (length p) > sint allowed then
                   map_option (\<lambda>f.
                     ([\<lparr>wr_write = writeData sid (take (nat (sint allowed)) p) False, wr_stream = wr_stream wr, wr_done = None\<rparr>,
                       wr\<lparr>wr_write := writeData sid (drop (nat (sint allowed)) p) endStream\<rparr>], f))
                     (flow_take f st allowed)
                 else map_option (\<lambda>f. ([wr], f)) (flow_take f st (word_of_nat (length p))))
      | _ \<Rightarrow> Some ([wr], f))"

definition queue_consume :: "32 word \<Rightarrow> 32 word \<Rightarrow> http2FrameWriteRequest list \<Rightarrow> flows \<Rightarrow>
    (http2FrameWriteRequest option \<times> http2FrameWriteRequest list \<times> flows) option" where
  "queue_consume mfs n q f =
     (case q of
        [] \<Rightarrow> Some (None, q, f)
      | wr # q' \<Rightarrow>
          map_option (\<lambda>(rs, f).
            (case rs of
               [] \<Rightarrow> (None, q, f)
             | [consumed] \<Rightarrow> (Some consumed, q', f)
             | consumed # rest # _ \<Rightarrow> (Some consumed, rest # q', f)))
            (Consume mfs n wr f))"

section \<open>The scheduler\<close>

record http2randomWriteScheduler =
  ws_zero :: "http2FrameWriteRequest list"
  ws_sq :: "32 word \<rightharpoonup> http2FrameWriteRequest list"

definition ws_Push :: "http2FrameWriteRequest \<Rightarrow> http2randomWriteScheduler \<Rightarrow> http2randomWriteScheduler" where
  "ws_Push wr ws =
     (let sid = wr_StreamID wr in
      if sid = 0 then ws\<lparr>ws_zero := ws_zero ws @ [wr]\<rparr>
      else
        let q = (case ws_sq ws sid of Some q \<Rightarrow> q | None \<Rightarrow> []) in
        ws\<lparr>ws_sq := (ws_sq ws)(sid \<mapsto> q @ [wr])\<rparr>)"

definition ws_CloseStream :: "32 word \<Rightarrow> http2randomWriteScheduler \<Rightarrow> http2randomWriteScheduler" where
  "ws_CloseStream sid ws = ws\<lparr>ws_sq := (ws_sq ws)(sid := None)\<rparr>"

definition MaxInt32 :: "32 word" where "MaxInt32 = 0x7fffffff"

fun pop_streams :: "32 word \<Rightarrow> 32 word list \<Rightarrow> http2randomWriteScheduler \<Rightarrow> flows \<Rightarrow>
    (http2FrameWriteRequest option \<times> http2randomWriteScheduler \<times> flows) option" where
  \<comment> \<open>the loop over the streams\<close>
  "pop_streams mfs [] ws f = Some (None, ws, f)"
| "pop_streams mfs (sid # sids) ws f =
     (case ws_sq ws sid of
        None \<Rightarrow> pop_streams mfs sids ws f
      | Some q \<Rightarrow>
          (case queue_consume mfs MaxInt32 q f of
             None \<Rightarrow> None
           | Some (Some wr, q, f) \<Rightarrow> Some (Some wr, ws\<lparr>ws_sq := (ws_sq ws)(sid \<mapsto> q)\<rparr>, f)
           | Some (None, q, f) \<Rightarrow> pop_streams mfs sids (ws\<lparr>ws_sq := (ws_sq ws)(sid \<mapsto> q)\<rparr>) f))"

definition ws_Pop :: "32 word \<Rightarrow> 32 word list \<Rightarrow> http2randomWriteScheduler \<Rightarrow> flows \<Rightarrow>
    (http2FrameWriteRequest option \<times> http2randomWriteScheduler \<times> flows) option" where
  "ws_Pop mfs order ws f =
     (case ws_zero ws of
        wr # q \<Rightarrow> Some (Some wr, ws\<lparr>ws_zero := q\<rparr>, f)
      | [] \<Rightarrow> pop_streams mfs order ws f)"

section \<open>What a request asks for\<close>

datatype atom =
    Octet "8 word"
  | Finish bool "nat option"           \<comment> \<open>the end of a data request that ends the stream or that somebody waits for\<close>
  | Frame write_framer "nat option"    \<comment> \<open>a frame that is not data\<close>

definition atoms :: "http2FrameWriteRequest \<Rightarrow> atom list" where
  "atoms wr =
     (case wr_write wr of
        writeData _ p e \<Rightarrow> map Octet p @ (if e \<or> wr_done wr \<noteq> None then [Finish e (wr_done wr)] else [])
      | w \<Rightarrow> [Frame w (wr_done wr)])"

definition atoms_of :: "32 word \<Rightarrow> http2FrameWriteRequest list \<Rightarrow> atom list" where
  "atoms_of sid rs = concat (map atoms (filter (\<lambda>wr. wr_StreamID wr = sid) rs))"

lemma atoms_of_append [simp]: "atoms_of sid (xs @ ys) = atoms_of sid xs @ atoms_of sid ys"
  by (simp add: atoms_of_def)

lemma atoms_of_simps [simp]: "atoms_of sid [] = []" "atoms_of sid (x # xs) = (if wr_StreamID x = sid then atoms x else []) @ atoms_of sid xs"
  by (simp_all add: atoms_of_def)

definition data_len :: "http2FrameWriteRequest \<Rightarrow> int" where
  "data_len wr = int (wr_DataSize wr)"

definition streamed :: "http2FrameWriteRequest \<Rightarrow> bool" where
  \<comment> \<open>a request with data has a stream\<close>
  "streamed wr \<longleftrightarrow> (\<forall>sid p e. wr_write wr = writeData sid p e \<longrightarrow> wr_stream wr \<noteq> None)"

lemma smin_le: "sint (smin x y) \<le> sint x" "sint (smin x y) \<le> sint y"
  by (simp_all add: smin_def)

lemma flow_take_exact:
  assumes "0 \<le> sint n" "sint n \<le> sint (available f sid)"
  shows "\<exists>f'. flow_take f sid n = Some f' \<and> sint (conn_n f') = sint (conn_n f) - sint n \<and>
    sint (stream_n f' sid) = sint (stream_n f sid) - sint n \<and> (\<forall>s. s \<noteq> sid \<longrightarrow> stream_n f' s = stream_n f s)"
proof -
  have "sint n \<le> sint (conn_n f)" "sint n \<le> sint (stream_n f sid)"
    using assms(2) by (auto simp: available_def Let_def split: if_splits)
  then show ?thesis using assms by (auto simp: flow_take_def sint32_minus_exact)
qed

lemma Consume_exact:
  assumes "streamed wr"
  shows "\<exists>rs f'. Consume mfs n wr f = Some (rs, f') \<and>
    (rs = [] \<and> f' = f \<and> wr_DataSize wr \<noteq> 0 \<and> sint (smin mfs (smin n (available f (wr_StreamID wr)))) \<le> 0 \<or>
     (\<exists>c rest. rs = c # rest \<and> (rest = [] \<or> (\<exists>r. rest = [r] \<and> streamed r)) \<and> concat (map atoms rs) = atoms wr \<and>
        (\<forall>r \<in> set rs. wr_StreamID r = wr_StreamID wr) \<and>
        (data_len c \<noteq> 0 \<longrightarrow> data_len c \<le> sint mfs \<and> data_len c \<le> sint n \<and> data_len c \<le> sint (available f (wr_StreamID wr))) \<and>
        sint (conn_n f') = sint (conn_n f) - data_len c \<and>
        sint (stream_n f' (wr_StreamID wr)) = sint (stream_n f (wr_StreamID wr)) - data_len c \<and>
        (\<forall>s. s \<noteq> wr_StreamID wr \<longrightarrow> stream_n f' s = stream_n f s)))"
proof (cases "wr_DataSize wr = 0")
  case True
  then have "Consume mfs n wr f = Some ([wr], f)" by (auto simp: Consume_def wr_DataSize_def split: write_framer.splits)
  then show ?thesis using True by (simp add: data_len_def)
next
  case False
  then obtain sid p e where w: "wr_write wr = writeData sid p e" "p \<noteq> []" "wr_DataSize wr = length p"
    by (auto simp: wr_DataSize_def split: write_framer.splits)
  then obtain st where st: "wr_stream wr = Some st" "wr_StreamID wr = st" using assms by (auto simp: streamed_def wr_StreamID_def)
  define a where "a = smin mfs (smin n (available f st))"
  have al: "sint a \<le> sint mfs" "sint a \<le> sint n" "sint a \<le> sint (available f st)"
    using smin_le [of mfs] smin_le [of n] order_trans unfolding a_def by blast+
  have ab: "sint a < 2147483648" using sint32_bounds by blast
  consider "sint a \<le> 0" | "0 < sint a" "sint a < int (length p)" | "0 < sint a" "int (length p) \<le> sint a" by linarith
  then show ?thesis
  proof cases
    case 1
    then have "Consume mfs n wr f = Some ([], f)" using w st by (simp add: Consume_def a_def [symmetric])
    then show ?thesis using 1 False st by (simp add: a_def)
  next
    case 2
    let ?c = "\<lparr>wr_write = writeData sid (take (nat (sint a)) p) False, wr_stream = wr_stream wr, wr_done = None\<rparr>"
    let ?r = "wr\<lparr>wr_write := writeData sid (drop (nat (sint a)) p) e\<rparr>"
    obtain f' where f': "flow_take f st a = Some f'" "sint (conn_n f') = sint (conn_n f) - sint a"
      "sint (stream_n f' st) = sint (stream_n f st) - sint a" "\<forall>s. s \<noteq> st \<longrightarrow> stream_n f' s = stream_n f s"
      using flow_take_exact [of a f st] 2 al by auto
    have "Consume mfs n wr f = Some ([?c, ?r], f')" using w st 2 f'(1) by (simp add: Consume_def a_def [symmetric])
    moreover have "data_len ?c = sint a" using 2 by (simp add: data_len_def wr_DataSize_def)
    moreover have "atoms ?c @ atoms ?r = atoms wr" using w by (simp add: atoms_def) (metis append_assoc append_take_drop_id map_append)
    moreover have "wr_StreamID ?c = st" "wr_StreamID ?r = st" "streamed ?r" using st by (simp_all add: wr_StreamID_def streamed_def)
    ultimately show ?thesis using f' al st by auto
  next
    case 3
    have l: "sint (word_of_nat (length p) :: 32 word) = int (length p)"
      using 3 ab sint32_of_int [of "int (length p)"] by simp
    obtain f' where f': "flow_take f st (word_of_nat (length p)) = Some f'" "sint (conn_n f') = sint (conn_n f) - int (length p)"
      "sint (stream_n f' st) = sint (stream_n f st) - int (length p)" "\<forall>s. s \<noteq> st \<longrightarrow> stream_n f' s = stream_n f s"
      using flow_take_exact [of "word_of_nat (length p)" f st] 3 al l by auto
    have "Consume mfs n wr f = Some ([wr], f')" using w st 3 f'(1) by (simp add: Consume_def a_def [symmetric])
    then show ?thesis using f' al 3 st w by (simp add: data_len_def)
  qed
qed

section \<open>Popping keeps the order of each stream\<close>

definition ws_ok :: "http2randomWriteScheduler \<Rightarrow> bool" where
  "ws_ok ws \<longleftrightarrow> (\<forall>wr \<in> set (ws_zero ws). wr_StreamID wr = 0) \<and>
     (\<forall>sid q. ws_sq ws sid = Some q \<longrightarrow> sid \<noteq> 0 \<and> (\<forall>wr \<in> set q. wr_StreamID wr = sid \<and> streamed wr))"

definition queued :: "http2randomWriteScheduler \<Rightarrow> 32 word \<Rightarrow> http2FrameWriteRequest list" where
  "queued ws sid = (if sid = 0 then ws_zero ws else case ws_sq ws sid of Some q \<Rightarrow> q | None \<Rightarrow> [])"

definition charged :: "http2FrameWriteRequest list \<Rightarrow> int" where
  \<comment> \<open>the octets that count against the window of the connection\<close>
  "charged rs = sum_list (map data_len (filter (\<lambda>wr. wr_StreamID wr \<noteq> 0) rs))"

definition charged_on :: "32 word \<Rightarrow> http2FrameWriteRequest list \<Rightarrow> int" where
  \<comment> \<open>the octets that count against the window of a stream\<close>
  "charged_on sid rs = sum_list (map data_len (filter (\<lambda>wr. wr_StreamID wr = sid) rs))"

definition within_windows :: "32 word \<Rightarrow> http2FrameWriteRequest \<Rightarrow> flows \<Rightarrow> bool" where
  \<comment> \<open>data that may be sent when the windows are \<open>f\<close>\<close>
  "within_windows mfs wr f \<longleftrightarrow> wr_StreamID wr \<noteq> 0 \<and> data_len wr \<noteq> 0 \<longrightarrow>
     data_len wr \<le> sint mfs \<and> data_len wr \<le> sint (conn_n f) \<and> data_len wr \<le> sint (stream_n f (wr_StreamID wr))"

definition pop_good :: "32 word \<Rightarrow> http2randomWriteScheduler \<Rightarrow> flows \<Rightarrow> http2FrameWriteRequest option \<Rightarrow> http2randomWriteScheduler \<Rightarrow> flows \<Rightarrow> bool" where
  "pop_good mfs ws f r ws' f' \<longleftrightarrow> ws_ok ws' \<and>
     (case r of
        None \<Rightarrow> queued ws' = queued ws \<and> f' = f
      | Some wr \<Rightarrow>
          (\<forall>sid. atoms_of sid [wr] @ atoms_of sid (queued ws' sid) = atoms_of sid (queued ws sid)) \<and>
          sint (conn_n f') = sint (conn_n f) - charged [wr] \<and>
          (\<forall>sid. sid \<noteq> 0 \<longrightarrow> sint (stream_n f' sid) = sint (stream_n f sid) - charged_on sid [wr]) \<and>
          within_windows mfs wr f)"

lemma available_le: "sint (available f sid) \<le> sint (conn_n f)" "sint (available f sid) \<le> sint (stream_n f sid)"
  by (auto simp: available_def Let_def)

lemma Consume_windows:
  assumes "streamed wr" "Consume mfs n wr f = Some (c # rest, f')"
  shows "within_windows mfs c f" "sint (stream_n f' s) = sint (stream_n f s) - charged_on s [c]"
proof -
  have c: "data_len c \<noteq> 0 \<longrightarrow> data_len c \<le> sint mfs \<and> data_len c \<le> sint (available f (wr_StreamID wr))"
    "wr_StreamID c = wr_StreamID wr" "sint (stream_n f' (wr_StreamID wr)) = sint (stream_n f (wr_StreamID wr)) - data_len c"
    "s \<noteq> wr_StreamID wr \<Longrightarrow> stream_n f' s = stream_n f s" for s
    using Consume_exact [OF assms(1), of mfs n f] assms(2) by auto
  from c(1,2) available_le [of f "wr_StreamID wr"] show "within_windows mfs c f" by (auto simp: within_windows_def)
  from c(2-4) show "sint (stream_n f' s) = sint (stream_n f s) - charged_on s [c]" by (auto simp: charged_on_def)
qed

lemma queue_consume_good:
  assumes "\<forall>wr \<in> set q. wr_StreamID wr = sid \<and> streamed wr" "sid \<noteq> 0"
  shows "\<exists>r q' f'. queue_consume mfs n q f = Some (r, q', f') \<and> (\<forall>wr \<in> set q'. wr_StreamID wr = sid \<and> streamed wr) \<and>
    (case r of
       None \<Rightarrow> q' = q \<and> f' = f
     | Some wr \<Rightarrow> wr_StreamID wr = sid \<and> atoms wr @ atoms_of sid q' = atoms_of sid q \<and> sint (conn_n f') = sint (conn_n f) - data_len wr \<and>
         (\<forall>s. sint (stream_n f' s) = sint (stream_n f s) - charged_on s [wr]) \<and> within_windows mfs wr f)"
proof (cases q)
  case Nil
  then show ?thesis by (simp add: queue_consume_def)
next
  case (Cons wr q1)
  have wr: "streamed wr" "wr_StreamID wr = sid" using assms(1) Cons by auto
  obtain rs f' where c: "Consume mfs n wr f = Some (rs, f')"
    "rs = [] \<and> f' = f \<or>
     (\<exists>c rest. rs = c # rest \<and> (rest = [] \<or> (\<exists>r. rest = [r] \<and> streamed r)) \<and> concat (map atoms rs) = atoms wr \<and>
        (\<forall>r \<in> set rs. wr_StreamID r = sid) \<and>
        sint (conn_n f') = sint (conn_n f) - data_len c)"
    using Consume_exact [OF wr(1), of mfs n f] wr(2) by blast
  note w = Consume_windows [OF wr(1), of mfs n f]
  from c(2) show ?thesis
  proof (elim disjE exE conjE)
    assume "rs = []" "f' = f"
    then show ?thesis using c(1) assms(1) Cons by (simp add: queue_consume_def)
  next
    fix c rest assume a: "rs = c # rest" "rest = []" "concat (map atoms rs) = atoms wr" "\<forall>r \<in> set rs. wr_StreamID r = sid"
      "sint (conn_n f') = sint (conn_n f) - data_len c"
    then show ?thesis using c(1) assms(1) Cons w by (simp add: queue_consume_def)
  next
    fix c rest r assume a: "rs = c # rest" "rest = [r]" "streamed r" "concat (map atoms rs) = atoms wr" "\<forall>r \<in> set rs. wr_StreamID r = sid"
      "sint (conn_n f') = sint (conn_n f) - data_len c"
    then have "atoms c @ atoms r = atoms wr" by simp
    with a show ?thesis using c(1) assms(1) Cons w by (auto simp: queue_consume_def)
  qed
qed

lemma pop_streams_good:
  "ws_ok ws \<Longrightarrow> \<exists>r ws' f'. pop_streams mfs order ws f = Some (r, ws', f') \<and> pop_good mfs ws f r ws' f'"
proof (induction mfs order ws f rule: pop_streams.induct)
  case (1 mfs ws f)
  then show ?case by (simp add: pop_good_def)
next
  case (2 mfs sid sids ws f)
  show ?case
  proof (cases "ws_sq ws sid")
    case None
    then show ?thesis using 2 by simp
  next
    case (Some q)
    then have q: "\<forall>wr \<in> set q. wr_StreamID wr = sid \<and> streamed wr" "sid \<noteq> 0" using "2.prems" by (auto simp: ws_ok_def)
    obtain r q' f' where c: "queue_consume mfs MaxInt32 q f = Some (r, q', f')" "\<forall>wr \<in> set q'. wr_StreamID wr = sid \<and> streamed wr"
      "case r of
         None \<Rightarrow> q' = q \<and> f' = f
       | Some wr \<Rightarrow> wr_StreamID wr = sid \<and> atoms wr @ atoms_of sid q' = atoms_of sid q \<and> sint (conn_n f') = sint (conn_n f) - data_len wr \<and>
           (\<forall>s. sint (stream_n f' s) = sint (stream_n f s) - charged_on s [wr]) \<and> within_windows mfs wr f"
      using queue_consume_good [OF q] by blast
    let ?ws = "ws\<lparr>ws_sq := (ws_sq ws)(sid \<mapsto> q')\<rparr>"
    have ok: "ws_ok ?ws" using "2.prems" c(2) q(2) by (auto simp: ws_ok_def)
    show ?thesis
    proof (cases r)
      case None
      then have s: "q' = q" "f' = f" using c(3) by simp_all
      then have "?ws = ws" using Some by (simp add: map_upd_triv)
      then show ?thesis using "2.IH"(2) [OF Some c(1) refl None refl] None s "2.prems" Some c(1) by simp
    next
      case (Some wr)
      have "queued ?ws = (queued ws)(sid := q')" "queued ws sid = q" using \<open>ws_sq ws sid = Some q\<close> q(2) by (auto simp: queued_def)
      then have "pop_good mfs ws f (Some wr) ?ws f'" using c(3) Some ok q(2) by (auto simp: pop_good_def charged_def)
      then show ?thesis using \<open>ws_sq ws sid = Some q\<close> c(1) Some by simp
    qed
  qed
qed

lemma queue_consume_None:
  assumes "queue_consume mfs MaxInt32 q f = Some (None, q', f')" "\<forall>wr \<in> set q. wr_StreamID wr = sid \<and> streamed wr"
  shows "q' = q \<and> f' = f \<and> (\<forall>wr r. q = wr # r \<longrightarrow>
    0 < wr_DataSize wr \<and> (sint mfs \<le> 0 \<or> sint (conn_n f) \<le> 0 \<or> sint (stream_n f sid) \<le> 0))"
proof (cases q)
  case Nil
  then show ?thesis using assms(1) by (simp add: queue_consume_def)
next
  case (Cons wr r)
  have wr: "streamed wr" "wr_StreamID wr = sid" using assms(2) Cons by auto
  obtain f1 where c: "Consume mfs MaxInt32 wr f = Some ([], f1)" using assms(1) Cons
    by (auto simp: queue_consume_def) (metis (no_types, lifting) fst_conv list.exhaust list.simps(4,5) option.distinct(1))
  have "Consume mfs MaxInt32 wr f = Some ([], f) \<and> wr_DataSize wr \<noteq> 0 \<and> sint (smin mfs (smin MaxInt32 (available f sid))) \<le> 0"
    using Consume_exact [OF wr(1), of mfs MaxInt32 f] unfolding c wr(2) by simp
  moreover have "\<not> sint MaxInt32 \<le> 0" by (simp add: MaxInt32_def)
  ultimately show ?thesis using assms(1) Cons by (auto simp: queue_consume_def smin_def available_def Let_def split: if_splits)
qed

lemma pop_streams_None:
  "ws_ok ws \<Longrightarrow> pop_streams mfs order ws f = Some (None, ws', f') \<Longrightarrow> ws' = ws \<and> f' = f \<and>
     (\<forall>sid \<in> set order. \<forall>wr q. ws_sq ws sid = Some (wr # q) \<longrightarrow>
        0 < wr_DataSize wr \<and> (sint mfs \<le> 0 \<or> sint (conn_n f) \<le> 0 \<or> sint (stream_n f sid) \<le> 0))"
proof (induction order)
  case (Cons sid sids)
  show ?case
  proof (cases "ws_sq ws sid")
    case None
    then show ?thesis using Cons by simp
  next
    case (Some q)
    then have q: "\<forall>wr \<in> set q. wr_StreamID wr = sid \<and> streamed wr" using Cons.prems(1) by (auto simp: ws_ok_def)
    obtain q' f1 where c: "queue_consume mfs MaxInt32 q f = Some (None, q', f1)"
      and p: "pop_streams mfs sids (ws\<lparr>ws_sq := (ws_sq ws)(sid \<mapsto> q')\<rparr>) f1 = Some (None, ws', f')"
      using Cons.prems(2) Some by (auto split: option.splits)
    note b = queue_consume_None [OF c q]
    then have "ws\<lparr>ws_sq := (ws_sq ws)(sid \<mapsto> q')\<rparr> = ws" using Some by (simp add: map_upd_triv)
    then show ?thesis using Cons.IH [OF Cons.prems(1)] p b Some by auto
  qed
qed simp

lemma ws_Pop_good:
  assumes "ws_ok ws"
  shows "\<exists>r ws' f'. ws_Pop mfs order ws f = Some (r, ws', f') \<and> pop_good mfs ws f r ws' f'"
proof (cases "ws_zero ws")
  case Nil
  then show ?thesis using pop_streams_good [OF assms] by (simp add: ws_Pop_def)
next
  case (Cons wr q)
  have z: "wr_StreamID wr = 0" "ws_ok (ws\<lparr>ws_zero := q\<rparr>)" using assms Cons by (auto simp: ws_ok_def)
  have "queued (ws\<lparr>ws_zero := q\<rparr>) = (queued ws)(0 := q)" "queued ws 0 = wr # q" using Cons by (auto simp: queued_def)
  with z have "pop_good mfs ws f (Some wr) (ws\<lparr>ws_zero := q\<rparr>) f"
    by (auto simp: pop_good_def charged_def charged_on_def within_windows_def)
  then show ?thesis using Cons by (simp add: ws_Pop_def)
qed

section \<open>Runs of a scheduler\<close>

datatype sched_op =
    SPush http2FrameWriteRequest
  | SPop "32 word list"
  | SClose "32 word"
  | SWindow "32 word" "32 word"     \<comment> \<open>\<open>add\<close> on the flow of a stream\<close>
  | SConnWindow "32 word"

record sched_run =
  sr_ws :: http2randomWriteScheduler
  sr_flows :: flows
  sr_pushed :: "http2FrameWriteRequest list"
  sr_popped :: "http2FrameWriteRequest list"
  sr_windows :: "flows list"        \<comment> \<open>the windows just before each request was popped\<close>
  sr_credit :: int                  \<comment> \<open>what was added to the window of the connection\<close>
  sr_stream_credit :: "32 word \<Rightarrow> int"

primrec sched_step :: "32 word \<Rightarrow> sched_op \<Rightarrow> sched_run \<Rightarrow> sched_run option" where
  "sched_step mfs (SPush wr) s = Some (s\<lparr>sr_ws := ws_Push wr (sr_ws s), sr_pushed := sr_pushed s @ [wr]\<rparr>)"
| "sched_step mfs (SPop order) s =
     map_option (\<lambda>(r, ws, f). s\<lparr>sr_ws := ws, sr_flows := f, sr_popped := sr_popped s @ (case r of None \<Rightarrow> [] | Some wr \<Rightarrow> [wr]),
         sr_windows := sr_windows s @ (case r of None \<Rightarrow> [] | Some wr \<Rightarrow> [sr_flows s])\<rparr>)
       (ws_Pop mfs order (sr_ws s) (sr_flows s))"
| "sched_step mfs (SClose sid) s = Some (s\<lparr>sr_ws := ws_CloseStream sid (sr_ws s)\<rparr>)"
| "sched_step mfs (SWindow sid n) s =
     (let (ok, f) = flow_add (sr_flows s) sid n in
      Some (s\<lparr>sr_flows := f, sr_stream_credit := (sr_stream_credit s)(sid := sr_stream_credit s sid + (if ok then sint n else 0))\<rparr>))"
| "sched_step mfs (SConnWindow n) s =
     (let (ok, f) = conn_add (sr_flows s) n in Some (s\<lparr>sr_flows := f, sr_credit := sr_credit s + (if ok then sint n else 0)\<rparr>))"

primrec sched_steps :: "32 word \<Rightarrow> sched_op list \<Rightarrow> sched_run \<Rightarrow> sched_run option" where
  "sched_steps mfs [] s = Some s"
| "sched_steps mfs (x # xs) s = Option.bind (sched_step mfs x s) (sched_steps mfs xs)"

definition sched_start :: "flows \<Rightarrow> sched_run" where
  "sched_start f = \<lparr>sr_ws = \<lparr>ws_zero = [], ws_sq = Map.empty\<rparr>, sr_flows = f, sr_pushed = [], sr_popped = [], sr_windows = [],
     sr_credit = 0, sr_stream_credit = (\<lambda>_. 0)\<rparr>"

definition run_ok :: "32 word \<Rightarrow> 32 word set \<Rightarrow> flows \<Rightarrow> sched_run \<Rightarrow> bool" where
  "run_ok mfs closed f s \<longleftrightarrow> ws_ok (sr_ws s) \<and>
     (\<forall>sid. sid \<notin> closed \<longrightarrow> atoms_of sid (sr_popped s) @ atoms_of sid (queued (sr_ws s) sid) = atoms_of sid (sr_pushed s)) \<and>
     sint (conn_n (sr_flows s)) = sint (conn_n f) + sr_credit s - charged (sr_popped s) \<and>
     (\<forall>sid. sid \<noteq> 0 \<longrightarrow> sint (stream_n (sr_flows s) sid) =
        sint (stream_n f sid) + sr_stream_credit s sid - charged_on sid (sr_popped s)) \<and>
     list_all2 (within_windows mfs) (sr_popped s) (sr_windows s)"

lemma ws_Push_ok:
  assumes "ws_ok ws"
  shows "ws_ok (ws_Push wr ws)"
proof (cases "wr_StreamID wr = 0")
  case True
  then show ?thesis using assms by (auto simp: ws_ok_def ws_Push_def)
next
  case False
  then have "streamed wr" by (auto simp: streamed_def wr_StreamID_def split: option.splits)
  with False show ?thesis using assms
    by (cases "ws_sq ws (wr_StreamID wr)") (auto simp: ws_ok_def ws_Push_def Let_def)
qed

lemma queued_Push: "queued (ws_Push wr ws) = (queued ws)(wr_StreamID wr := queued ws (wr_StreamID wr) @ [wr])"
  by (auto simp: queued_def ws_Push_def Let_def split: option.split)

lemma charged_append [simp]: "charged (xs @ ys) = charged xs + charged ys" "charged [] = 0"
  by (simp_all add: charged_def)

lemma charged_on_append [simp]: "charged_on sid (xs @ ys) = charged_on sid xs + charged_on sid ys" "charged_on sid [] = 0"
  by (simp_all add: charged_on_def)

lemma flow_add_credit:
  assumes "flow_add f sid n = (ok, f')"
  shows "sint (stream_n f' s) = sint (stream_n f s) + (if s = sid \<and> ok then sint n else 0)" "conn_n f' = conn_n f"
  using assms window_add_exact(2) [of "stream_n f sid" n] by (cases "window_add (stream_n f sid) n"; auto simp: flow_add_def)+

lemma conn_add_credit:
  assumes "conn_add f n = (ok, f')"
  shows "sint (conn_n f') = sint (conn_n f) + (if ok then sint n else 0)"
  using assms window_add_exact(2) [of "conn_n f" n] by (cases "window_add (conn_n f) n") (auto simp: conn_add_def)

lemma sched_step_ok:
  assumes "run_ok mfs closed f s" "\<And>sid. x = SClose sid \<Longrightarrow> sid \<in> closed"
  shows "\<exists>s'. sched_step mfs x s = Some s' \<and> run_ok mfs closed f s'"
proof (cases x)
  case (SPush wr)
  then show ?thesis using assms(1) ws_Push_ok [of "sr_ws s" wr] by (auto simp: run_ok_def queued_Push)
next
  case (SPop order)
  have "ws_ok (sr_ws s)" using assms(1) by (simp add: run_ok_def)
  then obtain r ws' f' where p: "ws_Pop mfs order (sr_ws s) (sr_flows s) = Some (r, ws', f')" "pop_good mfs (sr_ws s) (sr_flows s) r ws' f'"
    using ws_Pop_good by blast
  then show ?thesis
  proof (cases r)
    case None
    then show ?thesis using SPop p assms(1) by (auto simp: run_ok_def pop_good_def)
  next
    case (Some wr)
    have "(atoms_of sid (sr_popped s) @ atoms_of sid [wr]) @ atoms_of sid (queued ws' sid) =
        atoms_of sid (sr_popped s) @ atoms_of sid (queued (sr_ws s) sid)" for sid
      using p(2) Some by (simp add: pop_good_def)
    then show ?thesis using SPop p assms(1) Some by (auto simp: run_ok_def pop_good_def intro!: list_all2_appendI)
  qed
next
  case (SClose sid)
  then have cl: "sid \<in> closed" using assms(2) by simp
  have "ws_ok (ws_CloseStream sid (sr_ws s))" using assms(1) by (auto simp: run_ok_def ws_ok_def ws_CloseStream_def)
  moreover from cl have "queued (ws_CloseStream sid (sr_ws s)) t = queued (sr_ws s) t" if "t \<notin> closed" for t
    using that by (auto simp: queued_def ws_CloseStream_def)
  ultimately show ?thesis using SClose assms(1) by (simp add: run_ok_def)
next
  case (SWindow sid n)
  obtain ok f' where a: "flow_add (sr_flows s) sid n = (ok, f')" by fastforce
  then show ?thesis using SWindow assms(1) flow_add_credit [OF a] by (auto simp: run_ok_def)
next
  case (SConnWindow n)
  obtain ok f' where "conn_add (sr_flows s) n = (ok, f')" by fastforce
  moreover from this have "stream_n f' = stream_n (sr_flows s)"
    by (cases "window_add (conn_n (sr_flows s)) n") (auto simp: conn_add_def)
  ultimately show ?thesis using SConnWindow assms(1) conn_add_credit by (auto simp: run_ok_def)
qed

lemma sched_steps_ok:
  "run_ok mfs closed f s \<Longrightarrow> (\<And>sid. SClose sid \<in> set xs \<Longrightarrow> sid \<in> closed) \<Longrightarrow> \<exists>s'. sched_steps mfs xs s = Some s' \<and> run_ok mfs closed f s'"
proof (induction xs arbitrary: s)
  case (Cons x xs)
  have "\<And>sid. x = SClose sid \<Longrightarrow> sid \<in> closed" using Cons.prems(2) by auto
  then obtain s1 where "sched_step mfs x s = Some s1" "run_ok mfs closed f s1" using sched_step_ok [OF Cons.prems(1)] by blast
  with Cons show ?case by simp
qed simp

text \<open>
  (C12) The write scheduler keeps its promise, and flow control holds. After any sequence of pushes, pops (whatever order the loop over
  the streams takes), closed streams and updates of windows, nothing has panicked; on every stream that was not closed, what
  was popped and what is still queued is what was pushed, octet for octet and frame for frame, with the end of the stream
  where it was, however the data was cut; the window of the connection, and that of every stream, is its initial value plus the
  updates that were accepted less the data popped; and no data frame, when it is popped, is larger than \<open>maxFrameSize\<close>,
  than the window of the connection or than the window of its stream.
\<close>
theorem scheduler_delivers:
  "\<exists>s. sched_steps mfs ops (sched_start f) = Some s \<and>
     (\<forall>sid. SClose sid \<notin> set ops \<longrightarrow>
        atoms_of sid (sr_popped s) @ atoms_of sid (queued (sr_ws s) sid) = atoms_of sid (sr_pushed s)) \<and>
     sint (conn_n (sr_flows s)) = sint (conn_n f) + sr_credit s - charged (sr_popped s) \<and>
     (\<forall>sid. sid \<noteq> 0 \<longrightarrow> sint (stream_n (sr_flows s) sid) =
        sint (stream_n f sid) + sr_stream_credit s sid - charged_on sid (sr_popped s)) \<and>
     length (sr_windows s) = length (sr_popped s) \<and>
     (\<forall>i < length (sr_popped s). let wr = sr_popped s ! i; w = sr_windows s ! i in
        wr_StreamID wr \<noteq> 0 \<and> data_len wr \<noteq> 0 \<longrightarrow>
          data_len wr \<le> sint mfs \<and> data_len wr \<le> sint (conn_n w) \<and> data_len wr \<le> sint (stream_n w (wr_StreamID wr)))"
proof -
  let ?closed = "{sid. SClose sid \<in> set ops}"
  have "run_ok mfs ?closed f (sched_start f)" by (simp add: run_ok_def sched_start_def ws_ok_def queued_def)
  then obtain s where "sched_steps mfs ops (sched_start f) = Some s" "run_ok mfs ?closed f s"
    using sched_steps_ok [of mfs ?closed f "sched_start f" ops] by auto
  then show ?thesis by (auto simp: run_ok_def list_all2_conv_all_nth within_windows_def Let_def)
qed

definition sample_ops :: "sched_op list" where
  "sample_ops =
     [SPush \<lparr>wr_write = writeData 1 [7, 8, 9] True, wr_stream = Some 1, wr_done = Some 4\<rparr>,
      SPush \<lparr>wr_write = writeSettingsAck, wr_stream = None, wr_done = None\<rparr>, SPop [1], SPop [1], SWindow 1 5, SPop [1]]"

definition sample_flows :: flows where "sample_flows = \<lparr>conn_n = 10, stream_n = (\<lambda>_. 2)\<rparr>"

theorem scheduler_delivers_witness:
  "\<exists>s. sched_steps 16384 sample_ops (sched_start sample_flows) = Some s \<and>
     map wr_write (sr_popped s) = [writeSettingsAck, writeData 1 [7, 8] False, writeData 1 [9] True] \<and>
     atoms_of 1 (sr_popped s) = atoms_of 1 (sr_pushed s) \<and> sint (conn_n (sr_flows s)) = 7 \<and>
     sint (stream_n (sr_flows s) 1) = 4"
proof -
  obtain s where s: "sched_steps 16384 sample_ops (sched_start sample_flows) = Some s"
    "\<forall>sid. SClose sid \<notin> set sample_ops \<longrightarrow>
        atoms_of sid (sr_popped s) @ atoms_of sid (queued (sr_ws s) sid) = atoms_of sid (sr_pushed s)"
    "sint (conn_n (sr_flows s)) = sint (conn_n sample_flows) + sr_credit s - charged (sr_popped s)"
    "\<forall>sid. sid \<noteq> 0 \<longrightarrow> sint (stream_n (sr_flows s) sid) =
        sint (stream_n sample_flows sid) + sr_stream_credit s sid - charged_on sid (sr_popped s)"
    using scheduler_delivers [of 16384 sample_ops sample_flows] by blast
  have "map_option (\<lambda>s. (map wr_write (sr_popped s), queued (sr_ws s) 1, sr_credit s, charged (sr_popped s),
        sr_stream_credit s 1, charged_on 1 (sr_popped s)))
      (sched_steps 16384 sample_ops (sched_start sample_flows)) =
      Some ([writeSettingsAck, writeData 1 [7, 8] False, writeData 1 [9] True], [], 0, 3, 5, 3)"
    by code_simp
  then have e: "map wr_write (sr_popped s) = [writeSettingsAck, writeData 1 [7, 8] False, writeData 1 [9] True]" "queued (sr_ws s) 1 = []"
    "sr_credit s = 0" "charged (sr_popped s) = 3" "sr_stream_credit s 1 = 5" "charged_on 1 (sr_popped s) = 3"
    using s(1) by simp_all
  moreover have "SClose 1 \<notin> set sample_ops" by (simp add: sample_ops_def)
  then have "atoms_of 1 (sr_popped s) @ atoms_of 1 (queued (sr_ws s) 1) = atoms_of 1 (sr_pushed s)" using s(2) by blast
  moreover have "sint (stream_n (sr_flows s) 1) = sint (stream_n sample_flows 1) + sr_stream_credit s 1 - charged_on 1 (sr_popped s)"
    using s(4) by simp
  ultimately show ?thesis using s(1,3) by (auto simp: sample_flows_def)
qed

text \<open>
  (C23) The scheduler never holds back what could be sent. When \<open>Pop\<close>, whose loop meets every stream that has a queue, returns nothing,
  no frame without a stream is queued, and the head of every queue is data that the windows of its stream and of the connection, or the
  largest frame size, do not admit a single octet of.
\<close>
theorem Pop_nothing_only_if_blocked:
  assumes "ws_ok ws" "dom (ws_sq ws) \<subseteq> set order" "ws_Pop mfs order ws f = Some (None, ws', f')"
  shows "ws_zero ws = [] \<and> ws' = ws \<and> f' = f \<and>
    (\<forall>sid wr q. ws_sq ws sid = Some (wr # q) \<longrightarrow>
       0 < wr_DataSize wr \<and> (sint mfs \<le> 0 \<or> sint (conn_n f) \<le> 0 \<or> sint (stream_n f sid) \<le> 0))"
proof -
  have z: "ws_zero ws = []" using assms(3) by (auto simp: ws_Pop_def split: list.splits)
  then have "pop_streams mfs order ws f = Some (None, ws', f')" using assms(3) by (simp add: ws_Pop_def)
  from pop_streams_None [OF assms(1) this] assms(2) z show ?thesis by (auto dest: domI)
qed

theorem Pop_nothing_only_if_blocked_witness:
  "ws_Pop 16384 [1] \<lparr>ws_zero = [], ws_sq = [1 \<mapsto> [\<lparr>wr_write = writeData 1 [7] True, wr_stream = Some 1, wr_done = None\<rparr>]]\<rparr>
     \<lparr>conn_n = 10, stream_n = (\<lambda>_. 0)\<rparr> =
   Some (None, \<lparr>ws_zero = [], ws_sq = [1 \<mapsto> [\<lparr>wr_write = writeData 1 [7] True, wr_stream = Some 1, wr_done = None\<rparr>]]\<rparr>,
     \<lparr>conn_n = 10, stream_n = (\<lambda>_. 0)\<rparr>)"
  (is "ws_Pop 16384 [1] ?ws ?f = _")
proof -
  have ok: "ws_ok ?ws" by (auto simp: ws_ok_def wr_StreamID_def streamed_def)
  have "map_option fst (ws_Pop 16384 [1] ?ws ?f) = Some None" by code_simp
  then obtain ws' f' where "ws_Pop 16384 [1] ?ws ?f = Some (None, ws', f')" by auto
  then show ?thesis using Pop_nothing_only_if_blocked [OF ok, of "[1]" 16384 ?f ws' f'] by auto
qed

text \<open>
  \<open>add\<close> on a flow control window accepts an increment exactly when the sum is a signed 32-bit number, and then the window is this sum;
  otherwise the window is left as it was. The test that the code makes on the wrapped sum is neither too strict nor too lax.
\<close>
lemma flow_add_no_overflow:
  "fst (flow_add f sid n) = (- (2 ^ 31) \<le> sint (stream_n f sid) + sint n \<and> sint (stream_n f sid) + sint n < 2 ^ 31) \<and>
   sint (stream_n (snd (flow_add f sid n)) sid) = (if fst (flow_add f sid n) then sint (stream_n f sid) + sint n else sint (stream_n f sid)) \<and>
   conn_n (snd (flow_add f sid n)) = conn_n f"
  using window_add_exact [of "stream_n f sid" n] by (cases "window_add (stream_n f sid) n") (auto simp: flow_add_def)

end
