(* ===== verification/H2Conn.thy ===== *)
theory H2Conn
  imports H2Request H2Buffer H2Sched
begin

text \<open>
  The connection of an HTTP/2 server: \<open>http2serverConn\<close> of \<open>pkg/http/h2_bundle.go\<close> with its streams, the loop that writes frames, and
  what it does with each frame, message and timer. All of it runs on one goroutine, \<open>serve\<close>, so an operation is a function on the
  state; a panic is the result \<open>Inl\<close> with its text.

  A stream object is referred to by its number, which is never used twice; \<open>objs\<close> are the objects, \<open>streams\<close> the numbers in the map. The
  writer that runs on its own goroutine is \<open>writing\<close>, the request it was given; its outcome is an event. What the connection
  cannot know is in \<open>serve_env\<close>: the room in the write buffer, the outcome of writes, the order of map loops, the state of
  keep-alives. Push promises, timers and their resets, the ConnState hook and contexts are left out; messages of timers are events.
\<close>

section \<open>State\<close>

datatype http2streamState = StateIdle | StateOpen | StateHalfClosedLocal | StateHalfClosedRemote | StateClosed

record http2stream =
  st_state :: http2streamState
  st_body :: "http2dataBuffer http2pipe option"
  st_bodyBytes :: int
  st_declBodyBytes :: int
  st_resetQueued :: bool
  st_gotTrailerHeader :: bool
  st_wroteHeaders :: bool
  st_trailer :: "Headers.Header option"
  st_reqTrailer :: "Headers.Header option"
  st_cw :: bool                         \<comment> \<open>whether \<open>cw\<close> is closed\<close>

definition zero_stream :: http2stream where
  "zero_stream = \<lparr>st_state = StateIdle, st_body = None, st_bodyBytes = 0, st_declBodyBytes = 0, st_resetQueued = False,
     st_gotTrailerHeader = False, st_wroteHeaders = False, st_trailer = None, st_reqTrailer = None, st_cw = False\<rparr>"

record http2Server =
  MaxConcurrentStreams :: "32 word"
  MaxReadFrameSize :: "32 word"
  MaxUploadBufferPerConnection :: "32 word"
  MaxUploadBufferPerStream :: "32 word"
  MaxHeaderBytes :: int

datatype handler_choice = ServeHTTP | HeaderListTooLong | Handler400 string

record http2serverConn =
  pushEnabled :: bool
  sawFirstSettings :: bool
  needToSendSettingsAck :: bool
  unackedSettings :: int
  clientMaxStreams :: "32 word"
  advMaxStreams :: "32 word"
  curClientStreams :: "32 word"
  curPushedStreams :: "32 word"
  maxClientStreamID :: "32 word"
  maxPushPromiseID :: "32 word"
  streams :: "32 word set"
  objs :: "32 word \<Rightarrow> http2stream"
  sc_flow :: flows
  sc_inflow :: flows
  initialStreamSendWindowSize :: "32 word"
  sc_maxFrameSize :: "32 word"
  headerTableSize :: "32 word"
  tableSizes :: "32 word list"          \<comment> \<open>the calls of \<open>SetMaxDynamicTableSize\<close> on the encoder\<close>
  peerMaxHeaderListSize :: "32 word"
  writingFrame :: bool
  writingFrameAsync :: bool
  needsFrameFlush :: bool
  inGoAway :: bool
  inFrameScheduleLoop :: bool
  needToSendGoAway :: bool
  goAwayCode :: "32 word"
  writeSched :: http2randomWriteScheduler
  writing :: "http2FrameWriteRequest option"
  written :: "http2FrameWriteRequest list" \<comment> \<open>the requests whose writing was started\<close>
  replies :: "(nat \<times> http2_error option) list"
  handlers :: "(32 word \<times> h2request \<times> handler_choice) list"
  sc_clock :: nat

record serve_env =
  e_srv :: http2Server
  e_room :: "nat \<Rightarrow> nat"                 \<comment> \<open>\<open>bw.Available()\<close>, and so on, at a time\<close>
  e_err :: "nat \<Rightarrow> http2_error option"
  e_order :: "nat \<Rightarrow> 32 word list"
  e_keepAlivesDisabled :: "nat \<Rightarrow> bool"
  e_stale :: "nat \<Rightarrow> octets"

type_synonym serve_action = "http2serverConn \<Rightarrow> string + http2serverConn"

definition upd_stream :: "32 word \<Rightarrow> (http2stream \<Rightarrow> http2stream) \<Rightarrow> http2serverConn \<Rightarrow> http2serverConn" where
  "upd_stream s f sc = sc\<lparr>objs := (objs sc)(s := f (objs sc s))\<rparr>"

definition http2initialWindowSize :: "32 word" where "http2initialWindowSize = 65535"

definition initialConnRecvWindowSize :: "http2Server \<Rightarrow> 32 word" where
  "initialConnRecvWindowSize s =
     (if sint http2initialWindowSize < sint (MaxUploadBufferPerConnection s) then MaxUploadBufferPerConnection s else 1048576)"

definition initialStreamRecvWindowSize :: "http2Server \<Rightarrow> 32 word" where
  "initialStreamRecvWindowSize s = (if 0 < sint (MaxUploadBufferPerStream s) then MaxUploadBufferPerStream s else 1048576)"

definition maxReadFrameSize :: "http2Server \<Rightarrow> 32 word" where
  "maxReadFrameSize s = (if 16384 \<le> MaxReadFrameSize s \<and> MaxReadFrameSize s \<le> http2maxFrameSize then MaxReadFrameSize s else 1048576)"

definition maxConcurrentStreams :: "http2Server \<Rightarrow> 32 word" where
  "maxConcurrentStreams s = (if 0 < MaxConcurrentStreams s then MaxConcurrentStreams s else 250)"

definition sc_maxHeaderListSize :: "http2Server \<Rightarrow> 32 word" where
  "sc_maxHeaderListSize s = word_of_int ((if MaxHeaderBytes s \<le> 0 then 1048576 else MaxHeaderBytes s) + 320)"

definition isPushed :: "32 word \<Rightarrow> bool" where
  "isPushed s \<longleftrightarrow> s mod 2 = 0"

definition state_of :: "http2serverConn \<Rightarrow> 32 word \<Rightarrow> http2streamState" where
  "state_of sc sid =
     (if sid \<in> streams sc then st_state (objs sc sid)
      else if sid mod 2 = 1 then if sid \<le> maxClientStreamID sc then StateClosed else StateIdle
      else if sid \<le> maxPushPromiseID sc then StateClosed else StateIdle)"

section \<open>Writing frames\<close>

definition http2writeEndsStream :: "write_framer \<Rightarrow> bool" where
  "http2writeEndsStream w = (case w of writeData _ _ e \<Rightarrow> e | writeResHeaders h \<Rightarrow> w_endStream h | _ \<Rightarrow> False)"

definition staysWithinBuffer :: "write_framer \<Rightarrow> nat \<Rightarrow> bool" where
  "staysWithinBuffer w avail =
     (case w of
        writeData _ p _ \<Rightarrow> http2frameHeaderLen + length p \<le> avail
      | writeStreamError _ _ \<Rightarrow> http2frameHeaderLen + 4 \<le> avail
      | handlerPanicRST _ \<Rightarrow> http2frameHeaderLen + 4 \<le> avail
      | writeResHeaders _ \<Rightarrow> False
      | write100ContinueHeadersFrame _ \<Rightarrow> 9 + 2 * (length '':status'' + length ''100'') \<le> avail
      | writeWindowUpdate _ _ \<Rightarrow> http2frameHeaderLen + 4 \<le> avail
      | writeSettings ss \<Rightarrow> http2frameHeaderLen + 6 * length ss \<le> avail
      | writeSettingsAck \<Rightarrow> http2frameHeaderLen \<le> avail
      | writePingAck p \<Rightarrow> http2frameHeaderLen + length p \<le> avail
      | writeGoAway _ _ \<Rightarrow> False
      | flushFrameWriter \<Rightarrow> False)"

definition conn_request :: "write_framer \<Rightarrow> http2FrameWriteRequest" where
  "conn_request w = \<lparr>wr_write = w, wr_stream = None, wr_done = None\<rparr>"

definition ignore_write :: "http2FrameWriteRequest \<Rightarrow> http2serverConn \<Rightarrow> string + bool \<times> http2serverConn" where
  \<comment> \<open>\<open>writeFrame\<close> up to the test of \<open>ignoreWrite\<close>\<close>
  "ignore_write wr sc =
     (let isReset = (case wr_write wr of writeStreamError _ _ \<Rightarrow> True | _ \<Rightarrow> False);
          ignoreWrite = (wr_StreamID wr \<noteq> 0 \<and> state_of sc (wr_StreamID wr) = StateClosed \<and> \<not> isReset) in
      case wr_write wr of
        writeResHeaders _ \<Rightarrow>
          (case wr_stream wr of None \<Rightarrow> Inl ''nil stream'' | Some s \<Rightarrow> Inr (ignoreWrite, upd_stream s (st_wroteHeaders_update (\<lambda>_. True)) sc))
      | write100ContinueHeadersFrame _ \<Rightarrow>
          (case wr_stream wr of
             None \<Rightarrow> Inl ''nil stream''
           | Some s \<Rightarrow>
               if st_wroteHeaders (objs sc s) then
                 if wr_done wr \<noteq> None then Inl ''wr.done != nil for write100ContinueHeadersFrame'' else Inr (True, sc)
               else Inr (ignoreWrite, sc))
      | _ \<Rightarrow> Inr (ignoreWrite, sc))"

definition writeFrame :: "serve_action \<Rightarrow> http2FrameWriteRequest \<Rightarrow> serve_action" where
  "writeFrame sched wr sc =
     (case ignore_write wr sc of
        Inl e \<Rightarrow> Inl e
      | Inr (ignoreWrite, sc) \<Rightarrow> sched (if ignoreWrite then sc else sc\<lparr>writeSched := ws_Push wr (writeSched sc)\<rparr>))"

definition resetStream :: "serve_action \<Rightarrow> 32 word \<Rightarrow> 32 word \<Rightarrow> serve_action" where
  "resetStream sched sid code sc =
     rbind (writeFrame sched (conn_request (writeStreamError sid code)) sc) (\<lambda>sc.
       Inr (if sid \<in> streams sc then upd_stream sid (st_resetQueued_update (\<lambda>_. True)) sc else sc))"

definition goAway :: "serve_action \<Rightarrow> 32 word \<Rightarrow> serve_action" where
  "goAway sched code sc =
     (if inGoAway sc then Inr sc else sched (sc\<lparr>inGoAway := True, needToSendGoAway := True, goAwayCode := code\<rparr>))"

definition inflow_add :: "32 word option \<Rightarrow> 32 word \<Rightarrow> flows \<Rightarrow> bool \<times> flows" where
  "inflow_add st n f = (case st of None \<Rightarrow> conn_add f n | Some s \<Rightarrow> flow_add f s n)"

definition sendWindowUpdate32 :: "serve_action \<Rightarrow> 32 word option \<Rightarrow> 32 word \<Rightarrow> serve_action" where
  "sendWindowUpdate32 sched st n sc =
     (if n = 0 then Inr sc
      else if sint n < 0 then Inl ''negative update''
      else
        let streamID = (case st of None \<Rightarrow> 0 | Some s \<Rightarrow> s) in
        rbind (writeFrame sched \<lparr>wr_write = writeWindowUpdate streamID n, wr_stream = st, wr_done = None\<rparr> sc) (\<lambda>sc.
          let r = inflow_add st n (sc_inflow sc) in
          if fst r then Inr (sc\<lparr>sc_inflow := snd r\<rparr>) else Inl ''internal error; sent too many window updates without decrements?''))"

definition maxUint31 :: int where "maxUint31 = 2 ^ 31 - 1"

function sendWindowUpdate :: "serve_action \<Rightarrow> 32 word option \<Rightarrow> int \<Rightarrow> serve_action" where
  "sendWindowUpdate sched st n sc =
     (if maxUint31 \<le> n then
        (case sendWindowUpdate32 sched st (word_of_int maxUint31) sc of
           Inl e \<Rightarrow> Inl e
         | Inr sc \<Rightarrow> sendWindowUpdate sched st (n - maxUint31) sc)
      else sendWindowUpdate32 sched st (word_of_int n) sc)"
  by pat_completeness auto
termination
  by (relation "measure (\<lambda>(sched, st, n, sc). nat n)") (auto simp: maxUint31_def)

declare sendWindowUpdate.simps [simp del]

definition close_body :: "32 word \<Rightarrow> buffer_error \<Rightarrow> nat option \<Rightarrow> http2serverConn \<Rightarrow> http2serverConn" where
  "close_body s err fn sc = upd_stream s (st_body_update (map_option (pipe_CloseWithError err fn))) sc"

definition forget_stream :: "32 word \<Rightarrow> http2serverConn \<Rightarrow> http2serverConn" where
  \<comment> \<open>the beginning of \<open>closeStream\<close>\<close>
  "forget_stream s sc =
     (let sc = upd_stream s (st_state_update (\<lambda>_. StateClosed)) sc;
          sc = (if isPushed s then sc\<lparr>curPushedStreams := curPushedStreams sc - 1\<rparr> else sc\<lparr>curClientStreams := curClientStreams sc - 1\<rparr>) in
      sc\<lparr>streams := streams sc - {s}\<rparr>)"

definition close_pipe :: "serve_action \<Rightarrow> 32 word \<Rightarrow> buffer_error \<Rightarrow> serve_action" where
  "close_pipe sched s err sc =
     (case st_body (objs sc s) of
        None \<Rightarrow> Inr sc
      | Some p \<Rightarrow> rbind (sendWindowUpdate sched None (int (pipe_Len dataBuffer_Len p)) sc) (\<lambda>sc. Inr (close_body s err None sc)))"

definition closeStream :: "serve_env \<Rightarrow> serve_action \<Rightarrow> 32 word \<Rightarrow> buffer_error \<Rightarrow> serve_action" where
  "closeStream env sched s err sc0 =
     (if st_state (objs sc0 s) = StateIdle \<or> st_state (objs sc0 s) = StateClosed then Inl ''invariant; can't close stream''
      else
        let sc = forget_stream s sc0 in
        rbind (if streams sc = {} \<and> e_keepAlivesDisabled env (sc_clock sc) then goAway sched http2ErrCodeNo sc else Inr sc) (\<lambda>sc.
        rbind (close_pipe sched s err sc) (\<lambda>sc.
        if st_cw (objs sc s) then Inl ''close of closed channel''
        else Inr ((upd_stream s (st_cw_update (\<lambda>_. True)) sc)\<lparr>writeSched := ws_CloseStream s (writeSched sc)\<rparr>))))"

definition replyToWriter :: "http2FrameWriteRequest \<Rightarrow> http2_error option \<Rightarrow> http2serverConn \<Rightarrow> http2serverConn" where
  \<comment> \<open>the channel has space for its one message\<close>
  "replyToWriter wr err sc = (case wr_done wr of None \<Rightarrow> sc | Some ch \<Rightarrow> sc\<lparr>replies := replies sc @ [(ch, err)]\<rparr>)"

definition frame_was_written :: "serve_env \<Rightarrow> serve_action \<Rightarrow> http2FrameWriteRequest \<Rightarrow> serve_action" where
  \<comment> \<open>what \<open>wroteFrame\<close> does for the stream of the frame\<close>
  "frame_was_written env sched wr sc =
     (if http2writeEndsStream (wr_write wr) then
        (case wr_stream wr of
           None \<Rightarrow> Inl ''internal error: expecting non-nil stream''
         | Some s \<Rightarrow>
             (case st_state (objs sc s) of
                StateOpen \<Rightarrow> resetStream sched s http2ErrCodeNo (upd_stream s (st_state_update (\<lambda>_. StateHalfClosedLocal)) sc)
              | StateHalfClosedRemote \<Rightarrow> closeStream env sched s (PipeError ''http2: request body closed due to handler exiting'') sc
              | _ \<Rightarrow> Inr sc))
      else
        (case wr_write wr of
           writeStreamError sid code \<Rightarrow> if sid \<in> streams sc then closeStream env sched sid (StreamFailed sid code) sc else Inr sc
         | handlerPanicRST _ \<Rightarrow>
             (case wr_stream wr of
                None \<Rightarrow> Inl ''nil stream''
              | Some s \<Rightarrow> closeStream env sched s (PipeError ''http2: handler panicked'') sc)
         | _ \<Rightarrow> Inr sc))"

definition wroteFrame :: "serve_env \<Rightarrow> serve_action \<Rightarrow> http2FrameWriteRequest \<Rightarrow> http2_error option \<Rightarrow> serve_action" where
  "wroteFrame env sched wr err sc =
     (if \<not> writingFrame sc then Inl ''internal error: expected to be already writing a frame''
      else
        rbind (frame_was_written env sched wr (sc\<lparr>writingFrame := False, writingFrameAsync := False, writing := None\<rparr>)) (\<lambda>sc.
          sched (replyToWriter wr err sc)))"

definition may_start :: "http2serverConn \<Rightarrow> http2FrameWriteRequest \<Rightarrow> bool" where
  \<comment> \<open>the tests on the state of the stream at the beginning of \<open>startFrameWrite\<close>\<close>
  "may_start sc wr =
     (case wr_stream wr of
        None \<Rightarrow> True
      | Some s \<Rightarrow>
          (case st_state (objs sc s) of
             StateHalfClosedLocal \<Rightarrow>
               (case wr_write wr of writeStreamError _ _ \<Rightarrow> True | handlerPanicRST _ \<Rightarrow> True | writeWindowUpdate _ _ \<Rightarrow> True | _ \<Rightarrow> False)
           | StateClosed \<Rightarrow> False
           | _ \<Rightarrow> True))"

definition startFrameWrite :: "serve_env \<Rightarrow> http2FrameWriteRequest \<Rightarrow> serve_action" where
  \<comment> \<open>only the loop below calls it, and while the loop runs \<open>scheduleFrameWrite\<close> returns at once\<close>
  "startFrameWrite env wr sc =
     (if writingFrame sc then Inl ''internal error: can only be writing one frame at a time''
      else if \<not> may_start sc wr then Inl ''internal error: attempt to send frame on a half-closed-local or closed stream''
      else
        let k = sc_clock sc;
            sc = sc\<lparr>writingFrame := True, needsFrameFlush := True, written := written sc @ [wr], sc_clock := Suc k\<rparr> in
        if staysWithinBuffer (wr_write wr) (e_room env k) then
          wroteFrame env Inr wr (e_err env k) (sc\<lparr>writingFrameAsync := False\<rparr>)
        else Inr (sc\<lparr>writingFrameAsync := True, writing := Some wr\<rparr>))"

definition pop_frame :: "serve_env \<Rightarrow> http2serverConn \<Rightarrow> string + http2FrameWriteRequest option \<times> http2serverConn" where
  "pop_frame env sc =
     (if \<not> inGoAway sc \<or> goAwayCode sc = http2ErrCodeNo then
        (case ws_Pop (sc_maxFrameSize sc) (e_order env (sc_clock sc)) (writeSched sc) (sc_flow sc) of
           None \<Rightarrow> Inl ''internal error: took too much''
         | Some (r, ws, f) \<Rightarrow> Inr (r, sc\<lparr>writeSched := ws, sc_flow := f, sc_clock := Suc (sc_clock sc)\<rparr>))
      else Inr (None, sc))"


section \<open>The loop that writes\<close>

definition rank :: "http2streamState \<Rightarrow> nat" where
  "rank s = (case s of StateOpen \<Rightarrow> 2 | StateHalfClosedLocal \<Rightarrow> 1 | StateHalfClosedRemote \<Rightarrow> 1 | _ \<Rightarrow> 0)"

definition ranks :: "http2serverConn \<Rightarrow> nat" where
  "ranks sc = (\<Sum>s \<in> UNIV. rank (st_state (objs sc s)))"

definition request_weight :: "http2FrameWriteRequest \<Rightarrow> nat" where
  "request_weight wr = Suc (wr_DataSize wr)"

definition sched_weight :: "http2randomWriteScheduler \<Rightarrow> nat" where
  "sched_weight ws = sum_list (map request_weight (ws_zero ws)) +
     (\<Sum>s \<in> UNIV. case ws_sq ws s of None \<Rightarrow> 0 | Some q \<Rightarrow> sum_list (map request_weight q))"

definition loop_weight :: "http2serverConn \<Rightarrow> nat" where
  "loop_weight sc = 2 * sched_weight (writeSched sc) + (if needToSendGoAway sc then 2 else 0) + (if needToSendSettingsAck sc then 2 else 0) +
     (if needsFrameFlush sc then 1 else 0)"

lemma sum_less_at:
  fixes f g :: "32 word \<Rightarrow> nat"
  assumes "\<And>x. x \<noteq> s \<Longrightarrow> f x = g x" "f s < g s"
  shows "sum f UNIV < sum g UNIV"
proof (rule sum_strict_mono_ex1)
  show "\<forall>x \<in> UNIV. f x \<le> g x" using assms by (metis less_imp_le order_refl)
qed (use assms(2) in auto)

lemma ranks_update:
  "rank (st_state (f (objs sc s))) < rank (st_state (objs sc s)) \<Longrightarrow> ranks (upd_stream s f sc) < ranks sc"
  unfolding ranks_def upd_stream_def by (rule sum_less_at [of s]) auto

lemma ranks_same [simp]:
  "(\<And>x. st_state (f x) = st_state x) \<Longrightarrow> ranks (upd_stream s f sc) = ranks sc"
  by (simp add: ranks_def upd_stream_def cong: sum.cong) (rule sum.cong, auto)

lemma queue_consume_weight:
  assumes "queue_consume mfs n q f = Some (r, q', f')"
  shows "case r of None \<Rightarrow> q' = q \<and> f' = f | Some wr \<Rightarrow> sum_list (map request_weight q') < sum_list (map request_weight q)"
proof (cases q)
  case Nil
  then show ?thesis using assms by (auto simp: queue_consume_def)
next
  case (Cons wr q1)
  then show ?thesis using assms
    by (auto simp: queue_consume_def Consume_def Let_def request_weight_def wr_DataSize_def nat_less_iff
        split: write_framer.splits if_splits option.splits)
qed

lemma pop_streams_weight:
  "pop_streams mfs order ws f = Some (r, ws', f') \<Longrightarrow>
   case r of None \<Rightarrow> ws' = ws \<and> f' = f | Some wr \<Rightarrow> sched_weight ws' < sched_weight ws"
proof (induction mfs order ws f rule: pop_streams.induct)
  case (2 mfs sid sids ws f)
  show ?case
  proof (cases "ws_sq ws sid")
    case None
    then show ?thesis using 2 by simp
  next
    case (Some q)
    then obtain r1 q1 f1 where c: "queue_consume mfs MaxInt32 q f = Some (r1, q1, f1)" using "2.prems" by (auto split: option.splits)
    note w = queue_consume_weight [OF c]
    show ?thesis
    proof (cases r1)
      case None
      then have "ws\<lparr>ws_sq := (ws_sq ws)(sid \<mapsto> q1)\<rparr> = ws" "f1 = f" using w Some by (simp_all add: map_upd_triv)
      moreover from this have "pop_streams mfs sids (ws\<lparr>ws_sq := (ws_sq ws)(sid \<mapsto> q1)\<rparr>) f1 = Some (r, ws', f')" using "2.prems" Some c None by simp
      ultimately show ?thesis using "2.IH"(2) [OF Some c refl None refl] by metis
    next
      case (Some wr)
      have "sched_weight (ws\<lparr>ws_sq := (ws_sq ws)(sid \<mapsto> q1)\<rparr>) < sched_weight ws"
        unfolding sched_weight_def using w Some \<open>ws_sq ws sid = Some q\<close> by (simp, intro sum_less_at [of sid]) auto
      then show ?thesis using "2.prems" Some c \<open>ws_sq ws sid = Some q\<close> by auto
    qed
  qed
qed simp

lemma ws_Pop_weight:
  "ws_Pop mfs order ws f = Some (r, ws', f') \<Longrightarrow> case r of None \<Rightarrow> ws' = ws \<and> f' = f | Some wr \<Rightarrow> sched_weight ws' < sched_weight ws"
  by (cases "ws_zero ws") (auto simp: ws_Pop_def sched_weight_def request_weight_def dest: pop_streams_weight)

lemma ranks_fields [simp]:
  "ranks (sc\<lparr>writeSched := a\<rparr>) = ranks sc" "ranks (sc\<lparr>sc_inflow := b\<rparr>) = ranks sc" "ranks (sc\<lparr>streams := c\<rparr>) = ranks sc"
  "ranks (sc\<lparr>curPushedStreams := d\<rparr>) = ranks sc" "ranks (sc\<lparr>curClientStreams := e\<rparr>) = ranks sc" "ranks (sc\<lparr>replies := g\<rparr>) = ranks sc"
  "ranks (sc\<lparr>inGoAway := h, needToSendGoAway := i, goAwayCode := j\<rparr>) = ranks sc"
  by (simp_all add: ranks_def)

lemma writeFrame_ranks: "writeFrame Inr wr sc = Inr sc' \<Longrightarrow> ranks sc' = ranks sc"
  by (auto simp: writeFrame_def ignore_write_def Let_def split: write_framer.splits option.splits if_splits)

lemma sendWindowUpdate32_ranks: "sendWindowUpdate32 Inr st n sc = Inr sc' \<Longrightarrow> ranks sc' = ranks sc"
  by (auto simp: sendWindowUpdate32_def Let_def go_result split: if_splits prod.split_asm dest!: writeFrame_ranks)

lemma sendWindowUpdate_ranks: "sendWindowUpdate Inr st n sc = Inr sc' \<Longrightarrow> ranks sc' = ranks sc"
proof (induction "Inr :: serve_action" st n sc rule: sendWindowUpdate.induct)
  case (1 st n sc)
  then show ?case
    by (auto simp: sendWindowUpdate.simps [of Inr st n sc] split: if_splits sum.split_asm dest: sendWindowUpdate32_ranks)
qed

lemma closeStream_ranks:
  assumes "closeStream env Inr s err sc = Inr sc'"
  shows "ranks sc' < ranks sc"
proof -
  let ?sc = "upd_stream s (st_state_update (\<lambda>_. StateClosed)) sc"
  have "rank StateClosed < rank (st_state (objs sc s))" using assms
    by (cases "st_state (objs sc s)") (simp_all add: closeStream_def rank_def)
  then have "ranks ?sc < ranks sc" by (intro ranks_update) simp
  moreover have "ranks sc' = ranks ?sc" using assms
    by (auto simp: closeStream_def forget_stream_def close_pipe_def close_body_def goAway_def Let_def go_result
        split: if_splits option.splits dest!: sendWindowUpdate_ranks)
  ultimately show ?thesis by simp
qed

lemma resetStream_ranks: "resetStream Inr sid code sc = Inr sc' \<Longrightarrow> ranks sc' = ranks sc"
  by (auto simp: resetStream_def go_result split: if_splits dest!: writeFrame_ranks)

definition same_queue :: "http2serverConn \<Rightarrow> http2serverConn \<Rightarrow> bool" where
  "same_queue sc sc' \<longleftrightarrow> ranks sc' = ranks sc \<and> writeSched sc' = writeSched sc \<and> needToSendGoAway sc' = needToSendGoAway sc \<and>
     needToSendSettingsAck sc' = needToSendSettingsAck sc"

lemma frame_was_written_progress:
  assumes "frame_was_written env Inr wr sc = Inr sc'"
  shows "ranks sc' < ranks sc \<or> sc' = sc"
proof (cases "http2writeEndsStream (wr_write wr)")
  case True
  then obtain s where s: "wr_stream wr = Some s" using assms by (auto simp: frame_was_written_def split: option.splits)
  have l: "ranks (upd_stream s (st_state_update (\<lambda>_. StateHalfClosedLocal)) sc) < ranks sc" if "st_state (objs sc s) = StateOpen"
    using that by (intro ranks_update) (simp add: rank_def)
  show ?thesis
    by (cases "st_state (objs sc s)")
      (use assms True s l in \<open>auto simp: frame_was_written_def dest: closeStream_ranks resetStream_ranks\<close>)
next
  case False
  then show ?thesis using assms
    by (auto simp: frame_was_written_def split: write_framer.splits option.splits if_splits dest: closeStream_ranks)
qed

lemma startFrameWrite_progress:
  assumes "startFrameWrite env wr sc = Inr sc'"
  shows "ranks sc' < ranks sc \<or> same_queue sc sc'"
proof -
  let ?sc = "sc\<lparr>needsFrameFlush := True, written := written sc @ [wr], sc_clock := Suc (sc_clock sc), writingFrame := False, writingFrameAsync := False,
    writing := None\<rparr>"
  have r: "ranks ?sc = ranks sc" by (simp add: ranks_def)
  show ?thesis
  proof (cases "staysWithinBuffer (wr_write wr) (e_room env (sc_clock sc))")
    case True
    then obtain sc1 where "frame_was_written env Inr wr ?sc = Inr sc1" "sc' = replyToWriter wr (e_err env (sc_clock sc)) sc1"
      using assms by (auto simp: startFrameWrite_def wroteFrame_def Let_def go_result split: if_splits)
    then show ?thesis using frame_was_written_progress [of env wr ?sc sc1] r
      by (auto simp: same_queue_def replyToWriter_def split: option.splits)
  next
    case False
    then show ?thesis using assms by (auto simp: startFrameWrite_def Let_def same_queue_def ranks_def split: if_splits)
  qed
qed

lemma pop_frame_progress:
  assumes "pop_frame env sc = Inr (r, sc')"
  shows "ranks sc' = ranks sc \<and> needToSendGoAway sc' = needToSendGoAway sc \<and> needToSendSettingsAck sc' = needToSendSettingsAck sc \<and>
    needsFrameFlush sc' = needsFrameFlush sc \<and>
    (case r of None \<Rightarrow> writeSched sc' = writeSched sc | Some wr \<Rightarrow> sched_weight (writeSched sc') < sched_weight (writeSched sc))"
  using assms by (auto simp: pop_frame_def ranks_def split: if_splits option.splits dest: ws_Pop_weight)

function schedule_loop :: "serve_env \<Rightarrow> serve_action" where
  \<comment> \<open>the loop of \<open>scheduleFrameWrite\<close>\<close>
  "schedule_loop env sc =
     (if writingFrameAsync sc then Inr sc
      else if needToSendGoAway sc then
        (case startFrameWrite env (conn_request (writeGoAway (maxClientStreamID sc) (goAwayCode sc))) (sc\<lparr>needToSendGoAway := False\<rparr>) of
           Inl e \<Rightarrow> Inl e
         | Inr sc \<Rightarrow> schedule_loop env sc)
      else if needToSendSettingsAck sc then
        (case startFrameWrite env (conn_request writeSettingsAck) (sc\<lparr>needToSendSettingsAck := False\<rparr>) of
           Inl e \<Rightarrow> Inl e
         | Inr sc \<Rightarrow> schedule_loop env sc)
      else
        (case pop_frame env sc of
           Inl e \<Rightarrow> Inl e
         | Inr (Some wr, sc) \<Rightarrow> (case startFrameWrite env wr sc of Inl e \<Rightarrow> Inl e | Inr sc \<Rightarrow> schedule_loop env sc)
         | Inr (None, sc) \<Rightarrow>
             if needsFrameFlush sc then
               (case startFrameWrite env (conn_request flushFrameWriter) sc of
                  Inl e \<Rightarrow> Inl e
                | Inr sc \<Rightarrow> schedule_loop env (sc\<lparr>needsFrameFlush := False\<rparr>))
             else Inr sc))"
  by pat_completeness auto
termination
proof (relation "measures [\<lambda>(env, sc). ranks sc, \<lambda>(env, sc). loop_weight sc]", goal_cases)
  case 1
  then show ?case by simp
next
  case (2 env sc sc1)
  then show ?case using startFrameWrite_progress [OF 2(3)] by (auto simp: same_queue_def loop_weight_def ranks_def)
next
  case (3 env sc sc1)
  then show ?case using startFrameWrite_progress [OF 3(4)] by (auto simp: same_queue_def loop_weight_def ranks_def)
next
  case (4 env sc b x y ba)
  then have "pop_frame env sc = Inr (None, y)" by simp
  from pop_frame_progress [OF this] show ?case using startFrameWrite_progress [OF 4(8)] 4(2,3,7)
    by (auto simp: same_queue_def loop_weight_def ranks_def)
next
  case (5 env sc b x y wr ba)
  then have "pop_frame env sc = Inr (Some wr, y)" by simp
  from pop_frame_progress [OF this] show ?case using startFrameWrite_progress [OF 5(7)] 5(2,3)
    by (auto simp: same_queue_def loop_weight_def ranks_def)
qed

declare schedule_loop.simps [simp del]

definition scheduleFrameWrite :: "serve_env \<Rightarrow> serve_action" where
  "scheduleFrameWrite env sc =
     (if writingFrame sc \<or> inFrameScheduleLoop sc then Inr sc
      else rbind (schedule_loop env (sc\<lparr>inFrameScheduleLoop := True\<rparr>)) (\<lambda>sc. Inr (sc\<lparr>inFrameScheduleLoop := False\<rparr>)))"

section \<open>Streams\<close>

definition newStream :: "serve_env \<Rightarrow> 32 word \<Rightarrow> http2streamState \<Rightarrow> serve_action" where
  "newStream env sid state sc =
     (if sid = 0 then Inl ''internal error: cannot create stream with id 0''
      else
        let w = snd (window_add 0 (initialStreamSendWindowSize sc));
            wi = snd (window_add 0 (initialStreamRecvWindowSize (e_srv env)));
            sc = sc\<lparr>objs := (objs sc)(sid := zero_stream\<lparr>st_state := state\<rparr>),
                    sc_flow := (sc_flow sc)\<lparr>stream_n := (stream_n (sc_flow sc))(sid := w)\<rparr>,
                    sc_inflow := (sc_inflow sc)\<lparr>stream_n := (stream_n (sc_inflow sc))(sid := wi)\<rparr>,
                    streams := insert sid (streams sc)\<rparr> in
        Inr (if isPushed sid then sc\<lparr>curPushedStreams := curPushedStreams sc + 1\<rparr> else sc\<lparr>curClientStreams := curClientStreams sc + 1\<rparr>))"

definition endStream :: "32 word \<Rightarrow> serve_action" where
  \<comment> \<open>the code given to the pipe, number 0, is \<open>copyTrailersToHandlerRequest\<close>\<close>
  "endStream s sc =
     (if st_body (objs sc s) = None then Inl ''nil pipe''
      else
        let st = objs sc s;
            sc = (if st_declBodyBytes st \<noteq> - 1 \<and> st_declBodyBytes st \<noteq> st_bodyBytes st
                  then close_body s (PipeError (''request declared a Content-Length of '' @ Itoa (st_declBodyBytes st) @ '' but only wrote '' @
                         Itoa (st_bodyBytes st) @ '' bytes'')) None sc
                  else close_body s (PipeError ''EOF'') None (close_body s (PipeError ''EOF'') (Some 0) sc)) in
        Inr (upd_stream s (st_state_update (\<lambda>_. StateHalfClosedRemote)) sc))"

definition copyTrailersToHandlerRequest :: "http2stream \<Rightarrow> http2stream" where
  "copyTrailersToHandlerRequest st =
     (case (st_trailer st, st_reqTrailer st) of
        (Some t, Some rt) \<Rightarrow>
          st\<lparr>st_reqTrailer := Some (fold (\<lambda>(k, vv) rt. if map_of rt k \<noteq> None then AList.update k vv rt else rt) t rt)\<rparr>
      | _ \<Rightarrow> st)"

section \<open>Frames\<close>

type_synonym processing = "http2serverConn \<Rightarrow> string + http2_error option \<times> http2serverConn"

definition fails :: "http2_error \<Rightarrow> processing" where
  "fails e sc = Inr (Some e, sc)"

definition succeeds :: "(string + http2serverConn) \<Rightarrow> string + http2_error option \<times> http2serverConn" where
  "succeeds r = rbind r (\<lambda>sc. Inr (None, sc))"

definition processPing :: "serve_env \<Rightarrow> http2FrameHeader \<Rightarrow> octets \<Rightarrow> processing" where
  "processPing env fh data sc =
     (if Has (fh_Flags fh) http2FlagPingAck then Inr (None, sc)
      else if fh_StreamID fh \<noteq> 0 then fails (http2ConnectionError http2ErrCodeProtocol) sc
      else if inGoAway sc \<and> goAwayCode sc \<noteq> http2ErrCodeNo then Inr (None, sc)
      else succeeds (writeFrame (scheduleFrameWrite env) (conn_request (writePingAck data)) sc))"

definition processWindowUpdate :: "serve_env \<Rightarrow> http2FrameHeader \<Rightarrow> 32 word \<Rightarrow> processing" where
  "processWindowUpdate env fh increment sc =
     (let sid = fh_StreamID fh in
      if sid \<noteq> 0 then
        if state_of sc sid = StateIdle then fails (http2ConnectionError http2ErrCodeProtocol) sc
        else if sid \<notin> streams sc then Inr (None, sc)
        else
          let r = flow_add (sc_flow sc) sid increment in
          if \<not> fst r then fails (http2streamError sid http2ErrCodeFlowControl) sc
          else succeeds (scheduleFrameWrite env (sc\<lparr>sc_flow := snd r\<rparr>))
      else
        let r = conn_add (sc_flow sc) increment in
        if \<not> fst r then fails http2goAwayFlowError sc
        else succeeds (scheduleFrameWrite env (sc\<lparr>sc_flow := snd r\<rparr>)))"

definition processResetStream :: "serve_env \<Rightarrow> http2FrameHeader \<Rightarrow> 32 word \<Rightarrow> processing" where
  "processResetStream env fh code sc =
     (let sid = fh_StreamID fh in
      if state_of sc sid = StateIdle then fails (http2ConnectionError http2ErrCodeProtocol) sc
      else if sid \<in> streams sc then succeeds (closeStream env (scheduleFrameWrite env) sid (StreamFailed sid code) sc)
      else Inr (None, sc))"

definition Setting_Valid :: "http2Setting \<Rightarrow> http2_error option" where
  "Setting_Valid s =
     (if s_ID s = http2SettingEnablePush then
        if s_Val s \<noteq> 1 \<and> s_Val s \<noteq> 0 then Some (http2ConnectionError http2ErrCodeProtocol) else None
      else if s_ID s = http2SettingInitialWindowSize then
        if mask31 < s_Val s then Some (http2ConnectionError http2ErrCodeFlowControl) else None
      else if s_ID s = http2SettingMaxFrameSize then
        if s_Val s < 16384 \<or> http2maxFrameSize < s_Val s then Some (http2ConnectionError http2ErrCodeProtocol) else None
      else None)"

definition grow_windows :: "(32 word \<Rightarrow> bool) \<Rightarrow> 32 word \<Rightarrow> flows \<Rightarrow> flows" where
  "grow_windows which growth f = f\<lparr>stream_n := (\<lambda>s. if which s then snd (window_add (stream_n f s) growth) else stream_n f s)\<rparr>"

definition processSettingInitialWindowSize :: "serve_env \<Rightarrow> 32 word \<Rightarrow> http2serverConn \<Rightarrow> http2_error option \<times> http2serverConn" where
  \<comment> \<open>the loop stops at the first stream whose window cannot grow; the streams it met before are a matter of the order of the map\<close>
  "processSettingInitialWindowSize env val sc =
     (let growth = val - initialStreamSendWindowSize sc;
          sc = sc\<lparr>initialStreamSendWindowSize := val\<rparr>;
          ok = (\<lambda>s. fst (window_add (stream_n (sc_flow sc) s) growth)) in
      if (\<forall>s \<in> streams sc. ok s) then (None, sc\<lparr>sc_flow := grow_windows (\<lambda>s. s \<in> streams sc) growth (sc_flow sc)\<rparr>)
      else
        let met = takeWhile ok (filter (\<lambda>s. s \<in> streams sc) (e_order env (sc_clock sc))) in
        (Some (http2ConnectionError http2ErrCodeFlowControl), sc\<lparr>sc_flow := grow_windows (\<lambda>s. s \<in> set met) growth (sc_flow sc)\<rparr>))"

definition processSetting :: "serve_env \<Rightarrow> http2serverConn \<Rightarrow> http2Setting \<Rightarrow> http2_error option \<times> http2serverConn" where
  "processSetting env sc s =
     (case Setting_Valid s of
        Some err \<Rightarrow> (Some err, sc)
      | None \<Rightarrow>
          if s_ID s = http2SettingHeaderTableSize then (None, sc\<lparr>headerTableSize := s_Val s, tableSizes := tableSizes sc @ [s_Val s]\<rparr>)
          else if s_ID s = http2SettingEnablePush then (None, sc\<lparr>pushEnabled := (s_Val s \<noteq> 0)\<rparr>)
          else if s_ID s = http2SettingMaxConcurrentStreams then (None, sc\<lparr>clientMaxStreams := s_Val s\<rparr>)
          else if s_ID s = http2SettingInitialWindowSize then processSettingInitialWindowSize env (s_Val s) sc
          else if s_ID s = http2SettingMaxFrameSize then (None, sc\<lparr>sc_maxFrameSize := s_Val s\<rparr>)
          else if s_ID s = http2SettingMaxHeaderListSize then (None, sc\<lparr>peerMaxHeaderListSize := s_Val s\<rparr>)
          else (None, sc))"

definition processSettings :: "serve_env \<Rightarrow> http2FrameHeader \<Rightarrow> octets \<Rightarrow> processing" where
  "processSettings env fh p sc =
     (if Has (fh_Flags fh) http2FlagSettingsAck then
        let sc = sc\<lparr>unackedSettings := unackedSettings sc - 1\<rparr> in
        if unackedSettings sc < 0 then fails (http2ConnectionError http2ErrCodeProtocol) sc else Inr (None, sc)
      else if 100 < NumSettings p \<or> HasDuplicates p then fails (http2ConnectionError http2ErrCodeProtocol) sc
      else
        (case ForeachSetting fh p (processSetting env) sc of
           (Some H2Panic, sc) \<Rightarrow> Inl ''invalid frame''
         | (Some err, sc) \<Rightarrow> fails err sc
         | (None, sc) \<Rightarrow> succeeds (scheduleFrameWrite env (sc\<lparr>needToSendSettingsAck := True\<rparr>))))"

definition refuse_data :: "serve_env \<Rightarrow> http2FrameHeader \<Rightarrow> processing" where
  \<comment> \<open>the branch of \<open>processData\<close> for a stream that takes no more data\<close>
  "refuse_data env fh sc =
     (let sid = fh_StreamID fh in
      if sint (conn_n (sc_inflow sc)) < sint (fh_Length fh) then fails (http2streamError sid http2ErrCodeFlowControl) sc
      else
        (case conn_take (sc_inflow sc) (fh_Length fh) of
           None \<Rightarrow> Inl ''internal error: took too much''
         | Some f \<Rightarrow>
             rbind (sendWindowUpdate (scheduleFrameWrite env) None (uint (fh_Length fh)) (sc\<lparr>sc_inflow := f\<rparr>)) (\<lambda>sc.
               if st_resetQueued (objs sc sid) then Inr (None, sc)
               else fails (http2streamError sid http2ErrCodeStreamClosed) sc)))"

definition store_data :: "serve_env \<Rightarrow> 32 word \<Rightarrow> octets \<Rightarrow> processing" where
  "store_data env sid data sc =
     (if data = [] then Inr (None, sc)
      else
        (case st_body (objs sc sid) of
           None \<Rightarrow> Inl ''internal error: should have a body in this state''
         | Some p \<Rightarrow>
             (case pipe_Write (dataBuffer_Write (e_stale env)) data p of
                None \<Rightarrow> Inl ''nil buffer''
              | Some (Inl e, p) \<Rightarrow> fails (http2streamError sid http2ErrCodeStreamClosed) (upd_stream sid (st_body_update (\<lambda>_. Some p)) sc)
              | Some (Inr wrote, p) \<Rightarrow>
                  if wrote \<noteq> length data then Inl ''internal error: bad Writer''
                  else Inr (None, upd_stream sid (\<lambda>st. st\<lparr>st_body := Some p, st_bodyBytes := st_bodyBytes st + int (length data)\<rparr>) sc))))"

definition return_padding :: "serve_env \<Rightarrow> 32 word \<Rightarrow> 32 word \<Rightarrow> serve_action" where
  "return_padding env sid pad sc =
     (if 0 < sint pad then
        rbind (sendWindowUpdate32 (scheduleFrameWrite env) None pad sc) (sendWindowUpdate32 (scheduleFrameWrite env) (Some sid) pad)
      else Inr sc)"

definition take_data :: "serve_env \<Rightarrow> http2FrameHeader \<Rightarrow> octets \<Rightarrow> processing" where
  \<comment> \<open>\<open>if f.Length > 0\<close> of \<open>processData\<close>\<close>
  "take_data env fh data sc =
     (let sid = fh_StreamID fh in
      if fh_Length fh = 0 then Inr (None, sc)
      else if sint (available (sc_inflow sc) sid) < sint (fh_Length fh) then fails (http2streamError sid http2ErrCodeFlowControl) sc
      else
        (case flow_take (sc_inflow sc) sid (fh_Length fh) of
           None \<Rightarrow> Inl ''internal error: took too much''
         | Some f \<Rightarrow>
             rbind (store_data env sid data (sc\<lparr>sc_inflow := f\<rparr>)) (\<lambda>(err, sc).
               case err of
                 Some e \<Rightarrow> fails e sc
               | None \<Rightarrow> succeeds (return_padding env sid (fh_Length fh - word_of_nat (length data)) sc))))"

definition processData :: "serve_env \<Rightarrow> http2FrameHeader \<Rightarrow> octets \<Rightarrow> processing" where
  "processData env fh data sc =
     (let sid = fh_StreamID fh; st = objs sc sid; state = state_of sc sid in
      if inGoAway sc \<and> goAwayCode sc \<noteq> http2ErrCodeNo then Inr (None, sc)
      else if sid = 0 \<or> state = StateIdle then fails (http2ConnectionError http2ErrCodeProtocol) sc
      else if state = StateClosed then fails (http2streamError sid http2ErrCodeStreamClosed) sc
      else if state \<noteq> StateOpen \<or> st_gotTrailerHeader st \<or> st_resetQueued st then refuse_data env fh sc
      else if st_body st = None then Inl ''internal error: should have a body in this state''
      else if st_declBodyBytes st \<noteq> - 1 \<and> st_declBodyBytes st < st_bodyBytes st + int (length data) then
        fails (http2streamError sid http2ErrCodeProtocol)
          (close_body sid (PipeError (''sender tried to send more than declared Content-Length of '' @ Itoa (st_declBodyBytes st) @ '' bytes'')) None sc)
      else
        rbind (take_data env fh data sc) (\<lambda>(err, sc).
          case err of
            Some e \<Rightarrow> fails e sc
          | None \<Rightarrow> if Has (fh_Flags fh) http2FlagDataEndStream then succeeds (endStream sid sc) else Inr (None, sc)))"

definition processGoAway :: "serve_env \<Rightarrow> processing" where
  "processGoAway env sc = succeeds (rbind (goAway (scheduleFrameWrite env) http2ErrCodeNo sc) (\<lambda>sc. Inr (sc\<lparr>pushEnabled := False\<rparr>)))"

definition http2checkPriority :: "32 word \<Rightarrow> http2PriorityParam \<Rightarrow> http2_error option" where
  "http2checkPriority sid p = (if sid = StreamDep p then Some (http2streamError sid http2ErrCodeProtocol) else None)"

definition processPriority :: "http2FrameHeader \<Rightarrow> http2PriorityParam \<Rightarrow> processing" where
  \<comment> \<open>the random scheduler does nothing for \<open>AdjustStream\<close>\<close>
  "processPriority fh p sc = (if inGoAway sc then Inr (None, sc) else Inr (http2checkPriority (fh_StreamID fh) p, sc))"

fun add_trailers :: "HeaderField list \<Rightarrow> Headers.Header \<Rightarrow> bool \<times> Headers.Header" where
  \<comment> \<open>the fields up to the first that is not allowed\<close>
  "add_trailers [] t = (True, t)"
| "add_trailers (hf # hfs) t =
     (let key = canonicalHeader (chars_of (Name hf)) in
      if \<not> ValidTrailerHeader key then (False, t) else add_trailers hfs (AList.update key (field_values t key @ [chars_of (Value hf)]) t))"

definition processTrailerHeaders :: "http2FrameHeader \<Rightarrow> HeaderField list \<Rightarrow> processing" where
  "processTrailerHeaders fh hfs sc =
     (let sid = fh_StreamID fh in
      if st_gotTrailerHeader (objs sc sid) then fails (http2ConnectionError http2ErrCodeProtocol) sc
      else
        let sc = upd_stream sid (st_gotTrailerHeader_update (\<lambda>_. True)) sc in
        if \<not> Has (fh_Flags fh) http2FlagHeadersEndStream \<or> PseudoFields hfs \<noteq> [] then fails (http2streamError sid http2ErrCodeProtocol) sc
        else
          (case st_trailer (objs sc sid) of
             None \<Rightarrow> succeeds (endStream sid sc)
           | Some t \<Rightarrow>
               (case add_trailers (RegularFields hfs) t of
                  (ok, t) \<Rightarrow>
                    let sc = upd_stream sid (st_trailer_update (\<lambda>_. Some t)) sc in
                    if \<not> ok then fails (http2streamError sid http2ErrCodeProtocol) sc else succeeds (endStream sid sc))))"

definition attach_request :: "32 word \<Rightarrow> h2request \<Rightarrow> bool \<Rightarrow> http2serverConn \<Rightarrow> http2serverConn" where
  \<comment> \<open>the end of \<open>processHeaders\<close>\<close>
  "attach_request sid req truncated sc =
     (let handler = (if truncated then HeaderListTooLong
                     else case http2checkValidHTTP2RequestHeaders (rq_Header req) of Some err \<Rightarrow> Handler400 err | None \<Rightarrow> ServeHTTP) in
      (upd_stream sid (\<lambda>st. st\<lparr>st_reqTrailer := rq_Trailer req, st_trailer := map_option (\<lambda>_. []) (rq_Trailer req),
         st_body := (if rq_pipe req then Some (new_pipe (empty_buffer\<lparr>db_expected := rq_ContentLength req\<rparr>)) else None),
         st_declBodyBytes := rq_ContentLength req\<rparr>) sc)
      \<lparr>handlers := handlers sc @ [(sid, req, handler)]\<rparr>)"

definition open_stream :: "serve_env \<Rightarrow> http2FrameHeader \<Rightarrow> http2PriorityParam \<Rightarrow> HeaderField list \<Rightarrow> bool \<Rightarrow> processing" where
  \<comment> \<open>\<open>processHeaders\<close> from \<open>newStream\<close> on\<close>
  "open_stream env fh prio hfs truncated sc =
     (let sid = fh_StreamID fh; ended = Has (fh_Flags fh) http2FlagHeadersEndStream in
      rbind (newStream env sid (if ended then StateHalfClosedRemote else StateOpen) sc) (\<lambda>sc.
        case (if Has (fh_Flags fh) http2FlagHeadersPriority then http2checkPriority sid prio else None) of
          Some err \<Rightarrow> fails err sc
        | None \<Rightarrow>
            (case newWriterAndRequest sid ended hfs of
               Inl err \<Rightarrow> fails err sc
             | Inr req \<Rightarrow> Inr (None, attach_request sid req truncated sc))))"

definition processHeaders :: "serve_env \<Rightarrow> http2FrameHeader \<Rightarrow> http2PriorityParam \<Rightarrow> HeaderField list \<Rightarrow> bool \<Rightarrow> processing" where
  "processHeaders env fh prio hfs truncated sc =
     (let sid = fh_StreamID fh in
      if inGoAway sc then Inr (None, sc)
      else if sid mod 2 \<noteq> 1 then fails (http2ConnectionError http2ErrCodeProtocol) sc
      else if sid \<in> streams sc then
        if st_resetQueued (objs sc sid) then Inr (None, sc)
        else if st_state (objs sc sid) = StateHalfClosedRemote then fails (http2streamError sid http2ErrCodeStreamClosed) sc
        else processTrailerHeaders fh hfs sc
      else if sid \<le> maxClientStreamID sc then fails (http2ConnectionError http2ErrCodeProtocol) sc
      else
        let sc = sc\<lparr>maxClientStreamID := sid\<rparr> in
        if advMaxStreams sc < curClientStreams sc + 1 then
          fails (http2streamError sid (if unackedSettings sc = 0 then http2ErrCodeProtocol else http2ErrCodeRefusedStream)) sc
        else open_stream env fh prio hfs truncated sc)"

definition processFrame :: "serve_env \<Rightarrow> http2Frame \<Rightarrow> processing" where
  "processFrame env f sc =
     (if \<not> sawFirstSettings sc \<and> \<not> (case f of http2SettingsFrame _ _ \<Rightarrow> True | _ \<Rightarrow> False) then fails (http2ConnectionError http2ErrCodeProtocol) sc
      else
        let sc = sc\<lparr>sawFirstSettings := True\<rparr> in
        (case f of
           http2SettingsFrame fh p \<Rightarrow> processSettings env fh p sc
         | http2MetaHeadersFrame fh prio hfs truncated \<Rightarrow> processHeaders env fh prio hfs truncated sc
         | http2WindowUpdateFrame fh increment \<Rightarrow> processWindowUpdate env fh increment sc
         | http2PingFrame fh data \<Rightarrow> processPing env fh data sc
         | http2DataFrame fh data \<Rightarrow> processData env fh data sc
         | http2RSTStreamFrame fh code \<Rightarrow> processResetStream env fh code sc
         | http2PriorityFrame fh p \<Rightarrow> processPriority fh p sc
         | http2GoAwayFrame _ _ _ _ \<Rightarrow> processGoAway env sc
         | http2PushPromiseFrame _ _ _ \<Rightarrow> fails (http2ConnectionError http2ErrCodeProtocol) sc
         | _ \<Rightarrow> Inr (None, sc)))"

definition handle_error :: "serve_env \<Rightarrow> http2_error \<Rightarrow> http2serverConn \<Rightarrow> string + bool \<times> http2serverConn" where
  \<comment> \<open>the type switch of \<open>processFrameFromReader\<close>\<close>
  "handle_error env err sc =
     (case err of
        http2StreamError sid code _ \<Rightarrow> rbind (resetStream (scheduleFrameWrite env) sid code sc) (\<lambda>sc. Inr (True, sc))
      | http2goAwayFlowError \<Rightarrow> rbind (goAway (scheduleFrameWrite env) http2ErrCodeFlowControl sc) (\<lambda>sc. Inr (True, sc))
      | http2ConnectionError code \<Rightarrow> rbind (goAway (scheduleFrameWrite env) code sc) (\<lambda>sc. Inr (True, sc))
      | H2Panic \<Rightarrow> Inl ''panic''
      | _ \<Rightarrow> Inr (False, sc))"

definition processFrameFromReader :: "serve_env \<Rightarrow> http2_error + http2Frame \<Rightarrow> http2serverConn \<Rightarrow> string + bool \<times> http2serverConn" where
  "processFrameFromReader env res sc =
     (case res of
        Inl http2ErrFrameTooLarge \<Rightarrow> rbind (goAway (scheduleFrameWrite env) http2ErrCodeFrameSize sc) (\<lambda>sc. Inr (True, sc))
      | Inl err \<Rightarrow> handle_error env err sc
      | Inr f \<Rightarrow>
          rbind (processFrame env f sc) (\<lambda>(err, sc).
            case err of None \<Rightarrow> Inr (True, sc) | Some e \<Rightarrow> handle_error env e sc))"

definition noteBodyRead :: "serve_env \<Rightarrow> 32 word \<Rightarrow> int \<Rightarrow> serve_action" where
  "noteBodyRead env s n sc =
     rbind (sendWindowUpdate (scheduleFrameWrite env) None n sc) (\<lambda>sc.
       if st_state (objs sc s) \<noteq> StateHalfClosedRemote \<and> st_state (objs sc s) \<noteq> StateClosed
       then sendWindowUpdate (scheduleFrameWrite env) (Some s) n sc
       else Inr sc)"

section \<open>The serve loop\<close>

definition new_serverConn :: "http2Server \<Rightarrow> http2serverConn" where
  \<comment> \<open>as \<open>ServeConn\<close> sets it up\<close>
  "new_serverConn srv =
     \<lparr>pushEnabled = True, sawFirstSettings = False, needToSendSettingsAck = False, unackedSettings = 0, clientMaxStreams = 0xffffffff,
      advMaxStreams = maxConcurrentStreams srv, curClientStreams = 0, curPushedStreams = 0, maxClientStreamID = 0, maxPushPromiseID = 0,
      streams = {}, objs = (\<lambda>_. zero_stream), sc_flow = \<lparr>conn_n = http2initialWindowSize, stream_n = (\<lambda>_. 0)\<rparr>,
      sc_inflow = \<lparr>conn_n = http2initialWindowSize, stream_n = (\<lambda>_. 0)\<rparr>, initialStreamSendWindowSize = http2initialWindowSize,
      sc_maxFrameSize = 16384, headerTableSize = 4096, tableSizes = [], peerMaxHeaderListSize = 0, writingFrame = False,
      writingFrameAsync = False, needsFrameFlush = False, inGoAway = False, inFrameScheduleLoop = False, needToSendGoAway = False,
      goAwayCode = 0, writeSched = \<lparr>ws_zero = [], ws_sq = Map.empty\<rparr>, writing = None, written = [], replies = [], handlers = [], sc_clock = 0\<rparr>"

definition serve_start :: "serve_env \<Rightarrow> string + http2serverConn" where
  \<comment> \<open>\<open>serve\<close> up to the reading of the preface\<close>
  "serve_start env =
     rbind (writeFrame (scheduleFrameWrite env)
         (conn_request (writeSettings
           [\<lparr>s_ID = http2SettingMaxFrameSize, s_Val = maxReadFrameSize (e_srv env)\<rparr>,
            \<lparr>s_ID = http2SettingMaxConcurrentStreams, s_Val = maxConcurrentStreams (e_srv env)\<rparr>,
            \<lparr>s_ID = http2SettingMaxHeaderListSize, s_Val = sc_maxHeaderListSize (e_srv env)\<rparr>,
            \<lparr>s_ID = http2SettingInitialWindowSize, s_Val = initialStreamRecvWindowSize (e_srv env)\<rparr>]))
         (new_serverConn (e_srv env))) (\<lambda>sc.
       let sc = sc\<lparr>unackedSettings := unackedSettings sc + 1\<rparr>;
           diff = initialConnRecvWindowSize (e_srv env) - http2initialWindowSize in
       if 0 < sint diff then sendWindowUpdate (scheduleFrameWrite env) None (sint diff) sc else Inr sc)"

datatype serve_event =
    EvFrame "http2_error + http2Frame"         \<comment> \<open>from \<open>readFrameCh\<close>\<close>
  | EvWant http2FrameWriteRequest              \<comment> \<open>from \<open>wantWriteFrameCh\<close>\<close>
  | EvWrote "http2_error option"               \<comment> \<open>from \<open>wroteFrameCh\<close>\<close>
  | EvBodyRead nat                             \<comment> \<open>from \<open>bodyReadCh\<close>: which of the messages that wait\<close>
  | EvIdleTimer | EvGracefulShutdown | EvSettingsTimer | EvShutdownTimer
  | EvHandlerRead "32 word" nat                \<comment> \<open>a handler reads from the body of its request, into a slice of the length given\<close>
  | EvHandlerClose "32 word"                   \<comment> \<open>a handler closes the body of its request\<close>

record serve_run =
  r_sc :: http2serverConn
  r_open :: bool                               \<comment> \<open>the loop has not returned\<close>
  r_reads :: "(32 word \<times> nat) list"            \<comment> \<open>messages for \<open>bodyReadCh\<close>\<close>
  r_late :: nat                                \<comment> \<open>octets that handlers read from the bodies of closed streams\<close>

definition requestBody_Read :: "32 word \<Rightarrow> nat \<Rightarrow> serve_run \<Rightarrow> string + serve_run" where
  \<comment> \<open>on the goroutine of the handler; a read that would wait is no step\<close>
  "requestBody_Read s n r =
     (let sc = r_sc r in
      case st_body (objs sc s) of
        None \<Rightarrow> Inr r
      | Some p \<Rightarrow>
          (case pipe_Read dataBuffer_Len dataBuffer_Read n p of
             (PipePanic, p) \<Rightarrow> Inl ''panic in the handler''
           | (Waits, p) \<Rightarrow> Inr r
           | (Got (Inr d), p') \<Rightarrow>
               Inr (r\<lparr>r_sc := upd_stream s (st_body_update (\<lambda>_. Some p')) sc,
                      r_reads := r_reads r @ (if d = [] then [] else [(s, length d)]),
                      r_late := r_late r + (if s \<in> streams sc then 0 else length d)\<rparr>)
           | (Got (Inl e), p') \<Rightarrow>
               Inr (r\<lparr>r_sc := upd_stream s (\<lambda>st. (if p_ran p' \<noteq> p_ran p then copyTrailersToHandlerRequest st else st)\<lparr>st_body := Some p'\<rparr>) sc\<rparr>)))"

definition requestBody_Close :: "32 word \<Rightarrow> serve_run \<Rightarrow> serve_run" where
  "requestBody_Close s r =
     r\<lparr>r_sc := upd_stream s (st_body_update (map_option (pipe_BreakWithError (PipeError ''body closed by handler'')))) (r_sc r)\<rparr>"

definition on_sc :: "serve_action \<Rightarrow> serve_run \<Rightarrow> string + serve_run" where
  "on_sc f r = rbind (f (r_sc r)) (\<lambda>sc. Inr (r\<lparr>r_sc := sc\<rparr>))"

definition from_handler :: "http2serverConn \<Rightarrow> http2FrameWriteRequest \<Rightarrow> bool" where
  \<comment> \<open>a handler writes on its own stream; \<open>onWriteTimeout\<close> asks for a reset and names no stream\<close>
  "from_handler sc wr \<longleftrightarrow>
     (case wr_stream wr of
        None \<Rightarrow> (case wr_write wr of writeStreamError _ _ \<Rightarrow> True | _ \<Rightarrow> False)
      | Some s \<Rightarrow> s \<in> set (map fst (handlers sc)))"

definition serve_step :: "serve_env \<Rightarrow> serve_event \<Rightarrow> serve_run \<Rightarrow> string + serve_run" where
  \<comment> \<open>one round of the loop of \<open>serve\<close>, or a step of a handler; an event that cannot happen changes nothing\<close>
  "serve_step env ev r =
     (if \<not> r_open r then Inr r
      else
        let sched = scheduleFrameWrite env in
        (case ev of
           EvWant wr \<Rightarrow>
             if \<not> from_handler (r_sc r) wr then Inr r
             else
             (case wr_write wr of
                writeStreamError sid code \<Rightarrow> on_sc (resetStream sched sid code) r
              | _ \<Rightarrow> on_sc (writeFrame sched wr) r)
         | EvWrote err \<Rightarrow> (case writing (r_sc r) of None \<Rightarrow> Inr r | Some wr \<Rightarrow> on_sc (wroteFrame env sched wr err) r)
         | EvFrame res \<Rightarrow> rbind (processFrameFromReader env res (r_sc r)) (\<lambda>(continue, sc). Inr (r\<lparr>r_sc := sc, r_open := continue\<rparr>))
         | EvBodyRead i \<Rightarrow>
             if i < length (r_reads r) then
               (case r_reads r ! i of
                  (s, n) \<Rightarrow> on_sc (noteBodyRead env s (int n)) (r\<lparr>r_reads := take i (r_reads r) @ drop (Suc i) (r_reads r)\<rparr>))
             else Inr r
         | EvIdleTimer \<Rightarrow> on_sc (goAway sched http2ErrCodeNo) r
         | EvGracefulShutdown \<Rightarrow> on_sc (goAway sched http2ErrCodeNo) r
         | EvSettingsTimer \<Rightarrow> Inr (r\<lparr>r_open := False\<rparr>)
         | EvShutdownTimer \<Rightarrow> Inr (r\<lparr>r_open := False\<rparr>)
         | EvHandlerRead s n \<Rightarrow> if s \<in> set (map fst (handlers (r_sc r))) then requestBody_Read s n r else Inr r
         | EvHandlerClose s \<Rightarrow> if s \<in> set (map fst (handlers (r_sc r))) then Inr (requestBody_Close s r) else Inr r))"

primrec serve_steps :: "serve_env \<Rightarrow> serve_event list \<Rightarrow> serve_run \<Rightarrow> string + serve_run" where
  "serve_steps env [] r = Inr r"
| "serve_steps env (ev # evs) r = rbind (serve_step env ev r) (serve_steps env evs)"

definition serve :: "serve_env \<Rightarrow> serve_event list \<Rightarrow> string + serve_run" where
  "serve env evs = rbind (serve_start env) (\<lambda>sc. serve_steps env evs \<lparr>r_sc = sc, r_open = True, r_reads = [], r_late = 0\<rparr>)"

end
