(* ===== verification/H2ConnInv.thy ===== *)
theory H2ConnInv
  imports H2Conn
begin

text \<open>
  What holds of a server connection as long as it does not panic: the table of streams is consistent, the windows it grants
  are accounted for, and it sends no more than its peer allows.
\<close>

section \<open>The invariant\<close>

definition unread :: "http2serverConn \<Rightarrow> 32 word \<Rightarrow> nat" where
  "unread sc s = (case st_body (objs sc s) of None \<Rightarrow> 0 | Some p \<Rightarrow> pipe_Len dataBuffer_Len p)"

definition live_states :: "http2streamState set" where
  "live_states = {StateOpen, StateHalfClosedLocal, StateHalfClosedRemote}"

definition stream_table_ok :: "32 word set \<Rightarrow> http2serverConn \<Rightarrow> bool" where
  \<comment> \<open>the set are streams that are being closed\<close>
  "stream_table_ok X sc \<longleftrightarrow>
     (\<forall>s \<in> streams sc. s mod 2 = 1 \<and> s \<le> maxClientStreamID sc \<and> st_state (objs sc s) \<in> live_states) \<and>
     (\<forall>s \<in> X. s \<notin> streams sc \<and> st_state (objs sc s) = StateClosed) \<and>
     (\<forall>s. st_state (objs sc s) \<noteq> StateIdle \<longrightarrow> s mod 2 = 1 \<and> s \<le> maxClientStreamID sc) \<and>
     unat (curClientStreams sc) = card (streams sc) \<and> curClientStreams sc \<le> advMaxStreams sc \<and>
     (\<forall>h \<in> set (handlers sc). fst h mod 2 = 1 \<and> fst h \<le> maxClientStreamID sc)"

definition queued_streams :: "http2randomWriteScheduler \<Rightarrow> 32 word option set" where
  "queued_streams ws = {x. \<exists>s q. ws_sq ws s = Some q \<and> x \<in> wr_stream ` set q}"

definition queue_ok :: "32 word set \<Rightarrow> http2serverConn \<Rightarrow> bool" where
  "queue_ok X sc \<longleftrightarrow> ws_ok (writeSched sc) \<and> (\<forall>wr \<in> set (ws_zero (writeSched sc)). wr_stream wr = None) \<and>
     (\<forall>t. Some t \<in> queued_streams (writeSched sc) \<longrightarrow> t \<in> streams sc \<or> t \<in> X) \<and>
     (\<forall>wr s. writing sc = Some wr \<longrightarrow> wr_stream wr = Some s \<longrightarrow> s \<in> streams sc \<or> st_state (objs sc s) = StateClosed) \<and>
     (writing sc \<noteq> None \<longrightarrow> writingFrame sc)"

definition recv_ok :: "int \<Rightarrow> int \<Rightarrow> http2serverConn \<Rightarrow> bool" where
  \<comment> \<open>the first number is owed to the window of the connection\<close>
  "recv_ok k L sc \<longleftrightarrow> 0 \<le> sint (conn_n (sc_inflow sc)) \<and> sint (conn_n (sc_inflow sc)) + (\<Sum>s \<in> streams sc. int (unread sc s)) + k \<le> L"

definition send_ok :: "int \<Rightarrow> http2serverConn \<Rightarrow> bool" where
  "send_ok c sc \<longleftrightarrow> sint (conn_n (sc_flow sc)) \<le> c - charged (written sc) \<and> 0 \<le> sint (conn_n (sc_flow sc))"

definition body_ok :: "http2dataBuffer http2pipe option \<Rightarrow> bool" where
  "body_ok b \<longleftrightarrow> (case b of None \<Rightarrow> True | Some p \<Rightarrow> (case p_b p of None \<Rightarrow> p_err p \<noteq> None \<or> p_breakErr p \<noteq> None | Some d \<Rightarrow> db_ok d))"

definition conn_ok :: "32 word set \<Rightarrow> int \<Rightarrow> int \<Rightarrow> int \<Rightarrow> http2serverConn \<Rightarrow> bool" where
  "conn_ok X k L c sc \<longleftrightarrow> stream_table_ok X sc \<and> queue_ok X sc \<and> recv_ok k L sc \<and> send_ok c sc \<and> (\<forall>s. body_ok (st_body (objs sc s)))"

definition settled :: "http2serverConn \<Rightarrow> bool" where
  \<comment> \<open>the stream of the frame that is being written is live\<close>
  "settled sc \<longleftrightarrow> (\<forall>wr s. writing sc = Some wr \<longrightarrow> wr_stream wr = Some s \<longrightarrow> s \<in> streams sc)"

definition keeps :: "http2serverConn \<Rightarrow> http2serverConn \<Rightarrow> bool" where
  "keeps sc sc' \<longleftrightarrow> maxClientStreamID sc' = maxClientStreamID sc \<and> handlers sc' = handlers sc \<and> advMaxStreams sc' = advMaxStreams sc \<and>
     (\<forall>s. unread sc' s = unread sc s)"

definition undisturbed :: "http2serverConn \<Rightarrow> http2serverConn \<Rightarrow> bool" where
  "undisturbed sc sc' \<longleftrightarrow> streams sc' = streams sc \<and> writing sc' = writing sc \<or> settled sc'"

lemma keeps_refl [simp, intro]: "keeps sc sc"
  by (simp add: keeps_def)

lemma keeps_trans [trans]: "keeps a b \<Longrightarrow> keeps b c \<Longrightarrow> keeps a c"
  by (simp add: keeps_def)

lemma undisturbed_refl [simp, intro]: "undisturbed sc sc"
  by (simp add: undisturbed_def)

lemma undisturbed_trans [trans]: "undisturbed a b \<Longrightarrow> undisturbed b c \<Longrightarrow> undisturbed a c"
  by (auto simp: undisturbed_def settled_def)

lemma chain:
  assumes "keeps a b \<and> undisturbed a b" "P \<and> keeps b d \<and> undisturbed b d"
  shows "P \<and> keeps a d \<and> undisturbed a d"
  using assms keeps_trans [of a b d] undisturbed_trans [of a b d] by simp

lemma undisturbed_settled: "undisturbed a b \<Longrightarrow> settled a \<Longrightarrow> settled b"
  by (auto simp: undisturbed_def settled_def)

lemma upd_stream_sel [simp]:
  "streams (upd_stream s f sc) = streams sc" "writing (upd_stream s f sc) = writing sc" "writeSched (upd_stream s f sc) = writeSched sc"
  "maxClientStreamID (upd_stream s f sc) = maxClientStreamID sc" "handlers (upd_stream s f sc) = handlers sc"
  "curClientStreams (upd_stream s f sc) = curClientStreams sc" "advMaxStreams (upd_stream s f sc) = advMaxStreams sc"
  "sc_flow (upd_stream s f sc) = sc_flow sc" "sc_inflow (upd_stream s f sc) = sc_inflow sc" "written (upd_stream s f sc) = written sc"
  "writingFrame (upd_stream s f sc) = writingFrame sc" "objs (upd_stream s f sc) t = (if t = s then f (objs sc s) else objs sc t)"
  by (simp_all add: upd_stream_def)

definition same_core :: "http2serverConn \<Rightarrow> http2serverConn \<Rightarrow> bool" where
  \<comment> \<open>they differ in bookkeeping that the invariant does not see\<close>
  "same_core sc sc' \<longleftrightarrow> streams sc' = streams sc \<and> objs sc' = objs sc \<and> maxClientStreamID sc' = maxClientStreamID sc \<and> handlers sc' = handlers sc \<and>
     curClientStreams sc' = curClientStreams sc \<and> advMaxStreams sc' = advMaxStreams sc \<and> writeSched sc' = writeSched sc \<and>
     writing sc' = writing sc \<and> writingFrame sc' = writingFrame sc \<and> sc_inflow sc' = sc_inflow sc \<and> sc_flow sc' = sc_flow sc \<and> written sc' = written sc"

lemma same_core_ok:
  assumes "same_core sc sc'"
  shows "conn_ok X k L c sc' = conn_ok X k L c sc" "keeps sc sc'" "undisturbed sc sc'" "settled sc' = settled sc"
  using assms by (simp_all add: same_core_def conn_ok_def stream_table_ok_def queue_ok_def recv_ok_def send_ok_def unread_def keeps_def undisturbed_def settled_def)

lemma conn_ok_upd:
  \<comment> \<open>a change of a stream that keeps its state, or moves it between the states of a live stream, and keeps what is buffered\<close>
  assumes "conn_ok X k L c sc" "pipe_Len_of (st_body (f (objs sc s))) = pipe_Len_of (st_body (objs sc s))" "body_ok (st_body (f (objs sc s)))"
    "st_state (f (objs sc s)) = st_state (objs sc s) \<or> s \<in> streams sc \<and> st_state (f (objs sc s)) \<in> live_states"
    "pipe_Len_of = case_option 0 (pipe_Len dataBuffer_Len)"
  shows "conn_ok X k L c (upd_stream s f sc)" "keeps sc (upd_stream s f sc)" "undisturbed sc (upd_stream s f sc)"
proof -
  have u: "unread (upd_stream s f sc) t = unread sc t" for t using assms(2,5) by (simp add: unread_def)
  show "conn_ok X k L c (upd_stream s f sc)" unfolding conn_ok_def
  proof (intro conjI)
    show "stream_table_ok X (upd_stream s f sc)" using assms(1,4) by (auto simp: conn_ok_def stream_table_ok_def)
    show "queue_ok X (upd_stream s f sc)" using assms(1,4) by (auto simp: conn_ok_def queue_ok_def)
    show "recv_ok k L (upd_stream s f sc)" using assms(1) u by (simp add: conn_ok_def recv_ok_def)
    show "send_ok c (upd_stream s f sc)" using assms(1) by (simp add: conn_ok_def send_ok_def)
    show "\<forall>t. body_ok (st_body (objs (upd_stream s f sc) t))" using assms(1,3) by (simp add: conn_ok_def)
  qed
  show "keeps sc (upd_stream s f sc)" "undisturbed sc (upd_stream s f sc)" using u by (simp_all add: keeps_def undisturbed_def)
qed

section \<open>Writing, whatever the scheduling\<close>

lemma queued_streams_Push: "queued_streams (ws_Push wr ws) \<subseteq> insert (wr_stream wr) (queued_streams ws)"
proof
  fix x assume "x \<in> queued_streams (ws_Push wr ws)"
  then obtain s q where x: "ws_sq (ws_Push wr ws) s = Some q" "x \<in> wr_stream ` set q" unfolding queued_streams_def by auto
  show "x \<in> insert (wr_stream wr) (queued_streams ws)"
  proof (cases "ws_sq ws s = Some q")
    case True
    then show ?thesis using x unfolding queued_streams_def by blast
  next
    case False
    then have "q = (case ws_sq ws s of Some q \<Rightarrow> q | None \<Rightarrow> []) @ [wr]" using x(1) by (auto simp: ws_Push_def Let_def split: if_splits)
    then show ?thesis using x(2) unfolding queued_streams_def by (cases "ws_sq ws s") auto
  qed
qed

lemma queued_streams_CloseStream:
  assumes "ws_ok ws"
  shows "queued_streams (ws_CloseStream s ws) \<subseteq> queued_streams ws - {Some s}"
proof
  fix x assume "x \<in> queued_streams (ws_CloseStream s ws)"
  then obtain v q wr where x: "ws_sq ws v = Some q" "v \<noteq> s" "wr \<in> set q" "x = wr_stream wr"
    unfolding queued_streams_def ws_CloseStream_def by (auto split: if_splits)
  then have "wr_StreamID wr = v" using assms by (auto simp: ws_ok_def)
  then have "x \<noteq> Some s" using x(2,4) by (auto simp: wr_StreamID_def)
  then show "x \<in> queued_streams ws - {Some s}" using x unfolding queued_streams_def by blast
qed

lemma push_ok:
  assumes "conn_ok X k L c sc" "\<And>s. wr_stream wr = Some s \<Longrightarrow> s \<in> streams sc"
  shows "conn_ok X k L c (sc\<lparr>writeSched := ws_Push wr (writeSched sc)\<rparr>)" (is "conn_ok X k L c ?sc")
proof -
  have "queued_streams (ws_Push wr (writeSched sc)) \<subseteq> insert (wr_stream wr) (queued_streams (writeSched sc))"
    by (rule queued_streams_Push)
  then have "t \<in> streams sc \<or> t \<in> X" if "Some t \<in> queued_streams (ws_Push wr (writeSched sc))" for t
    using that assms by (auto simp: conn_ok_def queue_ok_def)
  moreover have "wr_StreamID wr \<noteq> 0" if h: "wr_stream wr \<noteq> None"
  proof -
    obtain s where s: "wr_stream wr = Some s" using h by blast
    then have "s \<in> streams sc" by (rule assms(2))
    then have "s mod 2 = 1" using assms(1) by (simp add: conn_ok_def stream_table_ok_def)
    then have "s \<noteq> 0" by auto
    then show ?thesis using s by (simp add: wr_StreamID_def)
  qed
  then have "wr_StreamID wr = 0 \<longrightarrow> wr_stream wr = None" by blast
  then have "\<forall>wr' \<in> set (ws_zero (ws_Push wr (writeSched sc))). wr_stream wr' = None"
    using assms(1) by (auto simp: ws_Push_def Let_def conn_ok_def queue_ok_def)
  ultimately have "queue_ok X ?sc" using assms(1) ws_Push_ok by (simp add: conn_ok_def queue_ok_def)
  then show ?thesis using assms(1) by (simp add: conn_ok_def stream_table_ok_def recv_ok_def send_ok_def unread_def)
qed

definition created :: "http2serverConn \<Rightarrow> 32 word \<Rightarrow> bool" where
  "created sc s \<longleftrightarrow> s mod 2 = 1 \<and> s \<le> maxClientStreamID sc"

lemma created_keeps: "keeps sc sc' \<Longrightarrow> created sc' s = created sc s"
  by (simp add: keeps_def created_def)

lemma live_created: "conn_ok X k L c sc \<Longrightarrow> s \<in> streams sc \<Longrightarrow> created sc s"
  by (simp add: conn_ok_def stream_table_ok_def created_def)

lemma sint_maxUint31: "sint (word_of_int maxUint31 :: 32 word) = maxUint31"
  by (simp add: maxUint31_def)

lemma inflow_add_exact:
  assumes "fst (inflow_add st n f)"
  shows "sint (conn_n (snd (inflow_add st n f))) = sint (conn_n f) + (if st = None then sint n else 0)"
  using assms window_add_exact(2) [of "conn_n f" n]
  by (cases st) (auto simp: inflow_add_def conn_add_def flow_add_def split: prod.splits)

lemma ignore_write_facts:
  assumes "ignore_write wr sc = Inr (ig, sc1)"
  shows "sc1 = sc \<or> (\<exists>s. wr_stream wr = Some s \<and> sc1 = upd_stream s (st_wroteHeaders_update (\<lambda>_. True)) sc)"
    "wr_StreamID wr \<noteq> 0 \<and> state_of sc (wr_StreamID wr) = StateClosed \<and> \<not> (\<exists>sid code. wr_write wr = writeStreamError sid code) \<longrightarrow> ig"
  using assms by (auto simp: ignore_write_def Let_def split: write_framer.splits option.splits if_splits)

lemma forget_stream_eq:
  "s mod 2 = 1 \<Longrightarrow> forget_stream s sc = (upd_stream s (st_state_update (\<lambda>_. StateClosed)) sc)
     \<lparr>curClientStreams := curClientStreams sc - 1, streams := streams sc - {s}\<rparr>"
  by (simp add: forget_stream_def isPushed_def)

lemma forget_stream_ok:
  assumes "conn_ok X k L c sc" "s \<in> streams sc"
  shows "conn_ok (insert s X) (k + int (unread sc s)) L c (forget_stream s sc)" "keeps sc (forget_stream s sc)"
proof -
  let ?sc = "forget_stream s sc"
  have odd: "s mod 2 = 1" using assms by (auto simp: conn_ok_def stream_table_ok_def)
  note e = forget_stream_eq [OF odd] and d = forget_stream_eq [OF odd] conn_ok_def
  have u: "unread ?sc t = unread sc t" for t by (simp add: unread_def e)
  have o: "st_body (objs ?sc t) = st_body (objs sc t)" "st_state (objs ?sc t) = (if t = s then StateClosed else st_state (objs sc t))" for t
    by (simp_all add: e)
  have n: "0 < card (streams sc)" using assms(2) by (auto simp: card_gt_0_iff)
  have t: "stream_table_ok X sc" using assms(1) by (simp add: conn_ok_def)
  with n have "curClientStreams sc \<noteq> 0" by (auto simp: stream_table_ok_def)
  then have w: "unat (curClientStreams sc - 1) = unat (curClientStreams sc) - 1" "curClientStreams sc - 1 \<le> curClientStreams sc"
    by (simp_all add: unat_minus_one word_le_nat_alt)
  have "curClientStreams sc - 1 \<le> advMaxStreams sc" using t w(2) by (auto simp: stream_table_ok_def)
  moreover have "unat (curClientStreams sc - 1) = card (streams sc - {s})" using t w(1) assms(2) by (simp add: stream_table_ok_def)
  ultimately have "stream_table_ok (insert s X) ?sc" using t assms(2) unfolding stream_table_ok_def by (simp add: e)
  moreover have "queue_ok (insert s X) ?sc" using assms(1) unfolding conn_ok_def queue_ok_def by (auto simp: e)
  moreover have "recv_ok (k + int (unread sc s)) L ?sc"
    using assms by (simp add: conn_ok_def recv_ok_def u sum_diff1) (simp add: e sum_diff1)
  moreover have "send_ok c ?sc" "\<forall>t. body_ok (st_body (objs ?sc t))" using assms(1) by (simp_all add: d send_ok_def)
  ultimately show "conn_ok (insert s X) (k + int (unread sc s)) L c ?sc" by (simp add: conn_ok_def)
  show "keeps sc ?sc" using u by (simp add: keeps_def e)
qed

lemma unqueue_ok:
  assumes "conn_ok (insert s X) k L c sc" "s \<notin> X"
  shows "conn_ok X k L c (sc\<lparr>writeSched := ws_CloseStream s (writeSched sc)\<rparr>)"
proof -
  have "queue_ok X (sc\<lparr>writeSched := ws_CloseStream s (writeSched sc)\<rparr>)"
  proof -
    have ok: "ws_ok (writeSched sc)" using assms(1) by (simp add: conn_ok_def queue_ok_def)
    have "t \<in> streams sc \<or> t \<in> X" if "Some t \<in> queued_streams (ws_CloseStream s (writeSched sc))" for t
      using queued_streams_CloseStream [OF ok, of s] that assms(1) by (auto simp: conn_ok_def queue_ok_def)
    moreover have "ws_zero (ws_CloseStream s (writeSched sc)) = ws_zero (writeSched sc)" by (simp add: ws_CloseStream_def)
    moreover have "ws_ok (ws_CloseStream s (writeSched sc))" using ok by (auto simp: ws_ok_def ws_CloseStream_def)
    ultimately show ?thesis using assms(1) by (simp add: conn_ok_def queue_ok_def)
  qed
  then show ?thesis using assms by (auto simp: conn_ok_def stream_table_ok_def recv_ok_def send_ok_def unread_def)
qed

lemma pipe_Len_closed: "pipe_Len f (pipe_CloseWithError e fn p) = pipe_Len f p"
  by (simp add: pipe_Len_def pipe_CloseWithError_def)

lemma body_ok_closed: "body_ok b \<Longrightarrow> body_ok (map_option (pipe_CloseWithError e fn) b)"
  by (auto simp: body_ok_def pipe_CloseWithError_def split: option.splits)

lemma close_body_ok:
  assumes "conn_ok X k L c sc"
  shows "conn_ok X k L c (close_body s e fn sc) \<and> keeps sc (close_body s e fn sc) \<and> undisturbed sc (close_body s e fn sc)"
  using conn_ok_upd [OF assms _ _ _ refl, where f = "st_body_update (map_option (pipe_CloseWithError e fn))" and s = s] assms
  by (auto simp: close_body_def pipe_Len_closed body_ok_closed conn_ok_def split: option.splits)

locale good_schedule =
  fixes sched :: serve_action
  assumes sched_ok: "conn_ok X k L c sc \<Longrightarrow> sched sc = Inr sc' \<Longrightarrow> conn_ok X k L c sc' \<and> keeps sc sc' \<and> undisturbed sc sc'"
begin

lemma writeFrame_ok:
  assumes "conn_ok X k L c sc" "writeFrame sched wr sc = Inr sc'"
    "\<And>s. wr_stream wr = Some s \<Longrightarrow> created sc s \<and> \<not> (\<exists>sid code. wr_write wr = writeStreamError sid code)"
  shows "conn_ok X k L c sc' \<and> keeps sc sc' \<and> undisturbed sc sc'"
proof -
  obtain sc1 ig where r: "sched (if ig then sc1 else sc1\<lparr>writeSched := ws_Push wr (writeSched sc1)\<rparr>) = Inr sc'"
    "sc1 = sc \<or> (\<exists>s. wr_stream wr = Some s \<and> sc1 = upd_stream s (st_wroteHeaders_update (\<lambda>_. True)) sc)"
    "wr_StreamID wr \<noteq> 0 \<and> state_of sc (wr_StreamID wr) = StateClosed \<and> \<not> (\<exists>sid code. wr_write wr = writeStreamError sid code) \<longrightarrow> ig"
    using assms(2) ignore_write_facts by (auto simp: writeFrame_def split: sum.splits) metis
  have sc1: "conn_ok X k L c sc1 \<and> keeps sc sc1 \<and> undisturbed sc sc1 \<and> streams sc1 = streams sc"
    using r(2) conn_ok_upd [OF assms(1) _ _ _ refl, where f = "st_wroteHeaders_update (\<lambda>_. True)"] assms(1)
    by (auto simp: conn_ok_def)
  have live: "s \<in> streams sc1" if "wr_stream wr = Some s" "\<not> ig" for s
  proof (rule ccontr)
    assume "s \<notin> streams sc1"
    moreover have "created sc s" "\<not> (\<exists>sid code. wr_write wr = writeStreamError sid code)" using assms(3) [OF that(1)] by auto
    moreover have "s \<noteq> 0" using \<open>created sc s\<close> by (auto simp: created_def)
    ultimately show False using r(3) that sc1 by (simp add: wr_StreamID_def state_of_def created_def)
  qed
  let ?sc = "if ig then sc1 else sc1\<lparr>writeSched := ws_Push wr (writeSched sc1)\<rparr>"
  have "conn_ok X k L c ?sc" using sc1 push_ok [of X k L c sc1 wr] live by auto
  from sched_ok [OF this r(1)] have "conn_ok X k L c sc' \<and> keeps sc1 sc' \<and> undisturbed sc1 sc'"
    by (rule chain [rotated]) (simp add: keeps_def undisturbed_def unread_def)
  then show ?thesis using sc1 by (intro chain [of sc sc1]) simp_all
qed

lemma resetStream_ok:
  assumes "conn_ok X k L c sc" "resetStream sched sid code sc = Inr sc'"
  shows "conn_ok X k L c sc' \<and> keeps sc sc' \<and> undisturbed sc sc'"
proof -
  obtain sc1 where w: "writeFrame sched (conn_request (writeStreamError sid code)) sc = Inr sc1"
    "sc' = (if sid \<in> streams sc1 then upd_stream sid (st_resetQueued_update (\<lambda>_. True)) sc1 else sc1)"
    using assms(2) by (auto simp: resetStream_def go_result)
  have k: "conn_ok X k L c sc1 \<and> keeps sc sc1 \<and> undisturbed sc sc1"
    using writeFrame_ok [OF assms(1) w(1)] by (simp add: conn_request_def)
  have "conn_ok X k L c sc' \<and> keeps sc1 sc' \<and> undisturbed sc1 sc'"
    using w(2) k conn_ok_upd [where f = "st_resetQueued_update (\<lambda>_. True)" and s = sid, OF _ _ _ _ refl]
    by (auto simp: conn_ok_def)
  then show ?thesis using k by (intro chain [of sc sc1]) simp_all
qed

lemma goAway_ok:
  assumes "conn_ok X k L c sc" "goAway sched code sc = Inr sc'"
  shows "conn_ok X k L c sc' \<and> keeps sc sc' \<and> undisturbed sc sc'"
proof (cases "inGoAway sc")
  case True
  then show ?thesis using assms by (simp add: goAway_def)
next
  case False
  let ?sc = "sc\<lparr>inGoAway := True, needToSendGoAway := True, goAwayCode := code\<rparr>"
  have s: "same_core sc ?sc" by (simp add: same_core_def)
  have "sched ?sc = Inr sc'" using assms(2) False by (simp add: goAway_def)
  from sched_ok [OF _ this] show ?thesis using same_core_ok [OF s] assms(1) by (intro chain [of sc ?sc]) simp_all
qed

lemma sendWindowUpdate32_ok:
  assumes "conn_ok X (k + (if st = None then sint n else 0)) L c sc" "sendWindowUpdate32 sched st n sc = Inr sc'"
    "\<And>s. st = Some s \<Longrightarrow> created sc s"
  shows "conn_ok X k L c sc' \<and> keeps sc sc' \<and> undisturbed sc sc'"
proof (cases "n = 0")
  case True
  then show ?thesis using assms(1,2) by (cases st) (simp_all add: sendWindowUpdate32_def)
next
  case False
  then obtain sc1 where w: "writeFrame sched \<lparr>wr_write = writeWindowUpdate (case st of None \<Rightarrow> 0 | Some s \<Rightarrow> s) n, wr_stream = st, wr_done = None\<rparr> sc = Inr sc1"
    "fst (inflow_add st n (sc_inflow sc1))" "sc' = sc1\<lparr>sc_inflow := snd (inflow_add st n (sc_inflow sc1))\<rparr>" "0 \<le> sint n"
    using assms(2) by (auto simp: sendWindowUpdate32_def Let_def go_result split: if_splits)
  have k: "conn_ok X (k + (if st = None then sint n else 0)) L c sc1 \<and> keeps sc sc1 \<and> undisturbed sc sc1"
    using writeFrame_ok [OF assms(1) w(1)] assms(3) by auto
  have "conn_ok X k L c sc'" using k inflow_add_exact [OF w(2)] w(4) unfolding w(3)
    by (auto simp: conn_ok_def stream_table_ok_def queue_ok_def recv_ok_def send_ok_def unread_def)
  moreover have "keeps sc1 sc'" "undisturbed sc1 sc'" unfolding w(3) by (simp_all add: keeps_def undisturbed_def unread_def)
  ultimately show ?thesis using k by (intro chain [of sc sc1]) simp_all
qed

lemma sendWindowUpdate_ok:
  assumes "conn_ok X (k + (if st = None then n else 0)) L c sc" "sendWindowUpdate sched st n sc = Inr sc'" "0 \<le> n"
    "\<And>s. st = Some s \<Longrightarrow> created sc s"
  shows "conn_ok X k L c sc' \<and> keeps sc sc' \<and> undisturbed sc sc'"
  using assms
proof (induction "nat n" arbitrary: n sc k rule: less_induct)
  case less
  show ?case
  proof (cases "maxUint31 \<le> n")
    case False
    then have "sint (word_of_int n :: 32 word) = n" using less.prems(3) by (intro sint32_of_int) (simp_all add: maxUint31_def)
    moreover have "sendWindowUpdate32 sched st (word_of_int n) sc = Inr sc'"
      using less.prems(2) False by (simp add: sendWindowUpdate.simps [of sched st n sc])
    ultimately show ?thesis using sendWindowUpdate32_ok [of X k st "word_of_int n" L c sc sc'] less.prems(1,4) by (cases st) simp_all
  next
    case True
    then obtain sc1 where s: "sendWindowUpdate32 sched st (word_of_int maxUint31) sc = Inr sc1" "sendWindowUpdate sched st (n - maxUint31) sc1 = Inr sc'"
      using less.prems(2) by (auto simp: sendWindowUpdate.simps [of sched st n sc] split: sum.splits)
    have "conn_ok X (k + (if st = None then n - maxUint31 else 0) + (if st = None then sint (word_of_int maxUint31 :: 32 word) else 0)) L c sc"
      using less.prems(1) sint_maxUint31 by (cases st) simp_all
    from sendWindowUpdate32_ok [OF this s(1)] less.prems(4)
    have o: "conn_ok X (k + (if st = None then n - maxUint31 else 0)) L c sc1 \<and> keeps sc sc1 \<and> undisturbed sc sc1" by simp
    then have "conn_ok X k L c sc' \<and> keeps sc1 sc' \<and> undisturbed sc1 sc'"
      using less.hyps [OF _ _ s(2), of k] less.prems(4) True created_keeps [of sc sc1] by (simp add: maxUint31_def)
    then show ?thesis using o by (intro chain [of sc sc1]) simp_all
  qed
qed

lemma close_pipe_ok:
  assumes "conn_ok X (k + int (unread sc s)) L c sc" "close_pipe sched s err sc = Inr sc'"
  shows "conn_ok X k L c sc' \<and> keeps sc sc' \<and> undisturbed sc sc'"
proof (cases "st_body (objs sc s)")
  case None
  then show ?thesis using assms by (simp add: close_pipe_def unread_def)
next
  case (Some p)
  then have u: "pipe_Len dataBuffer_Len p = unread sc s" by (simp add: unread_def)
  obtain sc1 where s: "sendWindowUpdate sched None (int (unread sc s)) sc = Inr sc1" "sc' = close_body s err None sc1"
    using assms(2) Some u by (auto simp: close_pipe_def go_result)
  have "conn_ok X k L c sc1 \<and> keeps sc sc1 \<and> undisturbed sc sc1" using sendWindowUpdate_ok [OF _ s(1), of X k L c] assms(1) by simp
  then show ?thesis using close_body_ok [of X k L c sc1 s err None] s(2) by (intro chain [of sc sc1]) simp_all
qed

lemma closeStream_ok:
  assumes "conn_ok X k L c sc" "closeStream env sched s err sc = Inr sc'" "s \<in> streams sc"
  shows "conn_ok X k L c sc' \<and> keeps sc sc' \<and> (writing sc = None \<longrightarrow> settled sc')"
proof -
  let ?sc = "forget_stream s sc" and ?X = "insert s X"
  have sX: "s \<notin> X" using assms(1,3) by (auto simp: conn_ok_def stream_table_ok_def)
  obtain sc1 sc2 where r:
    "(if streams ?sc = {} \<and> e_keepAlivesDisabled env (sc_clock ?sc) then goAway sched http2ErrCodeNo ?sc else Inr ?sc) = Inr sc1"
    "close_pipe sched s err sc1 = Inr sc2"
    "sc' = (upd_stream s (st_cw_update (\<lambda>_. True)) sc2)\<lparr>writeSched := ws_CloseStream s (writeSched sc2)\<rparr>"
    using assms(2) by (auto simp: closeStream_def Let_def go_result split: if_splits)
  note d = forget_stream_ok [OF assms(1,3)]
  have 1: "conn_ok ?X (k + int (unread sc s)) L c sc1 \<and> keeps ?sc sc1 \<and> undisturbed ?sc sc1"
    using r(1) goAway_ok [OF d(1)] d(1) by (auto split: if_splits)
  have "unread sc1 s = unread sc s" using 1 d(2) by (simp add: keeps_def)
  then have 2: "conn_ok ?X k L c sc2 \<and> keeps ?sc sc2 \<and> undisturbed ?sc sc2"
    using close_pipe_ok [OF _ r(2), of ?X k L c] 1 by (intro chain [of ?sc sc1]) simp_all
  let ?u = "upd_stream s (st_cw_update (\<lambda>_. True)) sc2"
  have 3: "conn_ok ?X k L c ?u \<and> keeps sc2 ?u"
    using conn_ok_upd [where f = "st_cw_update (\<lambda>_. True)" and s = s and sc = sc2, OF _ _ _ _ refl] 2 by (auto simp: conn_ok_def)
  have e: "sc' = ?u\<lparr>writeSched := ws_CloseStream s (writeSched ?u)\<rparr>" using r(3) by simp
  then have k: "keeps ?u sc'" by (simp add: keeps_def unread_def)
  have "settled sc2" if "writing sc = None"
    using 2 undisturbed_settled [of ?sc sc2] that by (simp add: settled_def forget_stream_def Let_def)
  then have "writing sc = None \<longrightarrow> settled sc'" using e by (simp add: settled_def)
  moreover have "keeps sc sc'" using keeps_trans [OF d(2)] keeps_trans [of ?sc sc2] keeps_trans [OF _ k] 2 3 by blast
  ultimately show ?thesis using unqueue_ok [OF conjunct1 [OF 3] sX] e by simp
qed

lemma frame_was_written_ok:
  assumes "conn_ok X k L c sc" "frame_was_written env sched wr sc = Inr sc'"
    "\<And>s. wr_stream wr = Some s \<Longrightarrow> s \<in> streams sc \<or> st_state (objs sc s) = StateClosed" "writing sc = None"
  shows "conn_ok X k L c sc' \<and> keeps sc sc' \<and> settled sc'"
proof -
  have same: ?thesis if "sc' = sc" using that assms(1,4) by (simp add: settled_def)
  have close: ?thesis if "closeStream env sched s err sc = Inr sc'" "wr_stream wr = Some s \<or> s \<in> streams sc" for s err
    using closeStream_ok [OF assms(1) that(1)] that assms(3) [of s] assms(4) by (auto simp: closeStream_def)
  show ?thesis
  proof (cases "http2writeEndsStream (wr_write wr)")
    case True
    then obtain s where s: "wr_stream wr = Some s" using assms(2) by (auto simp: frame_was_written_def split: option.splits)
    show ?thesis
    proof (cases "st_state (objs sc s)")
      case StateOpen
      let ?sc = "upd_stream s (st_state_update (\<lambda>_. StateHalfClosedLocal)) sc"
      have "s \<in> streams sc" using assms(3) [OF s] StateOpen by simp
      then have o: "conn_ok X k L c ?sc \<and> keeps sc ?sc \<and> undisturbed sc ?sc"
        using conn_ok_upd [OF assms(1) _ _ _ refl, where f = "st_state_update (\<lambda>_. StateHalfClosedLocal)" and s = s] assms(1)
        by (auto simp: live_states_def conn_ok_def)
      have "resetStream sched s http2ErrCodeNo ?sc = Inr sc'" using assms(2) True s StateOpen by (simp add: frame_was_written_def)
      from resetStream_ok [OF conjunct1 [OF o] this] have "conn_ok X k L c sc' \<and> keeps sc sc' \<and> undisturbed sc sc'"
        using o by (intro chain [of sc ?sc]) simp_all
      then show ?thesis using undisturbed_settled [of sc sc'] assms(4) by (simp add: settled_def)
    next
      case StateHalfClosedRemote
      then show ?thesis using assms(2) True s close by (simp add: frame_was_written_def)
    qed (use assms(2) True s same in \<open>simp_all add: frame_was_written_def\<close>)
  next
    case False
    show ?thesis
    proof (cases "wr_write wr")
      case (writeStreamError sid code)
      then show ?thesis using assms(2) False same close [of sid] by (cases "sid \<in> streams sc") (simp_all add: frame_was_written_def)
    next
      case (handlerPanicRST sid)
      then obtain s where "wr_stream wr = Some s" using assms(2) False by (auto simp: frame_was_written_def split: option.splits)
      then show ?thesis using assms(2) False close [of s] handlerPanicRST by (simp add: frame_was_written_def)
    qed (use assms(2) False same in \<open>simp_all add: frame_was_written_def\<close>)
  qed
qed

lemma wroteFrame_ok:
  assumes "conn_ok X k L c sc" "wroteFrame env sched wr err sc = Inr sc'"
    "\<And>s. wr_stream wr = Some s \<Longrightarrow> s \<in> streams sc \<or> st_state (objs sc s) = StateClosed"
  shows "conn_ok X k L c sc' \<and> keeps sc sc' \<and> settled sc'"
proof -
  let ?sc = "sc\<lparr>writingFrame := False, writingFrameAsync := False, writing := None\<rparr>"
  obtain sc1 where w: "frame_was_written env sched wr ?sc = Inr sc1" "sched (replyToWriter wr err sc1) = Inr sc'"
    using assms(2) by (auto simp: wroteFrame_def go_result split: if_splits)
  have "conn_ok X k L c ?sc" "keeps sc ?sc" using assms(1)
    by (simp_all add: conn_ok_def stream_table_ok_def queue_ok_def recv_ok_def send_ok_def unread_def keeps_def)
  with frame_was_written_ok [OF _ w(1)] assms(3) have 1: "conn_ok X k L c sc1 \<and> keeps sc sc1 \<and> settled sc1"
    by (auto intro: keeps_trans)
  have s: "same_core sc1 (replyToWriter wr err sc1)" by (simp add: replyToWriter_def same_core_def split: option.split)
  have "conn_ok X k L c sc' \<and> keeps sc1 sc' \<and> undisturbed sc1 sc'"
    using sched_ok [OF _ w(2), of X k L c] same_core_ok [OF s] 1 by (intro chain [of sc1 "replyToWriter wr err sc1"]) simp_all
  then show ?thesis using 1 keeps_trans [of sc sc1 sc'] undisturbed_settled [of sc1 sc'] by simp
qed

end

interpretation inner: good_schedule Inr
  by unfold_locales simp

section \<open>The loop\<close>

lemma queue_consume_streams:
  assumes "queue_consume mfs n q f = Some (r, q', f')"
  shows "wr_stream ` set q' \<subseteq> wr_stream ` set q" "r = Some wr \<Longrightarrow> wr_stream wr \<in> wr_stream ` set q"
proof -
  have "(\<forall>x \<in> set rs. wr_stream x = wr_stream w)" if c: "Consume mfs n w f = Some (rs, f')" for w rs
  proof (cases "\<exists>sid p e. wr_write w = writeData sid p e")
    case True
    then show ?thesis using c by (auto simp: Consume_def Let_def split: if_splits option.splits)
  next
    case False
    then have "rs = [w]" using c by (cases "wr_write w") (auto simp: Consume_def)
    then show ?thesis by simp
  qed
  note same = this
  have "wr_stream ` set q' \<subseteq> wr_stream ` set q \<and> (\<forall>wr. r = Some wr \<longrightarrow> wr_stream wr \<in> wr_stream ` set q)"
  proof (cases q)
    case Nil
    then show ?thesis using assms by (auto simp: queue_consume_def)
  next
    case (Cons w q1)
    obtain rs f1 where c: "Consume mfs n w f = Some (rs, f1)" using assms Cons by (auto simp: queue_consume_def)
    then have "f1 = f'" using assms Cons by (cases rs; cases "tl rs") (auto simp: queue_consume_def)
    then have s: "\<forall>x \<in> set rs. wr_stream x = wr_stream w" using same c by simp
    have "r = None \<and> q' = q \<or> (\<exists>a. r = Some a \<and> wr_stream a = wr_stream w \<and> (q' = q1 \<or> (\<exists>b. q' = b # q1 \<and> wr_stream b = wr_stream w)))"
    proof (cases rs)
      case Nil
      then show ?thesis using assms Cons c by (simp add: queue_consume_def)
    next
      case (Cons a as)
      then show ?thesis using assms \<open>q = w # q1\<close> c s by (cases as) (auto simp: queue_consume_def)
    qed
    then show ?thesis unfolding Cons by auto
  qed
  then show "wr_stream ` set q' \<subseteq> wr_stream ` set q" "r = Some wr \<Longrightarrow> wr_stream wr \<in> wr_stream ` set q" by auto
qed

lemma pop_streams_streams:
  "pop_streams mfs order ws f = Some (r, ws', f') \<Longrightarrow>
   queued_streams ws' \<subseteq> queued_streams ws \<and> ws_zero ws' = ws_zero ws \<and> (\<forall>wr. r = Some wr \<longrightarrow> wr_stream wr \<in> queued_streams ws)"
proof (induction mfs order ws f rule: pop_streams.induct)
  case (2 mfs sid sids ws f)
  show ?case
  proof (cases "ws_sq ws sid")
    case None
    then show ?thesis using 2 by simp
  next
    case (Some q)
    then obtain r1 q1 f1 where c: "queue_consume mfs MaxInt32 q f = Some (r1, q1, f1)" using "2.prems" by (auto split: option.splits)
    let ?ws = "ws\<lparr>ws_sq := (ws_sq ws)(sid \<mapsto> q1)\<rparr>"
    have sub: "queued_streams ?ws \<subseteq> queued_streams ws"
    proof
      fix x assume "x \<in> queued_streams ?ws"
      then obtain s q' where x: "((ws_sq ws)(sid \<mapsto> q1)) s = Some q'" "x \<in> wr_stream ` set q'" unfolding queued_streams_def by auto
      show "x \<in> queued_streams ws"
      proof (cases "s = sid")
        case True
        then have "x \<in> wr_stream ` set q" using x queue_consume_streams(1) [OF c] by auto
        then show ?thesis using Some unfolding queued_streams_def by blast
      next
        case False
        then show ?thesis using x unfolding queued_streams_def by auto
      qed
    qed
    show ?thesis
    proof (cases r1)
      case None
      then have "pop_streams mfs sids ?ws f1 = Some (r, ws', f')" using "2.prems" Some c by simp
      from "2.IH"(2) [OF Some c refl None refl this] show ?thesis using sub by auto
    next
      case (Some wr)
      then have "wr_stream wr \<in> queued_streams ws"
        using queue_consume_streams(2) [OF c, of wr] \<open>ws_sq ws sid = Some q\<close> unfolding queued_streams_def by blast
      moreover have "r = Some wr" "ws' = ?ws" using "2.prems" \<open>ws_sq ws sid = Some q\<close> c Some by auto
      ultimately show ?thesis using sub by simp
    qed
  qed
qed simp

lemma ws_Pop_streams:
  assumes "ws_Pop mfs order ws f = Some (r, ws', f')" "\<forall>wr \<in> set (ws_zero ws). wr_stream wr = None"
  shows "queued_streams ws' \<subseteq> queued_streams ws" "set (ws_zero ws') \<subseteq> set (ws_zero ws)"
    "r = Some wr \<Longrightarrow> wr_stream wr = None \<or> wr_stream wr \<in> queued_streams ws"
proof -
  have "queued_streams (ws\<lparr>ws_zero := z\<rparr>) = queued_streams ws" for z by (simp add: queued_streams_def)
  then show "queued_streams ws' \<subseteq> queued_streams ws" "set (ws_zero ws') \<subseteq> set (ws_zero ws)"
    "r = Some wr \<Longrightarrow> wr_stream wr = None \<or> wr_stream wr \<in> queued_streams ws"
    using assms by (cases "ws_zero ws"; auto simp: ws_Pop_def dest!: pop_streams_streams)+
qed

lemma conn_request_stream [simp]: "wr_stream (conn_request w) = None"
  by (simp add: conn_request_def)

lemma charged_conn_request [simp]:
  "charged [conn_request writeSettingsAck] = 0" "charged [conn_request (writeGoAway m e)] = 0" "charged [conn_request flushFrameWriter] = 0"
  by (simp_all add: charged_def data_len_def wr_DataSize_def conn_request_def)

lemma startFrameWrite_ok:
  assumes "conn_ok X k L (c - charged [wr]) sc" "startFrameWrite env wr sc = Inr sc'"
    "\<And>s. wr_stream wr = Some s \<Longrightarrow> s \<in> streams sc \<or> s \<in> X"
  shows "conn_ok X k L c sc' \<and> keeps sc sc' \<and> settled sc'"
proof -
  let ?sc = "sc\<lparr>writingFrame := True, needsFrameFlush := True, written := written sc @ [wr], sc_clock := Suc (sc_clock sc), writingFrameAsync := False\<rparr>"
  have m: "may_start sc wr" "\<not> writingFrame sc" using assms(2) by (auto simp: startFrameWrite_def split: if_splits)
  have live: "s \<in> streams sc" if "wr_stream wr = Some s" for s
    using assms(3) [OF that] assms(1) m(1) that by (auto simp: may_start_def conn_ok_def stream_table_ok_def)
  have ok: "conn_ok X k L c ?sc" "keeps sc ?sc" using assms(1)
    by (simp_all add: conn_ok_def stream_table_ok_def queue_ok_def recv_ok_def send_ok_def unread_def keeps_def)
  show ?thesis
  proof (cases "staysWithinBuffer (wr_write wr) (e_room env (sc_clock sc))")
    case True
    then have "wroteFrame env Inr wr (e_err env (sc_clock sc)) ?sc = Inr sc'"
      using assms(2) m by (simp add: startFrameWrite_def Let_def)
    from inner.wroteFrame_ok [OF ok(1) this] live ok(2) show ?thesis by (auto intro: keeps_trans)
  next
    case False
    then have e: "sc' = ?sc\<lparr>writingFrameAsync := True, writing := Some wr\<rparr>"
      using assms(2) m by (simp add: startFrameWrite_def Let_def)
    have "conn_ok X k L c sc'" using ok(1) live
      by (auto simp: e conn_ok_def stream_table_ok_def queue_ok_def recv_ok_def send_ok_def unread_def)
    moreover have "keeps sc sc'" "settled sc'" using live by (simp_all add: e keeps_def unread_def settled_def)
    ultimately show ?thesis by simp
  qed
qed

lemma pop_frame_ok:
  assumes "conn_ok X k L c sc" "pop_frame env sc = Inr (r, sc')"
  shows "conn_ok X k L (c - charged (case r of None \<Rightarrow> [] | Some wr \<Rightarrow> [wr])) sc' \<and> keeps sc sc' \<and> writing sc' = writing sc \<and> streams sc' = streams sc"
    "r = Some wr \<Longrightarrow> wr_stream wr = Some s \<Longrightarrow> s \<in> streams sc' \<or> s \<in> X"
proof -
  have q: "ws_ok (writeSched sc)" "\<forall>wr \<in> set (ws_zero (writeSched sc)). wr_stream wr = None"
    "Some t \<in> queued_streams (writeSched sc) \<Longrightarrow> t \<in> streams sc \<or> t \<in> X" for t
    using assms(1) by (simp_all add: conn_ok_def queue_ok_def)
  have "conn_ok X k L (c - charged (case r of None \<Rightarrow> [] | Some wr \<Rightarrow> [wr])) sc' \<and> keeps sc sc' \<and> writing sc' = writing sc \<and> streams sc' = streams sc \<and>
    (\<forall>wr s. r = Some wr \<longrightarrow> wr_stream wr = Some s \<longrightarrow> s \<in> streams sc \<or> s \<in> X)"
  proof (cases "\<not> inGoAway sc \<or> goAwayCode sc = http2ErrCodeNo")
    case False
    then show ?thesis using assms by (auto simp: pop_frame_def)
  next
    case True
    then obtain ws f where p: "ws_Pop (sc_maxFrameSize sc) (e_order env (sc_clock sc)) (writeSched sc) (sc_flow sc) = Some (r, ws, f)"
      "sc' = sc\<lparr>writeSched := ws, sc_flow := f, sc_clock := Suc (sc_clock sc)\<rparr>"
      using assms(2) by (auto simp: pop_frame_def split: option.splits)
    have g: "pop_good (sc_maxFrameSize sc) (writeSched sc) (sc_flow sc) r ws f" 
      using ws_Pop_good [OF q(1), of "sc_maxFrameSize sc" "e_order env (sc_clock sc)" "sc_flow sc"] p(1) by simp
    note st = ws_Pop_streams [OF p(1) q(2)]
    have "queue_ok X sc'" using assms(1) g st(1,2) by (auto simp: p(2) conn_ok_def queue_ok_def pop_good_def)
    moreover have "send_ok (c - charged (case r of None \<Rightarrow> [] | Some wr \<Rightarrow> [wr])) sc'"
    proof (cases r)
      case None
      then show ?thesis using assms(1) g by (simp add: p(2) conn_ok_def send_ok_def pop_good_def)
    next
      case (Some wr)
      have "sint (available (sc_flow sc) t) \<le> sint (conn_n (sc_flow sc))" for t by (simp add: available_def Let_def)
      then have "charged [wr] \<le> sint (conn_n (sc_flow sc)) \<or> charged [wr] = 0" using g Some
        by (auto simp: pop_good_def charged_def within_windows_def)
      then show ?thesis using assms(1) g Some by (auto simp: p(2) conn_ok_def send_ok_def pop_good_def)
    qed
    moreover have "stream_table_ok X sc'" "recv_ok k L sc'" "\<forall>s. body_ok (st_body (objs sc' s))" "keeps sc sc'"
      using assms(1) by (simp_all add: p(2) conn_ok_def stream_table_ok_def recv_ok_def unread_def keeps_def)
    moreover have "s \<in> streams sc \<or> s \<in> X" if "r = Some wr" "wr_stream wr = Some s" for wr s
      using st(3) [OF that(1)] q(3) [of s] that(2) by auto
    moreover have "writing sc' = writing sc" "streams sc' = streams sc" by (simp_all add: p(2))
    ultimately show ?thesis by (simp add: conn_ok_def)
  qed
  then show "conn_ok X k L (c - charged (case r of None \<Rightarrow> [] | Some wr \<Rightarrow> [wr])) sc' \<and> keeps sc sc' \<and> writing sc' = writing sc \<and> streams sc' = streams sc"
    "r = Some wr \<Longrightarrow> wr_stream wr = Some s \<Longrightarrow> s \<in> streams sc' \<or> s \<in> X" by auto
qed

lemma schedule_loop_ok:
  "conn_ok X k L c sc \<Longrightarrow> settled sc \<Longrightarrow> schedule_loop env sc = Inr sc' \<Longrightarrow> conn_ok X k L c sc' \<and> keeps sc sc' \<and> settled sc'"
proof (induction env sc rule: schedule_loop.induct)
  case (1 env sc)
  note s = schedule_loop.simps [of env sc]
  have step: ?case if st: "startFrameWrite env wr sc1 = Inr sc2" "schedule_loop env sc3 = Inr sc'" and ok: "conn_ok X k L (c - charged [wr]) sc1" "keeps sc sc1"
    and live: "\<And>t. wr_stream wr = Some t \<Longrightarrow> t \<in> streams sc1 \<or> t \<in> X" and e: "same_core sc2 sc3"
    and IH: "conn_ok X k L c sc3 \<Longrightarrow> settled sc3 \<Longrightarrow> schedule_loop env sc3 = Inr sc' \<Longrightarrow> conn_ok X k L c sc' \<and> keeps sc3 sc' \<and> settled sc'" for wr sc1 sc2 sc3
  proof -
    have "conn_ok X k L c sc2 \<and> keeps sc1 sc2 \<and> settled sc2" using startFrameWrite_ok [OF ok(1) st(1)] live by blast
    moreover from this have "conn_ok X k L c sc' \<and> keeps sc3 sc' \<and> settled sc'" using IH st(2) same_core_ok [OF e] by simp
    ultimately show ?thesis using same_core_ok(2) [OF e] ok(2) keeps_trans by metis
  qed
  note ok = "1.prems"(1)
  show ?case
  proof (cases "writingFrameAsync sc")
    case True
    then show ?thesis using "1.prems" s by simp
  next
    case async: False
    show ?thesis
    proof (cases "needToSendGoAway sc \<or> needToSendSettingsAck sc")
      case True
      show ?thesis
      proof (cases "needToSendGoAway sc")
        case True
        let ?w = "conn_request (writeGoAway (maxClientStreamID sc) (goAwayCode sc))" and ?sc = "sc\<lparr>needToSendGoAway := False\<rparr>"
        obtain sc2 where w: "startFrameWrite env ?w ?sc = Inr sc2" "schedule_loop env sc2 = Inr sc'"
          using "1.prems"(3) s async True by (auto split: sum.splits)
        have c: "same_core sc ?sc" by (simp add: same_core_def)
        show ?thesis by (rule step [OF w _ _ _ _ "1.IH"(1) [OF async True w(1)]])
          (use ok same_core_ok [OF c] in \<open>simp_all add: same_core_def\<close>)
      next
        case False
        let ?w = "conn_request writeSettingsAck" and ?sc = "sc\<lparr>needToSendSettingsAck := False\<rparr>"
        have a: "needToSendSettingsAck sc" using True False by simp
        obtain sc2 where w: "startFrameWrite env ?w ?sc = Inr sc2" "schedule_loop env sc2 = Inr sc'"
          using "1.prems"(3) s async False a by (auto split: sum.splits)
        have c: "same_core sc ?sc" by (simp add: same_core_def)
        show ?thesis by (rule step [OF w _ _ _ _ "1.IH"(2) [OF async False a w(1)]])
          (use ok same_core_ok [OF c] in \<open>simp_all add: same_core_def\<close>)
      qed
    next
      case False
      then have f: "\<not> needToSendGoAway sc" "\<not> needToSendSettingsAck sc" by simp_all
      obtain r sc1 where p: "pop_frame env sc = Inr (r, sc1)" using "1.prems"(3) s async f by (auto split: sum.splits)
      note o = pop_frame_ok [OF ok p]
      show ?thesis
      proof (cases r)
        case (Some wr)
        then obtain sc2 where w: "startFrameWrite env wr sc1 = Inr sc2" "schedule_loop env sc2 = Inr sc'"
          using "1.prems"(3) s async f p by (auto split: sum.splits)
        show ?thesis by (rule step [OF w _ _ _ _ "1.IH"(4) [OF async f p refl Some w(1)]])
          (use o Some in \<open>simp_all add: same_core_def\<close>)
      next
        case None
        show ?thesis
        proof (cases "needsFrameFlush sc1")
          case False
          then show ?thesis using "1.prems" s async f p None o(1) by (simp add: settled_def)
        next
          case True
          then obtain sc2 where w: "startFrameWrite env (conn_request flushFrameWriter) sc1 = Inr sc2"
            "schedule_loop env (sc2\<lparr>needsFrameFlush := False\<rparr>) = Inr sc'"
            using "1.prems"(3) s async f p None by (auto split: sum.splits)
          show ?thesis by (rule step [OF w _ _ _ _ "1.IH"(3) [OF async f p refl None True w(1)]])
            (use o(1) None in \<open>simp_all add: same_core_def\<close>)
        qed
      qed
    qed
  qed
qed

interpretation outer: good_schedule "scheduleFrameWrite env" for env
proof
  fix X k L c sc sc'
  assume ok: "conn_ok X k L c sc" and r: "scheduleFrameWrite env sc = Inr sc'"
  show "conn_ok X k L c sc' \<and> keeps sc sc' \<and> undisturbed sc sc'"
  proof (cases "writingFrame sc \<or> inFrameScheduleLoop sc")
    case True
    then show ?thesis using ok r by (simp add: scheduleFrameWrite_def)
  next
    case False
    let ?sc = "sc\<lparr>inFrameScheduleLoop := True\<rparr>"
    obtain sc1 where l: "schedule_loop env ?sc = Inr sc1" "sc' = sc1\<lparr>inFrameScheduleLoop := False\<rparr>"
      using r False by (auto simp: scheduleFrameWrite_def go_result)
    have a: "same_core sc ?sc" and b: "same_core sc1 sc'" by (simp_all add: l(2) same_core_def)
    have "writing sc = None" using ok False by (auto simp: conn_ok_def queue_ok_def)
    then have "conn_ok X k L c sc1 \<and> keeps ?sc sc1 \<and> settled sc1"
      using schedule_loop_ok [OF _ _ l(1), of X k L c] ok same_core_ok [OF a] by (simp add: settled_def)
    then show ?thesis using same_core_ok [OF b] same_core_ok(2) [OF a] keeps_trans [of sc ?sc sc1] keeps_trans [of sc sc1 sc']
      by (simp add: undisturbed_def)
  qed
qed

end
