(* ===== verification/Spec2Isabelle.thy ===== *)
theory Spec2Isabelle
  imports Logging Config EstabCache GoCache Queue MutexQueue TempBuffer Routing HttpGuts Messages HttpHandler ReadBack ResponseHandler Transport Startup H2ConnInv
begin

text \<open>
  A verification of netramesh, a sidecar proxy. Connections of a service are redirected to the
  sidecar; it finds out where they were meant to go, relays them, and reads the HTTP messages that
  pass in order to add request ids, to trace them and to route them.

  \<^bold>\<open>How the program works.\<close> \<open>cmd/main.go\<close> reads the configuration (\<open>internal/config\<close>), sets up the
  logger (\<open>pkg/log\<close>) and two expiring caches, and hands every accepted connection to
  \<open>HandleConnection\<close> (\<open>pkg/transport/handler.go\<close>). This computes the original destination from
  the socket, chooses the protocol by its port (\<open>pkg/protocol/determiner.go\<close>) and starts one
  goroutine for the requests and one for the responses. For TCP they copy bytes
  (\<open>pkg/protocol/tcp.go\<close>). For HTTP (\<open>pkg/protocol/http.go\<close>) they read message after message with
  \<open>pkg/http\<close>, a fork of \<open>net/http\<close> of Go 1.12, and write each one again to the other side; the two
  goroutines share the queues of open requests and spans. With routing enabled each request may
  go to another host, so a third goroutine opens a connection per request and the goroutines
  talk over channels.

  \<^bold>\<open>Theories, in the order in which they build on each other.\<close>
  \<^item> \<open>Prelude\<close>, \<open>Strconv\<close>: what the components use of Go's \<open>strings\<close>, \<open>strconv\<close> and of 64-bit
    integers, with round trips. \<open>Interfaces\<close>: the locales \<open>keyed_store\<close> and \<open>fifo\<close>.
  \<^item> \<open>Logging\<close> (\<open>pkg/log/default.go\<close>), \<open>Config\<close> (\<open>internal/config/global.go\<close>), \<open>EstabCache\<close>
    (\<open>pkg/estabcache\<close>), \<open>GoCache\<close> (the vendored cache), \<open>Queue\<close> (the type in
    \<open>pkg/protocol/http.go\<close>), \<open>MutexQueue\<close> (the type in \<open>pkg/transport/handler.go\<close>), \<open>TempBuffer\<close>
    (\<open>pkg/protocol/tempbuffer.go\<close>), \<open>Routing\<close> (\<open>Determine\<close>, \<open>getRoutingDestination\<close>, the address
    of \<open>SO_ORIGINAL_DST\<close>): the state of a component is a record or a map, each operation a
    function on it; \<open>MutexQueue\<close> is a step relation, because its callers interleave.
  \<^item> \<open>GoIO\<close>, \<open>Bufio\<close>, \<open>Textproto\<close>, \<open>Url\<close>: the parts of \<open>io\<close>, \<open>bufio\<close>, \<open>net/textproto\<close> and \<open>net/url\<close>
    that the HTTP code calls. A connection is a list of segments and the error at its end; a
    buffered reader keeps what it fetched, so that read-ahead is visible.
  \<^item> \<open>HttpGuts\<close>, \<open>Headers\<close>, \<open>Cookies\<close>, \<open>Status\<close>: lexical rules, \<open>pkg/http/header.go\<close>, the request side
    of \<open>pkg/http/cookie.go\<close>, \<open>pkg/http/status.go\<close>.
  \<^item> \<open>Chunked\<close> (\<open>pkg/http/internal/chunked.go\<close>), \<open>Body\<close> and \<open>Framing\<close> (\<open>pkg/http/transfer.go\<close>),
    \<open>Messages\<close> (\<open>pkg/http/request.go\<close>, \<open>pkg/http/response.go\<close>): reading and writing messages.
  \<^item> \<open>Progress\<close>: what the readers leave of the stream is a suffix of it.
  \<^item> \<open>Tracing\<close> (\<open>NetHTTPRequest\<close>), \<open>HttpHandler\<close> (\<open>HandleRequest\<close>), \<open>ResponseHandler\<close>
    (\<open>HandleResponse\<close>), \<open>Transport\<close> (\<open>HandleConnection\<close>, the TCP handler, the factory), \<open>Startup\<close>
    (\<open>cmd/main.go\<close>). \<open>Pipeline\<close> and \<open>ReadBack\<close> model no code of their own: they state what a
    whole connection of requests becomes, on the wire and as the service behind the sidecar reads it.
  \<^item> \<open>VarInt\<close>, \<open>HuffmanCode\<close>, \<open>HuffmanTree\<close>, \<open>HuffmanString\<close>, \<open>HuffmanDecode\<close>, \<open>HpackTables\<close>, \<open>Hpack\<close>,
    \<open>HpackStream\<close>: the header compression of HTTP/2
    (\<open>internal/patches/golang_org/x/net/http2/hpack\<close>), which the fork of \<open>net/http\<close> uses. Octets, bit
    buffers, sizes and ids are words of their width in Go.
  \<^item> \<open>H2Frames\<close>, \<open>H2Framer\<close>, \<open>H2Headers\<close>, \<open>H2Buffer\<close>, \<open>H2Sched\<close>: the layers of HTTP/2 in \<open>pkg/http/h2_bundle.go\<close> below its
    connections: frames and how they are parsed and written; the framer, which checks their order and
    puts header blocks together; the header of a response; the buffer and the pipe that hold
    the body of a stream (over the locale \<open>pipe_buffer\<close>); flow control and the random write scheduler.
    \<open>H2Round\<close>, \<open>H2Meta\<close> and \<open>H2Pieces\<close> relate writing and reading and model no code of their own.

  \<^bold>\<open>What is shown.\<close>
  \<^item> Forwarding: a request or response that arrives whole is sent on with its first line, its
    header and exactly its body under the same framing, and the loop stands at the next message
    (\<open>request_turn_forwards\<close>, \<open>response_turn_forwards\<close>, \<open>forwarded_request_body_exact\<close>); no forwarded
    request has two framing headers; a target in origin form is unchanged; whatever happens, a
    connection is only ever sent more bytes (\<open>HandleRequest_only_appends\<close>, over the locale \<open>relay\<close>).
    For a whole connection: requests that arrive back to back are each sent on
    (\<open>pipelined_requests_forwarded\<close>), and the service reads the requests the client sent
    (\<open>service_receives_requests\<close>).
  \<^item> Framing: the chunked reader, with all its dependence on buffers and read sizes, implements
    the decoding of the byte stream; bodies are copied exactly and truncation is an error;
    Transfer-Encoding excludes Content-Length; header fields and cookies survive a round trip.
  \<^item> Concurrency: the goroutines of a routed connection neither panic on their channels nor block
    each other, and connections are served in order; \<open>MutexQueue\<close> is a fair lock.
  \<^item> Tracing and routing: a response finishes the oldest open span, and the routing value and
    trace context of an inbound request reach the outbound requests with its request id.
  \<^item> Header compression: integers and Huffman-coded strings survive the wire, and only their
    encodings are accepted; the dynamic table implements a list of the entries that fit; a decoder
    in step with the encoder returns the fields that were written and stays in step, however the block
    is cut into pieces.
  \<^item> HTTP/2: every frame that is written is read back (\<open>frames_roundtrip\<close>); header blocks are not interleaved, and the
    headers that are returned are well formed, whatever the peer sends; the header of a response reaches the peer with exactly its
    fields (\<open>response_headers_read\<close>); a pipe delivers what was written and its error last (\<open>pipe_delivers\<close>); the scheduler
    delivers on each stream what was pushed, within the windows, and holds back nothing that could be
    sent (\<open>scheduler_delivers\<close>, \<open>Pop_nothing_only_if_blocked\<close>).
  \<^item> Start, configuration and the small components: when the program serves, which environments are accepted and what they
    configure, first in first out, lifetimes, address and routing syntax.
  \<^item> Behaviours that differ from the evident intention are theorems too, for example
    \<open>unparsed_stream_fallback\<close>, \<open>pipelined_request_traced_as_oldest\<close>, \<open>HEAD_response_swallows_next\<close>,
    \<open>Clear_returns_iff_empty\<close>, \<open>size_update_refused\<close> and \<open>fatal_after_rejected_level_panics\<close>.

  \<^bold>\<open>Termination and bounds.\<close> No definition runs on fuel: every loop is a total function with a
  termination proof, by the length of the stream that is left (\<open>Progress\<close>) or of the input. The
  exception is \<open>Clear\<close>, a loop that does end only on an empty queue; not returning is \<open>None\<close>.
  Ports, durations, clock readings, chunk lengths, octets and table sizes are words of their width in Go; lengths
  of messages are integers with the bounds of \<open>int64\<close> where the code parses them.

  \<^bold>\<open>Parameters.\<close> The tracer, the clock, the uuid generator, the outcome of dialling, the
  Punycode conversion (\<open>toASCII\<close>) and the timed probe of a body of unknown length are arguments.
  What the other goroutine of a connection does to the shared queues between two turns is an
  argument of the loops (\<open>other\<close>).

  \<^bold>\<open>Not modelled.\<close> The profiling and metrics servers that \<open>main\<close> starts; sockets, deadlines and the effect of
  \<open>closeConn\<close> on a read that is under way; the log lines of the handlers; \<open>sync.Pool\<close>. Of
  \<open>pkg/http\<close>: the server, the client, the connections and the priority scheduler of HTTP/2, file serving, CGI, proxies, forms and multipart bodies,
  which the sidecar does not run. The copied packages under \<open>internal/patches\<close> other than
  \<open>httpguts\<close> and \<open>hpack\<close>: Unicode tables, DNS messages, cryptography.
\<close>

end
